(* ===== verification/JsPrelude.thy ===== *)
theory JsPrelude
  imports Main "HOL-Library.AList"
begin

text \<open>
  What the components share: results that may be a thrown exception, the plain JavaScript
  object seen as a dictionary of own properties, \<open>Array.prototype.splice\<close> on one index,
  decimal numerals, and the interface of a memo table (the caches of the template engine are
  plain objects used as memo tables) with the lemmas its clients need.
\<close>

named_theorems js_eval \<open>equations that evaluate the model of the JavaScript runtime\<close>
named_theorems scan_eval \<open>equations that evaluate the scanner\<close>

section \<open>Exceptions\<close>

text \<open>The exceptions the modelled code throws, or that the language throws for it.\<close>

datatype js_error = JsError string | TypeError | SyntaxError | RangeError

text \<open>
  A JavaScript call either throws or returns. The thrown value comes first, so that
  \<open>Inl\<close> is an exception and \<open>Inr\<close> a returned value; \<open>bindr\<close> is the
  sequencing that lets an exception propagate.
\<close>

definition bindr :: "'e + 'a \<Rightarrow> ('a \<Rightarrow> 'e + 'b) \<Rightarrow> 'e + 'b" where
  "bindr m f = (case m of Inl e \<Rightarrow> Inl e | Inr x \<Rightarrow> f x)"

lemma bindr_simps [simp, js_eval]:
  "bindr (Inl e) f = Inl e"
  "bindr (Inr x) f = f x"
  by (simp_all add: bindr_def)

lemma bindr_cong [fundef_cong]:
  "m = m' \<Longrightarrow> (\<And>x. m' = Inr x \<Longrightarrow> f x = g x) \<Longrightarrow> bindr m f = bindr m' g"
  by (auto simp: bindr_def split: sum.split)

lemma bindr_Inr_conv: "bindr m f = Inr y \<longleftrightarrow> (\<exists>x. m = Inr x \<and> f x = Inr y)"
  by (cases m) auto

lemma bindr_Inl_conv: "bindr m f = Inl e \<longleftrightarrow> m = Inl e \<or> (\<exists>x. m = Inr x \<and> f x = Inl e)"
  by (cases m) auto

lemma bindr_assoc: "bindr (bindr m f) g = bindr m (\<lambda>x. bindr (f x) g)"
  by (cases m) auto

section \<open>Arrays\<close>

text \<open>\<open>xs.splice(i, 1)\<close>: an index past the end removes nothing.\<close>

definition splice1 :: "nat \<Rightarrow> 'a list \<Rightarrow> 'a list" where
  "splice1 i xs = take i xs @ drop (Suc i) xs"

lemma length_splice1: "i < length xs \<Longrightarrow> length (splice1 i xs) = length xs - 1"
  by (simp add: splice1_def)

lemma splice1_middle [simp]: "length us = i \<Longrightarrow> splice1 i (us @ x # vs) = us @ vs"
  by (auto simp: splice1_def)

lemma set_splice1: "set (splice1 i xs) \<subseteq> set xs"
  unfolding splice1_def by (auto dest: in_set_takeD in_set_dropD)

text \<open>\<open>s.split(x)\<close> at one character.\<close>

fun split_at :: "char \<Rightarrow> string \<Rightarrow> string list" where
  "split_at x [] = [[]]"
| "split_at x (c # s) = (if c = x then [] # split_at x s else case split_at x s of [] \<Rightarrow> [[c]] | w # ws \<Rightarrow> (c # w) # ws)"

lemma split_at_none: "x \<notin> set s \<Longrightarrow> split_at x s = [s]"
  by (induction s) auto

lemma split_at_next: "x \<notin> set s \<Longrightarrow> split_at x (s @ x # t) = s # split_at x t"
  by (induction s) auto

section \<open>Plain objects as dictionaries\<close>

text \<open>
  The own properties of an object are an association list without an order the code relies
  on; \<open>obj_get\<close> reads an own property, \<open>obj_set\<close> is the assignment
  \<open>o[k] = v\<close>.
\<close>

type_synonym 'v js_obj = "(string \<times> 'v) list"

definition obj_get :: "'v js_obj \<Rightarrow> string \<Rightarrow> 'v option" where
  "obj_get d k = map_of d k"

definition obj_set :: "string \<Rightarrow> 'v \<Rightarrow> 'v js_obj \<Rightarrow> 'v js_obj" where
  "obj_set k v d = AList.update k v d"

lemma obj_get_simps [simp, js_eval]:
  "obj_get [] k = None"
  "obj_get ((k', v) # d) k = (if k = k' then Some v else obj_get d k)"
  by (simp_all add: obj_get_def)

lemma obj_set_simps [simp, js_eval]:
  "obj_set k v [] = [(k, v)]"
  "obj_set k v ((k', v') # d) = (if k' = k then (k, v) # d else (k', v') # obj_set k v d)"
  by (auto simp: obj_set_def)

lemma obj_get_set: "obj_get (obj_set k v d) k' = (if k' = k then Some v else obj_get d k')"
  by (simp add: obj_get_def obj_set_def update_conv' fun_upd_def)

section \<open>Memo tables\<close>

text \<open>
  A memo table stores results under keys. \<open>sound f t\<close> says that every stored result
  is what \<open>f\<close> gives; a client that stores only results of \<open>f\<close> keeps it, and a
  hit in a sound table is the result of \<open>f\<close>.
\<close>

locale memo_table =
  fixes get :: "'t \<Rightarrow> 'k \<Rightarrow> 'v option"
    and put :: "'k \<Rightarrow> 'v \<Rightarrow> 't \<Rightarrow> 't"
    and fresh :: 't
  assumes get_fresh: "get fresh k = None"
    and get_put: "get (put k v t) k' = (if k' = k then Some v else get t k')"
begin

definition sound :: "('k \<Rightarrow> 'v option) \<Rightarrow> 't \<Rightarrow> bool" where
  "sound f t \<longleftrightarrow> (\<forall>k v. get t k = Some v \<longrightarrow> f k = Some v)"

lemma sound_fresh: "sound f fresh"
  by (simp add: sound_def get_fresh)

lemma sound_put: "sound f t \<Longrightarrow> f k = Some v \<Longrightarrow> sound f (put k v t)"
  by (auto simp: sound_def get_put)

lemma sound_hit: "sound f t \<Longrightarrow> get t k = Some v \<Longrightarrow> f k = Some v"
  by (auto simp: sound_def)

lemma put_hit: "get (put k v t) k = Some v"
  by (simp add: get_put)

end

interpretation objmemo: memo_table obj_get obj_set "[] :: 'v js_obj"
  by unfold_locales (simp_all add: obj_get_set)

section \<open>Decimal numerals\<close>

text \<open>\<open>String(n)\<close> of a non-negative integer.\<close>

definition digit :: "nat \<Rightarrow> char" where
  "digit d = char_of (48 + d)"

fun nat_dec :: "nat \<Rightarrow> string" where
  "nat_dec n = (if n < 10 then [digit n] else nat_dec (n div 10) @ [digit (n mod 10)])"

declare nat_dec.simps [simp del]

lemma nat_dec_small: "n < 10 \<Longrightarrow> nat_dec n = [digit n]"
  by (simp add: nat_dec.simps)

lemma nat_dec_nonempty [simp]: "nat_dec n \<noteq> []" "[] \<noteq> nat_dec n"
  by (subst nat_dec.simps, simp)+

lemma digit_inject: "m < 10 \<Longrightarrow> n < 10 \<Longrightarrow> digit m = digit n \<longleftrightarrow> m = n"
proof
  assume b: "m < 10" "n < 10" and "digit m = digit n"
  then have "of_char (digit m) = (of_char (digit n) :: nat)" by simp
  with b show "m = n" by (simp add: digit_def of_char_of)
qed simp

lemma nat_dec_inject: "nat_dec m = nat_dec n \<longleftrightarrow> m = n"
proof
  show "nat_dec m = nat_dec n \<Longrightarrow> m = n"
  proof (induction m arbitrary: n rule: nat_dec.induct)
    case (1 m)
    show ?case
    proof (cases "m < 10")
      case True
      with 1(2) have "n < 10"
        by (subst (asm) nat_dec.simps, subst (asm) (2) nat_dec.simps) (auto split: if_splits)
      with True 1(2) show ?thesis by (simp add: nat_dec_small digit_inject)
    next
      case False
      with 1(2) have n: "\<not> n < 10"
        by (subst (asm) nat_dec.simps, subst (asm) (2) nat_dec.simps) (auto split: if_splits)
      from False n 1(2) have "nat_dec (m div 10) = nat_dec (n div 10)"
        and d: "digit (m mod 10) = digit (n mod 10)"
        by (simp_all add: nat_dec.simps [of m] nat_dec.simps [of n])
      with 1(1) False have "m div 10 = n div 10" by blast
      moreover from d have "m mod 10 = n mod 10" by (simp add: digit_inject)
      ultimately show ?thesis by (metis div_mult_mod_eq)
    qed
  qed
qed simp

section \<open>Letter case\<close>

text \<open>\<open>toLowerCase\<close> on the characters up to 255, and \<open>toUpperCase\<close> on the basic letters.\<close>

definition to_lower :: "char \<Rightarrow> char" where
  "to_lower c = (let n = of_char c :: nat in
     if 65 \<le> n \<and> n \<le> 90 \<or> 192 \<le> n \<and> n \<le> 222 \<and> n \<noteq> 215 then char_of (n + 32) else c)"

definition to_upper :: "char \<Rightarrow> char" where
  "to_upper c = (let n = of_char c :: nat in if 97 \<le> n \<and> n \<le> 122 then char_of (n - 32) else c)"

end
