(* ===== verification/JsValues.thy ===== *)
theory JsValues
  imports JsPrelude
begin

text \<open>
  The JavaScript values a view is made of, the truth test, property reads and conversion to a
  string. A number is represented by the text \<open>String(n)\<close> gives, which is all the modelled
  code observes of it beside its truth. Functions are identifiers: what a function of the caller
  does when called, what the built-in prototypes hold and how an object converts itself to a
  string are parameters of the model, the fields of \<open>js_env\<close>.
\<close>

datatype fid = User nat | Builtin string

datatype jsval =
  Undef | Null | Bool bool | Num string | Str string | Arr "jsval list"
| Obj "(string \<times> jsval) list" | Fun fid

text \<open>
  A lambda of a section may return, throw, or ask for a template to be rendered and go on with
  what the rendering returned or threw.
\<close>

datatype lam = Done "js_error + jsval" | Ask string "js_error + jsval \<Rightarrow> lam"

text \<open>
  \<open>env_proto v k\<close>: the property \<open>k\<close> that \<open>v\<close> inherits (\<open>Undef\<close> if
  none). \<open>env_call f this\<close>: \<open>f.call(this)\<close>. \<open>env_section f this text\<close>:
  \<open>f.call(this, text, render)\<close>. \<open>env_string\<close>: an object or function as a string,
  for \<open>String(v)\<close> (True) and for the operator \<open>+\<close> (False). \<open>env_foreign v arg\<close>:
  \<open>v(arg)\<close> for a value that is no compiled template.
\<close>

record js_env =
  env_proto :: "jsval \<Rightarrow> string \<Rightarrow> jsval"
  env_call :: "fid \<Rightarrow> jsval \<Rightarrow> js_error + jsval"
  env_section :: "fid \<Rightarrow> jsval \<Rightarrow> string \<Rightarrow> lam"
  env_string :: "bool \<Rightarrow> jsval \<Rightarrow> js_error + string"
  env_foreign :: "jsval \<Rightarrow> jsval option \<Rightarrow> js_error + jsval"

text \<open>An environment in which nothing is inherited and functions do nothing, for examples.\<close>

definition no_proto_env :: js_env where
  "no_proto_env = \<lparr>env_proto = (\<lambda>v k. Undef), env_call = (\<lambda>f this. Inr Undef),
     env_section = (\<lambda>f this text. Done (Inr Undef)), env_string = (\<lambda>h v. Inr ''[object Object]''),
     env_foreign = (\<lambda>v arg. Inl TypeError)\<rparr>"

fun truthy :: "jsval \<Rightarrow> bool" where
  "truthy Undef = False"
| "truthy Null = False"
| "truthy (Bool b) = b"
| "truthy (Num n) = (n \<noteq> ''0'' \<and> n \<noteq> ''NaN'')"
| "truthy (Str s) = (s \<noteq> [])"
| "truthy (Arr vs) = True"
| "truthy (Obj ps) = True"
| "truthy (Fun f) = True"

text \<open>\<open>v == null\<close>\<close>

definition nullish :: "jsval \<Rightarrow> bool" where
  "nullish v \<longleftrightarrow> v = Undef \<or> v = Null"

lemma truthy_not_nullish: "truthy v \<Longrightarrow> \<not> nullish v"
  by (auto simp: nullish_def)

definition index_of_name :: "string \<Rightarrow> nat \<Rightarrow> nat option" where
  "index_of_name k n = List.find (\<lambda>i. nat_dec i = k) [0..<n]"

fun own_prop :: "jsval \<Rightarrow> string \<Rightarrow> jsval option" where
  "own_prop (Arr vs) k =
     (if k = ''length'' then Some (Num (nat_dec (length vs)))
      else map_option (\<lambda>i. vs ! i) (index_of_name k (length vs)))"
| "own_prop (Str s) k =
     (if k = ''length'' then Some (Num (nat_dec (length s)))
      else map_option (\<lambda>i. Str [s ! i]) (index_of_name k (length s)))"
| "own_prop (Obj ps) k = obj_get ps k"
| "own_prop _ k = None"

text \<open>\<open>v[k]\<close>\<close>

definition js_get :: "js_env \<Rightarrow> jsval \<Rightarrow> string \<Rightarrow> js_error + jsval" where
  "js_get E v k =
     (if nullish v then Inl TypeError
      else Inr (case own_prop v k of Some x \<Rightarrow> x | None \<Rightarrow> env_proto E v k))"

lemma js_get_truthy: "truthy v \<Longrightarrow> \<exists>x. js_get E v k = Inr x"
  by (auto simp: js_get_def dest: truthy_not_nullish)

fun all_or_error :: "(js_error + 'a) list \<Rightarrow> js_error + 'a list" where
  "all_or_error [] = Inr []"
| "all_or_error (r # rs) = bindr r (\<lambda>x. bindr (all_or_error rs) (\<lambda>xs. Inr (x # xs)))"

fun comma_join :: "string list \<Rightarrow> string" where
  "comma_join [] = []"
| "comma_join [s] = s"
| "comma_join (s # t # ss) = s @ '','' @ comma_join (t # ss)"

text \<open>\<open>String(v)\<close> and, inside a concatenation, \<open>"" + v\<close>.\<close>

fun js_string :: "js_env \<Rightarrow> bool \<Rightarrow> jsval \<Rightarrow> js_error + string" where
  "js_string E h Undef = Inr ''undefined''"
| "js_string E h Null = Inr ''null''"
| "js_string E h (Bool b) = Inr (if b then ''true'' else ''false'')"
| "js_string E h (Num n) = Inr n"
| "js_string E h (Str s) = Inr s"
| "js_string E h (Arr vs) =
     bindr (all_or_error (map (\<lambda>v. if nullish v then Inr [] else js_string E True v) vs))
       (\<lambda>ss. Inr (comma_join ss))"
| "js_string E h (Obj ps) = env_string E h (Obj ps)"
| "js_string E h (Fun f) = env_string E h (Fun f)"

end
