(* ===== verification/MuScanner.thy ===== *)
theory MuScanner
  imports JsPrelude
begin

text \<open>
  The scanning layer of \<open>node-env/lib/mustache.js\<close>: the regular expressions of the
  template engine with the matching rules of the language, \<open>escapeRe\<close> and the
  \<open>RegExp\<close> constructor that reads its result back, \<open>escapeHtml\<close>, and the
  \<open>Scanner\<close> class. Strings are lists of 8-bit characters: code units below 256.
\<close>

section \<open>Characters and regular expressions\<close>

text \<open>The characters of the class \<open>\s\<close> among the code units below 256.\<close>

definition is_space :: "char \<Rightarrow> bool" where
  "is_space c \<longleftrightarrow> of_char c \<in> {9, 10, 11, 12, 13, 32, 160 :: nat}"

definition is_word_char :: "char \<Rightarrow> bool" where
  "is_word_char c \<longleftrightarrow> (let n = of_char c :: nat in
     48 \<le> n \<and> n \<le> 57 \<or> 65 \<le> n \<and> n \<le> 90 \<or> n = 95 \<or> 97 \<le> n \<and> n \<le> 122)"

text \<open>
  Every expression the code uses is a sequence of one-character atoms, each taken once or
  starred. \<open>Star\<close> is greedy and backtracks.
\<close>

datatype rx_atom = Ch char | Sp | NonSp | AnyOf "char list"

datatype rx_item = One rx_atom | Star rx_atom

type_synonym rx = "rx_item list"

fun atom_ok :: "rx_atom \<Rightarrow> char \<Rightarrow> bool" where
  "atom_ok (Ch d) c = (c = d)"
| "atom_ok Sp c = is_space c"
| "atom_ok NonSp c = (\<not> is_space c)"
| "atom_ok (AnyOf ds) c = (c \<in> set ds)"

text \<open>The length of the match that starts at the head of the text, if there is one.\<close>

fun match_at :: "rx \<Rightarrow> string \<Rightarrow> nat option" where
  "match_at [] s = Some 0"
| "match_at (One a # r) [] = None"
| "match_at (One a # r) (c # s) = (if atom_ok a c then map_option Suc (match_at r s) else None)"
| "match_at (Star a # r) [] = match_at r []"
| "match_at (Star a # r) (c # s) =
     (if atom_ok a c
      then (case match_at (Star a # r) s of Some n \<Rightarrow> Some (Suc n) | None \<Rightarrow> match_at r (c # s))
      else match_at r (c # s))"

text \<open>\<open>s.match(re)\<close>: index and length of the leftmost match.\<close>

fun rx_search :: "rx \<Rightarrow> string \<Rightarrow> (nat \<times> nat) option" where
  "rx_search r [] = map_option (\<lambda>n. (0, n)) (match_at r [])"
| "rx_search r (c # s) =
     (case match_at r (c # s) of
        Some n \<Rightarrow> Some (0, n)
      | None \<Rightarrow> map_option (\<lambda>(i, n). (Suc i, n)) (rx_search r s))"

lemma match_at_le: "match_at r s = Some n \<Longrightarrow> n \<le> length s"
  by (induction r s arbitrary: n rule: match_at.induct) (auto split: if_splits option.splits)

lemma rx_search_le: "rx_search r s = Some (i, n) \<Longrightarrow> i + n \<le> length s"
  by (induction s arbitrary: i)
    (auto split: option.splits dest: match_at_le)

lemma rx_search_match:
  "rx_search r s = Some (i, n) \<Longrightarrow> match_at r (drop i s) = Some n"
  by (induction s arbitrary: i) (auto split: option.splits)

lemma rx_search_leftmost:
  "rx_search r s = Some (i, n) \<Longrightarrow> j < i \<Longrightarrow> match_at r (drop j s) = None"
proof (induction s arbitrary: i j)
  case (Cons c s)
  then show ?case by (cases j) (auto split: option.splits)
qed auto

lemma rx_search_None_iff: "rx_search r s = None \<longleftrightarrow> (\<forall>j \<le> length s. match_at r (drop j s) = None)"
proof (induction s)
  case (Cons c s)
  have "(\<forall>j \<le> length (c # s). match_at r (drop j (c # s)) = None) \<longleftrightarrow>
      match_at r (c # s) = None \<and> (\<forall>j \<le> length s. match_at r (drop j s) = None)"
    (is "?l \<longleftrightarrow> ?r")
  proof
    assume l: ?l
    show ?r
    proof (intro conjI allI impI)
      from l show "match_at r (c # s) = None" by (metis drop0 zero_le)
      fix j assume "j \<le> length s"
      with l have "match_at r (drop (Suc j) (c # s)) = None" by (metis Suc_le_mono length_Cons)
      then show "match_at r (drop j s) = None" by simp
    qed
  next
    assume ?r
    then show ?l by (metis Suc_le_mono drop0 drop_Suc_Cons length_Cons not0_implies_Suc)
  qed
  with Cons.IH show ?case by (auto split: option.splits)
qed auto

lemma rx_search_0: "match_at r s = Some n \<Longrightarrow> rx_search r s = Some (0, n)"
  by (cases s) auto

lemma rx_search_fst_0: "rx_search r s = Some (0, n) \<longleftrightarrow> match_at r s = Some n"
  using rx_search_match [of r s 0 n] rx_search_0 [of r s n] by auto

section \<open>The expressions of the engine\<close>

definition whiteRe :: rx where "whiteRe = [Star Sp]"
definition spaceRe :: rx where "spaceRe = [One Sp, Star Sp]"
definition nonSpaceRe :: rx where "nonSpaceRe = [One NonSp]"
definition eqRe :: rx where "eqRe = [Star Sp, One (Ch CHR ''='')]"
definition curlyRe :: rx where "curlyRe = [Star Sp, One (Ch CHR ''}'')]"
definition tagRe :: rx where "tagRe = [One (AnyOf ''#^/>{&=!'')]"

lemmas engine_res = whiteRe_def spaceRe_def nonSpaceRe_def eqRe_def curlyRe_def tagRe_def

definition testRe :: "rx \<Rightarrow> string \<Rightarrow> bool" where
  "testRe r s \<longleftrightarrow> rx_search r s \<noteq> None"

definition isWhitespace :: "string \<Rightarrow> bool" where
  "isWhitespace s \<longleftrightarrow> \<not> testRe nonSpaceRe s"

lemma isWhitespace_iff: "isWhitespace s \<longleftrightarrow> (\<forall>c \<in> set s. is_space c)"
  by (induction s) (auto simp: isWhitespace_def testRe_def nonSpaceRe_def split: option.splits)

section \<open>escapeRe and the RegExp constructor\<close>

text \<open>The characters of the class in \<open>escapeRe\<close>: \<open>[\-\[\]{}()*+?.,\\^$|#\s]\<close>.\<close>

definition re_special :: "char \<Rightarrow> bool" where
  "re_special c \<longleftrightarrow> c \<in> set (CHR 0x5C # ''-[]{}()*+?.,^$|#'') \<or> is_space c"

fun escapeRe :: "string \<Rightarrow> string" where
  "escapeRe [] = []"
| "escapeRe (c # s) = (if re_special c then CHR 0x5C # c # escapeRe s else c # escapeRe s)"

text \<open>
  What \<open>new RegExp(p)\<close> makes of a pattern: a backslash before a character that is no
  letter, digit or underscore stands for that character, \<open>\s\<close> and \<open>\S\<close> are
  the space classes, an atom may carry a \<open>*\<close>. Patterns with other syntax are not
  built by the engine; the reader refuses them.
\<close>

definition syntax_char :: "char \<Rightarrow> bool" where
  "syntax_char c \<longleftrightarrow> c \<in> set (CHR 0x5C # ''^$.*+?()[]{}|'')"

fun read_atom :: "string \<Rightarrow> (rx_atom \<times> string) option" where
  "read_atom [] = None"
| "read_atom (c # s) =
     (if c = CHR 0x5C
      then (case s of
              [] \<Rightarrow> None
            | d # s' \<Rightarrow> if d = CHR ''s'' then Some (Sp, s')
                else if d = CHR ''S'' then Some (NonSp, s')
                else if is_word_char d then None
                else Some (Ch d, s'))
      else if syntax_char c then None
      else Some (Ch c, s))"

lemma read_atom_length: "read_atom s = Some (a, s') \<Longrightarrow> length s' < length s"
  by (cases s) (auto split: if_splits list.splits)

function read_rx :: "string \<Rightarrow> rx option" where
  "read_rx s =
     (if s = [] then Some []
      else case read_atom s of
        None \<Rightarrow> None
      | Some (a, s') \<Rightarrow>
          if s' \<noteq> [] \<and> hd s' = CHR ''*''
          then map_option ((#) (Star a)) (read_rx (tl s'))
          else map_option ((#) (One a)) (read_rx s'))"
  by pat_completeness auto
termination
  by (relation "measure length") (auto dest!: read_atom_length)

declare read_rx.simps [simp del]

definition lit :: "string \<Rightarrow> rx" where
  "lit s = map (\<lambda>c. One (Ch c)) s"

lemma lit_simps [simp]: "lit [] = []" "lit (c # s) = One (Ch c) # lit s"
  by (simp_all add: lit_def)

lemma special_not_word: "re_special c \<Longrightarrow> \<not> is_word_char c"
  by (auto simp: re_special_def is_word_char_def is_space_def Let_def)

lemma syntax_special: "syntax_char c \<Longrightarrow> re_special c"
  by (auto simp: re_special_def syntax_char_def)

lemma word_s: "is_word_char CHR ''s''" "is_word_char CHR ''S''"
  by (simp_all add: is_word_char_def Let_def)

lemma read_atom_escaped: "re_special c \<Longrightarrow> read_atom (CHR 0x5C # c # s) = Some (Ch c, s)"
  using special_not_word [of c] word_s by auto

lemma read_atom_plain: "\<not> re_special c \<Longrightarrow> read_atom (c # s) = Some (Ch c, s)"
  using syntax_special [of c] by (auto simp: re_special_def)

lemma read_escapeRe:
  assumes "rest = [] \<or> hd rest \<noteq> CHR ''*''"
  shows "read_rx (escapeRe t @ rest) = map_option ((@) (lit t)) (read_rx rest)"
proof (induction t)
  case Nil
  show ?case by (cases "read_rx rest") auto
next
  case (Cons c t)
  have h: "escapeRe t @ rest = [] \<or> hd (escapeRe t @ rest) \<noteq> CHR ''*''"
    using assms by (cases t) (auto simp: re_special_def)
  show ?case
  proof (cases "re_special c")
    case True
    then have "read_rx (escapeRe (c # t) @ rest) = map_option ((#) (One (Ch c))) (read_rx (escapeRe t @ rest))"
      using h by (subst read_rx.simps) (auto simp: read_atom_escaped simp del: read_atom.simps)
    with Cons.IH show ?thesis by (simp add: option.map_comp comp_def)
  next
    case False
    then have "read_rx (escapeRe (c # t) @ rest) = map_option ((#) (One (Ch c))) (read_rx (escapeRe t @ rest))"
      using h by (subst read_rx.simps) (auto simp: read_atom_plain simp del: read_atom.simps)
    with Cons.IH show ?thesis by (simp add: option.map_comp comp_def)
  qed
qed

section \<open>escapeHtml\<close>

text \<open>\<open>entityMap\<close>, for the characters of the class \<open>[&<>"'\/]\<close>.\<close>

definition html_special :: "char list" where
  "html_special = ''&<>'' @ [CHR 0x22, CHR 0x27] @ ''/''"

definition entityMap :: "string js_obj" where
  "entityMap =
     [(''&'', ''&amp;''), (''<'', ''&lt;''), (''>'', ''&gt;''), ([CHR 0x22], ''&quot;''),
      ([CHR 0x27], ''&#39;''), (''/'', ''&#x2F;'')]"

fun escapeHtml :: "string \<Rightarrow> string" where
  "escapeHtml [] = []"
| "escapeHtml (c # s) =
     (if c \<in> set html_special
      then (case obj_get entityMap [c] of Some e \<Rightarrow> e | None \<Rightarrow> ''undefined'')
      else [c]) @ escapeHtml s"

section \<open>Scanner\<close>

record scanner =
  sc_string :: string
  sc_tail :: string
  sc_pos :: nat

definition new_Scanner :: "string \<Rightarrow> scanner" where
  "new_Scanner s = \<lparr>sc_string = s, sc_tail = s, sc_pos = 0\<rparr>"

definition eos :: "scanner \<Rightarrow> bool" where
  "eos sc \<longleftrightarrow> sc_tail sc = []"

definition scan :: "rx \<Rightarrow> scanner \<Rightarrow> string \<times> scanner" where
  "scan r sc =
     (case rx_search r (sc_tail sc) of
        Some (i, n) \<Rightarrow>
          if i = 0
          then (take n (sc_tail sc),
                sc\<lparr>sc_tail := drop n (sc_tail sc), sc_pos := sc_pos sc + length (take n (sc_tail sc))\<rparr>)
          else ([], sc)
      | None \<Rightarrow> ([], sc))"

definition scanUntil :: "rx \<Rightarrow> scanner \<Rightarrow> string \<times> scanner" where
  "scanUntil r sc =
     (case rx_search r (sc_tail sc) of
        None \<Rightarrow> (sc_tail sc, sc\<lparr>sc_tail := [], sc_pos := sc_pos sc + length (sc_tail sc)\<rparr>)
      | Some (p, n) \<Rightarrow>
          if p = 0 then ([], sc)
          else (take p (sc_tail sc),
                sc\<lparr>sc_tail := drop p (sc_tail sc), sc_pos := sc_pos sc + p\<rparr>))"


text \<open>
  What the parser relies on: a scanner is a text with an offset, reading splits off a prefix of
  the rest, and \<open>until\<close> stops at the end or where the expression matches. From these
  laws the offset is always the position of the rest in the whole text, and whatever is read
  is the stretch of the text between the two offsets.
\<close>

locale text_scanner =
  fixes whole :: "'s \<Rightarrow> string"
    and rest :: "'s \<Rightarrow> string"
    and offset :: "'s \<Rightarrow> nat"
    and fresh :: "string \<Rightarrow> 's"
    and here :: "'r \<Rightarrow> string \<Rightarrow> bool"
    and read :: "'r \<Rightarrow> 's \<Rightarrow> string \<times> 's"
    and until :: "'r \<Rightarrow> 's \<Rightarrow> string \<times> 's"
  assumes fresh: "whole (fresh t) = t" "rest (fresh t) = t" "offset (fresh t) = 0"
    and read_whole: "read r s = (m, s') \<Longrightarrow> whole s' = whole s"
    and read_rest: "read r s = (m, s') \<Longrightarrow> rest s = m @ rest s'"
    and read_offset: "read r s = (m, s') \<Longrightarrow> offset s' = offset s + length m"
    and until_whole: "until r s = (m, s') \<Longrightarrow> whole s' = whole s"
    and until_rest: "until r s = (m, s') \<Longrightarrow> rest s = m @ rest s'"
    and until_offset: "until r s = (m, s') \<Longrightarrow> offset s' = offset s + length m"
    and until_stop: "until r s = (m, s') \<Longrightarrow> rest s' = [] \<or> here r (rest s')"
    and until_first: "until r s = (m, s') \<Longrightarrow> j < length m \<Longrightarrow> \<not> here r (drop j (rest s))"
begin

definition aligned :: "'s \<Rightarrow> bool" where
  "aligned s \<longleftrightarrow> offset s \<le> length (whole s) \<and> rest s = drop (offset s) (whole s)"

definition between :: "'s \<Rightarrow> 's \<Rightarrow> string" where
  "between s s' = take (offset s' - offset s) (drop (offset s) (whole s))"

lemma aligned_fresh: "aligned (fresh t)"
  by (simp add: aligned_def fresh)

lemma aligned_length: "aligned s \<Longrightarrow> offset s + length (rest s) = length (whole s)"
  by (simp add: aligned_def)

lemma aligned_advance:
  assumes "aligned s" "whole s' = whole s" "rest s = m @ rest s'" "offset s' = offset s + length m"
  shows "aligned s'" "m = between s s'"
proof -
  from assms have d: "drop (offset s) (whole s) = m @ rest s'" by (simp add: aligned_def)
  then have "length (whole s) - offset s = length m + length (rest s')"
    by (metis length_append length_drop)
  moreover have "rest s' = drop (length m) (drop (offset s) (whole s))" using d by simp
  ultimately show "aligned s'" using assms by (auto simp: aligned_def add.commute)
  show "m = between s s'" using d assms by (simp add: between_def)
qed

lemma aligned_read: "aligned s \<Longrightarrow> read r s = (m, s') \<Longrightarrow> aligned s' \<and> m = between s s'"
  using aligned_advance [OF _ read_whole read_rest read_offset] by blast

lemma aligned_until: "aligned s \<Longrightarrow> until r s = (m, s') \<Longrightarrow> aligned s' \<and> m = between s s'"
  using aligned_advance [OF _ until_whole until_rest until_offset] by blast

lemma until_missing:
  assumes "until r s = (m, s')" "aligned s" "\<not> here r (rest s')"
  shows "offset s' = length (whole s')"
proof -
  have "rest s' = []" using until_stop [OF assms(1)] assms(3) by blast
  moreover have "aligned s'" using aligned_until [OF assms(2,1)] by blast
  ultimately show ?thesis using aligned_length [of s'] by simp
qed

end

definition matches_here :: "rx \<Rightarrow> string \<Rightarrow> bool" where
  "matches_here r s \<longleftrightarrow> match_at r s \<noteq> None"

lemma scan_cases:
  "scan r sc = (m, sc') \<longleftrightarrow>
     (case match_at r (sc_tail sc) of
        None \<Rightarrow> m = [] \<and> sc' = sc
      | Some n \<Rightarrow> m = take n (sc_tail sc) \<and>
          sc' = sc\<lparr>sc_tail := drop n (sc_tail sc), sc_pos := sc_pos sc + n\<rparr>)"
proof (cases "match_at r (sc_tail sc)")
  case None
  then have "\<And>n. rx_search r (sc_tail sc) \<noteq> Some (0, n)" by (simp add: rx_search_fst_0)
  with None show ?thesis by (auto simp: scan_def split: option.splits)
next
  case (Some n)
  then show ?thesis using match_at_le [OF Some]
    by (auto simp: scan_def rx_search_0 min_def)
qed

lemma scanUntil_cases:
  "scanUntil r sc = (m, sc') \<longleftrightarrow>
     (case rx_search r (sc_tail sc) of
        None \<Rightarrow> m = sc_tail sc \<and> sc' = sc\<lparr>sc_tail := [], sc_pos := sc_pos sc + length m\<rparr>
      | Some (p, n) \<Rightarrow> m = take p (sc_tail sc) \<and>
          sc' = sc\<lparr>sc_tail := drop p (sc_tail sc), sc_pos := sc_pos sc + p\<rparr>)"
  by (auto simp: scanUntil_def split: option.splits)

interpretation mu: text_scanner sc_string sc_tail sc_pos new_Scanner matches_here scan scanUntil
proof (unfold_locales, goal_cases)
  case (4 r s m s')
  then show ?case by (auto simp: scan_cases split: option.splits)
next
  case (5 r s m s')
  then show ?case by (auto simp: scan_cases split: option.splits)
next
  case (6 r s m s')
  then show ?case by (auto simp: scan_cases split: option.splits dest: match_at_le)
next
  case (7 r s m s')
  then show ?case by (auto simp: scanUntil_cases split: option.splits)
next
  case (8 r s m s')
  then show ?case by (auto simp: scanUntil_cases split: option.splits)
next
  case (9 r s m s')
  then show ?case by (auto simp: scanUntil_cases split: option.splits dest: rx_search_le)
next
  case (10 r s m s')
  then show ?case
    by (auto simp: scanUntil_cases matches_here_def split: option.splits dest: rx_search_match)
next
  case (11 r s m s' j)
  then show ?case
    by (auto simp: scanUntil_cases matches_here_def rx_search_None_iff split: option.splits
        dest!: rx_search_leftmost [where j = j])
qed (simp_all add: new_Scanner_def)

section \<open>Properties\<close>

text \<open>The text of the pattern \<open>\s*\<close>.\<close>

definition ws_star :: string where
  "ws_star = [CHR 0x5C, CHR ''s'', CHR ''*'']"

lemma read_ws_star: "read_rx (ws_star @ p) = map_option ((#) (Star Sp)) (read_rx p)"
  by (subst read_rx.simps) (simp add: ws_star_def)

lemma read_rx_Nil [simp]: "read_rx [] = Some []"
  by (simp add: read_rx.simps)

lemma match_at_lit: "match_at (lit t) s = (if take (length t) s = t then Some (length t) else None)"
proof (induction t arbitrary: s)
  case (Cons c t)
  then show ?case by (cases s) auto
qed simp

lemma escapeRe_patterns:
  "read_rx (escapeRe t @ ws_star) = Some (lit t @ [Star Sp])"
  "read_rx (ws_star @ escapeRe t) = Some (Star Sp # lit t)"
proof -
  have "ws_star = [] \<or> hd ws_star \<noteq> CHR ''*''" by (simp add: ws_star_def)
  from read_escapeRe [OF this, of t] show "read_rx (escapeRe t @ ws_star) = Some (lit t @ [Star Sp])"
    using read_ws_star [of "[]"] by simp
  show "read_rx (ws_star @ escapeRe t) = Some (Star Sp # lit t)"
    using read_escapeRe [of "[]" t] by (simp add: read_ws_star)
qed

text \<open>C21: The pattern that \<open>escapeRe\<close> writes for a string, followed or preceded by
  \<open>\s*\<close> as in \<open>escapeTags\<close>, is read back by the \<open>RegExp\<close>
  constructor as exactly the characters of the string, and these match that string and nothing
  else: no character of a tag is ever taken as expression syntax.\<close>

theorem escapeRe_literal:
  "read_rx (escapeRe t @ ws_star) = Some (lit t @ [Star Sp]) \<and>
   read_rx (ws_star @ escapeRe t) = Some (Star Sp # lit t) \<and>
   match_at (lit t) s = (if take (length t) s = t then Some (length t) else None)"
  by (simp only: escapeRe_patterns match_at_lit simp_thms)

text \<open>What a reader of HTML makes of the six references the engine writes.\<close>

fun html_ref :: "string js_obj \<Rightarrow> string \<Rightarrow> (string \<times> nat) option" where
  "html_ref [] s = None"
| "html_ref ((k, e) # m) s =
     (if take (length e) s = e then Some (k, length e) else html_ref m s)"

lemma html_ref_pos: "html_ref m s = Some (k, n) \<Longrightarrow> \<forall>(k, e) \<in> set m. e \<noteq> [] \<Longrightarrow> 0 < n"
  by (induction m) (auto split: if_splits)

lemma html_ref_entity_pos: "html_ref entityMap s = Some (k, n) \<Longrightarrow> 0 < n"
  by (rule html_ref_pos [of entityMap s k n]) (auto simp: entityMap_def)

function html_decode :: "string \<Rightarrow> string" where
  "html_decode s =
     (if s = [] then []
      else case html_ref entityMap s of
        Some (k, n) \<Rightarrow> k @ html_decode (drop n s)
      | None \<Rightarrow> hd s # html_decode (tl s))"
  by pat_completeness auto
termination
  by (relation "measure length") (auto dest!: html_ref_entity_pos)

declare html_decode.simps [simp del]

lemma escapeHtml_entity:
  assumes "c \<in> set html_special"
  obtains e where "obj_get entityMap [c] = Some e" "e \<noteq> []"
    "\<And>s. html_ref entityMap (e @ s) = Some ([c], length e)"
    "list_all (\<lambda>d. d = CHR ''&'' \<or> d \<notin> set html_special) e"
  using assms that by (auto simp: html_special_def entityMap_def)

lemma html_ref_plain: "c \<noteq> CHR ''&'' \<Longrightarrow> html_ref entityMap (c # s) = None"
  by (simp add: entityMap_def)

lemma escapeHtml_decode: "html_decode (escapeHtml s) = s"
proof (induction s)
  case Nil
  show ?case by (simp add: html_decode.simps)
next
  case (Cons c s)
  show ?case
  proof (cases "c \<in> set html_special")
    case True
    then obtain e where e: "obj_get entityMap [c] = Some e" "e \<noteq> []"
      "\<And>s. html_ref entityMap (e @ s) = Some ([c], length e)"
      by (rule escapeHtml_entity) blast
    with True Cons show ?thesis by (simp add: html_decode.simps [of "e @ escapeHtml s"])
  next
    case False
    then have "c \<noteq> CHR ''&''" by (auto simp: html_special_def)
    with False Cons show ?thesis
      by (simp add: html_decode.simps [of "c # escapeHtml s"] html_ref_plain)
  qed
qed

lemma escapeHtml_chars: "d \<in> set (escapeHtml s) \<Longrightarrow> d = CHR ''&'' \<or> d \<notin> set html_special"
proof (induction s)
  case (Cons c s)
  show ?case
  proof (cases "c \<in> set html_special")
    case True
    then obtain e where e: "obj_get entityMap [c] = Some e"
      "list_all (\<lambda>d. d = CHR ''&'' \<or> d \<notin> set html_special) e"
      by (rule escapeHtml_entity) blast
    from True e(1) have "escapeHtml (c # s) = e @ escapeHtml s" by simp
    then have "d \<in> set e \<or> d \<in> set (escapeHtml s)" using Cons.prems by (simp only: set_append) blast
    with e(2) Cons.IH show ?thesis unfolding list_all_iff by blast
  next
    case False
    then have "escapeHtml (c # s) = c # escapeHtml s" by simp
    then have "d = c \<or> d \<in> set (escapeHtml s)" using Cons.prems by simp
    with False Cons.IH show ?thesis by blast
  qed
qed simp


text \<open>A program over a scanner: any sequence of calls of its two reading methods.\<close>

datatype scan_op = Scan rx | ScanUntil rx

fun scan_call :: "scan_op \<Rightarrow> scanner \<Rightarrow> string \<times> scanner" where
  "scan_call (Scan r) sc = scan r sc"
| "scan_call (ScanUntil r) sc = scanUntil r sc"

fun scan_calls :: "scan_op list \<Rightarrow> scanner \<Rightarrow> string list \<times> scanner" where
  "scan_calls [] sc = ([], sc)"
| "scan_calls (c # cs) sc =
     (case scan_call c sc of (m, sc') \<Rightarrow> (case scan_calls cs sc' of (ms, sc'') \<Rightarrow> (m # ms, sc'')))"

lemma scan_call_laws:
  "scan_call c sc = (m, sc') \<Longrightarrow>
     sc_tail sc = m @ sc_tail sc' \<and> sc_pos sc' = sc_pos sc + length m \<and> sc_string sc' = sc_string sc"
  using mu.read_rest mu.read_offset mu.read_whole mu.until_rest mu.until_offset mu.until_whole
  by (cases c) (simp; blast)+

lemma scan_calls_laws:
  "scan_calls cs sc = (ms, sc') \<Longrightarrow>
     sc_tail sc = concat ms @ sc_tail sc' \<and> sc_pos sc' = sc_pos sc + length (concat ms)"
  by (induction cs arbitrary: sc ms)
    (auto split: prod.splits dest!: scan_call_laws)

text \<open>C27: Whatever sequence of \<open>scan\<close> and \<open>scanUntil\<close> calls is made, with
  whatever expressions, the pieces they return followed by the tail are the scanned string, and
  the position is the number of characters returned: nothing is skipped or returned twice.\<close>

theorem scanner_tiles:
  "(case scan_calls cs (new_Scanner s) of (ms, sc) \<Rightarrow>
     concat ms @ sc_tail sc = s \<and> sc_pos sc = length (concat ms))"
  using scan_calls_laws [of cs "new_Scanner s"]
  by (auto simp: new_Scanner_def split: prod.splits)

end
