(* ===== verification/MuTokens.thy ===== *)
theory MuTokens
  imports MuScanner
begin

text \<open>
  The tokens of \<open>mustache.js\<close> and the functions on lists of them: \<open>squashTokens\<close>,
  which joins neighbouring text tokens in place, \<open>nestTokens\<close>, which builds the tree of
  sections by pushing into shared arrays, and \<open>sectionBounds\<close>. The array code is modelled
  with explicit indices and an explicit store of arrays; lemmas relate it to a structural
  description of what it computes.
\<close>

section \<open>Tokens\<close>

text \<open>
  The first field of a token. \<open>Triple\<close> is the type \<open>"{"\<close>, which the parser turns
  into \<open>"&"\<close> before a token is made.
\<close>

datatype ttype =
  Text | Name | Section | Inverted | CloseTag | Partial | Unescaped | Triple | Comment | SetDelim

record token =
  ttype :: ttype
  tvalue :: string
  tstart :: nat
  tend :: nat

definition mk_token :: "ttype \<Rightarrow> string \<Rightarrow> nat \<Rightarrow> nat \<Rightarrow> token" where
  "mk_token ty v a b = \<lparr>ttype = ty, tvalue = v, tstart = a, tend = b\<rparr>"

lemma mk_token_simps [simp]:
  "ttype (mk_token ty v a b) = ty" "tvalue (mk_token ty v a b) = v"
  "tstart (mk_token ty v a b) = a" "tend (mk_token ty v a b) = b"
  by (simp_all add: mk_token_def)

text \<open>\<open>scanner.scan(tagRe) || "name"\<close>\<close>

definition type_of_sigil :: "string \<Rightarrow> ttype" where
  "type_of_sigil s =
     (if s = ''#'' then Section else if s = ''^'' then Inverted else if s = ''/'' then CloseTag
      else if s = ''>'' then Partial else if s = ''{'' then Triple else if s = ''&'' then Unescaped
      else if s = ''='' then SetDelim else if s = ''!'' then Comment else Name)"

section \<open>squashTokens\<close>

text \<open>
  The loop of the code: \<open>i\<close> is the loop index, \<open>prev\<close> the index of
  \<open>lastToken\<close>; joining changes the last token in place and splices the current one out,
  so the index stays where it is.
\<close>

definition is_text :: "token \<Rightarrow> bool" where
  "is_text t \<longleftrightarrow> ttype t = Text"

definition join :: "token \<Rightarrow> token \<Rightarrow> token" where
  "join a b = a\<lparr>tvalue := tvalue a @ tvalue b, tend := tend b\<rparr>"

function squash_loop :: "token list \<Rightarrow> nat \<Rightarrow> nat option \<Rightarrow> token list" where
  "squash_loop toks i prev =
     (if i < length toks
      then case prev of
             None \<Rightarrow> squash_loop toks (Suc i) (Some i)
           | Some l \<Rightarrow>
               if is_text (toks ! l) \<and> is_text (toks ! i)
               then squash_loop (splice1 i (toks[l := join (toks ! l) (toks ! i)])) i prev
               else squash_loop toks (Suc i) (Some i)
      else toks)"
  by pat_completeness auto
termination
  by (relation "measure (\<lambda>(toks, i, prev). length toks - i)") (auto simp: length_splice1)

declare squash_loop.simps [simp del]

definition squashTokens :: "token list \<Rightarrow> token list" where
  "squashTokens toks = squash_loop toks 0 None"

text \<open>What it computes: neighbouring text tokens become one.\<close>

fun squash :: "token list \<Rightarrow> token list" where
  "squash [] = []"
| "squash [t] = [t]"
| "squash (a # b # ts) = (if is_text a \<and> is_text b then squash (join a b # ts) else a # squash (b # ts))"

lemma squash_loop_run:
  "squash_loop (us @ a # ts) (Suc (length us)) (Some (length us)) = us @ squash (a # ts)"
proof (induction ts arbitrary: us a)
  case Nil
  show ?case by (subst squash_loop.simps) simp
next
  case (Cons b ts)
  show ?case
  proof (cases "is_text a \<and> is_text b")
    case True
    have "splice1 (Suc (length us)) (us @ join a b # b # ts) = us @ join a b # ts"
      using splice1_middle [of "us @ [join a b]" "Suc (length us)" b ts] by simp
    with True Cons.IH [of us "join a b"] show ?thesis
      by (subst squash_loop.simps) (simp add: nth_append list_update_append)
  next
    case False
    with Cons.IH [of "us @ [a]" b] show ?thesis
      by (subst squash_loop.simps) (auto simp: nth_append)
  qed
qed

lemma squashTokens_squash: "squashTokens toks = squash toks"
proof (cases toks)
  case Nil
  then show ?thesis by (simp add: squashTokens_def squash_loop.simps)
next
  case (Cons a ts)
  then have "squash_loop toks 0 None = squash_loop (a # ts) (Suc 0) (Some 0)"
    by (subst squash_loop.simps) simp
  with Cons show ?thesis using squash_loop_run [of "[]" a ts] by (simp add: squashTokens_def)
qed

fun no_adjacent_text :: "token list \<Rightarrow> bool" where
  "no_adjacent_text (a # b # ts) \<longleftrightarrow> \<not> (is_text a \<and> is_text b) \<and> no_adjacent_text (b # ts)"
| "no_adjacent_text _ \<longleftrightarrow> True"

definition text_of :: "token list \<Rightarrow> string" where
  "text_of toks = concat (map tvalue (filter is_text toks))"

definition tags_of :: "token list \<Rightarrow> token list" where
  "tags_of toks = filter (\<lambda>t. \<not> is_text t) toks"

lemma join_simps [simp]:
  "is_text (join a b) = is_text a" "tvalue (join a b) = tvalue a @ tvalue b"
  "tstart (join a b) = tstart a" "tend (join a b) = tend b" "ttype (join a b) = ttype a"
  by (simp_all add: join_def is_text_def)

lemma squash_not_Nil: "squash ts = [] \<longleftrightarrow> ts = []"
  by (induction ts rule: squash.induct) auto

lemma squash_hd_text: "ts \<noteq> [] \<Longrightarrow> is_text (hd (squash ts)) = is_text (hd ts)"
  by (induction ts rule: squash.induct) auto

lemma squash_no_adjacent: "no_adjacent_text (squash ts)"
proof (induction ts rule: squash.induct)
  case (3 a b ts)
  show ?case
  proof (cases "is_text a \<and> is_text b")
    case True
    with 3 show ?thesis by simp
  next
    case False
    obtain c cs where c: "squash (b # ts) = c # cs" using squash_not_Nil [of "b # ts"] by (cases "squash (b # ts)") auto
    then have "is_text c = is_text b" using squash_hd_text [of "b # ts"] by simp
    with False c 3 show ?thesis by auto
  qed
qed auto

lemma squash_text_of: "text_of (squash ts) = text_of ts"
  by (induction ts rule: squash.induct) (auto simp: text_of_def)

lemma squash_tags_of: "tags_of (squash ts) = tags_of ts"
  by (induction ts rule: squash.induct) (auto simp: tags_of_def)

lemma squash_fixpoint: "no_adjacent_text ts \<Longrightarrow> squash ts = ts"
  by (induction ts rule: squash.induct) auto


section \<open>nestTokens\<close>

text \<open>
  The tree the code builds: a section token has a fifth item, the array of its tokens.
\<close>

datatype ttree = Leaf token | Sec token "ttree list"

text \<open>
  The code works on shared arrays: \<open>collector\<close> is the array that is being filled,
  \<open>sections\<close> the stack of open section tokens, each with its own array, and a section
  token sits in its parent's array before its own array is filled. The store numbers the
  arrays; array 0 is \<open>tree\<close>; a cell is a token, with the number of its array when it is
  a section.
\<close>

datatype cell = CTok token | CSec token nat

record nest_state =
  arrays :: "cell list list"
  collector :: nat
  sections :: "(token \<times> nat) list"

definition opens_section :: "token \<Rightarrow> bool" where
  "opens_section t \<longleftrightarrow> ttype t = Section \<or> ttype t = Inverted"

definition closes_section :: "token \<Rightarrow> bool" where
  "closes_section t \<longleftrightarrow> ttype t = CloseTag"

definition array_push :: "nat \<Rightarrow> cell \<Rightarrow> cell list list \<Rightarrow> cell list list" where
  "array_push a c H = H[a := H ! a @ [c]]"

definition nest_step :: "token \<Rightarrow> nest_state \<Rightarrow> js_error + nest_state" where
  "nest_step t st =
     (if opens_section t
      then let a = length (arrays st) in
           Inr (st\<lparr>arrays := array_push (collector st) (CSec t a) (arrays st) @ [[]],
                   sections := (t, a) # sections st, collector := a\<rparr>)
      else if closes_section t
      then case sections st of
             [] \<Rightarrow> Inl (JsError (''Unopened section: '' @ tvalue t))
           | (s, a) # rest \<Rightarrow>
               if tvalue s \<noteq> tvalue t then Inl (JsError (''Unclosed section: '' @ tvalue s))
               else Inr (st\<lparr>sections := rest,
                            collector := (case rest of [] \<Rightarrow> 0 | (s', a') # _ \<Rightarrow> a')\<rparr>)
      else Inr (st\<lparr>arrays := array_push (collector st) (CTok t) (arrays st)\<rparr>))"

fun nest_loop :: "token list \<Rightarrow> nest_state \<Rightarrow> js_error + nest_state" where
  "nest_loop [] st = Inr st"
| "nest_loop (t # ts) st = bindr (nest_step t st) (nest_loop ts)"

definition nest_init :: nest_state where
  "nest_init = \<lparr>arrays = [[]], collector = 0, sections = []\<rparr>"

text \<open>
  The tree that hangs off an array. References go from an array to one made later, so
  following them ends.
\<close>

function load :: "cell list list \<Rightarrow> nat \<Rightarrow> ttree list" where
  "load H a = map (\<lambda>c. case c of CTok t \<Rightarrow> Leaf t
                         | CSec t b \<Rightarrow> Sec t (if a < b \<and> b < length H then load H b else [])) (H ! a)"
  by pat_completeness auto
termination
  by (relation "measure (\<lambda>(H, a). length H - a)") auto

declare load.simps [simp del]

definition nestTokens :: "token list \<Rightarrow> js_error + ttree list" where
  "nestTokens toks =
     bindr (nest_loop toks nest_init)
       (\<lambda>st. case sections st of
               [] \<Rightarrow> Inr (load (arrays st) 0)
             | (s, a) # _ \<Rightarrow> Inl (JsError (''Unclosed section: '' @ tvalue s)))"

text \<open>The same walk on trees instead of arrays.\<close>

fun nestf :: "token list \<Rightarrow> ttree list \<Rightarrow> (token \<times> ttree list) list \<Rightarrow> js_error + ttree list" where
  "nestf [] cur [] = Inr cur"
| "nestf [] cur ((s, par) # st) = Inl (JsError (''Unclosed section: '' @ tvalue s))"
| "nestf (t # ts) cur st =
     (if opens_section t then nestf ts [] ((t, cur) # st)
      else if closes_section t
      then case st of
             [] \<Rightarrow> Inl (JsError (''Unopened section: '' @ tvalue t))
           | (s, par) # st' \<Rightarrow>
               if tvalue s \<noteq> tvalue t then Inl (JsError (''Unclosed section: '' @ tvalue s))
               else nestf ts (par @ [Sec s cur]) st'
      else nestf ts (cur @ [Leaf t]) st)"

text \<open>
  \<open>rep H S a cs ks\<close>: the cells \<open>cs\<close> of array \<open>a\<close> stand for the trees
  \<open>ks\<close>, and everything below them lies in the finished arrays \<open>S\<close>.
\<close>

inductive rep :: "cell list list \<Rightarrow> nat set \<Rightarrow> nat \<Rightarrow> cell list \<Rightarrow> ttree list \<Rightarrow> bool"
  for H S where
  rep_nil: "rep H S a [] []"
| rep_tok: "rep H S a cs ks \<Longrightarrow> rep H S a (CTok t # cs) (Leaf t # ks)"
| rep_sec: "rep H S a cs ks \<Longrightarrow> a < b \<Longrightarrow> b < length H \<Longrightarrow> b \<in> S \<Longrightarrow> rep H S b (H ! b) ch \<Longrightarrow>
     rep H S a (CSec t b # cs) (Sec t ch # ks)"

lemma rep_append: "rep H S a cs ks \<Longrightarrow> rep H S a ds ls \<Longrightarrow> rep H S a (cs @ ds) (ks @ ls)"
  by (induction rule: rep.induct) (auto intro: rep.intros)

lemma rep_load: "rep H S a cs ks \<Longrightarrow>
    map (\<lambda>c. case c of CTok t \<Rightarrow> Leaf t
       | CSec t b \<Rightarrow> Sec t (if a < b \<and> b < length H then load H b else [])) cs = ks"
  by (induction rule: rep.induct) (simp_all add: load.simps)

lemma rep_frame:
  "rep H S a cs ks \<Longrightarrow> (\<And>b. b \<in> S \<Longrightarrow> b < length H \<Longrightarrow> H' ! b = H ! b) \<Longrightarrow> length H \<le> length H' \<Longrightarrow>
   S \<subseteq> S' \<Longrightarrow> rep H' S' a cs ks"
proof (induction rule: rep.induct)
  case (rep_sec a cs ks b ch t)
  then show ?case by (intro rep.rep_sec) auto
qed (auto intro: rep.intros)

definition top_array :: "(token \<times> nat) list \<Rightarrow> nat" where
  "top_array secs = (case secs of [] \<Rightarrow> 0 | (s, a) # _ \<Rightarrow> a)"

lemma top_array_simps [simp]: "top_array [] = 0" "top_array ((s, a) # secs) = a"
  by (simp_all add: top_array_def)

text \<open>
  The open sections: each has a parent array that ends in its cell, before which the parent's
  finished trees stand.
\<close>

fun open_chain :: "cell list list \<Rightarrow> nat set \<Rightarrow> (token \<times> nat) list \<Rightarrow> (token \<times> ttree list) list \<Rightarrow> bool" where
  "open_chain H S [] [] \<longleftrightarrow> True"
| "open_chain H S ((s, a) # secs) ((s', par) # st) \<longleftrightarrow>
     s = s' \<and> top_array secs < a \<and> a < length H \<and> a \<notin> S \<and>
     (\<exists>cells. H ! top_array secs = cells @ [CSec s a] \<and> rep H S (top_array secs) cells par) \<and>
     open_chain H S secs st"
| "open_chain H S _ _ \<longleftrightarrow> False"

lemma open_chain_frame:
  "open_chain H S secs st \<Longrightarrow>
   (\<And>b. b \<in> S \<or> b < top_array secs \<Longrightarrow> b < length H \<Longrightarrow> H' ! b = H ! b) \<Longrightarrow>
   length H \<le> length H' \<Longrightarrow> S \<subseteq> S' \<Longrightarrow> (\<And>b. b \<in> S' - S \<Longrightarrow> top_array secs < b) \<Longrightarrow> open_chain H' S' secs st"
proof (induction H S secs st rule: open_chain.induct)
  case (2 H S s a secs s' par st)
  let ?p = "top_array secs"
  from 2(2) obtain cells where c: "s = s'" "?p < a" "a < length H" "a \<notin> S"
    "H ! ?p = cells @ [CSec s a]" "rep H S ?p cells par" "open_chain H S secs st" by auto
  have "rep H' S' ?p cells par"
    using rep_frame [OF c(6)] 2(3-5) by auto
  moreover have "H' ! ?p = H ! ?p" using 2(3) c(2,3) by auto
  moreover have "open_chain H' S' secs st"
    using c(2) by (intro 2(1) [OF c(7)]) (use 2(3-6) in \<open>auto dest: less_trans\<close>)
  ultimately show ?case using c 2(4,6) by auto
qed auto

definition nest_inv :: "nest_state \<Rightarrow> nat set \<Rightarrow> ttree list \<Rightarrow> (token \<times> ttree list) list \<Rightarrow> bool" where
  "nest_inv st S cur stk \<longleftrightarrow>
     collector st = top_array (sections st) \<and> collector st < length (arrays st) \<and>
     collector st \<notin> S \<and> S \<subseteq> {0<..<length (arrays st)} \<and>
     rep (arrays st) S (collector st) (arrays st ! collector st) cur \<and>
     open_chain (arrays st) S (sections st) stk"

lemma nest_inv_push:
  assumes "nest_inv st S cur stk" "rep (arrays st) S (collector st) [c] [k]"
  shows "nest_inv (st\<lparr>arrays := array_push (collector st) c (arrays st)\<rparr>) S (cur @ [k]) stk"
proof -
  let ?H = "arrays st" let ?a = "collector st" let ?H' = "array_push ?a c ?H"
  from assms(1) have i: "?a = top_array (sections st)" "?a < length ?H" "?a \<notin> S" "S \<subseteq> {0<..<length ?H}"
    "rep ?H S ?a (?H ! ?a) cur" "open_chain ?H S (sections st) stk"
    by (auto simp: nest_inv_def)
  have same: "\<And>b. b \<noteq> ?a \<Longrightarrow> ?H' ! b = ?H ! b" and len: "length ?H' = length ?H"
    by (auto simp: array_push_def)
  have keep: "\<And>b. b \<in> S \<or> b < top_array (sections st) \<Longrightarrow> b < length ?H \<Longrightarrow> ?H' ! b = ?H ! b"
    using same i(1,3) by (metis less_irrefl)
  have "rep ?H S ?a (?H ! ?a @ [c]) (cur @ [k])" by (rule rep_append [OF i(5) assms(2)])
  then have "rep ?H' S ?a (?H ! ?a @ [c]) (cur @ [k])"
    by (rule rep_frame) (use keep len in auto)
  moreover have "?H' ! ?a = ?H ! ?a @ [c]" using i(2) by (simp add: array_push_def)
  moreover have "open_chain ?H' S (sections st) stk"
    by (rule open_chain_frame [OF i(6) keep]) (use len in auto)
  ultimately show ?thesis using i len by (simp add: nest_inv_def)
qed

lemma nest_inv_open:
  assumes "nest_inv st S cur stk" "opens_section t"
  obtains st' where "nest_step t st = Inr st'" "nest_inv st' S [] ((t, cur) # stk)"
proof
  let ?H = "arrays st" let ?a = "collector st" let ?n = "length ?H"
  let ?H' = "array_push ?a (CSec t ?n) ?H @ [[]]"
  from assms(1) have i: "?a = top_array (sections st)" "?a < ?n" "?a \<notin> S" "S \<subseteq> {0<..<?n}"
    "rep ?H S ?a (?H ! ?a) cur" "open_chain ?H S (sections st) stk"
    by (auto simp: nest_inv_def)
  have len: "length ?H' = Suc ?n" and same: "\<And>b. b < ?n \<Longrightarrow> b \<noteq> ?a \<Longrightarrow> ?H' ! b = ?H ! b"
    by (auto simp: array_push_def nth_append)
  have a: "?H' ! ?a = ?H ! ?a @ [CSec t ?n]" and n: "?H' ! ?n = []"
    using i(2) by (simp_all add: array_push_def nth_append)
  have keep: "\<And>b. b \<in> S \<or> b < top_array (sections st) \<Longrightarrow> b < ?n \<Longrightarrow> ?H' ! b = ?H ! b"
    using same i(1,3) by (metis less_irrefl)
  have "rep ?H' S ?a (?H ! ?a) cur"
    by (rule rep_frame [OF i(5)]) (use len keep in auto)
  moreover have "open_chain ?H' S (sections st) stk"
    by (rule open_chain_frame [OF i(6) keep]) (use len in auto)
  moreover have "S \<subseteq> {0<..<length ?H'}" using i(4) by (auto simp: array_push_def)
  ultimately show "nest_inv (st\<lparr>arrays := ?H', sections := (t, ?n) # sections st, collector := ?n\<rparr>) S []
      ((t, cur) # stk)"
    using i a n len by (auto simp: nest_inv_def intro: rep_nil)
  show "nest_step t st = Inr (st\<lparr>arrays := ?H', sections := (t, ?n) # sections st, collector := ?n\<rparr>)"
    using assms(2) by (simp add: nest_step_def Let_def)
qed

lemma nest_inv_close:
  assumes "nest_inv st S cur ((s, par) # stk)"
  obtains a rest where "sections st = (s, a) # rest"
    "nest_inv (st\<lparr>sections := rest, collector := top_array rest\<rparr>) (insert a S) (par @ [Sec s cur]) stk"
proof -
  let ?H = "arrays st"
  from assms obtain a rest where secs: "sections st = (s, a) # rest"
    by (cases "sections st") (auto simp: nest_inv_def)
  let ?p = "top_array rest"
  from assms secs obtain cells where i: "collector st = a" "a < length ?H" "a \<notin> S"
    "S \<subseteq> {0<..<length ?H}" "rep ?H S a (?H ! a) cur" "?p < a"
    "?H ! ?p = cells @ [CSec s a]" "rep ?H S ?p cells par" "open_chain ?H S rest stk"
    by (auto simp: nest_inv_def)
  have "rep ?H (insert a S) ?p cells par" "rep ?H (insert a S) a (?H ! a) cur"
    by (rule rep_frame [OF i(8)], auto) (rule rep_frame [OF i(5)], auto)
  with i have "rep ?H (insert a S) ?p (?H ! ?p) (par @ [Sec s cur])"
    by (auto intro!: rep_append rep.intros)
  moreover have "open_chain ?H (insert a S) rest stk"
    by (rule open_chain_frame [OF i(9)]) (use i in auto)
  moreover have "?p \<notin> S"
  proof
    show "?p \<in> S \<Longrightarrow> False" using i(4,9) by (cases rest; cases stk) auto
  qed
  ultimately have "nest_inv (st\<lparr>sections := rest, collector := ?p\<rparr>) (insert a S) (par @ [Sec s cur]) stk"
    using i by (auto simp: nest_inv_def)
  with secs that show thesis by blast
qed

lemma nest_inv_sections: "nest_inv st S cur stk \<Longrightarrow> map fst (sections st) = map fst stk"
proof -
  have "open_chain H S secs stk \<Longrightarrow> map fst secs = map fst stk" for H secs
    by (induction H S secs stk rule: open_chain.induct) auto
  then show "nest_inv st S cur stk \<Longrightarrow> map fst (sections st) = map fst stk"
    by (auto simp: nest_inv_def)
qed

lemma nest_loop_nestf:
  "nest_inv st S cur stk \<Longrightarrow>
   bindr (nest_loop toks st)
     (\<lambda>st. case sections st of [] \<Rightarrow> Inr (load (arrays st) 0)
        | (s, a) # _ \<Rightarrow> Inl (JsError (''Unclosed section: '' @ tvalue s))) = nestf toks cur stk"
proof (induction toks arbitrary: st S cur stk)
  case Nil
  show ?case
  proof (cases stk)
    case (Cons f stk')
    then obtain s par where "stk = (s, par) # stk'" by (cases f) auto
    with Nil show ?thesis using nest_inv_sections [OF Nil] by (cases "sections st") auto
  next
    case stk: Nil
    with Nil have "sections st = []" "rep (arrays st) S 0 (arrays st ! 0) cur"
      using nest_inv_sections [OF Nil] by (auto simp: nest_inv_def)
    with stk show ?thesis using rep_load by (simp add: load.simps)
  qed
next
  case (Cons t toks)
  consider (o) "opens_section t" | (c) "closes_section t" "\<not> opens_section t"
    | (l) "\<not> opens_section t" "\<not> closes_section t" by blast
  then show ?case
  proof cases
    case o
    from nest_inv_open [OF Cons.prems o] obtain st' where
      "nest_step t st = Inr st'" "nest_inv st' S [] ((t, cur) # stk)" by blast
    with o Cons.IH show ?thesis by simp
  next
    case c
    show ?thesis
    proof (cases stk)
      case Nil
      then have "sections st = []" using nest_inv_sections [OF Cons.prems] by simp
      with c Nil show ?thesis by (simp add: nest_step_def)
    next
      case stk: (Cons f stk')
      then obtain s par where f: "stk = (s, par) # stk'" by (cases f) auto
      from nest_inv_close [OF Cons.prems [unfolded f]] obtain a rest where
        r: "sections st = (s, a) # rest"
        "nest_inv (st\<lparr>sections := rest, collector := top_array rest\<rparr>) (insert a S) (par @ [Sec s cur]) stk'"
        by blast
      with c f show ?thesis using Cons.IH [OF r(2)]
        by (simp add: nest_step_def top_array_def)
    qed
  next
    case l
    have "nest_inv (st\<lparr>arrays := array_push (collector st) (CTok t) (arrays st)\<rparr>) S (cur @ [Leaf t]) stk"
      by (rule nest_inv_push [OF Cons.prems]) (auto intro: rep.intros)
    with l Cons.IH show ?thesis by (simp add: nest_step_def)
  qed
qed

lemma nestTokens_nestf: "nestTokens toks = nestf toks [] []"
proof -
  have "nest_inv nest_init {} [] []"
    by (auto simp: nest_inv_def nest_init_def intro: rep.intros)
  from nest_loop_nestf [OF this] show ?thesis by (simp add: nestTokens_def)
qed

text \<open>What a balanced sequence of tokens is, and the tree it stands for.\<close>

inductive nests :: "token list \<Rightarrow> ttree list \<Rightarrow> bool" where
  nests_nil: "nests [] []"
| nests_leaf: "\<not> opens_section t \<Longrightarrow> \<not> closes_section t \<Longrightarrow> nests ts ks \<Longrightarrow> nests (t # ts) (Leaf t # ks)"
| nests_sec: "opens_section t \<Longrightarrow> closes_section c \<Longrightarrow> tvalue c = tvalue t \<Longrightarrow> nests body ch \<Longrightarrow>
     nests ts ks \<Longrightarrow> nests (t # body @ c # ts) (Sec t ch # ks)"

lemma open_not_close: "opens_section t \<Longrightarrow> \<not> closes_section t"
  by (auto simp: opens_section_def closes_section_def)

lemma nestf_complete: "nests ts ks \<Longrightarrow> nestf (ts @ rest) cur stk = nestf rest (cur @ ks) stk"
proof (induction arbitrary: rest cur stk rule: nests.induct)
  case (nests_sec t c body ch ts ks)
  then show ?case using open_not_close by force
qed auto

lemma nestf_sound:
  "nestf ts cur stk = Inr res \<Longrightarrow>
   \<exists>pre ks rest. ts = pre @ rest \<and> nests pre ks \<and>
     (rest = [] \<and> stk = [] \<and> res = cur @ ks \<or>
      (\<exists>c rest' s par stk'. rest = c # rest' \<and> stk = (s, par) # stk' \<and> closes_section c \<and>
         tvalue c = tvalue s \<and> nestf rest' (par @ [Sec s (cur @ ks)]) stk' = Inr res))"
proof (induction "length ts" arbitrary: ts cur stk rule: less_induct)
  case less
  show ?case
  proof (cases ts)
    case Nil
    with less.prems show ?thesis by (cases stk) (auto intro: nests_nil)
  next
    case (Cons t ts')
    consider (o) "opens_section t" | (c) "closes_section t" "\<not> opens_section t"
      | (l) "\<not> opens_section t" "\<not> closes_section t" by blast
    then show ?thesis
    proof cases
      case o
      with Cons less.prems have "nestf ts' [] ((t, cur) # stk) = Inr res" by simp
      from less.hyps [OF _ this] Cons obtain body ch c rest where b:
        "ts' = body @ c # rest" "nests body ch" "closes_section c" "tvalue c = tvalue t"
        "nestf rest (cur @ [Sec t ch]) stk = Inr res" by auto
      have "length rest < length ts" using Cons b(1) by simp
      from less.hyps [OF this b(5)] obtain pre ks rest2 where r:
        "rest = pre @ rest2" "nests pre ks"
        "rest2 = [] \<and> stk = [] \<and> res = (cur @ [Sec t ch]) @ ks \<or>
          (\<exists>c rest' s par stk'. rest2 = c # rest' \<and> stk = (s, par) # stk' \<and> closes_section c \<and>
             tvalue c = tvalue s \<and> nestf rest' (par @ [Sec s ((cur @ [Sec t ch]) @ ks)]) stk' = Inr res)"
        by (elim exE conjE)
      have "nests (t # body @ c # pre) (Sec t ch # ks)" by (rule nests_sec [OF o b(3,4,2) r(2)])
      with Cons b(1) r show ?thesis
        by (intro exI [of _ "t # body @ c # pre"] exI [of _ "Sec t ch # ks"] exI [of _ rest2]) auto
    next
      case c
      with Cons less.prems show ?thesis
        by (intro exI [of _ "[]"] exI [of _ "[] :: ttree list"] exI [of _ ts])
          (auto intro: nests_nil split: list.splits if_splits)
    next
      case l
      with Cons less.prems have "nestf ts' (cur @ [Leaf t]) stk = Inr res" by simp
      from less.hyps [OF _ this] Cons obtain pre ks rest where r:
        "ts' = pre @ rest" "nests pre ks"
        "rest = [] \<and> stk = [] \<and> res = (cur @ [Leaf t]) @ ks \<or>
          (\<exists>c rest' s par stk'. rest = c # rest' \<and> stk = (s, par) # stk' \<and> closes_section c \<and>
             tvalue c = tvalue s \<and> nestf rest' (par @ [Sec s ((cur @ [Leaf t]) @ ks)]) stk' = Inr res)"
        by auto
      then show ?thesis using Cons nests_leaf [OF l r(2)]
        by (intro exI [of _ "t # pre"] exI [of _ "Leaf t # ks"] exI [of _ rest]) auto
    qed
  qed
qed

text \<open>C5: \<open>nestTokens\<close>, which fills shared arrays through a collector and a stack of open
  sections, returns a tree exactly for the token sequences in which every section is closed by
  a tag of its name and nothing is closed that is not open, and the tree is the one the nesting
  describes; every other sequence makes it throw.\<close>

theorem nestTokens_balanced:
  "(nestTokens toks = Inr tree) = nests toks tree"
proof
  assume "nestTokens toks = Inr tree"
  from nestf_sound [OF this [unfolded nestTokens_nestf]] show "nests toks tree" by auto
next
  assume "nests toks tree"
  from nestf_complete [OF this, of "[]" "[]" "[]"] show "nestTokens toks = Inr tree"
    by (simp add: nestTokens_nestf)
qed

section \<open>sectionBounds\<close>

text \<open>
  \<open>while ((tokens = token[4]) && tokens.length)\<close>: down to the last token of the last
  section, whose end is the end of the section's text.
\<close>

fun last_end :: "ttree \<Rightarrow> nat" where
  "last_end (Leaf t) = tend t"
| "last_end (Sec t ch) = (case ch of [] \<Rightarrow> tend t | _ # _ \<Rightarrow> last (map last_end ch))"

definition sectionBounds :: "token \<Rightarrow> ttree list \<Rightarrow> nat \<times> nat" where
  "sectionBounds t ch = (tend t, last_end (Sec t ch))"

text \<open>\<open>template.slice(start, end)\<close> for indices that are not negative.\<close>

definition str_slice :: "nat \<Rightarrow> nat \<Rightarrow> string \<Rightarrow> string" where
  "str_slice a b s = take (b - a) (drop a s)"

end
