(* ===== verification/MuParse.thy ===== *)
theory MuParse
  imports MuTokens "HOL-Library.Sublist"
begin

text \<open>
  \<open>exports.parse\<close> of \<open>mustache.js\<close>: \<open>escapeTags\<close>, the loop over the
  template with its handling of whitespace on lines that hold only tags, and the composition
  with \<open>squashTokens\<close> and \<open>nestTokens\<close>. One iteration of the loop is
  \<open>parse_step\<close>; the lemmas are an invariant of the loop (positions, indices of
  whitespace tokens), its progress, and what follows for the tokens of any template.
\<close>

section \<open>Tags\<close>

fun js_join :: "string \<Rightarrow> string list \<Rightarrow> string" where
  "js_join sep [] = []"
| "js_join sep [s] = s"
| "js_join sep (s # t # ss) = s @ sep @ js_join sep (t # ss)"

text \<open>\<open>s.split(re)\<close> for an expression that never matches the empty string.\<close>

function js_split :: "rx \<Rightarrow> string \<Rightarrow> string list" where
  "js_split r s =
     (case rx_search r s of
        None \<Rightarrow> [s]
      | Some (i, n) \<Rightarrow> if n = 0 then [s] else take i s # js_split r (drop (i + n) s))"
  by pat_completeness auto
termination
  by (relation "measure (\<lambda>(r, s). length s)") (auto dest!: rx_search_le)

declare js_split.simps [simp del]

lemma js_split_not_Nil [simp]: "js_split r s \<noteq> []"
  by (subst js_split.simps) (simp split: option.split prod.split)

definition new_RegExp :: "string \<Rightarrow> js_error + rx" where
  "new_RegExp p = (case read_rx p of None \<Rightarrow> Inl SyntaxError | Some r \<Rightarrow> Inr r)"

definition escapeTags :: "string list \<Rightarrow> js_error + rx \<times> rx" where
  "escapeTags tags =
     (if length tags \<noteq> 2 then Inl (JsError (''Invalid tags: '' @ js_join '' '' tags))
      else bindr (new_RegExp (escapeRe (tags ! 0) @ ws_star))
             (\<lambda>ore. bindr (new_RegExp (ws_star @ escapeRe (tags ! 1))) (\<lambda>cre. Inr (ore, cre))))"

definition mustache_tags :: "string list" where
  "mustache_tags = [''{{'', ''}}'']"

section \<open>The loop\<close>

record parse_state =
  ps_scanner :: scanner
  ps_tokens :: "token list"
  ps_spaces :: "nat list"
  ps_hasTag :: bool
  ps_nonSpace :: bool
  ps_tags :: "string list"
  ps_openRe :: rx
  ps_closeRe :: rx

text \<open>\<open>while (spaces.length) tokens.splice(spaces.pop(), 1)\<close>: from the last index down.\<close>

definition splice_all :: "nat list \<Rightarrow> token list \<Rightarrow> token list" where
  "splice_all spaces toks = foldr splice1 spaces toks"

definition stripSpace :: "parse_state \<Rightarrow> parse_state" where
  "stripSpace st =
     st\<lparr>ps_tokens := (if ps_hasTag st \<and> \<not> ps_nonSpace st
                     then splice_all (ps_spaces st) (ps_tokens st) else ps_tokens st),
        ps_spaces := [], ps_hasTag := False, ps_nonSpace := False\<rparr>"

definition text_char :: "char \<Rightarrow> nat \<Rightarrow> parse_state \<Rightarrow> parse_state" where
  "text_char chr start st =
     (let st1 = (if isWhitespace [chr] then st\<lparr>ps_spaces := ps_spaces st @ [length (ps_tokens st)]\<rparr>
                 else st\<lparr>ps_nonSpace := True\<rparr>);
          st2 = st1\<lparr>ps_tokens := ps_tokens st1 @ [mk_token Text [chr] start (Suc start)]\<rparr>
      in if chr = CHR 0x0A then stripSpace st2 else st2)"

fun text_chars :: "string \<Rightarrow> nat \<Rightarrow> parse_state \<Rightarrow> parse_state" where
  "text_chars [] start st = st"
| "text_chars (c # cs) start st = text_chars cs (Suc start) (text_char c start st)"

text \<open>The value of a tag, by its type: the type of the token, the value, the scanner.\<close>

definition read_value ::
  "ttype \<Rightarrow> string list \<Rightarrow> rx \<Rightarrow> scanner \<Rightarrow> js_error + ttype \<times> string \<times> scanner" where
  "read_value ty tags closeRe sc =
     (if ty = SetDelim
      then (let (v, sc1) = scanUntil eqRe sc; (_, sc2) = scan eqRe sc1;
                (_, sc3) = scanUntil closeRe sc2
            in Inr (ty, v, sc3))
      else if ty = Triple
      then bindr (new_RegExp (ws_star @ escapeRe (''}'' @ tags ! 1)))
             (\<lambda>tripleRe. let (v, sc1) = scanUntil tripleRe sc; (_, sc2) = scan curlyRe sc1;
                (_, sc3) = scanUntil closeRe sc2
              in Inr (Unescaped, v, sc3))
      else (let (v, sc1) = scanUntil closeRe sc in Inr (ty, v, sc1)))"

text \<open>From the character after the opening tag to the end of the iteration.\<close>

definition parse_tag :: "nat \<Rightarrow> parse_state \<Rightarrow> js_error + parse_state" where
  "parse_tag start st =
     (let (sigil, sc1) = scan tagRe (ps_scanner st);
          (_, sc2) = scan whiteRe sc1
      in bindr (read_value (type_of_sigil sigil) (ps_tags st) (ps_closeRe st) sc2)
           (\<lambda>(ty, v, sc3).
              let (closed, sc4) = scan (ps_closeRe st) sc3 in
              if closed = [] then Inl (JsError (''Unclosed tag at '' @ nat_dec (sc_pos sc4)))
              else let st1 = st\<lparr>ps_scanner := sc4,
                                ps_tokens := ps_tokens st @ [mk_token ty v start (sc_pos sc4)],
                                ps_hasTag := True,
                                ps_nonSpace := (ps_nonSpace st \<or> ty = Name \<or> ty = Triple \<or> ty = Unescaped)\<rparr>
                   in if ty = SetDelim
                      then let tags = js_split spaceRe v in
                           bindr (escapeTags tags)
                             (\<lambda>(ore, cre). Inr (st1\<lparr>ps_tags := tags, ps_openRe := ore, ps_closeRe := cre\<rparr>))
                      else Inr st1))"

text \<open>One iteration; the flag says whether the loop goes on (it stops at \<open>break\<close>).\<close>

definition parse_text :: "parse_state \<Rightarrow> parse_state" where
  "parse_text st =
     (let (v, sc) = scanUntil (ps_openRe st) (ps_scanner st)
      in text_chars v (sc_pos (ps_scanner st)) (st\<lparr>ps_scanner := sc\<rparr>))"

definition parse_step :: "parse_state \<Rightarrow> js_error + bool \<times> parse_state" where
  "parse_step st =
     (let st1 = parse_text st;
          start = sc_pos (ps_scanner st1);
          (opened, sc) = scan (ps_openRe st1) (ps_scanner st1);
          st2 = st1\<lparr>ps_scanner := sc\<rparr>
      in if opened = [] then Inr (False, st2)
         else bindr (parse_tag start st2) (\<lambda>st3. Inr (True, st3)))"

text \<open>No step moves the scanner back, and an iteration that goes on has read an opening tag.\<close>

lemma text_char_frame [simp]:
  "ps_scanner (text_char c n st) = ps_scanner st" "ps_openRe (text_char c n st) = ps_openRe st"
  "ps_closeRe (text_char c n st) = ps_closeRe st" "ps_tags (text_char c n st) = ps_tags st"
  by (simp_all add: text_char_def Let_def stripSpace_def)

lemma text_chars_frame [simp]:
  "ps_scanner (text_chars cs n st) = ps_scanner st" "ps_openRe (text_chars cs n st) = ps_openRe st"
  "ps_closeRe (text_chars cs n st) = ps_closeRe st" "ps_tags (text_chars cs n st) = ps_tags st"
  by (induction cs arbitrary: n st) simp_all

lemma read_valueE:
  assumes "read_value ty tags r sc = Inr (ty', v, sc')"
  obtains (delim) sc1 m sc2 m' where "ty = SetDelim" "ty' = SetDelim" "scanUntil eqRe sc = (v, sc1)"
      "scan eqRe sc1 = (m, sc2)" "scanUntil r sc2 = (m', sc')"
    | (triple) tre sc1 m sc2 m' where "ty = Triple" "ty' = Unescaped" "scanUntil tre sc = (v, sc1)"
      "scan curlyRe sc1 = (m, sc2)" "scanUntil r sc2 = (m', sc')"
    | (plain) "ty \<noteq> SetDelim" "ty \<noteq> Triple" "ty' = ty" "scanUntil r sc = (v, sc')"
proof -
  consider (d) "ty = SetDelim" | (t) "ty = Triple" | (p) "ty \<noteq> SetDelim" "ty \<noteq> Triple" by blast
  then show thesis
  proof cases
    case d
    with assms show thesis
      by (intro delim [of "snd (scanUntil eqRe sc)" "fst (scan eqRe (snd (scanUntil eqRe sc)))"
            "snd (scan eqRe (snd (scanUntil eqRe sc)))"
            "fst (scanUntil r (snd (scan eqRe (snd (scanUntil eqRe sc)))))"])
        (auto simp: read_value_def case_prod_unfold Let_def)
  next
    case t
    with assms obtain tre where tre: "snd (scanUntil r (snd (scan curlyRe (snd (scanUntil tre sc))))) = sc'"
      "fst (scanUntil tre sc) = v" "ty' = Unescaped"
      by (auto simp: read_value_def case_prod_unfold Let_def bindr_Inr_conv simp del: escapeRe.simps)
    with t show thesis
      by (intro triple [of tre "snd (scanUntil tre sc)" "fst (scan curlyRe (snd (scanUntil tre sc)))"
            "snd (scan curlyRe (snd (scanUntil tre sc)))"
            "fst (scanUntil r (snd (scan curlyRe (snd (scanUntil tre sc)))))"]) auto
  next
    case p
    with assms show thesis by (intro plain) (auto simp: read_value_def case_prod_unfold Let_def)
  qed
qed

lemma read_value_suffix:
  assumes "read_value ty tags r sc = Inr (ty', v, sc')"
  obtains m where "sc_tail sc = m @ sc_tail sc'" "sc_pos sc' = sc_pos sc + length m"
    "sc_string sc' = sc_string sc"
  using assms
proof (cases rule: read_valueE)
  case (delim sc1 m sc2 m')
  then show thesis
    using that [of "v @ m @ m'"] mu.until_rest mu.until_offset mu.until_whole
      mu.read_rest mu.read_offset mu.read_whole by (metis append.assoc length_append add.assoc)
next
  case (triple tre sc1 m sc2 m')
  then show thesis
    using that [of "v @ m @ m'"] mu.until_rest mu.until_offset mu.until_whole
      mu.read_rest mu.read_offset mu.read_whole by (metis append.assoc length_append add.assoc)
next
  case plain
  then show thesis using that [of v] mu.until_rest mu.until_offset mu.until_whole by metis
qed

lemma parse_tagE:
  assumes "parse_tag n st = Inr st'"
  obtains sg sc1 m sc2 ty v sc3 cl sc4 where
    "scan tagRe (ps_scanner st) = (sg, sc1)" "scan whiteRe sc1 = (m, sc2)"
    "read_value (type_of_sigil sg) (ps_tags st) (ps_closeRe st) sc2 = Inr (ty, v, sc3)"
    "scan (ps_closeRe st) sc3 = (cl, sc4)" "cl \<noteq> []" "ps_scanner st' = sc4"
    "ps_tokens st' = ps_tokens st @ [mk_token ty v n (sc_pos sc4)]"
    "ps_spaces st' = ps_spaces st" "ps_hasTag st'"
    "ps_nonSpace st' = (ps_nonSpace st \<or> ty = Name \<or> ty = Triple \<or> ty = Unescaped)"
    "if ty = SetDelim then escapeTags (ps_tags st') = Inr (ps_openRe st', ps_closeRe st') \<and>
        ps_tags st' = js_split spaceRe v
     else ps_tags st' = ps_tags st \<and> ps_openRe st' = ps_openRe st \<and> ps_closeRe st' = ps_closeRe st"
proof -
  obtain sg sc1 where 1: "scan tagRe (ps_scanner st) = (sg, sc1)" by fastforce
  obtain m sc2 where 2: "scan whiteRe sc1 = (m, sc2)" by fastforce
  from assms 1 2 obtain ty v sc3 where
    3: "read_value (type_of_sigil sg) (ps_tags st) (ps_closeRe st) sc2 = Inr (ty, v, sc3)"
    by (auto simp: parse_tag_def Let_def bindr_Inr_conv)
  obtain cl sc4 where 4: "scan (ps_closeRe st) sc3 = (cl, sc4)" by fastforce
  from assms 1 2 3 4 have "cl \<noteq> []" by (auto simp: parse_tag_def)
  with assms 1 2 3 4 show thesis
    by (intro that [OF 1 2 3 4])
      (auto simp: parse_tag_def Let_def bindr_Inr_conv split: if_splits)
qed

lemma parse_tag_suffix:
  assumes "parse_tag n st = Inr st'"
  obtains m where "sc_tail (ps_scanner st) = m @ sc_tail (ps_scanner st')"
    "sc_pos (ps_scanner st') = sc_pos (ps_scanner st) + length m"
    "sc_string (ps_scanner st') = sc_string (ps_scanner st)"
  using assms
proof (cases rule: parse_tagE)
  case (1 sg sc1 m sc2 ty v sc3 cl sc4)
  from 1(3) obtain k where "sc_tail sc2 = k @ sc_tail sc3" "sc_pos sc3 = sc_pos sc2 + length k"
    "sc_string sc3 = sc_string sc2" by (rule read_value_suffix)
  with mu.read_rest [OF 1(1)] mu.read_rest [OF 1(2)] mu.read_rest [OF 1(4)]
    mu.read_offset [OF 1(1)] mu.read_offset [OF 1(2)] mu.read_offset [OF 1(4)]
    mu.read_whole [OF 1(1)] mu.read_whole [OF 1(2)] mu.read_whole [OF 1(4)]
  show thesis using that [of "sg @ m @ k @ cl"] 1(6) by simp
qed

lemma parse_stepE:
  assumes "parse_step st = Inr (go, st')"
  obtains v sc opened sc2 where
    "scanUntil (ps_openRe st) (ps_scanner st) = (v, sc)" "scan (ps_openRe st) sc = (opened, sc2)"
    "go \<longleftrightarrow> opened \<noteq> []"
    "\<not> go \<longrightarrow> st' = text_chars v (sc_pos (ps_scanner st)) (st\<lparr>ps_scanner := sc\<rparr>)\<lparr>ps_scanner := sc2\<rparr>"
    "go \<longrightarrow> parse_tag (sc_pos sc)
       (text_chars v (sc_pos (ps_scanner st)) (st\<lparr>ps_scanner := sc\<rparr>)\<lparr>ps_scanner := sc2\<rparr>) = Inr st'"
proof -
  obtain v sc where v: "scanUntil (ps_openRe st) (ps_scanner st) = (v, sc)" by fastforce
  obtain opened sc2 where op: "scan (ps_openRe st) sc = (opened, sc2)" by fastforce
  from assms v op show thesis
    by (intro that [OF v op])
      (auto simp: parse_step_def parse_text_def Let_def bindr_Inr_conv split: if_splits)
qed

lemma parse_step_progress:
  assumes "parse_step st = Inr (True, st')"
  shows "length (sc_tail (ps_scanner st')) < length (sc_tail (ps_scanner st))"
  using assms
proof (cases rule: parse_stepE)
  case (1 v sc opened sc2)
  from 1 obtain m where "sc_tail sc2 = m @ sc_tail (ps_scanner st')"
    by (auto elim: parse_tag_suffix)
  then show ?thesis using mu.until_rest [OF 1(1)] mu.read_rest [OF 1(2)] 1(3) by simp
qed

function parse_loop :: "parse_state \<Rightarrow> js_error + parse_state" where
  "parse_loop st =
     (if eos (ps_scanner st) then Inr st
      else case parse_step st of
             Inl e \<Rightarrow> Inl e
           | Inr (go, st') \<Rightarrow> if go then parse_loop st' else Inr st')"
  by pat_completeness auto
termination
  by (relation "measure (\<lambda>st. length (sc_tail (ps_scanner st)))") (auto dest: parse_step_progress)

declare parse_loop.simps [simp del]

definition parse_init :: "string \<Rightarrow> string list \<Rightarrow> js_error + parse_state" where
  "parse_init template tags =
     bindr (escapeTags tags)
       (\<lambda>(ore, cre). Inr \<lparr>ps_scanner = new_Scanner template, ps_tokens = [], ps_spaces = [],
          ps_hasTag = False, ps_nonSpace = False, ps_tags = tags, ps_openRe = ore, ps_closeRe = cre\<rparr>)"

text \<open>The tokens before they are squashed and nested.\<close>

definition parse_tokens :: "string \<Rightarrow> string list \<Rightarrow> js_error + token list" where
  "parse_tokens template tags =
     bindr (parse_init template tags) (\<lambda>st. bindr (parse_loop st) (\<lambda>st. Inr (ps_tokens st)))"

definition parse :: "string \<Rightarrow> string list option \<Rightarrow> js_error + ttree list" where
  "parse template tags =
     (let tags = (case tags of None \<Rightarrow> mustache_tags | Some t \<Rightarrow> t)
      in bindr (parse_tokens template tags) (\<lambda>toks. nestTokens (squashTokens toks)))"

text \<open>The two expressions made from a pair of tags.\<close>

lemma escapeTags_pair: "escapeTags [a, b] = Inr (lit a @ [Star Sp], Star Sp # lit b)"
  using escapeRe_patterns [of a] escapeRe_patterns [of b] by (simp add: escapeTags_def new_RegExp_def)

lemma escapeTags_Inr: "escapeTags tags = Inr (ore, cre) \<longleftrightarrow>
    (\<exists>a b. tags = [a, b] \<and> ore = lit a @ [Star Sp] \<and> cre = Star Sp # lit b)"
proof (cases "\<exists>a b. tags = [a, b]")
  case True
  then show ?thesis by (auto simp: escapeTags_pair)
next
  case False
  then have "length tags \<noteq> 2"
    by (metis (no_types, lifting) Suc_length_conv length_0_conv numeral_2_eq_2)
  with False show ?thesis by (auto simp: escapeTags_def)
qed

end
