(* ===== verification/MuContext.thy ===== *)
theory MuContext
  imports JsValues MuParse
begin

text \<open>
  The \<open>Context\<close> class of \<open>mustache.js\<close>. Contexts are objects with identity: a context
  is shared by every callback that renders in it, and each has a cache of its own that
  \<open>lookup\<close> fills, so they live in a store and are named by their index. A parent is made
  before its children. The abstract view of a context is the list of the views from it to the
  root; \<open>lookup\<close> is shown to give what a search of that list gives, with the caches
  invisible.
\<close>

record ctx =
  cx_view :: jsval
  cx_parent :: "nat option"
  cx_cache :: "jsval js_obj"

type_synonym ctxs = "ctx list"

definition new_Context :: "jsval \<Rightarrow> nat option \<Rightarrow> ctxs \<Rightarrow> nat \<times> ctxs" where
  "new_Context v p cs = (length cs, cs @ [\<lparr>cx_view = v, cx_parent = p, cx_cache = []\<rparr>])"

text \<open>\<open>Context.make\<close>: a view that is a context already is used as it is.\<close>

datatype rview = RView jsval | RCtx nat

fun make_Context :: "rview \<Rightarrow> ctxs \<Rightarrow> nat \<times> ctxs" where
  "make_Context (RCtx i) cs = (i, cs)"
| "make_Context (RView v) cs = new_Context v None cs"

definition push_Context :: "jsval \<Rightarrow> nat \<Rightarrow> ctxs \<Rightarrow> nat \<times> ctxs" where
  "push_Context v i cs = new_Context v (Some i) cs"

definition clear_ctx_cache :: "nat \<Rightarrow> ctxs \<Rightarrow> ctxs" where
  "clear_ctx_cache i cs = cs[i := (cs ! i)\<lparr>cx_cache := []\<rparr>]"

section \<open>lookup\<close>

text \<open>\<open>name.indexOf(".") > 0\<close>, \<open>name.split(".")\<close>\<close>

definition dotted :: "string \<Rightarrow> bool" where
  "dotted name \<longleftrightarrow> (case rx_search (lit ''.'') name of None \<Rightarrow> False | Some (i, n) \<Rightarrow> i > 0)"

definition split_dots :: "string \<Rightarrow> string list" where
  "split_dots name = js_split (lit ''.'') name"

text \<open>\<open>while (value && i < names.length) value = value[names[i++]]\<close>\<close>

fun get_path :: "js_env \<Rightarrow> jsval \<Rightarrow> string list \<Rightarrow> js_error + jsval" where
  "get_path E v [] = Inr v"
| "get_path E v (n # ns) = (if truthy v then bindr (js_get E v n) (\<lambda>v'. get_path E v' ns) else Inr v)"

definition view_prop :: "js_env \<Rightarrow> jsval \<Rightarrow> string \<Rightarrow> js_error + jsval" where
  "view_prop E v name = (if dotted name then get_path E v (split_dots name) else js_get E v name)"

function walk :: "js_env \<Rightarrow> string \<Rightarrow> ctxs \<Rightarrow> nat \<Rightarrow> js_error + jsval" where
  "walk E name cs i =
     bindr (view_prop E (cx_view (cs ! i)) name)
       (\<lambda>v. if \<not> nullish v then Inr v
            else case cx_parent (cs ! i) of
                   None \<Rightarrow> Inr v
                 | Some p \<Rightarrow> if p < i then walk E name cs p else Inr v)"
  by pat_completeness auto
termination
  by (relation "measure (\<lambda>(E, name, cs, i). i)") auto

declare walk.simps [simp del]

text \<open>Reading a key of a cache made as \<open>{}\<close> also finds what such an object inherits.\<close>

definition cache_read :: "js_env \<Rightarrow> jsval js_obj \<Rightarrow> string \<Rightarrow> jsval" where
  "cache_read E d name = (case obj_get d name of Some v \<Rightarrow> v | None \<Rightarrow> env_proto E (Obj []) name)"

definition call_if_function :: "js_env \<Rightarrow> jsval \<Rightarrow> jsval \<Rightarrow> js_error + jsval" where
  "call_if_function E v this = (case v of Fun f \<Rightarrow> env_call E f this | _ \<Rightarrow> Inr v)"

definition lookup :: "js_env \<Rightarrow> string \<Rightarrow> nat \<Rightarrow> ctxs \<Rightarrow> ctxs \<times> (js_error + jsval)" where
  "lookup E name i cs =
     (let c = cs ! i; v0 = cache_read E (cx_cache c) name in
      if truthy v0 then (cs, call_if_function E v0 (cx_view c))
      else case (if name = ''.'' then Inr (cx_view c) else walk E name cs i) of
             Inl e \<Rightarrow> (cs, Inl e)
           | Inr v \<Rightarrow> (cs[i := c\<lparr>cx_cache := obj_set name v (cx_cache c)\<rparr>],
                      call_if_function E v (cx_view c)))"

section \<open>The abstract view\<close>

function chain :: "ctxs \<Rightarrow> nat \<Rightarrow> jsval list" where
  "chain cs i = cx_view (cs ! i) #
     (case cx_parent (cs ! i) of None \<Rightarrow> [] | Some p \<Rightarrow> if p < i then chain cs p else [])"
  by pat_completeness auto
termination
  by (relation "measure (\<lambda>(cs, i). i)") auto

declare chain.simps [simp del]

fun find_in :: "js_env \<Rightarrow> string \<Rightarrow> jsval list \<Rightarrow> js_error + jsval" where
  "find_in E name [] = Inr Undef"
| "find_in E name [v] = view_prop E v name"
| "find_in E name (v # w # vs) =
     bindr (view_prop E v name) (\<lambda>x. if \<not> nullish x then Inr x else find_in E name (w # vs))"

definition raw_value :: "js_env \<Rightarrow> string \<Rightarrow> jsval list \<Rightarrow> js_error + jsval" where
  "raw_value E name vs = (if name = ''.'' then Inr (hd vs) else find_in E name vs)"

definition spec_lookup :: "js_env \<Rightarrow> string \<Rightarrow> jsval list \<Rightarrow> js_error + jsval" where
  "spec_lookup E name vs = bindr (raw_value E name vs) (\<lambda>v. call_if_function E v (hd vs))"

lemma hd_chain [simp]: "hd (chain cs i) = cx_view (cs ! i)" "chain cs i \<noteq> []"
  by (subst chain.simps, simp)+

lemma walk_find_in: "walk E name cs i = find_in E name (chain cs i)"
proof (induction E name cs i rule: walk.induct)
  case (1 E name cs i)
  show ?case
  proof (cases "\<exists>p. cx_parent (cs ! i) = Some p \<and> p < i")
    case True
    then obtain p where p: "cx_parent (cs ! i) = Some p" "p < i" by blast
    then have c: "chain cs i = cx_view (cs ! i) # chain cs p" by (simp add: chain.simps [of cs i])
    obtain w ws where w: "chain cs p = w # ws" by (metis hd_chain(2) list.exhaust)
    show ?thesis
    proof (cases "view_prop E (cx_view (cs ! i)) name")
      case (Inr x)
      have "nullish x \<Longrightarrow> walk E name cs p = find_in E name (chain cs p)"
        using 1 [OF Inr _ p] by simp
      with p c w Inr show ?thesis by (simp add: walk.simps [of E name cs i])
    qed (use c w p in \<open>simp add: walk.simps [of E name cs i]\<close>)
  next
    case False
    then have "chain cs i = [cx_view (cs ! i)]"
      by (auto simp: chain.simps [of cs i] split: option.split)
    with False show ?thesis
      by (auto simp: walk.simps [of E name cs i] bindr_def split: option.split sum.split)
  qed
qed

text \<open>A name is plain when an empty object inherits nothing under it.\<close>

definition plain :: "js_env \<Rightarrow> string \<Rightarrow> bool" where
  "plain E name \<longleftrightarrow> env_proto E (Obj []) name = Undef"

definition raw_opt :: "js_env \<Rightarrow> jsval list \<Rightarrow> string \<Rightarrow> jsval option" where
  "raw_opt E vs name = (case raw_value E name vs of Inl e \<Rightarrow> None | Inr v \<Rightarrow> Some v)"

text \<open>Every cached value is the value a search would give.\<close>

definition ctxs_ok :: "js_env \<Rightarrow> ctxs \<Rightarrow> bool" where
  "ctxs_ok E cs \<longleftrightarrow> (\<forall>i < length cs. objmemo.sound (raw_opt E (chain cs i)) (cx_cache (cs ! i)) \<and>
     (\<forall>p. cx_parent (cs ! i) = Some p \<longrightarrow> p < i))"

text \<open>Later stores keep the chains of the contexts that exist.\<close>

definition extends :: "ctxs \<Rightarrow> ctxs \<Rightarrow> bool" where
  "extends cs cs' \<longleftrightarrow> length cs \<le> length cs' \<and>
     (\<forall>i < length cs. cx_view (cs' ! i) = cx_view (cs ! i) \<and> cx_parent (cs' ! i) = cx_parent (cs ! i))"

lemma extends_refl [simp]: "extends cs cs"
  by (simp add: extends_def)

lemma extends_trans: "extends a b \<Longrightarrow> extends b c \<Longrightarrow> extends a c"
  by (simp add: extends_def)

lemma extends_length: "extends cs cs' \<Longrightarrow> i < length cs \<Longrightarrow> i < length cs'"
  by (simp add: extends_def)

lemma chain_extends: "extends cs cs' \<Longrightarrow> i < length cs \<Longrightarrow> chain cs' i = chain cs i"
proof (induction cs i rule: chain.induct)
  case (1 cs i)
  then show ?case
    by (auto simp: chain.simps [of cs i] chain.simps [of cs' i] extends_def split: option.splits)
qed

lemma new_Context_ok:
  assumes "ctxs_ok E cs" "new_Context v p cs = (j, cs')" "\<And>q. p = Some q \<Longrightarrow> q < length cs"
  shows "ctxs_ok E cs'" "extends cs cs'" "j < length cs'"
    "chain cs' j = v # (case p of None \<Rightarrow> [] | Some q \<Rightarrow> chain cs q)"
proof -
  from assms(2) have j: "j = length cs" "cs' = cs @ [\<lparr>cx_view = v, cx_parent = p, cx_cache = []\<rparr>]"
    by (auto simp: new_Context_def)
  then show e: "extends cs cs'" and "j < length cs'" by (auto simp: extends_def nth_append)
  show "chain cs' j = v # (case p of None \<Rightarrow> [] | Some q \<Rightarrow> chain cs q)"
    using j assms(3) chain_extends [OF e] by (subst chain.simps) (auto split: option.split)
  show "ctxs_ok E cs'" unfolding ctxs_ok_def
  proof (intro allI impI)
    fix i assume i: "i < length cs'"
    show "objmemo.sound (raw_opt E (chain cs' i)) (cx_cache (cs' ! i)) \<and>
        (\<forall>p. cx_parent (cs' ! i) = Some p \<longrightarrow> p < i)"
    proof (cases "i < length cs")
      case True
      with assms(1) j chain_extends [OF e] show ?thesis by (simp add: ctxs_ok_def nth_append)
    next
      case False
      with i j(2) have "i = length cs" by simp
      with j assms(3) show ?thesis by (simp add: objmemo.sound_fresh)
    qed
  qed
qed

lemmas push_Context_ok = new_Context_ok [of E cs v "Some i" for E cs v i, folded push_Context_def, simplified]

lemma lookup_ok:
  assumes "ctxs_ok E cs" "i < length cs" "plain E name"
  shows "snd (lookup E name i cs) = spec_lookup E name (chain cs i)"
    "ctxs_ok E (fst (lookup E name i cs))" "extends cs (fst (lookup E name i cs))"
proof -
  let ?c = "cs ! i" let ?raw = "if name = ''.'' then Inr (cx_view ?c) else walk E name cs i"
  have raw: "?raw = raw_value E name (chain cs i)" by (simp add: raw_value_def walk_find_in)
  have hit: "raw_value E name (chain cs i) = Inr (cache_read E (cx_cache ?c) name)"
    if "truthy (cache_read E (cx_cache ?c) name)"
  proof -
    from that assms(3) have "obj_get (cx_cache ?c) name = Some (cache_read E (cx_cache ?c) name)"
      by (auto simp: cache_read_def plain_def split: option.splits)
    moreover have "objmemo.sound (raw_opt E (chain cs i)) (cx_cache ?c)"
      using assms(1,2) by (simp add: ctxs_ok_def)
    ultimately have "raw_opt E (chain cs i) name = Some (cache_read E (cx_cache ?c) name)"
      by (rule objmemo.sound_hit [rotated])
    then show ?thesis by (simp add: raw_opt_def split: sum.splits)
  qed
  show "snd (lookup E name i cs) = spec_lookup E name (chain cs i)"
    using hit raw by (auto simp: lookup_def Let_def spec_lookup_def split: sum.split)
  have ext: "extends cs (cs[i := ?c\<lparr>cx_cache := d\<rparr>])" for d
    using assms(2) by (auto simp: extends_def nth_list_update)
  show "extends cs (fst (lookup E name i cs))"
    using ext by (auto simp: lookup_def Let_def simp del: extends_refl split: sum.split) (simp_all add: extends_def)
  have "ctxs_ok E (cs[i := ?c\<lparr>cx_cache := obj_set name v (cx_cache ?c)\<rparr>])" (is "ctxs_ok E ?cs'")
    if "raw_value E name (chain cs i) = Inr v" for v
    unfolding ctxs_ok_def
  proof (intro allI impI)
    fix k assume k: "k < length ?cs'"
    then have ch: "chain ?cs' k = chain cs k" using chain_extends [OF ext] by simp
    from k assms(1) have s: "objmemo.sound (raw_opt E (chain cs k)) (cx_cache (cs ! k))"
      "\<forall>p. cx_parent (cs ! k) = Some p \<longrightarrow> p < k" by (simp_all add: ctxs_ok_def)
    show "objmemo.sound (raw_opt E (chain ?cs' k)) (cx_cache (?cs' ! k)) \<and>
        (\<forall>p. cx_parent (?cs' ! k) = Some p \<longrightarrow> p < k)"
      using s that assms(2) unfolding ch
      by (cases "k = i") (auto simp: raw_opt_def intro: objmemo.sound_put)
  qed
  with raw assms(1) show "ctxs_ok E (fst (lookup E name i cs))"
    by (auto simp: lookup_def Let_def split: sum.split)
qed

end
