(* ===== verification/MuRender.thy ===== *)
theory MuRender
  imports MuContext
begin

text \<open>
  The \<open>Writer\<close> class and \<open>compileTokens\<close> of \<open>mustache.js\<close>. A run of a
  compiled template works on a state: the contexts, the two caches of the writer and the
  function it loads partials with. It returns the state and either a thrown error or a value;
  \<open>None\<close> is a run that needs more nested templates (partials, templates rendered by
  lambdas) than the fuel it was given, which stands for the call depth.

  The closures of the code are data here: a compiled template is its tree with its text, and
  the memo table \<open>subRenders\<close> of one closure, which holds for each section of a fixed tree
  and a fixed text the closure of its subtree, is that subtree.
\<close>

section \<open>State\<close>

datatype cfn = Compiled "ttree list" string | Foreign jsval

record wstate =
  w_ctxs :: ctxs
  w_cache :: "cfn js_obj"
  w_partials :: "cfn js_obj"
  w_load :: "(string \<Rightarrow> js_error + string) option"

type_synonym 'a run = "(wstate \<times> (js_error + 'a)) option"

definition bindw :: "'a run \<Rightarrow> ('a \<Rightarrow> wstate \<Rightarrow> 'b run) \<Rightarrow> 'b run" where
  "bindw m f = (case m of
      None \<Rightarrow> None
    | Some (st, r) \<Rightarrow> (case r of Inl e \<Rightarrow> Some (st, Inl e) | Inr x \<Rightarrow> f x st))"

lemma bindw_simps [simp]:
  "bindw None f = None" "bindw (Some (st, Inl e)) f = Some (st, Inl e)"
  "bindw (Some (st, Inr x)) f = f x st"
  by (simp_all add: bindw_def)

lemma bindw_cong [fundef_cong]:
  "m = m' \<Longrightarrow> (\<And>st x. m' = Some (st, Inr x) \<Longrightarrow> f x st = g x st) \<Longrightarrow> bindw m f = bindw m' g"
  by (auto simp: bindw_def split: option.split sum.split)

definition writer_clearCache :: "wstate \<Rightarrow> wstate" where
  "writer_clearCache st = st\<lparr>w_cache := [], w_partials := []\<rparr>"

definition new_Writer :: wstate where
  "new_Writer = \<lparr>w_ctxs = [], w_cache = [], w_partials = [], w_load = None\<rparr>"

section \<open>Compiling\<close>

text \<open>
  \<open>compile\<close>: the cache is a plain object, and a name that such objects inherit is found
  in it although nothing was stored.
\<close>

definition compile :: "js_env \<Rightarrow> string \<Rightarrow> string list option \<Rightarrow> wstate \<Rightarrow> wstate \<times> (js_error + cfn)" where
  "compile E template tags st =
     (case obj_get (w_cache st) template of
        Some fn \<Rightarrow> (st, Inr fn)
      | None \<Rightarrow>
          let p = env_proto E (Obj []) template in
          if truthy p then (st, Inr (Foreign p))
          else case parse template tags of
                 Inl e \<Rightarrow> (st, Inl e)
               | Inr ts \<Rightarrow> (st\<lparr>w_cache := obj_set template (Compiled ts template) (w_cache st)\<rparr>,
                           Inr (Compiled ts template)))"

definition compilePartial ::
  "js_env \<Rightarrow> string \<Rightarrow> string \<Rightarrow> string list option \<Rightarrow> wstate \<Rightarrow> wstate \<times> (js_error + cfn)" where
  "compilePartial E name template tags st =
     (case compile E template tags st of
        (st1, Inl e) \<Rightarrow> (st1, Inl e)
      | (st1, Inr fn) \<Rightarrow> (st1\<lparr>w_partials := obj_set name fn (w_partials st1)\<rparr>, Inr fn))"

datatype partials = NoPartials | PartialFun "string \<Rightarrow> js_error + string"
  | PartialObj "(string \<times> string) list"

fun compile_partials :: "js_env \<Rightarrow> (string \<times> string) list \<Rightarrow> wstate \<Rightarrow> wstate \<times> (js_error + unit)" where
  "compile_partials E [] st = (st, Inr ())"
| "compile_partials E ((n, t) # ps) st =
     (case compilePartial E n t None st of
        (st1, Inl e) \<Rightarrow> (st1, Inl e)
      | (st1, Inr fn) \<Rightarrow> compile_partials E ps st1)"

fun install_partials :: "js_env \<Rightarrow> partials \<Rightarrow> wstate \<Rightarrow> wstate \<times> (js_error + unit)" where
  "install_partials E NoPartials st = (st, Inr ())"
| "install_partials E (PartialFun f) st = (st\<lparr>w_load := Some f\<rparr>, Inr ())"
| "install_partials E (PartialObj ps) st = compile_partials E ps st"

section \<open>Tags\<close>

type_synonym caller = "cfn \<Rightarrow> rview \<Rightarrow> wstate \<Rightarrow> jsval run"

definition w_lookup :: "js_env \<Rightarrow> string \<Rightarrow> nat \<Rightarrow> wstate \<Rightarrow> jsval run" where
  "w_lookup E name i st =
     (case lookup E name i (w_ctxs st) of (cs, r) \<Rightarrow> Some (st\<lparr>w_ctxs := cs\<rparr>, r))"

definition w_view :: "nat \<Rightarrow> wstate \<Rightarrow> jsval" where
  "w_view i st = cx_view (w_ctxs st ! i)"

definition w_push :: "jsval \<Rightarrow> nat \<Rightarrow> wstate \<Rightarrow> nat \<times> wstate" where
  "w_push v i st = (case push_Context v i (w_ctxs st) of (j, cs) \<Rightarrow> (j, st\<lparr>w_ctxs := cs\<rparr>))"

definition ret :: "'a \<Rightarrow> wstate \<Rightarrow> 'a run" where
  "ret x st = Some (st, Inr x)"

definition lift_r :: "(js_error + 'a) \<Rightarrow> wstate \<Rightarrow> 'a run" where
  "lift_r r st = Some (st, r)"

text \<open>\<open>scopedRender\<close>, \<open>self.render(template, context)\<close>\<close>

definition scoped_render :: "js_env \<Rightarrow> caller \<Rightarrow> string \<Rightarrow> nat \<Rightarrow> wstate \<Rightarrow> jsval run" where
  "scoped_render E call template i st =
     (case compile E template None st of
        (st1, Inl e) \<Rightarrow> Some (st1, Inl e)
      | (st1, Inr fn) \<Rightarrow> call fn (RCtx i) st1)"

primrec run_lam :: "js_env \<Rightarrow> caller \<Rightarrow> nat \<Rightarrow> lam \<Rightarrow> wstate \<Rightarrow> jsval run" where
  "run_lam E call i (Done r) st = Some (st, r)"
| "run_lam E call i (Ask t k) st =
     (case scoped_render E call t i st of
        None \<Rightarrow> None
      | Some (st1, r) \<Rightarrow> run_lam E call i (k r) st1)"

type_synonym callback = "nat \<Rightarrow> wstate \<Rightarrow> string run"

fun section_items :: "callback \<Rightarrow> jsval list \<Rightarrow> nat \<Rightarrow> wstate \<Rightarrow> string run" where
  "section_items cb [] i st = ret [] st"
| "section_items cb (v # vs) i st =
     (case w_push v i st of (j, st1) \<Rightarrow>
        bindw (cb j st1) (\<lambda>s st2. bindw (section_items cb vs i st2) (\<lambda>rest. ret (s @ rest))))"

definition section_fn :: "js_env \<Rightarrow> caller \<Rightarrow> string \<Rightarrow> nat \<Rightarrow> string \<Rightarrow> callback \<Rightarrow> wstate \<Rightarrow> jsval run" where
  "section_fn E call name i text cb st =
     bindw (w_lookup E name i st) (\<lambda>value st1.
       (case value of
          Arr vs \<Rightarrow> bindw (section_items cb vs i st1) (\<lambda>s. ret (Str s))
        | Null \<Rightarrow> ret (Str []) st1
        | Obj ps \<Rightarrow> (case w_push value i st1 of (j, st2) \<Rightarrow> bindw (cb j st2) (\<lambda>s. ret (Str s)))
        | Fun f \<Rightarrow> bindw (run_lam E call i (env_section E f (w_view i st1) text) st1)
                     (\<lambda>r. ret (if truthy r then r else Str []))
        | _ \<Rightarrow> if truthy value then bindw (cb i st1) (\<lambda>s. ret (Str s)) else ret (Str []) st1))"

definition inverted_fn :: "js_env \<Rightarrow> string \<Rightarrow> nat \<Rightarrow> callback \<Rightarrow> wstate \<Rightarrow> jsval run" where
  "inverted_fn E name i cb st =
     bindw (w_lookup E name i st) (\<lambda>value st1.
       if \<not> truthy value \<or> value = Arr [] then bindw (cb i st1) (\<lambda>s. ret (Str s))
       else ret (Str []) st1)"

definition partial_fn :: "js_env \<Rightarrow> caller \<Rightarrow> string \<Rightarrow> nat \<Rightarrow> wstate \<Rightarrow> jsval run" where
  "partial_fn E call name i st =
     (let present = obj_get (w_partials st) name \<noteq> None \<or> env_proto E (Obj []) name \<noteq> Undef in
      bindw (case w_load st of
               Some ld \<Rightarrow>
                 if present then ret () st
                 else bindw (lift_r (ld name) st)
                        (\<lambda>t st. case compilePartial E name t None st of
                                  (st1, Inl e) \<Rightarrow> Some (st1, Inl e) | (st1, Inr fn) \<Rightarrow> ret () st1)
             | None \<Rightarrow> ret () st)
        (\<lambda>_ st1.
          (case obj_get (w_partials st1) name of
             Some fn \<Rightarrow> call fn (RCtx i) st1
           | None \<Rightarrow> let p = env_proto E (Obj []) name in
               if truthy p then call (Foreign p) (RCtx i) st1 else ret (Str []) st1)))"

definition name_fn :: "js_env \<Rightarrow> string \<Rightarrow> nat \<Rightarrow> wstate \<Rightarrow> string run" where
  "name_fn E name i st =
     bindw (w_lookup E name i st) (\<lambda>value st1.
       bindw (lift_r (call_if_function E value (w_view i st1)) st1)
         (\<lambda>v st2. if nullish v then ret [] st2 else lift_r (js_string E True v) st2))"

definition escaped_fn :: "js_env \<Rightarrow> string \<Rightarrow> nat \<Rightarrow> wstate \<Rightarrow> string run" where
  "escaped_fn E name i st = bindw (name_fn E name i st) (\<lambda>s. ret (escapeHtml s))"

section \<open>Running a tree\<close>

text \<open>
  The function that \<open>compileTokens\<close> returns: \<open>buffer += ...\<close> for each token, where
  what is added is converted to a string. A section gets the text between its bounds and the
  subtree as its callback.
\<close>

fun run_tokens :: "js_env \<Rightarrow> caller \<Rightarrow> string \<Rightarrow> ttree list \<Rightarrow> nat \<Rightarrow> wstate \<Rightarrow> string run"
  and run_token :: "js_env \<Rightarrow> caller \<Rightarrow> string \<Rightarrow> ttree \<Rightarrow> nat \<Rightarrow> wstate \<Rightarrow> jsval run" where
  "run_tokens E call T [] i st = ret [] st"
| "run_tokens E call T (t # ts) i st =
     bindw (run_token E call T t i st) (\<lambda>v st1.
       bindw (lift_r (js_string E False v) st1) (\<lambda>s st2.
         bindw (run_tokens E call T ts i st2) (\<lambda>rest. ret (s @ rest))))"
| "run_token E call T (Leaf t) i st =
     (case ttype t of
        Partial \<Rightarrow> partial_fn E call (tvalue t) i st
      | Unescaped \<Rightarrow> bindw (name_fn E (tvalue t) i st) (\<lambda>s. ret (Str s))
      | Name \<Rightarrow> bindw (escaped_fn E (tvalue t) i st) (\<lambda>s. ret (Str s))
      | Text \<Rightarrow> ret (Str (tvalue t)) st
      | _ \<Rightarrow> ret (Str []) st)"
| "run_token E call T (Sec t ch) i st =
     (if ttype t = Section
      then section_fn E call (tvalue t) i
             (case sectionBounds t ch of (a, b) \<Rightarrow> str_slice a b T)
             (\<lambda>j st'. run_tokens E call T ch j st') st
      else inverted_fn E (tvalue t) i (\<lambda>j st'. run_tokens E call T ch j st') st)"

definition make_view :: "rview \<Rightarrow> wstate \<Rightarrow> nat \<times> wstate" where
  "make_view v st = (case make_Context v (w_ctxs st) of (i, cs) \<Rightarrow> (i, st\<lparr>w_ctxs := cs\<rparr>))"

text \<open>
  Calling what \<open>compile\<close> returned: \<open>fn(view, partials)\<close>. The fuel counts how deep
  calls of compiled templates nest; the templates called from the tokens of this one are called
  without partials.
\<close>

fun call_fn :: "js_env \<Rightarrow> nat \<Rightarrow> partials \<Rightarrow> caller" where
  "call_fn E fuel ps (Foreign p) v st =
     lift_r (env_foreign E p (case v of RView x \<Rightarrow> Some x | RCtx i \<Rightarrow> None)) st"
| "call_fn E 0 ps (Compiled ts T) v st = None"
| "call_fn E (Suc fuel) ps (Compiled ts T) v st =
     (case install_partials E ps st of
        (st1, Inl e) \<Rightarrow> Some (st1, Inl e)
      | (st1, Inr _) \<Rightarrow>
          (case make_view v st1 of (i, st2) \<Rightarrow>
             bindw (run_tokens E (call_fn E fuel NoPartials) T ts i st2) (\<lambda>s. ret (Str s))))"

text \<open>\<open>Writer.prototype.render\<close>, which \<open>exports.render\<close> calls on the default writer.\<close>

definition render :: "js_env \<Rightarrow> nat \<Rightarrow> string \<Rightarrow> rview \<Rightarrow> partials \<Rightarrow> wstate \<Rightarrow> jsval run" where
  "render E fuel template v ps st =
     (case compile E template None st of
        (st1, Inl e) \<Rightarrow> Some (st1, Inl e)
      | (st1, Inr fn) \<Rightarrow> call_fn E fuel ps fn v st1)"

text \<open>\<open>exports.to_html\<close>: the result goes to \<open>send\<close> if that is a function, else back.\<close>

datatype sent = Returned jsval | Sent fid jsval

definition to_html ::
  "js_env \<Rightarrow> nat \<Rightarrow> string \<Rightarrow> rview \<Rightarrow> partials \<Rightarrow> jsval \<Rightarrow> wstate \<Rightarrow> sent run" where
  "to_html E fuel template v ps send st =
     bindw (render E fuel template v ps st)
       (\<lambda>r. ret (case send of Fun f \<Rightarrow> Sent f r | _ \<Rightarrow> Returned r))"

end
