(* ===== verification/MuSpec.thy ===== *)
theory MuSpec
  imports MuRender
begin

text \<open>
  The abstract specification of rendering: no store of contexts, no cache, no loader. A
  context is the list of the views from it to the root, a partial is a text, and what a tree
  gives is a function of these. The main lemma says that the engine of \<open>MuRender\<close>
  computes exactly this, from any state whose caches hold what compiling gives, and leaves such
  a state behind.
\<close>

section \<open>The specification\<close>

type_synonym penv = "string \<Rightarrow> js_error + string option"
type_synonym 'a srun = "(js_error + 'a) option"
type_synonym scaller = "ttree list \<Rightarrow> string \<Rightarrow> jsval list \<Rightarrow> jsval srun"

definition binds :: "'a srun \<Rightarrow> ('a \<Rightarrow> 'b srun) \<Rightarrow> 'b srun" where
  "binds m f = (case m of None \<Rightarrow> None | Some r \<Rightarrow> (case r of Inl e \<Rightarrow> Some (Inl e) | Inr x \<Rightarrow> f x))"

lemma binds_simps [simp]:
  "binds None f = None" "binds (Some (Inl e)) f = Some (Inl e)" "binds (Some (Inr x)) f = f x"
  by (simp_all add: binds_def)

lemma binds_cong [fundef_cong]:
  "m = m' \<Longrightarrow> (\<And>x. m' = Some (Inr x) \<Longrightarrow> f x = g x) \<Longrightarrow> binds m f = binds m' g"
  by (auto simp: binds_def split: option.split sum.split)

definition s_text :: "scaller \<Rightarrow> string \<Rightarrow> jsval list \<Rightarrow> jsval srun" where
  "s_text call T vs = binds (Some (parse T None)) (\<lambda>ts. call ts T vs)"

primrec s_lam :: "scaller \<Rightarrow> jsval list \<Rightarrow> lam \<Rightarrow> jsval srun" where
  "s_lam call vs (Done r) = Some r"
| "s_lam call vs (Ask t k) = (case s_text call t vs of None \<Rightarrow> None | Some r \<Rightarrow> s_lam call vs (k r))"

fun s_items :: "(jsval list \<Rightarrow> string srun) \<Rightarrow> jsval list \<Rightarrow> jsval list \<Rightarrow> string srun" where
  "s_items cb [] vs = Some (Inr [])"
| "s_items cb (x # xs) vs =
     binds (cb (x # vs)) (\<lambda>s. binds (s_items cb xs vs) (\<lambda>rest. Some (Inr (s @ rest))))"

definition s_section ::
  "js_env \<Rightarrow> scaller \<Rightarrow> string \<Rightarrow> jsval list \<Rightarrow> string \<Rightarrow> (jsval list \<Rightarrow> string srun) \<Rightarrow> jsval srun" where
  "s_section E call name vs text cb =
     binds (Some (spec_lookup E name vs)) (\<lambda>value.
       (case value of
          Arr xs \<Rightarrow> binds (s_items cb xs vs) (\<lambda>s. Some (Inr (Str s)))
        | Null \<Rightarrow> Some (Inr (Str []))
        | Obj ps \<Rightarrow> binds (cb (value # vs)) (\<lambda>s. Some (Inr (Str s)))
        | Fun f \<Rightarrow> binds (s_lam call vs (env_section E f (hd vs) text))
                     (\<lambda>r. Some (Inr (if truthy r then r else Str [])))
        | _ \<Rightarrow> if truthy value then binds (cb vs) (\<lambda>s. Some (Inr (Str s))) else Some (Inr (Str []))))"

definition s_inverted :: "js_env \<Rightarrow> string \<Rightarrow> jsval list \<Rightarrow> (jsval list \<Rightarrow> string srun) \<Rightarrow> jsval srun" where
  "s_inverted E name vs cb =
     binds (Some (spec_lookup E name vs)) (\<lambda>value.
       if \<not> truthy value \<or> value = Arr [] then binds (cb vs) (\<lambda>s. Some (Inr (Str s)))
       else Some (Inr (Str [])))"

definition s_partial :: "penv \<Rightarrow> scaller \<Rightarrow> string \<Rightarrow> jsval list \<Rightarrow> jsval srun" where
  "s_partial P call name vs =
     binds (Some (P name)) (\<lambda>t. case t of None \<Rightarrow> Some (Inr (Str [])) | Some T \<Rightarrow> s_text call T vs)"

definition s_name :: "js_env \<Rightarrow> string \<Rightarrow> jsval list \<Rightarrow> string srun" where
  "s_name E name vs =
     binds (Some (spec_lookup E name vs)) (\<lambda>value.
       binds (Some (call_if_function E value (hd vs)))
         (\<lambda>v. if nullish v then Some (Inr []) else Some (js_string E True v)))"

fun s_tokens :: "js_env \<Rightarrow> penv \<Rightarrow> scaller \<Rightarrow> string \<Rightarrow> ttree list \<Rightarrow> jsval list \<Rightarrow> string srun"
  and s_token :: "js_env \<Rightarrow> penv \<Rightarrow> scaller \<Rightarrow> string \<Rightarrow> ttree \<Rightarrow> jsval list \<Rightarrow> jsval srun" where
  "s_tokens E P call T [] vs = Some (Inr [])"
| "s_tokens E P call T (t # ts) vs =
     binds (s_token E P call T t vs) (\<lambda>v.
       binds (Some (js_string E False v)) (\<lambda>s.
         binds (s_tokens E P call T ts vs) (\<lambda>rest. Some (Inr (s @ rest)))))"
| "s_token E P call T (Leaf t) vs =
     (case ttype t of
        Partial \<Rightarrow> s_partial P call (tvalue t) vs
      | Unescaped \<Rightarrow> binds (s_name E (tvalue t) vs) (\<lambda>s. Some (Inr (Str s)))
      | Name \<Rightarrow> binds (s_name E (tvalue t) vs) (\<lambda>s. Some (Inr (Str (escapeHtml s))))
      | Text \<Rightarrow> Some (Inr (Str (tvalue t)))
      | _ \<Rightarrow> Some (Inr (Str [])))"
| "s_token E P call T (Sec t ch) vs =
     (if ttype t = Section
      then s_section E call (tvalue t) vs
             (case sectionBounds t ch of (a, b) \<Rightarrow> str_slice a b T)
             (\<lambda>ws. s_tokens E P call T ch ws)
      else s_inverted E (tvalue t) vs (\<lambda>ws. s_tokens E P call T ch ws))"

fun s_call :: "js_env \<Rightarrow> penv \<Rightarrow> nat \<Rightarrow> scaller" where
  "s_call E P 0 ts T vs = None"
| "s_call E P (Suc fuel) ts T vs =
     binds (s_tokens E P (s_call E P fuel) T ts vs) (\<lambda>s. Some (Inr (Str s)))"

definition s_render :: "js_env \<Rightarrow> penv \<Rightarrow> nat \<Rightarrow> string \<Rightarrow> jsval \<Rightarrow> jsval srun" where
  "s_render E P fuel T view = s_text (s_call E P fuel) T [view]"

section \<open>When the caches are what they should be\<close>

text \<open>The names a tree looks up, here or in its sections.\<close>

fun tree_names :: "ttree \<Rightarrow> string list" where
  "tree_names (Leaf t) = (if ttype t \<in> {Name, Unescaped, Partial} then [tvalue t] else [])"
| "tree_names (Sec t ch) = tvalue t # concat (map tree_names ch)"

definition trees_ok :: "js_env \<Rightarrow> ttree list \<Rightarrow> bool" where
  "trees_ok E ts \<longleftrightarrow> list_all (\<lambda>k. list_all (plain E) (tree_names k)) ts"

definition text_ok :: "js_env \<Rightarrow> string \<Rightarrow> bool" where
  "text_ok E T \<longleftrightarrow> plain E T \<and> (case parse T None of Inl e \<Rightarrow> True | Inr ts \<Rightarrow> trees_ok E ts)"

primrec lam_ok :: "js_env \<Rightarrow> lam \<Rightarrow> bool" where
  "lam_ok E (Done r) = True"
| "lam_ok E (Ask t k) = (text_ok E t \<and> (\<forall>r. lam_ok E (k r)))"

definition world_ok :: "js_env \<Rightarrow> penv \<Rightarrow> bool" where
  "world_ok E P \<longleftrightarrow> (\<forall>n T. P n = Inr (Some T) \<longrightarrow> text_ok E T) \<and>
     (\<forall>f this text. lam_ok E (env_section E f this text))"

definition compiled :: "string \<Rightarrow> cfn option" where
  "compiled T = (case parse T None of Inl e \<Rightarrow> None | Inr ts \<Rightarrow> Some (Compiled ts T))"

definition compiled_partial :: "penv \<Rightarrow> string \<Rightarrow> cfn option" where
  "compiled_partial P n = (case P n of Inr (Some T) \<Rightarrow> compiled T | _ \<Rightarrow> None)"

definition st_ok :: "js_env \<Rightarrow> penv \<Rightarrow> wstate \<Rightarrow> bool" where
  "st_ok E P st \<longleftrightarrow> ctxs_ok E (w_ctxs st) \<and> objmemo.sound compiled (w_cache st) \<and>
     objmemo.sound (compiled_partial P) (w_partials st) \<and>
     (\<forall>n. obj_get (w_partials st) n = None \<longrightarrow>
        P n = (case w_load st of None \<Rightarrow> Inr None | Some ld \<Rightarrow> map_sum id Some (ld n)))"

definition refines :: "js_env \<Rightarrow> penv \<Rightarrow> wstate \<Rightarrow> 'a run \<Rightarrow> 'a srun \<Rightarrow> bool" where
  "refines E P st0 m s \<longleftrightarrow>
     (case m of
        None \<Rightarrow> s = None
      | Some (st, r) \<Rightarrow> s = Some r \<and> st_ok E P st \<and> extends (w_ctxs st0) (w_ctxs st))"

lemma refines_bind:
  assumes "refines E P st0 m s"
    "\<And>x st. st_ok E P st \<Longrightarrow> extends (w_ctxs st0) (w_ctxs st) \<Longrightarrow> refines E P st (f x st) (g x)"
  shows "refines E P st0 (bindw m f) (binds s g)"
proof (cases m)
  case None
  with assms(1) show ?thesis by (simp add: refines_def)
next
  case (Some p)
  then obtain st r where m: "m = Some (st, r)" by (cases p) auto
  with assms(1) have s: "s = Some r" "st_ok E P st" "extends (w_ctxs st0) (w_ctxs st)"
    by (simp_all add: refines_def)
  show ?thesis
  proof (cases r)
    case (Inr x)
    with assms(2) [OF s(2,3), of x] m s show ?thesis
      by (auto simp: refines_def split: option.splits dest: extends_trans)
  qed (use m s in \<open>simp add: refines_def\<close>)
qed

lemma refines_ret [simp]: "st_ok E P st \<Longrightarrow> refines E P st (ret x st) (Some (Inr x))"
  by (simp add: refines_def ret_def)

lemma refines_lift [simp]: "st_ok E P st \<Longrightarrow> refines E P st (lift_r r st) (Some r)"
  by (simp add: refines_def lift_r_def)

lemma refines_weaken:
  "extends (w_ctxs st0) (w_ctxs st1) \<Longrightarrow> refines E P st1 m s \<Longrightarrow> refines E P st0 m s"
  by (auto simp: refines_def split: option.splits dest: extends_trans)

lemma w_lookup_refines:
  assumes "st_ok E P st" "i < length (w_ctxs st)" "plain E name"
  shows "refines E P st (w_lookup E name i st) (Some (spec_lookup E name (chain (w_ctxs st) i)))"
  using lookup_ok [OF _ assms(2,3)] assms(1)
  by (auto simp: refines_def w_lookup_def st_ok_def case_prod_unfold)

lemma w_push_ok:
  assumes "st_ok E P st" "i < length (w_ctxs st)" "w_push v i st = (j, st1)"
  shows "st_ok E P st1" "extends (w_ctxs st) (w_ctxs st1)" "j < length (w_ctxs st1)"
    "chain (w_ctxs st1) j = v # chain (w_ctxs st) i"
proof -
  from assms(3) obtain cs where p: "new_Context v (Some i) (w_ctxs st) = (j, cs)" "st1 = st\<lparr>w_ctxs := cs\<rparr>"
    by (auto simp: w_push_def push_Context_def split: prod.splits)
  from new_Context_ok [OF _ p(1)] assms(1,2) p(2)
  show "st_ok E P st1" "extends (w_ctxs st) (w_ctxs st1)" "j < length (w_ctxs st1)"
    "chain (w_ctxs st1) j = v # chain (w_ctxs st) i"
    by (auto simp: st_ok_def)
qed

lemma compile_ok:
  assumes "st_ok E P st" "plain E T"
  obtains st1 where "st_ok E P st1" "w_ctxs st1 = w_ctxs st" "w_partials st1 = w_partials st"
    "w_load st1 = w_load st"
    "compile E T None st = (st1, map_sum id (\<lambda>ts. Compiled ts T) (parse T None))"
proof (cases "obj_get (w_cache st) T")
  case (Some fn)
  with assms(1) have "compiled T = Some fn"
    using objmemo.sound_hit by (auto simp: st_ok_def)
  then have "Inr fn = map_sum id (\<lambda>ts. Compiled ts T) (parse T None)"
    by (auto simp: compiled_def split: sum.splits)
  with Some assms(1) that [of st] show thesis by (simp add: compile_def)
next
  case None
  show thesis
  proof (cases "parse T None")
    case (Inl e)
    with None assms that [of st] show thesis by (simp add: compile_def plain_def Let_def)
  next
    case (Inr ts)
    let ?st = "st\<lparr>w_cache := obj_set T (Compiled ts T) (w_cache st)\<rparr>"
    have "st_ok E P ?st"
      using assms(1) Inr by (auto simp: st_ok_def compiled_def intro: objmemo.sound_put)
    with None assms Inr that [of ?st] show thesis by (simp add: compile_def plain_def Let_def)
  qed
qed

definition caller_ok :: "js_env \<Rightarrow> penv \<Rightarrow> caller \<Rightarrow> scaller \<Rightarrow> bool" where
  "caller_ok E P call scall \<longleftrightarrow>
     (\<forall>T ts i st. trees_ok E ts \<longrightarrow> st_ok E P st \<longrightarrow> i < length (w_ctxs st) \<longrightarrow>
        refines E P st (call (Compiled ts T) (RCtx i) st) (scall ts T (chain (w_ctxs st) i)))"

definition callback_ok :: "js_env \<Rightarrow> penv \<Rightarrow> callback \<Rightarrow> (jsval list \<Rightarrow> string srun) \<Rightarrow> bool" where
  "callback_ok E P cb scb \<longleftrightarrow>
     (\<forall>i st. st_ok E P st \<longrightarrow> i < length (w_ctxs st) \<longrightarrow>
        refines E P st (cb i st) (scb (chain (w_ctxs st) i)))"

lemma scoped_render_refines:
  assumes "caller_ok E P call scall" "text_ok E T" "st_ok E P st" "i < length (w_ctxs st)"
  shows "refines E P st (scoped_render E call T i st) (s_text scall T (chain (w_ctxs st) i))"
proof -
  from assms(2,3) obtain st1 where st1: "st_ok E P st1" "w_ctxs st1 = w_ctxs st"
    "compile E T None st = (st1, map_sum id (\<lambda>ts. Compiled ts T) (parse T None))"
    by (auto simp: text_ok_def elim: compile_ok)
  show ?thesis
  proof (cases "parse T None")
    case (Inl e)
    with st1 show ?thesis by (simp add: scoped_render_def s_text_def refines_def)
  next
    case (Inr ts)
    then have "trees_ok E ts" using assms(2) by (simp add: text_ok_def)
    with assms(1,4) st1(1,2) have "refines E P st1 (call (Compiled ts T) (RCtx i) st1) (scall ts T (chain (w_ctxs st) i))"
      unfolding caller_ok_def by metis
    then have "refines E P st (call (Compiled ts T) (RCtx i) st1) (scall ts T (chain (w_ctxs st) i))"
      by (rule refines_weaken [rotated]) (simp add: st1)
    with st1 Inr show ?thesis by (simp add: scoped_render_def s_text_def)
  qed
qed

lemma run_lam_refines:
  assumes "caller_ok E P call scall"
  shows "lam_ok E l \<Longrightarrow> st_ok E P st \<Longrightarrow> i < length (w_ctxs st) \<Longrightarrow>
    refines E P st (run_lam E call i l st) (s_lam scall (chain (w_ctxs st) i) l)"
proof (induction l arbitrary: st)
  case (Done r)
  then show ?case by (simp add: refines_def)
next
  case (Ask t k)
  then have r: "refines E P st (scoped_render E call t i st) (s_text scall t (chain (w_ctxs st) i))"
    using scoped_render_refines [OF assms] by simp
  show ?case
  proof (cases "scoped_render E call t i st")
    case None
    with r show ?thesis by (simp add: refines_def)
  next
    case (Some p)
    then obtain st1 x where s: "scoped_render E call t i st = Some (st1, x)" by (cases p) auto
    with r have ok: "s_text scall t (chain (w_ctxs st) i) = Some x" "st_ok E P st1"
      "extends (w_ctxs st) (w_ctxs st1)" by (simp_all add: refines_def)
    have "refines E P st1 (run_lam E call i (k x) st1) (s_lam scall (chain (w_ctxs st1) i) (k x))"
      using Ask.IH [of "k x" st1] Ask.prems ok extends_length by auto
    with refines_weaken [OF ok(3)] s ok(1) chain_extends [OF ok(3)] Ask.prems(3) show ?thesis by simp
  qed
qed

lemma section_items_refines:
  assumes "callback_ok E P cb scb"
  shows "st_ok E P st \<Longrightarrow> i < length (w_ctxs st) \<Longrightarrow>
    refines E P st (section_items cb vs i st) (s_items scb vs (chain (w_ctxs st) i))"
proof (induction vs arbitrary: st)
  case (Cons v vs)
  obtain j st1 where p: "w_push v i st = (j, st1)" by fastforce
  note ok = w_push_ok [OF Cons.prems p]
  have cb: "refines E P st1 (cb j st1) (scb (v # chain (w_ctxs st) i))"
    using assms ok by (metis callback_ok_def)
  have "refines E P st1 (bindw (cb j st1) (\<lambda>s st2. bindw (section_items cb vs i st2) (\<lambda>rest. ret (s @ rest))))
     (binds (scb (v # chain (w_ctxs st) i))
       (\<lambda>s. binds (s_items scb vs (chain (w_ctxs st) i)) (\<lambda>rest. Some (Inr (s @ rest)))))"
  proof (rule refines_bind [OF cb])
    fix s st2 assume st2: "st_ok E P st2" "extends (w_ctxs st1) (w_ctxs st2)"
    from extends_trans [OF ok(2) st2(2)] have e: "extends (w_ctxs st) (w_ctxs st2)" .
    have "refines E P st2 (section_items cb vs i st2) (s_items scb vs (chain (w_ctxs st) i))"
      using Cons.IH [OF st2(1)] chain_extends [OF e Cons.prems(2)] extends_length [OF e Cons.prems(2)] by simp
    then show "refines E P st2 (bindw (section_items cb vs i st2) (\<lambda>rest. ret (s @ rest)))
       (binds (s_items scb vs (chain (w_ctxs st) i)) (\<lambda>rest. Some (Inr (s @ rest))))"
      by (rule refines_bind) simp
  qed
  with refines_weaken [OF ok(2)] p show ?case by simp
qed simp


lemma refines_string: "refines E P st m s \<Longrightarrow>
    refines E P st (bindw m (\<lambda>x. ret (f x))) (binds s (\<lambda>x. Some (Inr (f x))))"
  by (rule refines_bind) simp_all

lemma section_fn_refines:
  assumes call: "caller_ok E P call scall" and cb: "callback_ok E P cb scb" and w: "world_ok E P"
    and st: "st_ok E P st" "i < length (w_ctxs st)" "plain E name"
  shows "refines E P st (section_fn E call name i text cb st)
           (s_section E scall name (chain (w_ctxs st) i) text scb)"
  unfolding section_fn_def s_section_def
proof (rule refines_bind [OF w_lookup_refines [OF st]], goal_cases)
  case (1 val0 st1)
  let ?vs = "chain (w_ctxs st) i"
  have vs: "chain (w_ctxs st1) i = ?vs" and i: "i < length (w_ctxs st1)"
    using chain_extends [OF 1(2) st(2)] extends_length [OF 1(2) st(2)] by auto
  have hd: "hd ?vs = w_view i st1" using 1(2) st(2) by (simp add: w_view_def extends_def)
  have plain_cb: "refines E P st1 (bindw (cb i st1) (\<lambda>s. ret (Str s))) (binds (scb ?vs) (\<lambda>s. Some (Inr (Str s))))"
    using cb 1(1) i vs by (intro refines_string) (metis callback_ok_def)
  show ?case
  proof (cases val0)
    case (Arr xs)
    with section_items_refines [OF cb 1(1) i, of xs] vs show ?thesis
      by (simp add: refines_string)
  next
    case (Obj ps)
    obtain j st2 where p: "w_push val0 i st1 = (j, st2)" by fastforce
    note ok = w_push_ok [OF 1(1) i p]
    have "refines E P st2 (cb j st2) (scb (val0 # ?vs))"
      using cb ok vs by (metis callback_ok_def)
    from refines_weaken [OF ok(2) refines_string [OF this, where f = Str]] show ?thesis using Obj p by simp
  next
    case (Fun f)
    have "lam_ok E (env_section E f (w_view i st1) text)" using w by (simp add: world_ok_def)
    from run_lam_refines [OF call this 1(1) i] Fun vs hd show ?thesis
      by (simp add: refines_string)
  qed (use 1 plain_cb in simp_all)
qed

lemma inverted_fn_refines:
  assumes cb: "callback_ok E P cb scb" and st: "st_ok E P st" "i < length (w_ctxs st)" "plain E name"
  shows "refines E P st (inverted_fn E name i cb st) (s_inverted E name (chain (w_ctxs st) i) scb)"
  unfolding inverted_fn_def s_inverted_def
proof (rule refines_bind [OF w_lookup_refines [OF st]], goal_cases)
  case (1 val0 st1)
  have "refines E P st1 (cb i st1) (scb (chain (w_ctxs st) i))"
    using cb 1 chain_extends [OF 1(2) st(2)] extends_length [OF 1(2) st(2)] by (metis callback_ok_def)
  from refines_string [OF this, where f = Str] 1 show ?case by simp
qed

lemma name_fn_refines:
  assumes st: "st_ok E P st" "i < length (w_ctxs st)" "plain E name"
  shows "refines E P st (name_fn E name i st) (s_name E name (chain (w_ctxs st) i))"
  unfolding name_fn_def s_name_def
proof (rule refines_bind [OF w_lookup_refines [OF st]], goal_cases)
  case (1 val0 st1)
  have "hd (chain (w_ctxs st) i) = w_view i st1" using 1(2) st(2) by (simp add: w_view_def extends_def)
  then show ?case
    using refines_bind [OF refines_lift [OF 1(1)]] by (auto intro!: refines_bind refines_lift 1(1) simp: refines_ret)
qed

lemma partial_fn_refines:
  assumes call: "caller_ok E P call scall" and w: "world_ok E P"
    and st: "st_ok E P st" "i < length (w_ctxs st)" "plain E name"
  shows "refines E P st (partial_fn E call name i st) (s_partial P scall name (chain (w_ctxs st) i))"
proof -
  have known: "refines E P st (call fn (RCtx i) st1) (s_partial P scall name (chain (w_ctxs st) i))"
    if s: "obj_get (w_partials st1) name = Some fn" "st_ok E P st1" "w_ctxs st1 = w_ctxs st" for fn st1
  proof -
    from s(1,2) have "compiled_partial P name = Some fn"
      using objmemo.sound_hit by (auto simp: st_ok_def)
    then obtain T ts where T: "P name = Inr (Some T)" "parse T None = Inr ts" "fn = Compiled ts T"
      by (auto simp: compiled_partial_def compiled_def split: sum.splits option.splits)
    have "text_ok E T" using w T(1) by (simp add: world_ok_def)
    with T(2) have "trees_ok E ts" by (simp add: text_ok_def)
    with call s(2,3) st(2) T(3) have "refines E P st1 (call fn (RCtx i) st1) (scall ts T (chain (w_ctxs st) i))"
      by (metis caller_ok_def)
    then have "refines E P st (call fn (RCtx i) st1) (scall ts T (chain (w_ctxs st) i))"
      by (rule refines_weaken [rotated]) (simp add: s(3))
    with T show ?thesis by (simp add: s_partial_def s_text_def)
  qed
  show ?thesis
  proof (cases "obj_get (w_partials st) name")
    case (Some fn)
    then show ?thesis using known [OF Some st(1)]
      by (auto simp: partial_fn_def Let_def ret_def split: option.split)
  next
    case None
    show ?thesis
    proof (cases "w_load st")
      case load: None
      with None st have "P name = Inr None" by (simp add: st_ok_def)
      with load None st show ?thesis
        by (simp add: partial_fn_def s_partial_def Let_def plain_def refines_def ret_def)
    next
      case load: (Some ld)
      with None st have P: "P name = map_sum id Some (ld name)" by (simp add: st_ok_def)
      show ?thesis
      proof (cases "ld name")
        case (Inl e)
        with load None st P show ?thesis
          by (simp add: partial_fn_def s_partial_def Let_def plain_def refines_def ret_def lift_r_def)
      next
        case (Inr T)
        with P w have ok: "text_ok E T" and PT: "P name = Inr (Some T)" by (auto simp: world_ok_def)
        then have "plain E T" by (simp add: text_ok_def)
        from compile_ok [OF st(1) this] obtain st1 where st1: "st_ok E P st1" "w_ctxs st1 = w_ctxs st"
          "w_partials st1 = w_partials st" "w_load st1 = w_load st"
          "compile E T None st = (st1, map_sum id (\<lambda>ts. Compiled ts T) (parse T None))" by metis
        show ?thesis
        proof (cases "parse T None")
          case (Inl e)
          with load None st PT st1 \<open>ld name = Inr T\<close> show ?thesis
            by (simp add: partial_fn_def s_partial_def s_text_def compilePartial_def Let_def plain_def
                refines_def ret_def lift_r_def)
        next
          case (Inr ts)
          let ?st2 = "st1\<lparr>w_partials := obj_set name (Compiled ts T) (w_partials st1)\<rparr>"
          have "compiled_partial P name = Some (Compiled ts T)"
            using PT Inr by (simp add: compiled_partial_def compiled_def)
          then have "st_ok E P ?st2"
            using st1(1) by (auto simp: st_ok_def obj_get_set intro: objmemo.sound_put split: if_splits)
          from known [OF _ this, of "Compiled ts T"] st1(2)
          have "refines E P st (call (Compiled ts T) (RCtx i) ?st2) (s_partial P scall name (chain (w_ctxs st) i))"
            by (simp add: obj_get_set)
          with load None st st1 Inr \<open>ld name = Inr T\<close> show ?thesis
            by (simp add: partial_fn_def compilePartial_def Let_def plain_def ret_def lift_r_def obj_get_set)
        qed
      qed
    qed
  qed
qed

lemma trees_ok_simps [simp]:
  "trees_ok E [] \<longleftrightarrow> True"
  "trees_ok E (t # ts) \<longleftrightarrow> list_all (plain E) (tree_names t) \<and> trees_ok E ts"
  by (simp_all add: trees_ok_def)

lemma tree_names_Sec: "list_all (plain E) (tree_names (Sec t ch)) \<longleftrightarrow> plain E (tvalue t) \<and> trees_ok E ch"
  by (simp add: trees_ok_def list_all_iff)

lemma run_tokens_refines_from:
  assumes "\<And>t i st. t \<in> set ts \<Longrightarrow> st_ok E P st \<Longrightarrow> i < length (w_ctxs st) \<Longrightarrow>
      refines E P st (run_token E call T t i st) (s_token E P scall T t (chain (w_ctxs st) i))"
    and "st_ok E P st" "i < length (w_ctxs st)"
  shows "refines E P st (run_tokens E call T ts i st) (s_tokens E P scall T ts (chain (w_ctxs st) i))"
  using assms
proof (induction ts arbitrary: st)
  case (Cons t ts)
  let ?vs = "chain (w_ctxs st) i"
  have "refines E P st (run_token E call T t i st) (s_token E P scall T t ?vs)"
    using Cons.prems by simp
  then show ?case unfolding run_tokens.simps s_tokens.simps
  proof (rule refines_bind)
    fix v st1 assume 1: "st_ok E P st1" "extends (w_ctxs st) (w_ctxs st1)"
    show "refines E P st1
       (bindw (lift_r (js_string E False v) st1) (\<lambda>s st2. bindw (run_tokens E call T ts i st2) (\<lambda>rest. ret (s @ rest))))
       (binds (Some (js_string E False v)) (\<lambda>s. binds (s_tokens E P scall T ts ?vs) (\<lambda>rest. Some (Inr (s @ rest)))))"
    proof (rule refines_bind [OF refines_lift [OF 1(1)]])
      fix s st2 assume 2: "st_ok E P st2" "extends (w_ctxs st1) (w_ctxs st2)"
      from extends_trans [OF 1(2) 2(2)] have e: "extends (w_ctxs st) (w_ctxs st2)" .
      have "refines E P st2 (run_tokens E call T ts i st2) (s_tokens E P scall T ts ?vs)"
        using Cons.IH [OF Cons.prems(1) 2(1)] chain_extends [OF e Cons.prems(3)]
          extends_length [OF e Cons.prems(3)] by simp
      then show "refines E P st2 (bindw (run_tokens E call T ts i st2) (\<lambda>rest. ret (s @ rest)))
          (binds (s_tokens E P scall T ts ?vs) (\<lambda>rest. Some (Inr (s @ rest))))"
        by (rule refines_string)
    qed
  qed
qed simp

lemma run_token_refines:
  assumes call: "caller_ok E P call scall" and w: "world_ok E P"
  shows "list_all (plain E) (tree_names t) \<Longrightarrow> st_ok E P st \<Longrightarrow> i < length (w_ctxs st) \<Longrightarrow>
      refines E P st (run_token E call T t i st) (s_token E P scall T t (chain (w_ctxs st) i))"
proof (induction t arbitrary: i st)
  case (Leaf t)
  have name: "ttype t \<in> {Name, Unescaped, Partial} \<Longrightarrow> plain E (tvalue t)" using Leaf.prems(1) by simp
  note n = name_fn_refines [OF Leaf.prems(2,3), of "tvalue t"]
  show ?case
  proof (cases "ttype t")
    case Name
    have "bindw (escaped_fn E (tvalue t) i st) (\<lambda>s. ret (Str s)) =
        bindw (name_fn E (tvalue t) i st) (\<lambda>s. ret (Str (escapeHtml s)))"
      by (auto simp: escaped_fn_def bindw_def ret_def split: option.split sum.split)
    with Name n name show ?thesis by (simp add: refines_string)
  next
    case Unescaped
    with n name show ?thesis by (simp add: refines_string)
  next
    case Partial
    with partial_fn_refines [OF call w Leaf.prems(2,3)] name show ?thesis by simp
  qed (use Leaf.prems(2) in simp_all)
next
  case (Sec t ch)
  have names: "plain E (tvalue t)" and "\<And>k. k \<in> set ch \<Longrightarrow> list_all (plain E) (tree_names k)"
    using Sec.prems(1) by (auto simp: list_all_iff)
  then have "callback_ok E P (\<lambda>j st'. run_tokens E call T ch j st') (\<lambda>ws. s_tokens E P scall T ch ws)"
    unfolding callback_ok_def using Sec.IH by (intro allI impI run_tokens_refines_from) auto
  then show ?case
    using section_fn_refines [OF call _ w Sec.prems(2,3) names] inverted_fn_refines [OF _ Sec.prems(2,3) names]
    by simp
qed

lemma run_tokens_refines:
  assumes "caller_ok E P call scall" "world_ok E P" "trees_ok E ts" "st_ok E P st" "i < length (w_ctxs st)"
  shows "refines E P st (run_tokens E call T ts i st) (s_tokens E P scall T ts (chain (w_ctxs st) i))"
  using assms by (intro run_tokens_refines_from run_token_refines) (auto simp: trees_ok_def list_all_iff)

lemma call_fn_ok: "world_ok E P \<Longrightarrow> caller_ok E P (call_fn E fuel NoPartials) (s_call E P fuel)"
proof (induction fuel)
  case 0
  then show ?case by (simp add: caller_ok_def refines_def)
next
  case (Suc fuel)
  show ?case unfolding caller_ok_def
  proof (intro allI impI)
    fix T ts i st assume a: "trees_ok E ts" "st_ok E P st" "i < length (w_ctxs st)"
    from refines_string [OF run_tokens_refines [OF Suc.IH [OF Suc.prems] Suc.prems a], where f = Str]
    show "refines E P st (call_fn E (Suc fuel) NoPartials (Compiled ts T) (RCtx i) st)
        (s_call E P (Suc fuel) ts T (chain (w_ctxs st) i))"
      by (simp add: make_view_def)
  qed
qed

lemma render_no_partials:
  assumes "world_ok E P" "text_ok E T" "st_ok E P st"
  shows "refines E P st (render E fuel T (RView v) NoPartials st) (s_render E P fuel T v)"
proof -
  from assms(2,3) obtain st1 where st1: "st_ok E P st1" "w_ctxs st1 = w_ctxs st"
    "compile E T None st = (st1, map_sum id (\<lambda>ts. Compiled ts T) (parse T None))"
    by (auto simp: text_ok_def elim: compile_ok)
  show ?thesis
  proof (cases "parse T None")
    case (Inl e)
    with st1 show ?thesis by (simp add: render_def s_render_def s_text_def refines_def)
  next
    case (Inr ts)
    then have ts: "trees_ok E ts" using assms(2) by (simp add: text_ok_def)
    show ?thesis
    proof (cases fuel)
      case 0
      with Inr st1 show ?thesis by (simp add: render_def s_render_def s_text_def refines_def)
    next
      case (Suc f)
      obtain i cs where c: "new_Context v None (w_ctxs st1) = (i, cs)" by fastforce
      have "ctxs_ok E (w_ctxs st1)" using st1(1) by (simp add: st_ok_def)
      note n = new_Context_ok [OF this c, simplified]
      let ?st2 = "st1\<lparr>w_ctxs := cs\<rparr>"
      have ok2: "st_ok E P ?st2" using st1(1) n(1) by (simp add: st_ok_def)
      have "refines E P ?st2 (run_tokens E (call_fn E f NoPartials) T ts i ?st2) (s_tokens E P (s_call E P f) T ts [v])"
        using run_tokens_refines [OF call_fn_ok [OF assms(1)] assms(1) ts ok2, of i f T] n(3,4) by simp
      from refines_string [OF this, where f = Str]
      have "refines E P st (bindw (run_tokens E (call_fn E f NoPartials) T ts i ?st2) (\<lambda>s. ret (Str s)))
          (binds (s_tokens E P (s_call E P f) T ts [v]) (\<lambda>s. Some (Inr (Str s))))"
        by (rule refines_weaken [rotated]) (use n(2) st1(2) in simp)
      then have "refines E P st (call_fn E fuel NoPartials (Compiled ts T) (RView v) st1) (s_render E P fuel T v)"
        using Suc Inr c by (simp add: make_view_def s_render_def s_text_def)
      then show ?thesis using Inr st1 by (simp add: render_def)
    qed
  qed
qed

end
