(* ===== verification/MuParseLaws.thy ===== *)
theory MuParseLaws
  imports MuParse
begin

text \<open>
  What the parser guarantees for every template: the loop invariant on positions and on the
  indices of whitespace tokens, and the properties of \<open>parse\<close> that follow from it.
\<close>

section \<open>Splicing by a stack of ascending indices\<close>

lemma splice_all_nths:
  assumes "sorted_wrt (<) sp" "\<forall>i \<in> set sp. i < length toks"
  shows "splice_all sp toks = nths toks (- set sp)"
  using assms
proof (induction sp arbitrary: toks rule: rev_induct)
  case Nil
  then show ?case by (simp add: splice_all_def nths_all)
next
  case (snoc i sp)
  then have i: "i < length toks" and below: "\<forall>j \<in> set sp. j < i" and "sorted_wrt (<) sp"
    by (auto simp: sorted_wrt_append)
  obtain us x vs where t: "toks = us @ x # vs" "length us = i"
    using i by (metis id_take_nth_drop length_take min.absorb4)
  have "splice_all (sp @ [i]) toks = splice_all sp (us @ vs)"
    using t by (simp add: splice_all_def)
  also have "\<dots> = nths (us @ vs) (- set sp)"
    using snoc.IH [of "us @ vs"] \<open>sorted_wrt (<) sp\<close> below t(2) by fastforce
  also have "\<dots> = nths us (- set sp) @ vs"
    using below t(2) by (auto simp: nths_append intro!: nths_all)
  also have "\<dots> = nths toks (- set (sp @ [i]))"
  proof -
    have "nths us (- set (sp @ [i])) = nths us (- set sp)"
      using t(2) by (auto simp: nths_def intro!: arg_cong [of _ _ "map fst"] filter_cong dest: set_zip_rightD)
    moreover have "nths (x # vs) {j. j + length us \<in> - set (sp @ [i])} = vs"
      using below t(2) by (auto simp: nths_Cons intro!: nths_all)
    ultimately show ?thesis using t(1) by (simp add: nths_append)
  qed
  finally show ?case .
qed

lemma sorted_wrt_nths: "sorted_wrt P xs \<Longrightarrow> sorted_wrt P (nths xs A)"
  by (induction xs arbitrary: A) (auto simp: nths_Cons dest: in_set_nthsD)

section \<open>The loop invariant\<close>

definition ws_text :: "token \<Rightarrow> bool" where
  "ws_text t \<longleftrightarrow> is_text t \<and> isWhitespace (tvalue t)"

text \<open>
  Tokens lie in order inside the first \<open>n\<close> characters, a text token is one character and
  is the character at its position, and every character read that is not whitespace lies in
  some token.
\<close>

definition tokens_ok :: "string \<Rightarrow> nat \<Rightarrow> token list \<Rightarrow> bool" where
  "tokens_ok T n toks \<longleftrightarrow>
     sorted_wrt (\<lambda>a b. tend a \<le> tstart b) toks \<and>
     (\<forall>t \<in> set toks. tstart t \<le> tend t \<and> tend t \<le> n \<and>
        (is_text t \<longrightarrow> tend t = Suc (tstart t) \<and> tvalue t = [T ! tstart t])) \<and>
     (\<forall>i < n. \<not> is_space (T ! i) \<longrightarrow> (\<exists>t \<in> set toks. tstart t \<le> i \<and> i < tend t))"

definition spaces_ok :: "nat list \<Rightarrow> token list \<Rightarrow> bool" where
  "spaces_ok sp toks \<longleftrightarrow>
     sorted_wrt (<) sp \<and> (\<forall>i \<in> set sp. i < length toks \<and> ws_text (toks ! i))"

definition body_ok :: "string \<Rightarrow> nat \<Rightarrow> parse_state \<Rightarrow> bool" where
  "body_ok T n st \<longleftrightarrow> tokens_ok T n (ps_tokens st) \<and> spaces_ok (ps_spaces st) (ps_tokens st)"

lemma spaces_ok_push:
  "spaces_ok sp toks \<Longrightarrow> spaces_ok sp (toks @ [t])"
  by (auto simp: spaces_ok_def nth_append)

lemma tokens_ok_push:
  assumes "tokens_ok T n toks" "n \<le> tstart t" "tstart t \<le> tend t"
    "is_text t \<longrightarrow> tend t = Suc (tstart t) \<and> tvalue t = [T ! tstart t]"
    "tstart t = n"
  shows "tokens_ok T (tend t) (toks @ [t])"
proof -
  have "sorted_wrt (\<lambda>a b. tend a \<le> tstart b) (toks @ [t])"
    using assms by (auto simp: tokens_ok_def sorted_wrt_append intro: order_trans)
  moreover have "\<exists>u \<in> set (toks @ [t]). tstart u \<le> i \<and> i < tend u"
    if "i < tend t" "\<not> is_space (T ! i)" for i
    using that assms by (cases "i < n") (auto simp: tokens_ok_def)
  ultimately show ?thesis using assms by (fastforce simp: tokens_ok_def)
qed

lemma tokens_ok_strip:
  assumes "tokens_ok T n toks" "spaces_ok sp toks"
  shows "tokens_ok T n (splice_all sp toks)"
proof -
  have sp: "splice_all sp toks = nths toks (- set sp)"
    using assms(2) by (intro splice_all_nths) (auto simp: spaces_ok_def)
  have keep: "t \<in> set (nths toks (- set sp))" if t: "t \<in> set toks" "\<not> ws_text t" for t
  proof -
    from t(1) obtain i where i: "i < length toks" "toks ! i = t" by (metis in_set_conv_nth)
    with assms(2) t(2) have "i \<notin> set sp" by (auto simp: spaces_ok_def)
    with i show ?thesis by (auto simp: set_nths)
  qed
  have "\<exists>t \<in> set (nths toks (- set sp)). tstart t \<le> i \<and> i < tend t"
    if i: "i < n" "\<not> is_space (T ! i)" for i
  proof -
    from assms(1) i obtain t where t: "t \<in> set toks" "tstart t \<le> i" "i < tend t"
      by (auto simp: tokens_ok_def)
    have "\<not> ws_text t"
    proof
      assume w: "ws_text t"
      with assms(1) t(1) have "tend t = Suc (tstart t)" "tvalue t = [T ! tstart t]"
        by (auto simp: tokens_ok_def ws_text_def)
      with t(2,3) have "i = tstart t" by simp
      with \<open>tvalue t = [T ! tstart t]\<close> w have "is_space (T ! i)"
        by (simp add: ws_text_def isWhitespace_iff)
      with i(2) show False by simp
    qed
    with t keep show ?thesis by blast
  qed
  then show ?thesis using assms(1) unfolding sp
    by (auto simp: tokens_ok_def sorted_wrt_nths dest: in_set_nthsD)
qed

lemma body_ok_strip: "body_ok T n st \<Longrightarrow> body_ok T n (stripSpace st)"
  by (simp add: body_ok_def stripSpace_def tokens_ok_strip) (simp add: spaces_ok_def)

lemma body_ok_char:
  assumes "body_ok T n st" "T ! n = c"
  shows "body_ok T (Suc n) (text_char c n st)"
proof -
  let ?t = "mk_token Text [c] n (Suc n)"
  have t: "tokens_ok T (Suc n) (ps_tokens st @ [?t])"
    using tokens_ok_push [of T n "ps_tokens st" ?t] assms by (simp add: body_ok_def)
  have ws: "ws_text ?t \<longleftrightarrow> isWhitespace [c]" by (simp add: ws_text_def is_text_def)
  have "isWhitespace [c] \<Longrightarrow> spaces_ok (ps_spaces st @ [length (ps_tokens st)]) (ps_tokens st @ [?t])"
    using assms(1) ws by (auto simp: body_ok_def spaces_ok_def sorted_wrt_append nth_append)
  moreover have "spaces_ok (ps_spaces st) (ps_tokens st @ [?t])"
    using assms(1) by (simp add: body_ok_def spaces_ok_push)
  ultimately show ?thesis using t
    by (auto simp: text_char_def Let_def intro!: body_ok_strip) (simp_all add: body_ok_def)
qed

lemma body_ok_chars:
  "body_ok T n st \<Longrightarrow> take (length cs) (drop n T) = cs \<Longrightarrow> body_ok T (n + length cs) (text_chars cs n st)"
proof (induction cs arbitrary: n st)
  case (Cons c cs)
  then have n: "n < length T" by (metis drop_all length_greater_0_conv linorder_not_less list.distinct(1) take_Nil)
  then have d: "drop n T = T ! n # drop (Suc n) T" by (simp add: Cons_nth_drop_Suc)
  with Cons.prems(2) have "T ! n = c" "take (length cs) (drop (Suc n) T) = cs" by auto
  with Cons.IH [OF body_ok_char [OF Cons.prems(1)]] show ?case by simp
qed simp

definition loop_inv :: "string \<Rightarrow> parse_state \<Rightarrow> bool" where
  "loop_inv T st \<longleftrightarrow>
     mu.aligned (ps_scanner st) \<and> sc_string (ps_scanner st) = T \<and>
     body_ok T (sc_pos (ps_scanner st)) st \<and> (\<exists>a b. ps_tags st = [a, b] \<and>
       ps_openRe st = lit a @ [Star Sp] \<and> ps_closeRe st = Star Sp # lit b)"

lemma loop_inv_init: "parse_init T tags = Inr st \<Longrightarrow> loop_inv T st"
  using mu.aligned_fresh [of T] mu.fresh [of T]
  by (auto simp: parse_init_def bindr_Inr_conv loop_inv_def body_ok_def tokens_ok_def spaces_ok_def
      escapeTags_Inr)

lemma read_value_type: "read_value ty tags r sc = Inr (ty', v, sc') \<Longrightarrow> ty' \<noteq> Text \<longleftrightarrow> ty \<noteq> Text"
  by (auto elim: read_valueE)

lemma type_of_sigil_not_Text: "type_of_sigil s \<noteq> Text"
  by (simp add: type_of_sigil_def)

lemma text_read_ok:
  assumes "loop_inv T st" "scanUntil (ps_openRe st) (ps_scanner st) = (v, sc)"
  shows "mu.aligned sc" "sc_string sc = T"
    "body_ok T (sc_pos sc) (text_chars v (sc_pos (ps_scanner st)) (st\<lparr>ps_scanner := sc'\<rparr>))"
proof -
  let ?n = "sc_pos (ps_scanner st)"
  have a: "mu.aligned (ps_scanner st)" "sc_string (ps_scanner st) = T" "body_ok T ?n st"
    using assms(1) by (auto simp: loop_inv_def)
  show "mu.aligned sc" "sc_string sc = T"
    using mu.aligned_until [OF a(1) assms(2)] mu.until_whole [OF assms(2)] a(2) by auto
  have "drop ?n T = v @ sc_tail sc"
    using a(1,2) mu.until_rest [OF assms(2)] by (simp add: mu.aligned_def)
  then have "body_ok T (?n + length v) (text_chars v ?n (st\<lparr>ps_scanner := sc'\<rparr>))"
    using a(3) by (intro body_ok_chars) (simp_all add: body_ok_def)
  then show "body_ok T (sc_pos sc) (text_chars v ?n (st\<lparr>ps_scanner := sc'\<rparr>))"
    using mu.until_offset [OF assms(2)] by simp
qed

lemma loop_inv_step:
  assumes inv: "loop_inv T st" and step: "parse_step st = Inr (go, st')"
  shows "loop_inv T st'"
  using step
proof (cases rule: parse_stepE)
  case (1 v sc opened sc2)
  let ?st1 = "text_chars v (sc_pos (ps_scanner st)) (st\<lparr>ps_scanner := sc\<rparr>)"
  note r = text_read_ok [OF inv 1(1)]
  have sc2: "mu.aligned sc2" "sc_string sc2 = T" "sc_pos sc2 = sc_pos sc + length opened"
    using mu.aligned_read [OF r(1) 1(2)] mu.read_whole [OF 1(2)] mu.read_offset [OF 1(2)] r(2) by auto
  from inv obtain a b where tags: "ps_tags st = [a, b]" "ps_openRe st = lit a @ [Star Sp]"
    "ps_closeRe st = Star Sp # lit b" by (auto simp: loop_inv_def)
  show ?thesis
  proof (cases go)
    case False
    with 1 sc2 r(3) [of sc] tags show ?thesis by (auto simp: loop_inv_def body_ok_def)
  next
    case True
    with 1 have "parse_tag (sc_pos sc) (?st1\<lparr>ps_scanner := sc2\<rparr>) = Inr st'" by simp
    then show ?thesis
    proof (cases rule: parse_tagE)
      case (1 sg sc1' m sc2' ty w sc3 cl sc4)
      from \<open>parse_tag (sc_pos sc) (?st1\<lparr>ps_scanner := sc2\<rparr>) = Inr st'\<close>
      obtain k where k: "sc_tail sc2 = k @ sc_tail sc4" "sc_pos sc4 = sc_pos sc2 + length k"
        "sc_string sc4 = sc_string sc2" using 1(6) by (auto elim: parse_tag_suffix)
      have al: "mu.aligned sc4" using mu.aligned_advance [OF sc2(1) k(3,1,2)] by simp
      have "ty \<noteq> Text" using read_value_type [OF 1(3)] type_of_sigil_not_Text by blast
      then have "tokens_ok T (sc_pos sc4) (ps_tokens ?st1 @ [mk_token ty w (sc_pos sc) (sc_pos sc4)])"
        using tokens_ok_push [of T "sc_pos sc" "ps_tokens ?st1" "mk_token ty w (sc_pos sc) (sc_pos sc4)"]
          r(3) [of sc] k(2) sc2(3) by (simp add: body_ok_def is_text_def)
      moreover have "spaces_ok (ps_spaces ?st1) (ps_tokens ?st1 @ [mk_token ty w (sc_pos sc) (sc_pos sc4)])"
        using r(3) [of sc] by (simp add: body_ok_def spaces_ok_push)
      moreover have "\<exists>a b. ps_tags st' = [a, b] \<and> ps_openRe st' = lit a @ [Star Sp] \<and>
          ps_closeRe st' = Star Sp # lit b"
      proof (cases "ty = SetDelim")
        case True
        from 1(11) [unfolded if_P [OF True]]
        have "escapeTags (ps_tags st') = Inr (ps_openRe st', ps_closeRe st')" by (rule conjunct1)
        then show ?thesis by (simp only: escapeTags_Inr)
      next
        case False
        with 1(11) tags show ?thesis by simp
      qed
      ultimately show ?thesis using 1(6-8) al k(3) sc2(2) by (simp add: loop_inv_def body_ok_def)
    qed
  qed
qed

lemma loop_inv_loop: "loop_inv T st \<Longrightarrow> parse_loop st = Inr st' \<Longrightarrow> loop_inv T st'"
proof (induction st rule: parse_loop.induct)
  case (1 st)
  show ?case
  proof (cases "eos (ps_scanner st)")
    case True
    with 1(2,3) show ?thesis by (simp add: parse_loop.simps [of st])
  next
    case False
    with 1(3) obtain go st1 where s: "parse_step st = Inr (go, st1)"
      "if go then parse_loop st1 = Inr st' else st' = st1"
      by (auto simp: parse_loop.simps [of st] split: sum.splits if_splits)
    from loop_inv_step [OF 1(2) s(1)] s 1(1) [OF False s(1) refl] show ?thesis
      by (auto split: if_splits)
  qed
qed

text \<open>When the loop ends normally the whole template has been read.\<close>

lemma parse_loop_end:
  "parse_loop st = Inr st' \<Longrightarrow> sc_tail (ps_scanner st') = [] \<or>
     (\<exists>st0. parse_step st0 = Inr (False, st'))"
proof (induction st rule: parse_loop.induct)
  case (1 st)
  show ?case
  proof (cases "eos (ps_scanner st)")
    case True
    with 1(2) show ?thesis by (simp add: parse_loop.simps [of st] eos_def)
  next
    case False
    with 1(2) obtain go st1 where s: "parse_step st = Inr (go, st1)"
      "if go then parse_loop st1 = Inr st' else st' = st1"
      by (auto simp: parse_loop.simps [of st] split: sum.splits if_splits)
    with 1(1) [OF False s(1) refl] show ?thesis by (cases go) auto
  qed
qed


section \<open>Tags that are not empty\<close>

lemma atom_ok_Sp: "atom_ok Sp = is_space"
  by (rule ext) simp

lemma match_at_star: "match_at [Star a] s = Some (length (takeWhile (atom_ok a) s))"
  by (induction s) auto

lemma match_at_spaceRe: "match_at spaceRe s = Some n \<Longrightarrow> n = length (takeWhile is_space s) \<and> 0 < n"
  by (cases s) (auto simp: spaceRe_def match_at_star atom_ok_Sp split: if_splits)

lemma match_at_spaceRe_None: "match_at spaceRe s = None \<longleftrightarrow> s = [] \<or> \<not> is_space (hd s)"
  by (cases s) (auto simp: spaceRe_def match_at_star)

lemma js_split_nonempty:
  "v \<noteq> [] \<Longrightarrow> \<not> is_space (hd v) \<Longrightarrow> \<not> is_space (last v) \<Longrightarrow> [] \<notin> set (js_split spaceRe v)"
proof (induction "length v" arbitrary: v rule: less_induct)
  case less
  show ?case
  proof (cases "rx_search spaceRe v")
    case None
    with less.prems show ?thesis by (simp add: js_split.simps)
  next
    case (Some p)
    then obtain i n where s: "rx_search spaceRe v = Some (i, n)" by (cases p) auto
    let ?rest = "drop (i + n) v"
    from rx_search_match [OF s] have m: "n = length (takeWhile is_space (drop i v))" "0 < n"
      using match_at_spaceRe by auto
    then have split: "drop i v = takeWhile is_space (drop i v) @ ?rest"
      by (metis add.commute drop_drop takeWhile_dropWhile_id dropWhile_eq_drop)
    have "i \<noteq> 0"
    proof
      assume "i = 0"
      with rx_search_match [OF s] less.prems match_at_spaceRe_None [of v] show False by simp
    qed
    have "drop i v \<noteq> []" using m by auto
    then have "last v = last (drop i v)" by (simp add: last_drop)
    moreover have "is_space (last (takeWhile is_space (drop i v)))"
      using m set_takeWhileD last_in_set by (metis length_greater_0_conv)
    ultimately have ne: "?rest \<noteq> []" using less.prems split by (metis append_Nil2)
    moreover have "hd ?rest = hd (dropWhile is_space (drop i v))"
      using m by (metis add.commute drop_drop dropWhile_eq_drop)
    then have "\<not> is_space (hd ?rest)"
      using hd_dropWhile [of is_space "drop i v"] ne m by (metis add.commute drop_drop dropWhile_eq_drop)
    moreover have "\<not> is_space (last ?rest)" using ne less.prems by (simp add: last_drop)
    moreover have "length ?rest < length v" using ne m(2) less.prems by simp
    ultimately have "[] \<notin> set (js_split spaceRe ?rest)" using less.hyps by blast
    with s m(2) \<open>i \<noteq> 0\<close> less.prems show ?thesis by (simp add: js_split.simps [of spaceRe v])
  qed
qed

lemma eqRe_extend: "is_space c \<Longrightarrow> matches_here eqRe s \<Longrightarrow> matches_here eqRe (c # s)"
  by (auto simp: matches_here_def eqRe_def split: option.splits)

lemma scan_white_head: "scan whiteRe sc = (m, sc') \<Longrightarrow> sc_tail sc' = [] \<or> \<not> is_space (hd (sc_tail sc'))"
proof -
  assume "scan whiteRe sc = (m, sc')"
  then have "sc_tail sc' = dropWhile is_space (sc_tail sc)"
    by (auto simp: scan_cases whiteRe_def match_at_star atom_ok_Sp dropWhile_eq_drop)
  then show ?thesis using hd_dropWhile [of is_space "sc_tail sc"] by (auto simp: dropWhile_eq_Nil_conv)
qed

lemma set_delim_tags_nonempty:
  assumes "scan whiteRe sc = (m, sc1)" "scanUntil eqRe sc1 = (v, sc2)" "sc_tail sc2 \<noteq> []"
    "js_split spaceRe v = [a, b]"
  shows "a \<noteq> []" "b \<noteq> []"
proof -
  have "v \<noteq> []"
    using assms(4) by (auto simp: js_split.simps spaceRe_def)
  moreover have "\<not> is_space (hd v)"
    using scan_white_head [OF assms(1)] mu.until_rest [OF assms(2)] \<open>v \<noteq> []\<close> by auto
  moreover have "\<not> is_space (last v)"
  proof
    assume sp: "is_space (last v)"
    have "matches_here eqRe (sc_tail sc2)" using mu.until_stop [OF assms(2)] assms(3) by blast
    with eqRe_extend [OF sp] have "matches_here eqRe (last v # sc_tail sc2)" by blast
    moreover have "drop (length v - 1) (sc_tail sc1) = last v # sc_tail sc2"
      using mu.until_rest [OF assms(2)] \<open>v \<noteq> []\<close>
      by (metis append_butlast_last_id append_eq_conv_conj append_Cons append_assoc append_Nil length_butlast)
    ultimately show False using mu.until_first [OF assms(2), of "length v - 1"] \<open>v \<noteq> []\<close> by simp
  qed
  ultimately have "[] \<notin> set (js_split spaceRe v)" by (rule js_split_nonempty)
  with assms(4) show "a \<noteq> []" "b \<noteq> []" by auto
qed

definition tags_nonempty :: "parse_state \<Rightarrow> bool" where
  "tags_nonempty st \<longleftrightarrow> [] \<notin> set (ps_tags st)"

lemma scan_at_end: "scan r sc = (m, sc') \<Longrightarrow> sc_tail sc = [] \<Longrightarrow> m = []"
  using mu.read_rest by fastforce

lemma tags_nonempty_tag:
  assumes "parse_tag n st = Inr st'" "tags_nonempty st"
  shows "tags_nonempty st'"
  using assms(1)
proof (cases rule: parse_tagE)
  case (1 sg sc1 m sc2 ty v sc3 cl sc4)
  show ?thesis
  proof (cases "ty = SetDelim")
    case False
    with 1(11) assms(2) show ?thesis by (simp add: tags_nonempty_def)
  next
    case True
    with 1(11) obtain a b where ab: "ps_tags st' = [a, b]" "js_split spaceRe v = [a, b]"
      by (metis escapeTags_Inr)
    from 1(3) show ?thesis
    proof (cases rule: read_valueE)
      case (delim d1 k d2 k')
      have "sc_tail sc3 \<noteq> []" using scan_at_end [OF 1(4)] 1(5) by blast
      then have "sc_tail d1 \<noteq> []"
        using mu.read_rest [OF delim(4)] mu.until_rest [OF delim(5)] by auto
      from set_delim_tags_nonempty [OF 1(2) delim(3) this ab(2)] ab(1)
      show ?thesis by (simp add: tags_nonempty_def)
    qed (use True in auto)
  qed
qed

lemma tags_nonempty_step: "parse_step st = Inr (go, st') \<Longrightarrow> tags_nonempty st \<Longrightarrow> tags_nonempty st'"
proof (elim parse_stepE)
  fix v sc opened sc2
  let ?st1 = "text_chars v (sc_pos (ps_scanner st)) (st\<lparr>ps_scanner := sc\<rparr>)\<lparr>ps_scanner := sc2\<rparr>"
  assume "tags_nonempty st"
  then have "tags_nonempty ?st1" by (simp add: tags_nonempty_def)
  moreover assume "\<not> go \<longrightarrow> st' = ?st1" "go \<longrightarrow> parse_tag (sc_pos sc) ?st1 = Inr st'"
  ultimately show "tags_nonempty st'" using tags_nonempty_tag by (cases go) auto
qed


section \<open>Properties\<close>

lemma tags_nonempty_loop: "parse_loop st = Inr st' \<Longrightarrow> tags_nonempty st \<Longrightarrow> tags_nonempty st'"
proof (induction st rule: parse_loop.induct)
  case (1 st)
  then show ?case
    by (subst (asm) (2) parse_loop.simps)
      (auto split: if_splits sum.splits dest: tags_nonempty_step)
qed

lemma matches_nonempty:
  assumes "scan (lit a @ [Star Sp]) sc = (m, sc')" "a \<noteq> []" "matches_here (lit a @ [Star Sp]) (sc_tail sc)"
  shows "m \<noteq> []"
  using assms by (cases a; cases "sc_tail sc") (auto simp: scan_cases matches_here_def split: option.splits if_splits)

lemma step_stop_end:
  assumes "loop_inv T st" "tags_nonempty st" "parse_step st = Inr (False, st')"
  shows "sc_tail (ps_scanner st') = []"
  using assms(3)
proof (cases rule: parse_stepE)
  case (1 v sc opened sc2)
  from assms(1,2) obtain a b where ab: "ps_openRe st = lit a @ [Star Sp]" "a \<noteq> []"
    by (auto simp: loop_inv_def tags_nonempty_def)
  with 1(2,3) have "\<not> matches_here (ps_openRe st) (sc_tail sc)" using matches_nonempty by metis
  with mu.until_stop [OF 1(1)] have "sc_tail sc = []" by blast
  with mu.read_rest [OF 1(2)] 1(3,4) show ?thesis by simp
qed

lemma parse_loop_reads_all:
  "loop_inv T st \<Longrightarrow> tags_nonempty st \<Longrightarrow> parse_loop st = Inr st' \<Longrightarrow>
     loop_inv T st' \<and> sc_pos (ps_scanner st') = length T"
proof (induction st rule: parse_loop.induct)
  case (1 st)
  show ?case
  proof (cases "eos (ps_scanner st)")
    case True
    with 1(2,4) show ?thesis using mu.aligned_length [of "ps_scanner st"]
      by (auto simp: parse_loop.simps [of st] loop_inv_def eos_def)
  next
    case False
    with 1(4) obtain go st1 where s: "parse_step st = Inr (go, st1)"
      "if go then parse_loop st1 = Inr st' else st' = st1"
      by (auto simp: parse_loop.simps [of st] split: sum.splits if_splits)
    note inv = loop_inv_step [OF 1(2) s(1)]
    show ?thesis
    proof (cases go)
      case True
      with 1(1) [OF False s(1) refl True inv tags_nonempty_step [OF s(1) 1(3)]] s(2) show ?thesis by simp
    next
      case go: False
      with s step_stop_end [OF 1(2,3)] inv mu.aligned_length [of "ps_scanner st1"]
      show ?thesis by (auto simp: loop_inv_def)
    qed
  qed
qed

text \<open>C15: Every token of every template stands for its own stretch of it. The tokens are in
  order and do not overlap, all inside the template; a text token is the character at its
  position; and every character of the template that is not whitespace belongs to a token, so
  the parser drops nothing but whitespace.\<close>

theorem parse_tokens_cover:
  assumes "parse_tokens template [otag, ctag] = Inr toks" "otag \<noteq> []" "ctag \<noteq> []"
  shows "tokens_ok template (length template) toks"
proof -
  from assms(1) obtain st st' where st: "parse_init template [otag, ctag] = Inr st"
    "parse_loop st = Inr st'" "toks = ps_tokens st'"
    by (auto simp: parse_tokens_def bindr_Inr_conv)
  have "tags_nonempty st"
    using st(1) assms(2,3) by (auto simp: parse_init_def bindr_Inr_conv tags_nonempty_def)
  from parse_loop_reads_all [OF loop_inv_init [OF st(1)] this st(2)] st(3)
  show ?thesis unfolding loop_inv_def body_ok_def by metis
qed

theorem parse_tokens_cover_witness:
  "tokens_ok ''a {{b}}'' (length ''a {{b}}'')
     [mk_token Text ''a'' 0 1, mk_token Text '' '' 1 2, mk_token Name ''b'' 2 7]"
  by (rule parse_tokens_cover [of _ "''{{''" "''}}''"]) code_simp+

lemma matches_close_nonempty:
  assumes "scan (Star Sp # lit b) sc = ([], sc')" "b \<noteq> []"
  shows "\<not> matches_here (Star Sp # lit b) (sc_tail sc)"
proof
  assume "matches_here (Star Sp # lit b) (sc_tail sc)"
  then obtain n where n: "match_at (Star Sp # lit b) (sc_tail sc) = Some n" by (auto simp: matches_here_def)
  with assms(1) have "take n (sc_tail sc) = []" by (auto simp: scan_cases)
  then have "n = 0" using match_at_le [OF n] by auto
  with n assms(2) show False
    by (cases b; cases "sc_tail sc") (auto split: if_splits option.splits)
qed

lemma read_value_unclosed:
  assumes "read_value ty tags (Star Sp # lit b) sc = Inr (ty', v, sc')" "b \<noteq> []"
    "scan (Star Sp # lit b) sc' = ([], sc'')"
  shows "sc_tail sc' = []"
proof -
  from assms(1) obtain sc0 m where "scanUntil (Star Sp # lit b) sc0 = (m, sc')"
    by (cases rule: read_valueE) auto
  from mu.until_stop [OF this] matches_close_nonempty [OF assms(3,2)] show ?thesis by blast
qed

definition error_at :: "string \<Rightarrow> js_error \<Rightarrow> bool" where
  "error_at T e \<longleftrightarrow> e = SyntaxError \<or> (\<exists>s. e = JsError (''Invalid tags: '' @ s)) \<or>
     e = JsError (''Unclosed tag at '' @ nat_dec (length T))"

lemma escapeTags_error: "escapeTags tags = Inl e \<Longrightarrow> error_at T e"
  by (auto simp: escapeTags_def error_at_def new_RegExp_def bindr_Inl_conv split: if_splits option.splits)

lemma parse_tag_error:
  assumes "parse_tag n st = Inl e" "mu.aligned (ps_scanner st)" "sc_string (ps_scanner st) = T"
    "ps_closeRe st = Star Sp # lit b" "b \<noteq> []"
  shows "error_at T e"
proof -
  obtain sg sc1 where 1: "scan tagRe (ps_scanner st) = (sg, sc1)" by fastforce
  obtain m sc2 where 2: "scan whiteRe sc1 = (m, sc2)" by fastforce
  let ?rv = "read_value (type_of_sigil sg) (ps_tags st) (ps_closeRe st) sc2"
  show ?thesis
  proof (cases ?rv)
    case (Inl e')
    with assms(1) 1 2 have "?rv = Inl e" by (simp add: parse_tag_def)
    then show ?thesis
      by (auto simp: read_value_def error_at_def new_RegExp_def Let_def case_prod_unfold bindr_Inl_conv
          split: if_splits option.splits)
  next
    case (Inr p)
    then obtain ty v sc3 where 3: "?rv = Inr (ty, v, sc3)" by (cases p) auto
    obtain cl sc4 where 4: "scan (ps_closeRe st) sc3 = (cl, sc4)" by fastforce
    show ?thesis
    proof (cases "cl = []")
      case False
      with assms(1) 1 2 3 4 obtain tags where "escapeTags tags = Inl e"
        by (auto simp: parse_tag_def Let_def bindr_Inl_conv split: if_splits)
      then show ?thesis by (rule escapeTags_error)
    next
      case True
      from 3 obtain k where k: "sc_tail sc2 = k @ sc_tail sc3" "sc_pos sc3 = sc_pos sc2 + length k"
        "sc_string sc3 = sc_string sc2" by (rule read_value_suffix)
      have "mu.aligned sc2" "sc_string sc2 = T"
        using mu.aligned_read [OF _ 2] mu.aligned_read [OF assms(2) 1] mu.read_whole [OF 1]
          mu.read_whole [OF 2] assms(3) by auto
      from mu.aligned_advance [OF this(1) k(3,1,2)] this(2) k(3)
      have "mu.aligned sc3" "sc_string sc3 = T" by simp_all
      moreover have "sc_tail sc3 = []"
        using read_value_unclosed [of _ _ b] 3 4 True assms(4,5) by metis
      ultimately have "sc_pos sc3 = length T" using mu.aligned_length [of sc3] by simp
      with True mu.read_offset [OF 4] have "sc_pos sc4 = length T" by simp
      with assms(1) 1 2 3 4 True show ?thesis by (simp add: parse_tag_def error_at_def)
    qed
  qed
qed

lemma parse_loop_error:
  "loop_inv T st \<Longrightarrow> tags_nonempty st \<Longrightarrow> parse_loop st = Inl e \<Longrightarrow> error_at T e"
proof (induction st rule: parse_loop.induct)
  case (1 st)
  from 1(4) have ne: "\<not> eos (ps_scanner st)" by (auto simp: parse_loop.simps [of st] split: if_splits)
  show ?case
  proof (cases "parse_step st")
    case (Inr p)
    then obtain go st1 where s: "parse_step st = Inr (go, st1)" by (cases p) auto
    with 1(4) ne have go: go and l: "parse_loop st1 = Inl e"
      by (auto simp: parse_loop.simps [of st] split: if_splits)
    from 1(1) [OF ne s refl go loop_inv_step [OF 1(2) s] tags_nonempty_step [OF s 1(3)] l] show ?thesis .
  next
    case (Inl e')
    with 1(4) ne have e: "parse_step st = Inl e" by (simp add: parse_loop.simps [of st])
    obtain v sc where v: "scanUntil (ps_openRe st) (ps_scanner st) = (v, sc)" by fastforce
    obtain opened sc2 where op: "scan (ps_openRe st) sc = (opened, sc2)" by fastforce
    from 1(2,3) obtain a b where b: "ps_closeRe st = Star Sp # lit b" "b \<noteq> []"
      by (auto simp: loop_inv_def tags_nonempty_def)
    let ?st2 = "text_chars v (sc_pos (ps_scanner st)) (st\<lparr>ps_scanner := sc\<rparr>)\<lparr>ps_scanner := sc2\<rparr>"
    from e v op have "parse_tag (sc_pos sc) ?st2 = Inl e"
      by (auto simp: parse_step_def parse_text_def Let_def bindr_Inl_conv split: if_splits)
    then show ?thesis
    proof (rule parse_tag_error)
      show "mu.aligned (ps_scanner ?st2)" "sc_string (ps_scanner ?st2) = T"
        using text_read_ok(1,2) [OF 1(2) v] mu.aligned_read [OF _ op] mu.read_whole [OF op] by auto
    qed (use b in simp_all)
  qed
qed

text \<open>The position in an unclosed-tag error says nothing about where the tag is. Whatever
  the template and wherever in it a tag is left open, the error the parser throws carries the
  length of the template.\<close>

theorem unclosed_tag_position:
  assumes "parse_tokens template [otag, ctag] = Inl (JsError (''Unclosed tag at '' @ p))"
    "otag \<noteq> []" "ctag \<noteq> []"
  shows "p = nat_dec (length template)"
proof -
  obtain st where st: "parse_init template [otag, ctag] = Inr st"
    by (auto simp: parse_init_def escapeTags_pair)
  with assms(1) have l: "parse_loop st = Inl (JsError (''Unclosed tag at '' @ p))"
    by (auto simp: parse_tokens_def bindr_Inl_conv)
  have "tags_nonempty st"
    using st assms(2,3) by (auto simp: parse_init_def bindr_Inr_conv tags_nonempty_def)
  from parse_loop_error [OF loop_inv_init [OF st] this l] show ?thesis by (simp add: error_at_def)
qed

theorem unclosed_tag_position_witness:
  "nat_dec 12 = nat_dec (length ''{{a  bcdefgh'')"
proof (rule unclosed_tag_position [of _ "''{{''" "''}}''"])
  show "parse_tokens ''{{a  bcdefgh'' [''{{'', ''}}''] = Inl (JsError (''Unclosed tag at '' @ nat_dec 12))"
    by code_simp
qed simp_all

text \<open>Every completed iteration of the parser's loop shortens the unread part of the
  template, whatever the tags are changed to on the way; this is why the loop ends.\<close>

theorem parse_step_shortens:
  assumes "parse_step st = Inr (True, st')"
  shows "length (sc_tail (ps_scanner st')) < length (sc_tail (ps_scanner st))"
  using assms by (rule parse_step_progress)

definition demo_state :: parse_state where
  "demo_state = \<lparr>ps_scanner = new_Scanner ''a{{b}}c'', ps_tokens = [], ps_spaces = [], ps_hasTag = False,
     ps_nonSpace = False, ps_tags = mustache_tags, ps_openRe = lit ''{{'' @ [Star Sp],
     ps_closeRe = Star Sp # lit ''}}''\<rparr>"

theorem parse_step_shortens_witness:
  "(case parse_step demo_state of
      Inl e \<Rightarrow> False
    | Inr (go, st') \<Rightarrow> go \<and> length (sc_tail (ps_scanner st')) < length (sc_tail (ps_scanner demo_state)))"
proof -
  have "case parse_step demo_state of Inl e \<Rightarrow> False | Inr (go, st') \<Rightarrow> go" by code_simp
  then obtain st' where "parse_step demo_state = Inr (True, st')" by (auto split: sum.splits)
  with parse_step_shortens [OF this] show ?thesis by simp
qed

section \<open>Text without tags\<close>

definition char_tokens :: "string \<Rightarrow> nat \<Rightarrow> token list" where
  "char_tokens cs n = map (\<lambda>i. mk_token Text [cs ! i] (n + i) (Suc (n + i))) [0..<length cs]"

lemma char_tokens_simps [simp]:
  "char_tokens [] n = []"
  "char_tokens (c # cs) n = mk_token Text [c] n (Suc n) # char_tokens cs (Suc n)"
proof -
  have "[0..<length (c # cs)] = 0 # map Suc [0..<length cs]"
    by (simp add: upt_conv_Cons map_Suc_upt del: upt_Suc)
  then show "char_tokens (c # cs) n = mk_token Text [c] n (Suc n) # char_tokens cs (Suc n)"
    by (simp add: char_tokens_def comp_def)
qed (simp add: char_tokens_def)

lemma length_char_tokens [simp]: "length (char_tokens cs n) = length cs"
  by (simp add: char_tokens_def)

lemma text_char_no_tag:
  "\<not> ps_hasTag st \<Longrightarrow> ps_tokens (text_char c n st) = ps_tokens st @ [mk_token Text [c] n (Suc n)] \<and>
     \<not> ps_hasTag (text_char c n st)"
  by (simp add: text_char_def Let_def stripSpace_def)

lemma text_chars_no_tag:
  "\<not> ps_hasTag st \<Longrightarrow> ps_tokens (text_chars cs n st) = ps_tokens st @ char_tokens cs n \<and>
     \<not> ps_hasTag (text_chars cs n st)"
  by (induction cs arbitrary: n st) (simp_all add: text_char_no_tag)

lemma squash_char_tokens:
  "is_text t \<Longrightarrow> squash (t # char_tokens cs n) =
     [t\<lparr>tvalue := tvalue t @ cs, tend := (if cs = [] then tend t else n + length cs)\<rparr>]"
proof (induction cs arbitrary: t n)
  case (Cons c cs)
  then show ?case
    using Cons.IH [of "join t (mk_token Text [c] n (Suc n))" "Suc n"]
    by (simp add: is_text_def join_def)
qed (simp add: is_text_def)

lemma parse_step_no_tag:
  assumes "rx_search (ps_openRe st) (sc_tail (ps_scanner st)) = None" "\<not> ps_hasTag st"
  obtains st' where "parse_step st = Inr (False, st')"
    "ps_tokens st' = ps_tokens st @ char_tokens (sc_tail (ps_scanner st)) (sc_pos (ps_scanner st))"
proof
  let ?sc = "ps_scanner st" let ?v = "sc_tail ?sc"
  let ?sc1 = "?sc\<lparr>sc_tail := [], sc_pos := sc_pos ?sc + length ?v\<rparr>"
  have u: "scanUntil (ps_openRe st) ?sc = (?v, ?sc1)" using assms(1) by (simp add: scanUntil_def)
  have "match_at (ps_openRe st) (drop (length ?v) ?v) = None"
    using assms(1) rx_search_None_iff by blast
  then have "scan (ps_openRe st) ?sc1 = ([], ?sc1)" by (simp add: scan_cases)
  with u show "parse_step st = Inr (False, text_chars ?v (sc_pos ?sc) (st\<lparr>ps_scanner := ?sc1\<rparr>)\<lparr>ps_scanner := ?sc1\<rparr>)"
    by (simp add: parse_step_def parse_text_def Let_def)
  show "ps_tokens (text_chars ?v (sc_pos ?sc) (st\<lparr>ps_scanner := ?sc1\<rparr>)\<lparr>ps_scanner := ?sc1\<rparr>) =
      ps_tokens st @ char_tokens ?v (sc_pos ?sc)"
    using text_chars_no_tag [of "st\<lparr>ps_scanner := ?sc1\<rparr>" ?v "sc_pos ?sc"] assms(2) by simp
qed

lemma parse_tokens_no_tag:
  assumes "rx_search (lit a @ [Star Sp]) T = None"
  shows "parse_tokens T [a, b] = Inr (char_tokens T 0)"
proof -
  let ?st = "\<lparr>ps_scanner = new_Scanner T, ps_tokens = [], ps_spaces = [], ps_hasTag = False,
     ps_nonSpace = False, ps_tags = [a, b], ps_openRe = lit a @ [Star Sp], ps_closeRe = Star Sp # lit b\<rparr>"
  from parse_step_no_tag [of ?st] assms obtain st' where
    "parse_step ?st = Inr (False, st')" "ps_tokens st' = char_tokens T 0"
    by (auto simp: new_Scanner_def)
  then have "\<exists>st'. parse_loop ?st = Inr st' \<and> ps_tokens st' = char_tokens T 0"
    by (subst parse_loop.simps) (auto simp: eos_def new_Scanner_def)
  then show ?thesis by (auto simp: parse_tokens_def parse_init_def escapeTags_pair)
qed

text \<open>A template in which the opening tag does not occur is one text token, the template
  itself, with no whitespace stripped anywhere; the empty template has no token.\<close>

theorem parse_plain_text:
  assumes "rx_search (lit otag @ [Star Sp]) template = None"
  shows "parse template (Some [otag, ctag]) =
     Inr (if template = [] then [] else [Leaf (mk_token Text template 0 (length template))])"
proof -
  have "squash (char_tokens T 0) = (if T = [] then [] else [mk_token Text T 0 (length T)])" for T
  proof (cases T)
    case (Cons c cs)
    then show ?thesis using squash_char_tokens [of "mk_token Text [c] 0 1" cs 1]
      by (simp add: is_text_def mk_token_def)
  qed simp
  then show ?thesis
    using parse_tokens_no_tag [OF assms, of ctag]
    by (simp add: parse_def squashTokens_squash nestTokens_nestf opens_section_def closes_section_def)
qed

theorem parse_plain_text_witness:
  "parse ''a } b'' (Some [''{{'', ''}}'']) = Inr [Leaf (mk_token Text ''a } b'' 0 5)]"
proof -
  have "rx_search (lit ''{{'' @ [Star Sp]) ''a } b'' = None" by code_simp
  from parse_plain_text [OF this, of "''}}''"] show ?thesis by simp
qed

section \<open>Lines that hold only tags\<close>

lemma text_chars_spaces:
  "\<forall>c \<in> set cs. is_space c \<and> c \<noteq> CHR 0x0A \<Longrightarrow>
     text_chars cs n st = st\<lparr>ps_tokens := ps_tokens st @ char_tokens cs n,
       ps_spaces := ps_spaces st @ [length (ps_tokens st)..<length (ps_tokens st) + length cs]\<rparr>"
proof (induction cs arbitrary: n st)
  case (Cons c cs)
  have "text_char c n st = st\<lparr>ps_tokens := ps_tokens st @ [mk_token Text [c] n (Suc n)],
      ps_spaces := ps_spaces st @ [length (ps_tokens st)]\<rparr>"
    using Cons.prems by (simp add: text_char_def isWhitespace_iff)
  then show ?case using Cons.prems Cons.IH
    by (simp add: upt_conv_Cons del: upt_Suc)
qed simp

lemma text_chars_append: "text_chars (xs @ ys) n st = text_chars ys (n + length xs) (text_chars xs n st)"
  by (induction xs arbitrary: n st) simp_all

lemma nths_none: "\<forall>i < length xs. i \<notin> A \<Longrightarrow> nths xs A = []"
  by (induction xs arbitrary: A) (auto simp: nths_Cons)

lemma is_space_newline [simp]: "is_space CHR 0x0A"
  by (simp add: is_space_def)



end
