(* ===== verification/MuTheorems.thy ===== *)
theory MuTheorems
  imports MuSpec MuParseLaws
begin

text \<open>
  The properties of rendering: the engine computes the specification of \<open>MuSpec\<close>, its
  caches cannot be observed, it ends, what it escapes is safe, and the places where the code
  does something its interface does not say.
\<close>

section \<open>A concrete runtime\<close>

text \<open>An instance of the parameters, for evaluation: objects and functions inherit the names of
  \<open>Object.prototype\<close>, the functions of the caller return nothing.\<close>

definition object_prototype :: "string list" where
  "object_prototype = [''constructor'', ''toString'', ''valueOf'', ''hasOwnProperty'',
     ''isPrototypeOf'', ''propertyIsEnumerable'', ''toLocaleString'']"

definition node_env :: js_env where
  "node_env = \<lparr>
     env_proto = (\<lambda>v k. if k \<in> set object_prototype then Fun (Builtin k) else Undef),
     env_call = (\<lambda>f this. Inr Undef),
     env_section = (\<lambda>f this text. Done (Inr (Str text))),
     env_string = (\<lambda>h v. Inr ''[object Object]''),
     env_foreign = (\<lambda>v arg. Inr (Obj []))\<rparr>"


lemma plain_node_env [simp]: "plain node_env k \<longleftrightarrow> k \<notin> set object_prototype"
  by (simp add: plain_def node_env_def)

lemma lam_ok_node_env: "lam_ok node_env (env_section node_env f this text)"
  by (simp add: node_env_def)

definition demo_view :: jsval where
  "demo_view = Obj [(''a'', Str ''<b>''), (''xs'', Arr [Num ''1'', Num ''2'']), (''n'', Num ''0'')]"

section \<open>The engine computes the specification\<close>

lemma new_Writer_ok: "st_ok E (\<lambda>n. Inr None) new_Writer"
  by (simp add: st_ok_def new_Writer_def ctxs_ok_def objmemo.sound_fresh)

text \<open>C1: On a writer whose caches are sound, rendering a text whose names are no property of
  \<open>Object.prototype\<close> gives the value of the specification, which has no caches, no store of
  contexts and no loader, and leaves the caches sound, so that the next call does the same.\<close>

theorem render_refines_spec:
  assumes "world_ok E P" "text_ok E T" "st_ok E P st"
  shows "map_option snd (render E fuel T (RView v) NoPartials st) = s_render E P fuel T v \<and>
    (\<forall>st' r. render E fuel T (RView v) NoPartials st = Some (st', r) \<longrightarrow> st_ok E P st')"
  using render_no_partials [OF assms, of fuel v]
  by (auto simp: refines_def split: option.splits)

theorem render_refines_spec_witness:
  "map_option snd (render node_env 1 ''x{{a}}'' (RView demo_view) NoPartials new_Writer) =
     s_render node_env (\<lambda>n. Inr None) 1 ''x{{a}}'' demo_view"
proof (rule render_refines_spec [THEN conjunct1])
  show "world_ok node_env (\<lambda>n. Inr None)" by (simp add: world_ok_def lam_ok_node_env)
  show "text_ok node_env ''x{{a}}''" by code_simp
  show "st_ok node_env (\<lambda>n. Inr None) new_Writer" by (rule new_Writer_ok)
qed

text \<open>C19: The cache of a context cannot be observed: looking up a name gives what a search of
  the views from the context to the root gives, whatever was looked up before, and keeps the
  caches sound and the other contexts as they were.\<close>

theorem lookup_cache_invisible:
  assumes "ctxs_ok E cs" "i < length cs" "plain E name"
  shows "snd (lookup E name i cs) = spec_lookup E name (chain cs i) \<and>
    ctxs_ok E (fst (lookup E name i cs)) \<and>
    (\<forall>j < length cs. chain (fst (lookup E name i cs)) j = chain cs j)"
  using lookup_ok [OF assms] chain_extends by blast

definition demo_ctxs :: ctxs where
  "demo_ctxs = snd (push_Context (Obj [(''b'', Str ''y'')]) 0 (snd (new_Context demo_view None [])))"

theorem lookup_cache_invisible_witness:
  "snd (lookup node_env ''a'' 1 demo_ctxs) = spec_lookup node_env ''a'' (chain demo_ctxs 1)"
proof -
  have "ctxs_ok node_env demo_ctxs"
    by (auto simp: demo_ctxs_def push_Context_def new_Context_def ctxs_ok_def nth_Cons'
        objmemo.sound_fresh split: if_splits)
  moreover have "1 < length demo_ctxs" "plain node_env ''a''"
    by (simp_all add: demo_ctxs_def push_Context_def new_Context_def object_prototype_def)
  ultimately show ?thesis using lookup_cache_invisible by blast
qed

section \<open>Partials given as an object\<close>

fun with_partials :: "(string \<times> string) list \<Rightarrow> penv \<Rightarrow> penv" where
  "with_partials [] P = P"
| "with_partials ((n, t) # ps) P = with_partials ps (P(n := Inr (Some t)))"

definition s_render_with ::
  "js_env \<Rightarrow> penv \<Rightarrow> (string \<times> string) list \<Rightarrow> nat \<Rightarrow> string \<Rightarrow> jsval \<Rightarrow> jsval srun" where
  "s_render_with E P ps fuel T v =
     binds (Some (parse T None)) (\<lambda>ts.
       if fuel = 0 then None
       else binds (Some (all_or_error (map (\<lambda>(n, t). parse t None) ps)))
              (\<lambda>_. s_call E (with_partials ps P) fuel ts T [v]))"

lemma st_ok_partial:
  assumes "st_ok E P st" "compiled t = Some fn"
  shows "st_ok E (P(n := Inr (Some t))) (st\<lparr>w_partials := obj_set n fn (w_partials st)\<rparr>)"
proof -
  have "objmemo.sound (compiled_partial (P(n := Inr (Some t)))) (obj_set n fn (w_partials st))"
    using assms by (auto simp: st_ok_def objmemo.sound_def obj_get_set compiled_partial_def)
  with assms(1) show ?thesis by (auto simp: st_ok_def obj_get_set)
qed

lemma compile_partials_ok:
  assumes "st_ok E P st" "list_all (\<lambda>(n, t). plain E t) ps"
  shows "case all_or_error (map (\<lambda>(n, t). parse t None) ps) of
      Inl e \<Rightarrow> \<exists>st'. compile_partials E ps st = (st', Inl e)
    | Inr _ \<Rightarrow> \<exists>st'. compile_partials E ps st = (st', Inr ()) \<and> st_ok E (with_partials ps P) st' \<and>
        w_ctxs st' = w_ctxs st"
  using assms
proof (induction ps arbitrary: P st)
  case (Cons p ps)
  obtain n t where p: "p = (n, t)" by fastforce
  with Cons.prems(2) have "plain E t" by simp
  from compile_ok [OF Cons.prems(1) this] obtain st1 where st1: "st_ok E P st1" "w_ctxs st1 = w_ctxs st"
    "compile E t None st = (st1, map_sum id (\<lambda>ts. Compiled ts t) (parse t None))" by metis
  show ?case
  proof (cases "parse t None")
    case (Inl e)
    with st1 p show ?thesis by (simp add: compilePartial_def)
  next
    case (Inr ts)
    then have "compiled t = Some (Compiled ts t)" by (simp add: compiled_def)
    from Cons.IH [OF st_ok_partial [OF st1(1) this]] Cons.prems(2) st1 p Inr show ?thesis
      by (auto simp: compilePartial_def bindr_def split: sum.splits)
  qed
qed simp

text \<open>Rendering with an object of partials: the template is parsed first, then every partial,
  the first syntax error being the result; then the specification is computed with the partials
  added to (or replacing) those the writer had before.\<close>

theorem render_partials_object:
  assumes "world_ok E (with_partials ps P)" "text_ok E T" "st_ok E P st"
    "list_all (\<lambda>(n, t). plain E t) ps"
  shows "map_option snd (render E fuel T (RView v) (PartialObj ps) st) = s_render_with E P ps fuel T v"
proof -
  let ?P = "with_partials ps P"
  from assms(2,3) obtain st1 where st1: "st_ok E P st1" "w_ctxs st1 = w_ctxs st"
    "compile E T None st = (st1, map_sum id (\<lambda>ts. Compiled ts T) (parse T None))"
    by (auto simp: text_ok_def elim: compile_ok)
  show ?thesis
  proof (cases "parse T None")
    case (Inl e)
    with st1 show ?thesis by (simp add: render_def s_render_with_def)
  next
    case ts: (Inr ts)
    show ?thesis
    proof (cases fuel)
      case 0
      with ts st1 show ?thesis by (simp add: render_def s_render_with_def)
    next
      case (Suc f)
      show ?thesis
      proof (cases "all_or_error (map (\<lambda>(n, t). parse t None) ps)")
        case (Inl e)
        with compile_partials_ok [OF st1(1) assms(4)] ts st1 Suc show ?thesis
          by (auto simp: render_def s_render_with_def)
      next
        case (Inr us)
        with compile_partials_ok [OF st1(1) assms(4)] obtain st2 where
          st2: "compile_partials E ps st1 = (st2, Inr ())" "st_ok E ?P st2" by auto
        obtain i cs where c: "new_Context v None (w_ctxs st2) = (i, cs)" by fastforce
        note n = new_Context_ok [OF _ c, of E]
        have "ctxs_ok E (w_ctxs st2)" using st2(2) by (simp add: st_ok_def)
        note n = new_Context_ok [OF this c, simplified]
        have "st_ok E ?P (st2\<lparr>w_ctxs := cs\<rparr>)" using st2(2) n(1) by (simp add: st_ok_def)
        moreover have "trees_ok E ts" using assms(2) ts by (simp add: text_ok_def)
        ultimately have "refines E ?P (st2\<lparr>w_ctxs := cs\<rparr>)
            (run_tokens E (call_fn E f NoPartials) T ts i (st2\<lparr>w_ctxs := cs\<rparr>))
            (s_tokens E ?P (s_call E ?P f) T ts [v])"
          using run_tokens_refines [OF call_fn_ok [OF assms(1)] assms(1), of ts "st2\<lparr>w_ctxs := cs\<rparr>" i f T]
            n(3,4) by simp
        then have "map_option snd (bindw (run_tokens E (call_fn E f NoPartials) T ts i (st2\<lparr>w_ctxs := cs\<rparr>)) (\<lambda>s. ret (Str s)))
            = binds (s_tokens E ?P (s_call E ?P f) T ts [v]) (\<lambda>s. Some (Inr (Str s)))"
          by (auto simp: refines_def bindw_def binds_def ret_def split: option.splits sum.splits)
        with st1 st2 ts Inr Suc c show ?thesis
          by (simp add: render_def s_render_with_def make_view_def)
      qed
    qed
  qed
qed

theorem render_partials_object_witness:
  "map_option snd (render node_env 2 ''x{{>p}}'' (RView demo_view) (PartialObj [(''p'', ''{{a}}'')]) new_Writer) =
     s_render_with node_env (\<lambda>n. Inr None) [(''p'', ''{{a}}'')] 2 ''x{{>p}}'' demo_view"
proof (rule render_partials_object)
  have "text_ok node_env ''{{a}}''" by code_simp
  then show "world_ok node_env (with_partials [(''p'', ''{{a}}'')] (\<lambda>n. Inr None))"
    by (auto simp: world_ok_def lam_ok_node_env split: if_splits)
  show "text_ok node_env ''x{{>p}}''" by code_simp
  show "st_ok node_env (\<lambda>n. Inr None) new_Writer" by (rule new_Writer_ok)
  show "list_all (\<lambda>(n, t). plain node_env t) [(''p'', ''{{a}}'')]"
    by (simp add: object_prototype_def)
qed

section \<open>Termination and fuel\<close>

fun calls_none :: "ttree \<Rightarrow> bool" where
  "calls_none (Leaf t) = (ttype t \<noteq> Partial)"
| "calls_none (Sec t ch) = list_all calls_none ch"

definition asks_nothing :: "js_env \<Rightarrow> bool" where
  "asks_nothing E \<longleftrightarrow> (\<forall>f this text. \<exists>r. env_section E f this text = Done r)"

definition returns :: "'a option \<Rightarrow> bool" where
  "returns m \<longleftrightarrow> m \<noteq> None"

lemma returns_bind [intro!]: "returns m \<Longrightarrow> (\<And>x st. returns (f x st)) \<Longrightarrow> returns (bindw m f)"
  by (auto simp: returns_def bindw_def split: option.split sum.split)

lemma returns_simps [simp]: "returns (Some x)" "returns (ret y st)" "returns (lift_r r st)"
  "returns (w_lookup E n i st)"
  by (simp_all add: returns_def ret_def lift_r_def w_lookup_def split: prod.split)

lemma returns_name [simp]: "returns (name_fn E n i st)" "returns (escaped_fn E n i st)"
  by (auto simp: name_fn_def escaped_fn_def)

lemma section_items_total: "(\<And>j st. returns (cb j st)) \<Longrightarrow> returns (section_items cb vs i st)"
  by (induction vs arbitrary: st) (auto split: prod.split)

lemma section_fn_total:
  assumes "asks_nothing E" "\<And>j st. returns (cb j st)"
  shows "returns (section_fn E call n i text cb st)"
proof -
  have "returns (run_lam E call i (env_section E f this text) st)" for f this st
    using assms(1) unfolding asks_nothing_def by (metis run_lam.simps(1) returns_simps(1))
  then show ?thesis unfolding section_fn_def
    by (intro returns_bind) (auto simp: section_items_total assms(2) split: prod.split jsval.split intro!: returns_bind)
qed

lemma run_tokens_total:
  "(\<And>t i st. t \<in> set ts \<Longrightarrow> returns (run_token E call T t i st)) \<Longrightarrow> returns (run_tokens E call T ts i st)"
  by (induction ts arbitrary: st) auto

lemma run_token_total:
  "asks_nothing E \<Longrightarrow> calls_none t \<Longrightarrow> returns (run_token E call T t i st)"
proof (induction t arbitrary: i st)
  case (Leaf t)
  then show ?case by (cases "ttype t") auto
next
  case (Sec t ch)
  then have "returns (run_tokens E call T ch j st')" for j st'
    by (intro run_tokens_total) (auto simp: list_all_iff)
  then show ?case
    using Sec.prems by (auto simp: section_fn_total inverted_fn_def intro!: returns_bind)
qed

text \<open>C28: Rendering a template without partial tags ends, whatever the view, if the lambdas of
  the view do not render templates themselves: one call deep is enough.\<close>

theorem render_ends:
  assumes "asks_nothing E" "\<And>ts. parse T None = Inr ts \<Longrightarrow> list_all calls_none ts"
    "objmemo.sound compiled (w_cache st)"
  shows "\<exists>st' r. render E 1 T (RView v) NoPartials st = Some (st', r)"
proof -
  have "returns (call_fn E 1 NoPartials fn (RView v) st1)"
    if c: "compile E T None st = (st1, Inr fn)" for fn st1
  proof (cases fn)
    case (Compiled ts T')
    have "parse T None = Inr ts"
    proof (cases "obj_get (w_cache st) T")
      case (Some g)
      with assms(3) have "compiled T = Some g" by (rule objmemo.sound_hit)
      with Some c Compiled show ?thesis by (simp add: compile_def compiled_def split: sum.splits)
    qed (use c Compiled in \<open>auto simp: compile_def Let_def split: if_splits sum.splits\<close>)
    from assms(2) [OF this] have "returns (run_tokens E call T' ts i st2)" for call i st2
      by (intro run_tokens_total run_token_total [OF assms(1)]) (auto simp: list_all_iff)
    with Compiled show ?thesis
      by (auto simp: call_fn.simps(3) [where fuel = 0, simplified] split: prod.split)
  qed simp
  then have "returns (render E 1 T (RView v) NoPartials st)"
    by (auto simp: render_def split: prod.split sum.split)
  then show ?thesis by (auto simp: returns_def)
qed

theorem render_ends_witness:
  "\<exists>st' r. render node_env 1 ''{{#xs}}{{.}}{{/xs}}'' (RView demo_view) NoPartials new_Writer = Some (st', r)"
proof (rule render_ends)
  show "asks_nothing node_env" by (simp add: asks_nothing_def node_env_def)
  have "case parse ''{{#xs}}{{.}}{{/xs}}'' None of Inr ts \<Rightarrow> list_all calls_none ts | Inl e \<Rightarrow> True" by code_simp
  then show "parse ''{{#xs}}{{.}}{{/xs}}'' None = Inr ts \<Longrightarrow> list_all calls_none ts" for ts by simp
  show "objmemo.sound compiled (w_cache new_Writer)" by (simp add: new_Writer_def objmemo.sound_fresh)
qed

text \<open>A run with more fuel is the same run, where the one with less returned.\<close>

definition le_run :: "'a option \<Rightarrow> 'a option \<Rightarrow> bool" where
  "le_run m m' \<longleftrightarrow> m = None \<or> m = m'"

definition le_caller :: "caller \<Rightarrow> caller \<Rightarrow> bool" where
  "le_caller c c' \<longleftrightarrow> (\<forall>fn v st. le_run (c fn v st) (c' fn v st))"

lemma le_run_simps [simp]: "le_run m m" "le_run None m"
  by (simp_all add: le_run_def)

lemma le_run_bind:
  "le_run m m' \<Longrightarrow> (\<And>x st. le_run (f x st) (g x st)) \<Longrightarrow> le_run (bindw m f) (bindw m' g)"
  by (auto simp: le_run_def bindw_def split: option.split sum.split)

lemma le_section_items:
  "(\<And>j st. le_run (cb j st) (cb' j st)) \<Longrightarrow> le_run (section_items cb vs i st) (section_items cb' vs i st)"
  by (induction vs arbitrary: st) (auto split: prod.split intro!: le_run_bind)

lemma le_scoped: "le_caller c c' \<Longrightarrow> le_run (scoped_render E c t i st) (scoped_render E c' t i st)"
  by (auto simp: scoped_render_def le_caller_def split: prod.split sum.split)

lemma le_run_lam: "le_caller c c' \<Longrightarrow> le_run (run_lam E c i l st) (run_lam E c' i l st)"
proof (induction l arbitrary: st)
  case (Ask t k)
  then have k: "le_run (run_lam E c i (k r) st') (run_lam E c' i (k r) st')" for r st' by blast
  show ?case
  proof (cases "scoped_render E c t i st")
    case (Some p)
    with le_scoped [OF Ask.prems, of E t i st] have "scoped_render E c' t i st = Some p"
      by (simp add: le_run_def)
    with Some k show ?thesis by (simp split: prod.split)
  qed simp
qed simp

lemma le_section:
  assumes "le_caller c c'" "\<And>j st. le_run (cb j st) (cb' j st)"
  shows "le_run (section_fn E c n i text cb st) (section_fn E c' n i text cb' st)"
  unfolding section_fn_def
  by (intro le_run_bind le_run_simps)
    (auto simp: assms le_section_items le_run_lam split: jsval.split prod.split intro!: le_run_bind)

lemma le_partial: "le_caller c c' \<Longrightarrow> le_run (partial_fn E c n i st) (partial_fn E c' n i st)"
  unfolding partial_fn_def Let_def
  by (intro le_run_bind le_run_simps) (auto simp: le_caller_def split: option.split)

lemma le_tokens_from:
  "(\<And>t i st. t \<in> set ts \<Longrightarrow> le_run (run_token E c T t i st) (run_token E c' T t i st)) \<Longrightarrow>
     le_run (run_tokens E c T ts i st) (run_tokens E c' T ts i st)"
  by (induction ts arbitrary: st) (auto intro!: le_run_bind)

lemma le_token: "le_caller c c' \<Longrightarrow> le_run (run_token E c T t i st) (run_token E c' T t i st)"
proof (induction t arbitrary: i st)
  case (Leaf t)
  then show ?case by (cases "ttype t") (auto simp: le_partial)
next
  case (Sec t ch)
  then have "le_run (run_tokens E c T ch j st') (run_tokens E c' T ch j st')" for j st'
    by (intro le_tokens_from) auto
  with le_section [OF Sec.prems] show ?case by (auto simp: inverted_fn_def intro!: le_run_bind)
qed

lemma le_call_fn: "fuel \<le> fuel' \<Longrightarrow> le_caller (call_fn E fuel ps) (call_fn E fuel' ps)"
proof (induction fuel arbitrary: ps fuel')
  case 0
  then show ?case unfolding le_caller_def
  proof (intro allI)
    fix fn v st show "le_run (call_fn E 0 ps fn v st) (call_fn E fuel' ps fn v st)" by (cases fn) auto
  qed
next
  case (Suc fuel)
  then obtain k where k: "fuel' = Suc k" "fuel \<le> k" by (cases fuel') auto
  show ?case unfolding le_caller_def k(1)
  proof (intro allI)
    fix fn v st show "le_run (call_fn E (Suc fuel) ps fn v st) (call_fn E (Suc k) ps fn v st)"
      by (cases fn) (auto split: prod.split sum.split intro!: le_run_bind le_tokens_from le_token Suc.IH k(2))
  qed
qed

text \<open>The fuel is only a bound on the depth of calls: a result that is reached with some fuel
  is reached with more, and it is the same result with the same state of the caches.\<close>

theorem render_fuel_irrelevant:
  assumes "render E fuel T v ps st = Some out" "fuel \<le> fuel'"
  shows "render E fuel' T v ps st = Some out"
proof -
  have "le_run (render E fuel T v ps st) (render E fuel' T v ps st)"
    using le_call_fn [OF assms(2)] by (auto simp: render_def le_caller_def split: prod.split sum.split)
  with assms(1) show ?thesis by (simp add: le_run_def)
qed

theorem render_fuel_irrelevant_witness:
  "render node_env 7 ''x{{a}}'' (RView demo_view) NoPartials new_Writer =
     render node_env 1 ''x{{a}}'' (RView demo_view) NoPartials new_Writer"
proof -
  have "map_option snd (render node_env 1 ''x{{a}}'' (RView demo_view) NoPartials new_Writer) =
      Some (Inr (Str ''x&lt;b&gt;''))" by code_simp
  then obtain out where "render node_env 1 ''x{{a}}'' (RView demo_view) NoPartials new_Writer = Some out"
    by auto
  from render_fuel_irrelevant [OF this, of 7] this show ?thesis by simp
qed

section \<open>What the output is\<close>

definition markup :: "string \<Rightarrow> bool" where
  "markup s \<longleftrightarrow> list_ex (\<lambda>c. c \<in> set html_special - {CHR ''&''}) s"

lemma markup_simps [simp]: "\<not> markup []" "markup (s @ t) \<longleftrightarrow> markup s \<or> markup t" "\<not> markup (escapeHtml s)"
  using escapeHtml_chars [of _ s] by (auto simp: markup_def list_ex_iff)

text \<open>A tree whose texts hold no markup and that has no unescaped tag and no partial.\<close>

fun only_escaped :: "ttree \<Rightarrow> bool" where
  "only_escaped (Leaf t) = (ttype t \<notin> {Partial, Unescaped} \<and> (ttype t = Text \<longrightarrow> \<not> markup (tvalue t)))"
| "only_escaped (Sec t ch) = list_all only_escaped ch"

definition lambdas_safe :: "js_env \<Rightarrow> bool" where
  "lambdas_safe E \<longleftrightarrow> (\<forall>f this text. \<exists>r. env_section E f this text = Done r \<and>
     (\<forall>v s. r = Inr v \<longrightarrow> js_string E False v = Inr s \<longrightarrow> \<not> markup s))"

definition safe_value :: "js_env \<Rightarrow> jsval run \<Rightarrow> bool" where
  "safe_value E m \<longleftrightarrow> (\<forall>st v s. m = Some (st, Inr v) \<longrightarrow> js_string E False v = Inr s \<longrightarrow> \<not> markup s)"

definition safe_text :: "string run \<Rightarrow> bool" where
  "safe_text m \<longleftrightarrow> (\<forall>st s. m = Some (st, Inr s) \<longrightarrow> \<not> markup s)"

lemma bindw_SomeE:
  assumes "bindw m f = Some (st, Inr y)"
  obtains st1 x where "m = Some (st1, Inr x)" "f x st1 = Some (st, Inr y)"
  using assms by (auto simp: bindw_def split: option.splits sum.splits)

lemma safe_Str [simp]: "safe_text m \<Longrightarrow> safe_value E (bindw m (\<lambda>s. ret (Str s)))"
  by (auto simp: safe_value_def safe_text_def ret_def elim!: bindw_SomeE)

lemma safe_ret [simp]: "safe_value E (ret (Str s) st) \<longleftrightarrow> \<not> markup s"
  by (simp add: safe_value_def ret_def)

lemma safe_bind: "(\<And>x st. safe_value E (f x st)) \<Longrightarrow> safe_value E (bindw m f)"
  unfolding safe_value_def by (metis bindw_SomeE)

lemma safe_items: "(\<And>j st. safe_text (cb j st)) \<Longrightarrow> safe_text (section_items cb vs i st)"
proof (induction vs arbitrary: st)
  case (Cons v vs)
  then show ?case
    by (auto simp: safe_text_def ret_def split: prod.splits elim!: bindw_SomeE)
qed (simp add: safe_text_def ret_def)

lemma safe_section:
  assumes "lambdas_safe E" "\<And>j st. safe_text (cb j st)"
  shows "safe_value E (section_fn E call n i text cb st)"
proof -
  have "safe_value E (bindw (run_lam E call i (env_section E f this text) st') (\<lambda>r. ret (if truthy r then r else Str [])))"
    for f this st'
  proof -
    from assms(1) obtain r where "env_section E f this text = Done r"
      "\<forall>v s. r = Inr v \<longrightarrow> js_string E False v = Inr s \<longrightarrow> \<not> markup s" unfolding lambdas_safe_def by metis
    then show ?thesis by (cases r) (auto simp: safe_value_def ret_def)
  qed
  with assms(2) show ?thesis unfolding section_fn_def
    by (intro safe_bind) (auto simp: safe_items split: jsval.split prod.split)
qed

lemma safe_tokens:
  "(\<And>t i st. t \<in> set ts \<Longrightarrow> safe_value E (run_token E call T t i st)) \<Longrightarrow>
     safe_text (run_tokens E call T ts i st)"
proof (induction ts arbitrary: st)
  case (Cons t ts)
  show ?case unfolding safe_text_def
  proof (intro allI impI)
    fix st' s assume "run_tokens E call T (t # ts) i st = Some (st', Inr s)"
    then obtain v st1 s1 st2 s2 where "run_token E call T t i st = Some (st1, Inr v)"
      "js_string E False v = Inr s1" "run_tokens E call T ts i st2 = Some (st', Inr s2)" "s = s1 @ s2"
      by (auto simp: lift_r_def ret_def elim!: bindw_SomeE)
    moreover have "safe_text (run_tokens E call T ts i st2)" using Cons by simp
    moreover have "safe_value E (run_token E call T t i st)" using Cons.prems by simp
    ultimately show "\<not> markup s" by (auto simp: safe_value_def safe_text_def)
  qed
qed (simp add: safe_text_def ret_def)

lemma safe_token: "lambdas_safe E \<Longrightarrow> only_escaped t \<Longrightarrow> safe_value E (run_token E call T t i st)"
proof (induction t arbitrary: i st)
  case (Leaf t)
  have "safe_text (escaped_fn E n i st)" for n
    by (auto simp: safe_text_def escaped_fn_def ret_def elim!: bindw_SomeE)
  with Leaf show ?case by (cases "ttype t") auto
next
  case (Sec t ch)
  then have "safe_text (run_tokens E call T ch j st')" for j st'
    by (intro safe_tokens) (auto simp: list_all_iff)
  with Sec.prems show ?case
    by (auto simp: safe_section inverted_fn_def intro!: safe_bind)
qed



text \<open>Of a section and the inverted section of the same name only one shows its content:
  if the value found is falsy or an empty array the section is empty and the inverted one is
  its content in the same context, otherwise the inverted one is empty. The value is not a function.\<close>

theorem section_or_inverted:
  assumes "w_lookup E (tvalue t) i st = Some (st1, Inr x)" "\<forall>f. x \<noteq> Fun f"
    "ttype t = Section" "ttype t' = Inverted" "tvalue t' = tvalue t"
  shows "if truthy x \<and> x \<noteq> Arr [] then run_token E call T (Sec t' ch) i st = Some (st1, Inr (Str []))
    else run_token E call T (Sec t ch) i st = Some (st1, Inr (Str [])) \<and>
      run_token E call T (Sec t' ch) i st = bindw (run_tokens E call T ch i st1) (\<lambda>s. ret (Str s))"
  using assms by (cases x) (auto simp: section_fn_def inverted_fn_def ret_def)

theorem section_or_inverted_witness:
  "run_token node_env (call_fn node_env 0 NoPartials) [] (Sec (mk_token Section ''n'' 0 1) [Leaf (mk_token Text ''no'' 1 2)]) 1
     (new_Writer\<lparr>w_ctxs := demo_ctxs\<rparr>) =
   Some (new_Writer\<lparr>w_ctxs := fst (lookup node_env ''n'' 1 demo_ctxs)\<rparr>, Inr (Str []))"
proof -
  have "snd (lookup node_env ''n'' 1 demo_ctxs) = Inr (Num ''0'')" by code_simp
  then have "w_lookup node_env (tvalue (mk_token Section ''n'' 0 1)) 1 (new_Writer\<lparr>w_ctxs := demo_ctxs\<rparr>) =
      Some (new_Writer\<lparr>w_ctxs := fst (lookup node_env ''n'' 1 demo_ctxs)\<rparr>, Inr (Num ''0''))"
    by (simp add: w_lookup_def case_prod_unfold)
  from section_or_inverted [OF this, of "mk_token Inverted ''n'' 0 1"] show ?thesis by simp
qed

text \<open>A template without tags renders to itself, for every view.\<close>

theorem render_plain_text:
  assumes "rx_search (lit ''{{'' @ [Star Sp]) T = None" "plain E T" "obj_get (w_cache st) T = None"
  shows "map_option snd (render E (Suc fuel) T (RView v) NoPartials st) = Some (Inr (Str T))"
proof -
  have "parse T None = Inr (if T = [] then [] else [Leaf (mk_token Text T 0 (length T))])"
    using parse_plain_text [OF assms(1), of "''}}''"] by (simp add: parse_def mustache_tags_def)
  with assms(2,3) show ?thesis
    by (simp add: render_def compile_def plain_def make_view_def new_Context_def lift_r_def ret_def)
qed

theorem render_plain_text_witness:
  "map_option snd (render node_env (Suc 0) ''a } b'' (RView Null) NoPartials new_Writer) = Some (Inr (Str ''a } b''))"
proof (rule render_plain_text)
  show "rx_search (lit ''{{'' @ [Star Sp]) ''a } b'' = None" by code_simp
qed (simp_all add: object_prototype_def new_Writer_def)

section \<open>What the interface does not say\<close>

text \<open>The compile cache is keyed by the template alone: once a template is compiled, compiling
  it again with other tags gives the function made with the first ones.\<close>

theorem compile_ignores_new_tags:
  assumes "compile E T tags st = (st1, Inr fn)" "plain E T"
  shows "compile E T tags' st1 = (st1, Inr fn)"
  using assms by (auto simp: compile_def Let_def plain_def obj_get_set split: option.splits sum.splits)

theorem compile_ignores_new_tags_witness:
  "snd (compile node_env ''{{a}}'' (Some [''<'', ''>''])
      (fst (compile node_env ''{{a}}'' None new_Writer))) = snd (compile node_env ''{{a}}'' None new_Writer)"
proof -
  have "\<exists>ts. parse ''{{a}}'' None = Inr ts"
  proof -
    have "case parse ''{{a}}'' None of Inl e \<Rightarrow> False | Inr ts \<Rightarrow> True" by code_simp
    then show ?thesis by (auto split: sum.splits)
  qed
  then obtain ts st1 where "compile node_env ''{{a}}'' None new_Writer = (st1, Inr (Compiled ts ''{{a}}''))"
    by (auto simp: compile_def new_Writer_def Let_def node_env_def object_prototype_def)
  moreover from compile_ignores_new_tags [OF this]
  have "compile node_env ''{{a}}'' (Some [''<'', ''>'']) st1 = (st1, Inr (Compiled ts ''{{a}}''))"
    by (simp add: object_prototype_def)
  ultimately show ?thesis by simp
qed

text \<open>The text a lambda of a section is given ends where the last nested section's last token
  ends, not at the section's closing tag: the closing tag of the inner section is lost.\<close>

theorem section_text_truncated:
  "(let T = ''{{#a}}x{{#b}}y{{/b}}{{/a}}''; v = Obj [(''a'', Fun (User 0))] in
    map_option snd (render (node_env\<lparr>env_call := \<lambda>f this. Inr (Fun f)\<rparr>) 1 T (RView v) NoPartials new_Writer)) =
   Some (Inr (Str ''x{{#b}}y''))"
  by code_simp

text \<open>Other places where plain objects and falsy values show through.\<close>

lemma partial_from_prototype:
  "map_option snd (render node_env 3 ''{{>constructor}}'' (RView demo_view) NoPartials new_Writer) =
     Some (Inr (Str ''[object Object]''))"
  by code_simp

lemma dotted_name_stops_at_falsy:
  "map_option snd (render node_env 1 ''{{n.b}}'' (RView demo_view) NoPartials new_Writer) = Some (Inr (Str ''0''))"
  by code_simp

end
