(* ===== verification/EnvPage.thy ===== *)
theory EnvPage
  imports MuRender Complex_Main
begin

text \<open>
  The page of environment variables of \<open>node-env\<close>: \<open>lib/keyprocessor.js\<close>,
  \<open>lib/sysinfo.js\<close> and the view that \<open>server.js\<close> builds from them. The random
  colours are a parameter: the sequence of the numbers
  \<open>Math.floor(Math.random() * 16777215)\<close>, of which a counter says how many were drawn.
\<close>

section \<open>keyprocessor.js\<close>

definition hex_digit :: "nat \<Rightarrow> char" where
  "hex_digit d = (if d < 10 then digit d else char_of (87 + d))"

text \<open>\<open>n.toString(16)\<close>\<close>

fun to_hex :: "nat \<Rightarrow> string" where
  "to_hex n = (if n < 16 then [hex_digit n] else to_hex (n div 16) @ [hex_digit (n mod 16)])"

declare to_hex.simps [simp del]

definition path_span :: "nat \<Rightarrow> string \<Rightarrow> string" where
  "path_span colour s =
     ''<span style='' @ [CHR 0x22] @ ''color: #'' @ to_hex colour @ [CHR 0x22] @ ''>'' @ s @ ''</span>''"

definition procPath :: "(nat \<Rightarrow> nat) \<Rightarrow> nat \<Rightarrow> string \<Rightarrow> nat \<times> string" where
  "procPath rnd k val =
     (let values = js_split (lit '':'') val in
      (k + length values,
       js_join ''</br>'' (map (\<lambda>(i, s). path_span (rnd (k + i)) s) (zip [0..<length values] values))))"

text \<open>
  The texts \<open>JSON.parse\<close> accepts. Each function returns the rest after what it reads, the
  fuel bounds the number of calls.
\<close>

definition json_ws :: "string \<Rightarrow> string" where
  "json_ws s = dropWhile (\<lambda>c. c \<in> {CHR 0x20, CHR 0x09, CHR 0x0A, CHR 0x0D}) s"

fun json_chars :: "string \<Rightarrow> string option" where
  "json_chars [] = None"
| "json_chars (c # s) =
     (if c = CHR 0x22 then Some s
      else if of_char c < (0x20 :: nat) then None
      else if c = CHR 0x5C then
        (case s of
           [] \<Rightarrow> None
         | e # s1 \<Rightarrow>
             if e \<in> set ([CHR 0x22, CHR 0x5C] @ ''/bfnrt'') then json_chars s1
             else if e = CHR ''u'' then
               (case s1 of
                  h1 # h2 # h3 # h4 # s2 \<Rightarrow>
                    if list_all (\<lambda>h. h \<in> set ''0123456789abcdefABCDEF'') [h1, h2, h3, h4]
                    then json_chars s2 else None
                | _ \<Rightarrow> None)
             else None)
      else json_chars s)"

definition is_digit :: "char \<Rightarrow> bool" where
  "is_digit c \<longleftrightarrow> c \<in> set ''0123456789''"

definition json_digits :: "string \<Rightarrow> string option" where
  "json_digits s = (case s of c # s' \<Rightarrow> if is_digit c then Some (dropWhile is_digit s') else None | [] \<Rightarrow> None)"

definition json_number :: "string \<Rightarrow> string option" where
  "json_number s =
     (let s0 = (case s of CHR ''-'' # t \<Rightarrow> t | _ \<Rightarrow> s);
          int = (case s0 of CHR ''0'' # t \<Rightarrow> Some t | _ \<Rightarrow> json_digits s0);
          frac = Option.bind int (\<lambda>t. case t of CHR ''.'' # u \<Rightarrow> json_digits u | _ \<Rightarrow> Some t)
      in Option.bind frac (\<lambda>t. case t of
           c # u \<Rightarrow> if c = CHR ''e'' \<or> c = CHR ''E''
                      then json_digits (case u of d # w \<Rightarrow> if d = CHR ''+'' \<or> d = CHR ''-'' then w else u | [] \<Rightarrow> u)
                      else Some t
         | [] \<Rightarrow> Some t))"

definition json_word :: "string \<Rightarrow> string \<Rightarrow> string option" where
  "json_word w s = (if take (length w) s = w then Some (drop (length w) s) else None)"

fun json_value :: "nat \<Rightarrow> string \<Rightarrow> string option"
  and json_elems :: "nat \<Rightarrow> string \<Rightarrow> string option"
  and json_members :: "nat \<Rightarrow> string \<Rightarrow> string option" where
  "json_value 0 s = None"
| "json_value (Suc n) s =
     (case json_ws s of
        [] \<Rightarrow> None
      | c # t \<Rightarrow>
          if c = CHR 0x22 then json_chars t
          else if c = CHR ''['' then (case json_ws t of CHR '']'' # u \<Rightarrow> Some u | _ \<Rightarrow> json_elems n t)
          else if c = CHR ''{'' then (case json_ws t of CHR ''}'' # u \<Rightarrow> Some u | _ \<Rightarrow> json_members n t)
          else if c = CHR ''t'' then json_word ''rue'' t
          else if c = CHR ''f'' then json_word ''alse'' t
          else if c = CHR ''n'' then json_word ''ull'' t
          else json_number (c # t))"
| "json_elems 0 s = None"
| "json_elems (Suc n) s =
     Option.bind (json_value n s) (\<lambda>t. case json_ws t of
        c # u \<Rightarrow> if c = CHR '']'' then Some u else if c = CHR '','' then json_elems n u else None
      | [] \<Rightarrow> None)"
| "json_members 0 s = None"
| "json_members (Suc n) s =
     (case json_ws s of
        c # t \<Rightarrow> if c \<noteq> CHR 0x22 then None
          else Option.bind (json_chars t) (\<lambda>u. case json_ws u of
            d # w \<Rightarrow> if d \<noteq> CHR '':'' then None
              else Option.bind (json_value n w) (\<lambda>x. case json_ws x of
                e # y \<Rightarrow> if e = CHR ''}'' then Some y else if e = CHR '','' then json_members n y else None
              | [] \<Rightarrow> None)
          | [] \<Rightarrow> None)
      | [] \<Rightarrow> None)"

definition json_ok :: "string \<Rightarrow> bool" where
  "json_ok s \<longleftrightarrow> (case json_value (2 * length s + 2) s of None \<Rightarrow> False | Some t \<Rightarrow> json_ws t = [])"

definition procJSON :: "string \<Rightarrow> js_error + string" where
  "procJSON str = (if json_ok str then Inr str else Inl SyntaxError)"

text \<open>\<open>val.replace(/\r/g, "").replace(/\n/g, "<br/>")\<close>\<close>

fun html_lines :: "string \<Rightarrow> string" where
  "html_lines [] = []"
| "html_lines (c # s) =
     (if c = CHR 0x0D then html_lines s
      else if c = CHR 0x0A then ''<br/>'' @ html_lines s
      else c # html_lines s)"

text \<open>
  \<open>knownKeys\<close> is a plain object: a key that such objects inherit is called, too.
\<close>

definition procKey :: "js_env \<Rightarrow> (nat \<Rightarrow> nat) \<Rightarrow> nat \<Rightarrow> string \<Rightarrow> string \<Rightarrow> nat \<times> (js_error + jsval)" where
  "procKey E rnd k key0 val0 =
     (let key = map to_lower key0; val = html_lines val0 in
      if key = ''path'' then (case procPath rnd k val of (k', s) \<Rightarrow> (k', Inr (Str s)))
      else if key = ''vmc_app_instance'' then (k, map_sum id Str (procJSON val))
      else let p = env_proto E (Obj []) key in
        if truthy p then (k, env_foreign E p (Some (Str val))) else (k, Inr (Str val)))"

section \<open>sysinfo.js\<close>

text \<open>\<open>Math.floor(Math.log(bytes) / Math.log(1024))\<close>, with the quotient taken as exact.\<close>

fun log1024 :: "nat \<Rightarrow> nat" where
  "log1024 n = (if n < 1024 then 0 else Suc (log1024 (n div 1024)))"

declare log1024.simps [simp del]

definition sizes :: "string list" where
  "sizes = [''Bytes'', ''KB'', ''MB'', ''GB'', ''TB'']"

text \<open>\<open>Math.round(a / b)\<close>: the second argument that the code gives is ignored.\<close>

definition round_div :: "nat \<Rightarrow> nat \<Rightarrow> nat" where
  "round_div a b = (2 * a + b) div (2 * b)"

definition bytesToSize :: "nat \<Rightarrow> string" where
  "bytesToSize bytes =
     (if bytes = 0 then ''n/a''
      else let i = log1024 bytes in
        nat_dec (round_div bytes (1024 ^ i)) @ '' '' @ (if i < length sizes then sizes ! i else ''undefined''))"

definition hms :: "rat \<Rightarrow> int \<times> int \<times> int" where
  "hms secs =
     (let hours = \<lfloor>secs / (60 * 60)\<rfloor>;
          divisor_for_minutes = secs - of_int hours * (60 * 60);
          minutes = \<lfloor>divisor_for_minutes / 60\<rfloor>;
          divisor_for_seconds = divisor_for_minutes - of_int minutes * 60
      in (hours, minutes, \<lceil>divisor_for_seconds\<rceil>))"

definition secondsToTime :: "rat \<Rightarrow> string" where
  "secondsToTime secs =
     (case hms secs of (h, m, s) \<Rightarrow>
        nat_dec (nat h) @ '' hours, '' @ nat_dec (nat m) @ '' minutes, '' @ nat_dec (nat s) @ '' seconds'')"

text \<open>What \<open>require("os")\<close> answers.\<close>

record os_info =
  os_platform :: string
  os_arch :: string
  os_hostname :: string
  os_uptime :: rat
  os_loadavg :: "jsval list"
  os_freemem :: nat
  os_totalmem :: nat

definition sysInfo :: "os_info \<Rightarrow> jsval" where
  "sysInfo os = Arr
     [Arr [Str ''Platform'', Str (os_platform os @ '' '' @ os_arch os)],
      Arr [Str ''Hostname'', Str (os_hostname os)],
      Arr [Str ''Uptime'', Str (secondsToTime (os_uptime os))],
      Arr [Str ''Load average'', Arr (os_loadavg os)],
      Arr [Str ''Free memory'', Str (bytesToSize (os_freemem os) @ '' / '' @ bytesToSize (os_totalmem os))]]"

section \<open>The view of the page\<close>

fun env_items :: "js_env \<Rightarrow> (nat \<Rightarrow> nat) \<Rightarrow> nat \<Rightarrow> (string \<times> string) list \<Rightarrow> js_error + jsval list" where
  "env_items E rnd k [] = Inr []"
| "env_items E rnd k ((item, val) # rest) =
     (case procKey E rnd k item val of
        (k', Inl e) \<Rightarrow> Inl e
      | (k', Inr x) \<Rightarrow>
          bindr (env_items E rnd k' rest)
            (\<lambda>xs. Inr (Obj [(''key'', Str item), (''value'', x)] # xs)))"

definition page_view :: "js_env \<Rightarrow> (nat \<Rightarrow> nat) \<Rightarrow> os_info \<Rightarrow> (string \<times> string) list \<Rightarrow> js_error + jsval" where
  "page_view E rnd os penv =
     bindr (env_items E rnd 0 penv) (\<lambda>xs. Inr (Obj [(''env'', Arr xs), (''sys'', sysInfo os)]))"

section \<open>What the page shows\<close>

lemma js_split_char:
  "js_split (lit [c]) [] = [[]]"
  "js_split (lit [c]) (d # s) =
     (if d = c then [] # js_split (lit [c]) s
      else (d # hd (js_split (lit [c]) s)) # tl (js_split (lit [c]) s))"
  by (simp_all add: js_split.simps [of "[One (Ch c)]" "[]"] js_split.simps [of "[One (Ch c)]" "d # s"]
      js_split.simps [of "[One (Ch c)]" s] split: option.split)

lemma js_join_split_char: "js_join [n] (js_split (lit [c]) s) = map (\<lambda>d. if d = c then n else d) s"
proof (induction s)
  case (Cons d s)
  obtain u us where "js_split (lit [c]) s = u # us" by (cases "js_split (lit [c]) s") simp_all
  with Cons show ?case by (cases us) (simp_all add: js_split_char del: lit_simps)
qed (simp add: js_split_char del: lit_simps)

text \<open>The text a reader sees: tags are dropped, \<open></br>\<close> and \<open><br/>\<close> break the line.\<close>

fun visible :: "string option \<Rightarrow> string \<Rightarrow> string" where
  "visible tag [] = []"
| "visible None (c # s) = (if c = CHR ''<'' then visible (Some []) s else c # visible None s)"
| "visible (Some t) (c # s) =
     (if c = CHR ''>'' then (if t = ''/br'' \<or> t = ''br/'' then [CHR 0x0A] else []) @ visible None s
      else visible (Some (t @ [c])) s)"

lemma visible_text: "CHR ''<'' \<notin> set u \<Longrightarrow> visible None (u @ s) = u @ visible None s"
  by (induction u) auto

lemma visible_tag: "CHR ''>'' \<notin> set u \<Longrightarrow>
    visible (Some t) (u @ CHR ''>'' # s) = (if t @ u = ''/br'' \<or> t @ u = ''br/'' then [CHR 0x0A] else []) @ visible None s"
  by (induction u arbitrary: t) auto

lemma hex_digit_not_gt: "d < 16 \<Longrightarrow> hex_digit d \<noteq> CHR ''>''"
proof -
  assume "d < 16"
  then have "d \<in> set [0..<16]" by simp
  moreover have "list_all (\<lambda>d. hex_digit d \<noteq> CHR ''>'') [0..<16]" by code_simp
  ultimately show ?thesis unfolding list_all_iff by blast
qed

lemma to_hex_not_gt: "CHR ''>'' \<notin> set (to_hex n)"
proof (induction n rule: to_hex.induct)
  case (1 n)
  show ?case
  proof (cases "n < 16")
    case True
    then have "to_hex n = [hex_digit n]" by (simp add: to_hex.simps [of n])
    with hex_digit_not_gt [OF True] show ?thesis by (simp add: eq_commute)
  next
    case False
    then have "to_hex n = to_hex (n div 16) @ [hex_digit (n mod 16)]" by (simp add: to_hex.simps [of n])
    moreover have "hex_digit (n mod 16) \<noteq> CHR ''>''" by (rule hex_digit_not_gt) simp
    ultimately show ?thesis using 1 [OF False] by (metis UnE list.set_cases set_append set_ConsD list.distinct(1) empty_iff empty_set)
  qed
qed

lemma visible_span: "CHR ''<'' \<notin> set u \<Longrightarrow> visible None (path_span k u @ s) = u @ visible None s"
proof -
  assume u: "CHR ''<'' \<notin> set u"
  let ?t = "''span style='' @ [CHR 0x22] @ ''color: #'' @ to_hex k @ [CHR 0x22]"
  from to_hex_not_gt [of k] have t: "CHR ''>'' \<notin> set ?t" by simp
  have "visible None (path_span k u @ s) = visible (Some []) (?t @ CHR ''>'' # u @ ''</span>'' @ s)"
    by (simp add: path_span_def)
  also have "\<dots> = visible None (u @ ''</span>'' @ s)" by (subst visible_tag [OF t]) simp
  also have "\<dots> = u @ visible None s" using u by (simp add: visible_text)
  finally show ?thesis .
qed

lemma visible_spans:
  "list_all (\<lambda>u. CHR ''<'' \<notin> set u) us \<Longrightarrow>
     visible None (js_join ''</br>'' (map (\<lambda>(i, s). path_span (f i) s) (zip [m..<m + length us] us))) =
     js_join [CHR 0x0A] us"
proof (induction us arbitrary: m)
  case (Cons u us)
  have z: "zip [m..<m + length (u # us)] (u # us) = (m, u) # zip [Suc m..<Suc m + length us] us"
    by (simp add: upt_conv_Cons del: upt_Suc)
  show ?case
  proof (cases us)
    case Nil
    with Cons.prems visible_span [of u "f m" "[]"] show ?thesis by simp
  next
    case (Cons v vs)
    have "zip [Suc m..<Suc m + length us] us = (Suc m, v) # zip [Suc (Suc m)..<Suc m + length us] vs"
      using Cons by (simp add: upt_conv_Cons del: upt_Suc)
    with Cons.IH [of "Suc m"] Cons.prems Cons show ?thesis unfolding z
      by (simp add: visible_span del: upt_Suc)
  qed
qed simp

lemma js_split_chars: "u \<in> set (js_split (lit [c]) s) \<Longrightarrow> set u \<subseteq> set s"
proof (induction s arbitrary: u)
  case (Cons d s)
  obtain v vs where "js_split (lit [c]) s = v # vs" by (cases "js_split (lit [c]) s") simp_all
  with Cons.IH Cons.prems show ?case
    by (fastforce simp: js_split_char simp del: lit_simps split: if_splits)
qed (simp add: js_split_char del: lit_simps)

text \<open>What a reader sees of a PATH without markup is PATH itself with each colon turned into a
  line break: \<open>procPath\<close> loses, adds and reorders nothing, whatever colours are drawn.\<close>

theorem procPath_visible:
  assumes "CHR ''<'' \<notin> set val"
  shows "visible None (snd (procPath rnd k val)) = map (\<lambda>c. if c = CHR '':'' then CHR 0x0A else c) val"
proof -
  let ?us = "js_split (lit '':'') val"
  have "list_all (\<lambda>u. CHR ''<'' \<notin> set u) ?us"
    using assms js_split_chars [of _ "CHR '':''" val] unfolding list_all_iff by blast
  from visible_spans [OF this, of "\<lambda>i. rnd (k + i)" 0] show ?thesis
    using js_join_split_char [of "CHR 0x0A" "CHR '':''" val]
    by (simp add: procPath_def Let_def del: lit_simps)
qed

theorem procPath_visible_witness:
  "visible None (snd (procPath (\<lambda>i. 255) 0 ''/bin:/usr/bin'')) =
     ''/bin'' @ [CHR 0x0A] @ ''/usr/bin''"
proof -
  have "CHR ''<'' \<notin> set ''/bin:/usr/bin''" by simp
  from procPath_visible [OF this, of "\<lambda>i. 255" 0] show ?thesis by simp
qed

lemma visible_html_lines: "CHR ''<'' \<notin> set s \<Longrightarrow> visible None (html_lines s) = filter (\<lambda>c. c \<noteq> CHR 0x0D) s"
  by (induction s) auto

lemma html_lines_one_line: "set (html_lines s) \<inter> {CHR 0x0D, CHR 0x0A} = {}"
  by (induction s) auto

text \<open>Any other variable is passed on as it is, without escaping: the value loses its carriage
  returns, every newline becomes a break, and what a reader sees of a value without markup is
  the value itself.\<close>

theorem procKey_other:
  assumes "map to_lower key \<notin> {''path'', ''vmc_app_instance''}"
    "env_proto E (Obj []) (map to_lower key) = Undef" "CHR ''<'' \<notin> set val"
  shows "\<exists>s. procKey E rnd k key val = (k, Inr (Str s)) \<and> set s \<inter> {CHR 0x0D, CHR 0x0A} = {} \<and>
    visible None s = filter (\<lambda>c. c \<noteq> CHR 0x0D) val"
  using assms html_lines_one_line [of val] visible_html_lines [of val]
  by (simp add: procKey_def Let_def)

theorem procKey_other_witness:
  "\<exists>s. procKey no_proto_env (\<lambda>i. 0) 0 ''HOME'' [CHR ''a'', CHR 0x0A, CHR ''b''] = (0, Inr (Str s)) \<and>
     set s \<inter> {CHR 0x0D, CHR 0x0A} = {} \<and> visible None s = [CHR ''a'', CHR 0x0A, CHR ''b'']"
proof -
  have 1: "map to_lower ''HOME'' \<notin> {''path'', ''vmc_app_instance''}" by code_simp
  have 2: "env_proto no_proto_env (Obj []) (map to_lower ''HOME'') = Undef" by (simp add: no_proto_env_def)
  from procKey_other [OF 1 2, of "[CHR ''a'', CHR 0x0A, CHR ''b'']" "\<lambda>i. 0" 0] show ?thesis by simp
qed

text \<open>A value of several lines that is valid JSON is not valid any more when \<open>JSON.parse\<close> gets
  it: the newlines have been replaced before.\<close>

lemma multiline_json_throws:
  "json_ok ([CHR 0x7B, CHR 0x0A] @ [CHR 0x22, CHR ''a'', CHR 0x22] @ '':1}'') \<and>
   procKey no_proto_env (\<lambda>i. 0) 0 ''VMC_APP_INSTANCE''
     ([CHR 0x7B, CHR 0x0A] @ [CHR 0x22, CHR ''a'', CHR 0x22] @ '':1}'') = (0, Inl SyntaxError)"
  by code_simp

section \<open>Colours, sizes and times\<close>

lemma length_to_hex: "length (to_hex n) \<le> Suc k \<longleftrightarrow> n < 16 ^ Suc k"
proof (induction k arbitrary: n)
  case 0
  show ?case by (cases "n < 16") (simp_all add: to_hex.simps [of n], simp add: to_hex.simps [of "n div 16"])
next
  case (Suc k)
  show ?case
  proof (cases "n < 16")
    case True
    then have "n < 16 ^ Suc (Suc k)" by (rule less_le_trans) simp
    with True show ?thesis by (simp add: to_hex.simps [of n])
  next
    case False
    then have "length (to_hex n) \<le> Suc (Suc k) \<longleftrightarrow> n div 16 < 16 ^ Suc k"
      using Suc [of "n div 16"] by (simp add: to_hex.simps [of n])
    also have "\<dots> \<longleftrightarrow> n < 16 ^ Suc (Suc k)" by (simp add: div_less_iff_less_mult mult.commute)
    finally show ?thesis .
  qed
qed

text \<open>The colour of a path component has the six digits of a colour exactly when the number drawn
  is at least 16^5; one draw in sixteen gives fewer, because \<open>toString(16)\<close> does not pad.\<close>

theorem colour_has_six_digits:
  assumes "n < 16777215"
  shows "length (to_hex n) = 6 \<longleftrightarrow> 1048576 \<le> n"
  using assms length_to_hex [of n 5] length_to_hex [of n 4] by auto

theorem colour_has_six_digits_witness: "length (to_hex 1048575) \<noteq> 6"
  using colour_has_six_digits [of 1048575] by simp

lemma log1024_bounds: "0 < n \<Longrightarrow> 1024 ^ log1024 n \<le> n \<and> n < 1024 ^ Suc (log1024 n)"
proof (induction n rule: log1024.induct)
  case (1 n)
  show ?case
  proof (cases "n < 1024")
    case True
    with 1 show ?thesis by (simp add: log1024.simps [of n])
  next
    case False
    then have "0 < n div 1024" by (simp add: div_greater_zero_iff)
    from 1(1) [OF False this]
    have "1024 ^ log1024 (n div 1024) \<le> n div 1024" "n div 1024 < 1024 ^ Suc (log1024 (n div 1024))" by auto
    then have "1024 * 1024 ^ log1024 (n div 1024) \<le> n" "n < 1024 * 1024 ^ Suc (log1024 (n div 1024))"
      by (auto simp: less_eq_div_iff_mult_less_eq div_less_iff_less_mult mult.commute)
    with False show ?thesis by (simp add: log1024.simps [of n])
  qed
qed

lemma log1024_less: "0 < n \<Longrightarrow> log1024 n < k \<longleftrightarrow> n < 1024 ^ k"
proof
  assume n: "0 < n"
  { assume "log1024 n < k"
    then have "(1024::nat) ^ Suc (log1024 n) \<le> 1024 ^ k" by (intro power_increasing) auto
    with log1024_bounds [OF n] show "n < 1024 ^ k" by linarith }
  { assume "n < 1024 ^ k"
    with log1024_bounds [OF n] have "(1024::nat) ^ log1024 n < 1024 ^ k" by linarith
    then show "log1024 n < k" by (simp add: power_strict_increasing_iff) }
qed

text \<open>\<open>bytesToSize\<close> gives the count in the largest unit that fits, rounded to the nearest whole
  number (between 1 and 1024), and the unit reads \<open>undefined\<close> from 1024^5 bytes on.\<close>

theorem bytesToSize_rounds:
  assumes "0 < bytes"
  shows "\<exists>q unit. bytesToSize bytes = nat_dec q @ '' '' @ (if bytes < 1024 ^ 5 then sizes ! log1024 bytes else ''undefined'') \<and>
    unit = 1024 ^ log1024 bytes \<and> unit \<le> bytes \<and> bytes < 1024 * unit \<and>
    2 * q * unit \<le> 2 * bytes + unit \<and> 2 * bytes < 2 * q * unit + unit \<and> 1 \<le> q \<and> q \<le> 1024"
proof -
  define u :: nat where "u = 1024 ^ log1024 bytes"
  define q where "q = round_div bytes u"
  have u: "0 < u" "u \<le> bytes" "bytes < 1024 * u"
    using log1024_bounds [OF assms] by (simp_all add: u_def)
  have q: "2 * q * u \<le> 2 * bytes + u" "2 * bytes + u < 2 * q * u + 2 * u"
  proof -
    have d: "(2 * bytes + u) div (2 * u) * (2 * u) + (2 * bytes + u) mod (2 * u) = 2 * bytes + u"
      by (rule div_mult_mod_eq)
    moreover have "(2 * bytes + u) mod (2 * u) < 2 * u" using u(1) by simp
    moreover have qu: "2 * q * u = (2 * bytes + u) div (2 * u) * (2 * u)"
      by (simp only: q_def round_div_def mult.commute mult.assoc mult.left_commute)
    ultimately show "2 * q * u \<le> 2 * bytes + u" "2 * bytes + u < 2 * q * u + 2 * u"
      using qu by linarith+
  qed
  have "1 \<le> q" using q(2) u by (cases q) auto
  moreover have "q \<le> 1024"
  proof (rule ccontr)
    assume "\<not> q \<le> 1024"
    then have "1025 * u \<le> q * u" by (intro mult_right_mono) auto
    with q(1) u show False by linarith
  qed
  moreover have "bytesToSize bytes =
      nat_dec q @ '' '' @ (if bytes < 1024 ^ 5 then sizes ! log1024 bytes else ''undefined'')"
  proof -
    have "length sizes = 5" by (simp add: sizes_def)
    with assms log1024_less [OF assms, of 5] show ?thesis
      by (simp add: bytesToSize_def Let_def q_def u_def)
  qed
  ultimately show ?thesis using u q u_def by (intro exI [of _ q] exI [of _ u]) auto
qed

theorem bytesToSize_rounds_witness:
  "\<exists>q. bytesToSize 1125899906842624 = nat_dec q @ '' '' @ ''undefined''"
  using bytesToSize_rounds [of 1125899906842624] by auto

text \<open>The hours, minutes and seconds shown add up to the uptime rounded up to a second, with less
  than 60 minutes; the seconds may read 60, when less than one is missing to the full minute.\<close>

theorem hms_adds_up:
  assumes "0 \<le> secs"
  shows "case hms secs of (h, m, s) \<Rightarrow>
    3600 * h + 60 * m + s = \<lceil>secs\<rceil> \<and> 0 \<le> h \<and> 0 \<le> m \<and> m < 60 \<and> 0 \<le> s \<and> s \<le> 60 \<and> (secs \<in> \<int> \<longrightarrow> s < 60)"
proof -
  define h where "h = \<lfloor>secs / 3600\<rfloor>"
  define d where "d = secs - of_int h * 3600"
  define m where "m = \<lfloor>d / 60\<rfloor>"
  define e where "e = d - of_int m * 60"
  have h: "of_int h \<le> secs / 3600" "secs / 3600 < of_int h + 1" unfolding h_def by linarith+
  then have d: "0 \<le> d" "d < 3600" unfolding d_def by (auto simp: field_simps)
  have m: "of_int m \<le> d / 60" "d / 60 < of_int m + 1" unfolding m_def by linarith+
  then have e: "0 \<le> e" "e < 60" unfolding e_def by (auto simp: field_simps)
  have hms: "hms secs = (h, m, \<lceil>e\<rceil>)" by (simp add: hms_def Let_def h_def d_def m_def e_def)
  have sum: "secs = e + of_int (3600 * h + 60 * m)" by (simp add: e_def d_def)
  have "\<lceil>secs\<rceil> = \<lceil>e\<rceil> + (3600 * h + 60 * m)" unfolding sum by (rule ceiling_add_of_int)
  moreover have "0 \<le> h" using assms by (simp add: h_def)
  moreover have "0 \<le> m" using d by (simp add: m_def)
  moreover have "of_int m < (60 :: rat)" using m d by linarith
  then have "m < 60" by simp
  moreover have "0 \<le> \<lceil>e\<rceil>" "\<lceil>e\<rceil> \<le> 60" using e by (simp_all add: ceiling_le_iff)
  moreover have "\<lceil>e\<rceil> < 60" if "secs \<in> \<int>"
  proof -
    from that have "e \<in> \<int>" unfolding e_def d_def by (intro Ints_diff Ints_mult Ints_of_int) auto
    then obtain k where "e = of_int k" by (auto elim: Ints_cases)
    with e show ?thesis by simp
  qed
  ultimately show ?thesis by (simp add: hms)
qed

theorem hms_adds_up_witness: "case hms 119 of (h, m, s) \<Rightarrow> 3600 * h + 60 * m + s = 119"
  using hms_adds_up [of 119] by (auto split: prod.splits)

lemma sixty_seconds: "secondsToTime (119 / 2) = ''0 hours, 0 minutes, 60 seconds''"
  by code_simp

end
