(* ===== verification/EnvServer.thy ===== *)
theory EnvServer
  imports EnvPage
begin

text \<open>
  \<open>server.js\<close> of \<open>node-env\<close>: what happens to one request. The three callbacks
  (of \<open>fs.exists\<close> and of the two \<open>fs.readFile\<close>) are jobs; a step runs any pending
  job, so every order in which the file system may answer is a run. The response is the list of
  the calls made on it. An exception that escapes a callback ends the process.
\<close>

section \<open>The world of a request\<close>

datatype fnode = File string | Dir

text \<open>\<open>wd_fs\<close> is what the system says of a path, given as its components.\<close>

record world =
  wd_cwd :: "string list"
  wd_fs :: "string list \<Rightarrow> fnode option"
  wd_err :: "string list \<Rightarrow> string"
  wd_env :: "(string \<times> string) list"
  wd_os :: os_info
  wd_js :: js_env
  wd_rnd :: "nat \<Rightarrow> nat"
  wd_fuel :: nat

datatype job = ExistsCb | PageCb jsval | StaticCb "string list"

datatype call = WriteHead nat "string option" | Write string | End jsval

record request =
  rq_jobs :: "job list"
  rq_calls :: "call list"
  rq_writer :: wstate
  rq_error :: "js_error option"

text \<open>\<open>path.join(base, p)\<close>, a trailing slash being an empty last component.\<close>

definition join_seg :: "string list \<Rightarrow> string \<Rightarrow> string list" where
  "join_seg segs s = (if s = [] \<or> s = ''.'' then segs else if s = ''..'' then butlast segs else segs @ [s])"

definition path_join :: "string list \<Rightarrow> string \<Rightarrow> string list" where
  "path_join base p =
     (let r = foldl join_seg [] (base @ js_split (lit ''/'') p)
      in if p \<noteq> [] \<and> last p = CHR ''/'' \<and> r \<noteq> [] then r @ [[]] else r)"

definition read_file :: "world \<Rightarrow> string list \<Rightarrow> string option" where
  "read_file W f = (case wd_fs W f of Some (File s) \<Rightarrow> Some s | _ \<Rightarrow> None)"

definition is_css :: "string \<Rightarrow> bool" where
  "is_css uri \<longleftrightarrow> length uri \<ge> 3 \<and> drop (length uri - 3) uri = ''css''"

section \<open>The callbacks\<close>

definition exists_cb :: "world \<Rightarrow> string \<Rightarrow> request \<Rightarrow> request" where
  "exists_cb W uri s =
     (let filename = path_join (wd_cwd W) uri in
      case wd_fs W filename of
        None \<Rightarrow> s\<lparr>rq_calls := rq_calls s @
          [WriteHead 404 (Some ''text/plain''), Write (''404 Not Found'' @ [CHR 0x0A]), End Undef]\<rparr>
      | Some node \<Rightarrow>
          (case (if uri = ''/''
                 then bindr (page_view (wd_js W) (wd_rnd W) (wd_os W) (wd_env W)) (\<lambda>v. Inr [PageCb v])
                 else Inr []) of
             Inl e \<Rightarrow> s\<lparr>rq_error := Some e\<rparr>
           | Inr page \<Rightarrow>
               s\<lparr>rq_jobs := rq_jobs s @ page @
                  [StaticCb (if node = Dir then filename @ [''index.html''] else filename)]\<rparr>))"

text \<open>
  \<open>mustache.to_html(data, v)\<close> on the default writer, where \<open>data\<close> is undefined if the
  page could not be read. Running out of fuel is the stack overflow of the runtime.
\<close>

definition page_html :: "world \<Rightarrow> string option \<Rightarrow> jsval \<Rightarrow> wstate \<Rightarrow> wstate \<times> (js_error + jsval)" where
  "page_html W data v st =
     (let out = (case data of
           Some template \<Rightarrow> render (wd_js W) (wd_fuel W) template (RView v) NoPartials st
         | None \<Rightarrow> (case obj_get (w_cache st) ''undefined'' of
               Some fn \<Rightarrow> call_fn (wd_js W) (wd_fuel W) NoPartials fn (RView v) st
             | None \<Rightarrow> Some (st, Inl TypeError)))
      in case out of None \<Rightarrow> (st, Inl RangeError) | Some r \<Rightarrow> r)"

definition page_cb :: "world \<Rightarrow> string \<Rightarrow> jsval \<Rightarrow> request \<Rightarrow> request" where
  "page_cb W uri v s =
     (let t = path_join (path_join (wd_cwd W) uri) ''/index.html'' in
      case page_html W (read_file W t) v (rq_writer s) of
        (st, Inl e) \<Rightarrow> s\<lparr>rq_writer := st, rq_error := Some e\<rparr>
      | (st, Inr html) \<Rightarrow>
          s\<lparr>rq_writer := st, rq_calls := rq_calls s @ [WriteHead 200 None, End html]\<rparr>)"

definition static_cb :: "world \<Rightarrow> string \<Rightarrow> string list \<Rightarrow> request \<Rightarrow> request" where
  "static_cb W uri filename s =
     s\<lparr>rq_calls := rq_calls s @
       (case read_file W filename of
          None \<Rightarrow> [WriteHead 500 (Some ''text/plain''), Write (wd_err W filename @ [CHR 0x0A]), End Undef]
        | Some file \<Rightarrow> [WriteHead 200 (if is_css uri then Some ''text/css'' else None), End (Str file)])\<rparr>"

fun run_job :: "world \<Rightarrow> string \<Rightarrow> job \<Rightarrow> request \<Rightarrow> request" where
  "run_job W uri ExistsCb s = exists_cb W uri s"
| "run_job W uri (PageCb v) s = page_cb W uri v s"
| "run_job W uri (StaticCb f) s = static_cb W uri f s"

definition accept_request :: "wstate \<Rightarrow> request" where
  "accept_request st = \<lparr>rq_jobs = [ExistsCb], rq_calls = [], rq_writer = st, rq_error = None\<rparr>"

inductive server_step :: "world \<Rightarrow> string \<Rightarrow> request \<Rightarrow> request \<Rightarrow> bool" for W uri where
  run: "rq_error s = None \<Longrightarrow> i < length (rq_jobs s) \<Longrightarrow>
    server_step W uri s (run_job W uri (rq_jobs s ! i) (s\<lparr>rq_jobs := splice1 i (rq_jobs s)\<rparr>))"

inductive_cases server_stepE: "server_step W uri s t"

definition server_reach :: "world \<Rightarrow> string \<Rightarrow> request \<Rightarrow> request \<Rightarrow> bool" where
  "server_reach W uri = (server_step W uri)\<^sup>*\<^sup>*"

section \<open>How often a request is answered\<close>

fun is_head :: "call \<Rightarrow> bool" where
  "is_head (WriteHead c t) = True"
| "is_head _ = False"

fun is_end :: "call \<Rightarrow> bool" where
  "is_end (End v) = True"
| "is_end _ = False"

definition answers_of :: "world \<Rightarrow> string \<Rightarrow> nat" where
  "answers_of W uri = (if uri = ''/'' \<and> wd_fs W (path_join (wd_cwd W) uri) \<noteq> None then 2 else 1)"

fun job_answers :: "world \<Rightarrow> string \<Rightarrow> job \<Rightarrow> nat" where
  "job_answers W uri ExistsCb = answers_of W uri"
| "job_answers W uri _ = 1"

definition answers_inv :: "world \<Rightarrow> string \<Rightarrow> request \<Rightarrow> bool" where
  "answers_inv W uri s \<longleftrightarrow> rq_error s = None \<longrightarrow>
     (\<forall>p \<in> {is_head, is_end}.
        length (filter p (rq_calls s)) + sum_list (map (job_answers W uri) (rq_jobs s)) = answers_of W uri)"

lemma sum_list_splice1:
  "i < length xs \<Longrightarrow> sum_list (map f xs) = f (xs ! i) + sum_list (map f (splice1 i xs))" for f :: "_ \<Rightarrow> nat"
proof -
  assume "i < length xs"
  then have "xs = take i xs @ xs ! i # drop (Suc i) xs" by (rule id_take_nth_drop)
  then have "sum_list (map f xs) = sum_list (map f (take i xs @ xs ! i # drop (Suc i) xs))" by metis
  then show ?thesis by (simp add: splice1_def)
qed

lemma server_step_answers:
  assumes "server_step W uri s t" "answers_inv W uri s"
  shows "answers_inv W uri t"
  using assms(1)
proof cases
  case (run i)
  let ?j = "rq_jobs s ! i" let ?s = "s\<lparr>rq_jobs := splice1 i (rq_jobs s)\<rparr>"
  have inv: "length (filter p (rq_calls ?s)) + (job_answers W uri ?j + sum_list (map (job_answers W uri) (rq_jobs ?s))) =
      answers_of W uri" if "p \<in> {is_head, is_end}" for p
    using assms(2) run(2,3) that by (auto simp: answers_inv_def sum_list_splice1 [OF run(3)])
  note h = inv [of is_head, simplified] inv [of is_end, simplified]
  show ?thesis
  proof (cases ?j)
    case ExistsCb
    with h show ?thesis unfolding run(1)
      by (auto simp: answers_inv_def exists_cb_def Let_def answers_of_def bindr_def split: option.splits sum.splits)
  next
    case (PageCb v)
    with h show ?thesis unfolding run(1)
      by (auto simp: answers_inv_def page_cb_def Let_def split: prod.splits sum.splits)
  next
    case (StaticCb f)
    with h show ?thesis unfolding run(1)
      by (auto simp: answers_inv_def static_cb_def split: option.splits)
  qed
qed

text \<open>C39: When all callbacks have run without an exception, a request has been answered once, with one
  head and one end, except the root: it is answered twice, because the branch that renders the
  page does not return before the file is also served statically.\<close>

theorem answers_per_request:
  assumes "server_reach W uri (accept_request st) s" "rq_jobs s = []" "rq_error s = None"
  shows "length (filter is_head (rq_calls s)) = answers_of W uri \<and>
    length (filter is_end (rq_calls s)) = answers_of W uri"
proof -
  have "(server_step W uri)\<^sup>*\<^sup>* (accept_request st) s" using assms(1) by (simp add: server_reach_def)
  then have "answers_inv W uri s"
  proof induction
    case base
    show ?case by (simp add: answers_inv_def accept_request_def)
  qed (rule server_step_answers)
  with assms(2,3) show ?thesis by (simp add: answers_inv_def)
qed

definition demo_world :: world where
  "demo_world = \<lparr>wd_cwd = [''home'', ''app''],
     wd_fs = (\<lambda>q. let p = filter (\<lambda>s. s \<noteq> []) q in if p = [''home'', ''app''] then Some Dir
        else if p = [''home'', ''app'', ''index.html''] then Some (File ''a{{b}}'')
        else if p = [''etc'', ''passwd''] then Some (File ''root'') else None),
     wd_err = (\<lambda>p. ''ENOENT''), wd_env = [],
     wd_os = \<lparr>os_platform = ''linux'', os_arch = ''x64'', os_hostname = ''h'', os_uptime = 0,
        os_loadavg = [], os_freemem = 0, os_totalmem = 0\<rparr>,
     wd_js = no_proto_env, wd_rnd = (\<lambda>i. 255), wd_fuel = 5\<rparr>"

theorem answers_per_request_witness:
  "\<exists>s. server_reach demo_world ''/missing'' (accept_request new_Writer) s \<and>
     length (filter is_head (rq_calls s)) = 1"
proof -
  let ?s0 = "accept_request new_Writer"
  let ?s1 = "exists_cb demo_world ''/missing'' (?s0\<lparr>rq_jobs := []\<rparr>)"
  have "server_step demo_world ''/missing'' ?s0 ?s1"
    using server_step.run [of ?s0 0 demo_world "''/missing''"] by (simp add: accept_request_def splice1_def)
  then have r: "server_reach demo_world ''/missing'' ?s0 ?s1" by (simp add: server_reach_def)
  have "rq_jobs ?s1 = [] \<and> rq_error ?s1 = None" by code_simp
  with answers_per_request [OF r] r show ?thesis
    by (intro exI [of _ ?s1]) (simp add: answers_of_def)
qed

text \<open>No request is left unanswered for want of a job: the jobs still to run bound the steps.\<close>

fun job_steps :: "job \<Rightarrow> nat" where
  "job_steps ExistsCb = 3"
| "job_steps _ = 1"

definition steps_left :: "request \<Rightarrow> nat" where
  "steps_left s = (if rq_error s = None then sum_list (map job_steps (rq_jobs s)) else 0)"

lemma server_step_decreases:
  assumes "server_step W uri s t"
  shows "steps_left t < steps_left s"
  using assms
proof cases
  case (run i)
  show ?thesis
    using run by (cases "rq_jobs s ! i")
      (auto simp: steps_left_def sum_list_splice1 [OF run(3)] exists_cb_def page_cb_def static_cb_def Let_def
        bindr_def split: option.splits sum.splits prod.splits)
qed

lemma server_step_enabled:
  "rq_error s = None \<Longrightarrow> rq_jobs s \<noteq> [] \<Longrightarrow> \<exists>t. server_step W uri s t"
  using server_step.run [of s 0 W uri] by blast



section \<open>Which files are served\<close>

lemma js_split_slash_segs:
  "list_all (\<lambda>s. CHR ''/'' \<notin> set s) segs \<Longrightarrow> segs \<noteq> [] \<Longrightarrow> js_split (lit ''/'') (js_join ''/'' segs) = segs"
proof (induction segs)
  case (Cons s segs)
  have one: "js_split (lit ''/'') (s @ CHR ''/'' # t) = s # js_split (lit ''/'') t" if "CHR ''/'' \<notin> set s" for s t
    using that by (induction s) (auto simp: js_split_char simp del: lit_simps)
  have none: "js_split (lit ''/'') s = [s]" if "CHR ''/'' \<notin> set s" for s
    using that by (induction s) (auto simp: js_split_char simp del: lit_simps)
  from Cons one none show ?case by (cases segs) (auto simp del: lit_simps)
qed simp

definition escape_uri :: "nat \<Rightarrow> string list \<Rightarrow> string" where
  "escape_uri n segs = ''/'' @ js_join ''/'' (replicate n ''..'' @ segs)"

lemma foldl_join_plain: "list_all (\<lambda>s. s \<notin> {[], ''.'', ''..''}) segs \<Longrightarrow> foldl join_seg r segs = r @ segs"
  by (induction segs arbitrary: r) (auto simp: join_seg_def)

lemma foldl_join_up: "foldl join_seg r (replicate (length r) ''..'') = []"
proof (induction "length r" arbitrary: r)
  case (Suc n)
  have "foldl join_seg (butlast r) (replicate (length (butlast r)) ''..'') = []"
    using Suc(1) [of "butlast r"] Suc(2) by simp
  with Suc(2) show ?case by (simp add: join_seg_def flip: Suc(2))
qed simp

definition plain_seg :: "string \<Rightarrow> bool" where
  "plain_seg s \<longleftrightarrow> s \<notin> {[], ''.'', ''..''} \<and> CHR ''/'' \<notin> set s"

lemma js_join_snoc: "js_join sep (xs @ [x]) = (if xs = [] then x else js_join sep xs @ sep @ x)"
  by (induction xs rule: induct_list012) auto

lemma last_escape_uri: "segs \<noteq> [] \<Longrightarrow> plain_seg (last segs) \<Longrightarrow> last (escape_uri n segs) \<noteq> CHR ''/''"
proof -
  assume a: "segs \<noteq> []" "plain_seg (last segs)"
  then obtain xs where xs: "replicate n ''..'' @ segs = xs @ [last segs]"
    by (metis append_assoc append_butlast_last_id)
  from a(2) have "last segs \<noteq> []" "last (last segs) \<noteq> CHR ''/''"
    by (auto simp: plain_seg_def dest: last_in_set)
  then show ?thesis unfolding escape_uri_def xs js_join_snoc by simp
qed

text \<open>The server does not keep requests inside its directory: for every file of the system there is
  a request path that names it, with enough parent steps in front, and the file is what a
  complete run sends.\<close>

theorem every_file_is_served:
  assumes "list_all plain_seg (wd_cwd W)" "list_all plain_seg segs" "segs \<noteq> []"
    "wd_fs W segs = Some (File content)"
  shows "\<exists>s. server_reach W (escape_uri (length (wd_cwd W)) segs) (accept_request st) s \<and>
    rq_jobs s = [] \<and> rq_error s = None \<and> End (Str content) \<in> set (rq_calls s)"
proof -
  let ?cwd = "wd_cwd W" let ?uri = "escape_uri (length ?cwd) segs"
  let ?list = "replicate (length ?cwd) ''..'' @ segs"
  have l: "list_all (\<lambda>s. CHR ''/'' \<notin> set s) ?list" "?list \<noteq> []"
    using assms(2,3) by (simp_all add: list_all_iff plain_seg_def ball_Un)
  have pieces: "js_split (lit ''/'') ?uri = [] # ?list"
    using js_split_slash_segs [OF l] by (simp add: escape_uri_def js_split_char del: lit_simps)
  have cwd: "list_all (\<lambda>s. s \<notin> {[], ''.'', ''..''}) ?cwd" and segs: "list_all (\<lambda>s. s \<notin> {[], ''.'', ''..''}) segs"
    using assms(1,2) unfolding list_all_iff plain_seg_def by blast+
  have "foldl join_seg [] (?cwd @ [] # ?list) = segs"
    using foldl_join_plain [OF cwd, of "[]"] foldl_join_plain [OF segs, of "[]"] foldl_join_up [of ?cwd]
    by (simp add: join_seg_def [of _ "[]"])
  moreover have ends: "last ?uri \<noteq> CHR ''/''"
    using assms(2,3) by (intro last_escape_uri) (simp_all add: list_all_iff)
  ultimately have join: "path_join ?cwd ?uri = segs" by (simp add: path_join_def Let_def pieces del: lit_simps)
  have uri: "?uri \<noteq> ''/''" using ends by auto
  let ?s0 = "accept_request st" let ?s1 = "?s0\<lparr>rq_jobs := [StaticCb segs]\<rparr>"
  have "server_step W ?uri ?s0 ?s1"
    using server_step.run [of ?s0 0 W ?uri] join uri assms(4)
    by (simp add: accept_request_def exists_cb_def Let_def splice1_def)
  moreover have "server_step W ?uri ?s1 (static_cb W ?uri segs (?s1\<lparr>rq_jobs := []\<rparr>))"
    using server_step.run [of ?s1 0 W ?uri] by (simp add: accept_request_def splice1_def)
  ultimately have "server_reach W ?uri ?s0 (static_cb W ?uri segs (?s1\<lparr>rq_jobs := []\<rparr>))"
    by (simp add: server_reach_def)
  then show ?thesis using assms(4)
    by (intro exI [of _ "static_cb W ?uri segs (?s1\<lparr>rq_jobs := []\<rparr>)"])
      (simp add: static_cb_def read_file_def accept_request_def)
qed

theorem every_file_is_served_witness:
  "\<exists>s. server_reach demo_world ''/../../etc/passwd'' (accept_request new_Writer) s \<and>
     End (Str ''root'') \<in> set (rq_calls s)"
proof -
  have "list_all plain_seg (wd_cwd demo_world)" "list_all plain_seg [''etc'', ''passwd'']"
    "wd_fs demo_world [''etc'', ''passwd''] = Some (File ''root'')"
    by (simp_all add: demo_world_def plain_seg_def)
  from every_file_is_served [OF this(1,2) _ this(3)] show ?thesis
    by (auto simp: escape_uri_def demo_world_def numeral_2_eq_2)
qed

text \<open>The two answers of the root come in either order. A schedule picks the jobs.\<close>

fun run_schedule :: "world \<Rightarrow> string \<Rightarrow> nat list \<Rightarrow> request \<Rightarrow> request option" where
  "run_schedule W uri [] s = Some s"
| "run_schedule W uri (i # is) s =
     (if rq_error s = None \<and> i < length (rq_jobs s)
      then run_schedule W uri is (run_job W uri (rq_jobs s ! i) (s\<lparr>rq_jobs := splice1 i (rq_jobs s)\<rparr>))
      else None)"

lemma run_schedule_reach: "run_schedule W uri is s = Some t \<Longrightarrow> server_reach W uri s t"
  unfolding server_reach_def
proof (induction "is" arbitrary: s)
  case (Cons i "is")
  then show ?case by (auto split: if_splits intro: converse_rtranclp_into_rtranclp server_step.run)
qed simp

lemma root_races:
  "\<exists>s t. server_reach demo_world ''/'' (accept_request new_Writer) s \<and>
     server_reach demo_world ''/'' (accept_request new_Writer) t \<and>
     last (rq_calls s) = End (Str ''a{{b}}'') \<and> last (rq_calls t) = End (Str ''a'')"
proof -
  let ?run = "\<lambda>is. run_schedule demo_world ''/'' is (accept_request new_Writer)"
  have "(case ?run [0, 0, 0] of Some s \<Rightarrow> last (rq_calls s) | None \<Rightarrow> Write []) = End (Str ''a{{b}}'')"
    "(case ?run [0, 1, 0] of Some s \<Rightarrow> last (rq_calls s) | None \<Rightarrow> Write []) = End (Str ''a'')"
    by code_simp+
  then show ?thesis by (auto simp del: run_schedule.simps split: option.splits dest!: run_schedule_reach)
qed

end
