(* ===== verification/TodoPage.thy ===== *)
theory TodoPage
  imports JsValues
begin

text \<open>
  The todo list page \<open>php-mysql/index.js\<close>. The state is what the script keeps: the rows
  (elements with identity, which outlive their removal from the table because callbacks hold
  them), the table, the focus, the requests sent and the callbacks that wait for an answer. The
  requests go through \<open>xhrGet\<close>, \<open>xhrPost\<close>, \<open>xhrPut\<close> and \<open>xhrDelete\<close>, which are
  not in the repository: an answer is an event that may come at any time and in any order, with
  a value or as a failure. An exception ends the handler that throws it; what it did stays.
\<close>

section \<open>State\<close>

record row =
  r_id :: "string option"
  r_text :: string
  r_new :: bool

datatype http = HGet string | HPost nat string | HPut "string option" string | HDelete string

datatype waiting = WLoad | WEnv | WPost nat "nat option" | WPut | WDelete

record page =
  pg_rows :: "row list"
  pg_table :: "nat list"
  pg_focus :: "nat option"
  pg_loading :: string
  pg_info :: "(string \<times> jsval) list"
  pg_info_shown :: bool
  pg_sent :: "http list"
  pg_waiting :: "waiting list"
  pg_called :: "nat list"
  pg_thrown :: "js_error list"

definition throws :: "js_error \<Rightarrow> page \<Rightarrow> page" where
  "throws e p = p\<lparr>pg_thrown := pg_thrown p @ [e]\<rparr>"

definition send :: "http \<Rightarrow> waiting \<Rightarrow> page \<Rightarrow> page" where
  "send h w p = p\<lparr>pg_sent := pg_sent p @ [h], pg_waiting := pg_waiting p @ [w]\<rparr>"

definition update_row :: "nat \<Rightarrow> (row \<Rightarrow> row) \<Rightarrow> page \<Rightarrow> page" where
  "update_row r f p = p\<lparr>pg_rows := (pg_rows p)[r := f (pg_rows p ! r)]\<rparr>"

definition REST_DATA :: string where "REST_DATA = ''api/todolist''"
definition REST_ENV :: string where "REST_ENV = ''api/dbinfo''"
definition KEY_ENTER :: nat where "KEY_ENTER = 13"

section \<open>Rows\<close>

text \<open>The text a value becomes as an attribute, and as the value of a text area.\<close>

definition attr_text :: "js_env \<Rightarrow> jsval \<Rightarrow> js_error + string" where
  "attr_text E v = js_string E True v"

definition area_text :: "js_env \<Rightarrow> jsval \<Rightarrow> js_error + string" where
  "area_text E v = (if v = Null then Inr [] else js_string E True v)"

text \<open>
  \<open>addItem(item, isNew)\<close>. The row is in the table before its text is set, and has focus
  last.
\<close>

definition addItem :: "js_env \<Rightarrow> jsval \<Rightarrow> bool \<Rightarrow> page \<Rightarrow> js_error option \<times> page" where
  "addItem E item isNew p =
     (let iid = (if truthy item then js_get E item ''id'' else Inr item);
          attr = bindr iid (\<lambda>v. if truthy v then map_sum id Some (attr_text E v) else Inr None)
      in case attr of
           Inl e \<Rightarrow> (Some e, p)
         | Inr a \<Rightarrow>
             let r = length (pg_rows p);
                 p1 = p\<lparr>pg_rows := pg_rows p @ [\<lparr>r_id = a, r_text = [], r_new = False\<rparr>],
                        pg_table := pg_table p @ [r]\<rparr>;
                 name = (if truthy item then bindr (js_get E item ''name'') (\<lambda>v. map_sum id Some (area_text E v))
                         else Inr None)
             in case name of
                  Inl e \<Rightarrow> (Some e, p1)
                | Inr t \<Rightarrow>
                    (None, (update_row r (\<lambda>w. w\<lparr>r_text := (case t of None \<Rightarrow> [] | Some s \<Rightarrow> s),
                               r_new := (\<not> truthy item \<or> isNew)\<rparr>) p1)\<lparr>pg_focus := Some r\<rparr>))"

section \<open>Loading\<close>

text \<open>\<open>k in v\<close>, an exception for a value that is no object.\<close>

definition js_in :: "js_env \<Rightarrow> string \<Rightarrow> jsval \<Rightarrow> js_error + bool" where
  "js_in E k v =
     (case v of
        Arr vs \<Rightarrow> Inr (own_prop v k \<noteq> None \<or> env_proto E v k \<noteq> Undef)
      | Obj ps \<Rightarrow> Inr (own_prop v k \<noteq> None \<or> env_proto E v k \<noteq> Undef)
      | Fun f \<Rightarrow> Inr (own_prop v k \<noteq> None \<or> env_proto E v k \<noteq> Undef)
      | _ \<Rightarrow> Inl TypeError)"

text \<open>
  The elements the counting loop sees: those of an array, the characters of a string; a value
  without a length has none.
\<close>

definition elements :: "jsval \<Rightarrow> jsval list" where
  "elements v = (case v of Arr vs \<Rightarrow> vs | Str s \<Rightarrow> map (\<lambda>c. Str [c]) s | _ \<Rightarrow> [])"

fun keep_items :: "js_env \<Rightarrow> jsval list \<Rightarrow> js_error + jsval list" where
  "keep_items E [] = Inr []"
| "keep_items E (item # items) =
     bindr (if truthy item
            then bindr (js_in E ''id'' item) (\<lambda>b. if b then js_in E ''name'' item else Inr False)
            else Inr False)
       (\<lambda>ok. bindr (keep_items E items) (\<lambda>rest. Inr (if ok then item # rest else rest)))"

fun add_items :: "js_env \<Rightarrow> jsval list \<Rightarrow> page \<Rightarrow> page" where
  "add_items E [] p = p"
| "add_items E (item # items) p =
     (case addItem E item False p of (None, p1) \<Rightarrow> add_items E items p1 | (Some e, p1) \<Rightarrow> throws e p1)"

definition items_loaded :: "js_env \<Rightarrow> jsval \<Rightarrow> page \<Rightarrow> page" where
  "items_loaded E data p =
     (let p1 = p\<lparr>pg_loading := []\<rparr> in
      case bindr (js_get E data ''body'') (\<lambda>b. keep_items E (elements (if truthy b then b else Arr []))) of
        Inl e \<Rightarrow> throws e p1
      | Inr items \<Rightarrow> add_items E items p1)"

definition loadItems :: "page \<Rightarrow> page" where
  "loadItems p = send (HGet REST_DATA) WLoad p"

section \<open>Editing\<close>

definition deleteItem :: "nat \<Rightarrow> page \<Rightarrow> page" where
  "deleteItem r p =
     (let p1 = p\<lparr>pg_table := removeAll r (pg_table p)\<rparr>;
          i = (case r_id (pg_rows p ! r) of None \<Rightarrow> ''null'' | Some d \<Rightarrow> d)
      in send (HDelete (REST_DATA @ ''?id='' @ i)) WDelete p1)"

fun next_row :: "nat list \<Rightarrow> nat \<Rightarrow> nat option" where
  "next_row [] r = None"
| "next_row [x] r = None"
| "next_row (x # y # ys) r = (if x = r then Some y else next_row (y # ys) r)"

text \<open>The result says whether the event was stopped.\<close>

definition onKey :: "js_env \<Rightarrow> nat \<Rightarrow> bool \<Rightarrow> nat \<Rightarrow> page \<Rightarrow> bool \<times> page" where
  "onKey E keyCode shiftKey r p =
     (if keyCode = KEY_ENTER \<and> \<not> shiftKey
      then (True, case next_row (pg_table p) r of
              Some n \<Rightarrow> p\<lparr>pg_focus := Some n\<rparr>
            | None \<Rightarrow> (case addItem E Undef False p of (None, p1) \<Rightarrow> p1 | (Some e, p1) \<Rightarrow> throws e p1))
      else (False, p))"

definition saveChange :: "nat \<Rightarrow> nat option \<Rightarrow> page \<Rightarrow> page" where
  "saveChange r callback p =
     (let w = pg_rows p ! r in
      if r_new w
      then send (HPost r (r_text w)) (WPost r callback) (update_row r (\<lambda>w. w\<lparr>r_new := False\<rparr>) p)
      else send (HPut (r_id w) (r_text w)) WPut p)"

definition toggleServiceInfo :: "page \<Rightarrow> page" where
  "toggleServiceInfo p = p\<lparr>pg_info_shown := \<not> pg_info_shown p\<rparr>"

definition updateServiceInfo :: "page \<Rightarrow> page" where
  "updateServiceInfo p = send (HGet REST_ENV) WEnv p"

definition info_fields :: "(string \<times> string) list" where
  "info_fields = [(''envServiceName'', ''name''), (''envDbName'', ''db''), (''envHost'', ''host''),
     (''envPort'', ''port''), (''envUrl'', ''jdbcurl'')]"

fun show_info :: "js_env \<Rightarrow> jsval \<Rightarrow> (string \<times> string) list \<Rightarrow> page \<Rightarrow> page" where
  "show_info E dbinfo [] p = p"
| "show_info E dbinfo ((node, k) # fs) p =
     (case js_get E dbinfo k of
        Inl e \<Rightarrow> throws e p
      | Inr v \<Rightarrow> show_info E dbinfo fs (p\<lparr>pg_info := obj_set node v (pg_info p)\<rparr>))"

section \<open>Events\<close>

text \<open>
  \<open>Changed r t\<close>: the user made \<open>t\<close> the text of row \<open>r\<close> and left it. \<open>Save\<close> is a call by
  another script, with a callback. \<open>Answer i res\<close>: the request waiting at place \<open>i\<close> is answered,
  \<open>None\<close> being a failure.
\<close>

datatype event =
  Changed nat string | Save nat "nat option" | Key nat nat bool | Delete nat | Toggle
| Answer nat "jsval option"

fun answered :: "js_env \<Rightarrow> waiting \<Rightarrow> jsval option \<Rightarrow> page \<Rightarrow> page" where
  "answered E WLoad (Some data) p = items_loaded E data p"
| "answered E WLoad None p = p\<lparr>pg_loading := ''ERROR''\<rparr>"
| "answered E WEnv (Some dbinfo) p = show_info E dbinfo info_fields p"
| "answered E (WPost r callback) (Some item) p =
     (case bindr (js_get E item ''id'') (attr_text E) of
        Inl e \<Rightarrow> throws e p
      | Inr d \<Rightarrow> (update_row r (\<lambda>w. w\<lparr>r_id := Some d\<rparr>) p)\<lparr>pg_called := pg_called p @
                    (case callback of None \<Rightarrow> [] | Some f \<Rightarrow> [f])\<rparr>)"
| "answered E _ _ p = p"

fun on_event :: "js_env \<Rightarrow> event \<Rightarrow> page \<Rightarrow> page" where
  "on_event E (Changed r t) p =
     (if r \<in> set (pg_table p) then saveChange r None (update_row r (\<lambda>w. w\<lparr>r_text := t\<rparr>) p) else p)"
| "on_event E (Save r callback) p = (if r < length (pg_rows p) then saveChange r callback p else p)"
| "on_event E (Key r keyCode shiftKey) p =
     (if r \<in> set (pg_table p) then snd (onKey E keyCode shiftKey r p) else p)"
| "on_event E (Delete r) p = (if r \<in> set (pg_table p) then deleteItem r p else p)"
| "on_event E Toggle p = toggleServiceInfo p"
| "on_event E (Answer i res) p =
     (if i < length (pg_waiting p)
      then answered E (pg_waiting p ! i) res (p\<lparr>pg_waiting := splice1 i (pg_waiting p)\<rparr>)
      else p)"

definition empty_page :: page where
  "empty_page = \<lparr>pg_rows = [], pg_table = [], pg_focus = None, pg_loading = ''loading'', pg_info = [],
     pg_info_shown = True, pg_sent = [], pg_waiting = [], pg_called = [], pg_thrown = []\<rparr>"

definition page_start :: page where
  "page_start = loadItems (updateServiceInfo empty_page)"

definition on_events :: "js_env \<Rightarrow> event list \<Rightarrow> page" where
  "on_events E es = fold (on_event E) es page_start"

section \<open>Every row is created once\<close>

definition posts :: "nat \<Rightarrow> http list \<Rightarrow> nat" where
  "posts r hs = length (filter (\<lambda>h. case h of HPost q t \<Rightarrow> q = r | _ \<Rightarrow> False) hs)"

lemma posts_simps [simp]: "posts r [] = 0" "posts r (hs @ [h]) =
    posts r hs + (case h of HPost q t \<Rightarrow> if q = r then 1 else 0 | _ \<Rightarrow> 0)"
  by (auto simp: posts_def split: http.split)

definition post_ok :: "page \<Rightarrow> nat \<Rightarrow> bool" where
  "post_ok p r \<longleftrightarrow> posts r (pg_sent p) \<le> 1 \<and> (length (pg_rows p) \<le> r \<longrightarrow> posts r (pg_sent p) = 0) \<and>
     (r < length (pg_rows p) \<and> r_new (pg_rows p ! r) \<longrightarrow> posts r (pg_sent p) = 0)"

definition page_inv :: "page \<Rightarrow> bool" where
  "page_inv p \<longleftrightarrow> (\<forall>r. post_ok p r) \<and>
     distinct (pg_table p) \<and> (\<forall>r \<in> set (pg_table p). r < length (pg_rows p)) \<and>
     (\<forall>r c. WPost r c \<in> set (pg_waiting p) \<longrightarrow> r < length (pg_rows p))"

text \<open>Steps that neither send a request nor touch \<open>r_new\<close> keep the invariant.\<close>

lemma page_inv_frame:
  assumes "page_inv p" "pg_sent q = pg_sent p" "pg_table q = pg_table p" "set (pg_waiting q) \<subseteq> set (pg_waiting p)"
    "map r_new (pg_rows q) = map r_new (pg_rows p)"
  shows "page_inv q"
proof -
  have l: "length (pg_rows q) = length (pg_rows p)" using assms(5) by (metis length_map)
  have n: "r_new (pg_rows q ! r) = r_new (pg_rows p ! r)" if "r < length (pg_rows p)" for r
    using assms(5) that l by (metis nth_map)
  have "post_ok q r" for r using assms(1,2) n by (auto simp: page_inv_def post_ok_def l)
  moreover have "r < length (pg_rows q)" if "WPost r c \<in> set (pg_waiting q)" for r c
    using assms(1) subsetD [OF assms(4) that] unfolding page_inv_def l by blast
  ultimately show ?thesis using assms(1,3) by (simp add: page_inv_def l)
qed

lemma map_update_same: "r < length xs \<Longrightarrow> f y = f (xs ! r) \<Longrightarrow> map f (xs[r := y]) = map f xs"
  by (simp add: map_update list_update_same_conv)

lemma throws_inv [simp]: "page_inv (throws e p) \<longleftrightarrow> page_inv p"
  by (auto simp: throws_def page_inv_def post_ok_def)

lemma addItem_inv: "page_inv p \<Longrightarrow> page_inv (snd (addItem E item isNew p))"
proof -
  assume inv: "page_inv p"
  let ?r = "length (pg_rows p)"
  have "page_inv (p\<lparr>pg_rows := pg_rows p @ [w], pg_table := pg_table p @ [?r]\<rparr>)" for w
    using inv by (auto simp: page_inv_def post_ok_def nth_append less_Suc_eq)
  then show ?thesis
    using inv by (auto simp: addItem_def Let_def update_row_def page_inv_def post_ok_def nth_append nth_list_update
        split: sum.split)
qed

lemma add_items_inv: "page_inv p \<Longrightarrow> page_inv (add_items E items p)"
proof (induction items arbitrary: p)
  case (Cons item items)
  from addItem_inv [OF Cons.prems, of E item False] Cons.IH show ?case
    by (auto split: prod.split option.split)
qed simp

lemma show_info_inv: "page_inv p \<Longrightarrow> page_inv (show_info E d fs p)"
proof (induction fs arbitrary: p)
  case (Cons f fs)
  have "page_inv (p\<lparr>pg_info := i\<rparr>)" for i using Cons.prems by (rule page_inv_frame) auto
  with Cons show ?case by (cases f) (auto split: sum.split)
qed simp

lemma answered_inv:
  assumes "page_inv p" "\<And>r c. w = WPost r c \<Longrightarrow> r < length (pg_rows p)"
  shows "page_inv (answered E w res p)"
proof (cases "(E, w, res, p)" rule: answered.cases)
  case (1 E' data p')
  have "page_inv (p\<lparr>pg_loading := l\<rparr>)" for l using assms(1) by (rule page_inv_frame) auto
  with 1 show ?thesis by (auto simp: items_loaded_def Let_def add_items_inv split: sum.split)
next
  case (2 E' p')
  then show ?thesis using page_inv_frame [OF assms(1), of "p\<lparr>pg_loading := ''ERROR''\<rparr>"] by simp
next
  case (3 E' d p')
  with assms(1) show ?thesis by (simp add: show_info_inv)
next
  case (4 E' r c item p')
  with assms(2) have "r < length (pg_rows p)" by simp
  then have "map r_new ((pg_rows p)[r := (pg_rows p ! r)\<lparr>r_id := d\<rparr>]) = map r_new (pg_rows p)" for d
    by (rule map_update_same) simp
  then have "page_inv ((update_row r (\<lambda>w. w\<lparr>r_id := Some d\<rparr>) p)\<lparr>pg_called := l\<rparr>)" for d l
    by (intro page_inv_frame [OF assms(1)]) (simp_all add: update_row_def)
  with 4 assms(1) show ?thesis by (auto split: sum.split)
qed (use assms(1) in simp_all)

lemma saveChange_inv: "page_inv p \<Longrightarrow> r < length (pg_rows p) \<Longrightarrow> page_inv (saveChange r c p)"
  by (auto simp: saveChange_def Let_def send_def update_row_def page_inv_def post_ok_def nth_list_update split: if_splits)

lemma on_event_inv:
  assumes "page_inv p"
  shows "page_inv (on_event E ev p)"
proof (cases ev)
  case (Changed r t)
  show ?thesis
  proof (cases "r \<in> set (pg_table p)")
    case True
    then have r: "r < length (pg_rows p)" using assms by (simp add: page_inv_def)
    then have "page_inv (update_row r (\<lambda>w. w\<lparr>r_text := t\<rparr>) p)"
      by (intro page_inv_frame [OF assms]) (simp_all add: update_row_def map_update_same)
    with r True Changed show ?thesis using saveChange_inv [of "update_row r (\<lambda>w. w\<lparr>r_text := t\<rparr>) p" r None]
      by (simp add: update_row_def)
  qed (use Changed assms in simp)
next
  case (Key r k s)
  have "page_inv (p\<lparr>pg_focus := f\<rparr>)" for f using assms by (rule page_inv_frame) auto
  with Key assms addItem_inv [OF assms, of E Undef False] show ?thesis
    by (auto simp: onKey_def split: option.split prod.split)
next
  case (Delete r)
  have "page_inv (send h WDelete (p\<lparr>pg_table := removeAll r (pg_table p)\<rparr>))" if "\<And>q t. h \<noteq> HPost q t" for h
  proof -
    have "posts q (pg_sent p @ [h]) = posts q (pg_sent p)" for q
      using that by (cases h) auto
    then show ?thesis using assms by (auto simp: page_inv_def post_ok_def send_def distinct_removeAll)
  qed
  with Delete assms show ?thesis by (auto simp: deleteItem_def Let_def)
next
  case Toggle
  then show ?thesis using page_inv_frame [OF assms, of "toggleServiceInfo p"] by (simp add: toggleServiceInfo_def)
next
  case (Answer i res)
  have "page_inv (p\<lparr>pg_waiting := splice1 i (pg_waiting p)\<rparr>)"
    using assms by (rule page_inv_frame) (auto dest: subsetD [OF set_splice1])
  moreover have "r < length (pg_rows p)" if "pg_waiting p ! i = WPost r c" "i < length (pg_waiting p)" for r c
  proof -
    from that have "WPost r c \<in> set (pg_waiting p)" by (metis nth_mem)
    with assms show ?thesis by (auto simp: page_inv_def)
  qed
  ultimately show ?thesis using Answer assms by (auto intro!: answered_inv)
qed (use assms saveChange_inv in simp)

lemma on_events_inv: "page_inv (on_events E es)"
proof -
  have "page_inv page_start"
    by (simp add: page_start_def loadItems_def updateServiceInfo_def empty_page_def send_def page_inv_def post_ok_def
        posts_def)
  then have "page_inv (fold (on_event E) es page_start)"
    by (induction es rule: rev_induct) (simp_all add: on_event_inv)
  then show ?thesis by (simp add: on_events_def)
qed

text \<open>C37: Whatever the user does and in whatever order the server answers, an item is created at most
  once: for each row at most one POST is ever sent, and the table never shows a row twice.\<close>

theorem created_once: "posts r (pg_sent (on_events E es)) \<le> 1 \<and> distinct (pg_table (on_events E es))"
  using on_events_inv [of E es] by (simp add: page_inv_def post_ok_def)

text \<open>Saving a new row twice before the first save is answered sends the second save as an update
  of no item: \<open>isNew\<close> is deleted when the POST is sent, not when its answer brings the id.\<close>

theorem second_save_has_no_id:
  assumes "r < length (pg_rows p)" "r_new (pg_rows p ! r)" "r_id (pg_rows p ! r) = None"
  shows "pg_sent (on_event E (Save r d) (on_event E (Save r c) p)) =
    pg_sent p @ [HPost r (r_text (pg_rows p ! r)), HPut None (r_text (pg_rows p ! r))]"
  using assms by (simp add: saveChange_def Let_def send_def update_row_def)

definition demo_page :: page where
  "demo_page = on_events \<lparr>env_proto = (\<lambda>v k. Undef), env_call = (\<lambda>f this. Inr Undef),
     env_section = (\<lambda>f this text. Done (Inr Undef)), env_string = (\<lambda>h v. Inr []),
     env_foreign = (\<lambda>v arg. Inl TypeError)\<rparr>
     [Answer 1 (Some (Obj [(''body'', Arr [Obj [(''id'', Num ''7''), (''name'', Str ''milk'')]])])), Key 0 13 False]"

theorem second_save_has_no_id_witness:
  "pg_sent (on_event no_proto_env (Save 1 None) (on_event no_proto_env (Save 1 None) demo_page)) =
     pg_sent demo_page @ [HPost 1 [], HPut None []]"
proof -
  have "1 < length (pg_rows demo_page)" "r_new (pg_rows demo_page ! 1)" "r_id (pg_rows demo_page ! 1) = None"
    "r_text (pg_rows demo_page ! 1) = []" by code_simp+
  with second_save_has_no_id [of 1 demo_page no_proto_env None None] show ?thesis by simp
qed

section \<open>What loading shows\<close>

definition well_typed_item :: "jsval \<Rightarrow> bool" where
  "well_typed_item v \<longleftrightarrow> (case v of Obj ps \<Rightarrow>
     (\<forall>x. obj_get ps ''name'' = Some x \<longrightarrow> (\<exists>s. x = Str s)) \<and>
     (\<forall>x. obj_get ps ''id'' = Some x \<longrightarrow> (\<exists>n. x = Num n)) | _ \<Rightarrow> False)"

definition complete_item :: "jsval \<Rightarrow> bool" where
  "complete_item v \<longleftrightarrow> own_prop v ''id'' \<noteq> None \<and> own_prop v ''name'' \<noteq> None"

definition item_row :: "jsval \<Rightarrow> row" where
  "item_row v = \<lparr>
     r_id = (case own_prop v ''id'' of Some (Num n) \<Rightarrow> if truthy (Num n) then Some n else None | _ \<Rightarrow> None),
     r_text = (case own_prop v ''name'' of Some (Str s) \<Rightarrow> s | _ \<Rightarrow> []), r_new = False\<rparr>"

definition no_item_proto :: "js_env \<Rightarrow> bool" where
  "no_item_proto E \<longleftrightarrow> (\<forall>ps. env_proto E (Obj ps) ''id'' = Undef \<and> env_proto E (Obj ps) ''name'' = Undef)"

lemma keep_items_filter:
  "no_item_proto E \<Longrightarrow> list_all well_typed_item vs \<Longrightarrow> keep_items E vs = Inr (filter complete_item vs)"
  by (induction vs) (auto simp: well_typed_item_def js_in_def no_item_proto_def complete_item_def split: jsval.splits)

lemma addItem_row:
  assumes "well_typed_item v" "complete_item v"
  shows "addItem E v False p = (None, p\<lparr>pg_rows := pg_rows p @ [item_row v],
    pg_table := pg_table p @ [length (pg_rows p)], pg_focus := Some (length (pg_rows p))\<rparr>)"
proof -
  from assms obtain ps s n where "v = Obj ps" "obj_get ps ''name'' = Some (Str s)" "obj_get ps ''id'' = Some (Num n)"
    by (auto simp: well_typed_item_def complete_item_def split: jsval.splits)
  then show ?thesis
    by (simp add: addItem_def Let_def js_get_def nullish_def attr_text_def area_text_def update_row_def item_row_def)
qed

lemma add_items_rows:
  "list_all well_typed_item vs \<Longrightarrow> list_all complete_item vs \<Longrightarrow>
     pg_rows (add_items E vs p) = pg_rows p @ map item_row vs \<and>
     pg_table (add_items E vs p) = pg_table p @ [length (pg_rows p)..<length (pg_rows p) + length vs] \<and>
     pg_thrown (add_items E vs p) = pg_thrown p"
  by (induction vs arbitrary: p) (auto simp: addItem_row upt_conv_Cons simp del: upt_Suc)

text \<open>When the server answers with a body of objects, the table gets one row for each that has
  both an id and a name, in the order received, with the name as its text and the id as its id
  (an id of 0 is dropped); the others are skipped and nothing is thrown.\<close>

theorem loaded_rows:
  assumes "no_item_proto E" "list_all well_typed_item vs"
  shows "pg_rows (items_loaded E (Obj [(''body'', Arr vs)]) p) =
      pg_rows p @ map item_row (filter complete_item vs) \<and>
    pg_table (items_loaded E (Obj [(''body'', Arr vs)]) p) =
      pg_table p @ [length (pg_rows p)..<length (pg_rows p) + length (filter complete_item vs)] \<and>
    pg_thrown (items_loaded E (Obj [(''body'', Arr vs)]) p) = pg_thrown p"
proof -
  have "list_all well_typed_item (filter complete_item vs)" "list_all complete_item (filter complete_item vs)"
    using assms(2) by (simp_all add: list_all_iff)
  from add_items_rows [OF this, of E "p\<lparr>pg_loading := []\<rparr>"] keep_items_filter [OF assms] show ?thesis
    by (simp add: items_loaded_def Let_def js_get_def nullish_def elements_def)
qed

theorem loaded_rows_witness:
  "pg_rows (items_loaded no_proto_env
     (Obj [(''body'', Arr [Obj [(''id'', Num ''0''), (''name'', Str ''a'')], Obj []])]) empty_page) =
   [\<lparr>r_id = None, r_text = ''a'', r_new = False\<rparr>]"
  using loaded_rows [of no_proto_env
      "[Obj [(''id'', Num ''0''), (''name'', Str ''a'')], Obj []]" empty_page]
  by (simp add: no_item_proto_def no_proto_env_def well_typed_item_def complete_item_def item_row_def empty_page_def)

text \<open>A null or a primitive among the received items is not skipped alike: a falsy one is, but a
  number or a nonempty string throws in the \<open>in\<close> test, and no row is shown at all.\<close>

theorem primitive_item_throws:
  assumes "v = Num n \<or> v = Str s \<or> v = Bool True" "truthy v" "v \<in> set vs" "no_item_proto E"
    "\<forall>u \<in> set vs. well_typed_item u \<or> \<not> truthy u \<or> u = v"
  shows "items_loaded E (Obj [(''body'', Arr vs)]) p = throws TypeError (p\<lparr>pg_loading := []\<rparr>)"
proof -
  have "keep_items E vs = Inl TypeError"
    using assms(3,5)
  proof (induction vs)
    case (Cons u us)
    have in_v: "js_in E k v = Inl TypeError" for k using assms(1) by (auto simp: js_in_def)
    show ?case
    proof (cases "u = v")
      case True
      with in_v assms(2) show ?thesis by simp
    next
      case False
      with Cons have IH: "keep_items E us = Inl TypeError" by simp
      from False Cons.prems have "well_typed_item u \<or> \<not> truthy u" by auto
      with IH show ?thesis
        by (auto simp: well_typed_item_def js_in_def split: jsval.splits)
    qed
  qed simp
  then show ?thesis by (simp add: items_loaded_def Let_def js_get_def nullish_def elements_def)
qed

theorem primitive_item_throws_witness:
  "items_loaded no_proto_env
     (Obj [(''body'', Arr [Obj [(''id'', Num ''1''), (''name'', Str ''a'')], Num ''5''])]) empty_page =
   throws TypeError (empty_page\<lparr>pg_loading := []\<rparr>)"
  by (rule primitive_item_throws [of "Num ''5''" "''5''" "[]"])
    (simp_all add: no_item_proto_def no_proto_env_def well_typed_item_def)

end
