(* ===== verification/JqClass.thy ===== *)
theory JqClass
  imports MuParseLaws
begin

text \<open>
  \<open>addClass\<close>, \<open>removeClass\<close>, \<open>toggleClass\<close> and \<open>hasClass\<close> of
  \<open>jquery.js\<close> as they work on the \<open>className\<close> string of one element, with
  \<open>jQuery.trim\<close>. The set of class names of an element is the abstract view; the lemmas say
  that the string code is insertion, deletion and membership, whatever whitespace the attribute
  was written with. The widgets use these facts through the locale \<open>class_list\<close>.
\<close>

section \<open>The string code\<close>

text \<open>\<open>jQuery.trim\<close>\<close>

definition jq_trim :: "string \<Rightarrow> string" where
  "jq_trim s = rev (dropWhile is_space (rev (dropWhile is_space s)))"

text \<open>\<open>replace(/[\t\r\n]/g, " ")\<close>\<close>

definition class_tab :: "char \<Rightarrow> bool" where
  "class_tab c \<longleftrightarrow> c = CHR 0x09 \<or> c = CHR 0x0D \<or> c = CHR 0x0A"

definition rclass :: "string \<Rightarrow> string" where
  "rclass s = map (\<lambda>c. if class_tab c then CHR 0x20 else c) s"

definition spaced :: "string \<Rightarrow> string" where
  "spaced s = CHR 0x20 # s @ [CHR 0x20]"

definition hasClass :: "string \<Rightarrow> string \<Rightarrow> bool" where
  "hasClass c className \<longleftrightarrow> sublist (spaced c) (rclass (spaced className))"

definition addClass :: "string \<Rightarrow> string \<Rightarrow> string" where
  "addClass value className =
     (if value = [] then className
      else let classNames = js_split spaceRe value in
        if className = [] \<and> length classNames = 1 then value
        else jq_trim (fold (\<lambda>c setClass. if sublist (spaced c) setClass then setClass
                                         else setClass @ c @ [CHR 0x20])
               classNames (spaced className)))"

text \<open>\<open>className.replace(sub, by)\<close> of the first occurrence.\<close>

fun replace_first :: "string \<Rightarrow> string \<Rightarrow> string \<Rightarrow> string" where
  "replace_first sub by [] = []"
| "replace_first sub by (c # s) =
     (if take (length sub) (c # s) = sub then by @ drop (length sub) (c # s)
      else c # replace_first sub by s)"

lemma replace_first_occurs:
  "sublist sub s \<Longrightarrow> sub \<noteq> [] \<Longrightarrow> \<exists>u v. s = u @ sub @ v \<and> replace_first sub by s = u @ by @ v"
proof (induction s)
  case (Cons c s)
  show ?case
  proof (cases "take (length sub) (c # s) = sub")
    case True
    then have "c # s = [] @ sub @ drop (length sub) (c # s)" by (metis append_Nil append_take_drop_id)
    with True show ?thesis by (metis append_Nil replace_first.simps(2))
  next
    case False
    have "\<not> prefix sub (c # s)"
    proof
      assume "prefix sub (c # s)"
      then obtain w where "c # s = sub @ w" by (auto simp: prefix_def)
      with False show False by simp
    qed
    with Cons.prems have "sublist sub s" by (simp add: sublist_Cons_right)
    with Cons obtain u v where "s = u @ sub @ v" "replace_first sub by s = u @ by @ v" by blast
    with False show ?thesis by (intro exI [of _ "c # u"] exI [of _ v]) simp
  qed
qed simp

text \<open>\<open>while (className.indexOf(" " + c + " ") > -1)\<close>: every round shortens the string.\<close>

function remove_all :: "string \<Rightarrow> string \<Rightarrow> string" where
  "remove_all c s =
     (if sublist (spaced c) s then remove_all c (replace_first (spaced c) [CHR 0x20] s) else s)"
  by pat_completeness auto
termination
proof (relation "measure (\<lambda>(c, s). length s)", goal_cases)
  case (2 c s)
  have "spaced c \<noteq> []" by (simp add: spaced_def)
  from replace_first_occurs [OF 2 this, of "[CHR 0x20]"] obtain u v where "s = u @ spaced c @ v"
    "replace_first (spaced c) [CHR 0x20] s = u @ [CHR 0x20] @ v" by blast
  then show ?case by (simp add: spaced_def)
qed simp

declare remove_all.simps [simp del]

definition removeClass :: "string \<Rightarrow> string \<Rightarrow> string" where
  "removeClass value className =
     (if value = [] \<or> className = [] then className
      else jq_trim (fold remove_all (js_split spaceRe value) (rclass (spaced className))))"

text \<open>\<open>removeClass()\<close> without an argument.\<close>

definition removeAllClasses :: "string \<Rightarrow> string" where
  "removeAllClasses className = []"

definition toggle1 :: "bool option \<Rightarrow> string \<Rightarrow> string \<Rightarrow> string" where
  "toggle1 stateVal c className =
     (if (case stateVal of Some b \<Rightarrow> b | None \<Rightarrow> \<not> hasClass c className)
      then addClass c className else removeClass c className)"

text \<open>The loop over the names stops at the first empty one.\<close>

definition toggleClass :: "string \<Rightarrow> bool option \<Rightarrow> string \<Rightarrow> string" where
  "toggleClass value stateVal className =
     fold (toggle1 stateVal) (takeWhile (\<lambda>c. c \<noteq> []) (js_split spaceRe value)) className"

section \<open>The set of class names\<close>

abbreviation blank :: char where "blank \<equiv> CHR 0x20"

text \<open>The names between blanks.\<close>

definition between_blanks :: "string \<Rightarrow> string set" where
  "between_blanks s = {d. d \<noteq> [] \<and> blank \<notin> set d \<and> sublist (spaced d) s}"

definition class_set :: "string \<Rightarrow> string set" where
  "class_set className = between_blanks (rclass (spaced className))"

text \<open>The whitespace of a class attribute: no form feed and the like.\<close>

definition class_ok :: "string \<Rightarrow> bool" where
  "class_ok s \<longleftrightarrow> (\<forall>c \<in> set s. is_space c \<longrightarrow> c = blank \<or> class_tab c)"

definition one_word :: "string \<Rightarrow> bool" where
  "one_word c \<longleftrightarrow> c \<noteq> [] \<and> (\<forall>x \<in> set c. \<not> is_space x)"

lemma blank_space [simp]: "is_space blank"
  by (simp add: is_space_def)

lemma class_tab_simps [simp]: "\<not> class_tab blank" "class_tab c \<Longrightarrow> is_space c"
  by (auto simp: class_tab_def is_space_def)

lemma rclass_simps [simp]: "rclass [] = []" "rclass (s @ t) = rclass s @ rclass t"
  "rclass (blank # s) = blank # rclass s" "rclass (rclass s) = rclass s"
  by (simp_all add: rclass_def)

lemma spaced_split:
  assumes "blank \<notin> set d"
  shows "sublist (spaced d) (x @ blank # y) \<longleftrightarrow> sublist (spaced d) (x @ [blank]) \<or> sublist (spaced d) (blank # y)"
    (is "?l \<longleftrightarrow> ?a \<or> ?b")
proof
  assume ?l
  then obtain u v where e: "x @ blank # y = u @ spaced d @ v" by (auto simp: sublist_def)
  then have e': "x @ blank # y = (u @ blank # d) @ blank # v" by (simp add: spaced_def)
  from e' consider (left) w where "x = (u @ blank # d) @ w" "w @ blank # y = blank # v"
    | (right) w where "x @ w = u @ blank # d" "blank # y = w @ blank # v"
    using append_eq_append_conv2 [THEN iffD1, OF e'] by blast
  then show "?a \<or> ?b"
  proof cases
    case left
    then show ?thesis
    proof (cases w)
      case Nil
      with left have "x @ [blank] = u @ spaced d @ []" by (simp add: spaced_def)
      then show ?thesis by (metis sublist_def)
    next
      case (Cons b w')
      with left have "x @ [blank] = u @ spaced d @ w' @ [blank]" by (simp add: spaced_def)
      then show ?thesis by (metis sublist_def)
    qed
  next
    case right
    show ?thesis
    proof (cases w)
      case Nil
      with right have "x @ [blank] = u @ spaced d @ []" by (simp add: spaced_def)
      then show ?thesis by (metis sublist_def)
    next
      case (Cons b w')
      with right(2) have w: "w = blank # w'" by simp
      with right(1) have xw: "x @ blank # w' = u @ blank # d" by simp
      consider k where "u = x @ k" "blank # w' = k @ blank # d" | k where "x = u @ k" "k @ blank # w' = blank # d"
        using append_eq_append_conv2 [THEN iffD1, OF xw] by blast
      then show ?thesis
      proof cases
        case 1
        with right(2) w have "blank # y = k @ spaced d @ v" by (simp add: spaced_def)
        then show ?thesis by (metis sublist_def)
      next
        case 2
        then show ?thesis
        proof (cases k)
          case Nil
          with 2 right(2) w have "blank # y = [] @ spaced d @ v" by (simp add: spaced_def)
          then show ?thesis by (metis sublist_def)
        next
          case (Cons a k')
          with 2 have "blank \<in> set d" by auto
          with assms show ?thesis by simp
        qed
      qed
    qed
  qed
next
  assume "?a \<or> ?b"
  moreover have "sublist (x @ [blank]) (x @ blank # y)" "sublist (blank # y) (x @ blank # y)"
    by (metis append_Cons append_Nil append_assoc sublist_appendI sublist_append_rightI, metis sublist_append_leftI)
  ultimately show ?l by (meson sublist_order.order_trans)
qed

lemma between_blanks_split: "between_blanks (x @ blank # y) = between_blanks (x @ [blank]) \<union> between_blanks (blank # y)"
  using spaced_split by (auto simp: between_blanks_def)

lemma between_blanks_word:
  assumes "blank \<notin> set c"
  shows "between_blanks (blank # c @ [blank]) = (if c = [] then {} else {c})"
proof -
  have "d = c" if "blank \<notin> set d" "d \<noteq> []" "sublist (spaced d) (blank # c @ [blank])" for d
  proof -
    from that(3) obtain u v where e: "blank # c @ [blank] = u @ blank # d @ blank # v"
      by (auto simp: sublist_def spaced_def)
    show ?thesis
    proof (cases u)
      case Nil
      with e have "c @ [blank] = d @ blank # v" by simp
      with assms that(1) show ?thesis
        by (metis append_Cons append_Nil append_eq_append_conv2 in_set_conv_decomp list.inject
            butlast_snoc last_snoc append_butlast_last_id set_append Un_iff list.set_intros(1) snoc_eq_iff_butlast)
    next
      case (Cons a u')
      from e have "c @ [blank] = u' @ blank # d @ blank # v" unfolding Cons by (metis append_Cons list.inject)
      then have "c = u' @ blank # butlast (d @ blank # v)"
        by (metis append_is_Nil_conv butlast.simps(2) butlast_append butlast_snoc list.distinct(1))
      with assms show ?thesis by simp
    qed
  qed
  then show ?thesis using assms by (auto simp: between_blanks_def spaced_def)
qed

lemma between_blanks_blanks: "between_blanks (replicate n blank) = {}"
proof -
  have False if "blank \<notin> set d" "d \<noteq> []" "sublist (spaced d) (replicate n blank)" for d
  proof -
    have "set d \<subseteq> set (replicate n blank)" using set_mono_sublist [OF that(3)] by (auto simp: spaced_def)
    with that(1,2) show False by (cases d) (auto split: if_splits)
  qed
  then show ?thesis by (auto simp: between_blanks_def)
qed

lemma between_blanks_ends:
  "between_blanks (replicate m blank @ blank # s @ blank # replicate n blank) = between_blanks (blank # s @ [blank])"
proof -
  have "between_blanks (blank # replicate n blank) = {}" using between_blanks_blanks [of "Suc n"] by simp
  moreover have "between_blanks (replicate m blank @ [blank]) = {}"
    using between_blanks_blanks [of "Suc m"] by (simp add: replicate_append_same)
  ultimately show ?thesis
    using between_blanks_split [of "replicate m blank" "s @ blank # replicate n blank"]
      between_blanks_split [of "blank # s" "replicate n blank"] by simp
qed

lemma rclass_spaces: "class_ok s \<Longrightarrow> \<forall>c \<in> set s. is_space c \<Longrightarrow> rclass s = replicate (length s) blank"
  by (induction s) (auto simp: rclass_def class_ok_def)

lemma class_ok_simps [simp]:
  "class_ok []" "class_ok (s @ t) \<longleftrightarrow> class_ok s \<and> class_ok t" "class_ok (blank # s) \<longleftrightarrow> class_ok s"
  by (auto simp: class_ok_def)

lemma class_ok_mono: "set t \<subseteq> set s \<Longrightarrow> class_ok s \<Longrightarrow> class_ok t"
  by (auto simp: class_ok_def)

lemma class_ok_word: "\<forall>x \<in> set c. \<not> is_space x \<Longrightarrow> class_ok c"
  by (simp add: class_ok_def)

lemma jq_trim_subset: "set (jq_trim s) \<subseteq> set s"
  by (auto simp: jq_trim_def dest!: set_dropWhileD)

lemma rclass_no_tab: "\<forall>c \<in> set s. \<not> class_tab c \<Longrightarrow> rclass s = s"
  unfolding rclass_def by (intro map_idI) auto

lemma jq_trim_parts:
  obtains u w where "s = u @ jq_trim s @ w" "\<forall>c \<in> set u. is_space c" "\<forall>c \<in> set w. is_space c"
    "jq_trim s \<noteq> [] \<Longrightarrow> \<not> is_space (hd (jq_trim s)) \<and> \<not> is_space (last (jq_trim s))"
proof
  let ?r = "dropWhile is_space s"
  show "s = takeWhile is_space s @ jq_trim s @ rev (takeWhile is_space (rev ?r))"
    unfolding jq_trim_def rev_append [symmetric] by simp
  show "\<forall>c \<in> set (takeWhile is_space s). is_space c" "\<forall>c \<in> set (rev (takeWhile is_space (rev ?r))). is_space c"
    by (auto dest: set_takeWhileD)
  assume n: "jq_trim s \<noteq> []"
  then have d: "dropWhile is_space (rev ?r) \<noteq> []" by (simp add: jq_trim_def)
  then have "\<not> is_space (last (jq_trim s))" using hd_dropWhile [OF d] by (simp add: jq_trim_def last_rev)
  moreover have "?r = jq_trim s @ rev (takeWhile is_space (rev ?r))"
    unfolding jq_trim_def rev_append [symmetric] by simp
  then have "hd (jq_trim s) = hd ?r" using n by (metis hd_append2)
  moreover have "?r \<noteq> []" using d by (metis dropWhile.simps(1) rev.simps(1))
  ultimately show "\<not> is_space (hd (jq_trim s)) \<and> \<not> is_space (last (jq_trim s))"
    using hd_dropWhile [of is_space s] by simp
qed

definition padded :: "string \<Rightarrow> bool" where
  "padded S \<longleftrightarrow> class_ok S \<and> S \<noteq> [] \<and> hd S = blank \<and> last S = blank"

lemma class_set_trim:
  assumes "padded s"
  shows "class_set (jq_trim s) = between_blanks (rclass s)"
proof -
  let ?s = s
  obtain u w where p: "?s = u @ jq_trim ?s @ w" "\<forall>c \<in> set u. is_space c" "\<forall>c \<in> set w. is_space c"
    "jq_trim ?s \<noteq> [] \<Longrightarrow> \<not> is_space (hd (jq_trim ?s)) \<and> \<not> is_space (last (jq_trim ?s))"
    by (rule jq_trim_parts [of ?s]) blast
  from p(1) assms have "class_ok u" "class_ok w" unfolding padded_def by (metis class_ok_simps(2))+
  with p have r: "rclass u = replicate (length u) blank" "rclass w = replicate (length w) blank"
    by (simp_all add: rclass_spaces)
  show ?thesis
  proof (cases "jq_trim ?s = []")
    case True
    then have "rclass ?s = replicate (length u + length w) blank" using p(1) r by (metis append_Nil rclass_simps(2) replicate_add)
    moreover have "class_set [] = {}" using between_blanks_blanks [of 2] by (simp add: class_set_def spaced_def numeral_2_eq_2)
    ultimately show ?thesis using True by (metis between_blanks_blanks)
  next
    case False
    have "u \<noteq> []" using p(1) p(4) [OF False] False assms
      unfolding padded_def by (metis append_Nil blank_space hd_append2)
    moreover have "w \<noteq> []" using p(1) p(4) [OF False] False assms
      unfolding padded_def by (metis append_Nil2 blank_space last_appendR)
    ultimately obtain m n where "length u = Suc m" "length w = Suc n" by (metis length_0_conv not0_implies_Suc)
    with r have "rclass ?s = replicate m blank @ blank # rclass (jq_trim ?s) @ blank # replicate n blank"
      using p(1) by (metis append_Cons append_assoc append_Nil rclass_simps(2) replicate_Suc replicate_append_same)
    then show ?thesis by (simp add: between_blanks_ends class_set_def spaced_def)
  qed
qed

text \<open>The names \<open>split(/\s+/)\<close> gives hold no whitespace.\<close>

lemma js_split_no_space: "c \<in> set (js_split spaceRe s) \<Longrightarrow> x \<in> set c \<Longrightarrow> \<not> is_space x"
proof (induction spaceRe s arbitrary: c rule: js_split.induct)
  case (1 s)
  have here: "\<not> is_space (s ! j)" if "j < length s" "match_at spaceRe (drop j s) = None" for j
    using that by (auto simp: match_at_spaceRe_None hd_drop_conv_nth)
  show ?case
  proof (cases "rx_search spaceRe s")
    case None
    with 1(2,3) obtain j where "j < length s" "x = s ! j" by (auto simp: js_split.simps [of _ s] in_set_conv_nth)
    with None here show ?thesis by (auto simp: rx_search_None_iff)
  next
    case (Some p)
    then obtain i n where s: "rx_search spaceRe s = Some (i, n)" by (cases p) auto
    have "0 < n" using match_at_spaceRe [OF rx_search_match [OF s]] by blast
    then have n: "n \<noteq> 0" by simp
    with s 1(2) consider "c = take i s" | "c \<in> set (js_split spaceRe (drop (i + n) s))"
      by (auto simp: js_split.simps [of _ s])
    then show ?thesis
    proof cases
      case 1
      with \<open>x \<in> set c\<close> obtain j where "j < i" "j < length s" "x = s ! j" by (auto simp: in_set_conv_nth)
      with here rx_search_leftmost [OF s] show ?thesis by simp
    next
      case 2
      with 1(1) [OF s refl n] \<open>x \<in> set c\<close> show ?thesis by blast
    qed
  qed
qed

definition class_names :: "string \<Rightarrow> string set" where
  "class_names value = set (js_split spaceRe value) - {[]}"

lemma rclass_word: "\<forall>x \<in> set c. \<not> is_space x \<Longrightarrow> rclass c = c"
  unfolding rclass_def using class_tab_simps(2) by (intro map_idI) auto

lemma no_blank_word: "\<forall>x \<in> set c. \<not> is_space x \<Longrightarrow> blank \<notin> set c"
  by auto

lemma hasClass_iff: "one_word c \<Longrightarrow> hasClass c className \<longleftrightarrow> c \<in> class_set className"
  by (auto simp: hasClass_def class_set_def between_blanks_def one_word_def)

section \<open>addClass is insertion\<close>

lemma add_names:
  assumes "\<forall>c \<in> set cs. \<forall>x \<in> set c. \<not> is_space x" "padded S"
  shows "padded (fold (\<lambda>c S. if sublist (spaced c) S then S else S @ c @ [blank]) cs S) \<and>
    between_blanks (rclass (fold (\<lambda>c S. if sublist (spaced c) S then S else S @ c @ [blank]) cs S)) =
      between_blanks (rclass S) \<union> (set cs - {[]})"
  using assms
proof (induction cs arbitrary: S)
  case (Cons c cs)
  let ?S = "if sublist (spaced c) S then S else S @ c @ [blank]"
  have c: "\<forall>x \<in> set c. \<not> is_space x" "rclass c = c" "blank \<notin> set c"
    using Cons.prems(1) by (auto intro: rclass_word)
  obtain s where s: "S = s @ [blank]" "class_ok S"
    using Cons.prems(2) by (metis padded_def append_butlast_last_id)
  have "padded ?S" using Cons.prems(2) class_ok_word [OF c(1)] by (auto simp: padded_def)
  moreover have "between_blanks (rclass ?S) = between_blanks (rclass S) \<union> ({c} - {[]})"
  proof (cases "sublist (spaced c) S")
    case True
    then obtain u v where "S = u @ spaced c @ v" by (auto simp: sublist_def)
    then have "rclass S = rclass u @ spaced c @ rclass v" using c(2) by (simp add: spaced_def)
    then have "sublist (spaced c) (rclass S)" by (metis sublist_def)
    with True c(3) show ?thesis by (auto simp: between_blanks_def)
  next
    case False
    then have "rclass ?S = rclass s @ blank # c @ [blank]" using s c(2) by simp
    with between_blanks_split [of "rclass s" "c @ [blank]"] between_blanks_word [OF c(3)] s(1)
    show ?thesis by auto
  qed
  ultimately show ?case using Cons.IH [of ?S] Cons.prems(1) by auto
qed simp

lemma class_set_word: "\<forall>x \<in> set c. \<not> is_space x \<Longrightarrow> class_set c = {c} - {[]}"
  using between_blanks_word [OF no_blank_word] by (auto simp: class_set_def spaced_def rclass_word)

lemma addClass_set:
  assumes "class_ok className"
  shows "class_set (addClass value className) = class_set className \<union> class_names value"
    and "class_ok (addClass value className)"
proof -
  let ?S = "fold (\<lambda>c S. if sublist (spaced c) S then S else S @ c @ [blank]) (js_split spaceRe value) (spaced className)"
  have w: "\<forall>c \<in> set (js_split spaceRe value). \<forall>x \<in> set c. \<not> is_space x" using js_split_no_space by blast
  have "padded (spaced className)" using assms by (auto simp: padded_def spaced_def)
  note a = add_names [OF w this]
  have names: "set (js_split spaceRe value) = {value}" if "length (js_split spaceRe value) = 1"
  proof -
    have "js_split spaceRe value = [value]"
      using that by (subst (asm) js_split.simps, subst js_split.simps)
        (auto split: option.splits if_splits simp: js_split_not_Nil)
    then show ?thesis by simp
  qed
  have e: "class_set [] = {}" using class_set_word [of "[]"] by simp
  have nil: "class_names [] = {}" by (simp add: class_names_def js_split.simps spaceRe_def)
  have "addClass value className = jq_trim ?S"
    if "value \<noteq> []" "\<not> (className = [] \<and> length (js_split spaceRe value) = 1)"
    unfolding addClass_def Let_def using that by argo
  then consider "value = []" | "value \<noteq> []" "className = []" "length (js_split spaceRe value) = 1"
    | "addClass value className = jq_trim ?S" by blast
  then have "class_set (addClass value className) = class_set className \<union> class_names value \<and>
      class_ok (addClass value className)"
  proof cases
    case 1
    with nil assms show ?thesis by (simp add: addClass_def)
  next
    case 2
    with names [OF 2(3)] w have "class_set value = {value}" "class_ok value" "class_names value = {value}"
      by (auto simp: class_set_word class_names_def class_ok_word)
    with 2 e show ?thesis by (simp add: addClass_def)
  next
    case 3
    have "set (jq_trim ?S) \<subseteq> set ?S" by (rule jq_trim_subset)
    with a have "class_ok (jq_trim ?S)" unfolding padded_def by (blast intro: class_ok_mono)
    with 3 class_set_trim [of ?S] a show ?thesis by (auto simp: class_set_def class_names_def)
  qed
  then show "class_set (addClass value className) = class_set className \<union> class_names value"
    "class_ok (addClass value className)" by blast+
qed

section \<open>removeClass is deletion\<close>

lemma remove_all_set:
  "blank \<notin> set c \<Longrightarrow> padded S \<Longrightarrow>
     padded (remove_all c S) \<and> set (remove_all c S) \<subseteq> set S \<and>
     between_blanks (remove_all c S) = between_blanks S - {c}"
proof (induction c S rule: remove_all.induct)
  case (1 c S)
  show ?case
  proof (cases "sublist (spaced c) S")
    case False
    with 1(2,3) show ?thesis by (auto simp: remove_all.simps [of c S] between_blanks_def)
  next
    case True
    have "spaced c \<noteq> []" by (simp add: spaced_def)
    from replace_first_occurs [OF True this, of "[blank]"] obtain u v where uv: "S = u @ spaced c @ v"
      "replace_first (spaced c) [blank] S = u @ blank # v" by auto
    let ?S = "u @ blank # v"
    have sub: "set ?S \<subseteq> set S" using uv(1) by (auto simp: spaced_def)
    with 1(3) have "class_ok ?S" unfolding padded_def by (blast intro: class_ok_mono)
    moreover have "hd ?S = blank" using uv(1) 1(3) by (cases u) (auto simp: padded_def)
    moreover have "last ?S = blank" using uv(1) 1(3) by (cases "v = []") (auto simp: padded_def)
    ultimately have "padded ?S" by (simp add: padded_def)
    with 1(1) [OF True 1(2)] uv(2) have IH: "padded (remove_all c ?S)" "set (remove_all c ?S) \<subseteq> set ?S"
      "between_blanks (remove_all c ?S) = between_blanks ?S - {c}" by auto
    have "between_blanks S = between_blanks (u @ [blank]) \<union> between_blanks (blank # c @ [blank]) \<union> between_blanks (blank # v)"
      using between_blanks_split [of u "c @ blank # v"] between_blanks_split [of "blank # c" v] uv(1)
      by (simp add: spaced_def Un_assoc)
    then have "between_blanks S - {c} = between_blanks ?S - {c}"
      using between_blanks_split [of u v] between_blanks_word [OF 1(2)] by auto
    moreover have "remove_all c S = remove_all c ?S" using True uv(2) by (simp add: remove_all.simps [of c S])
    ultimately show ?thesis using IH sub by auto
  qed
qed

lemma remove_names:
  assumes "\<forall>c \<in> set cs. blank \<notin> set c" "padded S"
  shows "padded (fold remove_all cs S) \<and> set (fold remove_all cs S) \<subseteq> set S \<and>
    between_blanks (fold remove_all cs S) = between_blanks S - set cs"
  using assms
proof (induction cs arbitrary: S)
  case (Cons c cs)
  from remove_all_set [of c S] Cons have "padded (remove_all c S)" "set (remove_all c S) \<subseteq> set S"
    "between_blanks (remove_all c S) = between_blanks S - {c}" by auto
  with Cons.IH [of "remove_all c S"] Cons.prems(1) show ?case by auto
qed simp

lemma removeClass_set:
  assumes "class_ok className"
  shows "class_set (removeClass value className) = class_set className - class_names value"
    and "class_ok (removeClass value className)"
proof -
  have e: "class_set [] = {}" using class_set_word [of "[]"] by simp
  have nil: "class_names [] = {}" by (simp add: class_names_def js_split.simps spaceRe_def)
  let ?S = "rclass (spaced className)" let ?R = "fold remove_all (js_split spaceRe value) ?S"
  have tabs: "\<forall>c \<in> set ?S. \<not> class_tab c" by (auto simp: rclass_def)
  have "set ?S \<subseteq> set className \<union> {blank}" by (auto simp: rclass_def spaced_def)
  then have "class_ok ?S" using assms by (auto simp: class_ok_def)
  then have "padded ?S" by (simp add: padded_def spaced_def)
  moreover have "\<forall>c \<in> set (js_split spaceRe value). blank \<notin> set c"
    using js_split_no_space no_blank_word by metis
  ultimately have r: "padded ?R" "set ?R \<subseteq> set ?S"
    "between_blanks ?R = between_blanks ?S - set (js_split spaceRe value)" using remove_names by metis+
  have "\<forall>c \<in> set ?R. \<not> class_tab c" using tabs r(2) by blast
  then have "rclass ?R = ?R" by (rule rclass_no_tab)
  then have "class_set (jq_trim ?R) = class_set className - set (js_split spaceRe value)"
    using class_set_trim [OF r(1)] r(3) class_set_def [of className] by argo
  moreover have "[] \<notin> class_set className" by (simp add: class_set_def between_blanks_def)
  ultimately have res: "class_set (jq_trim ?R) = class_set className - class_names value"
    unfolding class_names_def by blast
  have "set (jq_trim ?R) \<subseteq> set ?R" by (rule jq_trim_subset)
  then have res2: "class_ok (jq_trim ?R)" using r(1) unfolding padded_def by (blast intro: class_ok_mono)
  show "class_set (removeClass value className) = class_set className - class_names value"
    "class_ok (removeClass value className)"
    using assms e nil res res2 by (simp_all add: removeClass_def)
qed

lemma class_names_word:
  assumes "one_word c"
  shows "class_names c = {c}"
proof -
  have "rx_search spaceRe c = None"
  proof (cases "rx_search spaceRe c")
    case (Some p)
    then obtain i n where s: "rx_search spaceRe c = Some (i, n)" by (cases p) auto
    from match_at_spaceRe [OF rx_search_match [OF this]] have "takeWhile is_space (drop i c) \<noteq> []" by force
    then obtain x where "x \<in> set (drop i c)" "is_space x"
      by (metis list.set_intros(1) neq_Nil_conv set_takeWhileD)
    with assms show ?thesis by (auto simp: one_word_def dest: in_set_dropD)
  qed simp
  then have "js_split spaceRe c = [c]" by (simp add: js_split.simps)
  with assms show ?thesis by (auto simp: class_names_def one_word_def)
qed

lemma toggle1_set:
  assumes "class_ok className" "one_word c"
  shows "class_set (toggle1 st c className) =
      (if (case st of Some b \<Rightarrow> b | None \<Rightarrow> c \<notin> class_set className)
       then insert c (class_set className) else class_set className - {c})"
    and "class_ok (toggle1 st c className)"
  using assms by (auto simp: toggle1_def addClass_set removeClass_set hasClass_iff class_names_word
      split: option.splits)

section \<open>The interface the widgets use\<close>

text \<open>What a list of class names promises: \<open>has\<close> after \<open>add\<close> and \<open>remove\<close>.\<close>

locale class_list =
  fixes has :: "'n \<Rightarrow> 'c \<Rightarrow> bool"
    and add :: "'n \<Rightarrow> 'c \<Rightarrow> 'c"
    and del :: "'n \<Rightarrow> 'c \<Rightarrow> 'c"
    and ok :: "'c \<Rightarrow> bool"
    and name :: "'n \<Rightarrow> bool"
  assumes has_add: "ok s \<Longrightarrow> name c \<Longrightarrow> name d \<Longrightarrow> has d (add c s) \<longleftrightarrow> d = c \<or> has d s"
    and has_del: "ok s \<Longrightarrow> name c \<Longrightarrow> name d \<Longrightarrow> has d (del c s) \<longleftrightarrow> d \<noteq> c \<and> has d s"
    and ok_add: "ok s \<Longrightarrow> ok (add c s)"
    and ok_del: "ok s \<Longrightarrow> ok (del c s)"
begin

lemma ok_fold_add: "ok s \<Longrightarrow> ok (fold add cs s)"
  by (induction cs arbitrary: s) (auto simp: ok_add)

lemma ok_fold_del: "ok s \<Longrightarrow> ok (fold del cs s)"
  by (induction cs arbitrary: s) (auto simp: ok_del)

lemma has_fold_add:
  "ok s \<Longrightarrow> \<forall>c \<in> set cs. name c \<Longrightarrow> name d \<Longrightarrow> has d (fold add cs s) \<longleftrightarrow> d \<in> set cs \<or> has d s"
  by (induction cs arbitrary: s) (auto simp: ok_add has_add)

lemma has_fold_del:
  "ok s \<Longrightarrow> \<forall>c \<in> set cs. name c \<Longrightarrow> name d \<Longrightarrow> has d (fold del cs s) \<longleftrightarrow> d \<notin> set cs \<and> has d s"
  by (induction cs arbitrary: s) (auto simp: ok_del has_del)

lemma del_add: "ok s \<Longrightarrow> name c \<Longrightarrow> name d \<Longrightarrow> has d (del c (add c s)) \<longleftrightarrow> d \<noteq> c \<and> has d s"
  by (auto simp: has_del has_add ok_add)

end

interpretation classes: class_list hasClass addClass removeClass class_ok one_word
proof
  fix s c d
  assume ok: "class_ok s" and c: "one_word c" and d: "one_word d"
  show "hasClass d (addClass c s) \<longleftrightarrow> d = c \<or> hasClass d s"
    "hasClass d (removeClass c s) \<longleftrightarrow> d \<noteq> c \<and> hasClass d s"
    by (auto simp: hasClass_iff [OF d] addClass_set [OF ok] removeClass_set [OF ok] class_names_word [OF c])
qed (simp_all add: addClass_set removeClass_set)



end
