(* ===== verification/Dom.thy ===== *)
theory Dom
  imports JqClass
begin

text \<open>
  The document as the widgets see it through jQuery: a store of elements that are named by their
  index, with class attribute, attributes, style, children and parent. A jQuery object is the
  list of its elements. Only what the widgets call is here: class methods on every element of a
  list, attributes, style, and moving up, down and sideways in the tree.
\<close>

record node =
  nd_tag :: string
  nd_class :: string
  nd_attrs :: "string js_obj"
  nd_style :: "string js_obj"
  nd_html :: string
  nd_kids :: "nat list"
  nd_parent :: "nat option"

type_synonym dom = "node list"

definition upd_node :: "(node \<Rightarrow> node) \<Rightarrow> nat \<Rightarrow> dom \<Rightarrow> dom" where
  "upd_node f i d = (if i < length d then d[i := f (d ! i)] else d)"

text \<open>\<open>this.each(...)\<close> over the elements of a jQuery object.\<close>

definition each :: "(node \<Rightarrow> node) \<Rightarrow> nat list \<Rightarrow> dom \<Rightarrow> dom" where
  "each f els d = fold (upd_node f) els d"

section \<open>Classes, attributes, style\<close>

definition has_class :: "string \<Rightarrow> dom \<Rightarrow> nat \<Rightarrow> bool" where
  "has_class c d i \<longleftrightarrow> i < length d \<and> hasClass c (nd_class (d ! i))"

lemma has_class_bound: "has_class c d i \<Longrightarrow> i < length d"
  by (simp add: has_class_def)

text \<open>\<open>$els.hasClass(c)\<close>: some element has the class.\<close>

definition any_class :: "string \<Rightarrow> dom \<Rightarrow> nat list \<Rightarrow> bool" where
  "any_class c d els \<longleftrightarrow> list_ex (has_class c d) els"

definition add_class :: "string \<Rightarrow> nat list \<Rightarrow> dom \<Rightarrow> dom" where
  "add_class c els d = each (\<lambda>n. n\<lparr>nd_class := addClass c (nd_class n)\<rparr>) els d"

definition remove_class :: "string \<Rightarrow> nat list \<Rightarrow> dom \<Rightarrow> dom" where
  "remove_class c els d = each (\<lambda>n. n\<lparr>nd_class := removeClass c (nd_class n)\<rparr>) els d"

definition toggle_class :: "string \<Rightarrow> nat list \<Rightarrow> dom \<Rightarrow> dom" where
  "toggle_class c els d = each (\<lambda>n. n\<lparr>nd_class := toggleClass c None (nd_class n)\<rparr>) els d"

text \<open>\<open>$els.attr(k)\<close> reads the first element, \<open>attr(k, v)\<close> writes all.\<close>

definition get_attr :: "string \<Rightarrow> dom \<Rightarrow> nat list \<Rightarrow> string option" where
  "get_attr k d els = (case els of [] \<Rightarrow> None | i # _ \<Rightarrow> if i < length d then obj_get (nd_attrs (d ! i)) k else None)"

definition set_attr :: "string \<Rightarrow> string \<Rightarrow> nat list \<Rightarrow> dom \<Rightarrow> dom" where
  "set_attr k v els d = each (\<lambda>n. n\<lparr>nd_attrs := obj_set k v (nd_attrs n)\<rparr>) els d"

definition remove_attr :: "string \<Rightarrow> nat list \<Rightarrow> dom \<Rightarrow> dom" where
  "remove_attr k els d = each (\<lambda>n. n\<lparr>nd_attrs := filter (\<lambda>(k', v). k' \<noteq> k) (nd_attrs n)\<rparr>) els d"

definition set_style :: "string \<Rightarrow> string \<Rightarrow> nat list \<Rightarrow> dom \<Rightarrow> dom" where
  "set_style k v els d = each (\<lambda>n. n\<lparr>nd_style := obj_set k v (nd_style n)\<rparr>) els d"

definition set_html :: "string \<Rightarrow> nat list \<Rightarrow> dom \<Rightarrow> dom" where
  "set_html t els d = each (\<lambda>n. n\<lparr>nd_html := t\<rparr>) els d"

definition show_els :: "nat list \<Rightarrow> dom \<Rightarrow> dom" where
  "show_els els d = set_style ''display'' ''block'' els d"

definition hide_els :: "nat list \<Rightarrow> dom \<Rightarrow> dom" where
  "hide_els els d = set_style ''display'' ''none'' els d"

section \<open>The tree\<close>

definition kids :: "dom \<Rightarrow> nat \<Rightarrow> nat list" where
  "kids d i = (if i < length d then nd_kids (d ! i) else [])"

definition parent_of :: "dom \<Rightarrow> nat \<Rightarrow> nat option" where
  "parent_of d i = (if i < length d then nd_parent (d ! i) else None)"

text \<open>\<open>$els.parent()\<close>, \<open>children()\<close>: without duplicates.\<close>

definition parents1 :: "dom \<Rightarrow> nat list \<Rightarrow> nat list" where
  "parents1 d els = remdups (List.map_filter (parent_of d) els)"

definition children :: "dom \<Rightarrow> nat list \<Rightarrow> nat list" where
  "children d els = remdups (concat (map (kids d) els))"

text \<open>The elements below one, in document order; the fuel is the depth.\<close>

fun below :: "nat \<Rightarrow> dom \<Rightarrow> nat \<Rightarrow> nat list" where
  "below 0 d i = []"
| "below (Suc n) d i = concat (map (\<lambda>k. k # below n d k) (kids d i))"

definition find_els :: "(dom \<Rightarrow> nat \<Rightarrow> bool) \<Rightarrow> dom \<Rightarrow> nat list \<Rightarrow> nat list" where
  "find_els p d els = filter (p d) (remdups (concat (map (below (length d) d) els)))"

fun climb :: "nat \<Rightarrow> (nat \<Rightarrow> bool) \<Rightarrow> dom \<Rightarrow> nat \<Rightarrow> nat list" where
  "climb 0 p d i = []"
| "climb (Suc n) p d i =
     (if p i then [i] else case parent_of d i of None \<Rightarrow> [] | Some j \<Rightarrow> climb n p d j)"

text \<open>\<open>$els.closest(p)\<close>\<close>

definition closest :: "(dom \<Rightarrow> nat \<Rightarrow> bool) \<Rightarrow> dom \<Rightarrow> nat list \<Rightarrow> nat list" where
  "closest p d els = remdups (concat (map (climb (Suc (length d)) (p d) d) els))"

definition siblings_of :: "dom \<Rightarrow> nat \<Rightarrow> nat list" where
  "siblings_of d i = (case parent_of d i of None \<Rightarrow> [] | Some j \<Rightarrow> kids d j)"

fun after_in :: "nat list \<Rightarrow> nat \<Rightarrow> nat list" where
  "after_in (x # y # ys) i = (if x = i then [y] else after_in (y # ys) i)"
| "after_in _ i = []"

definition next_of :: "dom \<Rightarrow> nat list \<Rightarrow> nat list" where
  "next_of d els = remdups (concat (map (\<lambda>i. after_in (siblings_of d i) i) els))"

definition prev_of :: "dom \<Rightarrow> nat list \<Rightarrow> nat list" where
  "prev_of d els = remdups (concat (map (\<lambda>i. after_in (rev (siblings_of d i)) i) els))"

text \<open>\<open>$els.index(x)\<close>: the place of the first element of \<open>x\<close>, or -1.\<close>

fun place_of :: "nat \<Rightarrow> nat list \<Rightarrow> int" where
  "place_of x [] = -1"
| "place_of x (y # ys) = (if x = y then 0 else let r = place_of x ys in if r < 0 then r else r + 1)"

definition index_of :: "nat list \<Rightarrow> nat list \<Rightarrow> int" where
  "index_of els xs = (case xs of [] \<Rightarrow> -1 | x # _ \<Rightarrow> place_of x els)"

definition detach1 :: "nat \<Rightarrow> dom \<Rightarrow> dom" where
  "detach1 i d =
     (let d1 = (case parent_of d i of None \<Rightarrow> d
                | Some j \<Rightarrow> upd_node (\<lambda>n. n\<lparr>nd_kids := removeAll i (nd_kids n)\<rparr>) j d)
      in upd_node (\<lambda>n. n\<lparr>nd_parent := None\<rparr>) i d1)"

definition detach :: "nat list \<Rightarrow> dom \<Rightarrow> dom" where
  "detach els d = fold detach1 els d"

definition append_to :: "nat \<Rightarrow> nat \<Rightarrow> dom \<Rightarrow> dom" where
  "append_to j i d =
     upd_node (\<lambda>n. n\<lparr>nd_parent := Some j\<rparr>) i
       (upd_node (\<lambda>n. n\<lparr>nd_kids := nd_kids n @ [i]\<rparr>) j (detach1 i d))"

fun put_after :: "nat \<Rightarrow> nat \<Rightarrow> nat list \<Rightarrow> nat list" where
  "put_after x i [] = []"
| "put_after x i (y # ys) = (if y = x then y # i # ys else y # put_after x i ys)"

text \<open>\<open>$i.insertAfter(x)\<close>; nothing happens to the tree if \<open>x\<close> has no parent.\<close>

definition insert_after :: "nat \<Rightarrow> nat \<Rightarrow> dom \<Rightarrow> dom" where
  "insert_after x i d =
     (let d1 = detach1 i d in
      case parent_of d1 x of
        None \<Rightarrow> d1
      | Some j \<Rightarrow> upd_node (\<lambda>n. n\<lparr>nd_parent := Some j\<rparr>) i
                    (upd_node (\<lambda>n. n\<lparr>nd_kids := put_after x i (nd_kids n)\<rparr>) j d1))"

definition new_node :: "node \<Rightarrow> dom \<Rightarrow> nat \<times> dom" where
  "new_node n d = (length d, d @ [n])"

definition plain_node :: "string \<Rightarrow> string \<Rightarrow> node" where
  "plain_node tag cls = \<lparr>nd_tag = tag, nd_class = cls, nd_attrs = [], nd_style = [], nd_html = [],
     nd_kids = [], nd_parent = None\<rparr>"

section \<open>Frame lemmas\<close>

lemma upd_node_nth [simp]:
  "length (upd_node f i d) = length d"
  "j < length d \<Longrightarrow> upd_node f i d ! j = (if j = i then f (d ! j) else d ! j)"
  by (auto simp: upd_node_def)

lemma each_length [simp]: "length (each f els d) = length d"
  unfolding each_def by (induction els arbitrary: d) auto

lemma each_keeps:
  assumes "\<And>n. g (f n) = g n" "j < length d"
  shows "g (each f els d ! j) = g (d ! j)"
  unfolding each_def using assms(2) by (induction els arbitrary: d) (auto simp: assms(1))

lemma each_other: "j < length d \<Longrightarrow> j \<notin> set els \<Longrightarrow> each f els d ! j = d ! j"
  unfolding each_def by (induction els arbitrary: d) auto

text \<open>A function of a node that gives the same the second time is applied once.\<close>

lemma each_idem:
  assumes "\<And>n. f (f n) = f n" "j < length d" "j \<in> set els"
  shows "each f els d ! j = f (d ! j)"
  unfolding each_def using assms(2,3)
proof (induction els arbitrary: d)
  case (Cons i els)
  have "fold (upd_node f) els (upd_node f i d) ! j = upd_node f i d ! j" if "j \<notin> set els"
    using each_other [of j "upd_node f i d" els f] Cons.prems(1) that by (simp add: each_def)
  then show ?case using Cons assms(1) by (cases "j \<in> set els") auto
qed simp

text \<open>Every class attribute is an ordinary one.\<close>

definition dom_ok :: "dom \<Rightarrow> bool" where
  "dom_ok d \<longleftrightarrow> (\<forall>n \<in> set d. class_ok (nd_class n))"

lemma dom_ok_nth: "dom_ok d \<Longrightarrow> i < length d \<Longrightarrow> class_ok (nd_class (d ! i))"
  by (simp add: dom_ok_def)

lemma each_prop:
  assumes "\<And>n. P n \<Longrightarrow> P (f n)" "\<forall>n \<in> set d. P n"
  shows "\<forall>n \<in> set (each f els d). P n"
  unfolding each_def using assms(2)
proof (induction els arbitrary: d)
  case (Cons i els)
  have "\<forall>n \<in> set (upd_node f i d). P n"
    using Cons.prems assms(1) by (auto simp: upd_node_def dest!: subsetD [OF set_update_subset_insert])
  with Cons.IH show ?case by simp
qed simp

lemma dom_ok_class [simp]:
  "dom_ok d \<Longrightarrow> dom_ok (add_class c els d)" "dom_ok d \<Longrightarrow> dom_ok (remove_class c els d)"
  unfolding dom_ok_def add_class_def remove_class_def by (rule each_prop; simp add: classes.ok_add classes.ok_del)+

lemma dom_ok_attr [simp]:
  "dom_ok d \<Longrightarrow> dom_ok (set_attr k v els d)" "dom_ok d \<Longrightarrow> dom_ok (remove_attr k els d)"
  "dom_ok d \<Longrightarrow> dom_ok (set_style k v els d)" "dom_ok d \<Longrightarrow> dom_ok (set_html t els d)"
  unfolding dom_ok_def set_attr_def remove_attr_def set_style_def set_html_def by (rule each_prop; simp)+

lemma each_has_class:
  assumes "i < length d" "\<And>n. class_ok (nd_class n) \<Longrightarrow> class_ok (nd_class (f n))" "dom_ok d"
    "\<And>n. class_ok (nd_class n) \<Longrightarrow> hasClass c (nd_class (f n)) \<longleftrightarrow> (if b then True else False) \<or> (keep \<and> hasClass c (nd_class n))"
    "b \<or> \<not> keep \<or> True"
  shows "hasClass c (nd_class (each f els d ! i)) \<longleftrightarrow>
    (if i \<in> set els then b \<or> (keep \<and> hasClass c (nd_class (d ! i))) else hasClass c (nd_class (d ! i)))"
  unfolding each_def using assms(1,3)
proof (induction els arbitrary: d)
  case (Cons j els)
  have "dom_ok (upd_node f j d)"
    using Cons.prems(2) assms(2) unfolding dom_ok_def upd_node_def
    by (auto dest!: subsetD [OF set_update_subset_insert])
  with Cons.IH [of "upd_node f j d"] Cons.prems assms(4) show ?case
    by (auto simp: dom_ok_nth)
qed simp

lemma has_class_add [simp]:
  "dom_ok d \<Longrightarrow> one_word c \<Longrightarrow> one_word k \<Longrightarrow>
     has_class c (add_class k els d) i \<longleftrightarrow> i < length d \<and> (c = k \<and> i \<in> set els \<or> has_class c d i)"
  unfolding has_class_def add_class_def
  by (cases "i < length d")
    (auto simp: each_has_class [where b = "c = k" and keep = True] classes.has_add classes.ok_add)

lemma has_class_remove [simp]:
  "dom_ok d \<Longrightarrow> one_word c \<Longrightarrow> one_word k \<Longrightarrow>
     has_class c (remove_class k els d) i \<longleftrightarrow> has_class c d i \<and> \<not> (c = k \<and> i \<in> set els)"
  unfolding has_class_def remove_class_def
  by (cases "i < length d")
    (auto simp: each_has_class [where b = False and keep = "c \<noteq> k"] classes.has_del classes.ok_del)

lemma class_ops_length [simp]:
  "length (add_class c els d) = length d" "length (remove_class c els d) = length d"
  "length (set_attr k v els d) = length d" "length (remove_attr k els d) = length d"
  "length (set_style k v els d) = length d" "length (set_html t els d) = length d"
  "length (toggle_class c els d) = length d"
  by (simp_all add: add_class_def remove_class_def set_attr_def remove_attr_def set_style_def set_html_def
      toggle_class_def)

lemma has_class_attr [simp]:
  "has_class c (set_attr k v els d) i = has_class c d i"
  "has_class c (remove_attr k els d) i = has_class c d i"
  "has_class c (set_style k v els d) i = has_class c d i"
  "has_class c (set_html t els d) i = has_class c d i"
  by (auto simp: has_class_def set_attr_def remove_attr_def set_style_def set_html_def
      each_keeps [where g = nd_class])

text \<open>The operations on classes, attributes and style leave the tree as it is.\<close>

definition same_tree :: "dom \<Rightarrow> dom \<Rightarrow> bool" where
  "same_tree d e \<longleftrightarrow> map nd_kids d = map nd_kids e \<and> map nd_parent d = map nd_parent e"

lemma same_tree_refl [simp]: "same_tree d d"
  by (simp add: same_tree_def)

lemma same_tree_trans: "same_tree a b \<Longrightarrow> same_tree b c \<Longrightarrow> same_tree a c"
  by (simp add: same_tree_def)

lemma same_tree_each: "(\<And>n. nd_kids (f n) = nd_kids n) \<Longrightarrow> (\<And>n. nd_parent (f n) = nd_parent n) \<Longrightarrow>
    same_tree (each f els d) d"
  unfolding same_tree_def by (auto intro!: nth_equalityI each_keeps)

lemma same_tree_ops [simp]:
  "same_tree (add_class c els d) d" "same_tree (remove_class c els d) d" "same_tree (set_attr k v els d) d"
  "same_tree (remove_attr k els d) d" "same_tree (set_style k v els d) d" "same_tree (set_html t els d) d"
  "same_tree (toggle_class c els d) d"
  unfolding add_class_def remove_class_def set_attr_def remove_attr_def set_style_def set_html_def toggle_class_def
  by (rule same_tree_each; simp)+

lemma same_tree_length: "same_tree d e \<Longrightarrow> length d = length e"
  unfolding same_tree_def by (metis length_map)

lemma same_tree_kids: "same_tree d e \<Longrightarrow> kids d i = kids e i"
  using same_tree_length [of d e] unfolding same_tree_def kids_def by (metis nth_map)

lemma same_tree_parent: "same_tree d e \<Longrightarrow> parent_of d i = parent_of e i"
  using same_tree_length [of d e] unfolding same_tree_def parent_of_def by (metis nth_map)

lemma same_tree_below: "same_tree d e \<Longrightarrow> below n d i = below n e i"
  by (induction n arbitrary: i) (simp_all add: same_tree_kids)

lemma same_tree_nav:
  assumes "same_tree d e"
  shows "children d els = children e els" "parents1 d els = parents1 e els" "siblings_of d i = siblings_of e i"
    "next_of d els = next_of e els" "prev_of d els = prev_of e els"
proof -
  have k: "kids d = kids e" and p: "parent_of d = parent_of e"
    using assms same_tree_kids same_tree_parent by blast+
  then have s: "siblings_of d = siblings_of e" by (simp add: fun_eq_iff siblings_of_def split: option.split)
  show "children d els = children e els" "parents1 d els = parents1 e els" "siblings_of d i = siblings_of e i"
    "next_of d els = next_of e els" "prev_of d els = prev_of e els"
    using k p s by (simp_all add: children_def parents1_def next_of_def prev_of_def)
qed

text \<open>Moving elements in the tree leaves the classes, and the parents of all others, as they are.\<close>

lemma moved_length [simp]: "length (detach1 i d) = length d" "length (append_to j i d) = length d"
  by (simp_all add: detach1_def append_to_def Let_def split: option.split)

lemma has_class_upd: "(\<And>n. nd_class (f n) = nd_class n) \<Longrightarrow> has_class c (upd_node f i d) j = has_class c d j"
  by (auto simp: has_class_def upd_node_def nth_list_update)

lemma has_class_moved [simp]: "has_class c (detach1 i d) j = has_class c d j"
  "has_class c (append_to k i d) j = has_class c d j"
  by (simp_all add: detach1_def append_to_def Let_def has_class_upd split: option.split)

lemma parent_upd: "(\<And>n. nd_parent (f n) = nd_parent n) \<Longrightarrow> parent_of (upd_node f i d) j = parent_of d j"
  by (auto simp: parent_of_def upd_node_def nth_list_update)

lemma parent_set: "parent_of (upd_node (\<lambda>n. n\<lparr>nd_parent := p\<rparr>) i d) j = (if j = i \<and> i < length d then p else parent_of d j)"
  by (auto simp: parent_of_def upd_node_def nth_list_update)

lemma parent_moved:
  "parent_of (detach1 i d) j = (if j = i then None else parent_of d j)"
  "parent_of (append_to k i d) j = (if j = i \<and> i < length d then Some k else if j = i then None else parent_of d j)"
proof -
  have l: "parent_of (upd_node (\<lambda>n. n\<lparr>nd_kids := g (nd_kids n)\<rparr>) x d') y = parent_of d' y" for g x d' y
    by (rule parent_upd) simp
  show 1: "parent_of (detach1 i d) j = (if j = i then None else parent_of d j)" for j
    by (auto simp: detach1_def Let_def parent_set l split: option.split) (auto simp: parent_of_def)
  show "parent_of (append_to k i d) j = (if j = i \<and> i < length d then Some k else if j = i then None else parent_of d j)"
    by (simp add: append_to_def parent_set parent_upd 1)
qed

lemma dom_ok_upd: "(\<And>n. nd_class (f n) = nd_class n) \<Longrightarrow> dom_ok (upd_node f i d) = dom_ok d"
  unfolding dom_ok_def all_set_conv_all_nth by (auto simp: upd_node_def nth_list_update)

lemma dom_ok_moved [simp]: "dom_ok (detach1 i d) = dom_ok d" "dom_ok (append_to k i d) = dom_ok d"
  by (simp_all add: detach1_def append_to_def Let_def dom_ok_upd split: option.split)

lemma has_class_new [simp]: "has_class c (d @ [n]) i \<longleftrightarrow> (if i = length d then hasClass c (nd_class n) else has_class c d i)"
  by (auto simp: has_class_def nth_append)

lemma parent_new: "parent_of (d @ [n]) i = (if i = length d then nd_parent n else parent_of d i)"
  by (auto simp: parent_of_def nth_append)

lemma dom_ok_new [simp]: "dom_ok (d @ [n]) \<longleftrightarrow> dom_ok d \<and> class_ok (nd_class n)"
  by (auto simp: dom_ok_def)

lemma parent_ops [simp]:
  "parent_of (add_class c els d) i = parent_of d i" "parent_of (remove_class c els d) i = parent_of d i"
  "parent_of (set_attr k v els d) i = parent_of d i" "parent_of (set_style k v els d) i = parent_of d i"
  by (simp_all add: same_tree_parent [OF same_tree_ops(1)] same_tree_parent [OF same_tree_ops(2)]
      same_tree_parent [OF same_tree_ops(3)] same_tree_parent [OF same_tree_ops(5)])

end
