(* ===== verification/BsBase.thy ===== *)
theory BsBase
  imports Dom
begin

text \<open>
  What the widgets of \<open>bootstrap.js\<close> share: the page around them (how the document
  answers a selector, whether CSS transitions are supported, which events a listener of the page
  prevents), the handlers and timers they leave behind, and the expressions that turn an
  \<open>href\<close> into a selector. A handler or timer holds a closure of the widget, a value of
  the type \<open>'k\<close> of that widget. Listeners of the page may prevent an event but do not
  themselves change the document or call the widget.
\<close>

record bs_env =
  bs_transition :: "string option"
  bs_select :: "dom \<Rightarrow> string \<Rightarrow> nat list"
  bs_veto :: "string \<Rightarrow> nat list \<Rightarrow> bool"

text \<open>A page in which nothing is animated and nothing prevented.\<close>

definition at_once :: "bs_env \<Rightarrow> bool" where
  "at_once E \<longleftrightarrow> bs_transition E = None \<and> (\<forall>ev els. \<not> bs_veto E ev els)"

text \<open>The class names of the widgets are single words.\<close>

lemma one_words [simp]:
  "one_word ''active''" "one_word ''item''" "one_word ''next''" "one_word ''prev''" "one_word ''left''"
  "one_word ''right''" "one_word ''slide''" "one_word ''in''" "one_word ''open''" "one_word ''collapse''"
  "one_word ''accordion-group''" "one_word ''modal-backdrop''" "one_word ''top''" "one_word ''bottom''"
  "one_word ''tooltip-arrow''" "one_word ''fade''" "one_word ''affix''" "one_word ''dropdown''"
  by (simp_all add: one_word_def is_space_def)

section \<open>Transition support\<close>

definition transEndEventNames :: "(string \<times> string) list" where
  "transEndEventNames =
     [(''WebkitTransition'', ''webkitTransitionEnd''), (''MozTransition'', ''transitionend''),
      (''OTransition'', ''oTransitionEnd otransitionend''), (''transition'', ''transitionend'')]"

text \<open>The first name that the style of a fresh element has, else no support.\<close>

fun transition_end :: "(string \<Rightarrow> bool) \<Rightarrow> (string \<times> string) list \<Rightarrow> string option" where
  "transition_end has_style [] = None"
| "transition_end has_style ((n, e) # ns) = (if has_style n then Some e else transition_end has_style ns)"

definition support_transition :: "(string \<Rightarrow> bool) \<Rightarrow> string option" where
  "support_transition has_style = transition_end has_style transEndEventNames"

section \<open>The selector in an href\<close>

text \<open>
  \<open>href.replace(/.*(?=#[^\s]*$)/, '')\<close>, and with \<open>+\<close> for \<open>*\<close> the other expression the
  widgets use. At a start the greedy \<open>.*\<close> reaches the last number sign that only nonspace
  follows, if no line end is before it; else the search goes on one character later.
\<close>

definition hash_tail :: "bool \<Rightarrow> string \<Rightarrow> bool" where
  "hash_tail some s \<longleftrightarrow> (case s of [] \<Rightarrow> False
     | c # t \<Rightarrow> c = CHR ''#'' \<and> list_all (\<lambda>x. \<not> is_space x) t \<and> (some \<longrightarrow> t \<noteq> []))"

definition line_end :: "char \<Rightarrow> bool" where
  "line_end c \<longleftrightarrow> c = CHR 0x0A \<or> c = CHR 0x0D"

definition last_hash :: "bool \<Rightarrow> string \<Rightarrow> nat option" where
  "last_hash some s = List.find (\<lambda>k. hash_tail some (drop k s) \<and> list_all (\<lambda>c. \<not> line_end c) (take k s))
     (rev [0..<length s])"

fun strip_href :: "bool \<Rightarrow> string \<Rightarrow> string" where
  "strip_href some [] = []"
| "strip_href some (c # s) =
     (case last_hash some (c # s) of Some k \<Rightarrow> drop k (c # s) | None \<Rightarrow> c # strip_href some s)"

text \<open>A fragment at the end of a URL is what is left of it.\<close>

lemma find_rev_upt:
  assumes "k < n" "P k" "\<And>j. k < j \<Longrightarrow> j < n \<Longrightarrow> \<not> P j"
  shows "List.find P (rev [0..<n]) = Some k"
  using assms
proof (induction n)
  case (Suc n)
  then show ?case by (cases "n = k") (auto simp: less_Suc_eq)
qed simp

lemma strip_href_fragment:
  assumes "list_all (\<lambda>c. \<not> line_end c) u" "list_all (\<lambda>c. \<not> is_space c \<and> c \<noteq> CHR ''#'') f" "f \<noteq> []"
  shows "strip_href some (u @ CHR ''#'' # f) = CHR ''#'' # f"
proof -
  let ?s = "u @ CHR ''#'' # f"
  have "last_hash some ?s = Some (length u)"
    unfolding last_hash_def
  proof (rule find_rev_upt)
    show "hash_tail some (drop (length u) ?s) \<and> list_all (\<lambda>c. \<not> line_end c) (take (length u) ?s)"
      using assms by (simp add: hash_tail_def list_all_iff)
    fix j assume j: "length u < j" "j < length ?s"
    then obtain m where m: "j = length u + Suc m" "m < length f" by (auto simp: less_iff_Suc_add)
    then have "drop j ?s = f ! m # drop (Suc m) f" by (simp add: Cons_nth_drop_Suc)
    moreover have "f ! m \<noteq> CHR ''#''" using assms(2) m(2) by (simp add: list_all_length)
    ultimately show "\<not> (hash_tail some (drop j ?s) \<and> list_all (\<lambda>c. \<not> line_end c) (take j ?s))"
      by (simp add: hash_tail_def)
  qed simp
  moreover have "drop (length u) ?s = CHR ''#'' # f" by simp
  moreover obtain c t where "?s = c # t" by (cases ?s) auto
  ultimately show ?thesis by (metis (no_types, lifting) option.simps(5) strip_href.simps(2))
qed

section \<open>Handlers and timers\<close>

record 'k ui =
  ui_dom :: dom
  ui_log :: "(nat list \<times> string) list"
  ui_handlers :: "(nat \<times> string \<times> bool \<times> 'k) list"
  ui_timers :: "(nat \<times> nat \<times> bool \<times> 'k) list"
  ui_next :: nat
  ui_focus :: "nat option"

definition on_dom :: "(dom \<Rightarrow> dom) \<Rightarrow> 'k ui \<Rightarrow> 'k ui" where
  "on_dom f u = u\<lparr>ui_dom := f (ui_dom u)\<rparr>"

definition log_event :: "nat list \<Rightarrow> string \<Rightarrow> 'k ui \<Rightarrow> 'k ui" where
  "log_event els ev u = u\<lparr>ui_log := ui_log u @ [(els, ev)]\<rparr>"

definition bind_handler :: "bool \<Rightarrow> nat list \<Rightarrow> string \<Rightarrow> 'k \<Rightarrow> 'k ui \<Rightarrow> 'k ui" where
  "bind_handler once els ev k u = u\<lparr>ui_handlers := ui_handlers u @ map (\<lambda>i. (i, ev, once, k)) els\<rparr>"

definition unbind :: "nat list \<Rightarrow> string \<Rightarrow> 'k ui \<Rightarrow> 'k ui" where
  "unbind els ev u = u\<lparr>ui_handlers := filter (\<lambda>(i, e, once, k). \<not> (i \<in> set els \<and> e = ev)) (ui_handlers u)\<rparr>"

definition set_timer :: "nat \<Rightarrow> bool \<Rightarrow> 'k \<Rightarrow> 'k ui \<Rightarrow> nat \<times> 'k ui" where
  "set_timer delay repeat k u =
     (ui_next u, u\<lparr>ui_timers := ui_timers u @ [(ui_next u, delay, repeat, k)], ui_next := Suc (ui_next u)\<rparr>)"

definition clear_timer :: "nat option \<Rightarrow> 'k ui \<Rightarrow> 'k ui" where
  "clear_timer t u = (case t of None \<Rightarrow> u
     | Some i \<Rightarrow> u\<lparr>ui_timers := filter (\<lambda>(j, delay, repeat, k). j \<noteq> i) (ui_timers u)\<rparr>)"

definition focus_on :: "nat list \<Rightarrow> 'k ui \<Rightarrow> 'k ui" where
  "focus_on els u = (case els of [] \<Rightarrow> u | i # _ \<Rightarrow> u\<lparr>ui_focus := Some (last els)\<rparr>)"

definition empty_ui :: "dom \<Rightarrow> 'k ui" where
  "empty_ui d = \<lparr>ui_dom = d, ui_log = [], ui_handlers = [], ui_timers = [], ui_next = 0, ui_focus = None\<rparr>"

text \<open>The closures of the handlers of an event, in the order bound, and the handlers that stay.\<close>

definition handlers_of :: "nat \<Rightarrow> string \<Rightarrow> 'k ui \<Rightarrow> 'k list" where
  "handlers_of i ev u = map (\<lambda>(j, e, once, k). k) (filter (\<lambda>(j, e, once, k). j = i \<and> e = ev) (ui_handlers u))"

definition drop_once :: "nat \<Rightarrow> string \<Rightarrow> 'k ui \<Rightarrow> 'k ui" where
  "drop_once i ev u =
     u\<lparr>ui_handlers := filter (\<lambda>(j, e, once, k). \<not> (j = i \<and> e = ev \<and> once)) (ui_handlers u)\<rparr>"

text \<open>Running closures one after the other, the first exception ending it.\<close>

fun run_all :: "('k \<Rightarrow> 's \<Rightarrow> js_error + 's) \<Rightarrow> 'k list \<Rightarrow> 's \<Rightarrow> js_error + 's" where
  "run_all f [] s = Inr s"
| "run_all f (k # ks) s = bindr (f k s) (run_all f ks)"

lemma ui_simps [simp]:
  "ui_dom (on_dom f u) = f (ui_dom u)" "ui_dom (log_event els ev u) = ui_dom u"
  "ui_dom (bind_handler once els ev k u) = ui_dom u" "ui_dom (unbind els ev u) = ui_dom u"
  "ui_dom (clear_timer t u) = ui_dom u" "ui_dom (drop_once i ev u) = ui_dom u"
  "ui_dom (focus_on els u) = ui_dom u" "ui_dom (snd (set_timer n b k u)) = ui_dom u"
  "ui_handlers (on_dom f u) = ui_handlers u" "ui_handlers (log_event els ev u) = ui_handlers u"
  "ui_handlers (clear_timer t u) = ui_handlers u" "ui_handlers (focus_on els u) = ui_handlers u"
  "ui_handlers (snd (set_timer n b k u)) = ui_handlers u"
  "ui_timers (on_dom f u) = ui_timers u" "ui_timers (log_event els ev u) = ui_timers u"
  "ui_timers (bind_handler once els ev k u) = ui_timers u" "ui_timers (unbind els ev u) = ui_timers u"
  "ui_timers (drop_once i ev u) = ui_timers u" "ui_timers (focus_on els u) = ui_timers u"
  "ui_next (on_dom f u) = ui_next u" "ui_next (log_event els ev u) = ui_next u"
  "ui_next (bind_handler once els ev k u) = ui_next u" "ui_next (clear_timer t u) = ui_next u"
  "ui_log (on_dom f u) = ui_log u" "ui_log (log_event els ev u) = ui_log u @ [(els, ev)]"
  "ui_log (bind_handler once els ev k u) = ui_log u" "ui_log (clear_timer t u) = ui_log u"
  "ui_log (focus_on els u) = ui_log u" "ui_log (drop_once i ev u) = ui_log u"
  "ui_log (unbind els ev u) = ui_log u" "ui_log (snd (set_timer n b k u)) = ui_log u"
  by (simp_all add: on_dom_def log_event_def bind_handler_def unbind_def clear_timer_def drop_once_def
      focus_on_def set_timer_def split: option.split list.split)

text \<open>A selector taken from \<open>data-target\<close> or else from \<open>href\<close>.\<close>

definition target_selector :: "bool \<Rightarrow> dom \<Rightarrow> nat list \<Rightarrow> string option" where
  "target_selector some d els =
     (case get_attr ''data-target'' d els of
        Some s \<Rightarrow> if s \<noteq> [] then Some s else map_option (strip_href some) (get_attr ''href'' d els)
      | None \<Rightarrow> map_option (strip_href some) (get_attr ''href'' d els))"

definition select_opt :: "bs_env \<Rightarrow> dom \<Rightarrow> string option \<Rightarrow> nat list" where
  "select_opt E d s = (case s of None \<Rightarrow> [] | Some t \<Rightarrow> if t = [] then [] else bs_select E d t)"

end
