(* ===== verification/BsCarousel.thy ===== *)
theory BsCarousel
  imports BsBase
begin

text \<open>
  The carousel of \<open>bootstrap.js\<close>. \<open>slide\<close> ends at once without CSS transitions;
  with them it leaves a handler for the end of the transition, and \<open>sliding\<close> is true until
  that ran. Events run the handlers the carousel bound itself, which may slide again, so the
  operations take what an event does as an argument (\<open>fire\<close>), and \<open>ca_fire\<close> ties the
  knot with a bound on the nesting.
\<close>

section \<open>State\<close>

datatype ca_closure =
  CaNext | CaTo "int option" | CaIndicator | CaSlideEnd "nat list" "nat list" string string | CaSlid

record carousel =
  ca_ui :: "ca_closure ui"
  ca_element :: nat
  ca_indicators :: "nat list"
  ca_paused :: bool
  ca_interval :: "nat option"
  ca_sliding :: bool
  ca_every :: nat
  ca_hover :: bool

type_synonym ca_fire = "string \<Rightarrow> carousel \<Rightarrow> js_error + carousel"

definition ca_dom :: "carousel \<Rightarrow> dom" where
  "ca_dom c = ui_dom (ca_ui c)"

definition ca_on :: "(ca_closure ui \<Rightarrow> ca_closure ui) \<Rightarrow> carousel \<Rightarrow> carousel" where
  "ca_on f c = c\<lparr>ca_ui := f (ca_ui c)\<rparr>"

text \<open>The queries the widget makes.\<close>

definition q_items :: "dom \<Rightarrow> nat \<Rightarrow> nat list" where
  "q_items d el = find_els (has_class ''item'') d [el]"

definition q_active :: "dom \<Rightarrow> nat \<Rightarrow> nat list" where
  "q_active d el = find_els (\<lambda>d i. has_class ''item'' d i \<and> has_class ''active'' d i) d [el]"

definition new_Carousel :: "nat \<Rightarrow> nat \<Rightarrow> bool \<Rightarrow> dom \<Rightarrow> carousel" where
  "new_Carousel el every hover d =
     \<lparr>ca_ui = empty_ui d, ca_element = el, ca_indicators = find_els (has_class ''carousel-indicators'') d [el],
      ca_paused = False, ca_interval = None, ca_sliding = False, ca_every = every, ca_hover = hover\<rparr>"

section \<open>Operations\<close>

definition ca_clear :: "carousel \<Rightarrow> carousel" where
  "ca_clear c = ca_on (clear_timer (ca_interval c)) c"

text \<open>The argument says whether an event was given. A cleared interval keeps its number.\<close>

definition ca_cycle :: "bool \<Rightarrow> carousel \<Rightarrow> carousel" where
  "ca_cycle e c =
     (let c1 = (if e then c else c\<lparr>ca_paused := False\<rparr>); c2 = ca_clear c1
      in if ca_every c2 \<noteq> 0 \<and> \<not> ca_paused c2
         then (case set_timer (ca_every c2) True CaNext (ca_ui c2) of
                 (t, u) \<Rightarrow> c2\<lparr>ca_ui := u, ca_interval := Some t\<rparr>)
         else c2)"

definition getActiveIndex :: "carousel \<Rightarrow> nat list \<times> int" where
  "getActiveIndex c =
     (let d = ca_dom c; active = q_active d (ca_element c); items = children d (parents1 d active)
      in (items, index_of items active))"

definition ca_pause :: "bs_env \<Rightarrow> ca_fire \<Rightarrow> bool \<Rightarrow> carousel \<Rightarrow> js_error + carousel" where
  "ca_pause E fire e c =
     (let c1 = (if e then c else c\<lparr>ca_paused := True\<rparr>) in
      bindr (if find_els (\<lambda>d i. has_class ''next'' d i \<or> has_class ''prev'' d i) (ca_dom c1) [ca_element c1] \<noteq> []
             then (case bs_transition E of
                     None \<Rightarrow> Inl TypeError
                   | Some ev \<Rightarrow> bindr (fire ev c1) (\<lambda>c2. Inr (ca_cycle True c2)))
             else Inr c1)
        (\<lambda>c3. Inr ((ca_clear c3)\<lparr>ca_interval := None\<rparr>)))"

text \<open>The item a slide goes to: the given one, or the neighbour of the active one, or the other end.\<close>

definition given_next :: "string \<Rightarrow> nat list option \<Rightarrow> dom \<Rightarrow> nat list \<Rightarrow> nat list" where
  "given_next type nxt d active =
     (case nxt of Some n \<Rightarrow> n | None \<Rightarrow> if type = ''next'' then next_of d active else prev_of d active)"

definition or_fallback :: "string \<Rightarrow> nat list \<Rightarrow> nat list \<Rightarrow> nat list" where
  "or_fallback type next0 items =
     (if next0 \<noteq> [] then next0 else if type = ''next'' then take 1 items
      else if items = [] then [] else [last items])"

text \<open>
  \<open>slide(type, next)\<close>; \<open>next\<close> is empty when it is not given. Beside the state comes
  whether \<open>this\<close> was returned (True) or nothing. First what follows the choice of the target.
\<close>

definition slide_go ::
  "bs_env \<Rightarrow> ca_fire \<Rightarrow> string \<Rightarrow> bool \<Rightarrow> nat list \<Rightarrow> nat list \<Rightarrow> carousel \<Rightarrow> js_error + carousel \<times> bool" where
  "slide_go E fire type isCycling active next c1 =
     (let el = ca_element c1;
          direction = (if type = ''next'' then ''left'' else ''right'');
          c2 = (if ca_indicators c1 \<noteq> []
                then ca_on (\<lambda>u. bind_handler True [el] ''slid'' CaIndicator
                       (on_dom (\<lambda>d. remove_class ''active'' (find_els (has_class ''active'') d (ca_indicators c1)) d) u)) c1
                else c1);
          c3 = ca_on (log_event [el] ''slide'') c2
      in if bs_veto E ''slide'' [el] then Inr (c3, False)
         else if bs_transition E \<noteq> None \<and> any_class ''slide'' (ca_dom c2) [el]
         then if next = [] then Inl TypeError
              else
                let c4 = ca_on (on_dom (\<lambda>d. add_class direction next (add_class direction active (add_class type next d)))) c3;
                    c5 = ca_on (bind_handler True [el] (case bs_transition E of Some ev \<Rightarrow> ev | None \<Rightarrow> [])
                           (CaSlideEnd next active type direction)) c4
                in Inr (if isCycling then ca_cycle False c5 else c5, True)
         else
           let c4 = ca_on (on_dom (\<lambda>d. add_class ''active'' next (remove_class ''active'' active d))) c3
           in bindr (fire ''slid'' (c4\<lparr>ca_sliding := False\<rparr>))
                (\<lambda>c5. Inr (if isCycling then ca_cycle False c5 else c5, True)))"

definition ca_slide ::
  "bs_env \<Rightarrow> ca_fire \<Rightarrow> string \<Rightarrow> nat list option \<Rightarrow> carousel \<Rightarrow> js_error + carousel \<times> bool" where
  "ca_slide E fire type nxt c =
     (let el = ca_element c;
          active = q_active (ca_dom c) el;
          next0 = given_next type nxt (ca_dom c) active;
          isCycling = ca_interval c \<noteq> None in
      bindr (if isCycling then ca_pause E fire False (c\<lparr>ca_sliding := True\<rparr>) else Inr (c\<lparr>ca_sliding := True\<rparr>))
        (\<lambda>c1.
          let next = or_fallback type next0 (q_items (ca_dom c1) el)
          in if any_class ''active'' (ca_dom c1) next then Inr (c1, False)
             else slide_go E fire type isCycling active next c1))"

definition ca_next :: "bs_env \<Rightarrow> ca_fire \<Rightarrow> carousel \<Rightarrow> js_error + carousel" where
  "ca_next E fire c = (if ca_sliding c then Inr c else map_sum id fst (ca_slide E fire ''next'' None c))"

definition ca_prev :: "bs_env \<Rightarrow> ca_fire \<Rightarrow> carousel \<Rightarrow> js_error + carousel" where
  "ca_prev E fire c = (if ca_sliding c then Inr c else map_sum id fst (ca_slide E fire ''prev'' None c))"

text \<open>
  \<open>to(pos)\<close>, \<open>None\<close> being a position that is not given: it compares false with every number
  and is no index of the items. Beside the state comes whether something with a \<open>cycle\<close>
  method was returned.
\<close>

definition ca_to :: "bs_env \<Rightarrow> ca_fire \<Rightarrow> int option \<Rightarrow> carousel \<Rightarrow> js_error + carousel \<times> bool" where
  "ca_to E fire pos c =
     (case getActiveIndex c of (items, activeIndex) \<Rightarrow>
        if (case pos of None \<Rightarrow> False | Some p \<Rightarrow> p > int (length items) - 1 \<or> p < 0) then Inr (c, False)
        else if ca_sliding c then Inr (ca_on (bind_handler True [ca_element c] ''slid'' (CaTo pos)) c, False)
        else if pos = Some activeIndex
        then bindr (ca_pause E fire False c) (\<lambda>c1. Inr (ca_cycle False c1, True))
        else ca_slide E fire (case pos of Some p \<Rightarrow> if p > activeIndex then ''next'' else ''prev'' | None \<Rightarrow> ''prev'')
               (Some (case pos of Some p \<Rightarrow> [items ! nat p] | None \<Rightarrow> [])) c)"

section \<open>Closures\<close>

definition show_indicator :: "carousel \<Rightarrow> carousel" where
  "show_indicator c =
     (case getActiveIndex c of (items, i) \<Rightarrow>
        let dots = children (ca_dom c) (ca_indicators c)
        in if 0 \<le> i \<and> nat i < length dots
           then ca_on (on_dom (add_class ''active'' [dots ! nat i])) c else c)"

definition slide_end :: "nat list \<Rightarrow> nat list \<Rightarrow> string \<Rightarrow> string \<Rightarrow> carousel \<Rightarrow> carousel" where
  "slide_end next active type direction c =
     (ca_on (\<lambda>u. snd (set_timer 0 False CaSlid (on_dom (\<lambda>d.
        remove_class direction active (remove_class ''active'' active
          (add_class ''active'' next (remove_class direction next (remove_class type next d))))) u))) c)
     \<lparr>ca_sliding := False\<rparr>"

definition ca_exec :: "bs_env \<Rightarrow> ca_fire \<Rightarrow> ca_closure \<Rightarrow> carousel \<Rightarrow> js_error + carousel" where
  "ca_exec E fire k c =
     (case k of
        CaNext \<Rightarrow> ca_next E fire c
      | CaTo pos \<Rightarrow> map_sum id fst (ca_to E fire pos c)
      | CaIndicator \<Rightarrow> Inr (show_indicator c)
      | CaSlideEnd next active type direction \<Rightarrow> Inr (slide_end next active type direction c)
      | CaSlid \<Rightarrow> fire ''slid'' c)"

text \<open>\<open>this.$element.trigger(ev)\<close>: the handlers of the event run, those bound once are gone.\<close>

fun ca_trigger :: "bs_env \<Rightarrow> nat \<Rightarrow> ca_fire" where
  "ca_trigger E 0 ev c = Inl RangeError"
| "ca_trigger E (Suc n) ev c =
     run_all (ca_exec E (ca_trigger E n)) (handlers_of (ca_element c) ev (ca_ui c))
       (ca_on (\<lambda>u. drop_once (ca_element c) ev (log_event [ca_element c] ev u)) c)"

section \<open>The plugin\<close>

text \<open>
  \<open>$.fn.carousel(option)\<close> on one element: a number, a string, or options of which
  \<open>slide\<close> may name an action (\<open>slide\<close> itself throws: its type is no method) and
  \<open>interval\<close> is the one after merging with the defaults. An empty name is no action. The names
  given are not those of \<open>Object.prototype\<close>.
\<close>

datatype ca_option = CaNumber int | CaAction string | CaOptions "string option" nat

definition ca_call :: "bs_env \<Rightarrow> ca_fire \<Rightarrow> string \<Rightarrow> carousel \<Rightarrow> js_error + carousel" where
  "ca_call E fire action c =
     (if action = ''cycle'' then Inr (ca_cycle False c)
      else if action = ''pause'' then ca_pause E fire False c
      else if action = ''next'' then ca_next E fire c
      else if action = ''prev'' then ca_prev E fire c
      else if action = ''to'' then map_sum id fst (ca_to E fire None c)
      else if action = ''getActiveIndex'' then Inr c
      else Inl TypeError)"

definition ca_act :: "bs_env \<Rightarrow> ca_fire \<Rightarrow> string \<Rightarrow> nat \<Rightarrow> carousel \<Rightarrow> js_error + carousel" where
  "ca_act E fire action interval c =
     (if action \<noteq> [] then ca_call E fire action c
      else if interval \<noteq> 0 then bindr (ca_pause E fire False c) (\<lambda>c1. Inr (ca_cycle False c1))
      else Inr c)"

definition fn_carousel :: "bs_env \<Rightarrow> ca_fire \<Rightarrow> ca_option \<Rightarrow> carousel \<Rightarrow> js_error + carousel" where
  "fn_carousel E fire opt c =
     (case opt of
        CaNumber n \<Rightarrow> map_sum id fst (ca_to E fire (Some n) c)
      | CaAction a \<Rightarrow> ca_act E fire a 5000 c
      | CaOptions a interval \<Rightarrow> ca_act E fire (case a of Some s \<Rightarrow> s | None \<Rightarrow> []) interval c)"

text \<open>The events of the mouse, bound by the constructor when \<open>pause\<close> is \<open>hover\<close>.\<close>

definition ca_mouseenter :: "bs_env \<Rightarrow> ca_fire \<Rightarrow> carousel \<Rightarrow> js_error + carousel" where
  "ca_mouseenter E fire c = (if ca_hover c then ca_pause E fire True c else Inr c)"

definition ca_mouseleave :: "carousel \<Rightarrow> carousel" where
  "ca_mouseleave c = (if ca_hover c then ca_cycle True c else c)"

text \<open>
  The click on an element with \<open>data-slide\<close> or \<open>data-slide-to\<close>: the flag says whether
  the default action was prevented, which an exception before the end of the handler misses.
\<close>

definition ca_click :: "bs_env \<Rightarrow> ca_fire \<Rightarrow> ca_option \<Rightarrow> int option \<Rightarrow> carousel \<Rightarrow> js_error + carousel \<times> bool" where
  "ca_click E fire opt slideIndex c =
     bindr (fn_carousel E fire opt c) (\<lambda>c1.
       case slideIndex of
         None \<Rightarrow> Inr (c1, True)
       | Some p \<Rightarrow>
           bindr (ca_pause E fire False c1) (\<lambda>c2.
             bindr (ca_to E fire (Some p) c2) (\<lambda>(c3, this).
               if this then Inr (ca_cycle False c3, True) else Inl TypeError)))"

text \<open>The end of the transition, and the timers.\<close>

definition ca_transition_end :: "bs_env \<Rightarrow> nat \<Rightarrow> carousel \<Rightarrow> js_error + carousel" where
  "ca_transition_end E n c = (case bs_transition E of None \<Rightarrow> Inr c | Some ev \<Rightarrow> ca_trigger E n ev c)"

definition ca_timer :: "bs_env \<Rightarrow> nat \<Rightarrow> nat \<Rightarrow> carousel \<Rightarrow> js_error + carousel" where
  "ca_timer E n t c =
     (case List.find (\<lambda>(i, delay, repeat, k). i = t) (ui_timers (ca_ui c)) of
        None \<Rightarrow> Inr c
      | Some (i, delay, repeat, k) \<Rightarrow>
          ca_exec E (ca_trigger E n) k (if repeat then c else ca_on (clear_timer (Some i)) c))"

section \<open>A slide that does not happen\<close>

lemma ca_on_simps [simp]: "ca_sliding (ca_on f c) = ca_sliding c" "ca_interval (ca_on f c) = ca_interval c"
  "ca_element (ca_on f c) = ca_element c" "ca_indicators (ca_on f c) = ca_indicators c"
  "ca_ui (ca_on f c) = f (ca_ui c)" "ca_every (ca_on f c) = ca_every c"
  by (simp_all add: ca_on_def)

text \<open>A slide that a listener prevents, or whose target is the active item, leaves the flag
  \<open>sliding\<close> set and the cycle stopped: from then on \<open>next\<close> and \<open>prev\<close> do nothing, and
  \<open>to\<close> only binds a handler for an end that does not come.\<close>

theorem prevented_slide_sticks:
  assumes "ca_interval c = None" "bs_veto E ''slide'' [ca_element c]"
  shows "\<exists>c'. ca_slide E fire type nxt c = Inr (c', False) \<and> ca_sliding c' \<and>
    ca_next E fire' c' = Inr c' \<and> ca_prev E fire' c' = Inr c' \<and>
    (\<forall>p. \<exists>c''. ca_to E fire' p c' = Inr (c'', False) \<and> ca_dom c'' = ca_dom c' \<and> ca_sliding c'')"
proof -
  have to: "\<exists>c''. ca_to E fire' p c' = Inr (c'', False) \<and> ca_dom c'' = ca_dom c' \<and> ca_sliding c''"
    if "ca_sliding c'" for p c'
    using that by (auto simp: ca_to_def ca_dom_def split: prod.split)
  have "\<exists>c'. ca_slide E fire type nxt c = Inr (c', False) \<and> ca_sliding c'"
    using assms by (simp add: ca_slide_def slide_go_def Let_def)
  with to show ?thesis by (auto simp: ca_next_def ca_prev_def)
qed

definition demo_dom :: dom where
  "demo_dom =
     [(plain_node ''div'' ''carousel'')\<lparr>nd_kids := [1]\<rparr>,
      (plain_node ''div'' ''carousel-inner'')\<lparr>nd_kids := [2, 3, 4], nd_parent := Some 0\<rparr>,
      (plain_node ''div'' ''item active'')\<lparr>nd_parent := Some 1\<rparr>,
      (plain_node ''div'' ''item'')\<lparr>nd_parent := Some 1\<rparr>,
      (plain_node ''div'' ''item'')\<lparr>nd_parent := Some 1\<rparr>]"

theorem prevented_slide_sticks_witness:
  "\<exists>c'. ca_slide \<lparr>bs_transition = None, bs_select = \<lambda>d s. [], bs_veto = \<lambda>ev els. ev = ''slide''\<rparr>
     (ca_trigger \<lparr>bs_transition = None, bs_select = \<lambda>d s. [], bs_veto = \<lambda>ev els. ev = ''slide''\<rparr> 3) ''next'' None (new_Carousel 0 5000 False demo_dom) = Inr (c', False) \<and> ca_sliding c'"
proof -
  let ?E = "\<lparr>bs_transition = None, bs_select = \<lambda>d s. [], bs_veto = \<lambda>ev els. ev = ''slide''\<rparr>"
  have "ca_interval (new_Carousel 0 5000 False demo_dom) = None" by (simp add: new_Carousel_def)
  moreover have "bs_veto ?E ''slide'' [ca_element (new_Carousel 0 5000 False demo_dom)]" by simp
  ultimately show ?thesis using prevented_slide_sticks by blast
qed

section \<open>A slide that happens\<close>

definition slide_target :: "string \<Rightarrow> nat list option \<Rightarrow> dom \<Rightarrow> nat \<Rightarrow> nat list" where
  "slide_target type nxt d el = or_fallback type (given_next type nxt d (q_active d el)) (q_items d el)"

lemma filter_one: "distinct xs \<Longrightarrow> x \<in> set xs \<Longrightarrow> (\<And>y. y \<in> set xs \<Longrightarrow> P y \<longleftrightarrow> y = x) \<Longrightarrow> filter P xs = [x]"
proof (induction xs)
  case (Cons z xs)
  then have "filter P xs = [x]" if "x \<noteq> z" using that by auto
  moreover have "filter P xs = []" if "x = z" using Cons.prems that by (auto simp: filter_empty_conv)
  ultimately show ?case using Cons.prems by (cases "x = z") auto
qed simp

lemma q_active_switch:
  assumes "dom_ok d" "q_active d el = [a]" "n \<in> set (q_items d el)" "same_tree d' d"
    "\<And>i. has_class ''item'' d' i \<longleftrightarrow> has_class ''item'' d i"
    "\<And>i. has_class ''active'' d' i \<longleftrightarrow> i = n \<or> i \<noteq> a \<and> has_class ''active'' d i"
  shows "q_active d' el = [n]"
proof -
  let ?all = "remdups (concat (map (below (length d) d) [el]))"
  have len: "length d' = length d" using same_tree_length [OF assms(4)] .
  have all: "remdups (concat (map (below (length d') d') [el])) = ?all"
    by (simp add: len same_tree_below [OF assms(4)])
  have act: "i = a" if "i \<in> set ?all" "has_class ''item'' d i" "has_class ''active'' d i" for i
  proof -
    from that have "i \<in> set (q_active d el)" by (auto simp: q_active_def find_els_def)
    with assms(2) show ?thesis by simp
  qed
  from assms(3) have n: "n \<in> set ?all" "has_class ''item'' d n" unfolding q_items_def find_els_def by auto
  show ?thesis unfolding q_active_def find_els_def all
  proof (rule filter_one)
    show "n \<in> set ?all" by (rule n)
    fix y assume y: "y \<in> set ?all"
    show "(has_class ''item'' d' y \<and> has_class ''active'' d' y) \<longleftrightarrow> y = n"
      using act [OF y] n(2) by (auto simp: assms(5,6))
  qed simp
qed

text \<open>Without transitions (or on an element that has not the class \<open>slide\<close>) a slide that nothing
  prevents moves the one active item to its target, which is the neighbour or, at the end, the
  item at the other end, and the carousel is ready for the next slide.\<close>

theorem slide_moves_active:
  assumes "dom_ok (ca_dom c)" "q_active (ca_dom c) (ca_element c) = [a]"
    "slide_target type nxt (ca_dom c) (ca_element c) = [n]" "n \<noteq> a" "n \<in> set (q_items (ca_dom c) (ca_element c))"
    "bs_transition E = None \<or> \<not> has_class ''slide'' (ca_dom c) (ca_element c)" "\<not> bs_veto E ''slide'' [ca_element c]"
    "ca_indicators c = []" "handlers_of (ca_element c) ''slid'' (ca_ui c) = []" "ca_interval c = None"
  shows "\<exists>c'. ca_slide E (ca_trigger E (Suc m)) type nxt c = Inr (c', True) \<and>
    q_active (ca_dom c') (ca_element c) = [n] \<and> \<not> ca_sliding c'"
proof -
  let ?d = "ca_dom c" let ?el = "ca_element c"
  let ?d' = "add_class ''active'' [n] (remove_class ''active'' [a] ?d)"
  have "\<not> has_class ''active'' ?d n"
  proof
    assume "has_class ''active'' ?d n"
    with assms(5) have "n \<in> set (q_active ?d ?el)" by (auto simp: q_items_def q_active_def find_els_def)
    with assms(2,4) show False by simp
  qed
  then have quiet: "\<not> any_class ''active'' ?d [n]" by (simp add: any_class_def)
  let ?c' = "(ca_on (\<lambda>u. drop_once ?el ''slid'' (log_event [?el] ''slid'' u))
      (ca_on (on_dom (\<lambda>d. add_class ''active'' [n] (remove_class ''active'' [a] d)))
        (ca_on (log_event [?el] ''slide'') (c\<lparr>ca_sliding := True\<rparr>))\<lparr>ca_sliding := False\<rparr>))"
  have u: "ca_ui (c\<lparr>ca_sliding := b\<rparr>) = ca_ui c" "ca_dom (c\<lparr>ca_sliding := b\<rparr>) = ?d"
    "handlers_of ?el ''slid'' (on_dom f (log_event [?el] ''slide'' (ca_ui c))) = []" for b f
    using assms(9) by (simp_all add: ca_dom_def handlers_of_def on_dom_def log_event_def)
  have go: "slide_go E (ca_trigger E (Suc m)) type False [a] [n] (c\<lparr>ca_sliding := True\<rparr>) = Inr (?c', True)"
    using assms(6-8) by (auto simp: slide_go_def Let_def u any_class_def)
  have "ca_slide E (ca_trigger E (Suc m)) type nxt c = Inr (?c', True)"
    using assms(3,10) quiet go by (simp add: ca_slide_def Let_def u assms(2) slide_target_def)
  moreover have "ca_dom ?c' = ?d'" by (simp add: ca_dom_def)
  moreover have "q_active ?d' ?el = [n]"
  proof (rule q_active_switch [OF assms(1,2,5)])
    show "same_tree ?d' ?d" by (meson same_tree_ops(1,2) same_tree_trans)
    fix i
    have "n < length ?d" using assms(5) by (auto simp: q_items_def find_els_def has_class_def)
    then show "has_class ''item'' ?d' i \<longleftrightarrow> has_class ''item'' ?d i"
      "has_class ''active'' ?d' i \<longleftrightarrow> i = n \<or> i \<noteq> a \<and> has_class ''active'' ?d i"
      using assms(1) by (auto simp: has_class_def [of _ ?d])
  qed
  ultimately show ?thesis by (intro exI [of _ ?c']) simp
qed

theorem slide_moves_active_witness:
  "\<exists>c'. ca_slide \<lparr>bs_transition = None, bs_select = \<lambda>d s. [], bs_veto = \<lambda>ev els. False\<rparr>
      (ca_trigger \<lparr>bs_transition = None, bs_select = \<lambda>d s. [], bs_veto = \<lambda>ev els. False\<rparr> (Suc 0)) ''prev'' None
      (new_Carousel 0 5000 False demo_dom) = Inr (c', True) \<and> q_active (ca_dom c') 0 = [4]"
proof -
  let ?E = "\<lparr>bs_transition = None, bs_select = \<lambda>d s. [], bs_veto = \<lambda>ev els. False\<rparr>"
  let ?c = "new_Carousel 0 5000 False demo_dom"
  have "dom_ok demo_dom"
    by (simp add: dom_ok_def demo_dom_def plain_node_def class_ok_def class_tab_def is_space_def)
  moreover have "ca_dom ?c = demo_dom \<and> ca_element ?c = 0" by (simp add: ca_dom_def new_Carousel_def empty_ui_def)
  moreover have "q_active demo_dom 0 = [2] \<and> slide_target ''prev'' None demo_dom 0 = [4] \<and> 4 \<in> set (q_items demo_dom 0)"
    by code_simp
  moreover have "ca_indicators ?c = [] \<and> handlers_of 0 ''slid'' (ca_ui ?c) = [] \<and> ca_interval ?c = None" by code_simp
  moreover have "\<not> bs_veto ?E ''slide'' [0]" "bs_transition ?E = None" by simp_all
  ultimately show ?thesis
    using slide_moves_active [of ?c 2 "''prev''" None 4 ?E 0] by auto
qed

end
