(* ===== verification/BsAlertButton.thy ===== *)
theory BsAlertButton
  imports BsBase
begin

text \<open>The alert and the button of \<open>bootstrap.js\<close>.\<close>

section \<open>Alert\<close>

text \<open>The closure \<open>removeElement\<close> of a \<open>close\<close>.\<close>

datatype al_closure = AlRemove "nat list"

text \<open>\<open>$els.remove()\<close>: out of the tree, with the handlers of all that is removed.\<close>

definition jq_remove :: "nat list \<Rightarrow> 'k ui \<Rightarrow> 'k ui" where
  "jq_remove els u =
     (let gone = els @ concat (map (below (length (ui_dom u)) (ui_dom u)) els)
      in (on_dom (detach els) u)\<lparr>ui_handlers := filter (\<lambda>(i, ev, once, k). i \<notin> set gone) (ui_handlers u)\<rparr>)"

definition al_remove :: "nat list \<Rightarrow> al_closure ui \<Rightarrow> al_closure ui" where
  "al_remove els u = jq_remove els (log_event els ''closed'' u)"

text \<open>What is closed: the target, else the element if it is an alert, else its parent.\<close>

definition al_parent :: "bs_env \<Rightarrow> dom \<Rightarrow> nat \<Rightarrow> nat list" where
  "al_parent E d el =
     (let p = select_opt E d (target_selector False d [el])
      in if p \<noteq> [] then p else if has_class ''alert'' d el then [el] else parents1 d [el])"

text \<open>Whether a given event was prevented, and the state.\<close>

definition al_close :: "bs_env \<Rightarrow> nat \<Rightarrow> al_closure ui \<Rightarrow> al_closure ui" where
  "al_close E el u =
     (let p = al_parent E (ui_dom u) el;
          u1 = log_event p ''close'' u
      in if bs_veto E ''close'' p then u1
         else
           let u2 = on_dom (remove_class ''in'' p) u1
           in case bs_transition E of
                Some ev \<Rightarrow> if any_class ''fade'' (ui_dom u2) p then bind_handler False p ev (AlRemove p) u2
                           else al_remove p u2
              | None \<Rightarrow> al_remove p u2)"

definition al_event :: "nat \<Rightarrow> string \<Rightarrow> al_closure ui \<Rightarrow> al_closure ui" where
  "al_event i ev u = fold (\<lambda>k. case k of AlRemove els \<Rightarrow> al_remove els) (handlers_of i ev u) u"

text \<open>
  \<open>$.fn.alert(option)\<close>: the constructor binds \<open>close\<close> to the dismiss elements inside, once
  for each element; \<open>data\<close> says which elements have an alert already.
\<close>

definition fn_alert :: "bs_env \<Rightarrow> string option \<Rightarrow> nat list \<Rightarrow> nat list \<times> al_closure ui \<Rightarrow> js_error + nat list \<times> al_closure ui" where
  "fn_alert E opt els =
     run_all (\<lambda>i (bound, u).
        let bound' = (if i \<in> set bound then bound else bound @ [i])
        in case opt of
             None \<Rightarrow> Inr (bound', u)
           | Some m \<Rightarrow> if m = ''close'' then Inr (bound', al_close E i u) else Inl TypeError) els"

definition is_dismiss :: "dom \<Rightarrow> nat \<Rightarrow> bool" where
  "is_dismiss d i \<longleftrightarrow> get_attr ''data-dismiss'' d [i] = Some ''alert''"

text \<open>The click of a dismiss element reaches the document handler; the default is prevented.\<close>

definition al_click :: "bs_env \<Rightarrow> nat \<Rightarrow> al_closure ui \<Rightarrow> bool \<times> al_closure ui" where
  "al_click E i u = (if is_dismiss (ui_dom u) i then (True, al_close E i u) else (False, u))"

lemma al_close_vetoed:
  assumes "bs_veto E ''close'' (al_parent E (ui_dom u) el)"
  shows "ui_dom (al_close E el u) = ui_dom u" "ui_handlers (al_close E el u) = ui_handlers u"
  using assms by (simp_all add: al_close_def Let_def)

text \<open>Detaching takes an element out of every list of children.\<close>

definition tree_ok :: "dom \<Rightarrow> bool" where
  "tree_ok d \<longleftrightarrow> (\<forall>j < length d. \<forall>i \<in> set (nd_kids (d ! j)). i < length d \<and> nd_parent (d ! i) = Some j)"

lemma detach1_gone:
  assumes "tree_ok d" "i < length d"
  shows "\<forall>j < length (detach1 i d). i \<notin> set (nd_kids (detach1 i d ! j))" "parent_of (detach1 i d) i = None"
proof -
  have other: "i \<notin> set (nd_kids (d ! j))" if "j < length d" "parent_of d i \<noteq> Some j" for j
    using assms that by (auto simp: tree_ok_def parent_of_def)
  show "\<forall>j < length (detach1 i d). i \<notin> set (nd_kids (detach1 i d ! j))" "parent_of (detach1 i d) i = None"
    using assms(2) other by (auto simp: detach1_def parent_of_def split: option.split)
qed

section \<open>Button\<close>

datatype bt_closure = BtState bool

record button =
  bt_ui :: "bt_closure ui"
  bt_element :: nat
  bt_data :: "string js_obj"
  bt_options :: "string js_obj"

definition is_input :: "dom \<Rightarrow> nat \<Rightarrow> bool" where
  "is_input d i \<longleftrightarrow> i < length d \<and> nd_tag (d ! i) = ''input''"

text \<open>\<open>$el[val]()\<close> and \<open>$el[val](x)\<close>: \<open>html(undefined)\<close> only reads, \<open>val(undefined)\<close> empties.\<close>

definition bt_read :: "dom \<Rightarrow> nat \<Rightarrow> string" where
  "bt_read d i = (if is_input d i then (case get_attr ''value'' d [i] of Some s \<Rightarrow> s | None \<Rightarrow> [])
                  else if i < length d then nd_html (d ! i) else [])"

definition bt_write :: "string option \<Rightarrow> nat \<Rightarrow> dom \<Rightarrow> dom" where
  "bt_write t i d =
     (if is_input d i then set_attr ''value'' (case t of Some s \<Rightarrow> s | None \<Rightarrow> []) [i] d
      else case t of Some s \<Rightarrow> set_html s [i] d | None \<Rightarrow> d)"

definition nonempty :: "string option \<Rightarrow> string option" where
  "nonempty s = (if s = Some [] then None else s)"

definition setState :: "string \<Rightarrow> button \<Rightarrow> button" where
  "setState state0 b =
     (let state = state0 @ ''Text''; el = bt_element b;
          data = (if nonempty (obj_get (bt_data b) ''resetText'') \<noteq> None then bt_data b
                  else obj_set ''resetText'' (bt_read (ui_dom (bt_ui b)) el) (bt_data b));
          t = (case nonempty (obj_get data state) of Some s \<Rightarrow> Some s | None \<Rightarrow> obj_get (bt_options b) state)
      in b\<lparr>bt_data := data,
           bt_ui := snd (set_timer 0 False (BtState (state = ''loadingText'')) (on_dom (bt_write t el) (bt_ui b)))\<rparr>)"

definition bt_timeout :: "bt_closure \<Rightarrow> button \<Rightarrow> button" where
  "bt_timeout k b =
     (case k of BtState loading \<Rightarrow>
        b\<lparr>bt_ui := on_dom (\<lambda>d.
            if loading then set_attr ''disabled'' ''disabled'' [bt_element b] (add_class ''disabled'' [bt_element b] d)
            else remove_attr ''disabled'' [bt_element b] (remove_class ''disabled'' [bt_element b] d)) (bt_ui b)\<rparr>)"

definition is_radio_group :: "dom \<Rightarrow> nat \<Rightarrow> bool" where
  "is_radio_group d i \<longleftrightarrow> get_attr ''data-toggle'' d [i] = Some ''buttons-radio''"

text \<open>\<open>toggle\<close> on the document: the names are single words, so \<open>toggleClass\<close> flips one.\<close>

definition bt_toggle_dom :: "nat \<Rightarrow> dom \<Rightarrow> dom" where
  "bt_toggle_dom el d =
     (let p = closest is_radio_group d [el];
          d1 = remove_class ''active'' (find_els (has_class ''active'') d p) d
      in toggle_class ''active'' [el] d1)"

definition bt_toggle :: "button \<Rightarrow> button" where
  "bt_toggle b = b\<lparr>bt_ui := on_dom (bt_toggle_dom (bt_element b)) (bt_ui b)\<rparr>"

definition button_defaults :: "string js_obj" where
  "button_defaults = [(''loadingText'', ''loading...'')]"

definition new_Button :: "nat \<Rightarrow> string js_obj \<Rightarrow> string js_obj \<Rightarrow> bt_closure ui \<Rightarrow> button" where
  "new_Button el data options u =
     \<lparr>bt_ui = u, bt_element = el, bt_data = data,
      bt_options = fold (\<lambda>(k, v). obj_set k v) options button_defaults\<rparr>"

datatype bt_option = BtNone | BtName string | BtObject

text \<open>\<open>$.fn.button(option)\<close> on an element with its button.\<close>

definition fn_button :: "bt_option \<Rightarrow> button \<Rightarrow> button" where
  "fn_button opt b =
     (case opt of
        BtNone \<Rightarrow> b
      | BtName s \<Rightarrow> if s = ''toggle'' then bt_toggle b else if s \<noteq> [] then setState s b else b
      | BtObject \<Rightarrow> setState ''[object Object]'' b)"

text \<open>The document handler: the button clicked, or the one around what was clicked.\<close>

definition bt_clicked :: "dom \<Rightarrow> nat \<Rightarrow> nat list" where
  "bt_clicked d i = (if has_class ''btn'' d i then [i] else closest (has_class ''btn'') d [i])"

subsection \<open>A radio group has one active button\<close>

lemma toggleClass_word:
  assumes "class_ok s" "one_word c" "one_word k"
  shows "hasClass k (toggleClass c None s) \<longleftrightarrow> (if k = c then \<not> hasClass c s else hasClass k s)"
    and "class_ok (toggleClass c None s)"
proof -
  have "set (js_split spaceRe c) - {[]} = {c}" using class_names_word [OF assms(2)] by (simp add: class_names_def)
  moreover have "rx_search spaceRe c = None"
  proof (cases "rx_search spaceRe c")
    case (Some p)
    then obtain i n where s: "rx_search spaceRe c = Some (i, n)" by (cases p) auto
    from match_at_spaceRe [OF rx_search_match [OF this]] have "takeWhile is_space (drop i c) \<noteq> []" by force
    then obtain x where "x \<in> set (drop i c)" "is_space x" by (metis list.set_intros(1) neq_Nil_conv set_takeWhileD)
    with assms(2) show ?thesis by (auto simp: one_word_def dest: in_set_dropD)
  qed simp
  then have "js_split spaceRe c = [c]" by (simp add: js_split.simps)
  moreover have "c \<noteq> []" using assms(2) by (simp add: one_word_def)
  ultimately have t: "toggleClass c None s = toggle1 None c s" by (simp add: toggleClass_def)
  show "hasClass k (toggleClass c None s) \<longleftrightarrow> (if k = c then \<not> hasClass c s else hasClass k s)"
    "class_ok (toggleClass c None s)"
    unfolding t using assms toggle1_set [OF assms(1,2), of None] by (auto simp: hasClass_iff)
qed

lemma has_class_toggle:
  assumes "dom_ok d" "one_word c" "one_word k" "el < length d"
  shows "has_class k (toggle_class c [el] d) i \<longleftrightarrow>
    (if i = el \<and> k = c then \<not> has_class c d i else has_class k d i)"
  using assms toggleClass_word [OF dom_ok_nth [OF assms(1)] assms(2,3)]
  by (auto simp: has_class_def toggle_class_def each_def upd_node_def nth_list_update)

lemma radio_group_one_active:
  assumes "dom_ok d" "el < length d" "closest is_radio_group d [el] = [g]"
    "el \<in> set (below (length d) d g)"
  shows "\<forall>i \<in> set (below (length d) d g). has_class ''active'' (bt_toggle_dom el d) i \<longleftrightarrow> i = el"
proof
  fix i assume i: "i \<in> set (below (length d) d g)"
  let ?F = "find_els (has_class ''active'') d [g]" let ?d1 = "remove_class ''active'' ?F d"
  have w: "one_word ''active''" by (simp add: one_word_def is_space_def)
  have F: "set ?F = {j \<in> set (below (length d) d g). has_class ''active'' d j}" by (auto simp: find_els_def)
  have "\<not> has_class ''active'' ?d1 j" if "j \<in> set (below (length d) d g)" for j
    using assms(1) w that F by simp
  with i assms(4) show "has_class ''active'' (bt_toggle_dom el d) i \<longleftrightarrow> i = el"
    using has_class_toggle [of ?d1 "''active''" "''active''" el i] assms(1-3) w
    by (auto simp: bt_toggle_dom_def Let_def)
qed

end
