(* ===== verification/BsCollapse.thy ===== *)
theory BsCollapse
  imports BsAlertButton BsCarousel
begin

text \<open>
  The collapse of \<open>bootstrap.js\<close>: a panel that opens and closes, and closes the open panels of
  its accordion first. The instances are objects of their own; the data of an element names the
  instance it has, which is stored only after the constructor ran. What the browser knows of sizes
  is an argument.
\<close>

section \<open>State\<close>

record layout =
  lay_size :: "dom \<Rightarrow> nat \<Rightarrow> string \<Rightarrow> nat"
  lay_scroll :: "dom \<Rightarrow> nat \<Rightarrow> string \<Rightarrow> nat"

text \<open>The closure \<open>complete\<close>: the instance, whether it was a show, and the event at the end.\<close>

datatype co_closure = CoComplete nat bool string

record co_inst =
  co_element :: nat
  co_parent :: "nat list option"
  co_transitioning :: bool

record co_state =
  co_ui :: "co_closure ui"
  co_insts :: "co_inst list"
  co_data :: "(nat \<times> nat) list"

definition co_dom :: "co_state \<Rightarrow> dom" where
  "co_dom s = ui_dom (co_ui s)"

definition co_on :: "(dom \<Rightarrow> dom) \<Rightarrow> co_state \<Rightarrow> co_state" where
  "co_on f s = s\<lparr>co_ui := on_dom f (co_ui s)\<rparr>"

definition co_el :: "nat \<Rightarrow> co_state \<Rightarrow> nat" where
  "co_el k s = co_element (co_insts s ! k)"

definition co_log :: "nat list \<Rightarrow> string \<Rightarrow> co_state \<Rightarrow> co_state" where
  "co_log els ev s = s\<lparr>co_ui := log_event els ev (co_ui s)\<rparr>"

definition set_transitioning :: "bool \<Rightarrow> nat \<Rightarrow> co_state \<Rightarrow> co_state" where
  "set_transitioning b k s = s\<lparr>co_insts := (co_insts s)[k := (co_insts s ! k)\<lparr>co_transitioning := b\<rparr>]\<rparr>"

section \<open>Operations\<close>

definition dimension :: "dom \<Rightarrow> nat \<Rightarrow> string" where
  "dimension d el = (if has_class ''width'' d el then ''width'' else ''height'')"

definition set_dimension :: "string \<Rightarrow> nat \<Rightarrow> nat \<Rightarrow> dom \<Rightarrow> dom" where
  "set_dimension dim n el d = set_style dim (nat_dec n @ ''px'') [el] d"

text \<open>\<open>reset(size)\<close>; a size that is not given, or zero, becomes \<open>auto\<close>. It is never null here.\<close>

definition co_reset :: "nat option \<Rightarrow> nat \<Rightarrow> dom \<Rightarrow> dom" where
  "co_reset sz el d =
     (let dim = dimension d el; d1 = remove_class ''collapse'' [el] d;
          d2 = (case sz of Some n \<Rightarrow> if n \<noteq> 0 then set_dimension dim n el d1 else set_style dim ''auto'' [el] d1
                | None \<Rightarrow> set_style dim ''auto'' [el] d1)
      in add_class ''collapse'' [el] d2)"

definition co_complete :: "nat \<Rightarrow> bool \<Rightarrow> string \<Rightarrow> co_state \<Rightarrow> co_state" where
  "co_complete k show ev s =
     (let el = co_el k s; s1 = (if show then co_on (co_reset None el) s else s)
      in co_log [el] ev (set_transitioning False k s1))"

definition co_transition :: "bs_env \<Rightarrow> bool \<Rightarrow> string \<Rightarrow> string \<Rightarrow> nat \<Rightarrow> co_state \<Rightarrow> co_state" where
  "co_transition E show startEvent completeEvent k s =
     (let el = co_el k s; s1 = co_log [el] startEvent s
      in if bs_veto E startEvent [el] then s1
         else
           let s2 = co_on (if show then add_class ''in'' [el] else remove_class ''in'' [el]) (set_transitioning True k s1)
           in case bs_transition E of
                Some ev \<Rightarrow> if has_class ''collapse'' (co_dom s2) el
                           then s2\<lparr>co_ui := bind_handler True [el] ev (CoComplete k show completeEvent) (co_ui s2)\<rparr>
                           else co_complete k show completeEvent s2
              | None \<Rightarrow> co_complete k show completeEvent s2)"

definition co_hide :: "bs_env \<Rightarrow> layout \<Rightarrow> nat \<Rightarrow> co_state \<Rightarrow> co_state" where
  "co_hide E L k s =
     (let el = co_el k s; d = co_dom s
      in if co_transitioning (co_insts s ! k) \<or> \<not> has_class ''in'' d el then s
         else
           let dim = dimension d el;
               s1 = co_on (co_reset (Some (lay_size L d el dim)) el) s;
               s2 = co_transition E False ''hide'' ''hidden'' k s1
           in co_on (set_dimension dim 0 el) s2)"

text \<open>The open panels of the accordion: \<open>> .accordion-group > .in\<close>.\<close>

definition q_open :: "dom \<Rightarrow> nat list \<Rightarrow> nat list" where
  "q_open d ps = filter (has_class ''in'' d) (children d (filter (has_class ''accordion-group'' d) (children d ps)))"

definition co_instance :: "nat \<Rightarrow> co_state \<Rightarrow> nat option" where
  "co_instance el s = map_of (co_data s) el"

text \<open>The options of an element: those of the call before its data attributes before the defaults.\<close>

record co_options =
  opt_parent :: "string option"
  opt_toggle :: "bool option"

text \<open>The truth of a data attribute, read as \<open>$.data\<close> does; zero is written \<open>0\<close>.\<close>

definition data_truthy :: "string \<Rightarrow> bool" where
  "data_truthy s \<longleftrightarrow> s \<notin> {[], ''false'', ''null'', ''0''}"

definition co_merged :: "dom \<Rightarrow> nat \<Rightarrow> co_options option \<Rightarrow> string option \<times> bool" where
  "co_merged d el opt =
     (let data = (\<lambda>k. get_attr (''data-'' @ k) d [el]);
          parent = (case opt of Some r \<Rightarrow> (case opt_parent r of Some p \<Rightarrow> Some p | None \<Rightarrow> data ''parent'') | None \<Rightarrow> data ''parent'');
          given = (case opt of Some r \<Rightarrow> opt_toggle r | None \<Rightarrow> None)
      in (case parent of Some p \<Rightarrow> if data_truthy p then Some p else None | None \<Rightarrow> None,
          case given of Some b \<Rightarrow> b | None \<Rightarrow> (case data ''toggle'' of Some t \<Rightarrow> data_truthy t | None \<Rightarrow> True)))"

definition co_alloc :: "bs_env \<Rightarrow> nat \<Rightarrow> string option \<Rightarrow> co_state \<Rightarrow> co_state" where
  "co_alloc E el parent s =
     s\<lparr>co_insts := co_insts s @ [\<lparr>co_element = el, co_parent = map_option (bs_select E (co_dom s)) parent,
         co_transitioning = False\<rparr>]\<rparr>"

definition co_store :: "nat \<Rightarrow> nat \<Rightarrow> co_state \<Rightarrow> co_state" where
  "co_store el k s = s\<lparr>co_data := (el, k) # co_data s\<rparr>"

definition co_forget :: "nat list \<Rightarrow> co_state \<Rightarrow> co_state" where
  "co_forget els s = s\<lparr>co_data := filter (\<lambda>(i, k). i \<notin> set els) (co_data s)\<rparr>"

text \<open>
  \<open>show\<close> calls the plugin on the open panels, which may construct an instance, which calls
  \<open>toggle\<close>; the fuel bounds that nesting. The panels found are open, so two levels are enough.
\<close>

fun co_show :: "bs_env \<Rightarrow> layout \<Rightarrow> nat \<Rightarrow> nat \<Rightarrow> co_state \<Rightarrow> js_error + co_state"
  and co_new :: "bs_env \<Rightarrow> layout \<Rightarrow> nat \<Rightarrow> nat \<Rightarrow> co_options option \<Rightarrow> co_state \<Rightarrow> js_error + nat \<times> co_state" where
  "co_show E L 0 k s = Inl RangeError"
| "co_show E L (Suc n) k s =
     (let el = co_el k s; d = co_dom s
      in if co_transitioning (co_insts s ! k) \<or> has_class ''in'' d el then Inr s
         else
           let dim = dimension d el;
               actives = (case co_parent (co_insts s ! k) of Some ps \<Rightarrow> q_open d ps | None \<Rightarrow> []);
               hasData = (case actives of [] \<Rightarrow> None | a # _ \<Rightarrow> co_instance a s)
           in if (case hasData of Some j \<Rightarrow> co_transitioning (co_insts s ! j) | None \<Rightarrow> False) then Inr s
              else
                bindr (run_all (\<lambda>a s. bindr (case co_instance a s of Some j \<Rightarrow> Inr (j, s) | None \<Rightarrow> co_new E L n a None s)
                         (\<lambda>(j, s1). Inr (co_hide E L j s1))) actives s)
                  (\<lambda>s1.
                    let s2 = (if actives \<noteq> [] \<and> hasData = None then co_forget actives s1 else s1);
                        s3 = co_transition E True ''show'' ''shown'' k (co_on (set_dimension dim 0 el) s2)
                    in Inr (if bs_transition E \<noteq> None
                            then co_on (set_dimension dim (lay_scroll L (co_dom s3) el dim) el) s3 else s3)))"
| "co_new E L n el opt s =
     (case co_merged (co_dom s) el opt of (parent, toggle) \<Rightarrow>
        let k = length (co_insts s); s1 = co_alloc E el parent s
        in bindr (if \<not> toggle then Inr s1
                  else if has_class ''in'' (co_dom s1) el then Inr (co_hide E L k s1)
                  else (case n of 0 \<Rightarrow> Inl RangeError | Suc m \<Rightarrow> co_show E L m k s1))
             (\<lambda>s2. Inr (k, co_store el k s2)))"

definition co_toggle :: "bs_env \<Rightarrow> layout \<Rightarrow> nat \<Rightarrow> nat \<Rightarrow> co_state \<Rightarrow> js_error + co_state" where
  "co_toggle E L n k s = (if has_class ''in'' (co_dom s) (co_el k s) then Inr (co_hide E L k s) else co_show E L n k s)"

section \<open>The plugin\<close>

datatype co_option = CoName string | CoOpts "co_options option"

text \<open>The methods by name; \<open>transition\<close> without a start event throws once it triggered nothing.\<close>

definition co_call :: "bs_env \<Rightarrow> layout \<Rightarrow> nat \<Rightarrow> string \<Rightarrow> nat \<Rightarrow> co_state \<Rightarrow> js_error + co_state" where
  "co_call E L n m k s =
     (if m = ''show'' then co_show E L n k s
      else if m = ''hide'' then Inr (co_hide E L k s)
      else if m = ''toggle'' then co_toggle E L n k s
      else if m = ''reset'' then Inr (co_on (co_reset None (co_el k s)) s)
      else if m = ''dimension'' then Inr s
      else Inl TypeError)"

definition fn_collapse :: "bs_env \<Rightarrow> layout \<Rightarrow> nat \<Rightarrow> co_option \<Rightarrow> nat list \<Rightarrow> co_state \<Rightarrow> js_error + co_state" where
  "fn_collapse E L n opt =
     run_all (\<lambda>el s.
       bindr (case co_instance el s of Some k \<Rightarrow> Inr (k, s)
              | None \<Rightarrow> co_new E L n el (case opt of CoOpts r \<Rightarrow> r | CoName m \<Rightarrow> None) s)
         (\<lambda>(k, s1). case opt of CoName m \<Rightarrow> co_call E L n m k s1 | CoOpts r \<Rightarrow> Inr s1))"

text \<open>The end of a transition of an element: its handlers run once.\<close>

definition co_transition_end :: "bs_env \<Rightarrow> nat \<Rightarrow> co_state \<Rightarrow> co_state" where
  "co_transition_end E el s =
     (case bs_transition E of None \<Rightarrow> s
      | Some ev \<Rightarrow> fold (\<lambda>c. case c of CoComplete k show e \<Rightarrow> co_complete k show e) (handlers_of el ev (co_ui s))
          (s\<lparr>co_ui := drop_once el ev (co_ui s)\<rparr>))"

text \<open>
  A click on a \<open>data-toggle=collapse\<close> element. The default is prevented only when there is no
  \<open>data-target\<close>. Without an instance the options are the data of the element clicked.
\<close>

definition co_click :: "bs_env \<Rightarrow> layout \<Rightarrow> nat \<Rightarrow> nat \<Rightarrow> co_state \<Rightarrow> js_error + bool \<times> co_state" where
  "co_click E L n this s =
     (let d = co_dom s; data = (\<lambda>k. get_attr (''data-'' @ k) d [this]);
          els = select_opt E d (target_selector True d [this]);
          prevented = (nonempty (data ''target'') = None);
          own = \<lparr>opt_parent = data ''parent'', opt_toggle = map_option data_truthy (data ''toggle'')\<rparr>;
          opt = (if (case els of [] \<Rightarrow> None | t # _ \<Rightarrow> co_instance t s) \<noteq> None then CoName ''toggle'' else CoOpts (Some own));
          s1 = co_on ((if any_class ''in'' d els then add_class else remove_class) ''collapsed'' [this]) s
      in map_sum id (Pair prevented) (fn_collapse E L n opt els s1))"

section \<open>An accordion has one open panel\<close>

lemma co_simps [simp]:
  "co_dom (co_on f s) = f (co_dom s)" "co_dom (co_log els ev s) = co_dom s"
  "co_dom (set_transitioning b k s) = co_dom s" "co_dom (co_store el k s) = co_dom s"
  "co_dom (co_forget els s) = co_dom s" "co_dom (co_alloc E el p s) = co_dom s"
  "co_insts (co_on f s) = co_insts s" "co_insts (co_log els ev s) = co_insts s"
  "co_insts (co_store el k s) = co_insts s" "co_insts (co_forget els s) = co_insts s"
  "co_data (co_on f s) = co_data s" "co_data (co_log els ev s) = co_data s"
  "co_data (set_transitioning b k s) = co_data s" "co_data (co_alloc E el p s) = co_data s"
  "co_el k (co_on f s) = co_el k s" "co_el k (co_log els ev s) = co_el k s"
  by (simp_all add: co_dom_def co_on_def co_log_def set_transitioning_def co_store_def co_forget_def co_alloc_def
      co_el_def)

lemma co_el_transitioning [simp]: "co_el j (set_transitioning b k s) = co_el j s"
  by (cases "k < length (co_insts s)"; cases "j = k")
    (simp_all add: co_el_def set_transitioning_def list_update_beyond)

lemma insts_transitioning: "co_insts (set_transitioning b k s) = (co_insts s)[k := (co_insts s ! k)\<lparr>co_transitioning := b\<rparr>]"
  by (simp add: set_transitioning_def)

lemma transitioning_twice:
  assumes "\<And>x. x \<in> set xs \<Longrightarrow> \<not> co_transitioning x"
  shows "(xs[k := (xs ! k)\<lparr>co_transitioning := True\<rparr>])
    [k := (xs[k := (xs ! k)\<lparr>co_transitioning := True\<rparr>] ! k)\<lparr>co_transitioning := False\<rparr>] = xs"
proof (cases "k < length xs")
  case True
  with assms have "\<not> co_transitioning (xs ! k)" by simp
  then have "(xs ! k)\<lparr>co_transitioning := False\<rparr> = xs ! k" by (cases "xs ! k") simp
  with True show ?thesis by (simp add: list_update_same_conv)
qed (simp add: list_update_beyond)

text \<open>States between the operations when nothing is animated: no instance is in transition, and the
  data of an element names an instance for it.\<close>

definition co_ok :: "co_state \<Rightarrow> bool" where
  "co_ok s \<longleftrightarrow> dom_ok (co_dom s) \<and> (\<forall>x \<in> set (co_insts s). \<not> co_transitioning x) \<and>
     (\<forall>(i, k) \<in> set (co_data s). k < length (co_insts s) \<and> co_el k s = i)"

text \<open>What closing some panels changes, and what it does not.\<close>

definition other_word :: "string \<Rightarrow> bool" where
  "other_word c \<longleftrightarrow> one_word c \<and> c \<noteq> ''in'' \<and> c \<noteq> ''collapse''"

definition closes :: "nat set \<Rightarrow> co_state \<Rightarrow> co_state \<Rightarrow> bool" where
  "closes A s t \<longleftrightarrow> co_ok t \<and> same_tree (co_dom t) (co_dom s) \<and>
     (\<forall>i. has_class ''in'' (co_dom t) i \<longleftrightarrow> has_class ''in'' (co_dom s) i \<and> i \<notin> A) \<and>
     (\<forall>c i. other_word c \<longrightarrow> has_class c (co_dom t) i = has_class c (co_dom s) i) \<and>
     (\<exists>new. co_insts t = co_insts s @ new)"

lemma closes_trans: "closes A s t \<Longrightarrow> closes B t u \<Longrightarrow> closes (A \<union> B) s u"
  unfolding closes_def by (auto intro: same_tree_trans)

lemma collapse_words [simp]: "other_word ''accordion-group''"
  by (simp add: other_word_def)

lemma reset_frame:
  assumes "dom_ok d"
  shows "dom_ok (co_reset sz el d)" "same_tree (co_reset sz el d) d"
    "has_class ''in'' (co_reset sz el d) i = has_class ''in'' d i"
    "other_word c \<Longrightarrow> has_class c (co_reset sz el d) i = has_class c d i"
proof -
  have e: "\<exists>v. co_reset sz el d = add_class ''collapse'' [el] (set_style (dimension d el) v [el] (remove_class ''collapse'' [el] d))"
    by (auto simp: co_reset_def Let_def set_dimension_def split: option.split)
  then obtain v where v: "co_reset sz el d =
      add_class ''collapse'' [el] (set_style (dimension d el) v [el] (remove_class ''collapse'' [el] d))" by blast
  show "dom_ok (co_reset sz el d)" by (simp add: v assms)
  show "same_tree (co_reset sz el d) d"
    unfolding v by (meson same_tree_ops(1,2,5) same_tree_trans)
  have l: "has_class c d i \<Longrightarrow> i < length d" for c by (simp add: has_class_def)
  show "has_class ''in'' (co_reset sz el d) i = has_class ''in'' d i" by (auto simp: v assms dest: l)
  show "has_class c (co_reset sz el d) i = has_class c d i" if "other_word c"
    using that by (auto simp: v assms other_word_def dest: l)
qed

lemma hide_closes:
  assumes "co_ok s" "at_once E" "k < length (co_insts s)"
  shows "closes {co_el k s} s (co_hide E L k s)"
proof -
  let ?el = "co_el k s" let ?d = "co_dom s"
  have ok: "dom_ok ?d" "\<And>x. x \<in> set (co_insts s) \<Longrightarrow> \<not> co_transitioning x" using assms(1) by (auto simp: co_ok_def)
  have nt: "\<not> co_transitioning (co_insts s ! k)" using ok(2) assms(3) by simp
  show ?thesis
  proof (cases "has_class ''in'' ?d ?el")
    case False
    then have "co_hide E L k s = s" by (simp add: co_hide_def Let_def)
    with False assms(1) show ?thesis by (auto simp: closes_def)
  next
    case True
    let ?dim = "dimension ?d ?el" let ?r = "co_reset (Some (lay_size L ?d ?el ?dim)) ?el ?d"
    let ?e = "set_dimension ?dim 0 ?el (remove_class ''in'' [?el] ?r)"
    let ?t = "co_hide E L k s"
    have d: "co_dom ?t = ?e" "co_insts ?t = co_insts s" "co_data ?t = co_data s"
      using assms(2) nt True transitioning_twice [OF ok(2), of "co_insts s" k]
      by (simp_all add: co_hide_def Let_def co_transition_def co_complete_def at_once_def insts_transitioning)
    note f = reset_frame [OF ok(1), where sz = "Some (lay_size L ?d ?el ?dim)" and el = ?el]
    have "co_ok ?t"
      using assms(1) f(1) unfolding co_ok_def d co_el_def by (simp add: set_dimension_def)
    moreover have "same_tree ?e ?d"
      unfolding set_dimension_def by (meson f(2) same_tree_ops(2,5) same_tree_trans)
    moreover have "has_class ''in'' ?e i \<longleftrightarrow> has_class ''in'' ?d i \<and> i \<notin> {?el}" for i
      using f(1,3) by (auto simp: set_dimension_def)
    moreover have "has_class c ?e i = has_class c ?d i" if "other_word c" for c i
      using that f(1,4) by (auto simp: set_dimension_def other_word_def)
    ultimately show ?thesis unfolding closes_def d(1,2) by simp
  qed
qed

lemma alloc_ok:
  assumes "co_ok s"
  shows "co_ok (co_alloc E el p s)" "closes {} s (co_alloc E el p s)" "co_el (length (co_insts s)) (co_alloc E el p s) = el"
proof -
  show ok: "co_ok (co_alloc E el p s)"
    using assms by (auto simp: co_ok_def co_alloc_def co_el_def co_dom_def nth_append)
  then show "closes {} s (co_alloc E el p s)" by (auto simp: closes_def) (simp add: co_alloc_def)
qed (simp add: co_alloc_def co_el_def)

lemma closes_el: "closes A s t \<Longrightarrow> k < length (co_insts s) \<Longrightarrow> k < length (co_insts t) \<and> co_el k t = co_el k s"
  by (auto simp: closes_def co_el_def nth_append)

lemma store_closes: "closes A s t \<Longrightarrow> k < length (co_insts t) \<Longrightarrow> co_el k t = el \<Longrightarrow> closes A s (co_store el k t)"
  by (auto simp: closes_def co_ok_def co_el_def) (auto simp: co_store_def)

lemma new_closes:
  assumes "co_ok s" "at_once E" "has_class ''in'' (co_dom s) a"
  shows "\<exists>k t A. co_new E L n a opt s = Inr (k, t) \<and> closes A s t \<and> A \<subseteq> {a} \<and> k < length (co_insts t) \<and> co_el k t = a"
proof -
  obtain parent tog where m: "co_merged (co_dom s) a opt = (parent, tog)" by (cases "co_merged (co_dom s) a opt") auto
  let ?k = "length (co_insts s)" let ?s1 = "co_alloc E a parent s"
  note al = alloc_ok [OF assms(1), of E a parent]
  have k: "?k < length (co_insts ?s1)" by (simp add: co_alloc_def)
  let ?t = "if tog then co_hide E L ?k ?s1 else ?s1"
  have "closes {a} ?s1 (co_hide E L ?k ?s1)" using hide_closes [OF al(1) assms(2) k] al(3) by simp
  with al(2) have c: "closes (if tog then {a} else {}) s ?t" using closes_trans [of "{}" s ?s1 "{a}"] by auto
  have e: "?k < length (co_insts ?t) \<and> co_el ?k ?t = a"
    using closes_el [OF \<open>closes {a} ?s1 _\<close> k] k al(3) by auto
  have "co_new E L n a opt s = Inr (?k, co_store a ?k ?t)"
    using assms(3) by (simp add: m Let_def)
  moreover have "closes (if tog then {a} else {}) s (co_store a ?k ?t)" using store_closes [OF c] e by blast
  moreover have "co_insts (co_store a ?k ?t) = co_insts ?t" "co_el ?k (co_store a ?k ?t) = co_el ?k ?t"
    by (simp_all add: co_el_def)
  ultimately show ?thesis using e by (intro exI [of _ ?k] exI [of _ "co_store a ?k ?t"]
        exI [of _ "if tog then {a} else {}"]) auto
qed

text \<open>The call of the plugin on one open panel, and on all of them.\<close>

definition close_one :: "bs_env \<Rightarrow> layout \<Rightarrow> nat \<Rightarrow> nat \<Rightarrow> co_state \<Rightarrow> js_error + co_state" where
  "close_one E L n a s = bindr (case co_instance a s of Some j \<Rightarrow> Inr (j, s) | None \<Rightarrow> co_new E L n a None s)
     (\<lambda>(j, s1). Inr (co_hide E L j s1))"

lemma close_one_closes:
  assumes "co_ok s" "at_once E" "has_class ''in'' (co_dom s) a"
  shows "\<exists>t. close_one E L n a s = Inr t \<and> closes {a} s t"
proof (cases "co_instance a s")
  case None
  obtain k t A where kt: "co_new E L n a None s = Inr (k, t)" "closes A s t" "A \<subseteq> {a}" "k < length (co_insts t)" "co_el k t = a"
    using new_closes [OF assms, of L n None] by blast
  have "closes {a} t (co_hide E L k t)" using hide_closes [of t E k L] kt assms(2) by (auto simp: closes_def)
  moreover have "A \<union> {a} = {a}" using kt(3) by blast
  ultimately have "closes {a} s (co_hide E L k t)" using closes_trans [OF kt(2)] by metis
  then show ?thesis by (simp add: close_one_def None kt(1) del: co_new.simps)
next
  case (Some k)
  then have "(a, k) \<in> set (co_data s)" by (auto simp: co_instance_def dest: map_of_SomeD)
  with assms(1) have "k < length (co_insts s)" "co_el k s = a" by (auto simp: co_ok_def)
  with hide_closes [OF assms(1,2), of k L] show ?thesis by (simp add: close_one_def Some)
qed

lemma close_all:
  assumes "co_ok s" "at_once E" "\<forall>a \<in> set els. has_class ''in'' (co_dom s) a" "distinct els"
  shows "\<exists>t. run_all (close_one E L n) els s = Inr t \<and> closes (set els) s t"
  using assms(1,3,4)
proof (induction els arbitrary: s)
  case Nil
  then show ?case by (auto simp: closes_def)
next
  case (Cons a els)
  then obtain t where t: "close_one E L n a s = Inr t" "closes {a} s t"
    using close_one_closes [of s E a L n] assms(2) by auto
  then have "co_ok t" "\<forall>b \<in> set els. has_class ''in'' (co_dom t) b" using Cons.prems by (auto simp: closes_def)
  then obtain u where "run_all (close_one E L n) els t = Inr u" "closes (set els) t u"
    using Cons.IH [of t] Cons.prems(3) by auto
  moreover from this have "closes (set (a # els)) s u" using closes_trans [OF t(2)] by simp
  ultimately show ?case using t(1) by (intro exI [of _ u]) simp
qed

lemma show_opens:
  assumes "co_ok s" "at_once E" "co_el k s < length (co_dom s)"
  shows "dom_ok (co_dom (co_transition E True ''show'' ''shown'' k s))"
    "same_tree (co_dom (co_transition E True ''show'' ''shown'' k s)) (co_dom s)"
    "has_class ''in'' (co_dom (co_transition E True ''show'' ''shown'' k s)) i \<longleftrightarrow> has_class ''in'' (co_dom s) i \<or> i = co_el k s"
    "other_word c \<Longrightarrow> has_class c (co_dom (co_transition E True ''show'' ''shown'' k s)) i = has_class c (co_dom s) i"
proof -
  let ?el = "co_el k s"
  have d: "co_dom (co_transition E True ''show'' ''shown'' k s) = co_reset None ?el (add_class ''in'' [?el] (co_dom s))"
    using assms(2) by (simp add: co_transition_def Let_def co_complete_def at_once_def)
  have ok: "dom_ok (co_dom s)" using assms(1) by (simp add: co_ok_def)
  have ok': "dom_ok (add_class ''in'' [?el] (co_dom s))" using ok by simp
  note f = reset_frame [OF ok', where sz = None and el = ?el]
  have l: "has_class c (co_dom s) i \<Longrightarrow> i < length (co_dom s)" for c by (simp add: has_class_def)
  show "dom_ok (co_dom (co_transition E True ''show'' ''shown'' k s))" unfolding d by (rule f(1))
  show "same_tree (co_dom (co_transition E True ''show'' ''shown'' k s)) (co_dom s)"
    unfolding d by (meson f(2) same_tree_ops(1) same_tree_trans)
  show "has_class ''in'' (co_dom (co_transition E True ''show'' ''shown'' k s)) i \<longleftrightarrow> has_class ''in'' (co_dom s) i \<or> i = ?el"
    unfolding d f(3) using ok assms(3) by (auto dest: l)
  show "has_class c (co_dom (co_transition E True ''show'' ''shown'' k s)) i = has_class c (co_dom s) i" if "other_word c"
    unfolding d using f(4) [OF that] ok that by (auto simp: other_word_def dest: l)
qed

lemma co_ok_forget: "co_ok s \<Longrightarrow> co_ok (co_forget els s)"
  by (auto simp: co_ok_def co_el_def) (auto simp: co_forget_def)

text \<open>In an accordion whose transitions take no time and whose events nothing prevents, showing a
  closed panel leaves it as the only open one, whether or not the open panels had instances.\<close>

theorem accordion_one_open:
  assumes "co_ok s" "at_once E" "k < length (co_insts s)" "co_parent (co_insts s ! k) = Some ps"
    "\<not> has_class ''in'' (co_dom s) (co_el k s)"
    "co_el k s \<in> set (children (co_dom s) (filter (has_class ''accordion-group'' (co_dom s)) (children (co_dom s) ps)))"
    "co_el k s < length (co_dom s)"
  shows "\<exists>t. co_show E L (Suc n) k s = Inr t \<and> q_open (co_dom t) ps = [co_el k s]"
proof -
  let ?el = "co_el k s" let ?d = "co_dom s" let ?act = "q_open ?d ps" let ?dim = "dimension ?d ?el"
  have dist: "distinct ?act" by (simp add: q_open_def children_def)
  have nt: "\<not> co_transitioning (co_insts s ! k)" using assms(1,3) by (simp add: co_ok_def)
  obtain t where t: "run_all (close_one E L n) ?act s = Inr t" "closes (set ?act) s t"
    using close_all [OF assms(1,2) _ dist] by (auto simp: q_open_def)
  define hd where "hd = (case ?act of [] \<Rightarrow> None | a # _ \<Rightarrow> co_instance a s)"
  define t2 where "t2 = co_on (set_dimension ?dim 0 ?el) (if ?act \<noteq> [] \<and> hd = None then co_forget ?act t else t)"
  define u where "u = co_transition E True ''show'' ''shown'' k t2"
  have no: "\<not> (case hd of Some j \<Rightarrow> co_transitioning (co_insts s ! j) | None \<Rightarrow> False)"
  proof (cases hd)
    case (Some j)
    then obtain a where "co_instance a s = Some j" by (auto simp: hd_def split: list.splits)
    then have "(a, j) \<in> set (co_data s)" by (auto simp: co_instance_def dest: map_of_SomeD)
    then have "j < length (co_insts s)" using assms(1) by (auto simp: co_ok_def)
    with assms(1) Some show ?thesis by (simp add: co_ok_def)
  qed simp
  have "(\<lambda>a s. bindr (case co_instance a s of Some j \<Rightarrow> Inr (j, s) | None \<Rightarrow> co_new E L n a None s)
      (\<lambda>(j, s1). Inr (co_hide E L j s1))) = close_one E L n" by (simp add: close_one_def fun_eq_iff)
  then have show_u: "co_show E L (Suc n) k s = Inr u"
    using nt assms(2,4,5) no t(1) unfolding u_def t2_def hd_def
    by (simp add: at_once_def Let_def del: co_new.simps)
  have el2: "co_el k t2 = ?el" using closes_el [OF t(2) assms(3)] by (simp add: t2_def co_el_def)
  have ok2: "co_ok t2"
    using t(2) co_ok_forget by (auto simp: t2_def co_ok_def closes_def set_dimension_def co_el_def)
  have d2: "same_tree (co_dom t2) (co_dom t)" "has_class c (co_dom t2) i = has_class c (co_dom t) i" for c i
    by (auto simp: t2_def set_dimension_def)
  have tree: "same_tree (co_dom t) ?d" using t(2) by (simp add: closes_def)
  have "length (co_dom t2) = length ?d" using d2(1) tree by (metis same_tree_length)
  then have lt: "co_el k t2 < length (co_dom t2)" using assms(7) el2 by simp
  note o = show_opens [OF ok2 assms(2) lt, folded u_def, unfolded el2]
  have same: "same_tree (co_dom u) ?d" using o(2) d2(1) tree by (meson same_tree_trans)
  have grp: "has_class ''accordion-group'' (co_dom u) = has_class ''accordion-group'' ?d"
    using o(4) [of "''accordion-group''"] t(2) by (auto simp: d2(2) closes_def)
  let ?X = "children ?d (filter (has_class ''accordion-group'' ?d) (children ?d ps))"
  have "q_open (co_dom u) ps = filter (has_class ''in'' (co_dom u)) ?X"
    by (simp add: q_open_def same_tree_nav [OF same] grp)
  also have "\<dots> = [?el]"
  proof (rule filter_one)
    show "distinct ?X" by (simp add: children_def)
    show "?el \<in> set ?X" by (rule assms(6))
    fix y assume y: "y \<in> set ?X"
    have "has_class ''in'' (co_dom t) y \<longleftrightarrow> False" using t(2) y unfolding closes_def by (auto simp: q_open_def)
    then show "has_class ''in'' (co_dom u) y \<longleftrightarrow> y = ?el" by (simp add: o(3) d2(2))
  qed
  finally show ?thesis using show_u by blast
qed

definition demo_accordion :: dom where
  "demo_accordion =
     [(plain_node ''div'' ''accordion'')\<lparr>nd_kids := [1, 2]\<rparr>,
      (plain_node ''div'' ''accordion-group'')\<lparr>nd_kids := [3], nd_parent := Some 0\<rparr>,
      (plain_node ''div'' ''accordion-group'')\<lparr>nd_kids := [4], nd_parent := Some 0\<rparr>,
      (plain_node ''div'' ''in collapse'')\<lparr>nd_parent := Some 1\<rparr>,
      (plain_node ''div'' ''collapse'')\<lparr>nd_parent := Some 2\<rparr>]"

definition demo_collapse :: co_state where
  "demo_collapse = \<lparr>co_ui = empty_ui demo_accordion, co_insts = [\<lparr>co_element = 4, co_parent = Some [0],
     co_transitioning = False\<rparr>], co_data = [(4, 0)]\<rparr>"

definition demo_layout :: layout where
  "demo_layout = \<lparr>lay_size = \<lambda>d i k. 40, lay_scroll = \<lambda>d i k. 120\<rparr>"

theorem accordion_one_open_witness:
  "q_open demo_accordion [0] = [3] \<and>
   (\<exists>t. co_show \<lparr>bs_transition = None, bs_select = \<lambda>d s. [], bs_veto = \<lambda>ev els. False\<rparr> demo_layout 2 0 demo_collapse = Inr t \<and>
      q_open (co_dom t) [0] = [4])"
proof -
  let ?E = "\<lparr>bs_transition = None, bs_select = \<lambda>d s. [], bs_veto = \<lambda>ev els. False\<rparr>"
  have d: "co_dom demo_collapse = demo_accordion" by (simp add: co_dom_def demo_collapse_def empty_ui_def)
  have "dom_ok demo_accordion"
    by (simp add: dom_ok_def demo_accordion_def plain_node_def class_ok_def class_tab_def is_space_def)
  then have "co_ok demo_collapse" by (simp add: co_ok_def d) (simp add: demo_collapse_def co_el_def)
  moreover have "at_once ?E" by (simp add: at_once_def)
  moreover have "q_open demo_accordion [0] = [3] \<and> \<not> has_class ''in'' demo_accordion 4 \<and>
    4 \<in> set (children demo_accordion (filter (has_class ''accordion-group'' demo_accordion) (children demo_accordion [0])))
    \<and> 4 < length demo_accordion" by code_simp
  moreover have "co_el 0 demo_collapse = 4" "co_parent (co_insts demo_collapse ! 0) = Some [0]" "0 < length (co_insts demo_collapse)"
    by (simp_all add: co_el_def demo_collapse_def)
  ultimately show ?thesis using accordion_one_open [of demo_collapse ?E 0 "[0]" demo_layout 1] by (simp add: d numeral_2_eq_2 del: co_show.simps)
qed

end
