(* ===== verification/BsDropdown.thy ===== *)
theory BsDropdown
  imports BsAlertButton BsCarousel
begin

text \<open>
  The dropdown of \<open>bootstrap.js\<close>. The document is the element 0 and all below it. A click
  goes up from the element clicked: to the handlers an instance bound on its element, to those the
  instances bound on \<open>html\<close>, and then to those of the document, of which the delegated ones
  come first, the deepest element first.
\<close>

section \<open>State\<close>

datatype dr_closure = DrToggle | DrHtml nat | DrClear

record dr_page =
  dr_touch :: bool
  dr_visible :: "dom \<Rightarrow> nat \<Rightarrow> bool"

definition doc_els :: "dom \<Rightarrow> nat list" where
  "doc_els d = remdups (0 # below (length d) d 0)"

definition in_doc :: "(dom \<Rightarrow> nat \<Rightarrow> bool) \<Rightarrow> dom \<Rightarrow> nat list" where
  "in_doc p d = filter (p d) (doc_els d)"

fun ancestors :: "nat \<Rightarrow> dom \<Rightarrow> nat \<Rightarrow> nat list" where
  "ancestors 0 d i = []"
| "ancestors (Suc n) d i = (case parent_of d i of None \<Rightarrow> [] | Some j \<Rightarrow> j # ancestors n d j)"

definition above :: "dom \<Rightarrow> nat \<Rightarrow> nat list" where
  "above d i = ancestors (length d) d i"

definition is_toggle :: "dom \<Rightarrow> nat \<Rightarrow> bool" where
  "is_toggle d i \<longleftrightarrow> get_attr ''data-toggle'' d [i] = Some ''dropdown''"

definition is_disabled :: "dom \<Rightarrow> nat \<Rightarrow> bool" where
  "is_disabled d i \<longleftrightarrow> has_class ''disabled'' d i \<or> get_attr ''disabled'' d [i] \<noteq> None"

definition is_menu :: "dom \<Rightarrow> nat \<Rightarrow> bool" where
  "is_menu d i \<longleftrightarrow> get_attr ''role'' d [i] = Some ''menu''"

definition has_tag :: "string \<Rightarrow> dom \<Rightarrow> nat \<Rightarrow> bool" where
  "has_tag t d i \<longleftrightarrow> i < length d \<and> nd_tag (d ! i) = t"

lemma has_tag_ops [simp]: "has_tag t (add_class c els d) i = has_tag t d i" "has_tag t (remove_class c els d) i = has_tag t d i"
  by (auto simp: has_tag_def add_class_def remove_class_def each_keeps [where g = nd_tag])

section \<open>Operations\<close>

definition getParent :: "bs_env \<Rightarrow> dom \<Rightarrow> nat \<Rightarrow> nat list" where
  "getParent E d el =
     (let selector = (case nonempty (get_attr ''data-target'' d [el]) of
                        Some s \<Rightarrow> Some s
                      | None \<Rightarrow> (case get_attr ''href'' d [el] of
                                  Some h \<Rightarrow> if CHR ''#'' \<in> set h then Some (strip_href False h) else None
                                | None \<Rightarrow> None));
          p = select_opt E d selector
      in if p = [] then parents1 d [el] else p)"

definition close_menus :: "bs_env \<Rightarrow> nat list \<Rightarrow> dom \<Rightarrow> dom" where
  "close_menus E els d = fold (\<lambda>t d. remove_class ''open'' (getParent E d t) d) els d"

definition clearMenus :: "bs_env \<Rightarrow> dr_closure ui \<Rightarrow> dr_closure ui" where
  "clearMenus E u =
     (let u1 = jq_remove (in_doc (has_class ''dropdown-backdrop'') (ui_dom u)) u
      in on_dom (close_menus E (in_doc is_toggle (ui_dom u1))) u1)"

fun put_before :: "nat \<Rightarrow> nat \<Rightarrow> nat list \<Rightarrow> nat list" where
  "put_before x i [] = []"
| "put_before x i (y # ys) = (if y = x then i # y # ys else y # put_before x i ys)"

definition add_backdrop :: "nat \<Rightarrow> dr_closure ui \<Rightarrow> dr_closure ui" where
  "add_backdrop el u =
     (let i = length (ui_dom u);
          u1 = on_dom (\<lambda>d. d @ [(plain_node ''div'' ''dropdown-backdrop'')\<lparr>nd_parent := parent_of d el\<rparr>]) u;
          u2 = (case parent_of (ui_dom u) el of
                  None \<Rightarrow> u1
                | Some j \<Rightarrow> on_dom (upd_node (\<lambda>n. n\<lparr>nd_kids := put_before el i (nd_kids n)\<rparr>) j) u1)
      in bind_handler False [i] ''click'' DrClear u2)"

text \<open>\<open>toggle\<close>; beside the state, whether false was returned, which ends the event.\<close>

definition dr_toggle :: "bs_env \<Rightarrow> dr_page \<Rightarrow> nat \<Rightarrow> dr_closure ui \<Rightarrow> bool \<times> dr_closure ui" where
  "dr_toggle E P el u =
     (if is_disabled (ui_dom u) el then (False, u)
      else
        let p = getParent E (ui_dom u) el;
            isActive = any_class ''open'' (ui_dom u) p;
            u1 = clearMenus E u;
            u2 = (if isActive then u1
                  else on_dom (toggle_class ''open'' p) (if dr_touch P then add_backdrop el u1 else u1))
        in (True, focus_on [el] u2))"

section \<open>Clicks\<close>

text \<open>One handler, and those of one element; the flag says that the event goes no further up.\<close>

definition dr_exec :: "bs_env \<Rightarrow> dr_page \<Rightarrow> nat \<Rightarrow> dr_closure \<Rightarrow> dr_closure ui \<Rightarrow> bool \<times> dr_closure ui" where
  "dr_exec E P el k u =
     (case k of
        DrToggle \<Rightarrow> dr_toggle E P el u
      | DrHtml i \<Rightarrow> (False, on_dom (\<lambda>d. remove_class ''open'' (parents1 d [i]) d) u)
      | DrClear \<Rightarrow> (False, clearMenus E u))"

fun dr_handlers :: "bs_env \<Rightarrow> dr_page \<Rightarrow> nat \<Rightarrow> dr_closure list \<Rightarrow> dr_closure ui \<Rightarrow> bool \<times> dr_closure ui" where
  "dr_handlers E P el [] u = (False, u)"
| "dr_handlers E P el (k # ks) u =
     (case dr_exec E P el k u of (stop, u1) \<Rightarrow>
        (case dr_handlers E P el ks u1 of (stop', u2) \<Rightarrow> (stop \<or> stop', u2)))"

fun bubble :: "(nat \<Rightarrow> 's \<Rightarrow> bool \<times> 's) \<Rightarrow> nat list \<Rightarrow> 's \<Rightarrow> bool \<times> 's" where
  "bubble f [] u = (False, u)"
| "bubble f (i # is) u = (case f i u of (stop, u1) \<Rightarrow> if stop then (True, u1) else bubble f is u1)"

definition dropdown_form :: "dom \<Rightarrow> nat \<Rightarrow> bool" where
  "dropdown_form d i \<longleftrightarrow> has_tag ''form'' d i \<and> list_ex (has_class ''dropdown'' d) (above d i)"

text \<open>The delegated handlers of the document for one element on the way.\<close>

definition delegated :: "bs_env \<Rightarrow> dr_page \<Rightarrow> dom \<Rightarrow> nat \<Rightarrow> dr_closure ui \<Rightarrow> bool \<times> dr_closure ui" where
  "delegated E P d i u =
     (if is_toggle d i
      then (case dr_toggle E P i u of (stop, u1) \<Rightarrow> (stop \<or> dropdown_form d i, u1))
      else (dropdown_form d i, u))"

definition dr_click :: "bs_env \<Rightarrow> dr_page \<Rightarrow> nat \<Rightarrow> dr_closure ui \<Rightarrow> dr_closure ui" where
  "dr_click E P i u =
     (let path = i # above (ui_dom u) i
      in case bubble (\<lambda>j u. dr_handlers E P j (handlers_of j ''click'' u) u) path u of
           (True, u1) \<Rightarrow> u1
         | (False, u1) \<Rightarrow>
             (case bubble (delegated E P (ui_dom u1)) path u1 of
                (True, u2) \<Rightarrow> u2
              | (False, u2) \<Rightarrow> clearMenus E u2))"

section \<open>Keys\<close>

text \<open>\<open>/(38|40|27)/.test(e.keyCode)\<close> looks for the digits anywhere in the number.\<close>

definition key_matches :: "nat \<Rightarrow> bool" where
  "key_matches keyCode \<longleftrightarrow> sublist ''38'' (nat_dec keyCode) \<or> sublist ''40'' (nat_dec keyCode) \<or> sublist ''27'' (nat_dec keyCode)"

definition menu_link :: "dr_page \<Rightarrow> dom \<Rightarrow> nat \<Rightarrow> bool" where
  "menu_link P d i \<longleftrightarrow> has_tag ''a'' d i \<and>
     list_ex (\<lambda>j. has_tag ''li'' d j \<and> \<not> has_class ''divider'' d j \<and> dr_visible P d j \<and> list_ex (is_menu d) (above d j))
       (above d i)"

definition next_index :: "nat \<Rightarrow> int \<Rightarrow> int \<Rightarrow> int" where
  "next_index keyCode len index0 =
     (let i1 = (if keyCode = 38 \<and> index0 > 0 then index0 - 1 else index0);
          i2 = (if keyCode = 40 \<and> i1 < len - 1 then i1 + 1 else i1)
      in if i2 = -1 then 0 else i2)"

definition dr_keydown :: "bs_env \<Rightarrow> dr_page \<Rightarrow> nat \<Rightarrow> nat \<Rightarrow> dr_closure ui \<Rightarrow> bool \<times> dr_closure ui" where
  "dr_keydown E P keyCode el u =
     (if \<not> key_matches keyCode then (False, u)
      else if is_disabled (ui_dom u) el then (True, u)
      else
        let d = ui_dom u; p = getParent E d el; isActive = any_class ''open'' d p
        in if \<not> isActive \<or> isActive \<and> keyCode = 27
           then (True, dr_click E P el (if keyCode = 27 then focus_on (find_els is_toggle d p) u else u))
           else
             let items = find_els (menu_link P) d p;
                 index = index_of items (filter (\<lambda>i. ui_focus u = Some i) items)
             in if items = [] then (True, u)
                else (True, focus_on [items ! nat (next_index keyCode (int (length items)) index)] u))"

section \<open>The plugin\<close>

text \<open>The constructor; an element with a handler \<open>DrToggle\<close> has an instance.\<close>

definition new_Dropdown :: "nat \<Rightarrow> dr_closure ui \<Rightarrow> dr_closure ui" where
  "new_Dropdown el u = bind_handler False [0] ''click'' (DrHtml el) (bind_handler False [el] ''click'' DrToggle u)"

definition fn_dropdown :: "bs_env \<Rightarrow> dr_page \<Rightarrow> string option \<Rightarrow> nat list \<Rightarrow> nat list \<times> dr_closure ui
    \<Rightarrow> js_error + nat list \<times> dr_closure ui" where
  "fn_dropdown E P opt =
     run_all (\<lambda>i (made, u).
        let (made', u') = (if i \<in> set made then (made, u) else (made @ [i], new_Dropdown i u))
        in case opt of
             None \<Rightarrow> Inr (made', u')
           | Some m \<Rightarrow> if m = ''toggle'' then Inr (made', snd (dr_toggle E P i u'))
                       else Inl TypeError)"

section \<open>At most one menu is open\<close>

text \<open>The document without its classes, and selectors that do not look at them.\<close>

definition bare :: "dom \<Rightarrow> dom" where
  "bare d = map (\<lambda>n. n\<lparr>nd_class := []\<rparr>) d"

definition by_ids :: "bs_env \<Rightarrow> bool" where
  "by_ids E \<longleftrightarrow> (\<forall>d d' s. bare d = bare d' \<longrightarrow> bs_select E d s = bs_select E d' s)"

lemma bare_nth: "bare d = bare d' \<Longrightarrow> i < length d \<Longrightarrow>
    nd_attrs (d ! i) = nd_attrs (d' ! i) \<and> nd_kids (d ! i) = nd_kids (d' ! i) \<and> nd_parent (d ! i) = nd_parent (d' ! i)"
proof -
  assume b: "bare d = bare d'" and i: "i < length d"
  have l: "length d = length d'" using b unfolding bare_def by (metis length_map)
  have "bare d ! i = bare d' ! i" by (simp add: b)
  with i l have "(d ! i)\<lparr>nd_class := []\<rparr> = (d' ! i)\<lparr>nd_class := []\<rparr>" by (simp add: bare_def)
  then show ?thesis by (cases "d ! i"; cases "d' ! i") simp
qed

lemma bare_length: "bare d = bare d' \<Longrightarrow> length d = length d'"
  unfolding bare_def by (metis length_map)

lemma bare_attr: "bare d = bare d' \<Longrightarrow> get_attr k d els = get_attr k d' els"
  using bare_length [of d d'] bare_nth [of d d'] by (simp add: get_attr_def split: list.split)

lemma bare_tree: "bare d = bare d' \<Longrightarrow> same_tree d d'"
  using bare_length [of d d'] bare_nth [of d d'] unfolding same_tree_def by (simp add: list_eq_iff_nth_eq)

lemma bare_parent: "by_ids E \<Longrightarrow> bare d = bare d' \<Longrightarrow> getParent E d el = getParent E d' el"
proof -
  assume E: "by_ids E" and b: "bare d = bare d'"
  have "select_opt E d s = select_opt E d' s" for s
    using E b unfolding by_ids_def select_opt_def by (metis option.case_eq_if)
  moreover have "parents1 d [el] = parents1 d' [el]" using same_tree_nav(2) [OF bare_tree [OF b]] .
  ultimately show ?thesis unfolding getParent_def bare_attr [OF b] by (simp add: Let_def)
qed

lemma bare_each: "(\<And>n. (f n)\<lparr>nd_class := []\<rparr> = n\<lparr>nd_class := []\<rparr>) \<Longrightarrow> bare (each f els d) = bare d"
  unfolding bare_def by (auto intro!: nth_equalityI each_keeps [where g = "\<lambda>n. n\<lparr>nd_class := []\<rparr>"])

lemma bare_classes [simp]: "bare (remove_class c els d) = bare d" "bare (toggle_class c els d) = bare d"
  "bare (add_class c els d) = bare d"
  unfolding remove_class_def toggle_class_def add_class_def by (rule bare_each; simp)+

lemma close_menus_class:
  assumes "by_ids E" "dom_ok d"
  shows "bare (close_menus E els d) = bare d \<and> dom_ok (close_menus E els d) \<and>
    (has_class ''open'' (close_menus E els d) i \<longleftrightarrow>
       has_class ''open'' d i \<and> (\<forall>t \<in> set els. i \<notin> set (getParent E d t)))"
  using assms(2)
proof (induction els arbitrary: d)
  case (Cons t els)
  let ?d = "remove_class ''open'' (getParent E d t) d"
  have p: "getParent E ?d s = getParent E d s" for s by (rule bare_parent [OF assms(1)]) simp
  have "close_menus E (t # els) d = close_menus E els ?d" by (simp add: close_menus_def)
  moreover have "has_class ''open'' ?d i \<longleftrightarrow> has_class ''open'' d i \<and> i \<notin> set (getParent E d t)"
    using Cons.prems by simp
  ultimately show ?case using Cons.IH [of ?d] Cons.prems by (simp add: p)
qed (simp add: close_menus_def)
lemma clearMenus_no_backdrop:
  "in_doc (has_class ''dropdown-backdrop'') (ui_dom u) = [] \<Longrightarrow>
     clearMenus E u = on_dom (close_menus E (in_doc is_toggle (ui_dom u))) u"
  by (simp add: clearMenus_def jq_remove_def detach_def on_dom_def case_prod_unfold Let_def)

text \<open>A click on a toggle closes the menus of all toggles of the document, and opens its own if
  that was not open: of all these menus at most one is open, and the toggle has the focus.\<close>

theorem toggle_one_menu:
  assumes "by_ids E" "dom_ok (ui_dom u)" "el \<in> set (in_doc is_toggle (ui_dom u))" "\<not> is_disabled (ui_dom u) el"
    "getParent E (ui_dom u) el = [g]" "g < length (ui_dom u)" "\<not> dr_touch P"
    "in_doc (has_class ''dropdown-backdrop'') (ui_dom u) = []" "t \<in> set (in_doc is_toggle (ui_dom u))"
  shows "fst (dr_toggle E P el u) \<and> ui_focus (snd (dr_toggle E P el u)) = Some el \<and>
    (\<forall>i \<in> set (getParent E (ui_dom u) t).
       has_class ''open'' (ui_dom (snd (dr_toggle E P el u))) i \<longleftrightarrow> i = g \<and> \<not> has_class ''open'' (ui_dom u) g)"
proof -
  let ?d = "ui_dom u" let ?ts = "in_doc is_toggle ?d" let ?d1 = "close_menus E ?ts ?d"
  note c = close_menus_class [OF assms(1,2), of ?ts]
  have act: "any_class ''open'' ?d [g] = has_class ''open'' ?d g" by (simp add: any_class_def)
  have g1: "\<not> has_class ''open'' ?d1 g" using c assms(3,5) by force
  have len: "length ?d1 = length ?d" using c bare_length by metis
  have dom: "ui_dom (snd (dr_toggle E P el u)) = (if has_class ''open'' ?d g then ?d1 else toggle_class ''open'' [g] ?d1)"
    and f: "fst (dr_toggle E P el u)" "ui_focus (snd (dr_toggle E P el u)) = Some el"
    using assms(4,5,7) clearMenus_no_backdrop [OF assms(8), of E]
    by (simp_all add: dr_toggle_def Let_def act focus_on_def)
  have "has_class ''open'' (ui_dom (snd (dr_toggle E P el u))) i \<longleftrightarrow> i = g \<and> \<not> has_class ''open'' ?d g"
    if i: "i \<in> set (getParent E ?d t)" for i
  proof -
    have "\<not> has_class ''open'' ?d1 i" using c [of i] assms(9) i by blast
    moreover have "has_class ''open'' (toggle_class ''open'' [g] ?d1) i \<longleftrightarrow> (if i = g then \<not> has_class ''open'' ?d1 i else has_class ''open'' ?d1 i)"
      using has_class_toggle [of ?d1 "''open''" "''open''" g i] c assms(6) len by simp
    ultimately show ?thesis unfolding dom using g1 by auto
  qed
  with f show ?thesis by blast
qed

definition demo_menus :: dom where
  "demo_menus =
     [(plain_node ''html'' [])\<lparr>nd_kids := [1, 2]\<rparr>,
      (plain_node ''li'' ''dropdown open'')\<lparr>nd_kids := [3], nd_parent := Some 0\<rparr>,
      (plain_node ''li'' ''dropdown'')\<lparr>nd_kids := [4], nd_parent := Some 0\<rparr>,
      (plain_node ''a'' [])\<lparr>nd_attrs := [(''data-toggle'', ''dropdown'')], nd_parent := Some 1\<rparr>,
      (plain_node ''a'' [])\<lparr>nd_attrs := [(''data-toggle'', ''dropdown'')], nd_parent := Some 2\<rparr>]"

definition demo_page_env :: bs_env where
  "demo_page_env = \<lparr>bs_transition = None, bs_select = \<lambda>d s. [], bs_veto = \<lambda>ev els. False\<rparr>"

definition demo_dr :: dr_page where
  "demo_dr = \<lparr>dr_touch = False, dr_visible = \<lambda>d i. True\<rparr>"

theorem toggle_one_menu_witness:
  "has_class ''open'' demo_menus 1 \<and>
   \<not> has_class ''open'' (ui_dom (snd (dr_toggle demo_page_env demo_dr 4 (empty_ui demo_menus)))) 1"
proof -
  have d: "ui_dom (empty_ui demo_menus) = demo_menus" by (simp add: empty_ui_def)
  have "by_ids demo_page_env" by (simp add: by_ids_def demo_page_env_def)
  moreover have "dom_ok demo_menus"
    by (simp add: dom_ok_def demo_menus_def plain_node_def class_ok_def class_tab_def is_space_def)
  moreover have "4 \<in> set (in_doc is_toggle demo_menus) \<and> 3 \<in> set (in_doc is_toggle demo_menus) \<and>
    \<not> is_disabled demo_menus 4 \<and> 2 < length demo_menus \<and> in_doc (has_class ''dropdown-backdrop'') demo_menus = []
    \<and> has_class ''open'' demo_menus 1" by code_simp
  moreover have "getParent demo_page_env demo_menus 4 = [2] \<and> getParent demo_page_env demo_menus 3 = [1]" by code_simp
  moreover have "\<not> dr_touch demo_dr" by (simp add: demo_dr_def)
  ultimately show ?thesis
    using toggle_one_menu [of demo_page_env "empty_ui demo_menus" 4 2 demo_dr 3] by (simp add: d)
qed

text \<open>The key codes of the arrows and of escape match, and so do others that contain their digits.\<close>

lemma key_matches_more: "key_matches 38" "key_matches 40" "key_matches 27" "key_matches 127" "\<not> key_matches 13"
  by code_simp+

text \<open>The arrows stay within the items of the menu.\<close>

lemma next_index_bounds: "-1 \<le> i \<Longrightarrow> i < len \<Longrightarrow> 0 < len \<Longrightarrow> 0 \<le> next_index k len i \<and> next_index k len i < len"
  by (auto simp: next_index_def Let_def)

end
