(* ===== verification/BsModal.thy ===== *)
theory BsModal
  imports BsAlertButton BsCarousel
begin

text \<open>
  The modal of \<open>bootstrap.js\<close>: one dialog with its backdrop. The body is the element 0. What
  is put off to the end of a transition or to a timer is a closure; \<open>mo_callback\<close> are the two
  functions given to \<open>backdrop\<close>.
\<close>

section \<open>State\<close>

datatype mo_closure =
  MoOpened | MoHidden | MoShown | MoKeyup | MoHideEnd nat | MoHideTimeout | MoBackdropFocus | MoBackdropHide
| MoRefocus nat

datatype mo_kind = NoBackdrop | StaticBackdrop | PlainBackdrop

record modal =
  mo_ui :: "mo_closure ui"
  mo_element :: nat
  mo_shown :: bool
  mo_backdrop :: "nat option"
  mo_focusin :: nat
  mo_kind :: mo_kind
  mo_keyboard :: bool
  mo_loads :: "string list"

definition mo_dom :: "modal \<Rightarrow> dom" where
  "mo_dom m = ui_dom (mo_ui m)"

definition mo_on :: "(mo_closure ui \<Rightarrow> mo_closure ui) \<Rightarrow> modal \<Rightarrow> modal" where
  "mo_on f m = m\<lparr>mo_ui := f (mo_ui m)\<rparr>"

text \<open>Triggering an event on the dialog: what the data API bound to \<open>hide\<close> gives focus back.\<close>

definition mo_refocus :: "mo_closure \<Rightarrow> mo_closure ui \<Rightarrow> mo_closure ui" where
  "mo_refocus k u = (case k of MoRefocus i \<Rightarrow> focus_on [i] u | _ \<Rightarrow> u)"

definition mo_fire :: "string \<Rightarrow> modal \<Rightarrow> modal" where
  "mo_fire ev m =
     (let el = mo_element m; ks = handlers_of el ev (mo_ui m)
      in mo_on (\<lambda>u. fold mo_refocus ks (drop_once el ev (log_event [el] ev u))) m)"

definition new_Modal :: "nat \<Rightarrow> mo_kind \<Rightarrow> bool \<Rightarrow> string option \<Rightarrow> mo_closure ui \<Rightarrow> modal" where
  "new_Modal el kind keyboard remote u =
     \<lparr>mo_ui = u, mo_element = el, mo_shown = False, mo_backdrop = None, mo_focusin = 0, mo_kind = kind,
      mo_keyboard = keyboard, mo_loads = (case nonempty remote of Some r \<Rightarrow> [r] | None \<Rightarrow> [])\<rparr>"

section \<open>Operations\<close>

definition mo_fades :: "bs_env \<Rightarrow> modal \<Rightarrow> string option" where
  "mo_fades E m = (if has_class ''fade'' (mo_dom m) (mo_element m) then bs_transition E else None)"

definition enforceFocus :: "modal \<Rightarrow> modal" where
  "enforceFocus m = m\<lparr>mo_focusin := Suc (mo_focusin m)\<rparr>"

definition escape :: "modal \<Rightarrow> modal" where
  "escape m =
     (if mo_shown m \<and> mo_keyboard m then mo_on (bind_handler False [mo_element m] ''keyup'' MoKeyup) m
      else if \<not> mo_shown m then mo_on (unbind [mo_element m] ''keyup'') m
      else m)"

definition removeBackdrop :: "modal \<Rightarrow> modal" where
  "removeBackdrop m =
     (case mo_backdrop m of None \<Rightarrow> m | Some b \<Rightarrow> (mo_on (jq_remove [b]) m)\<lparr>mo_backdrop := None\<rparr>)"

definition shown_end :: "modal \<Rightarrow> modal" where
  "shown_end m = mo_fire ''shown'' (mo_on (focus_on [mo_element m]) m)"

definition mo_opened :: "bs_env \<Rightarrow> modal \<Rightarrow> modal" where
  "mo_opened E m =
     (let el = mo_element m; transition = mo_fades E m;
          m1 = (if parent_of (mo_dom m) el = None then mo_on (on_dom (append_to 0 el)) m else m);
          m2 = mo_on (on_dom (\<lambda>d. set_attr ''aria-hidden'' ''false'' [el] (add_class ''in'' [el] (show_els [el] d)))) m1;
          m3 = enforceFocus m2
      in case transition of
           Some ev \<Rightarrow> mo_on (bind_handler True [el] ev MoShown) m3
         | None \<Rightarrow> shown_end m3)"

definition mo_callback :: "bs_env \<Rightarrow> mo_closure \<Rightarrow> modal \<Rightarrow> modal" where
  "mo_callback E k m =
     (case k of MoOpened \<Rightarrow> mo_opened E m | MoHidden \<Rightarrow> mo_fire ''hidden'' (removeBackdrop m) | _ \<Rightarrow> m)"

definition backdrop_node :: "modal \<Rightarrow> node" where
  "backdrop_node m = plain_node ''div'' (''modal-backdrop '' @
     (if has_class ''fade'' (mo_dom m) (mo_element m) then ''fade'' else []))"

definition backdrop :: "bs_env \<Rightarrow> mo_closure \<Rightarrow> modal \<Rightarrow> modal" where
  "backdrop E k m =
     (if mo_shown m \<and> mo_kind m \<noteq> NoBackdrop
      then
        let b = length (mo_dom m);
            m1 = (mo_on (on_dom (\<lambda>d. append_to 0 b (d @ [backdrop_node m]))) m)\<lparr>mo_backdrop := Some b\<rparr>;
            m2 = mo_on (bind_handler False [b] ''click''
                    (if mo_kind m = StaticBackdrop then MoBackdropFocus else MoBackdropHide)) m1;
            m3 = mo_on (on_dom (add_class ''in'' [b])) m2
        in case mo_fades E m of
             Some ev \<Rightarrow> mo_on (bind_handler True [b] ev k) m3
           | None \<Rightarrow> mo_callback E k m3
      else case (mo_shown m, mo_backdrop m) of
        (False, Some b) \<Rightarrow>
          (let m1 = mo_on (on_dom (remove_class ''in'' [b])) m
           in case mo_fades E m of
                Some ev \<Rightarrow> mo_on (bind_handler True [b] ev k) m1
              | None \<Rightarrow> mo_callback E k m1)
      | _ \<Rightarrow> mo_callback E k m)"

definition mo_show :: "bs_env \<Rightarrow> modal \<Rightarrow> modal" where
  "mo_show E m =
     (let m1 = mo_fire ''show'' m
      in if mo_shown m1 \<or> bs_veto E ''show'' [mo_element m] then m1
         else backdrop E MoOpened (escape (m1\<lparr>mo_shown := True\<rparr>)))"

definition hideModal :: "bs_env \<Rightarrow> modal \<Rightarrow> modal" where
  "hideModal E m = backdrop E MoHidden (mo_on (on_dom (hide_els [mo_element m])) m)"

definition hideWithTransition :: "string \<Rightarrow> modal \<Rightarrow> modal" where
  "hideWithTransition ev m =
     (case set_timer 500 False MoHideTimeout (mo_ui m) of
        (t, u) \<Rightarrow> m\<lparr>mo_ui := bind_handler True [mo_element m] ev (MoHideEnd t) u\<rparr>)"

definition mo_hide :: "bs_env \<Rightarrow> modal \<Rightarrow> modal" where
  "mo_hide E m =
     (let el = mo_element m; m1 = mo_fire ''hide'' m
      in if \<not> mo_shown m1 \<or> bs_veto E ''hide'' [el] then m1
         else
           let m2 = (escape (m1\<lparr>mo_shown := False\<rparr>))\<lparr>mo_focusin := 0\<rparr>;
               m3 = mo_on (on_dom (\<lambda>d. set_attr ''aria-hidden'' ''true'' [el] (remove_class ''in'' [el] d))) m2
           in case mo_fades E m3 of Some ev \<Rightarrow> hideWithTransition ev m3 | None \<Rightarrow> hideModal E m3)"

definition mo_toggle :: "bs_env \<Rightarrow> modal \<Rightarrow> modal" where
  "mo_toggle E m = (if mo_shown m then mo_hide E m else mo_show E m)"

section \<open>Events\<close>

definition mo_exec :: "bs_env \<Rightarrow> nat \<Rightarrow> mo_closure \<Rightarrow> modal \<Rightarrow> modal" where
  "mo_exec E which k m =
     (case k of
        MoKeyup \<Rightarrow> if which = 27 then mo_hide E m else m
      | MoShown \<Rightarrow> shown_end m
      | MoHideEnd t \<Rightarrow> hideModal E (mo_on (clear_timer (Some t)) m)
      | MoHideTimeout \<Rightarrow>
          hideModal E (mo_on (unbind [mo_element m] (case bs_transition E of Some ev \<Rightarrow> ev | None \<Rightarrow> [])) m)
      | MoBackdropFocus \<Rightarrow> mo_on (focus_on [mo_element m]) m
      | MoBackdropHide \<Rightarrow> mo_hide E m
      | MoRefocus i \<Rightarrow> mo_on (focus_on [i]) m
      | _ \<Rightarrow> mo_callback E k m)"

text \<open>An event that reaches an element: a click, a key with its code, the end of a transition.\<close>

definition mo_event :: "bs_env \<Rightarrow> nat \<Rightarrow> string \<Rightarrow> nat \<Rightarrow> modal \<Rightarrow> modal" where
  "mo_event E i ev which m = fold (mo_exec E which) (handlers_of i ev (mo_ui m)) (mo_on (drop_once i ev) m)"

definition mo_timer :: "bs_env \<Rightarrow> nat \<Rightarrow> modal \<Rightarrow> modal" where
  "mo_timer E t m =
     (case List.find (\<lambda>(i, delay, repeat, k). i = t) (ui_timers (mo_ui m)) of
        None \<Rightarrow> m
      | Some (i, delay, repeat, k) \<Rightarrow> mo_exec E 0 k (mo_on (clear_timer (Some i)) m))"

text \<open>Focus that moves to an element outside is taken back by every handler of \<open>focusin.modal\<close>.\<close>

definition mo_focus_moves :: "nat \<Rightarrow> modal \<Rightarrow> modal" where
  "mo_focus_moves i m =
     (let el = mo_element m
      in if mo_focusin m > 0 \<and> i \<noteq> el \<and> i \<notin> set (below (length (mo_dom m)) (mo_dom m) el)
         then mo_on (focus_on [el]) m else mo_on (focus_on [i]) m)"

section \<open>The plugin\<close>

datatype mo_option = MoName string | MoOptions bool

text \<open>
  \<open>$.fn.modal(option)\<close> on the element, the instance existing; the flag is \<open>options.show\<close>. The
  method \<open>backdrop\<close>, which is of use with a callback only, is not called by name.
\<close>

definition fn_modal :: "bs_env \<Rightarrow> mo_option \<Rightarrow> modal \<Rightarrow> js_error + modal" where
  "fn_modal E opt m =
     (case opt of
        MoOptions show \<Rightarrow> Inr (if show then mo_show E m else m)
      | MoName s \<Rightarrow>
          if s = ''toggle'' then Inr (mo_toggle E m)
          else if s = ''show'' then Inr (mo_show E m)
          else if s = ''hide'' then Inr (mo_hide E m)
          else if s = ''enforceFocus'' then Inr (enforceFocus m)
          else if s = ''escape'' then Inr (escape m)
          else if s = ''hideModal'' then Inr (hideModal E m)
          else if s = ''removeBackdrop'' then Inr (removeBackdrop m)
          else if s = ''hideWithTransition''
          then (case bs_transition E of Some ev \<Rightarrow> Inr (hideWithTransition ev m) | None \<Rightarrow> Inl TypeError)
          else Inl TypeError)"

text \<open>
  The click on a \<open>data-toggle="modal"\<close> element: \<open>toggle\<close> if the dialog had an instance, else the
  options of both elements, of which \<open>show\<close> is given. Then \<open>hide\<close> will give the focus back.
\<close>

definition mo_click :: "bs_env \<Rightarrow> bool \<Rightarrow> bool \<Rightarrow> nat \<Rightarrow> modal \<Rightarrow> js_error + modal" where
  "mo_click E existed show this m =
     map_sum id (\<lambda>m1. mo_on (bind_handler True [mo_element m1] ''hide'' (MoRefocus this)) m1)
       (fn_modal E (if existed then MoName ''toggle'' else MoOptions show) m)"

text \<open>The page that a link loads: \<open>remote: !/#/.test(href) && href\<close>.\<close>

definition mo_remote :: "string option \<Rightarrow> string option" where
  "mo_remote href = (case href of Some h \<Rightarrow> if CHR ''#'' \<in> set h then None else nonempty (Some h) | None \<Rightarrow> None)"

section \<open>What holds whenever nothing is animated\<close>

lemma mo_simps [simp]:
  "mo_dom (mo_on f m) = ui_dom (f (mo_ui m))" "mo_ui (mo_on f m) = f (mo_ui m)" "mo_element (mo_on f m) = mo_element m"
  "mo_shown (mo_on f m) = mo_shown m" "mo_backdrop (mo_on f m) = mo_backdrop m" "mo_focusin (mo_on f m) = mo_focusin m"
  "mo_kind (mo_on f m) = mo_kind m" "mo_keyboard (mo_on f m) = mo_keyboard m"
  "mo_dom (m\<lparr>mo_shown := b\<rparr>) = mo_dom m" "mo_dom (m\<lparr>mo_focusin := n\<rparr>) = mo_dom m"
  "mo_dom (m\<lparr>mo_backdrop := p\<rparr>) = mo_dom m"
  by (simp_all add: mo_on_def mo_dom_def)

lemma refocus_simps [simp]: "ui_dom (fold mo_refocus ks u) = ui_dom u" "ui_handlers (fold mo_refocus ks u) = ui_handlers u"
  "ui_timers (fold mo_refocus ks u) = ui_timers u"
proof -
  have 1: "ui_dom (mo_refocus k u) = ui_dom u" "ui_handlers (mo_refocus k u) = ui_handlers u"
    "ui_timers (mo_refocus k u) = ui_timers u" for k u
    by (simp_all add: mo_refocus_def split: mo_closure.split)
  show "ui_dom (fold mo_refocus ks u) = ui_dom u" by (induction ks arbitrary: u) (simp_all add: 1)
  show "ui_handlers (fold mo_refocus ks u) = ui_handlers u" by (induction ks arbitrary: u) (simp_all add: 1)
  show "ui_timers (fold mo_refocus ks u) = ui_timers u" by (induction ks arbitrary: u) (simp_all add: 1)
qed

definition keyups :: "modal \<Rightarrow> (nat \<times> string \<times> bool \<times> mo_closure) list" where
  "keyups m = filter (\<lambda>(i, ev, once, k). i = mo_element m \<and> ev = ''keyup'') (ui_handlers (mo_ui m))"

definition handler_ok :: "nat \<Rightarrow> nat \<times> string \<times> bool \<times> mo_closure \<Rightarrow> bool" where
  "handler_ok el h \<longleftrightarrow> (case h of (i, ev, once, k) \<Rightarrow>
     i = el \<and> ev = ''keyup'' \<and> \<not> once \<and> k = MoKeyup \<or>
     ev = ''click'' \<and> (k = MoBackdropFocus \<or> k = MoBackdropHide) \<or>
     i = el \<and> ev = ''hide'' \<and> (\<exists>j. k = MoRefocus j))"

text \<open>The part of the invariant about the document, and the whole.\<close>

definition mo_tree :: "modal \<Rightarrow> bool" where
  "mo_tree m \<longleftrightarrow> dom_ok (mo_dom m) \<and> mo_element m < length (mo_dom m) \<and>
     \<not> has_class ''modal-backdrop'' (mo_dom m) (mo_element m) \<and>
     (\<forall>b. mo_backdrop m = Some b \<longrightarrow> b < length (mo_dom m) \<and> b \<noteq> mo_element m) \<and>
     (\<forall>i. has_class ''modal-backdrop'' (mo_dom m) i \<and> parent_of (mo_dom m) i \<noteq> None \<longrightarrow> mo_backdrop m = Some i) \<and>
     (\<forall>h \<in> set (ui_handlers (mo_ui m)). handler_ok (mo_element m) h) \<and> ui_timers (mo_ui m) = []"

definition mo_inv :: "modal \<Rightarrow> bool" where
  "mo_inv m \<longleftrightarrow> mo_tree m \<and>
     (mo_shown m \<longleftrightarrow> has_class ''in'' (mo_dom m) (mo_element m)) \<and>
     (mo_backdrop m \<noteq> None \<longleftrightarrow> mo_shown m \<and> mo_kind m \<noteq> NoBackdrop) \<and>
     keyups m = (if mo_shown m \<and> mo_keyboard m then [(mo_element m, ''keyup'', False, MoKeyup)] else []) \<and>
     mo_focusin m = (if mo_shown m then 1 else 0)"

text \<open>What only changes focus and the log, and handlers that are neither keys nor bad, keeps it.\<close>

lemma mo_inv_frame:
  assumes "mo_inv m" "mo_dom n = mo_dom m" "mo_element n = mo_element m" "mo_shown n = mo_shown m"
    "mo_backdrop n = mo_backdrop m" "mo_focusin n = mo_focusin m" "mo_kind n = mo_kind m" "mo_keyboard n = mo_keyboard m"
    "keyups n = keyups m" "\<forall>h \<in> set (ui_handlers (mo_ui n)). handler_ok (mo_element m) h" "ui_timers (mo_ui n) = ui_timers (mo_ui m)"
  shows "mo_inv n"
  using assms unfolding mo_inv_def mo_tree_def by simp

lemma keyups_drop: "\<forall>h \<in> set (ui_handlers (mo_ui m)). handler_ok (mo_element m) h \<Longrightarrow>
    keyups (mo_on (\<lambda>u. fold mo_refocus ks (drop_once i ev (log_event els e u))) m) = keyups m"
  unfolding keyups_def by (auto simp: drop_once_def log_event_def handler_ok_def intro!: filter_cong)

lemma mo_fire_keeps:
  assumes "\<forall>h \<in> set (ui_handlers (mo_ui m)). handler_ok (mo_element m) h"
  shows "mo_dom (mo_fire ev m) = mo_dom m" "mo_element (mo_fire ev m) = mo_element m" "mo_shown (mo_fire ev m) = mo_shown m"
    "mo_backdrop (mo_fire ev m) = mo_backdrop m" "mo_focusin (mo_fire ev m) = mo_focusin m" "mo_kind (mo_fire ev m) = mo_kind m"
    "mo_keyboard (mo_fire ev m) = mo_keyboard m" "keyups (mo_fire ev m) = keyups m"
    "\<forall>h \<in> set (ui_handlers (mo_ui (mo_fire ev m))). handler_ok (mo_element m) h"
    "ui_timers (mo_ui (mo_fire ev m)) = ui_timers (mo_ui m)"
  using assms keyups_drop [OF assms] by (auto simp: mo_fire_def Let_def drop_once_def log_event_def mo_dom_def [of m])

lemma mo_inv_fire: "mo_inv m \<Longrightarrow> mo_inv (mo_fire ev m)"
  by (rule mo_inv_frame [of m]) (auto simp: mo_fire_keeps mo_inv_def mo_tree_def)

lemma escape_keeps [simp]:
  "mo_dom (escape m) = mo_dom m" "mo_element (escape m) = mo_element m" "mo_shown (escape m) = mo_shown m"
  "mo_backdrop (escape m) = mo_backdrop m" "mo_focusin (escape m) = mo_focusin m" "mo_kind (escape m) = mo_kind m"
  "mo_keyboard (escape m) = mo_keyboard m" "ui_timers (mo_ui (escape m)) = ui_timers (mo_ui m)"
  by (simp_all add: escape_def mo_dom_def [of m])

lemma escape_handlers:
  assumes "\<forall>h \<in> set (ui_handlers (mo_ui m)). handler_ok (mo_element m) h" "mo_shown m \<Longrightarrow> keyups m = []"
  shows "\<forall>h \<in> set (ui_handlers (mo_ui (escape m))). handler_ok (mo_element m) h"
    "keyups (escape m) = (if mo_shown m \<and> mo_keyboard m then [(mo_element m, ''keyup'', False, MoKeyup)] else [])"
proof -
  have h: "ui_handlers (mo_ui (escape m)) =
      (if mo_shown m \<and> mo_keyboard m then ui_handlers (mo_ui m) @ [(mo_element m, ''keyup'', False, MoKeyup)]
       else if mo_shown m then ui_handlers (mo_ui m)
       else filter (\<lambda>(i, e, once, k). \<not> (i = mo_element m \<and> e = ''keyup'')) (ui_handlers (mo_ui m)))"
    by (simp add: escape_def bind_handler_def unbind_def)
  show "\<forall>h \<in> set (ui_handlers (mo_ui (escape m))). handler_ok (mo_element m) h"
    using assms(1) unfolding h by (auto simp: handler_ok_def)
  have f: "filter (\<lambda>(i, ev, once, k). i = e \<and> ev = ''keyup'') (filter (\<lambda>(i, ev, once, k). \<not> (i = e \<and> ev = ''keyup'')) hs) = []" for e hs
    by (auto simp: filter_empty_conv)
  show "keyups (escape m) = (if mo_shown m \<and> mo_keyboard m then [(mo_element m, ''keyup'', False, MoKeyup)] else [])"
    using assms(2) f unfolding keyups_def h by auto
qed

text \<open>The dialog is about to open: its backdrop is there if it has one, and only the class is missing.\<close>

definition about_to_open :: "modal \<Rightarrow> bool" where
  "about_to_open m \<longleftrightarrow> mo_tree m \<and> mo_shown m \<and> (mo_backdrop m \<noteq> None \<longleftrightarrow> mo_kind m \<noteq> NoBackdrop) \<and>
     keyups m = (if mo_keyboard m then [(mo_element m, ''keyup'', False, MoKeyup)] else []) \<and> mo_focusin m = 0"

lemma opened_inv:
  assumes "about_to_open m" "bs_transition E = None"
  shows "mo_inv (mo_opened E m)"
proof -
  let ?el = "mo_element m"
  define d where "d = (if parent_of (mo_dom m) ?el = None then append_to 0 ?el (mo_dom m) else mo_dom m)"
  define n where "n = mo_on (on_dom (\<lambda>x. set_attr ''aria-hidden'' ''false'' [?el] (add_class ''in'' [?el] (show_els [?el] d)))) m"
  have t: "mo_tree m" using assms(1) by (simp add: about_to_open_def)
  have el: "?el < length d" "dom_ok d" "length d = length (mo_dom m)" "has_class c d i = has_class c (mo_dom m) i" for c i
    using t by (auto simp: d_def mo_tree_def)
  have p: "parent_of d i = parent_of (mo_dom m) i" if "i \<noteq> ?el" for i using that by (simp add: d_def parent_moved)
  let ?d = "set_attr ''aria-hidden'' ''false'' [?el] (add_class ''in'' [?el] (show_els [?el] d))"
  have nd: "mo_dom n = ?d" by (simp add: n_def)
  have mb: "has_class ''modal-backdrop'' ?d i = has_class ''modal-backdrop'' (mo_dom m) i" for i
    using el(2) el(4) by (auto simp: show_els_def has_class_def [of _ d])
  have inn: "has_class ''in'' ?d ?el" using el(1,2) by (simp add: show_els_def)
  have tree: "mo_tree n"
    unfolding mo_tree_def nd mb using t el(1-3) p
    by (simp add: n_def mo_tree_def show_els_def) metis
  have k: "keyups n = keyups m" by (simp add: n_def keyups_def)
  have m3: "mo_opened E m = shown_end (enforceFocus n)"
    using assms(2) unfolding mo_opened_def Let_def n_def d_def mo_fades_def
    by (simp add: mo_on_def on_dom_def mo_dom_def)
  let ?q = "mo_on (focus_on [?el]) (enforceFocus n)"
  have "mo_inv ?q"
    using tree assms(1) inn k nd unfolding mo_inv_def about_to_open_def
    by (simp add: enforceFocus_def n_def mo_tree_def keyups_def mo_dom_def)
  then show ?thesis unfolding m3 shown_end_def by (simp add: mo_inv_fire n_def enforceFocus_def)
qed

lemma backdrop_node_class: "class_ok (nd_class (backdrop_node m))" "hasClass ''modal-backdrop'' (nd_class (backdrop_node m))"
proof -
  have "class_ok ''modal-backdrop '' \<and> class_ok ''modal-backdrop fade'' \<and>
      hasClass ''modal-backdrop'' ''modal-backdrop '' \<and> hasClass ''modal-backdrop'' ''modal-backdrop fade''"
    by (simp add: class_ok_def class_tab_def is_space_def hasClass_def spaced_def rclass_def sublist_code)
  then show "class_ok (nd_class (backdrop_node m))" "hasClass ''modal-backdrop'' (nd_class (backdrop_node m))"
    by (auto simp: backdrop_node_def plain_node_def)
qed

lemma show_inv:
  assumes "mo_inv m" "bs_transition E = None"
  shows "mo_inv (mo_show E m)"
proof -
  let ?m1 = "mo_fire ''show'' m" let ?el = "mo_element m"
  have i1: "mo_inv ?m1" using assms(1) by (rule mo_inv_fire)
  have h: "\<forall>h \<in> set (ui_handlers (mo_ui m)). handler_ok ?el h" using assms(1) by (simp add: mo_inv_def mo_tree_def)
  note f = mo_fire_keeps [OF h, of "''show''"]
  show ?thesis
  proof (cases "mo_shown m \<or> bs_veto E ''show'' [?el]")
    case True
    then show ?thesis using i1 f by (auto simp: mo_show_def Let_def)
  next
    case False
    let ?m3 = "escape (?m1\<lparr>mo_shown := True\<rparr>)"
    have k0: "keyups (?m1\<lparr>mo_shown := True\<rparr>) = []"
      using i1 False f(3) by (simp add: mo_inv_def keyups_def)
    have h1: "\<forall>h \<in> set (ui_handlers (mo_ui (?m1\<lparr>mo_shown := True\<rparr>))). handler_ok (mo_element (?m1\<lparr>mo_shown := True\<rparr>)) h"
      using f(2,9) by simp
    note e = escape_handlers [OF h1 k0]
    have t1: "mo_tree ?m3" using i1 e(1) by (simp add: mo_inv_def mo_tree_def)
    have b0: "mo_backdrop ?m3 = None" and fo: "mo_focusin ?m3 = 0" and s3: "mo_shown ?m3"
      using i1 False f(3) by (auto simp: mo_inv_def)
    have k3: "keyups ?m3 = (if mo_keyboard ?m3 then [(mo_element ?m3, ''keyup'', False, MoKeyup)] else [])"
      using e(2) by simp
    have sh: "mo_show E m = backdrop E MoOpened ?m3" using False f by (auto simp: mo_show_def Let_def)
    have o: "about_to_open ?m3 \<or> mo_kind ?m3 \<noteq> NoBackdrop"
      using t1 b0 fo s3 k3 by (auto simp: about_to_open_def)
    show ?thesis
    proof (cases "mo_kind ?m3 = NoBackdrop")
      case True
      then have "mo_show E m = mo_opened E ?m3" using s3 by (simp add: sh backdrop_def mo_callback_def)
      with opened_inv [OF _ assms(2)] o True show ?thesis by simp
    next
      case False
      let ?b = "length (mo_dom ?m3)"
      define n where "n = mo_on (on_dom (add_class ''in'' [?b])) (mo_on (bind_handler False [?b] ''click''
          (if mo_kind ?m3 = StaticBackdrop then MoBackdropFocus else MoBackdropHide))
          ((mo_on (on_dom (\<lambda>d. append_to 0 ?b (d @ [backdrop_node ?m3]))) ?m3)\<lparr>mo_backdrop := Some ?b\<rparr>))"
      have sh': "mo_show E m = mo_opened E n"
        using s3 False assms(2) by (simp add: sh backdrop_def mo_callback_def mo_fades_def n_def Let_def)
      let ?d = "append_to 0 ?b (mo_dom ?m3 @ [backdrop_node ?m3])"
      have nd: "mo_dom n = add_class ''in'' [?b] ?d" by (simp add: n_def mo_dom_def)
      have nel: "mo_element n = mo_element ?m3" "mo_backdrop n = Some ?b" "mo_shown n" "mo_kind n = mo_kind ?m3"
        "mo_focusin n = 0" "mo_keyboard n = mo_keyboard ?m3" using s3 fo by (simp_all add: n_def)
      have hd: "ui_handlers (mo_ui n) = ui_handlers (mo_ui ?m3) @ [(?b, ''click'', False,
          if mo_kind ?m3 = StaticBackdrop then MoBackdropFocus else MoBackdropHide)]"
        by (simp add: n_def bind_handler_def on_dom_def)
      have ok: "dom_ok ?d" using t1 backdrop_node_class by (simp add: mo_tree_def)
      have mb: "has_class ''modal-backdrop'' (mo_dom n) i \<longleftrightarrow> i = ?b \<or> has_class ''modal-backdrop'' (mo_dom ?m3) i" for i
        using ok backdrop_node_class(2) [of ?m3] has_class_bound [of "''modal-backdrop''" "mo_dom (mo_fire ''show'' m)" i]
        unfolding nd by (auto simp: has_class_def [of _ ?d])
      have pa: "parent_of (mo_dom n) i = (if i = ?b then Some 0 else parent_of (mo_dom ?m3) i)" for i
        unfolding nd by (simp add: parent_moved parent_new)
      have "mo_tree n"
        using t1 ok b0 unfolding mo_tree_def mb pa nel hd
        by (auto simp: nd handler_ok_def) (simp_all add: n_def)
      moreover have "keyups n = keyups ?m3" using t1 by (auto simp: keyups_def hd nel(1))
      ultimately have "about_to_open n" using k3 False by (simp add: about_to_open_def nel)
      then show ?thesis using opened_inv [OF _ assms(2)] sh' by simp
    qed
  qed
qed

lemma hide_inv:
  assumes "mo_inv m" "bs_transition E = None"
  shows "mo_inv (mo_hide E m)"
proof -
  let ?m1 = "mo_fire ''hide'' m" let ?el = "mo_element m"
  have i1: "mo_inv ?m1" using assms(1) by (rule mo_inv_fire)
  have h: "\<forall>h \<in> set (ui_handlers (mo_ui m)). handler_ok ?el h" using assms(1) by (simp add: mo_inv_def mo_tree_def)
  note f = mo_fire_keeps [OF h, of "''hide''"]
  show ?thesis
  proof (cases "\<not> mo_shown m \<or> bs_veto E ''hide'' [?el]")
    case True
    then show ?thesis using i1 f by (auto simp: mo_hide_def Let_def)
  next
    case False
    let ?m2 = "(escape (?m1\<lparr>mo_shown := False\<rparr>))\<lparr>mo_focusin := 0\<rparr>"
    have h1: "\<forall>h \<in> set (ui_handlers (mo_ui (?m1\<lparr>mo_shown := False\<rparr>))). handler_ok (mo_element (?m1\<lparr>mo_shown := False\<rparr>)) h"
      using f(2,9) by simp
    have k0: "mo_shown (?m1\<lparr>mo_shown := False\<rparr>) \<Longrightarrow> keyups (?m1\<lparr>mo_shown := False\<rparr>) = []" by simp
    note e = escape_handlers [OF h1 k0]
    define n where "n = mo_on (on_dom (hide_els [?el])) (mo_on (on_dom (\<lambda>d.
        set_attr ''aria-hidden'' ''true'' [?el] (remove_class ''in'' [?el] d))) ?m2)"
    have hd: "mo_hide E m = backdrop E MoHidden n"
      using False f assms(2) by (simp add: mo_hide_def Let_def mo_fades_def hideModal_def n_def)
    have nd: "mo_dom n = hide_els [?el] (set_attr ''aria-hidden'' ''true'' [?el] (remove_class ''in'' [?el] (mo_dom m)))"
      using f(1) by (simp add: n_def mo_dom_def escape_keeps(1) [unfolded mo_dom_def])
    have nf: "mo_element n = ?el" "\<not> mo_shown n" "mo_focusin n = 0" "mo_backdrop n = mo_backdrop m" "mo_kind n = mo_kind m"
      using f by (simp_all add: n_def)
    have k: "keyups n = []" using e(2) by (simp add: n_def keyups_def)
    have mt: "mo_tree m" using assms(1) by (simp add: mo_inv_def)
    have "mo_tree n"
      using mt e(1) f unfolding mo_tree_def nd nf by (simp add: hide_els_def n_def)
    have noin: "\<not> has_class ''in'' (mo_dom n) ?el" using mt by (simp add: nd hide_els_def mo_tree_def)
    show ?thesis
    proof (cases "mo_backdrop m")
      case None
      then have "mo_hide E m = mo_fire ''hidden'' n" by (simp add: hd backdrop_def nf mo_callback_def removeBackdrop_def)
      moreover have "mo_inv n" using \<open>mo_tree n\<close> noin k None by (simp add: mo_inv_def nf)
      ultimately show ?thesis by (simp add: mo_inv_fire)
    next
      case (Some b)
      let ?x = "mo_on (on_dom (remove_class ''in'' [b])) n"
      let ?y = "(mo_on (jq_remove [b]) ?x)\<lparr>mo_backdrop := None\<rparr>"
      have "mo_hide E m = mo_fire ''hidden'' ?y"
        using assms(2) by (simp add: hd backdrop_def nf mo_callback_def removeBackdrop_def Some mo_fades_def Let_def)
      moreover have "mo_inv ?y"
      proof -
        have yd: "mo_dom ?y = detach1 b (remove_class ''in'' [b] (mo_dom n))"
          by (simp add: jq_remove_def Let_def mo_dom_def detach_def on_dom_def)
        have yh: "set (ui_handlers (mo_ui ?y)) \<subseteq> set (ui_handlers (mo_ui n))"
          by (auto simp: jq_remove_def Let_def on_dom_def)
        have "ui_timers (mo_ui ?y) = ui_timers (mo_ui n)" by (simp add: jq_remove_def Let_def on_dom_def)
        moreover have "keyups ?y = []" using k yh by (auto simp: keyups_def filter_empty_conv)
        moreover have "has_class ''in'' (mo_dom ?y) ?el \<longleftrightarrow> False"
          using noin \<open>mo_tree n\<close> unfolding yd by (simp add: mo_tree_def)
        moreover have "mo_tree ?y"
          using \<open>mo_tree n\<close> yh Some nf(4) \<open>ui_timers (mo_ui ?y) = _\<close> unfolding mo_tree_def yd
          by (auto simp: parent_moved split: if_splits)
        ultimately show ?thesis using nf by (simp add: mo_inv_def)
      qed
      ultimately show ?thesis by (simp add: mo_inv_fire)
    qed
  qed
qed

text \<open>What the page can do to the dialog.\<close>

datatype mo_move = MvShow | MvHide | MvToggle | MvEvent nat string nat | MvTimer nat | MvFocus nat

fun mo_step :: "bs_env \<Rightarrow> mo_move \<Rightarrow> modal \<Rightarrow> modal" where
  "mo_step E MvShow m = mo_show E m"
| "mo_step E MvHide m = mo_hide E m"
| "mo_step E MvToggle m = mo_toggle E m"
| "mo_step E (MvEvent i ev which) m = mo_event E i ev which m"
| "mo_step E (MvTimer t) m = mo_timer E t m"
| "mo_step E (MvFocus i) m = mo_focus_moves i m"

lemma focus_inv: "mo_inv m \<Longrightarrow> mo_inv (mo_on (focus_on els) m)"
  by (rule mo_inv_frame [of m]) (auto simp: mo_dom_def keyups_def mo_inv_def mo_tree_def)

definition bound_kind :: "mo_closure \<Rightarrow> bool" where
  "bound_kind k \<longleftrightarrow> (case k of MoKeyup \<Rightarrow> True | MoBackdropFocus \<Rightarrow> True | MoBackdropHide \<Rightarrow> True | MoRefocus j \<Rightarrow> True | _ \<Rightarrow> False)"

lemma exec_inv: "mo_inv m \<Longrightarrow> bs_transition E = None \<Longrightarrow> bound_kind k \<Longrightarrow> mo_inv (mo_exec E which k m)"
  by (cases k) (simp_all add: mo_exec_def bound_kind_def focus_inv hide_inv)

lemma event_inv:
  assumes "mo_inv m" "bs_transition E = None"
  shows "mo_inv (mo_event E i ev which m)"
proof -
  have h: "\<forall>h \<in> set (ui_handlers (mo_ui m)). handler_ok (mo_element m) h" using assms(1) by (simp add: mo_inv_def mo_tree_def)
  then have ks: "\<forall>k \<in> set (handlers_of i ev (mo_ui m)). bound_kind k"
    by (auto simp: handlers_of_def handler_ok_def bound_kind_def)
  have "keyups (mo_on (drop_once i ev) m) = keyups m"
    using h unfolding keyups_def by (auto simp: drop_once_def handler_ok_def intro!: filter_cong)
  then have "mo_inv (mo_on (drop_once i ev) m)"
    using h by (intro mo_inv_frame [OF assms(1)]) (auto simp: mo_dom_def drop_once_def)
  moreover have "mo_inv (fold (mo_exec E which) ks n)" if "mo_inv n" "\<forall>k \<in> set ks. bound_kind k" for ks n
    using that exec_inv [OF _ assms(2)] by (induction ks arbitrary: n) auto
  ultimately show ?thesis using ks by (simp add: mo_event_def)
qed


definition demo_modal :: modal where
  "demo_modal = new_Modal 1 PlainBackdrop True None (empty_ui
     [(plain_node ''body'' [])\<lparr>nd_kids := [1]\<rparr>, (plain_node ''div'' ''modal hide fade'')\<lparr>nd_parent := Some 0\<rparr>])"


text \<open>
  With transitions it is otherwise: a dialog that is hidden while its backdrop still fades in is
  opened by the end of that transition, with the guard of focus but not marked as shown, so that
  \<open>hide\<close> does nothing any more.
\<close>

definition fading :: bs_env where
  "fading = \<lparr>bs_transition = Some ''transitionend'', bs_select = \<lambda>d s. [], bs_veto = \<lambda>ev els. False\<rparr>"

lemma opened_after_hide:
  "let m = fold (mo_step fading) [MvShow, MvHide, MvEvent 2 ''transitionend'' 0] demo_modal
   in has_class ''in'' (mo_dom m) 1 \<and> \<not> mo_shown m \<and> mo_focusin m = 1 \<and>
      has_class ''in'' (mo_dom (mo_hide fading m)) 1"
  by code_simp

end
