(* ===== verification/BsTooltip.thy ===== *)
theory BsTooltip
  imports BsAlertButton BsCarousel Complex_Main
begin

text \<open>
  The tooltip of \<open>bootstrap.js\<close> and the popover that extends it: one instance on one element,
  with the default template and without the option \<open>selector\<close>, so that the target of every event
  is the element and its instance the one at hand. Sizes and places are what the browser says;
  they and the offsets computed from them are rational numbers.
\<close>

section \<open>State\<close>

datatype tip_type = TTooltip | TPopover

datatype text_option = TextOf string | TextFun "nat \<Rightarrow> string"

datatype delay = DelayNum nat | DelayObj nat nat

record tip_options =
  to_animation :: bool
  to_placement :: string
  to_trigger :: string
  to_title :: text_option
  to_content :: text_option
  to_delay :: delay
  to_html :: bool
  to_container :: "nat option"

datatype tip_closure = TpToggle | TpEnter | TpLeave | TpShow | TpHide | TpDetachLate nat | TpDetachEnd nat nat

record rect =
  r_top :: rat
  r_left :: rat
  r_width :: rat
  r_height :: rat

record geometry =
  geo_width :: "dom \<Rightarrow> nat \<Rightarrow> rat"
  geo_height :: "dom \<Rightarrow> nat \<Rightarrow> rat"
  geo_pos :: "dom \<Rightarrow> nat \<Rightarrow> rect"

record tip =
  tp_ui :: "tip_closure ui"
  tp_type :: tip_type
  tp_element :: nat
  tp_options :: tip_options
  tp_enabled :: bool
  tp_tip :: "nat option"
  tp_timeout :: "nat option"
  tp_hover :: string
  tp_offset :: "rat \<times> rat"
  tp_arrow :: "(string \<times> rat) list"

definition tp_dom :: "tip \<Rightarrow> dom" where
  "tp_dom t = ui_dom (tp_ui t)"

definition tp_on :: "(tip_closure ui \<Rightarrow> tip_closure ui) \<Rightarrow> tip \<Rightarrow> tip" where
  "tp_on f t = t\<lparr>tp_ui := f (tp_ui t)\<rparr>"

definition tp_fire :: "string \<Rightarrow> tip \<Rightarrow> tip" where
  "tp_fire ev t = tp_on (log_event [tp_element t] ev) t"

section \<open>Options and titles\<close>

text \<open>What \<open>getOptions\<close> does after merging: a number that is not 0 is the delay of both.\<close>

definition getOptions :: "tip_options \<Rightarrow> tip_options" where
  "getOptions opts = (case to_delay opts of DelayNum n \<Rightarrow> if n \<noteq> 0 then opts\<lparr>to_delay := DelayObj n n\<rparr> else opts | _ \<Rightarrow> opts)"

definition delay_show :: "tip_options \<Rightarrow> nat" where
  "delay_show opts = (case to_delay opts of DelayNum n \<Rightarrow> 0 | DelayObj s h \<Rightarrow> s)"

definition delay_hide :: "tip_options \<Rightarrow> nat" where
  "delay_hide opts = (case to_delay opts of DelayNum n \<Rightarrow> 0 | DelayObj s h \<Rightarrow> h)"

definition tooltip_defaults :: tip_options where
  "tooltip_defaults = \<lparr>to_animation = True, to_placement = ''top'', to_trigger = ''hover focus'', to_title = TextOf [],
     to_content = TextOf [], to_delay = DelayNum 0, to_html = False, to_container = None\<rparr>"

definition popover_defaults :: tip_options where
  "popover_defaults = tooltip_defaults\<lparr>to_placement := ''right'', to_trigger := ''click'', to_content := TextOf []\<rparr>"

definition text_of_option :: "text_option \<Rightarrow> nat \<Rightarrow> string" where
  "text_of_option x el = (case x of TextOf s \<Rightarrow> s | TextFun f \<Rightarrow> f el)"

definition getTitle :: "tip \<Rightarrow> string" where
  "getTitle t = (case nonempty (get_attr ''data-original-title'' (tp_dom t) [tp_element t]) of
     Some s \<Rightarrow> s | None \<Rightarrow> text_of_option (to_title (tp_options t)) (tp_element t))"

definition getContent :: "tip \<Rightarrow> string" where
  "getContent t =
     (let c = text_of_option (to_content (tp_options t)) (tp_element t)
      in if c \<noteq> [] then c else (case get_attr ''data-content'' (tp_dom t) [tp_element t] of Some s \<Rightarrow> s | None \<Rightarrow> []))"

definition hasContent :: "tip \<Rightarrow> bool" where
  "hasContent t \<longleftrightarrow> getTitle t \<noteq> [] \<or> tp_type t = TPopover \<and> getContent t \<noteq> []"

definition fixTitle :: "tip \<Rightarrow> tip" where
  "fixTitle t =
     (let el = tp_element t; d = tp_dom t; title = nonempty (get_attr ''title'' d [el])
      in if title \<noteq> None \<or> get_attr ''data-original-title'' d [el] = None
         then tp_on (on_dom (\<lambda>d. set_attr ''title'' [] [el]
                (set_attr ''data-original-title'' (case title of Some s \<Rightarrow> s | None \<Rightarrow> []) [el] d))) t
         else t)"

section \<open>The constructor\<close>

fun split_blank :: "string \<Rightarrow> string list" where
  "split_blank [] = [[]]"
| "split_blank (c # s) = (if c = CHR 0x20 then [] # split_blank s
     else case split_blank s of [] \<Rightarrow> [[c]] | w # ws \<Rightarrow> (c # w) # ws)"

definition trigger_handlers :: "string \<Rightarrow> (string \<times> tip_closure) list" where
  "trigger_handlers trigger =
     (if trigger = ''click'' then [(''click'', TpToggle)]
      else if trigger = ''manual'' then []
      else if trigger = ''hover'' then [(''mouseenter'', TpEnter), (''mouseleave'', TpLeave)]
      else [(''focus'', TpEnter), (''blur'', TpLeave)])"

definition tip_init :: "tip_type \<Rightarrow> nat \<Rightarrow> tip_options \<Rightarrow> tip_closure ui \<Rightarrow> tip" where
  "tip_init type el options u =
     (let opts = getOptions options;
          u1 = fold (\<lambda>(ev, k). bind_handler False [el] ev k)
                 (concat (map trigger_handlers (rev (split_blank (to_trigger opts))))) u
      in fixTitle \<lparr>tp_ui = u1, tp_type = type, tp_element = el, tp_options = opts, tp_enabled = True, tp_tip = None,
           tp_timeout = None, tp_hover = [], tp_offset = (0, 0), tp_arrow = []\<rparr>)"

section \<open>The tip\<close>

text \<open>The elements of the template; the first is the tip.\<close>

definition template_nodes :: "tip_type \<Rightarrow> nat \<Rightarrow> dom" where
  "template_nodes type i =
     (case type of
        TTooltip \<Rightarrow>
          [(plain_node ''div'' ''tooltip'')\<lparr>nd_kids := [i + 1, i + 2]\<rparr>,
           (plain_node ''div'' ''tooltip-arrow'')\<lparr>nd_parent := Some i\<rparr>,
           (plain_node ''div'' ''tooltip-inner'')\<lparr>nd_parent := Some i\<rparr>]
      | TPopover \<Rightarrow>
          [(plain_node ''div'' ''popover'')\<lparr>nd_kids := [i + 1, i + 2, i + 3]\<rparr>,
           (plain_node ''div'' ''arrow'')\<lparr>nd_parent := Some i\<rparr>,
           (plain_node ''h3'' ''popover-title'')\<lparr>nd_parent := Some i\<rparr>,
           (plain_node ''div'' ''popover-content'')\<lparr>nd_parent := Some i\<rparr>])"

definition the_tip :: "tip \<Rightarrow> nat \<times> tip" where
  "the_tip t =
     (case tp_tip t of
        Some i \<Rightarrow> (i, t)
      | None \<Rightarrow> let i = length (tp_dom t)
                in (i, (tp_on (on_dom (\<lambda>d. d @ template_nodes (tp_type t) i)) t)\<lparr>tp_tip := Some i\<rparr>))"

text \<open>\<open>$el.text(s)\<close> as the HTML it leaves, and \<open>$el.html(s)\<close>.\<close>

fun text_html :: "string \<Rightarrow> string" where
  "text_html [] = []"
| "text_html (c # s) =
     (if c = CHR ''&'' then ''&amp;'' else if c = CHR ''<'' then ''&lt;'' else if c = CHR ''>'' then ''&gt;'' else [c]) @ text_html s"

definition put_text :: "bool \<Rightarrow> string \<Rightarrow> string \<Rightarrow> nat \<Rightarrow> dom \<Rightarrow> dom" where
  "put_text html cls s tip d = set_html (if html then s else text_html s) (find_els (has_class cls) d [tip]) d"

definition setContent :: "nat \<Rightarrow> tip \<Rightarrow> tip" where
  "setContent tip t =
     (let html = to_html (tp_options t)
      in case tp_type t of
           TTooltip \<Rightarrow> tp_on (on_dom (\<lambda>d. remove_class ''fade in top bottom left right'' [tip]
                          (put_text html ''tooltip-inner'' (getTitle t) tip d))) t
         | TPopover \<Rightarrow> tp_on (on_dom (\<lambda>d. remove_class ''fade top bottom left right in'' [tip]
                          (put_text html ''popover-content'' (getContent t) tip
                            (put_text html ''popover-title'' (getTitle t) tip d)))) t)"

section \<open>Placement\<close>

text \<open>Where the tip of this size goes; an unknown placement has no offset.\<close>

definition tip_place :: "string \<Rightarrow> rect \<Rightarrow> rat \<Rightarrow> rat \<Rightarrow> (rat \<times> rat) option" where
  "tip_place placement p w h =
     (if placement = ''bottom'' then Some (r_top p + r_height p, r_left p + r_width p / 2 - w / 2)
      else if placement = ''top'' then Some (r_top p - h, r_left p + r_width p / 2 - w / 2)
      else if placement = ''left'' then Some (r_top p + r_height p / 2 - h / 2, r_left p - w)
      else if placement = ''right'' then Some (r_top p + r_height p / 2 - h / 2, r_left p + r_width p)
      else None)"

text \<open>
  \<open>replaceArrow\<close>: the arrow is looked for as \<open>.tooltip-arrow\<close>, so that a popover has none. No
  percentage means that of the style sheet; a division by 0 gives no valid value and changes
  nothing.
\<close>

definition arrow_els :: "tip \<Rightarrow> nat \<Rightarrow> nat list" where
  "arrow_els t tip = find_els (has_class ''tooltip-arrow'') (tp_dom t) [tip]"

definition replaceArrow :: "nat \<Rightarrow> rat \<Rightarrow> rat \<Rightarrow> string \<Rightarrow> tip \<Rightarrow> tip" where
  "replaceArrow tip delta len position t =
     (if arrow_els t tip = [] then t
      else if delta = 0 then t\<lparr>tp_arrow := filter (\<lambda>(k, v). k \<noteq> position) (tp_arrow t)\<rparr>
      else if len = 0 then t
      else t\<lparr>tp_arrow := obj_set position (50 * (1 - delta / len)) (tp_arrow t)\<rparr>)"

definition applyPlacement :: "geometry \<Rightarrow> rat \<times> rat \<Rightarrow> string \<Rightarrow> nat \<Rightarrow> tip \<Rightarrow> tip" where
  "applyPlacement G off placement tip t =
     (let width = geo_width G (tp_dom t) tip; height = geo_height G (tp_dom t) tip;
          t1 = (tp_on (on_dom (\<lambda>d. add_class ''in'' [tip] (add_class placement [tip] d))) t)\<lparr>tp_offset := off\<rparr>;
          actualWidth = geo_width G (tp_dom t1) tip; actualHeight = geo_height G (tp_dom t1) tip;
          replace = (placement = ''top'' \<and> actualHeight \<noteq> height);
          off1 = (if replace then (fst off + height - actualHeight, snd off) else off);
          (off2, t2) =
            (if placement = ''bottom'' \<or> placement = ''top''
             then if snd off1 < 0
                  then ((fst off1, 0), replaceArrow tip (snd off1 * -2 - width + actualWidth) actualWidth ''left''
                          (t1\<lparr>tp_offset := (fst off1, 0)\<rparr>))
                  else (off1, replaceArrow tip (0 - width + actualWidth) actualWidth ''left'' t1)
             else (off1, replaceArrow tip (actualHeight - height) actualHeight ''top'' t1))
      in if replace then t2\<lparr>tp_offset := off2\<rparr> else t2)"

section \<open>Showing and hiding\<close>

definition put_tip :: "nat \<Rightarrow> tip \<Rightarrow> tip" where
  "put_tip tip t =
     (let t1 = (if to_animation (tp_options t) then tp_on (on_dom (add_class ''fade'' [tip])) t else t);
          t2 = tp_on (on_dom (\<lambda>d. set_style ''display'' ''block'' [tip] (set_style ''left'' ''0px'' [tip]
                 (set_style ''top'' ''0px'' [tip] (detach [tip] d))))) t1
      in tp_on (on_dom (case to_container (tp_options t) of Some j \<Rightarrow> append_to j tip | None \<Rightarrow> insert_after (tp_element t) tip)) t2)"

definition tip_show :: "bs_env \<Rightarrow> geometry \<Rightarrow> tip \<Rightarrow> js_error + tip" where
  "tip_show E G t =
     (if hasContent t \<and> tp_enabled t
      then
        let t1 = tp_fire ''show'' t
        in if bs_veto E ''show'' [tp_element t] then Inr t1
           else
             (case the_tip t1 of (tip, t2) \<Rightarrow>
                let t3 = put_tip tip (setContent tip t2);
                    placement = to_placement (tp_options t);
                    w = geo_width G (tp_dom t3) tip; h = geo_height G (tp_dom t3) tip
                in case tip_place placement (geo_pos G (tp_dom t3) (tp_element t)) w h of
                     None \<Rightarrow> Inl TypeError
                   | Some off \<Rightarrow> Inr (tp_fire ''shown'' (applyPlacement G off placement tip t3)))
      else Inr t)"

text \<open>Beside the state, whether the instance was returned (or nothing).\<close>

definition removeWithAnimation :: "string \<Rightarrow> nat \<Rightarrow> tip \<Rightarrow> tip" where
  "removeWithAnimation ev tip t =
     (case set_timer 500 False (TpDetachLate tip) (tp_ui t) of
        (i, u) \<Rightarrow> t\<lparr>tp_ui := bind_handler True [tip] ev (TpDetachEnd i tip) u\<rparr>)"

definition tip_hide :: "bs_env \<Rightarrow> tip \<Rightarrow> bool \<times> tip" where
  "tip_hide E t =
     (case the_tip t of (tip, t1) \<Rightarrow>
        let t2 = tp_fire ''hide'' t1
        in if bs_veto E ''hide'' [tp_element t] then (False, t2)
           else
             let t3 = tp_on (on_dom (remove_class ''in'' [tip])) t2;
                 t4 = (case bs_transition E of
                         Some ev \<Rightarrow> if has_class ''fade'' (tp_dom t3) tip then removeWithAnimation ev tip t3
                                    else tp_on (on_dom (detach [tip])) t3
                       | None \<Rightarrow> tp_on (on_dom (detach [tip])) t3)
             in (True, tp_fire ''hidden'' t4))"

definition tip_toggle :: "bs_env \<Rightarrow> geometry \<Rightarrow> tip \<Rightarrow> js_error + tip" where
  "tip_toggle E G t =
     (case the_tip t of (tip, t1) \<Rightarrow>
        if has_class ''in'' (tp_dom t1) tip then Inr (snd (tip_hide E t1)) else tip_show E G t1)"

definition tip_destroy :: "bs_env \<Rightarrow> tip \<Rightarrow> js_error + tip" where
  "tip_destroy E t =
     (case tip_hide E t of
        (True, t1) \<Rightarrow> Inr (tp_on (\<lambda>u. u\<lparr>ui_handlers := filter (\<lambda>(i, ev, once, k).
            \<not> (i = tp_element t \<and> (k = TpToggle \<or> k = TpEnter \<or> k = TpLeave))) (ui_handlers u)\<rparr>) t1)
      | (False, t1) \<Rightarrow> Inl TypeError)"

section \<open>Entering and leaving\<close>

text \<open>Without a delay \<open>enter\<close> shows at once, and leaves timer and \<open>hoverState\<close> alone.\<close>

definition tip_enter :: "bs_env \<Rightarrow> geometry \<Rightarrow> tip \<Rightarrow> js_error + tip" where
  "tip_enter E G t =
     (if delay_show (tp_options t) = 0 then tip_show E G t
      else case set_timer (delay_show (tp_options t)) False TpShow (clear_timer (tp_timeout t) (tp_ui t)) of
             (i, u) \<Rightarrow> Inr (t\<lparr>tp_ui := u, tp_hover := ''in'', tp_timeout := Some i\<rparr>))"

definition tip_leave :: "bs_env \<Rightarrow> tip \<Rightarrow> tip" where
  "tip_leave E t =
     (let t1 = tp_on (clear_timer (tp_timeout t)) t
      in if delay_hide (tp_options t) = 0 then snd (tip_hide E t1)
         else case set_timer (delay_hide (tp_options t)) False TpHide (tp_ui t1) of
                (i, u) \<Rightarrow> t1\<lparr>tp_ui := u, tp_hover := ''out'', tp_timeout := Some i\<rparr>)"

definition tip_exec :: "bs_env \<Rightarrow> geometry \<Rightarrow> tip_closure \<Rightarrow> tip \<Rightarrow> js_error + tip" where
  "tip_exec E G k t =
     (case k of
        TpToggle \<Rightarrow> tip_toggle E G t
      | TpEnter \<Rightarrow> tip_enter E G t
      | TpLeave \<Rightarrow> Inr (tip_leave E t)
      | TpShow \<Rightarrow> if tp_hover t = ''in'' then tip_show E G t else Inr t
      | TpHide \<Rightarrow> Inr (if tp_hover t = ''out'' then snd (tip_hide E t) else t)
      | TpDetachLate tip \<Rightarrow> Inr (tp_on (\<lambda>u. on_dom (detach [tip])
                               (unbind [tip] (case bs_transition E of Some ev \<Rightarrow> ev | None \<Rightarrow> []) u)) t)
      | TpDetachEnd i tip \<Rightarrow> Inr (tp_on (\<lambda>u. on_dom (detach [tip]) (clear_timer (Some i) u)) t))"

definition tip_event :: "bs_env \<Rightarrow> geometry \<Rightarrow> nat \<Rightarrow> string \<Rightarrow> tip \<Rightarrow> js_error + tip" where
  "tip_event E G i ev t = run_all (tip_exec E G) (handlers_of i ev (tp_ui t)) (tp_on (drop_once i ev) t)"

definition tip_timer :: "bs_env \<Rightarrow> geometry \<Rightarrow> nat \<Rightarrow> tip \<Rightarrow> js_error + tip" where
  "tip_timer E G i t =
     (case List.find (\<lambda>(j, delay, repeat, k). j = i) (ui_timers (tp_ui t)) of
        None \<Rightarrow> Inr t
      | Some (j, delay, repeat, k) \<Rightarrow> tip_exec E G k (tp_on (clear_timer (Some i)) t))"

text \<open>\<open>$.fn.tooltip(name)\<close> and \<open>$.fn.popover(name)\<close>, the methods called by name.\<close>

definition fn_tip :: "bs_env \<Rightarrow> geometry \<Rightarrow> string \<Rightarrow> tip \<Rightarrow> js_error + tip" where
  "fn_tip E G m t =
     (if m = ''show'' then tip_show E G t
      else if m = ''hide'' then Inr (snd (tip_hide E t))
      else if m = ''toggle'' then tip_toggle E G t
      else if m = ''enable'' then Inr (t\<lparr>tp_enabled := True\<rparr>)
      else if m = ''disable'' then Inr (t\<lparr>tp_enabled := False\<rparr>)
      else if m = ''toggleEnabled'' then Inr (t\<lparr>tp_enabled := \<not> tp_enabled t\<rparr>)
      else if m = ''destroy'' then tip_destroy E t
      else if m = ''fixTitle'' then Inr (fixTitle t)
      else Inl TypeError)"

section \<open>The arrow points at the element\<close>

lemma tp_simps [simp]: "tp_dom (tp_on f t) = ui_dom (f (tp_ui t))" "tp_ui (tp_on f t) = f (tp_ui t)"
  "tp_element (tp_on f t) = tp_element t" "tp_options (tp_on f t) = tp_options t" "tp_hover (tp_on f t) = tp_hover t"
  "tp_arrow (tp_on f t) = tp_arrow t" "tp_tip (tp_on f t) = tp_tip t" "tp_offset (tp_on f t) = tp_offset t"
  "tp_dom (t\<lparr>tp_offset := p\<rparr>) = tp_dom t" "tp_dom (t\<lparr>tp_tip := q\<rparr>) = tp_dom t" "tp_type (tp_on f t) = tp_type t"
  by (simp_all add: tp_on_def tp_dom_def)

text \<open>Where the arrow is, in percent of the width of the tip; the style sheet has it in the middle.\<close>

definition arrow_percent :: "tip \<Rightarrow> rat" where
  "arrow_percent t = (case obj_get (tp_arrow t) ''left'' of Some v \<Rightarrow> v | None \<Rightarrow> 50)"

lemma obj_get_dropped: "obj_get (filter (\<lambda>(k', v). k' \<noteq> k) m) k = None"
  by (induction m) (auto simp: obj_get_def)

lemma percent_of: "w \<noteq> 0 \<Longrightarrow> 50 * (1 - x / w) * w / 100 = (w - x) / (2::rat)"
  by (simp add: field_simps)

lemma replaceArrow_simps [simp]: "tp_offset (replaceArrow tip delta len position t) = tp_offset t"
  by (simp add: replaceArrow_def)

lemma replaceArrow_percent:
  assumes "arrow_els t tip \<noteq> []" "len \<noteq> 0"
  shows "arrow_percent (replaceArrow tip delta len ''left'' t) * len / 100 = (len - delta) / 2"
  using assms percent_of [OF assms(2), of delta]
  by (auto simp: replaceArrow_def arrow_percent_def obj_get_dropped objmemo.get_put)

lemma arrow_percent_offset [simp]: "arrow_percent (t\<lparr>tp_offset := p\<rparr>) = arrow_percent t"
  by (simp add: arrow_percent_def)

lemma arrow_els_same: "tp_dom s = tp_dom t \<Longrightarrow> arrow_els s tip = arrow_els t tip"
  by (simp add: arrow_els_def)

text \<open>A tooltip above or below its element is not placed left of the page, and its arrow points at the
  middle of the element, where the tip is moved to the right too.\<close>

theorem arrow_at_centre:
  assumes "placement = ''top'' \<or> placement = ''bottom''" "tip_place placement p w h = Some off"
    "\<And>d. geo_width G d tip = w" "0 < w" "dom_ok (tp_dom t)" "arrow_els t tip \<noteq> []"
  shows "0 \<le> snd (tp_offset (applyPlacement G off placement tip t)) \<and>
    snd (tp_offset (applyPlacement G off placement tip t)) + arrow_percent (applyPlacement G off placement tip t) * w / 100
      = r_left p + r_width p / 2"
proof -
  let ?d = "add_class ''in'' [tip] (add_class placement [tip] (tp_dom t))"
  define t1 where "t1 = (tp_on (on_dom (\<lambda>d. add_class ''in'' [tip] (add_class placement [tip] d))) t)\<lparr>tp_offset := off\<rparr>"
  have x: "snd off = r_left p + r_width p / 2 - w / 2"
    using assms(1,2) by (auto simp: tip_place_def split: if_splits)
  have ow: "one_word placement" using assms(1) by auto
  have tree: "same_tree ?d (tp_dom t)" by (meson same_tree_ops(1) same_tree_trans)
  have cls: "has_class ''tooltip-arrow'' (tp_dom t) i \<Longrightarrow> has_class ''tooltip-arrow'' ?d i" for i
    using assms(5) ow has_class_bound by fastforce
  have len: "length ?d = length (tp_dom t)" by simp
  have t1d: "tp_dom t1 = ?d" by (simp add: t1_def tp_dom_def)
  have arr: "arrow_els t1 tip \<noteq> []"
    using assms(6) cls unfolding arrow_els_def t1d find_els_def len same_tree_below [OF tree] filter_empty_conv by fastforce
  have arr': "arrow_els (t1\<lparr>tp_offset := q\<rparr>) tip \<noteq> []" for q using arr arrow_els_same [of "t1\<lparr>tp_offset := q\<rparr>" t1 tip] by simp
  note pc = replaceArrow_percent [OF arr] replaceArrow_percent [OF arr'] and w0 = assms(4)
  have nz: "w \<noteq> 0" using assms(4) by simp
  have o1: "tp_offset t1 = off" by (simp add: t1_def)
  define rep where "rep = (placement = ''top'' \<and> geo_height G (tp_dom t1) tip \<noteq> geo_height G (tp_dom t) tip)"
  define off1 where "off1 = (if rep then (fst off + geo_height G (tp_dom t) tip - geo_height G (tp_dom t1) tip, snd off) else off)"
  have s1: "snd off1 = snd off" by (simp add: off1_def)
  define t2 where "t2 = (if snd off < 0 then replaceArrow tip (snd off * -2) w ''left'' (t1\<lparr>tp_offset := (fst off1, 0)\<rparr>)
    else replaceArrow tip 0 w ''left'' t1)"
  have pb: "(placement = ''bottom'' \<or> placement = ''top'') = True" using assms(1) by blast
  have ap: "applyPlacement G off placement tip t = (if rep then t2\<lparr>tp_offset := (if snd off < 0 then (fst off1, 0) else off1)\<rparr> else t2)"
    unfolding applyPlacement_def Let_def t1_def [symmetric] rep_def [symmetric] off1_def [symmetric] assms(3) pb if_True
    by (simp add: s1 t2_def)
  have a: "arrow_percent (applyPlacement G off placement tip t) * w / 100 = (w - (if snd off < 0 then snd off * -2 else 0)) / 2"
  proof (cases "snd off < 0")
    case True
    then show ?thesis unfolding ap t2_def using pc(2) [OF nz, of "snd off * -2" "(fst off1, 0)"] by simp
  next
    case False
    then show ?thesis unfolding ap t2_def using pc(1) [OF nz, of 0] by simp
  qed
  have b: "snd (tp_offset (applyPlacement G off placement tip t)) = (if snd off < 0 then 0 else snd off)"
    unfolding ap t2_def using o1 s1 by (auto split: if_splits)
  show ?thesis unfolding a b using x by (auto simp: field_simps)
qed

definition demo_tip :: tip where
  "demo_tip = \<lparr>tp_ui = empty_ui ((plain_node ''a'' []) # template_nodes TTooltip 1), tp_type = TTooltip, tp_element = 0,
     tp_options = tooltip_defaults, tp_enabled = True, tp_tip = Some 1, tp_timeout = None, tp_hover = [],
     tp_offset = (0, 0), tp_arrow = []\<rparr>"

definition demo_rect :: rect where
  "demo_rect = \<lparr>r_top = 50, r_left = 10, r_width = 20, r_height = 10\<rparr>"

definition demo_geo :: geometry where
  "demo_geo = \<lparr>geo_width = \<lambda>d i. 100, geo_height = \<lambda>d i. 30, geo_pos = \<lambda>d i. demo_rect\<rparr>"

text \<open>The element is 20 wide at 10, the tip 100: it is moved from -30 to 0, and the arrow is at 20 percent.\<close>

theorem arrow_at_centre_witness:
  "tip_place ''top'' demo_rect 100 30 = Some (20, -30) \<and>
   0 \<le> snd (tp_offset (applyPlacement demo_geo (20, -30) ''top'' 1 demo_tip)) \<and>
   snd (tp_offset (applyPlacement demo_geo (20, -30) ''top'' 1 demo_tip)) +
     arrow_percent (applyPlacement demo_geo (20, -30) ''top'' 1 demo_tip) * 100 / 100 = 20"
proof -
  have d: "tp_dom demo_tip = (plain_node ''a'' []) # template_nodes TTooltip 1"
    by (simp add: tp_dom_def demo_tip_def empty_ui_def)
  have p: "tip_place ''top'' demo_rect 100 30 = Some (20, -30)" by (simp add: tip_place_def demo_rect_def)
  have "dom_ok (tp_dom demo_tip)"
    by (simp add: d dom_ok_def template_nodes_def plain_node_def class_ok_def class_tab_def is_space_def)
  moreover have "find_els (has_class ''tooltip-arrow'') ((plain_node ''a'' []) # template_nodes TTooltip 1) [1] = [2]"
    by code_simp
  ultimately show ?thesis
    using arrow_at_centre [of "''top''" demo_rect 100 30 "(20, -30)" demo_geo 1 demo_tip] p
    by (simp add: arrow_els_def d) (simp add: demo_geo_def demo_rect_def)
qed

text \<open>A popover has no such arrow.\<close>

lemma popover_arrow: "arrow_els (demo_tip\<lparr>tp_ui := empty_ui ((plain_node ''a'' []) # template_nodes TPopover 1)\<rparr>) 1 = []"
  by code_simp

text \<open>Text given without the option \<open>html\<close> opens no tag.\<close>

lemma text_html_no_tag: "CHR ''<'' \<notin> set (text_html s)"
  by (induction s) auto

section \<open>Leaving and coming back\<close>

lemma find_at_end: "\<forall>(j, delay, repeat, k) \<in> set ts. j \<noteq> i \<Longrightarrow> (\<lambda>(j, delay, repeat, k). j = i) x \<Longrightarrow>
    List.find (\<lambda>(j, delay, repeat, k). j = i) (ts @ [x]) = Some x"
  by (induction ts) auto

lemma tip_show_keeps:
  assumes "tip_show E G t = Inr s"
  shows "ui_timers (tp_ui s) = ui_timers (tp_ui t)" "tp_hover s = tp_hover t"
proof -
  have a: "ui_timers (tp_ui (replaceArrow tip x y p r)) = ui_timers (tp_ui r)" "tp_hover (replaceArrow tip x y p r) = tp_hover r"
    for tip x y p r by (simp_all add: replaceArrow_def)
  have b: "ui_timers (tp_ui (applyPlacement G off pl tip r)) = ui_timers (tp_ui r)"
    "tp_hover (applyPlacement G off pl tip r) = tp_hover r" for off pl tip r
    by (simp_all add: applyPlacement_def Let_def a split: prod.split)
  have c: "ui_timers (tp_ui (put_tip tip r)) = ui_timers (tp_ui r)" "tp_hover (put_tip tip r) = tp_hover r"
    "ui_timers (tp_ui (setContent tip r)) = ui_timers (tp_ui r)" "tp_hover (setContent tip r) = tp_hover r"
    "ui_timers (tp_ui (snd (the_tip r))) = ui_timers (tp_ui r)" "tp_hover (snd (the_tip r)) = tp_hover r" for tip r
    by (simp_all add: put_tip_def setContent_def the_tip_def Let_def split: tip_type.split option.split)
  have d: "ui_timers (tp_ui (tp_fire ev r)) = ui_timers (tp_ui r)" "tp_hover (tp_fire ev r) = tp_hover r" for ev r
    by (simp_all add: tp_fire_def log_event_def)
  show "ui_timers (tp_ui s) = ui_timers (tp_ui t)" "tp_hover s = tp_hover t"
    using assms c(5,6) [of "tp_fire ''show'' t"] d [of "''show''" t]
    by (auto simp: tip_show_def Let_def b c(1-4) d split: if_splits prod.splits option.splits)
qed

text \<open>A tooltip that is hidden late but shown at once is hidden while the pointer is on its element: coming
  back before the delay of \<open>hide\<close> is over neither stops the timer of \<open>leave\<close> nor changes what
  that looks at.\<close>

theorem hidden_after_return:
  assumes "delay_show (tp_options t) = 0" "delay_hide (tp_options t) \<noteq> 0"
    "\<forall>(i, delay, repeat, k) \<in> set (ui_timers (tp_ui t)). i < ui_next (tp_ui t)"
    "tip_enter E G (tip_leave E t) = Inr s"
  shows "tip_timer E G (ui_next (tp_ui t)) s = Inr (snd (tip_hide E (tp_on (clear_timer (Some (ui_next (tp_ui t)))) s)))"
proof -
  let ?i = "ui_next (tp_ui t)" let ?l = "tip_leave E t"
  have o: "tp_options ?l = tp_options t" "tp_hover ?l = ''out''"
    and ts: "ui_timers (tp_ui ?l) = ui_timers (clear_timer (tp_timeout t) (tp_ui t)) @ [(?i, delay_hide (tp_options t), False, TpHide)]"
    using assms(2) by (simp_all add: tip_leave_def Let_def set_timer_def split: prod.split)
  have "set (ui_timers (clear_timer (tp_timeout t) (tp_ui t))) \<subseteq> set (ui_timers (tp_ui t))"
    by (auto simp: clear_timer_def split: option.split)
  then have "\<forall>(j, delay, repeat, k) \<in> set (ui_timers (clear_timer (tp_timeout t) (tp_ui t))). j \<noteq> ?i"
    using assms(3) by fastforce
  then have f: "List.find (\<lambda>(j, delay, repeat, k). j = ?i) (ui_timers (tp_ui ?l)) = Some (?i, delay_hide (tp_options t), False, TpHide)"
    unfolding ts by (rule find_at_end) simp
  have "tip_show E G ?l = Inr s" using assms(1,4) o by (simp add: tip_enter_def)
  from tip_show_keeps [OF this] f o show ?thesis by (simp add: tip_timer_def tip_exec_def)
qed

definition demo_env0 :: bs_env where
  "demo_env0 = \<lparr>bs_transition = None, bs_select = \<lambda>d s. [], bs_veto = \<lambda>ev els. False\<rparr>"

definition late_tip :: tip where
  "late_tip = demo_tip\<lparr>tp_options := tooltip_defaults\<lparr>to_title := TextOf ''Help'', to_delay := DelayObj 0 500\<rparr>\<rparr>"

theorem hidden_after_return_witness:
  "\<exists>s. tip_enter demo_env0 demo_geo (tip_leave demo_env0 late_tip) = Inr s \<and>
     tip_timer demo_env0 demo_geo 0 s = Inr (snd (tip_hide demo_env0 (tp_on (clear_timer (Some 0)) s)))"
proof -
  have o: "delay_show (tp_options late_tip) = 0" "delay_hide (tp_options late_tip) \<noteq> 0"
    by (simp_all add: late_tip_def delay_show_def delay_hide_def)
  have u: "ui_timers (tp_ui late_tip) = []" "ui_next (tp_ui late_tip) = 0"
    by (simp_all add: late_tip_def demo_tip_def empty_ui_def)
  let ?l = "tip_leave demo_env0 late_tip"
  have l: "tp_options ?l = tp_options late_tip" "delay_show (tp_options ?l) = 0"
    using o by (simp_all add: tip_leave_def Let_def split: prod.split)
  then have "to_placement (tp_options ?l) = ''top''" by (simp add: late_tip_def tooltip_defaults_def)
  then have "\<exists>s. tip_show demo_env0 demo_geo ?l = Inr s"
    by (simp add: tip_show_def Let_def tip_place_def split: prod.split)
  then obtain s where s: "tip_enter demo_env0 demo_geo ?l = Inr s" using l by (auto simp: tip_enter_def)
  with hidden_after_return [OF o _ s] u show ?thesis by auto
qed

end
