(* ===== verification/BsTab.thy ===== *)
theory BsTab
  imports BsAlertButton BsCarousel BsDropdown
begin

text \<open>
  The tabs of \<open>bootstrap.js\<close>: \<open>show\<close> makes the list item of a link the active one of its list
  and the pane it names the active one of its container. The element before, which goes with the
  events, is not part of the log.
\<close>

section \<open>State\<close>

text \<open>The closure \<open>next\<close>: the active elements, the new one, whether there is a transition, and the link
  on which \<open>shown\<close> is triggered.\<close>

datatype tb_closure = TbNext "nat list" "nat list" bool "nat option"

section \<open>Operations\<close>

definition with_tag :: "string \<Rightarrow> dom \<Rightarrow> nat list \<Rightarrow> nat list" where
  "with_tag t d els = filter (has_tag t d) els"

text \<open>\<open>> .dropdown-menu > .active\<close>\<close>

definition inner_active :: "dom \<Rightarrow> nat list \<Rightarrow> nat list" where
  "inner_active d els = filter (has_class ''active'' d) (children d (filter (has_class ''dropdown-menu'' d) (children d els)))"

definition dropdown_item :: "dom \<Rightarrow> nat \<Rightarrow> bool" where
  "dropdown_item d i \<longleftrightarrow> has_tag ''li'' d i \<and> has_class ''dropdown'' d i"

definition activate_dom :: "nat list \<Rightarrow> nat list \<Rightarrow> bool \<Rightarrow> dom \<Rightarrow> dom" where
  "activate_dom active element transition d =
     (let d1 = remove_class ''active'' active d;
          d2 = remove_class ''active'' (inner_active d1 active) d1;
          d3 = add_class ''active'' element d2;
          d4 = (if transition then add_class ''in'' element d3 else remove_class ''fade'' element d3)
      in add_class ''active'' (closest dropdown_item d4 element) d4)"

definition tb_next :: "tb_closure \<Rightarrow> tb_closure ui \<Rightarrow> js_error + tb_closure ui" where
  "tb_next k u =
     (case k of TbNext active element transition callback \<Rightarrow>
        if transition \<and> element = [] then Inl TypeError
        else let u1 = on_dom (activate_dom active element transition) u
             in Inr (case callback of Some a \<Rightarrow> log_event [a] ''shown'' u1 | None \<Rightarrow> u1))"

definition tb_activate :: "bs_env \<Rightarrow> nat list \<Rightarrow> nat list \<Rightarrow> nat option \<Rightarrow> tb_closure ui \<Rightarrow> js_error + tb_closure ui" where
  "tb_activate E element container callback u =
     (let active = filter (has_class ''active'' (ui_dom u)) (children (ui_dom u) container);
          transition = (callback \<noteq> None \<and> bs_transition E \<noteq> None \<and> any_class ''fade'' (ui_dom u) active);
          k = TbNext active element transition callback
      in bindr (case bs_transition E of
                  Some ev \<Rightarrow> if transition then Inr (bind_handler True active ev k u) else tb_next k u
                | None \<Rightarrow> tb_next k u)
           (\<lambda>u1. Inr (on_dom (remove_class ''in'' active) u1)))"

definition plain_list :: "dom \<Rightarrow> nat \<Rightarrow> bool" where
  "plain_list d i \<longleftrightarrow> has_tag ''ul'' d i \<and> \<not> has_class ''dropdown-menu'' d i"

definition tb_show :: "bs_env \<Rightarrow> nat \<Rightarrow> tb_closure ui \<Rightarrow> js_error + tb_closure ui" where
  "tb_show E this u =
     (let d = ui_dom u; ul = closest plain_list d [this]; li = with_tag ''li'' d (parents1 d [this])
      in if any_class ''active'' d li then Inr u
         else
           let u1 = log_event [this] ''show'' u
           in if bs_veto E ''show'' [this] then Inr u1
              else
                let target = select_opt E d (target_selector False d [this])
                in bindr (tb_activate E li ul None u1)
                     (\<lambda>u2. tb_activate E target (parents1 (ui_dom u2) target) (Some this) u2))"

definition fn_tab :: "bs_env \<Rightarrow> string option \<Rightarrow> nat list \<Rightarrow> tb_closure ui \<Rightarrow> js_error + tb_closure ui" where
  "fn_tab E opt =
     run_all (\<lambda>i u. case opt of None \<Rightarrow> Inr u | Some m \<Rightarrow> if m = ''show'' then tb_show E i u else Inl TypeError)"

text \<open>The click on a link; the default is prevented in any case.\<close>

definition is_tab :: "dom \<Rightarrow> nat \<Rightarrow> bool" where
  "is_tab d i \<longleftrightarrow> get_attr ''data-toggle'' d [i] = Some ''tab'' \<or> get_attr ''data-toggle'' d [i] = Some ''pill''"

definition tb_click :: "bs_env \<Rightarrow> nat \<Rightarrow> tb_closure ui \<Rightarrow> bool \<times> (js_error + tb_closure ui)" where
  "tb_click E i u = (if is_tab (ui_dom u) i then (True, fn_tab E (Some ''show'') [i] u) else (False, Inr u))"

definition tb_transition_end :: "bs_env \<Rightarrow> nat \<Rightarrow> tb_closure ui \<Rightarrow> js_error + tb_closure ui" where
  "tb_transition_end E i u =
     (case bs_transition E of None \<Rightarrow> Inr u | Some ev \<Rightarrow> run_all tb_next (handlers_of i ev u) (drop_once i ev u))"

section \<open>One tab and one pane\<close>

lemma tab_words [simp]: "one_word ''dropdown-menu''"
  by (simp add: one_word_def is_space_def)

text \<open>What an activation that is done at once does to the classes.\<close>

lemma activate_classes:
  assumes "dom_ok d" "closest dropdown_item (remove_class ''fade'' element (add_class ''active'' element
      (remove_class ''active'' (inner_active (remove_class ''active'' active d) active) (remove_class ''active'' active d)))) element = []"
  shows "dom_ok (activate_dom active element False d)" "same_tree (activate_dom active element False d) d"
    "\<exists>inner. set inner \<subseteq> set (children d (filter (has_class ''dropdown-menu'' d) (children d active))) \<and>
       (\<forall>i. has_class ''active'' (activate_dom active element False d) i \<longleftrightarrow>
          i < length d \<and> i \<in> set element \<or> has_class ''active'' d i \<and> i \<notin> set active \<and> i \<notin> set inner)"
    "one_word c \<Longrightarrow> c \<notin> {''active'', ''fade''} \<Longrightarrow> has_class c (activate_dom active element False d) i = has_class c d i"
proof -
  let ?d1 = "remove_class ''active'' active d" let ?in = "inner_active ?d1 active"
  have e: "activate_dom active element False d =
      add_class ''active'' [] (remove_class ''fade'' element (add_class ''active'' element (remove_class ''active'' ?in ?d1)))"
    using assms(2) by (simp add: activate_dom_def Let_def)
  have n: "children ?d1 els = children d els" for els by (rule same_tree_nav) simp
  have m: "has_class ''dropdown-menu'' ?d1 = has_class ''dropdown-menu'' d" using assms(1) by (simp add: fun_eq_iff)
  show "dom_ok (activate_dom active element False d)" by (simp add: e assms(1))
  show "same_tree (activate_dom active element False d) d"
    unfolding e by (meson same_tree_ops(1,2) same_tree_trans)
  show "\<exists>inner. set inner \<subseteq> set (children d (filter (has_class ''dropdown-menu'' d) (children d active))) \<and>
       (\<forall>i. has_class ''active'' (activate_dom active element False d) i \<longleftrightarrow>
          i < length d \<and> i \<in> set element \<or> has_class ''active'' d i \<and> i \<notin> set active \<and> i \<notin> set inner)"
  proof (intro exI [of _ ?in] conjI allI)
    show "set ?in \<subseteq> set (children d (filter (has_class ''dropdown-menu'' d) (children d active)))"
      by (auto simp: inner_active_def n m)
    show "has_class ''active'' (activate_dom active element False d) i \<longleftrightarrow>
        i < length d \<and> i \<in> set element \<or> has_class ''active'' d i \<and> i \<notin> set active \<and> i \<notin> set ?in" for i
      using assms(1) has_class_bound [of "''active''" d i] by (auto simp: e)
  qed
  show "has_class c (activate_dom active element False d) i = has_class c d i" if "one_word c" "c \<notin> {''active'', ''fade''}"
    using that assms(1) has_class_bound [of c d i] by (auto simp: e)
qed

lemma climb_none: "(\<And>i. \<not> p i) \<Longrightarrow> climb n p d i = []"
  by (induction n arbitrary: i) (auto split: option.split)

lemma climb_holds: "j \<in> set (climb n p d i) \<Longrightarrow> p j"
  by (induction n arbitrary: i) (auto split: if_splits option.splits)

lemma closest_none: "(\<And>i. \<not> p d i) \<Longrightarrow> closest p d els = []"
  by (simp add: closest_def climb_none del: climb.simps)

lemma closest_holds: "j \<in> set (closest p d els) \<Longrightarrow> p d j"
  by (auto simp: closest_def dest: climb_holds simp del: climb.simps)

lemma kids_parent: "tree_ok d \<Longrightarrow> i \<in> set (kids d c) \<Longrightarrow> parent_of d i = Some c"
  by (auto simp: tree_ok_def kids_def parent_of_def split: if_splits)

lemma children_one: "set (children d [c]) = set (kids d c)"
  by (simp add: children_def)

text \<open>One call of \<open>activate\<close> in a document without list items that are dropdowns.\<close>

lemma activate_one:
  assumes "dom_ok (ui_dom u)" "bs_transition E = None" "\<And>i. \<not> dropdown_item (ui_dom u) i" "e < length (ui_dom u)"
  shows "\<exists>u'. tb_activate E [e] container cb u = Inr u' \<and> dom_ok (ui_dom u') \<and> same_tree (ui_dom u') (ui_dom u) \<and>
    (\<forall>i. \<not> dropdown_item (ui_dom u') i) \<and> has_class ''dropdown-menu'' (ui_dom u') = has_class ''dropdown-menu'' (ui_dom u) \<and>
    (\<exists>inner. set inner \<subseteq> set (children (ui_dom u) (filter (has_class ''dropdown-menu'' (ui_dom u)) (children (ui_dom u)
         (filter (has_class ''active'' (ui_dom u)) (children (ui_dom u) container))))) \<and>
       (\<forall>i. has_class ''active'' (ui_dom u') i \<longleftrightarrow> i = e \<or> has_class ''active'' (ui_dom u) i \<and>
          i \<notin> set (filter (has_class ''active'' (ui_dom u)) (children (ui_dom u) container)) \<and> i \<notin> set inner))"
proof -
  let ?d = "ui_dom u" let ?a = "filter (has_class ''active'' ?d) (children ?d container)"
  let ?d' = "activate_dom ?a [e] False ?d"
  let ?u = "on_dom (remove_class ''in'' ?a) (case cb of Some a \<Rightarrow> log_event [a] ''shown'' (on_dom (activate_dom ?a [e] False) u)
    | None \<Rightarrow> on_dom (activate_dom ?a [e] False) u)"
  have r: "tb_activate E [e] container cb u = Inr ?u"
    using assms(2) by (simp add: tb_activate_def Let_def tb_next_def split: option.split)
  have d: "ui_dom ?u = remove_class ''in'' ?a ?d'" by (simp split: option.split)
  have none: "closest dropdown_item (remove_class ''fade'' [e] (add_class ''active'' [e]
      (remove_class ''active'' (inner_active (remove_class ''active'' ?a ?d) ?a) (remove_class ''active'' ?a ?d)))) [e] = []"
    using assms(1,3) has_class_bound by (intro closest_none) (auto simp: dropdown_item_def)
  note c = activate_classes [OF assms(1) none]
  have tg: "has_tag t ?d' = has_tag t ?d" for t by (simp add: activate_dom_def Let_def fun_eq_iff)
  have w: "one_word ''dropdown''" by simp
  have "\<forall>i. \<not> dropdown_item (ui_dom ?u) i"
    unfolding dropdown_item_def d using assms(3) c(1) c(4) [OF w] by (simp add: tg dropdown_item_def)
  moreover have "has_class ''dropdown-menu'' (ui_dom ?u) = has_class ''dropdown-menu'' ?d"
    unfolding d using c(1) c(4) [of "''dropdown-menu''"] by (simp add: fun_eq_iff)
  moreover have "dom_ok (ui_dom ?u)" unfolding d using c(1) by simp
  moreover have "same_tree (ui_dom ?u) ?d" unfolding d using c(2) by (meson same_tree_ops(2) same_tree_trans)
  moreover have "has_class ''active'' (ui_dom ?u) i = has_class ''active'' ?d' i" for i unfolding d using c(1) by simp
  moreover obtain inner where "set inner \<subseteq> set (children ?d (filter (has_class ''dropdown-menu'' ?d) (children ?d ?a)))"
    "\<forall>i. has_class ''active'' ?d' i \<longleftrightarrow> i < length ?d \<and> i \<in> set [e] \<or> has_class ''active'' ?d i \<and> i \<notin> set ?a \<and> i \<notin> set inner"
    using c(3) by blast
  ultimately show ?thesis unfolding r using assms(4) by (intro exI [of _ ?u]) (auto intro!: exI [of _ inner])
qed

text \<open>When nothing is animated or prevented, showing a tab leaves its list item as the only active one of
  its list, and the pane it names as the only active one of its container.\<close>

theorem tab_shows_one:
  assumes "at_once E" "dom_ok (ui_dom u)" "tree_ok (ui_dom u)" "\<forall>i. \<not> dropdown_item (ui_dom u) i"
    "closest plain_list (ui_dom u) [this] = [ul]" "with_tag ''li'' (ui_dom u) (parents1 (ui_dom u) [this]) = [li]"
    "li \<in> set (kids (ui_dom u) ul)" "\<not> has_class ''active'' (ui_dom u) li"
    "select_opt E (ui_dom u) (target_selector False (ui_dom u) [this]) = [t]" "t \<in> set (kids (ui_dom u) pc)" "pc \<noteq> ul"
  shows "\<exists>u'. tb_show E this u = Inr u' \<and>
    filter (has_class ''active'' (ui_dom u')) (children (ui_dom u') [ul]) = [li] \<and>
    filter (has_class ''active'' (ui_dom u')) (children (ui_dom u') [pc]) = [t]"
proof -
  let ?d = "ui_dom u" let ?u1 = "log_event [this] ''show'' u"
  let ?act = "\<lambda>d c. filter (has_class ''active'' d) (children d [c])"
  have nt: "bs_transition E = None" and nv: "\<not> bs_veto E ''show'' [this]" using assms(1) by (auto simp: at_once_def)
  have lens: "li < length ?d" "t < length ?d" using assms(3,7,10) by (auto simp: tree_ok_def kids_def split: if_splits)
  note par = kids_parent [OF assms(3)]
  have not_menu: "\<not> has_class ''dropdown-menu'' ?d ul"
    using closest_holds [of ul plain_list ?d "[this]"] assms(5) by (simp add: plain_list_def)
  obtain u2 where u2: "tb_activate E [li] [ul] None ?u1 = Inr u2" "dom_ok (ui_dom u2)" "same_tree (ui_dom u2) ?d"
      "\<forall>i. \<not> dropdown_item (ui_dom u2) i" "has_class ''dropdown-menu'' (ui_dom u2) = has_class ''dropdown-menu'' ?d"
    and a2: "\<exists>inner. \<forall>i. has_class ''active'' (ui_dom u2) i \<longleftrightarrow> i = li \<or> has_class ''active'' ?d i \<and> i \<notin> set (?act ?d ul) \<and> i \<notin> set inner"
    using activate_one [of ?u1 E li "[ul]" None] assms(2,4) nt lens by fastforce
  have one_li: "has_class ''active'' (ui_dom u2) y \<longleftrightarrow> y = li" if "y \<in> set (kids ?d ul)" for y
    using a2 that children_one [of ?d ul] by auto
  have len2: "length (ui_dom u2) = length ?d" using u2(3) by (rule same_tree_length)
  have ch: "children (ui_dom u2) els = children ?d els" for els using same_tree_nav(1) [OF u2(3)] .
  have pt: "parents1 (ui_dom u2) [t] = [pc]"
    using same_tree_nav(2) [OF u2(3), of "[t]"] par [OF assms(10)] by (simp add: parents1_def List.map_filter_def)
  obtain u3 inner where u3: "tb_activate E [t] [pc] (Some this) u2 = Inr u3" "same_tree (ui_dom u3) (ui_dom u2)"
    and inner: "set inner \<subseteq> set (children (ui_dom u2) (filter (has_class ''dropdown-menu'' (ui_dom u2)) (children (ui_dom u2) (?act (ui_dom u2) pc))))"
    and a3: "\<forall>i. has_class ''active'' (ui_dom u3) i \<longleftrightarrow> i = t \<or> has_class ''active'' (ui_dom u2) i \<and> i \<notin> set (?act (ui_dom u2) pc) \<and> i \<notin> set inner"
    using activate_one [of u2 E t "[pc]" "Some this"] u2 nt lens(2) unfolding len2 [symmetric] by blast
  have ch3: "children (ui_dom u3) els = children ?d els" for els using same_tree_nav(1) [OF u3(2)] ch by simp
  have "tb_show E this u = Inr u3"
    using assms(5,6,8,9) nv u2(1) u3(1) pt by (simp add: tb_show_def any_class_def Let_def)
  moreover have "filter (has_class ''active'' (ui_dom u3)) (children ?d [ul]) = [li]"
  proof (rule filter_one)
    show "distinct (children ?d [ul])" by (simp add: children_def)
    show "li \<in> set (children ?d [ul])" using assms(7) by (simp add: children_one)
    fix y assume "y \<in> set (children ?d [ul])"
    then have y: "y \<in> set (kids ?d ul)" by (simp add: children_one)
    have "y \<noteq> t" using par [OF y] par [OF assms(10)] assms(11) by auto
    moreover have "y \<notin> set (?act (ui_dom u2) pc)"
      using par [OF y] par [of y pc] assms(11) by (auto simp: ch children_one)
    moreover have "y \<notin> set inner"
    proof
      assume "y \<in> set inner"
      then obtain m where "y \<in> set (kids ?d m)" "has_class ''dropdown-menu'' ?d m"
        using inner unfolding ch u2(5) by (auto simp: children_def)
      with par [OF y] par [of y m] not_menu show False by simp
    qed
    ultimately show "has_class ''active'' (ui_dom u3) y \<longleftrightarrow> y = li" using a3 one_li [OF y] by blast
  qed
  moreover have "filter (has_class ''active'' (ui_dom u3)) (children ?d [pc]) = [t]"
  proof (rule filter_one)
    show "distinct (children ?d [pc])" by (simp add: children_def)
    show "t \<in> set (children ?d [pc])" using assms(10) by (simp add: children_one)
    fix y assume "y \<in> set (children ?d [pc])"
    then have "has_class ''active'' (ui_dom u2) y \<Longrightarrow> y \<in> set (?act (ui_dom u2) pc)" by (simp add: ch)
    then show "has_class ''active'' (ui_dom u3) y \<longleftrightarrow> y = t" using a3 by blast
  qed
  ultimately show ?thesis by (simp add: ch3)
qed

definition demo_tabs :: dom where
  "demo_tabs =
     [(plain_node ''body'' [])\<lparr>nd_kids := [1, 6]\<rparr>,
      (plain_node ''ul'' ''nav nav-tabs'')\<lparr>nd_kids := [2, 3], nd_parent := Some 0\<rparr>,
      (plain_node ''li'' ''active'')\<lparr>nd_kids := [4], nd_parent := Some 1\<rparr>,
      (plain_node ''li'' [])\<lparr>nd_kids := [5], nd_parent := Some 1\<rparr>,
      (plain_node ''a'' [])\<lparr>nd_attrs := [(''href'', ''#a'')], nd_parent := Some 2\<rparr>,
      (plain_node ''a'' [])\<lparr>nd_attrs := [(''href'', ''#b'')], nd_parent := Some 3\<rparr>,
      (plain_node ''div'' ''tab-content'')\<lparr>nd_kids := [7, 8], nd_parent := Some 0\<rparr>,
      (plain_node ''div'' ''tab-pane active'')\<lparr>nd_parent := Some 6\<rparr>,
      (plain_node ''div'' ''tab-pane'')\<lparr>nd_parent := Some 6\<rparr>]"

definition tab_env :: bs_env where
  "tab_env = \<lparr>bs_transition = None, bs_select = \<lambda>d s. if s = ''#a'' then [7] else if s = ''#b'' then [8] else [],
     bs_veto = \<lambda>ev els. False\<rparr>"

theorem tab_shows_one_witness:
  "\<exists>u'. tb_show tab_env 5 (empty_ui demo_tabs) = Inr u' \<and>
    filter (has_class ''active'' (ui_dom u')) (children (ui_dom u') [1]) = [3] \<and>
    filter (has_class ''active'' (ui_dom u')) (children (ui_dom u') [6]) = [8]"
proof -
  have d: "ui_dom (empty_ui demo_tabs) = demo_tabs" by (simp add: empty_ui_def)
  have "at_once tab_env" by (simp add: at_once_def tab_env_def)
  moreover have "dom_ok demo_tabs"
    by (simp add: dom_ok_def demo_tabs_def plain_node_def class_ok_def class_tab_def is_space_def)
  moreover have "tree_ok demo_tabs" by code_simp
  moreover have "list_all (\<lambda>i. \<not> dropdown_item demo_tabs i) [0..<length demo_tabs]" by code_simp
  then have "\<forall>i. \<not> dropdown_item demo_tabs i" by (auto simp: list_all_iff dropdown_item_def has_class_def)
  moreover have "closest plain_list demo_tabs [5] = [1] \<and> with_tag ''li'' demo_tabs (parents1 demo_tabs [5]) = [3] \<and>
      3 \<in> set (kids demo_tabs 1) \<and> \<not> has_class ''active'' demo_tabs 3 \<and>
      select_opt tab_env demo_tabs (target_selector False demo_tabs [5]) = [8] \<and> 8 \<in> set (kids demo_tabs 6)" by code_simp
  ultimately show ?thesis using tab_shows_one [of tab_env "empty_ui demo_tabs" 5 1 3 8 6] by (simp add: d)
qed

end
