(* ===== verification/BsScroll.thy ===== *)
theory BsScroll
  imports BsTab
begin

text \<open>
  What \<open>bootstrap.js\<close> does on scrolling: \<open>ScrollSpy\<close>, which marks the link of the section in
  view, and \<open>Affix\<close>, which pins an element. What the browser knows of places and sizes is an
  argument, in whole pixels.
\<close>

section \<open>ScrollSpy\<close>

text \<open>
  The page: whether the window scrolls, how far, the heights (0 for an element that has none), and
  the place of the element that a fragment names.
\<close>

record view =
  vw_window :: bool
  vw_scrollTop :: int
  vw_scrollHeight :: int
  vw_bodyHeight :: int
  vw_height :: int
  vw_top :: "string \<Rightarrow> int option"

record spy =
  sp_dom :: dom
  sp_log :: "(nat list \<times> string) list"
  sp_offset :: int
  sp_selector :: string
  sp_offsets :: "int list"
  sp_targets :: "string list"
  sp_active :: "string option"

definition fragment :: "string \<Rightarrow> bool" where
  "fragment s \<longleftrightarrow> (case s of c # w # t \<Rightarrow> c = CHR ''#'' \<and> is_word_char w | _ \<Rightarrow> False)"

definition link_href :: "dom \<Rightarrow> nat \<Rightarrow> string option" where
  "link_href d i = (case nonempty (get_attr ''data-target'' d [i]) of Some s \<Rightarrow> Some s | None \<Rightarrow> get_attr ''href'' d [i])"

text \<open>\<open>refresh\<close>: the sections the links name, by their places.\<close>

definition section_of :: "view \<Rightarrow> dom \<Rightarrow> nat \<Rightarrow> (int \<times> string) option" where
  "section_of V d i =
     (case link_href d i of
        None \<Rightarrow> None
      | Some href \<Rightarrow>
          if fragment href
          then map_option (\<lambda>top. (top + (if vw_window V then 0 else vw_scrollTop V), href)) (vw_top V href)
          else None)"

definition sp_refresh :: "bs_env \<Rightarrow> view \<Rightarrow> spy \<Rightarrow> spy" where
  "sp_refresh E V s =
     (let found = sort_key fst (List.map_filter (section_of V (sp_dom s)) (bs_select E (sp_dom s) (sp_selector s)))
      in s\<lparr>sp_offsets := map fst found, sp_targets := map snd found\<rparr>)"

text \<open>\<open>activate\<close>; a target that is not given is written \<open>undefined\<close> in the selector.\<close>

definition sp_activate :: "bs_env \<Rightarrow> string option \<Rightarrow> spy \<Rightarrow> spy" where
  "sp_activate E target s =
     (let d = sp_dom s; links = bs_select E d (sp_selector s);
          name = (case target of Some t \<Rightarrow> t | None \<Rightarrow> ''undefined'');
          d1 = remove_class ''active'' (filter (has_class ''active'' d) (parents1 d links)) d;
          active = with_tag ''li'' d1 (parents1 d1 (filter (\<lambda>i. get_attr ''data-target'' d1 [i] = Some name \<or>
                     get_attr ''href'' d1 [i] = Some name) (bs_select E d1 (sp_selector s))));
          d2 = add_class ''active'' active d1;
          inMenu = filter (has_class ''dropdown-menu'' d2) (parents1 d2 active) \<noteq> [];
          active2 = (if inMenu then closest dropdown_item d2 active else active);
          d3 = (if inMenu then add_class ''active'' active2 d2 else d2)
      in s\<lparr>sp_active := target, sp_dom := d3, sp_log := sp_log s @ [(active2, ''activate'')]\<rparr>)"

text \<open>
  \<open>process\<close>. The loop goes down the sections and compares with the target that was active at its
  start.
\<close>

definition in_section :: "int \<Rightarrow> int list \<Rightarrow> nat \<Rightarrow> bool" where
  "in_section scrollTop offsets i \<longleftrightarrow> scrollTop \<ge> offsets ! i \<and>
     (\<not> Suc i < length offsets \<or> offsets ! Suc i = 0 \<or> scrollTop \<le> offsets ! Suc i)"

definition sp_loop :: "bs_env \<Rightarrow> int \<Rightarrow> string option \<Rightarrow> spy \<Rightarrow> spy" where
  "sp_loop E scrollTop activeTarget s =
     fold (\<lambda>i s. if activeTarget \<noteq> Some (sp_targets s ! i) \<and> in_section scrollTop (sp_offsets s) i
                 then sp_activate E (Some (sp_targets s ! i)) s else s)
       (rev [0..<length (sp_offsets s)]) s"

definition last_target :: "spy \<Rightarrow> string option" where
  "last_target s = (if sp_targets s = [] then None else Some (last (sp_targets s)))"

definition sp_process :: "bs_env \<Rightarrow> view \<Rightarrow> spy \<Rightarrow> spy" where
  "sp_process E V s =
     (let scrollTop = vw_scrollTop V + sp_offset s;
          scrollHeight = (if vw_window V \<or> vw_scrollHeight V = 0 then vw_bodyHeight V else vw_scrollHeight V);
          maxScroll = scrollHeight - vw_height V
      in if scrollTop \<ge> maxScroll
         then (if sp_active s \<noteq> last_target s then sp_activate E (last_target s) s else s)
         else sp_loop E scrollTop (sp_active s) s)"

definition new_ScrollSpy :: "bs_env \<Rightarrow> view \<Rightarrow> nat \<Rightarrow> int \<Rightarrow> string option \<Rightarrow> dom \<Rightarrow> spy" where
  "new_ScrollSpy E V el off target d =
     (let t = (case nonempty target of Some t \<Rightarrow> t
               | None \<Rightarrow> (case get_attr ''href'' d [el] of Some h \<Rightarrow> strip_href True h | None \<Rightarrow> []))
      in sp_process E V (sp_refresh E V
           \<lparr>sp_dom = d, sp_log = [], sp_offset = off, sp_selector = t @ '' .nav li > a'', sp_offsets = [],
            sp_targets = [], sp_active = None\<rparr>))"

definition fn_scrollspy :: "bs_env \<Rightarrow> view \<Rightarrow> string option \<Rightarrow> spy \<Rightarrow> js_error + spy" where
  "fn_scrollspy E V opt s =
     (case opt of
        None \<Rightarrow> Inr s
      | Some m \<Rightarrow> if m = ''refresh'' then Inr (sp_refresh E V s)
                  else if m = ''process'' then Inr (sp_process E V s)
                  else if m = ''activate'' then Inr (sp_activate E None s)
                  else Inl TypeError)"

subsection \<open>The section in view\<close>

lemma activate_keeps [simp]: "sp_offsets (sp_activate E t s) = sp_offsets s" "sp_targets (sp_activate E t s) = sp_targets s"
  "sp_active (sp_activate E t s) = t" "sp_selector (sp_activate E t s) = sp_selector s"
  by (simp_all add: sp_activate_def Let_def)

lemma refresh_sorted: "sorted (sp_offsets (sp_refresh E V s))" "length (sp_offsets (sp_refresh E V s)) = length (sp_targets (sp_refresh E V s))"
  by (simp_all add: sp_refresh_def Let_def)

text \<open>The loop activates the sections that are in view, the last of them being the first in order.\<close>

lemma loop_active:
  "sp_active (fold (\<lambda>i s. if a \<noteq> Some (sp_targets s ! i) \<and> in_section y (sp_offsets s) i
       then sp_activate E (Some (sp_targets s ! i)) s else s) is s) =
   (case filter (\<lambda>i. a \<noteq> Some (sp_targets s ! i) \<and> in_section y (sp_offsets s) i) is of
      [] \<Rightarrow> sp_active s | js \<Rightarrow> Some (sp_targets s ! last js))"
proof (induction "is" arbitrary: s)
  case (Cons i "is")
  then show ?case by (auto split: list.splits)
qed simp

lemma in_section_unique:
  assumes "sorted offsets" "0 < offsets ! 0" "i < length offsets" "offsets ! i < y"
    "Suc i < length offsets \<Longrightarrow> y < offsets ! Suc i" "j < length offsets"
  shows "in_section y offsets j \<longleftrightarrow> j = i"
proof -
  have m: "offsets ! a \<le> offsets ! b" if "a \<le> b" "b < length offsets" for a b
    using assms(1) that by (simp add: sorted_iff_nth_mono)
  consider "j = i" | "j < i" | "i < j" by linarith
  then show ?thesis
  proof cases
    case 1
    then show ?thesis using assms(4,5) by (auto simp: in_section_def)
  next
    case 2
    then have "offsets ! Suc j \<le> offsets ! i" "offsets ! 0 \<le> offsets ! Suc j" using m assms(3) by auto
    with 2 assms show ?thesis by (auto simp: in_section_def)
  next
    case 3
    then have "offsets ! Suc i \<le> offsets ! j" using m assms(6) by auto
    with 3 assms show ?thesis by (auto simp: in_section_def)
  qed
qed

text \<open>While the page is not at its end and the view is strictly inside a section, that section's target is the
  active one after \<open>process\<close>.\<close>

theorem section_in_view:
  assumes "sorted (sp_offsets s)" "0 < sp_offsets s ! 0" "length (sp_targets s) = length (sp_offsets s)" "i < length (sp_offsets s)"
    "sp_offsets s ! i < vw_scrollTop V + sp_offset s"
    "Suc i < length (sp_offsets s) \<Longrightarrow> vw_scrollTop V + sp_offset s < sp_offsets s ! Suc i"
    "vw_window V" "vw_scrollTop V + sp_offset s < vw_bodyHeight V - vw_height V"
  shows "sp_active (sp_process E V s) = Some (sp_targets s ! i)"
proof -
  let ?top = "vw_scrollTop V + sp_offset s" let ?is = "rev [0..<length (sp_offsets s)]"
  let ?P = "\<lambda>j. sp_active s \<noteq> Some (sp_targets s ! j) \<and> in_section ?top (sp_offsets s) j"
  have p: "sp_process E V s = sp_loop E ?top (sp_active s) s" using assms(7,8) by (simp add: sp_process_def Let_def)
  have u: "in_section ?top (sp_offsets s) j \<longleftrightarrow> j = i" if "j < length (sp_offsets s)" for j
    using in_section_unique [OF assms(1,2,4,5,6) that] .
  have "filter ?P ?is = (if sp_active s = Some (sp_targets s ! i) then [] else [i])"
  proof (cases "sp_active s = Some (sp_targets s ! i)")
    case True
    then show ?thesis using u by (auto simp: filter_empty_conv)
  next
    case False
    then have "filter ?P ?is = [i]" using u assms(4) by (intro filter_one) auto
    with False show ?thesis by simp
  qed
  then show ?thesis unfolding p sp_loop_def loop_active by simp
qed

definition demo_spy :: spy where
  "demo_spy = \<lparr>sp_dom = [], sp_log = [], sp_offset = 10, sp_selector = '' .nav li > a'', sp_offsets = [100, 200, 300],
     sp_targets = [''#a'', ''#b'', ''#c''], sp_active = Some ''#a''\<rparr>"

definition demo_view :: view where
  "demo_view = \<lparr>vw_window = True, vw_scrollTop = 240, vw_scrollHeight = 0, vw_bodyHeight = 1000, vw_height = 400,
     vw_top = \<lambda>s. None\<rparr>"

theorem section_in_view_witness: "sp_active (sp_process demo_page_env demo_view demo_spy) = Some ''#b''"
  using section_in_view [of demo_spy 1 demo_view demo_page_env] by (simp add: demo_spy_def demo_view_def)

text \<open>Exactly at the start of a section, the loop activates it and then the one before.\<close>

lemma boundary_goes_back:
  "sp_active (sp_process demo_page_env (demo_view\<lparr>vw_scrollTop := 190\<rparr>) (demo_spy\<lparr>sp_active := None\<rparr>)) = Some ''#a''"
  by code_simp

end
