(* ===== verification/BsAffix.thy ===== *)
theory BsAffix
  imports BsBase
begin

text \<open>
  \<open>Affix\<close> of \<open>bootstrap.js\<close>: an element pinned between two distances from the ends of the
  document. The option \<open>offset\<close> is a number or an object; its members may be functions, whose
  results are part of what the browser says when the position is checked.
\<close>

datatype af_bound = Fixed int | Computed

datatype af_offset = AfNumber int | AfObject "af_bound option" "af_bound option"

record af_view =
  av_visible :: bool
  av_docHeight :: int
  av_scrollTop :: int
  av_top :: int
  av_height :: int
  av_computed_top :: int
  av_computed_bottom :: int

datatype af_place = Nowhere | AtTop | AtBottom

record affix =
  af_dom :: dom
  af_element :: nat
  af_offset :: af_offset
  af_affixed :: "af_place option"
  af_unpin :: "int option"
  af_timers :: nat

definition offset_top :: "af_view \<Rightarrow> af_offset \<Rightarrow> int option" where
  "offset_top V off = (case off of AfNumber n \<Rightarrow> Some n
     | AfObject t b \<Rightarrow> map_option (\<lambda>x. case x of Fixed n \<Rightarrow> n | Computed \<Rightarrow> av_computed_top V) t)"

definition offset_bottom :: "af_view \<Rightarrow> af_offset \<Rightarrow> int option" where
  "offset_bottom V off = (case off of AfNumber n \<Rightarrow> Some n
     | AfObject t b \<Rightarrow> map_option (\<lambda>x. case x of Fixed n \<Rightarrow> n | Computed \<Rightarrow> av_computed_bottom V) b)"

definition af_place_of :: "af_view \<Rightarrow> af_offset \<Rightarrow> int option \<Rightarrow> af_place" where
  "af_place_of V off unpin =
     (if (case unpin of Some u \<Rightarrow> av_scrollTop V + u \<le> av_top V | None \<Rightarrow> False) then Nowhere
      else if (case offset_bottom V off of Some b \<Rightarrow> av_top V + av_height V \<ge> av_docHeight V - b | None \<Rightarrow> False) then AtBottom
      else if (case offset_top V off of Some t \<Rightarrow> av_scrollTop V \<le> t | None \<Rightarrow> False) then AtTop
      else Nowhere)"

definition affix_class :: "af_place \<Rightarrow> string" where
  "affix_class p = (case p of Nowhere \<Rightarrow> ''affix'' | AtTop \<Rightarrow> ''affix-top'' | AtBottom \<Rightarrow> ''affix-bottom'')"

definition checkPosition :: "af_view \<Rightarrow> affix \<Rightarrow> affix" where
  "checkPosition V a =
     (if \<not> av_visible V then a
      else
        let p = af_place_of V (af_offset a) (af_unpin a)
        in if af_affixed a = Some p then a
           else a\<lparr>af_affixed := Some p,
                  af_unpin := (if p = AtBottom then Some (av_top V - av_scrollTop V) else None),
                  af_dom := add_class (affix_class p) [af_element a]
                              (remove_class ''affix affix-top affix-bottom'' [af_element a] (af_dom a))\<rparr>)"

text \<open>The constructor, and the click that checks again after a millisecond.\<close>

definition new_Affix :: "af_view \<Rightarrow> nat \<Rightarrow> af_offset \<Rightarrow> dom \<Rightarrow> affix" where
  "new_Affix V el off d = checkPosition V
     \<lparr>af_dom = d, af_element = el, af_offset = off, af_affixed = None, af_unpin = None, af_timers = 0\<rparr>"

definition af_click :: "affix \<Rightarrow> affix" where
  "af_click a = a\<lparr>af_timers := Suc (af_timers a)\<rparr>"

definition af_timer :: "af_view \<Rightarrow> affix \<Rightarrow> affix" where
  "af_timer V a = (case af_timers a of 0 \<Rightarrow> a | Suc n \<Rightarrow> checkPosition V (a\<lparr>af_timers := n\<rparr>))"

text \<open>The offset from the data attributes: \<open>offsetBottom\<close> and \<open>offsetTop\<close> are set into it when they
  are not 0; setting a member of a number does nothing.\<close>

definition affix_data :: "af_offset option \<Rightarrow> int option \<Rightarrow> int option \<Rightarrow> af_offset" where
  "affix_data off bottom tp =
     (case (case off of Some (AfNumber n) \<Rightarrow> if n = 0 then AfObject None None else AfNumber n
            | Some x \<Rightarrow> x | None \<Rightarrow> AfObject None None) of
        AfNumber n \<Rightarrow> AfNumber n
      | AfObject t b \<Rightarrow>
          AfObject (case tp of Some n \<Rightarrow> if n \<noteq> 0 then Some (Fixed n) else t | None \<Rightarrow> t)
                   (case bottom of Some n \<Rightarrow> if n \<noteq> 0 then Some (Fixed n) else b | None \<Rightarrow> b))"

section \<open>The class says where the element is\<close>

lemma affix_names: "class_names ''affix affix-top affix-bottom'' = {''affix'', ''affix-top'', ''affix-bottom''}"
proof -
  have "set (js_split spaceRe ''affix affix-top affix-bottom'') = {''affix'', ''affix-top'', ''affix-bottom''}" by code_simp
  then show ?thesis by (simp add: class_names_def)
qed

lemma affix_words: "one_word (affix_class p)" "class_names (affix_class p) = {affix_class p}"
proof -
  show "one_word (affix_class p)" by (cases p) (simp_all add: affix_class_def one_word_def is_space_def)
  then show "class_names (affix_class p) = {affix_class p}" by (rule class_names_word)
qed

lemma affix_class_name: "affix_class p \<in> {''affix'', ''affix-top'', ''affix-bottom''}"
  by (cases p) (simp_all add: affix_class_def)

lemma affix_class_inj: "affix_class p = affix_class q \<longleftrightarrow> p = q"
  by (cases p; cases q) (simp_all add: affix_class_def)

definition affix_ok :: "affix \<Rightarrow> bool" where
  "affix_ok a \<longleftrightarrow> dom_ok (af_dom a) \<and> af_element a < length (af_dom a) \<and>
     (\<forall>p. af_affixed a = Some p \<longrightarrow>
        (\<forall>q. has_class (affix_class q) (af_dom a) (af_element a) \<longleftrightarrow> q = p)) \<and>
     (af_unpin a \<noteq> None \<longleftrightarrow> af_affixed a = Some AtBottom)"

lemma place_class:
  assumes "dom_ok d" "el < length d"
  shows "has_class (affix_class q) (add_class (affix_class p) [el] (remove_class ''affix affix-top affix-bottom'' [el] d)) el \<longleftrightarrow> q = p"
proof -
  let ?r = "remove_class ''affix affix-top affix-bottom'' [el] d"
  have "nd_class (?r ! el) = removeClass ''affix affix-top affix-bottom'' (nd_class (d ! el))"
    using assms(2) by (simp add: remove_class_def each_def)
  then have "\<not> has_class (affix_class q) ?r el"
    using removeClass_set(1) [OF dom_ok_nth [OF assms], of "''affix affix-top affix-bottom''"] affix_class_name [of q]
    unfolding affix_names has_class_def hasClass_iff [OF affix_words(1)] by (metis DiffE)
  with assms show ?thesis by (simp add: affix_words affix_class_inj)
qed

text \<open>However often the position is checked and whatever the browser says, the element has exactly one of
  the three classes once it was placed, the one of its place, and is unpinned exactly at the bottom.\<close>

theorem affix_one_class:
  assumes "affix_ok a"
  shows "affix_ok (fold checkPosition vs a)"
  using assms
proof (induction vs arbitrary: a)
  case (Cons v vs)
  have "affix_ok (checkPosition v a)"
  proof (cases "av_visible v \<and> af_affixed a \<noteq> Some (af_place_of v (af_offset a) (af_unpin a))")
    case True
    then show ?thesis using Cons.prems place_class
      by (auto simp: checkPosition_def Let_def affix_ok_def)
  qed (use Cons.prems in \<open>auto simp: checkPosition_def Let_def\<close>)
  with Cons.IH show ?case by simp
qed simp

definition demo_affix :: affix where
  "demo_affix = \<lparr>af_dom = [plain_node ''div'' ''nav''], af_element = 0, af_offset = AfObject (Some (Fixed 50)) None,
     af_affixed = None, af_unpin = None, af_timers = 0\<rparr>"

definition demo_af_view :: af_view where
  "demo_af_view = \<lparr>av_visible = True, av_docHeight = 900, av_scrollTop = 60, av_top = 60, av_height = 30,
     av_computed_top = 0, av_computed_bottom = 0\<rparr>"

theorem affix_one_class_witness: "affix_ok (fold checkPosition [demo_af_view\<lparr>av_scrollTop := 0\<rparr>, demo_af_view] demo_affix)"
proof -
  have "affix_ok demo_affix"
    by (simp add: affix_ok_def demo_affix_def dom_ok_def plain_node_def class_ok_def class_tab_def is_space_def)
  then show ?thesis by (rule affix_one_class)
qed

end
