(* ===== verification/BsTypeahead.thy ===== *)
theory BsTypeahead
  imports BsAlertButton BsCarousel BsDropdown EnvPage "HOL-Library.Multiset"
begin

text \<open>
  The typeahead of \<open>bootstrap.js\<close>, with its own matcher, sorter, highlighter and updater: an
  input with a menu of suggestions. Letters are those of Latin-1 where case is ignored. A source is a
  list or a function, which may answer at once or later by calling \<open>process\<close>.
\<close>

section \<open>State\<close>

datatype ty_source = Items "string list" | Query "string \<Rightarrow> string list option"

record typeahead =
  ty_dom :: dom
  ty_element :: nat
  ty_menu :: nat
  ty_value :: string
  ty_query :: string
  ty_source :: ty_source
  ty_items :: nat
  ty_minLength :: nat
  ty_shown :: bool
  ty_focused :: bool
  ty_mousedover :: bool
  ty_suppress :: bool
  ty_changes :: nat
  ty_has_focus :: bool

definition ty_on :: "(dom \<Rightarrow> dom) \<Rightarrow> typeahead \<Rightarrow> typeahead" where
  "ty_on f t = t\<lparr>ty_dom := f (ty_dom t)\<rparr>"

text \<open>The constructor makes the menu, outside of the document.\<close>

definition new_Typeahead :: "nat \<Rightarrow> ty_source \<Rightarrow> nat \<Rightarrow> nat \<Rightarrow> dom \<Rightarrow> typeahead" where
  "new_Typeahead el source items minLength d =
     \<lparr>ty_dom = d @ [plain_node ''ul'' ''typeahead dropdown-menu''], ty_element = el, ty_menu = length d, ty_value = [],
      ty_query = [], ty_source = source, ty_items = items, ty_minLength = minLength, ty_shown = False,
      ty_focused = False, ty_mousedover = False, ty_suppress = False, ty_changes = 0, ty_has_focus = False\<rparr>"

section \<open>Matching, sorting, highlighting\<close>

definition lower_case :: "string \<Rightarrow> string" where
  "lower_case s = map to_lower s"

definition ty_matcher :: "string \<Rightarrow> string \<Rightarrow> bool" where
  "ty_matcher query item \<longleftrightarrow> sublist (lower_case query) (lower_case item)"

text \<open>\<open>while (item = items.shift())\<close>: the loop ends at the first empty item.\<close>

fun sorter_loop :: "string \<Rightarrow> string list \<Rightarrow> string list \<Rightarrow> string list \<Rightarrow> string list \<Rightarrow> string list" where
  "sorter_loop query [] begins sens insens = begins @ sens @ insens"
| "sorter_loop query (item # items) begins sens insens =
     (if item = [] then begins @ sens @ insens
      else if prefix (lower_case query) (lower_case item) then sorter_loop query items (begins @ [item]) sens insens
      else if sublist query item then sorter_loop query items begins (sens @ [item]) insens
      else sorter_loop query items begins sens (insens @ [item]))"

definition ty_sorter :: "string \<Rightarrow> string list \<Rightarrow> string list" where
  "ty_sorter query items = sorter_loop query items [] [] []"

text \<open>
  The highlighter escapes the query, so that the expression stands for the query itself
  (\<open>escapeRe\<close> is the same replacement), and marks its occurrences from left to right.
\<close>

definition starts_with :: "string \<Rightarrow> string \<Rightarrow> bool" where
  "starts_with query s \<longleftrightarrow> prefix (lower_case query) (lower_case s)"

function highlight :: "string \<Rightarrow> string \<Rightarrow> string" where
  "highlight query [] = (if query = [] then ''<strong></strong>'' else [])"
| "highlight query (c # s) =
     (if query = [] then ''<strong></strong>'' @ [c] @ highlight query s
      else if starts_with query (c # s)
      then ''<strong>'' @ take (length query) (c # s) @ ''</strong>'' @ highlight query (drop (length query) (c # s))
      else c # highlight query s)"
  by pat_completeness auto
termination
  by (relation "measure (\<lambda>(q, s). length s)") (auto simp: Suc_le_eq)

section \<open>The menu\<close>

definition ty_hide :: "typeahead \<Rightarrow> typeahead" where
  "ty_hide t = (ty_on (hide_els [ty_menu t]) t)\<lparr>ty_shown := False\<rparr>"

definition ty_show :: "(dom \<Rightarrow> nat \<Rightarrow> string \<times> string) \<Rightarrow> typeahead \<Rightarrow> typeahead" where
  "ty_show pos t =
     (case pos (ty_dom t) (ty_element t) of (y, x) \<Rightarrow>
        (ty_on (\<lambda>d. show_els [ty_menu t] (set_style ''left'' x [ty_menu t] (set_style ''top'' y [ty_menu t]
           (insert_after (ty_element t) (ty_menu t) d)))) t)\<lparr>ty_shown := True\<rparr>)"

text \<open>One suggestion: a list item with its value and a link with the highlighted text.\<close>

definition item_nodes :: "string \<Rightarrow> nat \<Rightarrow> nat \<Rightarrow> bool \<Rightarrow> string \<Rightarrow> dom" where
  "item_nodes query menu i active item =
     [(plain_node ''li'' (if active then ''active'' else []))\<lparr>nd_attrs := [(''data-value'', item)], nd_kids := [Suc i],
        nd_parent := Some menu\<rparr>,
      (plain_node ''a'' [])\<lparr>nd_attrs := [(''href'', ''#'')], nd_html := highlight query item, nd_parent := Some i\<rparr>]"

fun add_suggestions :: "string \<Rightarrow> nat \<Rightarrow> bool \<Rightarrow> string list \<Rightarrow> dom \<Rightarrow> dom" where
  "add_suggestions query menu first [] d = d"
| "add_suggestions query menu first (item # items) d =
     add_suggestions query menu False items
       (upd_node (\<lambda>n. n\<lparr>nd_kids := nd_kids n @ [length d]\<rparr>) menu (d @ item_nodes query menu (length d) first item))"

definition ty_render :: "string list \<Rightarrow> typeahead \<Rightarrow> typeahead" where
  "ty_render items t =
     ty_on (\<lambda>d. add_suggestions (ty_query t) (ty_menu t) True items (detach (kids d (ty_menu t)) d)) t"

definition ty_process :: "(dom \<Rightarrow> nat \<Rightarrow> string \<times> string) \<Rightarrow> string list \<Rightarrow> typeahead \<Rightarrow> typeahead" where
  "ty_process pos items t =
     (let found = ty_sorter (ty_query t) (filter (ty_matcher (ty_query t)) items)
      in if found = [] then (if ty_shown t then ty_hide t else t)
         else ty_show pos (ty_render (take (ty_items t) found) t))"

definition ty_lookup :: "(dom \<Rightarrow> nat \<Rightarrow> string \<times> string) \<Rightarrow> typeahead \<Rightarrow> typeahead" where
  "ty_lookup pos t0 =
     (let t = t0\<lparr>ty_query := ty_value t0\<rparr>
      in if ty_query t = [] \<or> length (ty_query t) < ty_minLength t then (if ty_shown t then ty_hide t else t)
         else case (case ty_source t of Items is \<Rightarrow> Some is | Query f \<Rightarrow> f (ty_query t)) of
                Some items \<Rightarrow> ty_process pos items t
              | None \<Rightarrow> t)"

definition menu_active :: "typeahead \<Rightarrow> nat list" where
  "menu_active t = find_els (has_class ''active'') (ty_dom t) [ty_menu t]"

definition menu_items :: "typeahead \<Rightarrow> nat list" where
  "menu_items t = find_els (has_tag ''li'') (ty_dom t) [ty_menu t]"

text \<open>\<open>select\<close>; without an active item the value given is undefined, and the input is emptied.\<close>

definition ty_select :: "typeahead \<Rightarrow> typeahead" where
  "ty_select t =
     ty_hide (t\<lparr>ty_value := (case get_attr ''data-value'' (ty_dom t) (menu_active t) of Some v \<Rightarrow> v | None \<Rightarrow> []),
                ty_changes := Suc (ty_changes t)\<rparr>)"

definition ty_next :: "typeahead \<Rightarrow> typeahead" where
  "ty_next t =
     (let active = menu_active t; t1 = ty_on (remove_class ''active'' active) t; nxt = next_of (ty_dom t1) active
      in ty_on (add_class ''active'' (if nxt = [] then take 1 (menu_items t1) else nxt)) t1)"

definition ty_prev :: "typeahead \<Rightarrow> typeahead" where
  "ty_prev t =
     (let active = menu_active t; t1 = ty_on (remove_class ''active'' active) t; prv = prev_of (ty_dom t1) active;
          ls = menu_items t1
      in ty_on (add_class ''active'' (if prv = [] then (if ls = [] then [] else [last ls]) else prv)) t1)"

section \<open>Keys and the mouse\<close>

text \<open>The flags: whether the event was stopped, and whether its default was prevented.\<close>

definition ty_move :: "nat \<Rightarrow> typeahead \<Rightarrow> (bool \<times> bool) \<times> typeahead" where
  "ty_move keyCode t =
     (if \<not> ty_shown t then ((False, False), t)
      else if keyCode \<in> {9, 13, 27} then ((True, True), t)
      else if keyCode = 38 then ((True, True), ty_prev t)
      else if keyCode = 40 then ((True, True), ty_next t)
      else ((True, False), t))"

definition ty_keydown :: "nat \<Rightarrow> typeahead \<Rightarrow> (bool \<times> bool) \<times> typeahead" where
  "ty_keydown keyCode t = ty_move keyCode (t\<lparr>ty_suppress := (keyCode \<in> {40, 38, 9, 13, 27})\<rparr>)"

definition ty_keypress :: "nat \<Rightarrow> typeahead \<Rightarrow> (bool \<times> bool) \<times> typeahead" where
  "ty_keypress keyCode t = (if ty_suppress t then ((False, False), t) else ty_move keyCode t)"

definition ty_keyup :: "(dom \<Rightarrow> nat \<Rightarrow> string \<times> string) \<Rightarrow> nat \<Rightarrow> typeahead \<Rightarrow> (bool \<times> bool) \<times> typeahead" where
  "ty_keyup pos keyCode t =
     (if keyCode \<in> {40, 38, 16, 17, 18} then ((True, True), t)
      else if keyCode \<in> {9, 13} then (if ty_shown t then ((True, True), ty_select t) else ((False, False), t))
      else if keyCode = 27 then (if ty_shown t then ((True, True), ty_hide t) else ((False, False), t))
      else ((True, True), ty_lookup pos t))"

definition ty_focus :: "typeahead \<Rightarrow> typeahead" where
  "ty_focus t = t\<lparr>ty_focused := True\<rparr>"

definition ty_blur :: "typeahead \<Rightarrow> typeahead" where
  "ty_blur t = (let t1 = t\<lparr>ty_focused := False\<rparr> in if \<not> ty_mousedover t1 \<and> ty_shown t1 then ty_hide t1 else t1)"

definition ty_click :: "typeahead \<Rightarrow> typeahead" where
  "ty_click t = ty_focus ((ty_select t)\<lparr>ty_has_focus := True\<rparr>)"

definition ty_mouseenter :: "nat \<Rightarrow> typeahead \<Rightarrow> typeahead" where
  "ty_mouseenter li t =
     (let t1 = t\<lparr>ty_mousedover := True\<rparr>
      in ty_on (\<lambda>d. add_class ''active'' [li] (remove_class ''active'' (menu_active t1) d)) t1)"

definition ty_mouseleave :: "typeahead \<Rightarrow> typeahead" where
  "ty_mouseleave t = (let t1 = t\<lparr>ty_mousedover := False\<rparr> in if \<not> ty_focused t1 \<and> ty_shown t1 then ty_hide t1 else t1)"

section \<open>The sorter loses nothing\<close>

lemma sorter_loop_groups:
  assumes "[] \<notin> set items"
  shows "sorter_loop query items b s i =
    (b @ filter (\<lambda>x. starts_with query x) items) @
    (s @ filter (\<lambda>x. \<not> starts_with query x \<and> sublist query x) items) @
    (i @ filter (\<lambda>x. \<not> starts_with query x \<and> \<not> sublist query x) items)"
  using assms by (induction query items b s i rule: sorter_loop.induct) (auto simp: starts_with_def)

text \<open>The sorter returns the suggestions it was given, none lost and none twice: first those that begin with
  the query in any case, then those that contain it as it is written, then the rest, each group in
  the order given. The suggestions are not empty, which the matcher sees to.\<close>

theorem sorter_groups:
  assumes "query \<noteq> []"
  shows "ty_sorter query (filter (ty_matcher query) items) =
      filter (\<lambda>x. starts_with query x) (filter (ty_matcher query) items) @
      filter (\<lambda>x. \<not> starts_with query x \<and> sublist query x) (filter (ty_matcher query) items) @
      filter (\<lambda>x. \<not> starts_with query x \<and> \<not> sublist query x) (filter (ty_matcher query) items) \<and>
    mset (ty_sorter query (filter (ty_matcher query) items)) = mset (filter (ty_matcher query) items)"
proof -
  let ?xs = "filter (ty_matcher query) items"
  have "[] \<notin> set ?xs" using assms by (auto simp: ty_matcher_def lower_case_def)
  then have s: "ty_sorter query ?xs = filter (\<lambda>x. starts_with query x) ?xs @
      filter (\<lambda>x. \<not> starts_with query x \<and> sublist query x) ?xs @ filter (\<lambda>x. \<not> starts_with query x \<and> \<not> sublist query x) ?xs"
    by (simp add: ty_sorter_def sorter_loop_groups)
  have "mset (filter P xs @ filter (\<lambda>x. \<not> P x \<and> Q x) xs @ filter (\<lambda>x. \<not> P x \<and> \<not> Q x) xs) = mset xs" for P Q and xs :: "string list"
    by (induction xs) auto
  with s show ?thesis by metis
qed

theorem sorter_groups_witness:
  "ty_sorter ''an'' (filter (ty_matcher ''an'') [''Banana'', ''pear'', ''Anna'', ''MAN'']) = [''Anna'', ''Banana'', ''MAN'']"
proof -
  have "ty_sorter ''an'' (filter (ty_matcher ''an'') [''Banana'', ''pear'', ''Anna'', ''MAN'']) =
      filter (\<lambda>x. starts_with ''an'' x) (filter (ty_matcher ''an'') [''Banana'', ''pear'', ''Anna'', ''MAN'']) @
      filter (\<lambda>x. \<not> starts_with ''an'' x \<and> sublist ''an'' x) (filter (ty_matcher ''an'') [''Banana'', ''pear'', ''Anna'', ''MAN'']) @
      filter (\<lambda>x. \<not> starts_with ''an'' x \<and> \<not> sublist ''an'' x) (filter (ty_matcher ''an'') [''Banana'', ''pear'', ''Anna'', ''MAN''])"
    using sorter_groups [of "''an''" "[''Banana'', ''pear'', ''Anna'', ''MAN'']"] by blast
  also have "\<dots> = [''Anna'', ''Banana'', ''MAN'']" by code_simp
  finally show ?thesis .
qed

text \<open>An empty item given to the sorter ends the list.\<close>

lemma sorter_stops: "ty_sorter q (xs @ [] # ys) = ty_sorter q (xs @ [[]])"
proof -
  have "sorter_loop q (xs @ [] # ys) b s i = sorter_loop q (xs @ [[]]) b s i" for b s i
    by (induction q xs b s i rule: sorter_loop.induct) auto
  then show ?thesis by (simp add: ty_sorter_def)
qed

section \<open>Highlighting adds only marks\<close>

text \<open>What a reader sees of a highlighted suggestion without markup is the suggestion.\<close>

theorem highlight_visible:
  assumes "query \<noteq> []" "CHR ''<'' \<notin> set item"
  shows "visible None (highlight query item) = item"
  using assms
proof (induction query item rule: highlight.induct)
  case (2 query c s)
  show ?case
  proof (cases "starts_with query (c # s)")
    case True
    let ?w = "take (length query) (c # s)" let ?r = "drop (length query) (c # s)"
    have sub: "CHR ''<'' \<notin> set ?w" "CHR ''<'' \<notin> set ?r" using 2(5) by (meson in_set_takeD, meson in_set_dropD)
    have "visible None (highlight query ?r) = ?r" using 2(2) [OF 2(4) True 2(4) sub(2)] .
    moreover have "visible None (''<strong>'' @ ?w @ ''</strong>'' @ x) = ?w @ visible None x" for x
      using visible_text [OF sub(1)] by simp
    ultimately show ?thesis using 2(4) True by simp
  next
    case False
    then show ?thesis using 2 by auto
  qed
qed simp

theorem highlight_visible_witness: "visible None (highlight ''an'' ''Banana'') = ''Banana''"
  by (rule highlight_visible) simp_all

section \<open>Moving through the suggestions\<close>

lemma after_in_nth: "distinct ls \<Longrightarrow> i < length ls \<Longrightarrow> after_in ls (ls ! i) = (if Suc i < length ls then [ls ! Suc i] else [])"
proof (induction ls arbitrary: i)
  case (Cons x xs)
  show ?case
  proof (cases xs)
    case (Cons y ys)
    show ?thesis
    proof (cases i)
      case (Suc j)
      then have "x \<noteq> xs ! j" using Cons.prems by auto
      with Suc Cons Cons.IH [of j] Cons.prems show ?thesis by auto
    qed (simp add: Cons)
  qed (use Cons.prems in simp)
qed simp

lemma move_active:
  assumes "dom_ok d" "find_els (has_class ''active'') d [m] = [a]" "b \<in> set (find_els p d [m])" "b < length d"
  shows "find_els (has_class ''active'') (add_class ''active'' [b] (remove_class ''active'' [a] d)) [m] = [b]"
proof -
  let ?d1 = "remove_class ''active'' [a] d" let ?d2 = "add_class ''active'' [b] ?d1"
  let ?all = "remdups (concat (map (below (length d) d) [m]))"
  have tree: "same_tree ?d2 d" by (meson same_tree_ops(1,2) same_tree_trans)
  have l: "length ?d2 = length d" by simp
  have "find_els (has_class ''active'') ?d2 [m] = filter (has_class ''active'' ?d2) ?all"
    unfolding find_els_def l by (simp add: same_tree_below [OF tree])
  also have "\<dots> = [b]"
  proof (rule filter_one)
    show "b \<in> set ?all" using assms(3) by (auto simp: find_els_def)
    fix y assume y: "y \<in> set ?all"
    have "has_class ''active'' d y \<Longrightarrow> y \<in> set (find_els (has_class ''active'') d [m])" using y by (auto simp: find_els_def)
    with assms(2) have "has_class ''active'' d y \<Longrightarrow> y = a" by simp
    then show "has_class ''active'' ?d2 y \<longleftrightarrow> y = b" using assms(1,4) by auto
  qed simp
  finally show ?thesis .
qed

text \<open>The arrow keys go around the suggestions: with the item at place \<open>i\<close> of \<open>n\<close> active, down makes the one
  at \<open>(i + 1) mod n\<close> active and up the one at \<open>(i + n - 1) mod n\<close>, and no other.\<close>

theorem arrows_cycle:
  assumes "dom_ok (ty_dom t)" "menu_items t = ls" "distinct ls" "i < length ls" "menu_active t = [ls ! i]"
    "\<forall>x \<in> set ls. siblings_of (ty_dom t) x = ls" "\<forall>x \<in> set ls. x < length (ty_dom t)"
  shows "menu_active (ty_next t) = [ls ! (Suc i mod length ls)] \<and>
    menu_active (ty_prev t) = [ls ! ((i + length ls - 1) mod length ls)]"
proof -
  let ?d = "ty_dom t" let ?a = "ls ! i" let ?n = "length ls" let ?d1 = "remove_class ''active'' [?a] ?d"
  have mem: "ls ! k \<in> set ls" if "k < ?n" for k using that by simp
  have sib: "siblings_of ?d ?a = ls" using assms(6) mem [OF assms(4)] by blast
  have tg: "has_tag ''li'' ?d1 = has_tag ''li'' ?d" by (simp add: fun_eq_iff)
  have items: "menu_items (ty_on (remove_class ''active'' [?a]) t) = ls"
    using assms(2) by (simp add: menu_items_def ty_on_def find_els_def same_tree_below [OF same_tree_ops(2)] tg)
  have move: "find_els (has_class ''active'') (add_class ''active'' [ls ! k] ?d1) [ty_menu t] = [ls ! k]" if "k < ?n" for k
    using move_active [OF assms(1), of "ty_menu t" ?a "ls ! k" "has_tag ''li''"] assms(2,5,7) mem [OF that]
    by (simp add: menu_active_def menu_items_def)
  have tree: "next_of ?d1 [?a] = next_of ?d [?a]" "prev_of ?d1 [?a] = prev_of ?d [?a]"
    by (rule same_tree_nav, simp)+
  have nx: "next_of ?d [?a] = (if Suc i < ?n then [ls ! Suc i] else [])"
    using after_in_nth [OF assms(3,4)] by (simp add: next_of_def sib)
  have r: "rev ls ! (?n - Suc i) = ?a" using assms(4) by (simp add: rev_nth)
  have pv: "prev_of ?d [?a] = (if 0 < i then [ls ! (i - 1)] else [])"
    using after_in_nth [of "rev ls" "?n - Suc i"] assms(3,4) r
    by (auto simp: prev_of_def sib rev_nth Suc_diff_Suc)
  have ls0: "ls \<noteq> []" using assms(4) by auto
  have "ty_next t = ty_on (add_class ''active'' [ls ! (Suc i mod ?n)]) (ty_on (remove_class ''active'' [?a]) t)"
  proof (cases "Suc i < ?n")
    case True
    then show ?thesis by (simp add: ty_next_def Let_def assms(5) ty_on_def tree nx)
  next
    case False
    with assms(4) have "Suc i mod ?n = 0" by (metis Suc_lessI mod_self)
    with False ls0 show ?thesis
      by (simp add: ty_next_def Let_def assms(5) items [unfolded ty_on_def] ty_on_def tree nx take_Suc hd_conv_nth)
  qed
  moreover have "ty_prev t = ty_on (add_class ''active'' [ls ! ((i + ?n - 1) mod ?n)]) (ty_on (remove_class ''active'' [?a]) t)"
  proof (cases "0 < i")
    case True
    then have "(i + ?n - 1) mod ?n = i - 1" using assms(4) by (metis add.commute add_diff_assoc2 Suc_leI less_imp_diff_less mod_add_self1 mod_less One_nat_def)
    with True show ?thesis by (simp add: ty_prev_def Let_def assms(5) items ty_on_def tree pv)
  next
    case False
    then have i0: "i = 0" by simp
    from ls0 show ?thesis unfolding i0
      by (simp add: ty_prev_def Let_def assms(5) [unfolded i0] items [unfolded ty_on_def i0] ty_on_def
          tree [unfolded i0] pv [unfolded i0] last_conv_nth)
  qed
  moreover have "k mod ?n < ?n" for k using ls0 by simp
  ultimately show ?thesis using move [of "Suc i mod ?n"] move [of "(i + ?n - 1) mod ?n"]
    by (simp add: menu_active_def ty_on_def)
qed

definition demo_typeahead :: typeahead where
  "demo_typeahead = ty_render [''Anna'', ''Banana''] ((new_Typeahead 0 (Items []) 8 1 [plain_node ''input'' []])\<lparr>ty_query := ''an''\<rparr>)"

theorem arrows_cycle_witness:
  "menu_active demo_typeahead = [2] \<and> menu_active (ty_next demo_typeahead) = [4] \<and> menu_active (ty_prev demo_typeahead) = [4]"
proof -
  have t: "menu_items demo_typeahead = [2, 4] \<and> menu_active demo_typeahead = [2] \<and> siblings_of (ty_dom demo_typeahead) 2 = [2, 4] \<and>
    siblings_of (ty_dom demo_typeahead) 4 = [2, 4] \<and> length (ty_dom demo_typeahead) = 6 \<and>
    list_all (\<lambda>n. class_ok (nd_class n)) (ty_dom demo_typeahead)" by code_simp
  then have "dom_ok (ty_dom demo_typeahead)" by (simp add: dom_ok_def list_all_iff)
  with t arrows_cycle [of demo_typeahead "[2, 4]" 0] show ?thesis by simp
qed

end
