(* ===== verification/JqCallbacks.thy ===== *)
theory JqCallbacks
  imports JqClass
begin

text \<open>
  The callback lists of \<open>jquery.js\<close> and what is built on them. A list is an object that its
  callbacks may change while it fires, and deferreds connect several lists, so all of them live in one
  store and are named by their index. The functions that jQuery itself puts into lists are the
  constructors of \<open>fn\<close>; what a function of the program does when it is called is an argument: a
  finite tree of operations and questions that ends in a value or an exception. An exception leaves the
  store as it is then. \<open>None\<close> means that the fuel did not suffice; each function called and each
  firing takes one.
\<close>

section \<open>Values, functions, operations\<close>

datatype dval = DUndef | DFalse | DVal string | DArr "dval list" | DDef nat | DProm nat

text \<open>
  \<open>SetState\<close>, \<open>DisableL\<close>, \<open>LockL\<close>: the three that a deferred starts with.
  \<open>FireL l\<close>: \<open>list.fire\<close> as a function. \<open>ThenFn d e i c\<close>: the closure of
  \<open>then\<close> on \<open>d\<close> for the new deferred \<open>e\<close>, the action \<open>i\<close> and the function
  \<open>c\<close>. \<open>UpdResolve\<close>, \<open>UpdProgress\<close>: those of \<open>when\<close>.
\<close>

datatype 'c fn =
  User 'c | SetState nat string | DisableL nat | LockL nat | FireL nat | ThenFn nat nat nat 'c
| UpdResolve nat nat | UpdProgress nat nat

datatype 'c arg = Fn "'c fn" | ArgList "'c arg list" | NoFn

datatype 'c cb_op =
  OpAdd nat "'c arg list" | OpRemove nat "'c fn list" | OpEmpty nat | OpDisable nat | OpLock nat
| OpFire nat dval "dval list"

datatype 'c query = QHas nat "'c fn" | QFired nat | QDisabled nat | QLocked nat | QPending nat

datatype 'c act = Return dval | Raise js_error | Do "'c cb_op" "'c act" | Ask "'c query" "bool \<Rightarrow> 'c act"

section \<open>State\<close>

type_synonym data = "dval \<times> dval list"

record cb_options =
  co_once :: bool
  co_memory :: bool
  co_unique :: bool
  co_stopOnFalse :: bool

text \<open>The list and the stack are \<open>None\<close> when they are undefined (or, the stack, false).\<close>

record 'c cbs =
  cb_options :: cb_options
  cb_memory :: "data option"
  cb_fired :: bool
  cb_firing :: bool
  cb_start :: nat
  cb_length :: int
  cb_index :: int
  cb_list :: "'c fn list option"
  cb_stack :: "data list option"

record deferred =
  df_lists :: "nat list"
  df_state :: string

record when_call =
  wh_deferred :: nat
  wh_remaining :: int
  wh_contexts :: "dval list"
  wh_values :: "dval list"
  wh_pcontexts :: "dval list"
  wh_pvalues :: "dval list"

record 'c jworld =
  jw_lists :: "'c cbs list"
  jw_deferreds :: "deferred list"
  jw_whens :: "when_call list"
  jw_calls :: "('c \<times> dval \<times> dval list) list"

type_synonym ('c, 'a) comp = "'c jworld \<Rightarrow> ((js_error + 'a) \<times> 'c jworld) option"

definition give :: "'a \<Rightarrow> ('c, 'a) comp" where
  "give a w = Some (Inr a, w)"

definition bindc :: "('c, 'a) comp \<Rightarrow> ('a \<Rightarrow> ('c, 'b) comp) \<Rightarrow> ('c, 'b) comp" where
  "bindc m f w = (case m w of None \<Rightarrow> None | Some (Inl e, w1) \<Rightarrow> Some (Inl e, w1) | Some (Inr a, w1) \<Rightarrow> f a w1)"

definition then_do :: "('c, 'a) comp \<Rightarrow> ('c, 'b) comp \<Rightarrow> ('c, 'b) comp" where
  "then_do m k = bindc m (\<lambda>_. k)"

definition upd_list :: "nat \<Rightarrow> ('c cbs \<Rightarrow> 'c cbs) \<Rightarrow> 'c jworld \<Rightarrow> 'c jworld" where
  "upd_list l f w = w\<lparr>jw_lists := (jw_lists w)[l := f (jw_lists w ! l)]\<rparr>"

definition modify :: "nat \<Rightarrow> ('c cbs \<Rightarrow> 'c cbs) \<Rightarrow> ('c, unit) comp" where
  "modify l f w = Some (Inr (), upd_list l f w)"

definition new_Callbacks :: "cb_options \<Rightarrow> 'c cbs" where
  "new_Callbacks opts = \<lparr>cb_options = opts, cb_memory = None, cb_fired = False, cb_firing = False, cb_start = 0,
     cb_length = 0, cb_index = 0, cb_list = Some [], cb_stack = (if co_once opts then None else Some [])\<rparr>"

text \<open>Options given as a string: \<open>createOptions\<close> makes each flag true.\<close>

definition createOptions :: "string \<Rightarrow> cb_options" where
  "createOptions options =
     (let flags = js_split spaceRe options
      in \<lparr>co_once = (''once'' \<in> set flags), co_memory = (''memory'' \<in> set flags),
          co_unique = (''unique'' \<in> set flags), co_stopOnFalse = (''stopOnFalse'' \<in> set flags)\<rparr>)"

section \<open>Operations on one list\<close>

text \<open>\<open>add\<close>: functions are appended in order, arrays are entered, anything else is skipped.\<close>

fun push_arg :: "bool \<Rightarrow> 'c arg \<Rightarrow> 'c fn list \<Rightarrow> 'c fn list"
  and push_args :: "bool \<Rightarrow> 'c arg list \<Rightarrow> 'c fn list \<Rightarrow> 'c fn list" where
  "push_arg unique (Fn f) fs = (if unique \<and> f \<in> set fs then fs else fs @ [f])"
| "push_arg unique (ArgList as) fs = push_args unique as fs"
| "push_arg unique NoFn fs = fs"
| "push_args unique [] fs = fs"
| "push_args unique (a # as) fs = push_args unique as (push_arg unique a fs)"

type_synonym 'c firer = "nat \<Rightarrow> data \<Rightarrow> ('c, unit) comp"

definition cb_add :: "'c firer \<Rightarrow> nat \<Rightarrow> 'c arg list \<Rightarrow> ('c, unit) comp" where
  "cb_add fire l as w =
     (let c = jw_lists w ! l in
      case cb_list c of
        None \<Rightarrow> give () w
      | Some fs \<Rightarrow>
          let fs' = push_args (co_unique (cb_options c)) as fs;
              w1 = upd_list l (\<lambda>c. c\<lparr>cb_list := Some fs'\<rparr>) w
          in if cb_firing c then modify l (\<lambda>c. c\<lparr>cb_length := int (length fs')\<rparr>) w1
             else case cb_memory c of
                    None \<Rightarrow> give () w1
                  | Some m \<Rightarrow> fire l m (upd_list l (\<lambda>c. c\<lparr>cb_start := length fs\<rparr>) w1))"

text \<open>\<open>jQuery.inArray(f, fs, i)\<close>\<close>

definition inArray :: "'a \<Rightarrow> 'a list \<Rightarrow> nat \<Rightarrow> nat option" where
  "inArray f fs i = List.find (\<lambda>j. fs ! j = f) [i..<length fs]"

lemma inArray_bound: "inArray f fs i = Some j \<Longrightarrow> i \<le> j \<and> j < length fs"
  by (auto simp: inArray_def find_Some_iff)

function remove_all_of :: "'c fn \<Rightarrow> nat \<Rightarrow> 'c fn list \<Rightarrow> bool \<Rightarrow> int \<Rightarrow> int \<Rightarrow> 'c fn list \<times> int \<times> int" where
  "remove_all_of f i fs firing len idx =
     (case inArray f fs i of
        None \<Rightarrow> (fs, len, idx)
      | Some j \<Rightarrow>
          remove_all_of f j (splice1 j fs) firing
            (if firing \<and> int j \<le> len then len - 1 else len) (if firing \<and> int j \<le> idx then idx - 1 else idx))"
  by pat_completeness auto
termination
  by (relation "measure (\<lambda>(f, i, fs, firing, len, idx). length fs)") (auto simp: length_splice1 dest!: inArray_bound)

declare remove_all_of.simps [simp del]

definition cb_remove1 :: "'c fn \<Rightarrow> 'c cbs \<Rightarrow> 'c cbs" where
  "cb_remove1 f c =
     (case cb_list c of
        None \<Rightarrow> c
      | Some fs \<Rightarrow>
          (case remove_all_of f 0 fs (cb_firing c) (cb_length c) (cb_index c) of
             (fs', len, idx) \<Rightarrow> c\<lparr>cb_list := Some fs', cb_length := len, cb_index := idx\<rparr>))"

definition cb_disable :: "'c cbs \<Rightarrow> 'c cbs" where
  "cb_disable c = c\<lparr>cb_list := None, cb_stack := None, cb_memory := None\<rparr>"

definition cb_lock :: "'c cbs \<Rightarrow> 'c cbs" where
  "cb_lock c = (let c1 = c\<lparr>cb_stack := None\<rparr> in if cb_memory c1 = None then cb_disable c1 else c1)"

definition cb_empty :: "'c cbs \<Rightarrow> 'c cbs" where
  "cb_empty c = c\<lparr>cb_list := Some []\<rparr>"

definition cb_fireWith :: "'c firer \<Rightarrow> nat \<Rightarrow> data \<Rightarrow> ('c, unit) comp" where
  "cb_fireWith fire l d w =
     (let c = jw_lists w ! l in
      if cb_list c \<noteq> None \<and> (\<not> cb_fired c \<or> cb_stack c \<noteq> None)
      then if cb_firing c
           then (case cb_stack c of Some s \<Rightarrow> modify l (\<lambda>c. c\<lparr>cb_stack := Some (s @ [d])\<rparr>) w
                 | None \<Rightarrow> Some (Inl TypeError, w))
           else fire l d w
      else give () w)"

definition cb_has :: "'c fn \<Rightarrow> 'c cbs \<Rightarrow> bool" where
  "cb_has f c \<longleftrightarrow> (case cb_list c of None \<Rightarrow> False | Some fs \<Rightarrow> f \<in> set fs)"

definition do_op :: "'c firer \<Rightarrow> 'c cb_op \<Rightarrow> ('c, unit) comp" where
  "do_op fire op =
     (case op of
        OpAdd l as \<Rightarrow> cb_add fire l as
      | OpRemove l fs \<Rightarrow> modify l (fold cb_remove1 fs)
      | OpEmpty l \<Rightarrow> modify l cb_empty
      | OpDisable l \<Rightarrow> modify l cb_disable
      | OpLock l \<Rightarrow> modify l cb_lock
      | OpFire l ctx args \<Rightarrow> cb_fireWith fire l (ctx, args))"

definition answer :: "'c query \<Rightarrow> 'c jworld \<Rightarrow> bool" where
  "answer q w =
     (case q of
        QHas l f \<Rightarrow> cb_has f (jw_lists w ! l)
      | QFired l \<Rightarrow> cb_fired (jw_lists w ! l)
      | QDisabled l \<Rightarrow> cb_list (jw_lists w ! l) = None
      | QLocked l \<Rightarrow> cb_stack (jw_lists w ! l) = None
      | QPending d \<Rightarrow> df_state (jw_deferreds w ! d) = ''pending'')"

primrec run_act :: "'c firer \<Rightarrow> 'c act \<Rightarrow> ('c, dval) comp" where
  "run_act fire (Return v) = give v"
| "run_act fire (Raise e) = (\<lambda>w. Some (Inl e, w))"
| "run_act fire (Do op a) = then_do (do_op fire op) (run_act fire a)"
| "run_act fire (Ask q k) = (\<lambda>w. run_act fire (k (answer q w)) w)"

section \<open>Calling a function\<close>

definition df_list :: "nat \<Rightarrow> nat \<Rightarrow> 'c jworld \<Rightarrow> nat" where
  "df_list k i w = df_lists (jw_deferreds w ! k) ! i"

text \<open>A value with a \<open>promise\<close> method, and the deferred behind it.\<close>

definition promise_of :: "dval \<Rightarrow> nat option" where
  "promise_of v = (case v of DDef k \<Rightarrow> Some k | DProm k \<Rightarrow> Some k | _ \<Rightarrow> None)"

definition value_arg :: "dval list \<Rightarrow> dval" where
  "value_arg args = (case args of [] \<Rightarrow> DUndef | [v] \<Rightarrow> v | _ \<Rightarrow> DArr args)"

text \<open>The end of the closure of \<open>then\<close>: wait for what was returned, or pass it on.\<close>

definition then_end :: "'c firer \<Rightarrow> nat \<Rightarrow> nat \<Rightarrow> nat \<Rightarrow> dval \<Rightarrow> dval \<Rightarrow> ('c, dval) comp" where
  "then_end fire d e i ctx returned w =
     (case promise_of returned of
        Some r \<Rightarrow>
          then_do (cb_add fire (df_list r 0 w) [Fn (FireL (df_list e 0 w))])
            (then_do (cb_add fire (df_list r 1 w) [Fn (FireL (df_list e 1 w))])
              (then_do (cb_add fire (df_list r 2 w) [Fn (FireL (df_list e 2 w))]) (give DUndef))) w
      | None \<Rightarrow>
          then_do (cb_fireWith fire (df_list e i w) (if ctx = DDef d then DDef e else ctx, [returned])) (give DUndef) w)"

definition upd_when :: "nat \<Rightarrow> (when_call \<Rightarrow> when_call) \<Rightarrow> 'c jworld \<Rightarrow> 'c jworld" where
  "upd_when k f w = w\<lparr>jw_whens := (jw_whens w)[k := f (jw_whens w ! k)]\<rparr>"

definition exec_fn ::
  "('c \<Rightarrow> dval \<Rightarrow> dval list \<Rightarrow> 'c act) \<Rightarrow> 'c firer \<Rightarrow> 'c fn \<Rightarrow> dval \<Rightarrow> dval list \<Rightarrow> ('c, dval) comp" where
  "exec_fn B fire f ctx args =
     (case f of
        User c \<Rightarrow> (\<lambda>w. run_act fire (B c ctx args) (w\<lparr>jw_calls := jw_calls w @ [(c, ctx, args)]\<rparr>))
      | SetState k s \<Rightarrow> (\<lambda>w. give DUndef (w\<lparr>jw_deferreds := (jw_deferreds w)[k := (jw_deferreds w ! k)\<lparr>df_state := s\<rparr>]\<rparr>))
      | DisableL l \<Rightarrow> then_do (modify l cb_disable) (give DUndef)
      | LockL l \<Rightarrow> then_do (modify l cb_lock) (give DUndef)
      | FireL l \<Rightarrow> then_do (cb_fireWith fire l (ctx, args)) (give DUndef)
      | ThenFn d e i c \<Rightarrow>
          (\<lambda>w. bindc (run_act fire (B c ctx args)) (then_end fire d e i ctx)
                 (w\<lparr>jw_calls := jw_calls w @ [(c, ctx, args)]\<rparr>))
      | UpdProgress k i \<Rightarrow>
          (\<lambda>w. let w1 = upd_when k (\<lambda>r. r\<lparr>wh_pcontexts := (wh_pcontexts r)[i := ctx],
                          wh_pvalues := (wh_pvalues r)[i := value_arg args]\<rparr>) w;
                    r = jw_whens w1 ! k
                in then_do (cb_fireWith fire (df_list (wh_deferred r) 2 w1) (DArr (wh_pcontexts r), wh_pvalues r)) (give DUndef) w1)
      | UpdResolve k i \<Rightarrow>
          (\<lambda>w. let w1 = upd_when k (\<lambda>r. r\<lparr>wh_contexts := (wh_contexts r)[i := ctx],
                          wh_values := (wh_values r)[i := value_arg args], wh_remaining := wh_remaining r - 1\<rparr>) w;
                    r = jw_whens w1 ! k
                in if wh_remaining r = 0
                   then then_do (cb_fireWith fire (df_list (wh_deferred r) 0 w1) (DArr (wh_contexts r), wh_values r)) (give DUndef) w1
                   else give DUndef w1))"

section \<open>Firing\<close>

definition fire_setup :: "data \<Rightarrow> 'c cbs \<Rightarrow> 'c cbs" where
  "fire_setup d c =
     c\<lparr>cb_memory := (if co_memory (cb_options c) then Some d else None), cb_fired := True, cb_index := int (cb_start c),
       cb_start := 0, cb_length := (case cb_list c of Some fs \<Rightarrow> int (length fs) | None \<Rightarrow> 0), cb_firing := True\<rparr>"

text \<open>After the loop: nothing more to do, or the next data of the stack.\<close>

definition fire_end :: "'c cbs \<Rightarrow> 'c cbs \<times> data option" where
  "fire_end c0 =
     (let c = c0\<lparr>cb_firing := False\<rparr> in
      case cb_list c of
        None \<Rightarrow> (c, None)
      | Some fs \<Rightarrow>
          (case cb_stack c of
             Some [] \<Rightarrow> (c, None)
           | Some (d # ds) \<Rightarrow> (c\<lparr>cb_stack := Some ds\<rparr>, Some d)
           | None \<Rightarrow> if cb_memory c \<noteq> None then (c\<lparr>cb_list := Some []\<rparr>, None) else (cb_disable c, None)))"

fun cb_fire :: "('c \<Rightarrow> dval \<Rightarrow> dval list \<Rightarrow> 'c act) \<Rightarrow> nat \<Rightarrow> nat \<Rightarrow> data \<Rightarrow> ('c, unit) comp"
  and fire_loop :: "('c \<Rightarrow> dval \<Rightarrow> dval list \<Rightarrow> 'c act) \<Rightarrow> nat \<Rightarrow> nat \<Rightarrow> data \<Rightarrow> ('c, unit) comp" where
  "cb_fire B 0 l d w = None"
| "cb_fire B (Suc n) l d w =
     bindc (fire_loop B n l d)
       (\<lambda>_ w1. case fire_end (jw_lists w1 ! l) of (c, next) \<Rightarrow>
          let w2 = upd_list l (\<lambda>_. c) w1
          in case next of None \<Rightarrow> give () w2 | Some d' \<Rightarrow> cb_fire B n l d' w2)
       (upd_list l (fire_setup d) w)"
| "fire_loop B 0 l d w = None"
| "fire_loop B (Suc n) l d w =
     (let c = jw_lists w ! l in
      case cb_list c of
        None \<Rightarrow> give () w
      | Some fs \<Rightarrow>
          if cb_index c < cb_length c
          then if 0 \<le> cb_index c \<and> nat (cb_index c) < length fs
               then bindc (exec_fn B (\<lambda>l d w. cb_fire B n l d w) (fs ! nat (cb_index c)) (fst d) (snd d))
                      (\<lambda>r w1. if r = DFalse \<and> co_stopOnFalse (cb_options c)
                               then modify l (\<lambda>c. c\<lparr>cb_memory := None\<rparr>) w1
                               else fire_loop B n l d (upd_list l (\<lambda>c. c\<lparr>cb_index := cb_index c + 1\<rparr>) w1))
                      w
               else Some (Inl TypeError, w)
          else give () w)"

end
