(* ===== verification/JqCallbackLaws.thy ===== *)
theory JqCallbackLaws
  imports JqCallbacks
begin

text \<open>
  What holds of callback lists whatever their functions do: add to, remove from, empty, disable, lock or fire
  any list while one is firing, or raise. The locale \<open>list_invariant\<close> carries a property of one list through
  every run; it is interpreted on \<open>cb_ok\<close> and on the settings of a list.
\<close>

section \<open>Properties kept by a run\<close>

definition keeps :: "('c jworld \<Rightarrow> bool) \<Rightarrow> ('c, 'a) comp \<Rightarrow> bool" where
  "keeps P m \<longleftrightarrow> (\<forall>w r w'. P w \<longrightarrow> m w = Some (r, w') \<longrightarrow> P w')"

named_theorems keeps_rules

lemma keepsI: "(\<And>w r w'. P w \<Longrightarrow> m w = Some (r, w') \<Longrightarrow> P w') \<Longrightarrow> keeps P m"
  by (auto simp: keeps_def)

lemma keepsD: "keeps P m \<Longrightarrow> P w \<Longrightarrow> m w = Some (r, w') \<Longrightarrow> P w'"
  by (auto simp: keeps_def)

lemma give_iff [simp]: "give a w = Some (r, w') \<longleftrightarrow> r = Inr a \<and> w' = w"
  by (auto simp: give_def)

lemma keeps_give [keeps_rules]: "keeps P (give a)"
  by (auto simp: keeps_def give_def)

lemma bindc_cases:
  assumes "bindc m f w = Some (r, w')"
  obtains e where "m w = Some (Inl e, w')" | a w1 where "m w = Some (Inr a, w1)" "f a w1 = Some (r, w')"
  using assms by (auto simp: bindc_def split: option.splits sum.splits)

lemma keeps_bind [keeps_rules]:
  assumes "keeps P m" "\<And>a. keeps P (f a)"
  shows "keeps P (bindc m f)"
  by (rule keepsI, erule bindc_cases) (blast intro: keepsD [OF assms(1)] keepsD [OF assms(2)])+

lemma keeps_then [keeps_rules]: "keeps P m \<Longrightarrow> keeps P k \<Longrightarrow> keeps P (then_do m k)"
  by (simp add: then_do_def keeps_bind)

lemma keeps_bindD: "bindc m f w = Some (r, w') \<Longrightarrow> P w \<Longrightarrow> keeps P m \<Longrightarrow> (\<And>a. keeps P (f a)) \<Longrightarrow> P w'"
  using keeps_bind keepsD by blast

lemma keeps_thenD: "then_do m k w = Some (r, w') \<Longrightarrow> P w \<Longrightarrow> keeps P m \<Longrightarrow> keeps P k \<Longrightarrow> P w'"
  using keeps_then keepsD by blast

definition all_lists :: "('c cbs \<Rightarrow> bool) \<Rightarrow> 'c jworld \<Rightarrow> bool" where
  "all_lists J w \<longleftrightarrow> (\<forall>c \<in> set (jw_lists w). J c)"

lemma all_lists_upd: "all_lists J w \<Longrightarrow> (J (jw_lists w ! l) \<Longrightarrow> J (f (jw_lists w ! l))) \<Longrightarrow> all_lists J (upd_list l f w)"
  by (cases "l < length (jw_lists w)")
    (auto simp: all_lists_def upd_list_def list_update_beyond dest!: subsetD [OF set_update_subset_insert])

lemma all_lists_more [simp]: "all_lists J (w\<lparr>jw_calls := x\<rparr>) = all_lists J w" "all_lists J (w\<lparr>jw_deferreds := y\<rparr>) = all_lists J w"
  "all_lists J (upd_when k g w) = all_lists J w"
  by (simp_all add: all_lists_def upd_when_def)

locale list_invariant =
  fixes J :: "'c cbs \<Rightarrow> bool"
  assumes add: "J c \<Longrightarrow> cb_list c = Some fs \<Longrightarrow> J (c\<lparr>cb_list := Some (push_args (co_unique (cb_options c)) as fs)\<rparr>)"
    and counters: "J c \<Longrightarrow> J (c\<lparr>cb_length := x\<rparr>)" "J c \<Longrightarrow> J (c\<lparr>cb_start := i\<rparr>)" "J c \<Longrightarrow> J (c\<lparr>cb_index := x\<rparr>)"
    and remove: "J c \<Longrightarrow> J (cb_remove1 f c)"
    and closing: "J c \<Longrightarrow> J (cb_empty c)" "J c \<Longrightarrow> J (cb_disable c)" "J c \<Longrightarrow> J (c\<lparr>cb_stack := None\<rparr>)"
    and push: "J c \<Longrightarrow> cb_stack c = Some s \<Longrightarrow> J (c\<lparr>cb_stack := Some s'\<rparr>)"
    and start_fire: "J c \<Longrightarrow> J (fire_setup d c)"
    and calm: "J c \<Longrightarrow> J (c\<lparr>cb_firing := False\<rparr>)"
    and forget: "J c \<Longrightarrow> J (c\<lparr>cb_memory := None\<rparr>)"
begin

lemma lock: "J c \<Longrightarrow> J (cb_lock c)"
  by (simp add: cb_lock_def Let_def closing)

lemma fire_end: "J c \<Longrightarrow> J (fst (fire_end c))"
  using calm closing(2) push [of "c\<lparr>cb_firing := False\<rparr>"] closing(1) [of "c\<lparr>cb_firing := False\<rparr>"]
  by (auto simp: fire_end_def Let_def cb_empty_def split: option.splits list.splits)

lemma modify: "(\<And>c. J c \<Longrightarrow> J (f c)) \<Longrightarrow> keeps (all_lists J) (modify l f)"
  by (auto simp: keeps_def modify_def intro: all_lists_upd)

lemma keeps_add:
  assumes "\<And>l d. keeps (all_lists J) (F l d)"
  shows "keeps (all_lists J) (cb_add F l as)"
proof (rule keepsI)
  fix w r w'
  assume w: "all_lists J w" and run: "cb_add F l as w = Some (r, w')"
  show "all_lists J w'"
  proof (cases "cb_list (jw_lists w ! l)")
    case None
    then show ?thesis using w run by (simp add: cb_add_def give_def)
  next
    case (Some fs)
    let ?w1 = "upd_list l (\<lambda>c. c\<lparr>cb_list := Some (push_args (co_unique (cb_options (jw_lists w ! l))) as fs)\<rparr>) w"
    have w1: "all_lists J ?w1" using w add [OF _ Some] by (rule all_lists_upd)
    then have w2: "all_lists J (upd_list l (\<lambda>c. c\<lparr>cb_start := length fs\<rparr>) ?w1)" by (rule all_lists_upd) (rule counters)
    show ?thesis
      using run w1 keepsD [OF assms w2] keepsD [OF modify [OF counters(1)] w1] unfolding cb_add_def
      by (simp add: Some Let_def give_def split: if_splits option.splits)
  qed
qed

lemma keeps_fireWith:
  assumes "\<And>l d. keeps (all_lists J) (F l d)"
  shows "keeps (all_lists J) (cb_fireWith F l d)"
  using keepsD [OF assms]
  by (intro keepsI) (auto simp: cb_fireWith_def Let_def modify_def give_def intro: all_lists_upd push split: if_splits option.splits)

lemma fold_remove: "J c \<Longrightarrow> J (fold cb_remove1 fs c)"
  by (induction fs arbitrary: c) (simp_all add: remove)

lemma keeps_op: "(\<And>l d. keeps (all_lists J) (F l d)) \<Longrightarrow> keeps (all_lists J) (do_op F op)"
  by (cases op) (auto simp: do_op_def intro!: keeps_add keeps_fireWith modify fold_remove closing lock)

lemma keeps_act:
  assumes "\<And>l d. keeps (all_lists J) (F l d)"
  shows "keeps (all_lists J) (run_act F a)"
proof (induction a)
  case (Do op a)
  then show ?case using keeps_op [OF assms] by (simp add: keeps_then)
next
  case (Ask q k)
  then show ?case by (auto intro!: keepsI dest: keepsD)
qed (auto simp: keeps_give intro: keepsI)

lemma keeps_later: "keeps (all_lists J) m \<Longrightarrow> (\<And>w. all_lists J w \<Longrightarrow> all_lists J (g w)) \<Longrightarrow> keeps (all_lists J) (\<lambda>w. m (g w))"
  by (auto intro!: keepsI dest: keepsD)

lemma keeps_fn:
  assumes "\<And>l d. keeps (all_lists J) (F l d)"
  shows "keeps (all_lists J) (exec_fn B F f ctx args)"
proof -
  note F = assms
  have then_end: "keeps (all_lists J) (then_end F d e i ctx v)" for d e i v
  proof (rule keepsI)
    fix w r w'
    assume "all_lists J w" "then_end F d e i ctx v w = Some (r, w')"
    then show "all_lists J w'"
      by (cases "promise_of v")
        (auto simp: then_end_def elim!: keeps_thenD intro!: keeps_then keeps_give keeps_add F keeps_fireWith)
  qed
  show ?thesis
  proof (cases f)
    case (User c)
    then show ?thesis by (auto simp: exec_fn_def intro!: keeps_later keeps_act F)
  next
    case (SetState k s)
    then show ?thesis by (auto simp: exec_fn_def give_def intro!: keepsI)
  next
    case (DisableL l)
    then show ?thesis by (auto simp: exec_fn_def intro!: keeps_then modify closing keeps_give)
  next
    case (LockL l)
    then show ?thesis by (auto simp: exec_fn_def intro!: keeps_then modify lock keeps_give)
  next
    case (FireL l)
    then show ?thesis by (auto simp: exec_fn_def intro!: keeps_then keeps_fireWith F keeps_give)
  next
    case (ThenFn d e i c)
    then show ?thesis by (auto simp: exec_fn_def intro!: keeps_later keeps_bind keeps_act F then_end)
  next
    case (UpdResolve k i)
    then show ?thesis
      by (auto simp: exec_fn_def Let_def elim!: keeps_thenD intro!: keepsI keeps_then keeps_give keeps_fireWith F split: if_splits)
  next
    case (UpdProgress k i)
    then show ?thesis
      by (auto simp: exec_fn_def Let_def elim!: keeps_thenD intro!: keepsI keeps_then keeps_give keeps_fireWith F)
  qed
qed

lemma keeps_loop_Suc:
  assumes F: "\<And>l d. keeps (all_lists J) (cb_fire B n l d)" and L: "keeps (all_lists J) (fire_loop B n l d)"
  shows "keeps (all_lists J) (fire_loop B (Suc n) l d)"
proof (rule keepsI)
  fix w r w'
  assume w: "all_lists J w" and run: "fire_loop B (Suc n) l d w = Some (r, w')"
  have next_one: "all_lists J w1 \<Longrightarrow> all_lists J (upd_list l (\<lambda>c. c\<lparr>cb_index := cb_index c + 1\<rparr>) w1)" for w1
    by (rule all_lists_upd) (auto intro: counters)
  have forgets: "keeps (all_lists J) (modify l (\<lambda>c. c\<lparr>cb_memory := None\<rparr>))" by (rule modify) (rule forget)
  have rest: "keeps (all_lists J) (\<lambda>w1. if r = DFalse \<and> stop then modify l (\<lambda>c. c\<lparr>cb_memory := None\<rparr>) w1
      else fire_loop B n l d (upd_list l (\<lambda>c. c\<lparr>cb_index := cb_index c + 1\<rparr>) w1))" for r stop
  proof (cases "r = DFalse \<and> stop")
    case True
    show ?thesis unfolding if_P [OF True] by (rule forgets)
  next
    case False
    show ?thesis unfolding if_not_P [OF False] by (rule keeps_later [OF L next_one])
  qed
  show "all_lists J w'"
  proof (cases "cb_list (jw_lists w ! l)")
    case None
    then show ?thesis using w run by (simp add: Let_def)
  next
    case (Some fs)
    have exec: "keeps (all_lists J) (exec_fn B (\<lambda>l d w. cb_fire B n l d w) f (fst d) (snd d))" for f
      using keeps_fn [of "cb_fire B n"] F by blast
    let ?index = "cb_index (jw_lists w ! l)"
    show ?thesis
    proof (cases "?index < cb_length (jw_lists w ! l) \<and> 0 \<le> ?index \<and> nat ?index < length fs")
      case True
      have "bindc (exec_fn B (\<lambda>l d w. cb_fire B n l d w) (fs ! nat ?index) (fst d) (snd d))
          (\<lambda>r w1. if r = DFalse \<and> co_stopOnFalse (cb_options (jw_lists w ! l)) then modify l (\<lambda>c. c\<lparr>cb_memory := None\<rparr>) w1
            else fire_loop B n l d (upd_list l (\<lambda>c. c\<lparr>cb_index := cb_index c + 1\<rparr>) w1)) w = Some (r, w')"
        using run unfolding fire_loop.simps Let_def Some option.case if_P [OF conjunct1 [OF True]] if_P [OF conjunct2 [OF True]] .
      then show ?thesis using w exec rest by (rule keeps_bindD)
    next
      case False
      then have "w' = w" using run Some by (cases "?index < cb_length (jw_lists w ! l)"; cases "0 \<le> ?index") (simp_all add: Let_def)
      then show ?thesis using w by simp
    qed
  qed
qed

lemma keeps_fire_Suc:
  assumes L: "keeps (all_lists J) (fire_loop B n l d)" and F: "\<And>d'. keeps (all_lists J) (cb_fire B n l d')"
  shows "keeps (all_lists J) (cb_fire B (Suc n) l d)"
proof (rule keepsI)
  fix w r w'
  assume w: "all_lists J w" and run: "cb_fire B (Suc n) l d w = Some (r, w')"
  have w0: "all_lists J (upd_list l (fire_setup d) w)" using w by (rule all_lists_upd) (rule start_fire)
  from run show "all_lists J w'"
    unfolding cb_fire.simps
  proof (cases rule: bindc_cases)
    case 1
    then show ?thesis using keepsD [OF L w0] by blast
  next
    case (2 u w1)
    then have "all_lists J w1" using keepsD [OF L w0] by blast
    then have ended: "all_lists J (upd_list l (\<lambda>_. fst (fire_end (jw_lists w1 ! l))) w1)"
      by (rule all_lists_upd) (auto intro: fire_end)
    show ?thesis
    proof (cases "fire_end (jw_lists w1 ! l)")
      case (Pair c next_data)
      then show ?thesis
        using 2(2) ended keepsD [OF F] by (cases next_data) (simp_all add: Let_def)
    qed
  qed
qed

lemma keeps_fire_and_loop:
  "(\<forall>l d. keeps (all_lists J) (cb_fire B n l d)) \<and> (\<forall>l d. keeps (all_lists J) (fire_loop B n l d))"
proof (induction n)
  case 0
  then show ?case by (simp add: keeps_def)
next
  case (Suc n)
  then have F: "\<And>l d. keeps (all_lists J) (cb_fire B n l d)" and L: "\<And>l d. keeps (all_lists J) (fire_loop B n l d)"
    by blast+
  show ?case using keeps_fire_Suc [OF L F] keeps_loop_Suc [OF F L] by blast
qed

lemma keeps_fire: "keeps (all_lists J) (cb_fire B n l d)"
  using keeps_fire_and_loop by blast

lemma run_keeps: "do_op (cb_fire B n) op w = Some (r, w') \<Longrightarrow> all_lists J w \<Longrightarrow> all_lists J w'"
  using keepsD [OF keeps_op [where F = "cb_fire B n", OF keeps_fire]] by blast

end

section \<open>The invariant of a list\<close>

text \<open>A list of unique functions has no duplicates; only a list with memory that has been fired remembers; a firing
  list counts as fired, so that a nested firing always finds the stack; a list for one firing has no stack.\<close>

definition cb_ok :: "'c cbs \<Rightarrow> bool" where
  "cb_ok c \<longleftrightarrow> (co_unique (cb_options c) \<longrightarrow> (case cb_list c of None \<Rightarrow> True | Some fs \<Rightarrow> distinct fs))
     \<and> (cb_memory c \<noteq> None \<longrightarrow> co_memory (cb_options c) \<and> cb_fired c) \<and> (cb_firing c \<longrightarrow> cb_fired c)
     \<and> (cb_stack c \<noteq> None \<longrightarrow> \<not> co_once (cb_options c))"

lemma distinct_push: "distinct fs \<Longrightarrow> distinct (push_arg True a fs)" "distinct fs \<Longrightarrow> distinct (push_args True as fs)"
  by (induction True a fs and True as fs rule: push_arg_push_args.induct) auto

lemma distinct_splice:
  assumes "distinct fs"
  shows "distinct (splice1 j fs)"
proof (cases "j < length fs")
  case True
  then have "distinct (take j fs @ fs ! j # drop (Suc j) fs)" using assms id_take_nth_drop by metis
  then show ?thesis by (auto simp: splice1_def)
qed (use assms in \<open>simp add: splice1_def\<close>)

lemma distinct_remove: "distinct fs \<Longrightarrow> distinct (fst (remove_all_of f i fs firing len idx))"
proof (induction f i fs firing len idx rule: remove_all_of.induct)
  case (1 f i fs firing len idx)
  show ?case
  proof (cases "inArray f fs i")
    case None
    then show ?thesis using 1(2) by (simp add: remove_all_of.simps)
  next
    case (Some j)
    then show ?thesis using 1(1) [OF Some distinct_splice [OF 1(2)]] by (simp add: remove_all_of.simps [of f i fs])
  qed
qed

interpretation callbacks: list_invariant cb_ok
proof
  fix c :: "'a cbs" and f
  assume "cb_ok c"
  then show "cb_ok (cb_remove1 f c)"
    using distinct_remove [of "the (cb_list c)" f 0 "cb_firing c" "cb_length c" "cb_index c"]
    by (auto simp: cb_ok_def cb_remove1_def split: option.splits prod.splits)
qed (auto simp: cb_ok_def cb_empty_def cb_disable_def fire_setup_def distinct_push split: option.splits)

lemma new_list_ok: "cb_ok (new_Callbacks opts)"
  by (simp add: cb_ok_def new_Callbacks_def)

text \<open>A program goes on after an exception that it catches.\<close>

primrec do_ops :: "'c firer \<Rightarrow> 'c cb_op list \<Rightarrow> 'c jworld \<Rightarrow> 'c jworld option" where
  "do_ops F [] w = Some w"
| "do_ops F (op # ops) w = (case do_op F op w of None \<Rightarrow> None | Some (r, w1) \<Rightarrow> do_ops F ops w1)"

definition new_lists :: "cb_options list \<Rightarrow> 'c jworld" where
  "new_lists optss = \<lparr>jw_lists = map new_Callbacks optss, jw_deferreds = [], jw_whens = [], jw_calls = []\<rparr>"

lemma ops_keep_ok: "do_ops (cb_fire B n) ops w = Some w' \<Longrightarrow> all_lists cb_ok w \<Longrightarrow> all_lists cb_ok w'"
  by (induction ops arbitrary: w) (auto split: option.splits dest: callbacks.run_keeps)


definition meddling :: "nat \<Rightarrow> dval \<Rightarrow> dval list \<Rightarrow> nat act" where
  "meddling c ctx args = Do (OpAdd 0 [Fn (User 1), Fn (User 0)])
     (Do (OpFire 0 DUndef []) (if c = 0 then Raise TypeError else Return DUndef))"

definition meddled :: "nat jworld option" where
  "meddled = do_ops (cb_fire meddling 9) [OpAdd 0 [Fn (User 0)], OpFire 0 DUndef []] (new_lists [createOptions ''unique''])"

lemma meddled_lists: "map_option (\<lambda>w. map cb_list (jw_lists w)) meddled = Some [Some [User 0, User 1]]"
  by code_simp


section \<open>Exceptions\<close>

primrec fire_all :: "'c firer \<Rightarrow> nat \<Rightarrow> data list \<Rightarrow> ('c, unit) comp" where
  "fire_all F l [] = give ()"
| "fire_all F l (d # ds) = then_do (cb_fireWith F l d) (fire_all F l ds)"

lemma stuck_fires:
  assumes "l < length (jw_lists w)" "cb_firing (jw_lists w ! l)" "cb_list (jw_lists w ! l) \<noteq> None" "cb_stack (jw_lists w ! l) = Some s"
  shows "\<exists>w'. fire_all F l ds w = Some (Inr (), w') \<and> jw_calls w' = jw_calls w \<and> cb_stack (jw_lists w' ! l) = Some (s @ ds)"
  using assms
proof (induction ds arbitrary: w s)
  case Nil
  then show ?case by (simp add: give_def)
next
  case (Cons d ds)
  let ?w1 = "upd_list l (\<lambda>c. c\<lparr>cb_stack := Some (s @ [d])\<rparr>) w"
  have "cb_fireWith F l d w = Some (Inr (), ?w1)"
    using Cons.prems by (auto simp: cb_fireWith_def Let_def modify_def)
  moreover obtain w' where "fire_all F l ds ?w1 = Some (Inr (), w')" "jw_calls w' = jw_calls ?w1"
      "cb_stack (jw_lists w' ! l) = Some ((s @ [d]) @ ds)"
    using Cons.IH [of ?w1 "s @ [d]"] Cons.prems by (auto simp: upd_list_def)
  ultimately show ?case by (auto simp: then_do_def bindc_def upd_list_def)
qed

text \<open>A callback that raises leaves its list firing for ever: the exception reaches the one who fired, and from
  then on every \<open>fire\<close> of a list that may be fired repeatedly succeeds, is put on the stack, and calls
  nothing.\<close>

theorem raise_leaves_list_firing:
  assumes "l < length (jw_lists w)" "cb_list (jw_lists w ! l) = Some (User c # fs)" "cb_start (jw_lists w ! l) = 0"
    "\<not> cb_firing (jw_lists w ! l)" "cb_stack (jw_lists w ! l) = Some []" "B c (fst d) (snd d) = Raise e"
  shows "\<exists>w1. cb_fireWith (cb_fire B (Suc (Suc n))) l d w = Some (Inl e, w1) \<and> jw_calls w1 = jw_calls w @ [(c, fst d, snd d)]
    \<and> (\<exists>w2. fire_all (cb_fire B m) l ds w1 = Some (Inr (), w2) \<and> jw_calls w2 = jw_calls w1
          \<and> cb_stack (jw_lists w2 ! l) = Some ds)"
proof -
  let ?w1 = "(upd_list l (fire_setup d) w)\<lparr>jw_calls := jw_calls w @ [(c, fst d, snd d)]\<rparr>"
  have "cb_fireWith (cb_fire B (Suc (Suc n))) l d w = Some (Inl e, ?w1)"
    using assms by (simp add: cb_fireWith_def Let_def bindc_def exec_fn_def upd_list_def fire_setup_def)
  moreover have "\<exists>w2. fire_all (cb_fire B m) l ds ?w1 = Some (Inr (), w2) \<and> jw_calls w2 = jw_calls ?w1
      \<and> cb_stack (jw_lists w2 ! l) = Some ([] @ ds)"
    using assms by (intro stuck_fires) (simp_all add: upd_list_def fire_setup_def)
  ultimately show ?thesis by simp
qed

text \<open>A callback that empties the list that is calling it breaks the firing: the loop still runs to the old
  length, so that after that callback there is no function to call and the firing ends in a type error, with the list
  still firing.\<close>

theorem empty_while_firing_raises:
  assumes "l < length (jw_lists w)" "cb_list (jw_lists w ! l) = Some (User c # f # fs)" "cb_start (jw_lists w ! l) = 0"
    "B c (fst d) (snd d) = Do (OpEmpty l) (Return DUndef)"
  shows "\<exists>w1. cb_fire B (Suc (Suc (Suc n))) l d w = Some (Inl TypeError, w1) \<and> cb_firing (jw_lists w1 ! l)
    \<and> jw_calls w1 = jw_calls w @ [(c, fst d, snd d)]"
  using assms by (simp add: Let_def bindc_def exec_fn_def upd_list_def fire_setup_def then_do_def do_op_def modify_def cb_empty_def give_def)

definition raise_world :: "nat jworld" where
  "raise_world = \<lparr>jw_lists = [(new_Callbacks (\<lparr>co_once = False, co_memory = True, co_unique = False, co_stopOnFalse = False\<rparr>))\<lparr>cb_list := Some [User 0, User 1]\<rparr>],
     jw_deferreds = [], jw_whens = [], jw_calls = []\<rparr>"

theorem raise_leaves_list_firing_witness:
  "\<exists>w1. cb_fireWith (cb_fire (\<lambda>c ctx args. Raise TypeError) 2) 0 (DUndef, []) raise_world = Some (Inl TypeError, w1)
    \<and> jw_calls w1 = [(0, DUndef, [])]
    \<and> (\<exists>w2. fire_all (cb_fire (\<lambda>c ctx args. Raise TypeError) 5) 0 [(DUndef, [])] w1 = Some (Inr (), w2) \<and> jw_calls w2 = jw_calls w1
          \<and> cb_stack (jw_lists w2 ! 0) = Some [(DUndef, [])])"
  using raise_leaves_list_firing [of 0 raise_world 0 "[User 1]" "\<lambda>c ctx args. Raise TypeError" "(DUndef, [])" TypeError 0 5 "[(DUndef, [])]"]
  by (simp add: raise_world_def new_Callbacks_def numeral_2_eq_2)

theorem empty_while_firing_raises_witness:
  "\<exists>w1. cb_fire (\<lambda>c ctx args. Do (OpEmpty 0) (Return DUndef)) 3 0 (DUndef, []) raise_world = Some (Inl TypeError, w1)
    \<and> cb_firing (jw_lists w1 ! 0) \<and> jw_calls w1 = [(0, DUndef, [])]"
  using empty_while_firing_raises [of 0 raise_world 0 "User 1" "[]" "\<lambda>c ctx args. Do (OpEmpty 0) (Return DUndef)" "(DUndef, [])" 0]
  by (simp add: raise_world_def new_Callbacks_def numeral_3_eq_3)

end
