(* ===== verification/JqDeferred.thy ===== *)
theory JqDeferred
  imports JqCallbacks
begin

text \<open>
  Deferreds of \<open>jquery.js\<close>: three callback lists that disable and lock each other, \<open>then\<close>,
  and \<open>when\<close>. A deferred and its promise are named by the same index.
\<close>

section \<open>Deferred\<close>

definition once_memory :: cb_options where
  "once_memory = \<lparr>co_once = True, co_memory = True, co_unique = False, co_stopOnFalse = False\<rparr>"

definition memory_only :: cb_options where
  "memory_only = \<lparr>co_once = False, co_memory = True, co_unique = False, co_stopOnFalse = False\<rparr>"

definition tuples :: "nat \<Rightarrow> nat \<Rightarrow> 'c cbs list" where
  "tuples k n =
     [(new_Callbacks once_memory)\<lparr>cb_list := Some [SetState k ''resolved'', DisableL (n + 1), LockL (n + 2)]\<rparr>,
      (new_Callbacks once_memory)\<lparr>cb_list := Some [SetState k ''rejected'', DisableL n, LockL (n + 2)]\<rparr>,
      new_Callbacks memory_only]"

definition new_Deferred :: "'c jworld \<Rightarrow> nat \<times> 'c jworld" where
  "new_Deferred w =
     (let k = length (jw_deferreds w); n = length (jw_lists w)
      in (k, w\<lparr>jw_lists := jw_lists w @ tuples k n,
               jw_deferreds := jw_deferreds w @ [\<lparr>df_lists = [n, n + 1, n + 2], df_state = ''pending''\<rparr>]\<rparr>))"

text \<open>\<open>done\<close>, \<open>fail\<close>, \<open>progress\<close> are the three \<open>add\<close>; \<open>resolve\<close>, \<open>reject\<close>,
  \<open>notify\<close> the three \<open>fire\<close>.\<close>

definition d_add :: "'c firer \<Rightarrow> nat \<Rightarrow> nat \<Rightarrow> 'c arg list \<Rightarrow> ('c, unit) comp" where
  "d_add fire k i as w = cb_add fire (df_list k i w) as w"

definition d_fireWith :: "'c firer \<Rightarrow> nat \<Rightarrow> nat \<Rightarrow> dval \<Rightarrow> dval list \<Rightarrow> ('c, unit) comp" where
  "d_fireWith fire k i ctx args w = cb_fireWith fire (df_list k i w) (ctx, args) w"

definition d_fire :: "'c firer \<Rightarrow> nat \<Rightarrow> nat \<Rightarrow> dval list \<Rightarrow> ('c, unit) comp" where
  "d_fire fire k i args = d_fireWith fire k i (DDef k) args"

definition d_always :: "'c firer \<Rightarrow> nat \<Rightarrow> 'c arg list \<Rightarrow> ('c, unit) comp" where
  "d_always fire k as = then_do (d_add fire k 0 as) (d_add fire k 1 as)"

text \<open>\<open>then(fnDone, fnFail, fnProgress)\<close>\<close>

definition d_then :: "'c firer \<Rightarrow> nat \<Rightarrow> 'c option \<Rightarrow> 'c option \<Rightarrow> 'c option \<Rightarrow> ('c, dval) comp" where
  "d_then fire k f0 f1 f2 w =
     (case new_Deferred w of (e, w1) \<Rightarrow>
        let link = (\<lambda>i f. d_add fire k i [Fn (case f of Some c \<Rightarrow> ThenFn k e i c | None \<Rightarrow> FireL (df_list e i w1))])
        in then_do (link 0 f0) (then_do (link 1 f1) (then_do (link 2 f2) (give (DProm e)))) w1)"

section \<open>when\<close>

fun when_loop :: "'c firer \<Rightarrow> nat \<Rightarrow> nat \<Rightarrow> nat \<Rightarrow> dval list \<Rightarrow> ('c, unit) comp" where
  "when_loop fire k m i [] w = give () w"
| "when_loop fire k m i (v # vs) w =
     (case promise_of v of
        Some r \<Rightarrow>
          then_do (d_add fire r 0 [Fn (UpdResolve k i)])
            (then_do (d_add fire r 1 [Fn (FireL (df_list m 1 w))])
              (then_do (d_add fire r 2 [Fn (UpdProgress k i)]) (when_loop fire k m (Suc i) vs))) w
      | None \<Rightarrow> when_loop fire k m (Suc i) vs (upd_when k (\<lambda>r. r\<lparr>wh_remaining := wh_remaining r - 1\<rparr>) w))"

definition d_when :: "'c firer \<Rightarrow> dval list \<Rightarrow> ('c, dval) comp" where
  "d_when fire subs w0 =
     (let n = length subs; single = (case subs of [v] \<Rightarrow> promise_of v | _ \<Rightarrow> None);
          remaining = (if n \<noteq> 1 \<or> single \<noteq> None then n else 0);
          (m, w1) = (case single of Some r \<Rightarrow> (r, w0) | None \<Rightarrow> new_Deferred w0);
          k = length (jw_whens w1); undefs = replicate n DUndef;
          w2 = w1\<lparr>jw_whens := jw_whens w1 @ [\<lparr>wh_deferred = m, wh_remaining = int remaining, wh_contexts = undefs,
                   wh_values = subs, wh_pcontexts = undefs, wh_pvalues = undefs\<rparr>]\<rparr>
      in then_do (if n > 1 then when_loop fire k m 0 subs else give ())
           (\<lambda>w3. let r = jw_whens w3 ! k in
              if wh_remaining r = 0
              then then_do (d_fireWith fire m 0 (if n > 1 then DArr (wh_contexts r) else DUndef) (wh_values r)) (give (DProm m)) w3
              else give (DProm m) w3)
           w2)"

section \<open>Firing functions that leave the lists alone\<close>

definition inert :: "('c \<Rightarrow> dval \<Rightarrow> dval list \<Rightarrow> 'c act) \<Rightarrow> bool" where
  "inert B \<longleftrightarrow> (\<forall>c ctx args. \<exists>v. B c ctx args = Return v)"

definition called :: "'c list \<Rightarrow> data \<Rightarrow> ('c \<times> dval \<times> dval list) list" where
  "called cs d = map (\<lambda>c. (c, fst d, snd d)) cs"

lemma called_simps [simp]: "called [] d = []" "called (c # cs) d = (c, fst d, snd d) # called cs d"
  "called (cs @ cs') d = called cs d @ called cs' d"
  by (simp_all add: called_def)

lemma comp_simps [simp]: "bindc (give a) f w = f a w" "then_do m k w = bindc m (\<lambda>_. k) w"
  "bindc (\<lambda>w. Some (Inr a, g w)) f w = f a (g w)" "bindc (\<lambda>w. Some (Inl e, g w)) f w = Some (Inl e, g w)"
  by (simp_all add: bindc_def give_def then_do_def)

lemma bindc_run: "m w = Some (Inr a, w1) \<Longrightarrow> bindc m f w = f a w1"
  by (simp add: bindc_def)

lemma upd_list_simps [simp]:
  "l < length (jw_lists w) \<Longrightarrow> jw_lists (upd_list l f w) ! l = f (jw_lists w ! l)"
  "length (jw_lists (upd_list l f w)) = length (jw_lists w)" "jw_calls (upd_list l f w) = jw_calls w"
  "jw_deferreds (upd_list l f w) = jw_deferreds w" "jw_whens (upd_list l f w) = jw_whens w"
  "upd_list l f (upd_list l g w) = upd_list l (\<lambda>c. f (g c)) w"
  by (auto simp: upd_list_def) (cases "l < length (jw_lists w)", auto simp: list_update_beyond)

lemma user_call:
  assumes "inert B"
  shows "\<exists>v. exec_fn B F (User c) ctx args w = Some (Inr v, w\<lparr>jw_calls := jw_calls w @ [(c, ctx, args)]\<rparr>)"
proof -
  obtain v where "B c ctx args = Return v" using assms unfolding inert_def by blast
  then show ?thesis by (simp add: exec_fn_def give_def)
qed

lemma loop_users:
  assumes "inert B" "l < length (jw_lists w)" "cb_list (jw_lists w ! l) = Some fs" "drop i fs = map User cs" "i \<le> length fs"
    "cb_index (jw_lists w ! l) = int i" "cb_length (jw_lists w ! l) = int (length fs)"
    "\<not> co_stopOnFalse (cb_options (jw_lists w ! l))" "length cs < n"
  shows "fire_loop B n l d w = Some (Inr (), (upd_list l (\<lambda>c. c\<lparr>cb_index := int (length fs)\<rparr>) w)
    \<lparr>jw_calls := jw_calls w @ called cs d\<rparr>)"
  using assms(2-)
proof (induction cs arbitrary: i w n)
  case Nil
  then obtain m where m: "n = Suc m" by (cases n) auto
  from Nil have i: "i = length fs" by simp
  have "(jw_lists w ! l)\<lparr>cb_index := int (length fs)\<rparr> = jw_lists w ! l"
    using Nil.prems(5) i by simp
  then have "upd_list l (\<lambda>c. c\<lparr>cb_index := int (length fs)\<rparr>) w = w"
    by (simp add: upd_list_def)
  with Nil i m show ?case by (simp add: Let_def give_def)
next
  case (Cons c cs)
  obtain m where m: "n = Suc m" using Cons.prems(8) by (cases n) auto
  have i: "i < length fs" using Cons.prems(3) by (metis drop_all list.distinct(1) list.simps(9) not_less)
  then have f: "fs ! i = User c" "drop (Suc i) fs = map User cs"
    using Cons.prems(3) by (metis Cons_nth_drop_Suc list.inject list.simps(9))+
  let ?w1 = "w\<lparr>jw_calls := jw_calls w @ [(c, fst d, snd d)]\<rparr>"
  obtain v where v: "exec_fn B (\<lambda>l d w. cb_fire B m l d w) (User c) (fst d) (snd d) w = Some (Inr v, ?w1)"
    using user_call [OF assms(1)] by blast
  let ?w2 = "upd_list l (\<lambda>c. c\<lparr>cb_index := cb_index c + 1\<rparr>) ?w1"
  have step: "fire_loop B n l d w = fire_loop B m l d ?w2"
    using Cons.prems i f(1) v unfolding m by (simp add: Let_def bindc_def)
  have "fire_loop B m l d ?w2 = Some (Inr (), (upd_list l (\<lambda>c. c\<lparr>cb_index := int (length fs)\<rparr>) ?w2)
      \<lparr>jw_calls := jw_calls ?w2 @ called cs d\<rparr>)"
    using Cons.prems m f(2) i by (intro Cons.IH [of _ "Suc i"]) (simp_all add: upd_list_def)
  then show ?case unfolding step using Cons.prems(1) by (simp add: upd_list_def)
qed

text \<open>One firing of a list with memory, from its start on: every function is called once, in order, and the list
  is emptied when it is a list for one firing only.\<close>

definition after_fire :: "data \<Rightarrow> 'c fn list \<Rightarrow> 'c cbs \<Rightarrow> 'c cbs" where
  "after_fire d fs c =
     c\<lparr>cb_memory := Some d, cb_fired := True, cb_firing := False, cb_start := 0, cb_length := int (length fs),
       cb_index := int (length fs), cb_list := Some (if cb_stack c = None then [] else fs)\<rparr>"

lemma same_update: "c = c' \<Longrightarrow> cs[l := c] = cs[l := c']"
  by simp

lemmas same_world = jworld.equality same_update cbs.equality

lemma fire_users:
  assumes "inert B" "l < length (jw_lists w)" "cb_list (jw_lists w ! l) = Some fs" "cb_start (jw_lists w ! l) = i"
    "drop i fs = map User cs" "i \<le> length fs" "co_memory (cb_options (jw_lists w ! l))"
    "\<not> co_stopOnFalse (cb_options (jw_lists w ! l))" "cb_stack (jw_lists w ! l) \<in> {None, Some []}" "Suc (length cs) < n"
  shows "cb_fire B n l d w = Some (Inr (), (upd_list l (after_fire d fs) w)\<lparr>jw_calls := jw_calls w @ called cs d\<rparr>)"
proof -
  obtain m where m: "n = Suc m" using assms(10) by (cases n) auto
  let ?w0 = "upd_list l (fire_setup d) w"
  have "fire_loop B m l d ?w0 = Some (Inr (), (upd_list l (\<lambda>c. c\<lparr>cb_index := int (length fs)\<rparr>) ?w0)
      \<lparr>jw_calls := jw_calls ?w0 @ called cs d\<rparr>)"
    using assms m by (intro loop_users [where i = i]) (simp_all add: fire_setup_def)
  then show ?thesis
    using assms unfolding m
    by (auto simp: bindc_def give_def fire_end_def Let_def upd_list_def fire_setup_def after_fire_def
        intro!: same_world split: option.splits list.splits)
qed

lemma push_users [simp]: "push_args False (map (\<lambda>c. Fn (User c)) cs) fs = fs @ map User cs"
  by (induction cs arbitrary: fs) auto

section \<open>What a deferred promises\<close>

text \<open>
  A promise is pending, or it was settled once, with a value and whether it succeeded. \<open>True\<close> stands for
  \<open>done\<close> and \<open>resolve\<close>, \<open>False\<close> for \<open>fail\<close> and \<open>reject\<close>.
\<close>

record 'c promise =
  p_settled :: "(bool \<times> data) option"
  p_waiting :: "bool \<Rightarrow> 'c list"
  p_progress :: "'c list"
  p_note :: "data option"
  p_calls :: "('c \<times> dval \<times> dval list) list"

datatype 'c dop = Attach bool "'c list" | Progress "'c list" | Settle bool data | Notify data

definition p_step :: "'c dop \<Rightarrow> 'c promise \<Rightarrow> 'c promise" where
  "p_step op p =
     (case op of
        Attach ok cs \<Rightarrow>
          (case p_settled p of
             None \<Rightarrow> p\<lparr>p_waiting := (p_waiting p)(ok := p_waiting p ok @ cs)\<rparr>
           | Some (ok', d) \<Rightarrow> if ok = ok' then p\<lparr>p_calls := p_calls p @ called cs d\<rparr> else p)
      | Progress cs \<Rightarrow>
          p\<lparr>p_progress := (if p_settled p = None then p_progress p @ cs else p_progress p),
            p_calls := p_calls p @ (case p_note p of Some d \<Rightarrow> called cs d | None \<Rightarrow> [])\<rparr>
      | Settle ok d \<Rightarrow>
          if p_settled p = None then p\<lparr>p_settled := Some (ok, d), p_calls := p_calls p @ called (p_waiting p ok) d\<rparr> else p
      | Notify d \<Rightarrow>
          if p_settled p = None then p\<lparr>p_note := Some d, p_calls := p_calls p @ called (p_progress p) d\<rparr> else p)"

definition side :: "bool \<Rightarrow> nat" where
  "side ok = (if ok then 0 else 1)"

text \<open>The same operation on the deferred \<open>k\<close>.\<close>

definition d_step :: "'c firer \<Rightarrow> nat \<Rightarrow> 'c dop \<Rightarrow> ('c, unit) comp" where
  "d_step fire k op =
     (case op of
        Attach ok cs \<Rightarrow> d_add fire k (side ok) (map (\<lambda>c. Fn (User c)) cs)
      | Progress cs \<Rightarrow> d_add fire k 2 (map (\<lambda>c. Fn (User c)) cs)
      | Settle ok d \<Rightarrow> d_fireWith fire k (side ok) (fst d) (snd d)
      | Notify d \<Rightarrow> d_fireWith fire k 2 (fst d) (snd d))"

primrec d_steps :: "'c firer \<Rightarrow> nat \<Rightarrow> 'c dop list \<Rightarrow> ('c, unit) comp" where
  "d_steps fire k [] = give ()"
| "d_steps fire k (op # ops) = then_do (d_step fire k op) (d_steps fire k ops)"

section \<open>The lists of a deferred\<close>

definition quiet :: "'c cbs \<Rightarrow> bool" where
  "quiet c \<longleftrightarrow> \<not> cb_firing c \<and> cb_start c = 0 \<and> co_memory (cb_options c) \<and> \<not> co_stopOnFalse (cb_options c)
     \<and> \<not> co_unique (cb_options c)"

definition heads :: "nat \<Rightarrow> nat \<Rightarrow> bool \<Rightarrow> 'c fn list" where
  "heads k n ok = [SetState k (if ok then ''resolved'' else ''rejected''), DisableL (n + side (\<not> ok)), LockL (n + 2)]"

definition waits :: "nat \<Rightarrow> nat \<Rightarrow> bool \<Rightarrow> 'c list \<Rightarrow> 'c cbs \<Rightarrow> bool" where
  "waits k n ok cs c \<longleftrightarrow> quiet c \<and> cb_list c = Some (heads k n ok @ map User cs) \<and> cb_memory c = None \<and> \<not> cb_fired c
     \<and> cb_stack c = None"

definition settled :: "data \<Rightarrow> 'c cbs \<Rightarrow> bool" where
  "settled d c \<longleftrightarrow> quiet c \<and> cb_list c = Some [] \<and> cb_memory c = Some d \<and> cb_fired c \<and> cb_stack c = None"

definition notifying :: "'c list \<Rightarrow> data option \<Rightarrow> 'c cbs \<Rightarrow> bool" where
  "notifying cs note c \<longleftrightarrow> quiet c \<and> cb_list c = Some (map User cs) \<and> cb_memory c = note \<and> cb_stack c = Some []
     \<and> (note \<noteq> None \<longrightarrow> cb_fired c)"

definition locked :: "data option \<Rightarrow> 'c cbs \<Rightarrow> bool" where
  "locked note c \<longleftrightarrow>
     (case note of
        None \<Rightarrow> cb_list c = None
      | Some d \<Rightarrow> quiet c \<and> cb_list c \<noteq> None \<and> cb_memory c = Some d \<and> cb_fired c \<and> cb_stack c = None)"

definition deferred_ok :: "nat \<Rightarrow> nat \<Rightarrow> 'c jworld \<Rightarrow> 'c promise \<Rightarrow> bool" where
  "deferred_ok k n w p \<longleftrightarrow>
     k < length (jw_deferreds w) \<and> n + 2 < length (jw_lists w) \<and> df_lists (jw_deferreds w ! k) = [n, n + 1, n + 2]
     \<and> jw_calls w = p_calls p
     \<and> (case p_settled p of
          None \<Rightarrow> df_state (jw_deferreds w ! k) = ''pending'' \<and> (\<forall>ok. waits k n ok (p_waiting p ok) (jw_lists w ! (n + side ok)))
            \<and> notifying (p_progress p) (p_note p) (jw_lists w ! (n + 2))
        | Some (ok, d) \<Rightarrow> df_state (jw_deferreds w ! k) = (if ok then ''resolved'' else ''rejected'')
            \<and> settled d (jw_lists w ! (n + side ok)) \<and> cb_list (jw_lists w ! (n + side (\<not> ok))) = None
            \<and> locked (p_note p) (jw_lists w ! (n + 2)))"

lemmas deferred_defs = deferred_ok_def quiet_def waits_def settled_def notifying_def locked_def

definition new_promise :: "('c \<times> dval \<times> dval list) list \<Rightarrow> 'c promise" where
  "new_promise calls = \<lparr>p_settled = None, p_waiting = (\<lambda>ok. []), p_progress = [], p_note = None, p_calls = calls\<rparr>"

lemma new_Deferred_ok:
  assumes "new_Deferred w = (k, w')"
  shows "deferred_ok k (length (jw_lists w)) w' (new_promise (jw_calls w))"
  using assms
  by (auto simp: deferred_defs new_promise_def new_Deferred_def Let_def nth_append tuples_def new_Callbacks_def
      once_memory_def memory_only_def heads_def side_def)

lemma side_simps [simp]: "side True = 0" "side False = 1"
  by (simp_all add: side_def)

lemma df_list_ok:
  assumes "deferred_ok k n w p"
  shows "df_list k (side ok) w = n + side ok" "n + side ok < length (jw_lists w)"
  using assms by (auto simp: deferred_ok_def df_list_def side_def)

lemma df_list_note:
  assumes "deferred_ok k n w p"
  shows "df_list k 2 w = n + 2" "n + 2 < length (jw_lists w)"
  using assms by (auto simp: deferred_ok_def df_list_def)

lemma attach_ok:
  assumes "inert B" "deferred_ok k n w p" "Suc (length cs) < N"
  shows "\<exists>w'. d_step (cb_fire B N) k (Attach ok cs) w = Some (Inr (), w') \<and> deferred_ok k n w' (p_step (Attach ok cs) p)"
proof (cases "p_settled p")
  case None
  let ?l = "n + side ok"
  let ?w1 = "upd_list ?l (\<lambda>c. c\<lparr>cb_list := Some (heads k n ok @ map User (p_waiting p ok) @ map User cs)\<rparr>) w"
  have old: "waits k n ok (p_waiting p ok) (jw_lists w ! ?l)" "?l < length (jw_lists w)"
    using assms(2) None df_list_ok(2) [OF assms(2), of ok] by (auto simp: deferred_ok_def)
  then have "d_step (cb_fire B N) k (Attach ok cs) w = Some (Inr (), ?w1)"
    using df_list_ok(1) [OF assms(2), of ok]
    by (simp add: d_step_def d_add_def cb_add_def Let_def waits_def quiet_def give_def)
  moreover have "deferred_ok k n ?w1 (p_step (Attach ok cs) p)"
    using assms(2) None old by (cases ok) (auto simp: deferred_defs p_step_def upd_list_def all_bool_eq)
  ultimately show ?thesis by blast
next
  case (Some s)
  obtain ok' d where s: "s = (ok', d)" by (cases s)
  let ?l = "n + side ok"
  show ?thesis
  proof (cases "ok = ok'")
    case True
    let ?w1 = "upd_list ?l (\<lambda>c. c\<lparr>cb_start := 0\<rparr>) (upd_list ?l (\<lambda>c. c\<lparr>cb_list := Some (map User cs)\<rparr>) w)"
    have old: "settled d (jw_lists w ! ?l)" "?l < length (jw_lists w)"
      using assms(2) Some s True df_list_ok(2) [OF assms(2), of ok] by (auto simp: deferred_ok_def)
    have "d_step (cb_fire B N) k (Attach ok cs) w = cb_fire B N ?l d ?w1"
      using old df_list_ok(1) [OF assms(2), of ok]
      by (simp add: d_step_def d_add_def cb_add_def Let_def settled_def quiet_def)
    also have "\<dots> = Some (Inr (), (upd_list ?l (after_fire d (map User cs)) ?w1)\<lparr>jw_calls := jw_calls ?w1 @ called cs d\<rparr>)"
      using old assms by (intro fire_users [where i = 0]) (simp_all add: settled_def quiet_def)
    finally show ?thesis
      using assms(2) old Some s True
      by (cases ok; cases "p_note p") (simp_all add: p_step_def deferred_defs upd_list_def after_fire_def)
  next
    case False
    then have "cb_list (jw_lists w ! ?l) = None"
      using assms(2) Some s by (cases ok; cases ok') (auto simp: deferred_ok_def)
    then show ?thesis
      using assms(2) Some s False df_list_ok(1) [OF assms(2), of ok]
      by (simp add: d_step_def d_add_def cb_add_def give_def Let_def p_step_def)
  qed
qed

lemma other_side [simp]: "cs[n + 2 := c] ! (n + side ok) = cs ! (n + side ok)"
  by (cases ok) auto

lemma note_changed:
  assumes "deferred_ok k n w p" "jw_lists w' = (jw_lists w)[n + 2 := c]" "jw_deferreds w' = jw_deferreds w"
    "jw_calls w' = p_calls p'" "p_settled p' = p_settled p" "p_waiting p' = p_waiting p"
    "if p_settled p = None then notifying (p_progress p') (p_note p') c else locked (p_note p') c"
  shows "deferred_ok k n w' p'"
proof -
  have "cs[n + 2 := c] ! (n + side ok) = cs ! (n + side ok)" for cs and ok by (rule other_side)
  then show ?thesis using assms unfolding deferred_ok_def by (auto simp del: add_2_eq_Suc' split: option.splits)
qed

lemma progress_ok:
  assumes "inert B" "deferred_ok k n w p" "Suc (length cs) < N"
  shows "\<exists>w'. d_step (cb_fire B N) k (Progress cs) w = Some (Inr (), w') \<and> deferred_ok k n w' (p_step (Progress cs) p)"
proof -
  let ?l = "n + 2"
  let ?c = "jw_lists w ! ?l"
  note l = df_list_note [OF assms(2)]
  have step: "d_step (cb_fire B N) k (Progress cs) w = cb_add (cb_fire B N) ?l (map (\<lambda>c. Fn (User c)) cs) w"
    using l by (simp add: d_step_def d_add_def)
  show ?thesis
  proof (cases "cb_list ?c")
    case None
    then have "p_note p = None \<and> p_settled p \<noteq> None"
      using assms(2) by (auto simp: deferred_defs split: option.splits prod.splits)
    then show ?thesis using None assms(2) unfolding step by (auto simp: cb_add_def give_def p_step_def)
  next
    case (Some fs)
    have c: "quiet ?c" "cb_memory ?c = p_note p" "cb_stack ?c \<in> {None, Some []}"
        "p_settled p = None \<longrightarrow> fs = map User (p_progress p)" "p_settled p = None \<longleftrightarrow> cb_stack ?c \<noteq> None"
      using assms(2) Some by (auto simp: deferred_ok_def notifying_def locked_def split: option.splits prod.splits)
    let ?w1 = "upd_list ?l (\<lambda>c. c\<lparr>cb_list := Some (fs @ map User cs)\<rparr>) w"
    show ?thesis
    proof (cases "p_note p")
      case None
      then have "d_step (cb_fire B N) k (Progress cs) w = Some (Inr (), ?w1)"
        using c Some unfolding step by (simp add: cb_add_def Let_def quiet_def give_def)
      moreover have "deferred_ok k n ?w1 (p_step (Progress cs) p)"
        using None Some c l assms(2)
        by (intro note_changed [OF assms(2), of _ "?c\<lparr>cb_list := Some (fs @ map User cs)\<rparr>"])
          (auto simp: p_step_def upd_list_def notifying_def locked_def quiet_def deferred_ok_def)
      ultimately show ?thesis by blast
    next
      case noted: (Some d)
      let ?w2 = "upd_list ?l (\<lambda>c. c\<lparr>cb_start := length fs\<rparr>) ?w1"
      have "d_step (cb_fire B N) k (Progress cs) w = cb_fire B N ?l d ?w2"
        using c Some noted unfolding step by (simp add: cb_add_def Let_def quiet_def)
      also have "\<dots> = Some (Inr (), (upd_list ?l (after_fire d (fs @ map User cs)) ?w2)\<lparr>jw_calls := jw_calls ?w2 @ called cs d\<rparr>)"
        using c l assms by (intro fire_users [where i = "length fs"]) (simp_all add: quiet_def)
      finally have "d_step (cb_fire B N) k (Progress cs) w = \<dots>" .
      moreover have "deferred_ok k n ((upd_list ?l (after_fire d (fs @ map User cs)) ?w2)\<lparr>jw_calls := jw_calls ?w2 @ called cs d\<rparr>)
          (p_step (Progress cs) p)"
        using noted Some c l assms(2)
        by (intro note_changed [OF assms(2), of _
              "after_fire d (fs @ map User cs) (?c\<lparr>cb_list := Some (fs @ map User cs), cb_start := length fs\<rparr>)"])
          (auto simp: p_step_def upd_list_def notifying_def locked_def quiet_def deferred_ok_def after_fire_def)
      ultimately show ?thesis by blast
    qed
  qed
qed

lemma notify_ok:
  assumes "inert B" "deferred_ok k n w p" "Suc (length (p_progress p)) < N"
  shows "\<exists>w'. d_step (cb_fire B N) k (Notify d) w = Some (Inr (), w') \<and> deferred_ok k n w' (p_step (Notify d) p)"
proof -
  let ?l = "n + 2"
  let ?c = "jw_lists w ! ?l"
  note l = df_list_note [OF assms(2)]
  have step: "d_step (cb_fire B N) k (Notify d) w = cb_fireWith (cb_fire B N) ?l d w"
    using l by (simp add: d_step_def d_fireWith_def)
  show ?thesis
  proof (cases "p_settled p")
    case None
    then have c: "notifying (p_progress p) (p_note p) ?c" using assms(2) by (simp add: deferred_ok_def)
    let ?w1 = "(upd_list ?l (after_fire d (map User (p_progress p))) w)\<lparr>jw_calls := jw_calls w @ called (p_progress p) d\<rparr>"
    have "d_step (cb_fire B N) k (Notify d) w = cb_fire B N ?l d w"
      using c unfolding step by (simp add: cb_fireWith_def Let_def notifying_def quiet_def)
    also have "\<dots> = Some (Inr (), ?w1)"
      using c l assms by (intro fire_users [where i = 0]) (simp_all add: notifying_def quiet_def)
    finally have "d_step (cb_fire B N) k (Notify d) w = Some (Inr (), ?w1)" .
    moreover have "deferred_ok k n ?w1 (p_step (Notify d) p)"
      using None c l assms(2)
      by (intro note_changed [OF assms(2), of _ "after_fire d (map User (p_progress p)) ?c"])
        (auto simp: p_step_def upd_list_def notifying_def quiet_def deferred_ok_def after_fire_def)
    ultimately show ?thesis by blast
  next
    case (Some s)
    then have "locked (p_note p) ?c" using assms(2) by (auto simp: deferred_ok_def split: prod.splits)
    then have "d_step (cb_fire B N) k (Notify d) w = Some (Inr (), w)"
      unfolding step by (auto simp: cb_fireWith_def Let_def locked_def give_def split: option.splits)
    then show ?thesis using assms(2) Some by (simp add: p_step_def)
  qed
qed

lemma loop_step:
  assumes "cb_list (jw_lists w ! l) = Some fs" "cb_index (jw_lists w ! l) = int i" "cb_length (jw_lists w ! l) = int (length fs)"
    "\<not> co_stopOnFalse (cb_options (jw_lists w ! l))" "i < length fs"
    "exec_fn B (cb_fire B m) (fs ! i) (fst d) (snd d) w = Some (Inr r, w1)"
  shows "fire_loop B (Suc m) l d w = fire_loop B m l d (upd_list l (\<lambda>c. c\<lparr>cb_index := cb_index c + 1\<rparr>) w1)"
  using assms by (simp add: Let_def bindc_def)

text \<open>The three functions that a deferred starts with.\<close>

definition close_others :: "nat \<Rightarrow> nat \<Rightarrow> bool \<Rightarrow> 'c jworld \<Rightarrow> 'c jworld" where
  "close_others k n ok w =
     upd_list (n + 2) cb_lock (upd_list (n + side (\<not> ok)) cb_disable
       (w\<lparr>jw_deferreds := (jw_deferreds w)[k := (jw_deferreds w ! k)\<lparr>df_state := (if ok then ''resolved'' else ''rejected'')\<rparr>]\<rparr>))"

lemma sides_differ [simp]: "n + side (\<not> ok) \<noteq> n + side ok" "n + 2 \<noteq> n + side ok"
  by (cases ok; simp)+

lemma upd_list_other [simp]: "l \<noteq> l' \<Longrightarrow> jw_lists (upd_list l' f w) ! l = jw_lists w ! l"
  by (simp add: upd_list_def)

lemma update_over: "i \<noteq> j \<Longrightarrow> xs[i := a, j := b, i := c] = xs[j := b, i := c]"
  by (metis list_update_overwrite list_update_swap)

lemma heads_run:
  assumes "n + 2 < length (jw_lists w)" "l = n + side ok" "cb_list (jw_lists w ! l) = Some fs" "fs = heads k n ok @ gs"
    "cb_index (jw_lists w ! l) = 0" "cb_length (jw_lists w ! l) = int (length fs)"
    "\<not> co_stopOnFalse (cb_options (jw_lists w ! l))"
  shows "fire_loop B (Suc (Suc (Suc m))) l d w = fire_loop B m l d (close_others k n ok (upd_list l (\<lambda>c. c\<lparr>cb_index := 3\<rparr>) w))"
proof -
  have l: "l < length (jw_lists w)" using assms(1,2) by (cases ok) auto
  let ?next = "\<lambda>w. upd_list l (\<lambda>c. c\<lparr>cb_index := cb_index c + 1\<rparr>) w"
  let ?w1 = "w\<lparr>jw_deferreds := (jw_deferreds w)[k := (jw_deferreds w ! k)\<lparr>df_state := (if ok then ''resolved'' else ''rejected'')\<rparr>]\<rparr>"
  let ?w2 = "upd_list (n + side (\<not> ok)) cb_disable (?next ?w1)"
  let ?w3 = "upd_list (n + 2) cb_lock (?next ?w2)"
  have ne: "l \<noteq> n + side (\<not> ok)" "l \<noteq> n + 2" using assms(2) by (cases ok; simp)+
  have "fire_loop B (Suc (Suc (Suc m))) l d w = fire_loop B (Suc (Suc m)) l d (?next ?w1)"
    using assms by (intro loop_step [where i = 0]) (auto simp: heads_def exec_fn_def give_def)
  also have "\<dots> = fire_loop B (Suc m) l d (?next ?w2)"
    using assms l by (intro loop_step [where i = 1]) (auto simp: heads_def exec_fn_def give_def modify_def bindc_def)
  also have "\<dots> = fire_loop B m l d (?next ?w3)"
    using assms l ne by (intro loop_step [where i = 2]) (auto simp: heads_def exec_fn_def give_def modify_def bindc_def)
  also have "?next ?w3 = close_others k n ok (upd_list l (\<lambda>c. c\<lparr>cb_index := 3\<rparr>) w)"
    using assms l ne unfolding close_others_def upd_list_def by (cases ok) (simp_all add: list_update_swap update_over)
  finally show ?thesis .
qed

lemma length_heads [simp]: "length (heads k n ok) = 3"
  by (simp add: heads_def)

lemma settle_fire:
  assumes "inert B" "n + 2 < length (jw_lists w)" "l = n + side ok" "waits k n ok cs (jw_lists w ! l)" "length cs + 4 < N"
  shows "cb_fire B N l d w = Some (Inr (), (upd_list l (after_fire d (heads k n ok @ map User cs)) (close_others k n ok w))
    \<lparr>jw_calls := jw_calls w @ called cs d\<rparr>)"
proof -
  obtain m where m: "N = Suc (Suc (Suc (Suc m)))"
    using assms(5) by (metis add.commute add_less_cancel_right less_imp_Suc_add numeral_eq_Suc pred_numeral_simps add_Suc_right
      add_Suc plus_nat.add_0 eval_nat_numeral semiring_norm(26,27))
  have l: "l < length (jw_lists w)" "l \<noteq> n + side (\<not> ok)" "l \<noteq> n + 2" using assms(2,3) by (cases ok; simp)+
  let ?fs = "heads k n ok @ map User cs"
  let ?w0 = "upd_list l (fire_setup d) w"
  let ?w3 = "close_others k n ok (upd_list l (\<lambda>c. c\<lparr>cb_index := 3\<rparr>) ?w0)"

  have w3: "l < length (jw_lists ?w3)" "cb_list (jw_lists ?w3 ! l) = Some ?fs" "cb_index (jw_lists ?w3 ! l) = 3"
      "cb_length (jw_lists ?w3 ! l) = int (length ?fs)" "\<not> co_stopOnFalse (cb_options (jw_lists ?w3 ! l))"
    using assms(4) l by (auto simp: close_others_def waits_def quiet_def fire_setup_def)
  have "fire_loop B (Suc (Suc (Suc m))) l d ?w0 = fire_loop B m l d ?w3"
    using assms l by (intro heads_run [where fs = ?fs and gs = "map User cs"]) (auto simp: waits_def quiet_def fire_setup_def)
  also have "\<dots> = Some (Inr (), (upd_list l (\<lambda>c. c\<lparr>cb_index := int (length ?fs)\<rparr>) ?w3)\<lparr>jw_calls := jw_calls ?w3 @ called cs d\<rparr>)"
    using assms(1,5) m w3 by (intro loop_users [where i = 3]) auto
  finally show ?thesis
    using assms l unfolding m
    by (cases ok) (auto simp: bindc_def give_def fire_end_def Let_def upd_list_def fire_setup_def after_fire_def close_others_def
        waits_def quiet_def list_update_swap intro!: same_world)
qed

lemma settle_ok:
  assumes "inert B" "deferred_ok k n w p" "length (p_waiting p ok) + 4 < N"
  shows "\<exists>w'. d_step (cb_fire B N) k (Settle ok d) w = Some (Inr (), w') \<and> deferred_ok k n w' (p_step (Settle ok d) p)"
proof -
  let ?l = "n + side ok"
  let ?c = "jw_lists w ! ?l"
  note l = df_list_ok [OF assms(2), of ok] df_list_note [OF assms(2)]
  have step: "d_step (cb_fire B N) k (Settle ok d) w = cb_fireWith (cb_fire B N) ?l d w"
    using l by (simp add: d_step_def d_fireWith_def)
  show ?thesis
  proof (cases "p_settled p")
    case None
    let ?w1 = "(upd_list ?l (after_fire d (heads k n ok @ map User (p_waiting p ok))) (close_others k n ok w))
      \<lparr>jw_calls := jw_calls w @ called (p_waiting p ok) d\<rparr>"
    have c: "waits k n ok (p_waiting p ok) ?c" "notifying (p_progress p) (p_note p) (jw_lists w ! (n + 2))"
      using None assms(2) by (simp_all add: deferred_ok_def)
    have "d_step (cb_fire B N) k (Settle ok d) w = cb_fire B N ?l d w"
      using c(1) unfolding step by (simp add: cb_fireWith_def Let_def waits_def quiet_def)
    also have "\<dots> = Some (Inr (), ?w1)"
      using c(1) l assms by (intro settle_fire) simp_all
    finally have "d_step (cb_fire B N) k (Settle ok d) w = Some (Inr (), ?w1)" .
    moreover have "deferred_ok k n ?w1 (p_step (Settle ok d) p)"
      using None c l(4) assms(2)
      by (cases ok; cases "p_note p")
        (simp_all add: p_step_def upd_list_def close_others_def deferred_defs after_fire_def cb_disable_def cb_lock_def)
    ultimately show ?thesis by blast
  next
    case (Some s)
    then have "cb_list ?c = None \<or> cb_fired ?c \<and> cb_stack ?c = None"
      using assms(2) by (cases ok) (auto simp: deferred_ok_def settled_def split: prod.splits if_splits)
    then have "d_step (cb_fire B N) k (Settle ok d) w = Some (Inr (), w)"
      unfolding step by (auto simp: cb_fireWith_def Let_def give_def)
    then show ?thesis using assms(2) Some by (simp add: p_step_def)
  qed
qed

section \<open>Refinement\<close>

definition op_size :: "'c dop \<Rightarrow> nat" where
  "op_size op = (case op of Attach _ cs \<Rightarrow> length cs | Progress cs \<Rightarrow> length cs | _ \<Rightarrow> 0)"

definition p_size :: "'c promise \<Rightarrow> nat" where
  "p_size p = length (p_waiting p True) + length (p_waiting p False) + length (p_progress p)"

lemma p_size_step: "p_size (p_step op p) \<le> p_size p + op_size op"
  by (auto simp: p_size_def p_step_def op_size_def split: dop.splits option.splits)

lemma d_step_ok:
  assumes "inert B" "deferred_ok k n w p" "p_size p + op_size op + 4 < N"
  shows "\<exists>w'. d_step (cb_fire B N) k op w = Some (Inr (), w') \<and> deferred_ok k n w' (p_step op p)"
proof (cases op)
  case (Attach ok cs)
  with assms show ?thesis by (auto simp: op_size_def intro!: attach_ok)
next
  case (Progress cs)
  with assms show ?thesis by (auto simp: op_size_def intro!: progress_ok)
next
  case (Settle ok d)
  with assms show ?thesis by (cases ok) (auto simp: p_size_def intro!: settle_ok)
next
  case (Notify d)
  with assms show ?thesis by (auto simp: p_size_def intro!: notify_ok)
qed

lemma d_steps_ok:
  assumes "inert B" "deferred_ok k n w p" "p_size p + sum_list (map op_size ops) + 4 < N"
  shows "\<exists>w'. d_steps (cb_fire B N) k ops w = Some (Inr (), w') \<and> deferred_ok k n w' (fold p_step ops p)"
  using assms(2,3)
proof (induction ops arbitrary: w p)
  case Nil
  then show ?case by (simp add: give_def)
next
  case (Cons op ops)
  then obtain w1 where w1: "d_step (cb_fire B N) k op w = Some (Inr (), w1)" "deferred_ok k n w1 (p_step op p)"
    using d_step_ok [OF assms(1), of k n w p op N] by auto
  moreover have "p_size (p_step op p) + sum_list (map op_size ops) + 4 < N"
    using p_size_step [of op p] Cons.prems(2) by simp
  ultimately show ?case using Cons.IH by (simp add: bindc_def)
qed

definition state_name :: "'c promise \<Rightarrow> string" where
  "state_name p = (case p_settled p of None \<Rightarrow> ''pending'' | Some (ok, _) \<Rightarrow> if ok then ''resolved'' else ''rejected'')"

text \<open>C4: A deferred built from three callback lists is a promise: after any sequence of \<open>done\<close>, \<open>fail\<close>,
  \<open>progress\<close>, \<open>resolve\<close>, \<open>reject\<close> and \<open>notify\<close>, in any order and with any callbacks that do not
  themselves operate on lists, nothing was raised, the state is the one of the first settlement (later
  ones do nothing), and the callbacks were called exactly as often, in the order and with the arguments that
  the abstract promise says. Every firing ends within the number of callbacks attached plus five.\<close>

theorem deferred_is_promise:
  assumes "inert B" "new_Deferred w = (k, w1)" "sum_list (map op_size ops) + 4 < N"
  shows "\<exists>w'. d_steps (cb_fire B N) k ops w1 = Some (Inr (), w')
    \<and> jw_calls w' = p_calls (fold p_step ops (new_promise (jw_calls w)))
    \<and> df_state (jw_deferreds w' ! k) = state_name (fold p_step ops (new_promise (jw_calls w)))"
proof -
  have "p_size (new_promise (jw_calls w)) = 0" by (simp add: p_size_def new_promise_def)
  then obtain w' where "d_steps (cb_fire B N) k ops w1 = Some (Inr (), w')"
      "deferred_ok k (length (jw_lists w)) w' (fold p_step ops (new_promise (jw_calls w)))"
    using d_steps_ok [OF assms(1) new_Deferred_ok [OF assms(2)], of ops N] assms(3) by auto
  then show ?thesis by (auto simp: deferred_ok_def state_name_def split: option.splits prod.splits)
qed

definition idle :: "nat \<Rightarrow> dval \<Rightarrow> dval list \<Rightarrow> nat act" where
  "idle c ctx args = Return DUndef"

definition no_lists :: "nat jworld" where
  "no_lists = \<lparr>jw_lists = [], jw_deferreds = [], jw_whens = [], jw_calls = []\<rparr>"

definition some_ops :: "nat dop list" where
  "some_ops = [Attach True [1], Notify (DUndef, [DFalse]), Progress [2], Settle True (DUndef, []), Settle False (DUndef, []),
     Attach False [3], Attach True [4]]"

lemma idle_inert: "inert idle"
  by (simp add: inert_def idle_def)

theorem deferred_is_promise_witness:
  "\<exists>w'. d_steps (cb_fire idle 9) 0 some_ops (snd (new_Deferred no_lists)) = Some (Inr (), w')
    \<and> jw_calls w' = [(2, DUndef, [DFalse]), (1, DUndef, []), (4, DUndef, [])] \<and> df_state (jw_deferreds w' ! 0) = ''resolved''"
proof -
  have "new_Deferred no_lists = (0, snd (new_Deferred no_lists))" by (simp add: new_Deferred_def Let_def no_lists_def)
  from deferred_is_promise [OF idle_inert this, of some_ops 9] show ?thesis
    by (simp add: some_ops_def op_size_def p_step_def new_promise_def no_lists_def state_name_def)
qed

section \<open>when without promises\<close>

lemma deferred_ok_whens [simp]: "deferred_ok k n (w\<lparr>jw_whens := x\<rparr>) p = deferred_ok k n w p"
  "deferred_ok k n (upd_when j g w) p = deferred_ok k n w p"
  by (simp_all add: deferred_ok_def upd_when_def cong: option.case_cong)

lemma when_loop_plain:
  assumes "\<forall>v \<in> set vs. promise_of v = None"
  shows "when_loop F k m i vs w = give () (upd_when k (\<lambda>r. r\<lparr>wh_remaining := wh_remaining r - int (length vs)\<rparr>) w)"
  using assms
proof (induction vs arbitrary: i w)
  case Nil
  then show ?case by (simp add: upd_when_def give_def)
next
  case (Cons v vs)
  have "upd_when k f (upd_when k g w) = upd_when k (\<lambda>r. f (g r)) w" for f g
    by (cases "k < length (jw_whens w)") (simp_all add: upd_when_def list_update_beyond)
  with Cons show ?case by (simp add: algebra_simps)
qed

definition when_context :: "dval list \<Rightarrow> dval" where
  "when_context subs = (if length subs > 1 then DArr (replicate (length subs) DUndef) else DUndef)"

text \<open>\<open>when\<close> of values that are not promises, of any number, resolves its promise at once with all the values:
  nothing is called before, and every \<open>done\<close> callback attached later is called with the values as its arguments.\<close>

theorem when_plain_values:
  assumes "inert B" "\<forall>v \<in> set subs. promise_of v = None" "Suc (length cs) < N" "4 < N"
  shows "\<exists>m w1 w2. d_when (cb_fire B N) subs w = Some (Inr (DProm m), w1) \<and> df_state (jw_deferreds w1 ! m) = ''resolved''
    \<and> jw_calls w1 = jw_calls w \<and> d_step (cb_fire B N) m (Attach True cs) w1 = Some (Inr (), w2)
    \<and> jw_calls w2 = jw_calls w @ called cs (when_context subs, subs)"
proof -
  let ?len = "length subs" and ?n = "length (jw_lists w)"
  have single: "(case subs of [v] \<Rightarrow> promise_of v | _ \<Rightarrow> None) = None"
    using assms(2) by (auto split: list.splits)
  obtain m w1 where new: "new_Deferred w = (m, w1)" by (cases "new_Deferred w")
  let ?k = "length (jw_whens w1)"
  let ?r = "\<lambda>rem. \<lparr>wh_deferred = m, wh_remaining = rem, wh_contexts = replicate ?len DUndef, wh_values = subs,
      wh_pcontexts = replicate ?len DUndef, wh_pvalues = replicate ?len DUndef\<rparr>"
  let ?w3 = "w1\<lparr>jw_whens := jw_whens w1 @ [?r 0]\<rparr>"
  let ?p = "new_promise (jw_calls w)"
  have p3: "deferred_ok m ?n ?w3 ?p" using new_Deferred_ok [OF new] by simp
  consider "?len = 0" | "?len = 1" | "?len > 1" by linarith
  then have "d_when (cb_fire B N) subs w =
      then_do (d_step (cb_fire B N) m (Settle True (when_context subs, subs))) (give (DProm m)) ?w3"
  proof cases
    case 3
    then have n1: "(?len \<noteq> 1 \<or> single \<noteq> None) = True" for single :: "nat option" by simp
    show ?thesis
      using when_loop_plain [OF assms(2), of "cb_fire B N" ?k m 0] 3
      unfolding d_when_def single n1 Let_def new option.case prod.case
      by (simp add: bindc_def give_def upd_when_def nth_append d_step_def when_context_def list_update_append)
  qed (simp_all add: d_when_def single new Let_def nth_append d_step_def when_context_def)
  moreover obtain w4 where w4: "d_step (cb_fire B N) m (Settle True (when_context subs, subs)) ?w3 = Some (Inr (), w4)"
      "deferred_ok m ?n w4 (p_step (Settle True (when_context subs, subs)) ?p)"
    using settle_ok [OF assms(1) p3, of True N "(when_context subs, subs)"] assms(4) by (auto simp: new_promise_def)
  moreover obtain w5 where "d_step (cb_fire B N) m (Attach True cs) w4 = Some (Inr (), w5)"
      "deferred_ok m ?n w5 (p_step (Attach True cs) (p_step (Settle True (when_context subs, subs)) ?p))"
    using attach_ok [OF assms(1) w4(2) assms(3), of True] by blast
  ultimately show ?thesis
    by (auto simp: deferred_ok_def p_step_def new_promise_def give_def bindc_def)
qed

theorem when_plain_values_witness:
  "\<exists>m w1 w2. d_when (cb_fire idle 9) [DVal ''a'', DFalse] no_lists = Some (Inr (DProm m), w1) \<and> df_state (jw_deferreds w1 ! m) = ''resolved''
    \<and> jw_calls w1 = [] \<and> d_step (cb_fire idle 9) m (Attach True [7]) w1 = Some (Inr (), w2)
    \<and> jw_calls w2 = [(7, DArr [DUndef, DUndef], [DVal ''a'', DFalse])]"
  using when_plain_values [OF idle_inert, of "[DVal ''a'', DFalse]" "[7]" 9 no_lists]
  by (simp add: promise_of_def no_lists_def when_context_def numeral_2_eq_2)

section \<open>then\<close>

lemma fire_single:
  assumes "n + 2 < length (jw_lists w)" "l = n + side ok" "quiet (jw_lists w ! l)" "cb_stack (jw_lists w ! l) = None"
    "cb_list (jw_lists w ! l) = Some fs" "fs = heads k n ok @ [g]"
    "exec_fn B (cb_fire B (Suc m)) g (fst d) (snd d) (close_others k n ok (upd_list l (\<lambda>c. (fire_setup d c)\<lparr>cb_index := 3\<rparr>) w))
       = Some (Inr r, w4)"
    "jw_lists w4 ! l = (fire_setup d (jw_lists w ! l))\<lparr>cb_index := 3\<rparr>" "length (jw_lists w4) = length (jw_lists w)"
  shows "cb_fire B (Suc (Suc (Suc (Suc (Suc (Suc m)))))) l d w = Some (Inr (), upd_list l (after_fire d fs) w4)"
proof -
  have l: "l < length (jw_lists w)" using assms(1,2) by (cases ok) simp_all
  have ne: "l \<noteq> n + side (\<not> ok)" "l \<noteq> n + 2" using assms(2) by (cases ok; simp)+
  let ?w0 = "upd_list l (fire_setup d) w"
  let ?w3 = "close_others k n ok (upd_list l (\<lambda>c. (fire_setup d c)\<lparr>cb_index := 3\<rparr>) w)"
  have w3: "jw_lists ?w3 ! l = (fire_setup d (jw_lists w ! l))\<lparr>cb_index := 3\<rparr>"
    using l ne by (simp add: close_others_def)
  have c: "cb_list (fire_setup d (jw_lists w ! l)) = Some fs" "cb_length (fire_setup d (jw_lists w ! l)) = int (length fs)"
      "cb_index (fire_setup d (jw_lists w ! l)) = 0" "cb_stack (fire_setup d (jw_lists w ! l)) = None"
      "\<not> co_stopOnFalse (cb_options (fire_setup d (jw_lists w ! l)))" "cb_memory (fire_setup d (jw_lists w ! l)) = Some d"
    using assms(3,4,5) by (simp_all add: fire_setup_def quiet_def)
  have "fire_loop B (Suc (Suc (Suc (Suc (Suc m))))) l d ?w0 = fire_loop B (Suc (Suc m)) l d ?w3"
    using heads_run [of n ?w0 l ok fs k "[g]" B "Suc (Suc m)" d] assms(1,2,6) l c by simp
  also have "\<dots> = fire_loop B (Suc m) l d (upd_list l (\<lambda>c. c\<lparr>cb_index := cb_index c + 1\<rparr>) w4)"
    using w3 c assms(6,7) by (intro loop_step [where i = 3 and fs = fs and r = r]) (simp_all add: nth_append)
  also have "\<dots> = Some (Inr (), upd_list l (\<lambda>c. c\<lparr>cb_index := cb_index c + 1\<rparr>) w4)"
    using assms(6,8,9) l c by (simp add: Let_def give_def)
  finally have loop: "fire_loop B (Suc (Suc (Suc (Suc (Suc m))))) l d ?w0 = \<dots>" .
  show ?thesis
    using l c assms(8,9) unfolding cb_fire.simps(2) bindc_run [where m = "fire_loop B _ _ _", OF loop]
    by (auto simp: fire_end_def Let_def give_def after_fire_def upd_list_def fire_setup_def assms(6) intro!: same_world)
qed

definition link :: "nat \<Rightarrow> nat \<Rightarrow> nat \<Rightarrow> 'c \<Rightarrow> bool \<Rightarrow> 'c fn" where
  "link k e n f ok = (if ok then ThenFn k e 0 f else FireL (n + 1))"

lemma df_list_new: "jw_deferreds w ! k = \<lparr>df_lists = [n, n + 1, n + 2], df_state = s\<rparr> \<Longrightarrow> df_list k (side ok) w = n + side ok"
  by (cases ok) (simp_all add: df_list_def)

lemma add_quiet:
  assumes "quiet (jw_lists w ! l)" "cb_list (jw_lists w ! l) = Some fs" "cb_memory (jw_lists w ! l) = None"
  shows "cb_add F l [Fn g] w = Some (Inr (), upd_list l (\<lambda>c. c\<lparr>cb_list := Some (fs @ [g])\<rparr>) w)"
  using assms by (simp add: cb_add_def Let_def give_def quiet_def)

lemma new_Deferred_frame:
  assumes "new_Deferred w = (k, w')"
  shows "k = length (jw_deferreds w)" "l < length (jw_lists w) \<Longrightarrow> jw_lists w' ! l = jw_lists w ! l"
    "j < length (jw_deferreds w) \<Longrightarrow> jw_deferreds w' ! j = jw_deferreds w ! j" "length (jw_lists w') = length (jw_lists w) + 3"
    "length (jw_deferreds w') = Suc (length (jw_deferreds w))" "jw_calls w' = jw_calls w"
    "jw_deferreds w' ! k = \<lparr>df_lists = [length (jw_lists w), length (jw_lists w) + 1, length (jw_lists w) + 2], df_state = ''pending''\<rparr>"
  using assms by (auto simp: new_Deferred_def Let_def nth_append tuples_def)

lemma then_setup:
  assumes "new_Deferred w = (k, w1)" "n = length (jw_lists w)"
  shows "\<exists>w2. d_then F k (Some f) None None w1 = Some (Inr (DProm (Suc k)), w2)
    \<and> jw_deferreds w2 ! k = \<lparr>df_lists = [n, n + 1, n + 2], df_state = ''pending''\<rparr> \<and> k < length (jw_deferreds w2)
    \<and> jw_calls w2 = jw_calls w
    \<and> (\<forall>ok. quiet (jw_lists w2 ! (n + side ok)) \<and> cb_stack (jw_lists w2 ! (n + side ok)) = None \<and> \<not> cb_fired (jw_lists w2 ! (n + side ok))
          \<and> cb_list (jw_lists w2 ! (n + side ok)) = Some (heads k n ok @ [link k (Suc k) (n + 3) f ok]))
    \<and> deferred_ok (Suc k) (n + 3) w2 (new_promise (jw_calls w))"
proof -
  obtain e w2 where w2: "new_Deferred w1 = (e, w2)" by (cases "new_Deferred w1")
  note f1 = new_Deferred_frame [OF assms(1)] and f2 = new_Deferred_frame [OF w2]
  have e: "e = Suc k" using f1(1,5) f2(1) by simp
  let ?add = "\<lambda>l fs. upd_list l (\<lambda>c. c\<lparr>cb_list := Some fs\<rparr>)"
  let ?w3 = "?add n (heads k n True @ [ThenFn k e 0 f]) w2"
  let ?w4 = "?add (n + 1) (heads k n False @ [FireL (n + 4)]) ?w3"
  let ?w5 = "?add (n + 2) [FireL (n + 5)] ?w4"
  have old: "waits k n ok [] (jw_lists w2 ! (n + side ok))" for ok
  proof -
    have "n + side ok < length (jw_lists w1)" using f1(4) assms(2) by (simp add: side_def)
    then show ?thesis
      using new_Deferred_ok [OF assms(1)] f2(2) assms(2) by (auto simp: deferred_ok_def new_promise_def)
  qed
  have prog: "notifying [] None (jw_lists w2 ! (n + 2))"
    using new_Deferred_ok [OF assms(1)] f2(2) f1(4) assms(2) by (auto simp: deferred_ok_def new_promise_def)
  have lists: "jw_deferreds w2 ! k = \<lparr>df_lists = [n, n + 1, n + 2], df_state = ''pending''\<rparr>"
      "jw_deferreds w2 ! e = \<lparr>df_lists = [n + 3, n + 4, n + 5], df_state = ''pending''\<rparr>" "length (jw_lists w2) = n + 6"
    using f1 f2 assms(2) by simp_all
  have "d_then F k (Some f) None None w1 = Some (Inr (DProm e), ?w5)"
  proof -
    have "cb_add F n [Fn (ThenFn k e 0 f)] w2 = Some (Inr (), ?w3)"
      using old [of True] by (subst add_quiet) (auto simp: waits_def)
    moreover have "cb_add F (n + 1) [Fn (FireL (n + 4))] ?w3 = Some (Inr (), ?w4)"
      using old [of False] lists by (subst add_quiet [where fs = "heads k n False"]) (auto simp: waits_def)
    moreover have "cb_add F (n + 2) [Fn (FireL (n + 5))] ?w4 = Some (Inr (), ?w5)"
      using prog lists by (subst add_quiet [where fs = "[]"]) (auto simp: notifying_def)
    ultimately show ?thesis
      using lists by (simp add: d_then_def w2 Let_def d_add_def df_list_def bindc_def give_def)
  qed
  moreover have "deferred_ok e (n + 3) ?w5 (new_promise (jw_calls w))"
  proof -
    have "n + 3 + side ok \<noteq> n" "n + 3 + side ok \<noteq> n + 1" "n + 3 + side ok \<noteq> n + 2" for ok by simp_all
    then show ?thesis
      using new_Deferred_ok [OF w2] f1(4,6) assms(2) by (simp add: deferred_ok_def new_promise_def add.commute [of _ 3])
  qed
  ultimately show ?thesis
    using old [of True] old [of False] lists f1(1,5) f2(5) unfolding e
    by (auto simp: all_bool_eq waits_def link_def quiet_def upd_list_def f1(6) f2(6))
qed

lemma settle_new:
  assumes "inert B" "deferred_ok e n w (new_promise calls)" "4 < N"
  shows "\<exists>w'. cb_fireWith (cb_fire B N) (n + side ok) d w = Some (Inr (), w')
    \<and> deferred_ok e n w' ((new_promise calls)\<lparr>p_settled := Some (ok, d)\<rparr>) \<and> (\<forall>l < n. jw_lists w' ! l = jw_lists w ! l)
    \<and> length (jw_lists w') = length (jw_lists w) \<and> (\<forall>j. j \<noteq> e \<longrightarrow> jw_deferreds w' ! j = jw_deferreds w ! j)"
proof -
  note l = df_list_ok [OF assms(2), of ok] df_list_note [OF assms(2)]
  let ?l = "n + side ok"
  let ?w1 = "(upd_list ?l (after_fire d (heads e n ok @ map User [])) (close_others e n ok w))\<lparr>jw_calls := jw_calls w @ called [] d\<rparr>"
  have c: "waits e n ok [] (jw_lists w ! ?l)" using assms(2) by (simp add: deferred_ok_def new_promise_def)
  have "d_step (cb_fire B N) e (Settle ok d) w = cb_fire B N ?l d w"
    using c l by (simp add: d_step_def d_fireWith_def cb_fireWith_def Let_def waits_def quiet_def)
  also have "\<dots> = Some (Inr (), ?w1)" using c l assms by (intro settle_fire) simp_all
  finally have run: "d_step (cb_fire B N) e (Settle ok d) w = Some (Inr (), ?w1)" .
  then have "deferred_ok e n ?w1 ((new_promise calls)\<lparr>p_settled := Some (ok, d)\<rparr>)"
    using settle_ok [OF assms(1,2), of ok N d] assms(3) by (simp add: new_promise_def p_step_def)
  moreover have "cb_fireWith (cb_fire B N) ?l d w = Some (Inr (), ?w1)"
    using run l by (simp add: d_step_def d_fireWith_def)
  moreover have "\<forall>l < n. jw_lists ?w1 ! l = jw_lists w ! l" "\<forall>j. j \<noteq> e \<longrightarrow> jw_deferreds ?w1 ! j = jw_deferreds w ! j"
    by (simp_all add: close_others_def)
  ultimately show ?thesis by (intro exI [of _ ?w1]) (simp add: close_others_def)
qed

text \<open>C24: \<open>then\<close> gives a new promise that follows the old one. When the deferred is resolved, the function given
  to \<open>then\<close> is called and what it returns (not a promise) settles the new deferred, with the new deferred as context where the
  old one was the context; when it is rejected and no function was given for that, the rejection passes on
  unchanged. Callbacks of the new promise see exactly this.\<close>

theorem then_follows:
  assumes "inert B" "new_Deferred w = (k, w1)" "B f ctx args = Return v" "promise_of v = None" "12 < N" "Suc (length cs) < N"
  shows "\<exists>w2 w3 w4. d_then (cb_fire B N) k (Some f) None None w1 = Some (Inr (DProm (Suc k)), w2)
    \<and> d_fireWith (cb_fire B N) k (side ok) ctx args w2 = Some (Inr (), w3)
    \<and> df_state (jw_deferreds w3 ! k) = (if ok then ''resolved'' else ''rejected'')
    \<and> df_state (jw_deferreds w3 ! Suc k) = (if ok then ''resolved'' else ''rejected'')
    \<and> d_step (cb_fire B N) (Suc k) (Attach ok cs) w3 = Some (Inr (), w4)
    \<and> jw_calls w4 = jw_calls w @ (if ok then [(f, ctx, args)] else [])
        @ called cs (if ok then (if ctx = DDef k then DDef (Suc k) else ctx, [v]) else (ctx, args))"
proof -
  define n l e where "n = length (jw_lists w)" and "l = n + side ok" and "e = Suc k"
  define d' where "d' = (if ok then (if ctx = DDef k then DDef e else ctx, [v]) else (ctx, args))"
  define calls where "calls = jw_calls w @ (if ok then [(f, ctx, args)] else [])"
  obtain m where m: "N = Suc (Suc (Suc (Suc (Suc (Suc m)))))" "4 < Suc m"
  proof
    show "N = Suc (Suc (Suc (Suc (Suc (Suc (N - 6))))))" "4 < Suc (N - 6)" using assms(5) by simp_all
  qed
  obtain w2 where w2: "d_then (cb_fire B N) k (Some f) None None w1 = Some (Inr (DProm e), w2)"
      "jw_deferreds w2 ! k = \<lparr>df_lists = [n, n + 1, n + 2], df_state = ''pending''\<rparr>" "k < length (jw_deferreds w2)"
      "jw_calls w2 = jw_calls w" "quiet (jw_lists w2 ! l)" "cb_stack (jw_lists w2 ! l) = None" "\<not> cb_fired (jw_lists w2 ! l)"
      "cb_list (jw_lists w2 ! l) = Some (heads k n ok @ [link k e (n + 3) f ok])" "deferred_ok e (n + 3) w2 (new_promise (jw_calls w))"
    using then_setup [OF assms(2) n_def, of "cb_fire B N" f] unfolding l_def e_def by blast
  have l: "l < length (jw_lists w2)" "l < n + 3" "n + 2 < length (jw_lists w2)"
    using df_list_ok(2) [OF w2(9), of True] by (cases ok; simp add: l_def)+
  let ?w3 = "close_others k n ok (upd_list l (\<lambda>c. (fire_setup (ctx, args) c)\<lparr>cb_index := 3\<rparr>) w2)"
  let ?w4 = "?w3\<lparr>jw_calls := calls\<rparr>"
  have w3: "jw_lists ?w3 ! l = (fire_setup (ctx, args) (jw_lists w2 ! l))\<lparr>cb_index := 3\<rparr>" "length (jw_lists ?w3) = length (jw_lists w2)"
      "df_state (jw_deferreds ?w3 ! k) = (if ok then ''resolved'' else ''rejected'')"
    using l w2(3) by (cases ok; simp add: close_others_def l_def)+
  have "deferred_ok e (n + 3) ?w4 (new_promise calls)"
    using w2(9) unfolding deferred_ok_def by (simp add: new_promise_def close_others_def l_def e_def)
  from settle_new [OF assms(1) this m(2), of ok d'] obtain w5 where
    w5: "cb_fireWith (cb_fire B (Suc m)) (n + 3 + side ok) d' ?w4 = Some (Inr (), w5)"
      "deferred_ok e (n + 3) w5 ((new_promise calls)\<lparr>p_settled := Some (ok, d')\<rparr>)" "jw_lists w5 ! l = jw_lists ?w3 ! l"
      "length (jw_lists w5) = length (jw_lists ?w3)" "jw_deferreds w5 ! k = jw_deferreds ?w3 ! k"
    using l(2) by (auto simp: e_def)
  have exec: "exec_fn B (cb_fire B (Suc m)) (link k e (n + 3) f ok) (fst (ctx, args)) (snd (ctx, args)) ?w3 = Some (Inr DUndef, w5)"
  proof (cases ok)
    case True
    have "jw_calls ?w3 = jw_calls w" "df_list e 0 ?w4 = n + 3" "df_list e 0 w5 = df_list e 0 w5"
      using w2(4,9) by (simp_all add: close_others_def df_list_def deferred_ok_def e_def)
    then show ?thesis
      using True w5(1) assms(3,4) by (simp add: link_def exec_fn_def then_end_def bindc_def give_def calls_def d'_def)
  next
    case False
    have "?w4 = ?w3" using False w2(4) by (simp add: calls_def close_others_def)
    then show ?thesis
      using False w5(1) by (simp add: link_def exec_fn_def bindc_def give_def d'_def)
  qed
  let ?w6 = "upd_list l (after_fire (ctx, args) (heads k n ok @ [link k e (n + 3) f ok])) w5"
  have same: "jw_lists w5 ! l = (fire_setup (ctx, args) (jw_lists w2 ! l))\<lparr>cb_index := 3\<rparr>" "length (jw_lists w5) = length (jw_lists w2)"
    using w3 w5 by simp_all
  have "cb_fire B N l (ctx, args) w2 = Some (Inr (), ?w6)"
    unfolding m(1) by (rule fire_single [OF l(3) l_def w2(5,6,8) refl exec same])
  then have fire: "d_fireWith (cb_fire B N) k (side ok) ctx args w2 = Some (Inr (), ?w6)"
    using w2 by (simp add: d_fireWith_def df_list_new [OF w2(2)] cb_fireWith_def Let_def quiet_def l_def)
  have "deferred_ok e (n + 3) ?w6 ((new_promise calls)\<lparr>p_settled := Some (ok, d')\<rparr>)"
    using w5(2) l unfolding deferred_ok_def by (simp add: new_promise_def)
  from attach_ok [OF assms(1) this assms(6), of ok] obtain w7 where
    w7: "d_step (cb_fire B N) e (Attach ok cs) ?w6 = Some (Inr (), w7)" "jw_calls w7 = calls @ called cs d'"
    by (auto simp: deferred_ok_def p_step_def new_promise_def)
  have states: "df_state (jw_deferreds ?w6 ! k) = (if ok then ''resolved'' else ''rejected'')"
      "df_state (jw_deferreds ?w6 ! Suc k) = (if ok then ''resolved'' else ''rejected'')"
    using w3(3) w5(2,5) by (simp_all add: deferred_ok_def new_promise_def e_def)
  show ?thesis
    using w2(1) fire states w7 unfolding e_def calls_def d'_def append_assoc by blast
qed

theorem then_follows_witness:
  "\<exists>w2 w3 w4. d_then (cb_fire idle 20) 0 (Some 3) None None (snd (new_Deferred no_lists)) = Some (Inr (DProm 1), w2)
    \<and> d_fireWith (cb_fire idle 20) 0 0 (DDef 0) [DFalse] w2 = Some (Inr (), w3)
    \<and> df_state (jw_deferreds w3 ! 0) = ''resolved'' \<and> df_state (jw_deferreds w3 ! 1) = ''resolved''
    \<and> d_step (cb_fire idle 20) 1 (Attach True [7]) w3 = Some (Inr (), w4)
    \<and> jw_calls w4 = [(3, DDef 0, [DFalse]), (7, DDef 1, [DUndef])]"
proof -
  have "new_Deferred no_lists = (0, snd (new_Deferred no_lists))" by (simp add: new_Deferred_def Let_def no_lists_def)
  from then_follows [OF idle_inert this, of 3 "DDef 0" "[DFalse]" DUndef 20 "[7]" True] show ?thesis
    by (simp add: idle_def promise_of_def no_lists_def)
qed

end
