(* ===== verification/JqQueue.thy ===== *)
theory JqQueue
  imports JqDeferred
begin

text \<open>
  The queues of \<open>jquery.js\<close> (\<open>queue\<close>, \<open>dequeue\<close>, \<open>delay\<close>, \<open>clearQueue\<close>,
  \<open>promise\<close>), on which animations run. A queue and its hooks are private data of an element under a type; a missing
  type is \<open>fx\<close>. What a queued function does when it is called is an argument: a finite tree of operations.
  Timers wait in a list. \<open>None\<close> means that the fuel did not suffice; every dequeuing takes one.
\<close>

section \<open>State\<close>

type_synonym qkey = "nat \<times> string"

text \<open>The functions in the list \<open>empty\<close> of the hooks: the one that removes the data, and those of \<open>promise\<close>.\<close>

datatype hook_fn = RemoveQueue nat string | CountDown nat

record hooks =
  hk_empty :: nat
  hk_stop :: "nat option"

datatype 'c qitem = InProgress | QFn 'c | DelayFn

text \<open>\<open>qw_jw\<close> holds the callback lists; \<open>qw_promises\<close> the counter of every promise and whether it is resolved.\<close>

record 'c qworld =
  qw_queue :: "qkey \<Rightarrow> 'c qitem list option"
  qw_hooks :: "qkey \<Rightarrow> hooks option"
  qw_jw :: "hook_fn jworld"
  qw_promises :: "(int \<times> bool) list"
  qw_timers :: "(nat \<times> qkey) list"
  qw_timer :: nat
  qw_log :: "(qkey \<times> 'c) list"

datatype 'c qdata = NoData | Items "'c qitem list" | Item "'c qitem"

datatype 'c qop = EnqueueOp "nat list" string "'c qdata" | DequeueOp "nat list" string | StopOp nat string | PromiseOp "nat list" string

datatype 'c qact = QReturn | QRaise js_error | QDo "'c qop" "'c qact"

definition calm :: "hook_fn \<Rightarrow> dval \<Rightarrow> dval list \<Rightarrow> hook_fn act" where
  "calm c ctx args = Return DUndef"

section \<open>Hooks\<close>

definition run_hook :: "hook_fn \<Rightarrow> 'c qworld \<Rightarrow> 'c qworld" where
  "run_hook h w =
     (case h of
        RemoveQueue e t \<Rightarrow> w\<lparr>qw_queue := (qw_queue w)((e, t) := None), qw_hooks := (qw_hooks w)((e, t) := None)\<rparr>
      | CountDown p \<Rightarrow>
          (let n = fst (qw_promises w ! p) - 1
           in w\<lparr>qw_promises := (qw_promises w)[p := (n, snd (qw_promises w ! p) \<or> n = 0)]\<rparr>))"

text \<open>An operation on the lists, followed by what the hooks that it called do.\<close>

definition with_lists :: "(hook_fn, unit) comp \<Rightarrow> 'c qworld \<Rightarrow> 'c qworld option" where
  "with_lists m w =
     (case m ((qw_jw w)\<lparr>jw_calls := []\<rparr>) of
        None \<Rightarrow> None
      | Some (_, jw) \<Rightarrow> Some (fold run_hook (map fst (jw_calls jw)) (w\<lparr>qw_jw := jw\<rparr>)))"

definition list_size :: "nat \<Rightarrow> 'c qworld \<Rightarrow> nat" where
  "list_size l w = (case cb_list (jw_lists (qw_jw w) ! l) of None \<Rightarrow> 0 | Some fs \<Rightarrow> length fs)"

definition queueHooks :: "qkey \<Rightarrow> 'c qworld \<Rightarrow> hooks \<times> 'c qworld" where
  "queueHooks k w =
     (case qw_hooks w k of
        Some h \<Rightarrow> (h, w)
      | None \<Rightarrow>
          let l = length (jw_lists (qw_jw w));
              c = (new_Callbacks once_memory)\<lparr>cb_list := Some [User (RemoveQueue (fst k) (snd k))]\<rparr>;
              h = \<lparr>hk_empty = l, hk_stop = None\<rparr>
          in (h, w\<lparr>qw_jw := (qw_jw w)\<lparr>jw_lists := jw_lists (qw_jw w) @ [c]\<rparr>, qw_hooks := (qw_hooks w)(k := Some h)\<rparr>))"

definition fire_empty :: "hooks \<Rightarrow> 'c qworld \<Rightarrow> 'c qworld option" where
  "fire_empty h w = with_lists (cb_fireWith (cb_fire calm (list_size (hk_empty h) w + 2)) (hk_empty h) (DUndef, [])) w"

section \<open>queue and dequeue\<close>

definition jq_queue :: "qkey \<Rightarrow> 'c qdata \<Rightarrow> 'c qworld \<Rightarrow> 'c qitem list \<times> 'c qworld" where
  "jq_queue k data w =
     (let old = qw_queue w k; put = (\<lambda>q. (q, w\<lparr>qw_queue := (qw_queue w)(k := Some q)\<rparr>))
      in case data of
           NoData \<Rightarrow> (case old of None \<Rightarrow> ([], w) | Some q \<Rightarrow> (q, w))
         | Items items \<Rightarrow> put items
         | Item f \<Rightarrow> (case old of None \<Rightarrow> put [f] | Some q \<Rightarrow> put (q @ [f])))"

text \<open>The array of a queue that has no data is a new one, which is not kept.\<close>

definition keep_queue :: "qkey \<Rightarrow> 'c qitem list \<Rightarrow> 'c qworld \<Rightarrow> 'c qworld" where
  "keep_queue k q w = (if qw_queue w k = None then w else w\<lparr>qw_queue := (qw_queue w)(k := Some q)\<rparr>)"

definition set_stop :: "qkey \<Rightarrow> nat option \<Rightarrow> 'c qworld \<Rightarrow> 'c qworld" where
  "set_stop k s w = w\<lparr>qw_hooks := (qw_hooks w)(k := map_option (\<lambda>h. h\<lparr>hk_stop := s\<rparr>) (qw_hooks w k))\<rparr>"

definition take_first :: "'c qitem list \<Rightarrow> 'c qitem option \<times> 'c qitem list \<times> nat" where
  "take_first q =
     (case q of
        [] \<Rightarrow> (None, [], 0)
      | InProgress # [] \<Rightarrow> (None, [], 0)
      | InProgress # f # fs \<Rightarrow> (Some f, fs, length (f # fs))
      | f # fs \<Rightarrow> (Some f, fs, length (f # fs)))"

type_synonym 'c qcomp = "'c qworld \<Rightarrow> ((js_error + unit) \<times> 'c qworld) option"

definition bindq :: "'c qcomp \<Rightarrow> 'c qcomp \<Rightarrow> 'c qcomp" where
  "bindq m k w = (case m w of None \<Rightarrow> None | Some (Inl e, w1) \<Rightarrow> Some (Inl e, w1) | Some (Inr _, w1) \<Rightarrow> k w1)"

definition doneq :: "'c qcomp" where
  "doneq w = Some (Inr (), w)"

definition alwaysq :: "('c qworld \<Rightarrow> 'c qworld option) \<Rightarrow> 'c qcomp" where
  "alwaysq f w = (case f w of None \<Rightarrow> None | Some w1 \<Rightarrow> Some (Inr (), w1))"

primrec each_elem :: "(nat \<Rightarrow> 'c qcomp) \<Rightarrow> nat list \<Rightarrow> 'c qcomp" where
  "each_elem f [] = doneq"
| "each_elem f (e # es) = bindq (f e) (each_elem f es)"

text \<open>\<open>fn.queue\<close> with data, for one element.\<close>

definition queue1 :: "(qkey \<Rightarrow> 'c qcomp) \<Rightarrow> string \<Rightarrow> 'c qdata \<Rightarrow> nat \<Rightarrow> 'c qcomp" where
  "queue1 deq t data e w =
     (case jq_queue (e, t) data w of
        (q, w1) \<Rightarrow>
          let w2 = snd (queueHooks (e, t) w1)
          in if t = ''fx'' \<and> (case q of InProgress # _ \<Rightarrow> False | _ \<Rightarrow> True) then deq (e, t) w2 else doneq w2)"

text \<open>\<open>promise\<close>: the elements from the last to the first, then its own count down.\<close>

definition watch :: "nat \<Rightarrow> string \<Rightarrow> nat \<Rightarrow> 'c qworld \<Rightarrow> 'c qworld option" where
  "watch p t e w =
     (case qw_hooks w (e, t) of
        None \<Rightarrow> Some w
      | Some h \<Rightarrow>
          with_lists (cb_add (cb_fire calm (list_size (hk_empty h) w + 3)) (hk_empty h) [Fn (User (CountDown p))])
            (w\<lparr>qw_promises := (qw_promises w)[p := (fst (qw_promises w ! p) + 1, snd (qw_promises w ! p))]\<rparr>))"

definition jq_promise :: "nat list \<Rightarrow> string \<Rightarrow> 'c qcomp" where
  "jq_promise es t w =
     (let p = length (qw_promises w); w1 = w\<lparr>qw_promises := qw_promises w @ [(1, False)]\<rparr>
      in bindq (each_elem (\<lambda>e. alwaysq (watch p t e)) (rev es)) (\<lambda>w2. doneq (run_hook (CountDown p) w2)) w1)"

definition stop_timer :: "qkey \<Rightarrow> 'c qworld \<Rightarrow> 'c qworld" where
  "stop_timer k w =
     (case qw_hooks w k of
        Some h \<Rightarrow> (case hk_stop h of Some i \<Rightarrow> w\<lparr>qw_timers := filter (\<lambda>(j, _). j \<noteq> i) (qw_timers w)\<rparr> | None \<Rightarrow> w)
      | None \<Rightarrow> w)"

definition run_qop :: "(qkey \<Rightarrow> 'c qcomp) \<Rightarrow> 'c qop \<Rightarrow> 'c qcomp" where
  "run_qop deq op =
     (case op of
        EnqueueOp es t data \<Rightarrow> (if data = NoData then doneq else each_elem (queue1 deq t data) es)
      | DequeueOp es t \<Rightarrow> each_elem (\<lambda>e. deq (e, t)) es
      | StopOp e t \<Rightarrow> (\<lambda>w. doneq (stop_timer (e, t) w))
      | PromiseOp es t \<Rightarrow> jq_promise es t)"

primrec run_qact :: "(qkey \<Rightarrow> 'c qcomp) \<Rightarrow> 'c qact \<Rightarrow> 'c qcomp" where
  "run_qact deq QReturn = doneq"
| "run_qact deq (QRaise e) = (\<lambda>w. Some (Inl e, w))"
| "run_qact deq (QDo op a) = bindq (run_qop deq op) (run_qact deq a)"

text \<open>Calling a queued function; that of \<open>delay\<close> starts a timer and leaves a way to stop it.\<close>

definition call_item :: "('c \<Rightarrow> qkey \<Rightarrow> 'c qact) \<Rightarrow> (qkey \<Rightarrow> 'c qcomp) \<Rightarrow> qkey \<Rightarrow> 'c qitem \<Rightarrow> 'c qcomp" where
  "call_item B deq k f w =
     (case f of
        QFn c \<Rightarrow> run_qact deq (B c k) (w\<lparr>qw_log := qw_log w @ [(k, c)]\<rparr>)
      | DelayFn \<Rightarrow>
          (let i = qw_timer w
           in doneq (set_stop k (Some i) (w\<lparr>qw_timers := qw_timers w @ [(i, k)], qw_timer := Suc i\<rparr>)))
      | InProgress \<Rightarrow> Some (Inl TypeError, w))"

fun dequeue :: "('c \<Rightarrow> qkey \<Rightarrow> 'c qact) \<Rightarrow> nat \<Rightarrow> qkey \<Rightarrow> 'c qcomp" where
  "dequeue B 0 k w = None"
| "dequeue B (Suc n) k w =
     (case take_first (fst (jq_queue k NoData w)) of
        (f, rest, startLength) \<Rightarrow>
          (case queueHooks k w of
             (h, w1) \<Rightarrow>
               let ending = (\<lambda>w. if startLength = 0 then alwaysq (fire_empty h) w else doneq w)
               in case f of
                    None \<Rightarrow> ending (keep_queue k rest w1)
                  | Some g \<Rightarrow>
                      bindq (call_item B (\<lambda>k w. dequeue B n k w) k g) ending
                        (set_stop k None (keep_queue k (if snd k = ''fx'' then InProgress # rest else rest) w1))))"

text \<open>What the page does, and the timers.\<close>

definition fn_queue :: "('c \<Rightarrow> qkey \<Rightarrow> 'c qact) \<Rightarrow> nat \<Rightarrow> nat list \<Rightarrow> string \<Rightarrow> 'c qdata \<Rightarrow> 'c qcomp" where
  "fn_queue B n es t data = run_qop (dequeue B n) (EnqueueOp es t data)"

definition fn_delay :: "('c \<Rightarrow> qkey \<Rightarrow> 'c qact) \<Rightarrow> nat \<Rightarrow> nat list \<Rightarrow> string \<Rightarrow> 'c qcomp" where
  "fn_delay B n es t = fn_queue B n es t (Item DelayFn)"

definition clearQueue :: "('c \<Rightarrow> qkey \<Rightarrow> 'c qact) \<Rightarrow> nat \<Rightarrow> nat list \<Rightarrow> string \<Rightarrow> 'c qcomp" where
  "clearQueue B n es t = fn_queue B n es t (Items [])"

definition timer_fires :: "('c \<Rightarrow> qkey \<Rightarrow> 'c qact) \<Rightarrow> nat \<Rightarrow> nat \<Rightarrow> 'c qcomp" where
  "timer_fires B n i w =
     (case List.find (\<lambda>(j, k). j = i) (qw_timers w) of
        None \<Rightarrow> doneq w
      | Some (_, k) \<Rightarrow> dequeue B n k (w\<lparr>qw_timers := filter (\<lambda>(j, _). j \<noteq> i) (qw_timers w)\<rparr>))"

section \<open>The animation queue is first in, first out\<close>

text \<open>A queued function either goes on at once when it is called, or later (with the function \<open>next\<close> it is given).\<close>

definition steps :: "('c \<Rightarrow> bool) \<Rightarrow> 'c \<Rightarrow> qkey \<Rightarrow> 'c qact" where
  "steps at_once c k = (if at_once c then QDo (DequeueOp [fst k] (snd k)) QReturn else QReturn)"

record 'c fifo =
  ff_running :: bool
  ff_waiting :: "'c list"
  ff_log :: "'c list"
  ff_promises :: "bool list"

fun drain :: "('c \<Rightarrow> bool) \<Rightarrow> 'c list \<Rightarrow> 'c list \<Rightarrow> bool list \<Rightarrow> 'c fifo" where
  "drain at_once [] log ps = \<lparr>ff_running = False, ff_waiting = [], ff_log = log, ff_promises = map (\<lambda>_. True) ps\<rparr>"
| "drain at_once (c # cs) log ps =
     (if at_once c then drain at_once cs (log @ [c]) ps
      else \<lparr>ff_running = True, ff_waiting = cs, ff_log = log @ [c], ff_promises = ps\<rparr>)"

datatype 'c fx_op = Enqueue 'c | Next | AskPromise

definition fifo_step :: "('c \<Rightarrow> bool) \<Rightarrow> 'c fx_op \<Rightarrow> 'c fifo \<Rightarrow> 'c fifo" where
  "fifo_step at_once op f =
     (case op of
        Enqueue c \<Rightarrow> (if ff_running f then f\<lparr>ff_waiting := ff_waiting f @ [c]\<rparr> else drain at_once [c] (ff_log f) (ff_promises f))
      | Next \<Rightarrow> (if ff_running f then drain at_once (ff_waiting f) (ff_log f) (ff_promises f) else f)
      | AskPromise \<Rightarrow> f\<lparr>ff_promises := ff_promises f @ [\<not> ff_running f]\<rparr>)"

definition fx_step :: "('c \<Rightarrow> bool) \<Rightarrow> nat \<Rightarrow> nat \<Rightarrow> 'c fx_op \<Rightarrow> 'c qcomp" where
  "fx_step at_once n e op =
     (case op of
        Enqueue c \<Rightarrow> fn_queue (steps at_once) n [e] ''fx'' (Item (QFn c))
      | Next \<Rightarrow> dequeue (steps at_once) n (e, ''fx'')
      | AskPromise \<Rightarrow> jq_promise [e] ''fx'')"

primrec fx_steps :: "('c \<Rightarrow> bool) \<Rightarrow> nat \<Rightarrow> nat \<Rightarrow> 'c fx_op list \<Rightarrow> 'c qcomp" where
  "fx_steps at_once n e [] = doneq"
| "fx_steps at_once n e (op # ops) = bindq (fx_step at_once n e op) (fx_steps at_once n e ops)"

definition hook_ready :: "nat \<Rightarrow> hook_fn list \<Rightarrow> 'c qworld \<Rightarrow> bool" where
  "hook_ready l hs w \<longleftrightarrow>
     l < length (jw_lists (qw_jw w))
     \<and> (let c = jw_lists (qw_jw w) ! l
        in quiet c \<and> cb_list c = Some (map User hs) \<and> cb_memory c = None \<and> \<not> cb_fired c \<and> cb_stack c = None)"

definition unresolved :: "bool list \<Rightarrow> nat list" where
  "unresolved ps = filter (\<lambda>p. \<not> ps ! p) [0..<length ps]"

definition count_of :: "bool \<Rightarrow> int \<times> bool" where
  "count_of resolved = (if resolved then 0 else 1, resolved)"

definition fifo_ok :: "nat \<Rightarrow> 'c qworld \<Rightarrow> 'c fifo \<Rightarrow> bool" where
  "fifo_ok e w f \<longleftrightarrow>
     qw_log w = map (Pair (e, ''fx'')) (ff_log f) \<and> qw_promises w = map count_of (ff_promises f)
     \<and> (if ff_running f
        then qw_queue w (e, ''fx'') = Some (InProgress # map QFn (ff_waiting f))
          \<and> (\<exists>h. qw_hooks w (e, ''fx'') = Some h
                \<and> hook_ready (hk_empty h) (RemoveQueue e ''fx'' # map CountDown (unresolved (ff_promises f))) w)
        else qw_queue w (e, ''fx'') = None \<and> qw_hooks w (e, ''fx'') = None \<and> (\<forall>p \<in> set (ff_promises f). p) \<and> ff_waiting f = [])"

lemma calm_inert: "inert calm"
  by (simp add: inert_def calm_def)

lemma fire_empty_run:
  assumes "hook_ready l hs w" "hk_empty h = l"
  shows "\<exists>jw. fire_empty h w = Some (fold run_hook hs (w\<lparr>qw_jw := jw\<rparr>))"
proof -
  let ?jw = "(qw_jw w)\<lparr>jw_calls := []\<rparr>"
  let ?c = "jw_lists ?jw ! l"
  have c: "l < length (jw_lists ?jw)" "quiet ?c" "cb_list ?c = Some (map User hs)" "\<not> cb_fired ?c" "cb_stack ?c = None"
    using assms(1) by (simp_all add: hook_ready_def Let_def)
  have size: "list_size l w = length hs" using c by (simp add: list_size_def)
  have "cb_fireWith (cb_fire calm (length hs + 2)) l (DUndef, []) ?jw = cb_fire calm (length hs + 2) l (DUndef, []) ?jw"
    using c by (simp add: cb_fireWith_def Let_def quiet_def)
  also have "\<dots> = Some (Inr (), (upd_list l (after_fire (DUndef, []) (map User hs)) ?jw)\<lparr>jw_calls := jw_calls ?jw @ called hs (DUndef, [])\<rparr>)"
    using c by (intro fire_users [OF calm_inert, where i = 0]) (simp_all add: quiet_def)
  finally show ?thesis
    using assms(2) size by (auto simp: fire_empty_def with_lists_def called_def comp_def)
qed

lemma unresolved_snoc: "unresolved (ps @ [b]) = unresolved ps @ (if b then [] else [length ps])"
proof -
  have "filter (\<lambda>p. \<not> (ps @ [b]) ! p) [0..<length ps] = filter (\<lambda>p. \<not> ps ! p) [0..<length ps]"
    by (rule filter_cong) (simp_all add: nth_append)
  then show ?thesis by (simp add: unresolved_def nth_append)
qed

lemma run_hook_simps [simp]:
  "run_hook (RemoveQueue e t) w = w\<lparr>qw_queue := (qw_queue w)((e, t) := None), qw_hooks := (qw_hooks w)((e, t) := None)\<rparr>"
  "run_hook (CountDown p) w = w\<lparr>qw_promises := (qw_promises w)[p := (fst (qw_promises w ! p) - 1,
     snd (qw_promises w ! p) \<or> fst (qw_promises w ! p) = 1)]\<rparr>"
  by (simp_all add: run_hook_def Let_def)

lemma count_down_prefix:
  "qw_promises w = map count_of ps @ rest \<Longrightarrow>
     fold run_hook (map CountDown (unresolved ps)) w = w\<lparr>qw_promises := map (\<lambda>_. (0, True)) ps @ rest\<rparr>"
proof (induction ps arbitrary: rest rule: rev_induct)
  case Nil
  then show ?case by (simp add: unresolved_def)
next
  case (snoc b ps)
  have "fold run_hook (map CountDown (unresolved ps)) w = w\<lparr>qw_promises := map (\<lambda>_. (0, True)) ps @ count_of b # rest\<rparr>"
    by (rule snoc.IH) (use snoc.prems in simp)
  then show ?case by (cases b) (simp_all add: unresolved_snoc count_of_def nth_append list_update_append)
qed

lemma count_down_all:
  "qw_promises w = map count_of ps \<Longrightarrow>
     fold run_hook (map CountDown (unresolved ps)) w = w\<lparr>qw_promises := map (\<lambda>_. (0, True)) ps\<rparr>"
  using count_down_prefix [of w ps "[]"] by simp

lemma emptied:
  assumes "hook_ready (hk_empty h) (RemoveQueue e ''fx'' # map CountDown (unresolved ps)) w"
    "qw_log w = map (Pair (e, ''fx'')) log" "qw_promises w = map count_of ps"
  shows "\<exists>w'. fire_empty h w = Some w' \<and> fifo_ok e w' (drain at_once [] log ps)"
proof -
  obtain jw where fire: "fire_empty h w = Some (fold run_hook (RemoveQueue e ''fx'' # map CountDown (unresolved ps)) (w\<lparr>qw_jw := jw\<rparr>))"
    using fire_empty_run [OF assms(1) refl] by blast
  let ?w1 = "run_hook (RemoveQueue e ''fx'') (w\<lparr>qw_jw := jw\<rparr>)"
  have "qw_promises ?w1 = map count_of ps" using assms(3) by simp
  from count_down_all [OF this] have "fire_empty h w = Some (?w1\<lparr>qw_promises := map (\<lambda>_. (0, True)) ps\<rparr>)"
    using fire by simp
  then show ?thesis
    using assms(2) by (auto simp: fifo_ok_def count_of_def comp_def)
qed

lemma queueHooks_there: "qw_hooks w k = Some h \<Longrightarrow> queueHooks k w = (h, w)"
  by (simp add: queueHooks_def)

lemma hook_ready_more [simp]: "hook_ready l hs (w\<lparr>qw_log := x\<rparr>) = hook_ready l hs w" "hook_ready l hs (w\<lparr>qw_queue := q\<rparr>) = hook_ready l hs w"
  "hook_ready l hs (w\<lparr>qw_hooks := hk\<rparr>) = hook_ready l hs w" "hook_ready l hs (w\<lparr>qw_promises := p\<rparr>) = hook_ready l hs w"
  by (simp_all add: hook_ready_def Let_def)

text \<open>Taking the next waiting function.\<close>

lemma take_next:
  assumes "fifo_ok e w f" "ff_running f" "ff_waiting f = c # cs"
  shows "\<exists>w1. fifo_ok e w1 (f\<lparr>ff_waiting := cs, ff_log := ff_log f @ [c]\<rparr>)
    \<and> dequeue (steps at_once) (Suc n) (e, ''fx'') w = run_qact (dequeue (steps at_once) n) (steps at_once c (e, ''fx'')) w1"
proof -
  let ?k = "(e, ''fx'')"
  obtain h where h: "qw_hooks w ?k = Some h"
      "hook_ready (hk_empty h) (RemoveQueue e ''fx'' # map CountDown (unresolved (ff_promises f))) w"
    using assms by (auto simp: fifo_ok_def)
  have q: "qw_queue w ?k = Some (InProgress # QFn c # map QFn cs)" using assms by (simp add: fifo_ok_def)
  let ?w1 = "(set_stop ?k None (keep_queue ?k (InProgress # map QFn cs) w))\<lparr>qw_log := qw_log w @ [(?k, c)]\<rparr>"
  have log: "qw_log (set_stop ?k None (keep_queue ?k x w)) = qw_log w" for x by (simp add: set_stop_def keep_queue_def)
  have "fifo_ok e ?w1 (f\<lparr>ff_waiting := cs, ff_log := ff_log f @ [c]\<rparr>)"
    using assms h q by (auto simp: fifo_ok_def set_stop_def keep_queue_def)
  moreover have run: "bindq m (\<lambda>w. doneq w) = m" for m :: "'a qcomp"
    by (auto simp: bindq_def doneq_def fun_eq_iff split: option.splits sum.splits)
  have "dequeue (steps at_once) (Suc n) ?k w = run_qact (dequeue (steps at_once) n) (steps at_once c ?k) ?w1"
    using q h(1) by (simp add: jq_queue_def take_first_def queueHooks_there call_item_def run log bindq_def doneq_def split: option.splits sum.splits)
  ultimately show ?thesis by blast
qed

lemma drain_run:
  assumes "fifo_ok e w f" "ff_running f" "length (ff_waiting f) < n"
  shows "\<exists>w'. dequeue (steps at_once) n (e, ''fx'') w = Some (Inr (), w')
    \<and> fifo_ok e w' (drain at_once (ff_waiting f) (ff_log f) (ff_promises f))"
  using assms
proof (induction "ff_waiting f" arbitrary: w f n)
  case Nil
  obtain m where m: "n = Suc m" using Nil.prems(3) by (cases n) auto
  have q: "qw_queue w (e, ''fx'') = Some [InProgress]" using Nil by (simp add: fifo_ok_def)
  obtain h where h: "qw_hooks w (e, ''fx'') = Some h"
      "hook_ready (hk_empty h) (RemoveQueue e ''fx'' # map CountDown (unresolved (ff_promises f))) w"
    using Nil.prems by (auto simp: fifo_ok_def)
  let ?w1 = "keep_queue (e, ''fx'') [] w"
  have "\<exists>w'. fire_empty h ?w1 = Some w' \<and> fifo_ok e w' (drain at_once [] (ff_log f) (ff_promises f))"
    by (rule emptied) (use h Nil.prems q in \<open>simp_all add: keep_queue_def fifo_ok_def\<close>)
  moreover have "dequeue (steps at_once) n (e, ''fx'') w = alwaysq (fire_empty h) ?w1"
    using q h(1) by (simp add: m jq_queue_def take_first_def queueHooks_there)
  ultimately show ?case using Nil.hyps [symmetric] by (auto simp: alwaysq_def)
next
  case (Cons c cs)
  obtain m where m: "n = Suc m" "length cs < m" using Cons.prems(3) Cons.hyps(2) [symmetric] by (cases n) auto
  let ?f = "f\<lparr>ff_waiting := cs, ff_log := ff_log f @ [c]\<rparr>"
  obtain w1 where w1: "fifo_ok e w1 ?f"
      "dequeue (steps at_once) n (e, ''fx'') w = run_qact (dequeue (steps at_once) m) (steps at_once c (e, ''fx'')) w1"
    using take_next [OF Cons.prems(1,2) Cons.hyps(2) [symmetric], of at_once m] m(1) by blast
  show ?case
  proof (cases "at_once c")
    case True
    obtain w' where "dequeue (steps at_once) m (e, ''fx'') w1 = Some (Inr (), w')"
        "fifo_ok e w' (drain at_once cs (ff_log f @ [c]) (ff_promises f))"
      using Cons.hyps(1) [of ?f w1 m] w1(1) Cons.prems(2) m(2) by auto
    then show ?thesis
      using True w1(2) Cons.hyps(2) [symmetric] by (auto simp: steps_def run_qop_def bindq_def doneq_def)
  next
    case False
    then show ?thesis
      using w1 Cons.prems(2) Cons.hyps(2) [symmetric] by (auto simp: steps_def doneq_def fifo_ok_def)
  qed
qed

lemma new_hooks_ready:
  assumes "qw_hooks w k = None" "queueHooks k w = (h, w1)"
  shows "hook_ready (hk_empty h) [RemoveQueue (fst k) (snd k)] w1" "qw_hooks w1 = (qw_hooks w)(k := Some h)" "qw_log w1 = qw_log w"
    "qw_queue w1 = qw_queue w" "qw_promises w1 = qw_promises w"
  using assms
  by (auto simp: queueHooks_def Let_def hook_ready_def quiet_def new_Callbacks_def once_memory_def nth_append)

lemma none_unresolved: "\<forall>p \<in> set ps. p \<Longrightarrow> unresolved ps = []"
  by (auto simp: unresolved_def filter_empty_conv)

lemma all_resolved: "\<forall>p \<in> set ps. p \<Longrightarrow> map (\<lambda>_. True) ps = ps"
  by (induction ps) auto

lemma enqueue_ok:
  assumes "fifo_ok e w f" "length (ff_waiting f) + 1 < n"
  shows "\<exists>w'. fx_step at_once n e (Enqueue c) w = Some (Inr (), w') \<and> fifo_ok e w' (fifo_step at_once (Enqueue c) f)"
proof (cases "ff_running f")
  case True
  then obtain h where h: "qw_hooks w (e, ''fx'') = Some h" using assms(1) by (auto simp: fifo_ok_def)
  have q: "qw_queue w (e, ''fx'') = Some (InProgress # map QFn (ff_waiting f))" using assms(1) True by (simp add: fifo_ok_def)
  let ?w1 = "w\<lparr>qw_queue := (qw_queue w)((e, ''fx'') := Some ((InProgress # map QFn (ff_waiting f)) @ [QFn c]))\<rparr>"
  have "fx_step at_once n e (Enqueue c) w = Some (Inr (), ?w1)"
    using q h by (simp add: fx_step_def fn_queue_def run_qop_def bindq_def queue1_def jq_queue_def Let_def queueHooks_there doneq_def)
  then show ?thesis using assms(1) True h by (auto simp: fifo_ok_def fifo_step_def)
next
  case False
  let ?k = "(e, ''fx'')"
  obtain m where m: "n = Suc m" "0 < m" using assms(2) by (cases n) auto
  have idle: "qw_queue w ?k = None" "qw_hooks w ?k = None" "\<forall>p \<in> set (ff_promises f). p" "ff_waiting f = []"
    using assms(1) False by (auto simp: fifo_ok_def)
  let ?w1 = "w\<lparr>qw_queue := (qw_queue w)(?k := Some [QFn c])\<rparr>"
  obtain h w2 where h: "queueHooks ?k ?w1 = (h, w2)" by (cases "queueHooks ?k ?w1")
  note w2 = new_hooks_ready [OF _ h]
  have start: "fx_step at_once n e (Enqueue c) w = bindq (dequeue (steps at_once) n ?k) doneq w2"
    using idle h by (simp add: fx_step_def fn_queue_def run_qop_def queue1_def jq_queue_def Let_def bindq_def doneq_def)
  let ?w3 = "(set_stop ?k None (keep_queue ?k [InProgress] w2))\<lparr>qw_log := qw_log w2 @ [(?k, c)]\<rparr>"
  let ?f = "f\<lparr>ff_running := True, ff_log := ff_log f @ [c]\<rparr>"
  have ok3: "fifo_ok e ?w3 ?f"
    using assms(1) idle w2 by (auto simp: fifo_ok_def set_stop_def keep_queue_def none_unresolved)
  have run: "bindq m (\<lambda>w. doneq w) = m" for m :: "'a qcomp"
    by (auto simp: bindq_def doneq_def fun_eq_iff split: option.splits sum.splits)
  have there: "qw_hooks w2 ?k = Some h" "qw_queue w2 ?k = Some [QFn c]" using w2 idle by simp_all
  have log: "qw_log (set_stop ?k None (keep_queue ?k x w2)) = qw_log w2" for x by (simp add: set_stop_def keep_queue_def)
  have deq: "dequeue (steps at_once) n ?k w2 = run_qact (dequeue (steps at_once) m) (steps at_once c ?k) ?w3"
    using there by (simp add: m(1) jq_queue_def take_first_def queueHooks_there call_item_def run log bindq_def doneq_def split: option.splits sum.splits)
  show ?thesis
  proof (cases "at_once c")
    case True
    obtain w' where "dequeue (steps at_once) m ?k ?w3 = Some (Inr (), w')" "fifo_ok e w' (drain at_once [] (ff_log f @ [c]) (ff_promises f))"
      using drain_run [OF ok3, of m at_once] idle(4) m(2) by auto
    then show ?thesis
      using True False start deq by (auto simp: steps_def run_qop_def bindq_def doneq_def fifo_step_def)
  next
    case sync: False
    then show ?thesis using False start deq ok3 idle(4) by (auto simp: steps_def bindq_def doneq_def fifo_step_def fifo_ok_def)
  qed
qed

lemma next_ok:
  assumes "fifo_ok e w f" "length (ff_waiting f) < n"
  shows "\<exists>w'. fx_step at_once n e Next w = Some (Inr (), w') \<and> fifo_ok e w' (fifo_step at_once Next f)"
proof (cases "ff_running f")
  case True
  then show ?thesis using drain_run [OF assms(1) True assms(2)] by (simp add: fx_step_def fifo_step_def)
next
  case False
  let ?k = "(e, ''fx'')"
  obtain m where m: "n = Suc m" using assms(2) by (cases n) auto
  have idle: "qw_queue w ?k = None" "qw_hooks w ?k = None" "\<forall>p \<in> set (ff_promises f). p" "ff_waiting f = []"
    using assms(1) False by (auto simp: fifo_ok_def)
  obtain h w2 where h: "queueHooks ?k w = (h, w2)" by (cases "queueHooks ?k w")
  note w2 = new_hooks_ready [OF idle(2) h]
  obtain w' where "fire_empty h w2 = Some w'" "fifo_ok e w' (drain at_once [] (ff_log f) (ff_promises f))"
    using emptied [of h e "ff_promises f" w2 "ff_log f"] w2 assms(1) idle by (auto simp: none_unresolved fifo_ok_def)
  moreover have "keep_queue ?k [] w2 = w2" using w2(4) idle(1) by (simp add: keep_queue_def)
  then have "dequeue (steps at_once) n ?k w = alwaysq (fire_empty h) w2"
    using idle(1) h by (simp add: m jq_queue_def take_first_def)
  ultimately show ?thesis
    using False idle by (auto simp: fx_step_def fifo_step_def alwaysq_def all_resolved fifo_ok_def)
qed

lemma watch_running:
  assumes "qw_hooks w (e, t) = Some h" "hook_ready (hk_empty h) hs w" "qw_promises w = ps @ [(1, False)]" "p = length ps"
  shows "\<exists>jw. watch p t e w = Some (w\<lparr>qw_promises := ps @ [(2, False)], qw_jw := jw\<rparr>)
    \<and> hook_ready (hk_empty h) (hs @ [CountDown p]) (w\<lparr>qw_promises := ps @ [(2, False)], qw_jw := jw\<rparr>)"
proof -
  let ?l = "hk_empty h" and ?jw = "(qw_jw w)\<lparr>jw_calls := []\<rparr>"
  let ?jw1 = "upd_list ?l (\<lambda>c. c\<lparr>cb_list := Some (map User hs @ [User (CountDown p)])\<rparr>) ?jw"
  have r: "?l < length (jw_lists ?jw)" "quiet (jw_lists ?jw ! ?l)" "cb_list (jw_lists ?jw ! ?l) = Some (map User hs)"
      "cb_memory (jw_lists ?jw ! ?l) = None"
    using assms(2) by (simp_all add: hook_ready_def Let_def)
  have "cb_add F ?l [Fn (User (CountDown p))] ?jw = Some (Inr (), ?jw1)" for F
    by (rule add_quiet) (use r in simp_all)
  then have "watch p t e w = Some (w\<lparr>qw_promises := ps @ [(2, False)], qw_jw := ?jw1\<rparr>)"
    using assms(1,3,4) by (simp add: watch_def with_lists_def nth_append list_update_append)
  moreover have "hook_ready ?l (hs @ [CountDown p]) (w\<lparr>qw_promises := ps @ [(2, False)], qw_jw := ?jw1\<rparr>)"
    using assms(2) by (auto simp: hook_ready_def Let_def quiet_def upd_list_def)
  ultimately show ?thesis by blast
qed

lemma hook_ready_lists [simp]: "hook_ready l hs (w\<lparr>qw_promises := p, qw_jw := jw\<rparr>) = hook_ready l hs (w\<lparr>qw_jw := jw\<rparr>)"
  by (simp add: hook_ready_def Let_def)

lemma promise_ok:
  assumes "fifo_ok e w f"
  shows "\<exists>w'. fx_step at_once n e AskPromise w = Some (Inr (), w') \<and> fifo_ok e w' (fifo_step at_once AskPromise f)"
proof (cases "ff_running f")
  case False
  then show ?thesis
    using assms
    by (auto simp: fx_step_def jq_promise_def bindq_def alwaysq_def doneq_def watch_def fifo_ok_def fifo_step_def count_of_def
        list_update_append nth_append)
next
  case True
  let ?w1 = "w\<lparr>qw_promises := qw_promises w @ [(1, False)]\<rparr>" and ?p = "length (ff_promises f)"
  have len: "length (qw_promises w) = ?p" using assms by (simp add: fifo_ok_def)
  obtain h where h: "qw_hooks w (e, ''fx'') = Some h"
      "hook_ready (hk_empty h) (RemoveQueue e ''fx'' # map CountDown (unresolved (ff_promises f))) w"
    using assms True by (auto simp: fifo_ok_def)
  obtain jw where w: "watch ?p ''fx'' e ?w1 = Some (?w1\<lparr>qw_promises := qw_promises w @ [(2, False)], qw_jw := jw\<rparr>)"
      "hook_ready (hk_empty h) ((RemoveQueue e ''fx'' # map CountDown (unresolved (ff_promises f))) @ [CountDown ?p])
         (?w1\<lparr>qw_promises := qw_promises w @ [(2, False)], qw_jw := jw\<rparr>)"
    using watch_running [of ?w1 e "''fx''" h "RemoveQueue e ''fx'' # map CountDown (unresolved (ff_promises f))" "qw_promises w" ?p] h len
    by auto
  let ?w2 = "?w1\<lparr>qw_promises := qw_promises w @ [(1, False)], qw_jw := jw\<rparr>"
  have "fx_step at_once n e AskPromise w = Some (Inr (), ?w2)"
    using w(1) len by (simp add: fx_step_def jq_promise_def bindq_def alwaysq_def doneq_def nth_append list_update_append)
  moreover have "fifo_ok e ?w2 (fifo_step at_once AskPromise f)"
    using assms True h w(2) by (auto simp: fifo_ok_def fifo_step_def count_of_def unresolved_snoc)
  ultimately show ?thesis by blast
qed

lemma fx_steps_ok:
  assumes "fifo_ok e w f" "length (ff_waiting f) + length ops + 1 < n"
  shows "\<exists>w'. fx_steps at_once n e ops w = Some (Inr (), w') \<and> fifo_ok e w' (fold (fifo_step at_once) ops f)"
  using assms
proof (induction ops arbitrary: w f)
  case Nil
  then show ?case by (simp add: doneq_def)
next
  case (Cons op ops)
  have drained: "length (ff_waiting (drain at_once cs log ps)) \<le> length cs" for cs log ps
    by (induction cs arbitrary: log) (simp_all add: le_SucI)
  have len: "length (ff_waiting (fifo_step at_once op f)) \<le> Suc (length (ff_waiting f))"
    using drained [of "ff_waiting f" "ff_log f" "ff_promises f"] drained [of _ "ff_log f" "ff_promises f"]
    by (cases op) (auto simp: fifo_step_def le_SucI)
  obtain w1 where w1: "fx_step at_once n e op w = Some (Inr (), w1)" "fifo_ok e w1 (fifo_step at_once op f)"
  proof (cases op)
    case (Enqueue c)
    then show ?thesis using that enqueue_ok [OF Cons.prems(1), of n at_once c] Cons.prems(2) by auto
  next
    case Next
    then show ?thesis using that next_ok [OF Cons.prems(1), of n at_once] Cons.prems(2) by auto
  next
    case AskPromise
    then show ?thesis using that promise_ok [OF Cons.prems(1), of at_once n] by auto
  qed
  then show ?case using Cons.IH [OF w1(2)] len Cons.prems(2) by (simp add: bindq_def)
qed

definition no_queues :: "'c qworld" where
  "no_queues = \<lparr>qw_queue = (\<lambda>_. None), qw_hooks = (\<lambda>_. None),
     qw_jw = \<lparr>jw_lists = [], jw_deferreds = [], jw_whens = [], jw_calls = []\<rparr>,
     qw_promises = [], qw_timers = [], qw_timer = 0, qw_log = []\<rparr>"

text \<open>\<open>clearQueue\<close> while a function runs: its promise is resolved, and the next function starts though the first has
  not gone on.\<close>

definition after_clear :: "char qworld" where
  "after_clear =
     (case bindq (fn_queue (steps (\<lambda>_. False)) 5 [0] ''fx'' (Item (QFn CHR ''a'')))
            (bindq (jq_promise [0] ''fx'')
              (bindq (clearQueue (steps (\<lambda>_. False)) 5 [0] ''fx'')
                (fn_queue (steps (\<lambda>_. False)) 5 [0] ''fx'' (Item (QFn CHR ''b'')))))
            no_queues of
        Some (_, w) \<Rightarrow> w | None \<Rightarrow> no_queues)"

lemma clear_starts_second:
  "qw_promises after_clear = [(0, True)] \<and> map snd (qw_log after_clear) = ''ab''"
  by code_simp

definition idle_fifo :: "'c fifo" where
  "idle_fifo = \<lparr>ff_running = False, ff_waiting = [], ff_log = [], ff_promises = []\<rparr>"

text \<open>C3: The animation queue of an element is a queue: whatever functions are queued and whenever the running one goes on,
  at once or later, each function is called exactly once, in order, and never before the one before it went on; there are
  data exactly while a function runs; and a promise for the element is resolved exactly when no function is left. No more calls are nested than functions
  were queued.\<close>

theorem fx_queue_is_fifo:
  "\<exists>w. fx_steps at_once (length ops + 2 + n) e ops no_queues = Some (Inr (), w)
     \<and> qw_log w = map (Pair (e, ''fx'')) (ff_log (fold (fifo_step at_once) ops idle_fifo))
     \<and> map snd (qw_promises w) = ff_promises (fold (fifo_step at_once) ops idle_fifo)
     \<and> (qw_queue w (e, ''fx'') = None \<longleftrightarrow> \<not> ff_running (fold (fifo_step at_once) ops idle_fifo))"
proof -
  have "fifo_ok e no_queues idle_fifo" by (simp add: fifo_ok_def no_queues_def idle_fifo_def)
  then obtain w where "fx_steps at_once (length ops + 2 + n) e ops no_queues = Some (Inr (), w)"
      "fifo_ok e w (fold (fifo_step at_once) ops idle_fifo)"
    using fx_steps_ok [of e no_queues idle_fifo ops "length ops + 2 + n" at_once] by (auto simp: idle_fifo_def)
  moreover have "snd \<circ> count_of = (\<lambda>b. b)" by (auto simp: count_of_def)
  ultimately show ?thesis by (auto simp: fifo_ok_def split: if_splits)
qed

end
