(* ===== verification/JqData.thy ===== *)
theory JqData
  imports JqClass
begin

text \<open>
  The data store of \<open>jquery.js\<close>: \<open>jQuery.data\<close>, \<open>_data\<close>, \<open>removeData\<close> and the
  part of \<open>cleanData\<close> that gives up an element's entry (elements without event handlers). The entries of
  DOM nodes are in \<open>jQuery.cache\<close> under numbers that are used again; those of plain objects are in the
  objects. A property of \<open>Object.prototype\<close> is not a key, and the internal names are not called
  \<open>data\<close>. The browser can delete expando properties.
\<close>

section \<open>camelCase\<close>

definition alnum :: "char \<Rightarrow> bool" where
  "alnum c = (let n = of_char c :: nat in 48 \<le> n \<and> n \<le> 57 \<or> 65 \<le> n \<and> n \<le> 90 \<or> 97 \<le> n \<and> n \<le> 122)"

fun dash_alpha :: "string \<Rightarrow> string" where
  "dash_alpha (c # d # s) = (if c = CHR ''-'' \<and> alnum d then to_upper d # dash_alpha s else c # dash_alpha (d # s))"
| "dash_alpha s = s"

definition camelCase :: "string \<Rightarrow> string" where
  "camelCase s = dash_alpha (if take 4 s = ''-ms-'' then ''ms-'' @ drop 4 s else s)"

section \<open>State\<close>

datatype 'v jv = JNull | JVal 'v

type_synonym 'v dict = "'v jv js_obj"

record 'v entry =
  e_data :: "'v dict option"
  e_pvt :: "'v dict"

datatype target = Node nat | Plain nat

text \<open>\<open>ds_ids\<close> is the expando of the nodes, \<open>ds_objs\<close> the expando of the plain objects.\<close>

record 'v dstate =
  ds_cache :: "nat \<Rightarrow> 'v entry option"
  ds_deleted :: "nat list"
  ds_uuid :: nat
  ds_ids :: "nat \<Rightarrow> nat option"
  ds_objs :: "nat \<Rightarrow> 'v entry option"

definition no_data :: "'v dstate" where
  "no_data = \<lparr>ds_cache = (\<lambda>_. None), ds_deleted = [], ds_uuid = 0, ds_ids = (\<lambda>_. None), ds_objs = (\<lambda>_. None)\<rparr>"

definition no_entry :: "'v entry" where
  "no_entry = \<lparr>e_data = None, e_pvt = []\<rparr>"

text \<open>\<open>acceptData\<close>: the name of a node and its \<open>classid\<close>. Plain objects have no name.\<close>

type_synonym node_info = "nat \<Rightarrow> string \<times> string option"

definition flash_id :: string where
  "flash_id = ''clsid:D27CDB6E-AE6D-11cf-96B8-444553540000''"

definition acceptData :: "node_info \<Rightarrow> target \<Rightarrow> bool" where
  "acceptData info t =
     (case t of
        Plain _ \<Rightarrow> True
      | Node n \<Rightarrow>
          (case info n of (name, classid) \<Rightarrow>
             let name = map to_lower name
             in if name = ''embed'' \<or> name = ''applet'' then False
                else if name = ''object'' then classid = Some flash_id else True))"

definition isEmptyDataObject :: "'v entry \<Rightarrow> bool" where
  "isEmptyDataObject e \<longleftrightarrow> (case e_data e of None \<Rightarrow> True | Some d \<Rightarrow> d = []) \<and> e_pvt e = []"

text \<open>\<open>cache[id]\<close> for the id that the target has.\<close>

definition entry_of :: "target \<Rightarrow> 'v dstate \<Rightarrow> 'v entry option" where
  "entry_of t st =
     (case t of
        Node n \<Rightarrow> (case ds_ids st n of None \<Rightarrow> None | Some i \<Rightarrow> ds_cache st i)
      | Plain m \<Rightarrow> ds_objs st m)"

definition hasData :: "target \<Rightarrow> 'v dstate \<Rightarrow> bool" where
  "hasData t st = (case entry_of t st of None \<Rightarrow> False | Some e \<Rightarrow> \<not> isEmptyDataObject e)"

text \<open>The id of a node: the one it has, else the last one deleted, else a new one. Ids start at 1.\<close>

definition take_id :: "nat \<Rightarrow> 'v dstate \<Rightarrow> nat \<times> 'v dstate" where
  "take_id n st =
     (case ds_ids st n of
        Some i \<Rightarrow> (i, st)
      | None \<Rightarrow>
          if ds_deleted st \<noteq> []
          then (let i = last (ds_deleted st)
                in (i, st\<lparr>ds_deleted := butlast (ds_deleted st), ds_ids := (ds_ids st)(n := Some i)\<rparr>))
          else (let i = Suc (ds_uuid st) in (i, st\<lparr>ds_uuid := i, ds_ids := (ds_ids st)(n := Some i)\<rparr>)))"

definition with_entry :: "target \<Rightarrow> ('v entry \<Rightarrow> 'v entry) \<Rightarrow> 'v dstate \<Rightarrow> 'v dstate" where
  "with_entry t f st =
     (case t of
        Node n \<Rightarrow>
          (case take_id n st of (i, st1) \<Rightarrow>
             let e = (case ds_cache st1 i of None \<Rightarrow> no_entry | Some e \<Rightarrow> e)
             in st1\<lparr>ds_cache := (ds_cache st1)(i := Some (f e))\<rparr>)
      | Plain m \<Rightarrow>
          let e = (case ds_objs st m of None \<Rightarrow> no_entry | Some e \<Rightarrow> e)
          in st\<lparr>ds_objs := (ds_objs st)(m := Some (f e))\<rparr>)"

section \<open>data\<close>

datatype 'v name = Str string | Bag "(string \<times> 'v jv) list" | Absent

text \<open>\<open>jQuery.extend(target, bag)\<close>: no value of a bag is undefined.\<close>

definition put_all :: "'v dict \<Rightarrow> 'v dict \<Rightarrow> 'v dict" where
  "put_all bag d = fold (\<lambda>(k, v) d. obj_set k v d) bag d"

definition pub :: "'v entry \<Rightarrow> 'v dict" where
  "pub e = (case e_data e of None \<Rightarrow> [] | Some d \<Rightarrow> d)"

definition store_of :: "bool \<Rightarrow> 'v entry \<Rightarrow> 'v dict" where
  "store_of pvt e = (if pvt then e_pvt e else pub e)"

definition set_store :: "bool \<Rightarrow> 'v dict \<Rightarrow> 'v entry \<Rightarrow> 'v entry" where
  "set_store pvt d e = (if pvt then e\<lparr>e_pvt := d\<rparr> else e\<lparr>e_data := Some d\<rparr>)"

datatype 'v reading = Undefined | Value "'v jv" | Store "'v dict"

definition get_data :: "string \<Rightarrow> 'v dict \<Rightarrow> 'v reading" where
  "get_data n d =
     (case obj_get d n of
        Some (JVal v) \<Rightarrow> Value (JVal v)
      | _ \<Rightarrow> (case obj_get d (camelCase n) of Some v \<Rightarrow> Value v | None \<Rightarrow> Undefined))"

definition named_by_string :: "'v name \<Rightarrow> bool" where
  "named_by_string name = (case name of Str _ \<Rightarrow> True | _ \<Rightarrow> False)"

lemma named_by_string_simps [simp]: "named_by_string (Str n)" "\<not> named_by_string (Bag bag)" "\<not> named_by_string Absent"
  by (simp_all add: named_by_string_def)

definition jq_data :: "node_info \<Rightarrow> bool \<Rightarrow> target \<Rightarrow> 'v name \<Rightarrow> 'v jv option \<Rightarrow> 'v dstate
    \<Rightarrow> (js_error + 'v reading) \<times> 'v dstate" where
  "jq_data info pvt t name data st =
     (if \<not> acceptData info t then (Inr Undefined, st)
      else if (case entry_of t st of None \<Rightarrow> True | Some e \<Rightarrow> \<not> pvt \<and> e_data e = None) \<and> named_by_string name \<and> data = None
      then (Inr Undefined, st)
      else
        let st1 = with_entry t (\<lambda>e. case name of Bag bag \<Rightarrow> set_store pvt (put_all bag (store_of pvt e)) e | _ \<Rightarrow> e) st;
            st2 = with_entry t (\<lambda>e. set_store pvt (store_of pvt e) e) st1
        in case name of
             Str n \<Rightarrow>
               (let st3 = (case data of None \<Rightarrow> st2
                           | Some v \<Rightarrow> with_entry t (\<lambda>e. set_store pvt (obj_set (camelCase n) v (store_of pvt e)) e) st2)
                in (Inr (get_data n (case entry_of t st3 of None \<Rightarrow> [] | Some e \<Rightarrow> store_of pvt e)), st3))
           | _ \<Rightarrow>
               (case data of
                  Some v \<Rightarrow> (Inl TypeError, st2)
                | None \<Rightarrow> (Inr (Store (case entry_of t st2 of None \<Rightarrow> [] | Some e \<Rightarrow> store_of pvt e)), st2)))"

section \<open>removeData and cleanData\<close>

text \<open>What becomes of the entry: \<open>cleanData([elem], true)\<close> for a node without events.\<close>

definition clean1 :: "nat \<Rightarrow> 'v dstate \<Rightarrow> 'v dstate" where
  "clean1 n st =
     (case ds_ids st n of
        None \<Rightarrow> st
      | Some i \<Rightarrow>
          if ds_cache st i = None then st
          else st\<lparr>ds_cache := (ds_cache st)(i := None), ds_ids := (ds_ids st)(n := None), ds_deleted := ds_deleted st @ [i]\<rparr>)"

definition cleanData :: "node_info \<Rightarrow> bool \<Rightarrow> nat list \<Rightarrow> 'v dstate \<Rightarrow> 'v dstate" where
  "cleanData info accept elems st = fold (\<lambda>n st. if accept \<or> acceptData info (Node n) then clean1 n st else st) elems st"

definition destroy :: "node_info \<Rightarrow> target \<Rightarrow> 'v dstate \<Rightarrow> 'v dstate" where
  "destroy info t st =
     (case t of Node n \<Rightarrow> cleanData info True [n] st | Plain m \<Rightarrow> st\<lparr>ds_objs := (ds_objs st)(m := None)\<rparr>)"

text \<open>A name, an array of names (\<open>Bag\<close> is not one), or none.\<close>

datatype rm_name = One string | Names "string list" | Everything

definition del_keys :: "string list \<Rightarrow> 'v dict \<Rightarrow> 'v dict" where
  "del_keys ks d = filter (\<lambda>(k, v). k \<notin> set ks) d"

definition keys_to_remove :: "string \<Rightarrow> 'v dict \<Rightarrow> string list" where
  "keys_to_remove n d =
     (if obj_get d n \<noteq> None then [n]
      else if obj_get d (camelCase n) \<noteq> None then [camelCase n]
      else split_at (CHR 0x20) (camelCase n))"

definition removeData :: "node_info \<Rightarrow> bool \<Rightarrow> target \<Rightarrow> rm_name \<Rightarrow> 'v dstate \<Rightarrow> 'v dstate" where
  "removeData info pvt t name st =
     (if \<not> acceptData info t then st
      else case entry_of t st of
        None \<Rightarrow> st
      | Some e \<Rightarrow>
          let named = (name \<noteq> Everything \<and> name \<noteq> One []) \<and> (pvt \<or> e_data e \<noteq> None);
              keys = (case name of One n \<Rightarrow> keys_to_remove n (store_of pvt e) | Names ns \<Rightarrow> ns | Everything \<Rightarrow> []);
              e1 = (if named then set_store pvt (del_keys keys (store_of pvt e)) e else e);
              st1 = with_entry t (\<lambda>_. e1) st
          in if named \<and> \<not> (if pvt then isEmptyDataObject e1 else store_of pvt e1 = []) then st1
             else if pvt then destroy info t st1
             else let e2 = e1\<lparr>e_data := None\<rparr>; st2 = with_entry t (\<lambda>_. e2) st1
                  in if \<not> isEmptyDataObject e2 then st2 else destroy info t st2)"

section \<open>Every node has an id of its own\<close>

definition ds_ok :: "'v dstate \<Rightarrow> bool" where
  "ds_ok st \<longleftrightarrow>
     (\<forall>n n' i. ds_ids st n = Some i \<and> ds_ids st n' = Some i \<longrightarrow> n = n')
     \<and> (\<forall>n i. ds_ids st n = Some i \<longrightarrow> 0 < i \<and> i \<le> ds_uuid st \<and> i \<notin> set (ds_deleted st) \<and> ds_cache st i \<noteq> None)
     \<and> distinct (ds_deleted st) \<and> (\<forall>i \<in> set (ds_deleted st). 0 < i \<and> i \<le> ds_uuid st \<and> ds_cache st i = None)
     \<and> (\<forall>i. ds_uuid st < i \<longrightarrow> ds_cache st i = None)"

lemma no_data_ok: "ds_ok no_data"
  by (simp add: ds_ok_def no_data_def)

lemma last_fresh: "distinct xs \<Longrightarrow> xs \<noteq> [] \<Longrightarrow> last xs \<notin> set (butlast xs)"
  by (metis append_butlast_last_id distinct_append distinct_singleton not_distinct_conv_prefix disjoint_insert(1) list.set(2))

lemma with_entry_ok: "ds_ok st \<Longrightarrow> ds_ok (with_entry t f st)"
proof (cases t)
  case (Node n)
  assume ok: "ds_ok st"
  show ?thesis
  proof (cases "ds_ids st n")
    case (Some i)
    then have "\<not> ds_uuid st < i" using ok by (auto simp: ds_ok_def not_less)
    then show ?thesis using ok Node Some by (auto simp: ds_ok_def with_entry_def take_id_def Let_def)
  next
    case None
    show ?thesis
    proof (cases "ds_deleted st = []")
      case True
      have "ds_ids st m \<noteq> Some (Suc (ds_uuid st))" for m using ok by (auto simp: ds_ok_def) (metis Suc_n_not_le_n)
      then show ?thesis
        using ok None True Node by (auto simp: ds_ok_def with_entry_def take_id_def Let_def) (metis Suc_leD le_SucI)+
    next
      case False
      let ?i = "last (ds_deleted st)"
      have i: "?i \<in> set (ds_deleted st)" "?i \<notin> set (butlast (ds_deleted st))"
        using False ok last_fresh by (auto simp: ds_ok_def)
      then have "ds_ids st m \<noteq> Some ?i" "\<not> ds_uuid st < ?i" for m using ok by (auto simp: ds_ok_def not_less)
      then show ?thesis
        using ok None False Node i
        by (auto simp: ds_ok_def with_entry_def take_id_def Let_def distinct_butlast dest: in_set_butlastD)
    qed
  qed
qed (auto simp: ds_ok_def with_entry_def Let_def)

lemma clean1_ok: "ds_ok st \<Longrightarrow> ds_ok (clean1 n st)"
  by (auto simp: ds_ok_def clean1_def split: option.splits if_splits)

lemma cleanData_ok: "ds_ok st \<Longrightarrow> ds_ok (cleanData info accept elems st)"
  unfolding cleanData_def by (induction elems arbitrary: st) (simp_all add: clean1_ok)

lemma entry_of_with: "ds_ok st \<Longrightarrow> entry_of t' (with_entry t f st) =
    (if t' = t then Some (f (case entry_of t st of None \<Rightarrow> no_entry | Some e \<Rightarrow> e)) else entry_of t' st)"
proof (cases t)
  case (Node n)
  assume ok: "ds_ok st"
  obtain i st1 where id: "take_id n st = (i, st1)" by (cases "take_id n st")
  have st1: "ds_ids st1 n = Some i" "\<And>m. m \<noteq> n \<Longrightarrow> ds_ids st1 m = ds_ids st m" "ds_cache st1 = ds_cache st" "ds_objs st1 = ds_objs st"
    using id by (auto simp: take_id_def Let_def split: option.splits if_splits)
  have "ds_ids st m \<noteq> Some i" if "m \<noteq> n" for m
  proof (cases "ds_ids st n")
    case (Some j)
    then show ?thesis using id that ok by (auto simp: take_id_def ds_ok_def)
  next
    case None
    show ?thesis
    proof (cases "ds_deleted st = []")
      case True
      then show ?thesis using id ok None by (auto simp: take_id_def Let_def ds_ok_def) (metis Suc_n_not_le_n)
    next
      case False
      then have "i \<in> set (ds_deleted st)" using id None by (auto simp: take_id_def Let_def)
      then show ?thesis using ok by (auto simp: ds_ok_def)
    qed
  qed
  moreover have "ds_cache st i = (case ds_ids st n of None \<Rightarrow> None | Some i \<Rightarrow> ds_cache st i)"
  proof (cases "ds_ids st n")
    case None
    then have "i \<in> set (ds_deleted st) \<or> ds_uuid st < i"
      using id by (auto simp: take_id_def Let_def split: if_splits)
    then show ?thesis using None ok by (auto simp: ds_ok_def)
  qed (use id in \<open>auto simp: take_id_def\<close>)
  ultimately show ?thesis
    using st1 Node id by (cases t') (auto simp: with_entry_def entry_of_def Let_def split: option.splits)
next
  case (Plain m)
  then show ?thesis by (cases t') (auto simp: with_entry_def entry_of_def Let_def split: option.splits)
qed

lemma entry_of_clean: "ds_ok st \<Longrightarrow> entry_of t' (clean1 n st) = (if t' = Node n then None else entry_of t' st)"
  by (cases t') (auto simp: ds_ok_def entry_of_def clean1_def split: option.splits)

section \<open>The store as a map\<close>

type_synonym 'v spec = "target \<Rightarrow> bool \<Rightarrow> string \<Rightarrow> 'v jv option"

definition absd :: "'v dstate \<Rightarrow> 'v spec" where
  "absd st t pvt = (case entry_of t st of None \<Rightarrow> Map.empty | Some e \<Rightarrow> map_of (store_of pvt e))"

definition lookup_data :: "(string \<Rightarrow> 'v jv option) \<Rightarrow> string \<Rightarrow> 'v jv option" where
  "lookup_data m n = (case m n of Some (JVal v) \<Rightarrow> Some (JVal v) | _ \<Rightarrow> m (camelCase n))"

definition answer_of :: "'v jv option \<Rightarrow> 'v reading" where
  "answer_of r = (case r of None \<Rightarrow> Undefined | Some v \<Rightarrow> Value v)"

datatype 'v data_op = Put bool target "'v name" "'v jv option" | Remove bool target rm_name | Clean bool "nat list"

definition data_step :: "node_info \<Rightarrow> 'v data_op \<Rightarrow> 'v dstate \<Rightarrow> 'v dstate" where
  "data_step info op st =
     (case op of
        Put pvt t name data \<Rightarrow> snd (jq_data info pvt t name data st)
      | Remove pvt t name \<Rightarrow> removeData info pvt t name st
      | Clean accept elems \<Rightarrow> cleanData info accept elems st)"

definition spec_put :: "'v name \<Rightarrow> 'v jv option \<Rightarrow> (string \<Rightarrow> 'v jv option) \<Rightarrow> string \<Rightarrow> 'v jv option" where
  "spec_put name data m =
     (case name of
        Str n \<Rightarrow> (case data of None \<Rightarrow> m | Some v \<Rightarrow> m(camelCase n \<mapsto> v))
      | Bag bag \<Rightarrow> fold (\<lambda>(k, v) m. m(k \<mapsto> v)) bag m
      | Absent \<Rightarrow> m)"

definition spec_keys :: "rm_name \<Rightarrow> (string \<Rightarrow> 'v jv option) \<Rightarrow> string set" where
  "spec_keys name m =
     (case name of
        One n \<Rightarrow>
          if n = [] then UNIV else if m n \<noteq> None then {n} else if m (camelCase n) \<noteq> None then {camelCase n}
          else set (split_at (CHR 0x20) (camelCase n))
      | Names ns \<Rightarrow> set ns
      | Everything \<Rightarrow> UNIV)"

definition spec_step :: "node_info \<Rightarrow> 'v data_op \<Rightarrow> 'v spec \<Rightarrow> 'v spec" where
  "spec_step info op m =
     (case op of
        Put pvt t name data \<Rightarrow> (if acceptData info t then m(t := (m t)(pvt := spec_put name data (m t pvt))) else m)
      | Remove pvt t name \<Rightarrow>
          if \<not> acceptData info t then m
          else if pvt \<and> name \<in> {Everything, One []} then m(t := \<lambda>_. Map.empty)
          else m(t := (m t)(pvt := m t pvt |` (- spec_keys name (m t pvt))))
      | Clean accept elems \<Rightarrow>
          (\<lambda>t. if \<exists>n \<in> set elems. t = Node n \<and> (accept \<or> acceptData info t) then (\<lambda>_. Map.empty) else m t))"

lemma map_of_set [simp]: "map_of (obj_set k v d) = (map_of d)(k \<mapsto> v)"
  by (simp add: obj_set_def update_conv')

lemma map_of_put_all: "map_of (put_all bag d) = fold (\<lambda>(k, v) m. m(k \<mapsto> v)) bag (map_of d)"
  unfolding put_all_def by (induction bag arbitrary: d) auto

lemma map_of_del: "map_of (del_keys ks d) = map_of d |` (- set ks)"
  by (induction d) (auto simp: del_keys_def restrict_map_def fun_eq_iff)

lemma store_set [simp]: "store_of p (set_store pvt d e) = (if p = pvt then d else store_of p e)"
  by (simp add: store_of_def set_store_def pub_def)

lemma store_no_entry [simp]: "store_of p no_entry = []"
  by (simp add: store_of_def no_entry_def pub_def)

lemma absd_with:
  "ds_ok st \<Longrightarrow> absd (with_entry t f st) =
     (absd st)(t := \<lambda>p. map_of (store_of p (f (case entry_of t st of None \<Rightarrow> no_entry | Some e \<Rightarrow> e))))"
  by (simp add: absd_def entry_of_with fun_eq_iff)

lemma absd_entry: "absd st t p = map_of (store_of p (case entry_of t st of None \<Rightarrow> no_entry | Some e \<Rightarrow> e))"
  by (simp add: absd_def split: option.splits)

lemma absd_update:
  assumes "ds_ok st" "\<And>e p. map_of (store_of p (f e)) = (if p = pvt then g (map_of (store_of p e)) else map_of (store_of p e))"
  shows "absd (with_entry t f st) = (absd st)(t := (absd st t)(pvt := g (absd st t pvt)))"
  by (simp add: absd_with [OF assms(1)] assms(2) absd_entry fun_eq_iff)

lemma get_data_lookup: "get_data n d = answer_of (lookup_data (map_of d) n)"
  by (simp add: get_data_def lookup_data_def answer_of_def obj_get_def split: option.splits jv.splits)

lemma jq_data_ok: "ds_ok st \<Longrightarrow> ds_ok (snd (jq_data info pvt t name data st))"
  by (auto simp: jq_data_def Let_def with_entry_ok split: name.splits option.splits)

lemma jq_data_refines:
  assumes ok: "ds_ok st"
  shows "absd (snd (jq_data info pvt t name data st)) = spec_step info (Put pvt t name data) (absd st)"
proof (cases "acceptData info t")
  case False
  then show ?thesis by (simp add: jq_data_def spec_step_def)
next
  case acc: True
  show ?thesis
  proof (cases "(case entry_of t st of None \<Rightarrow> True | Some e \<Rightarrow> \<not> pvt \<and> e_data e = None) \<and> named_by_string name \<and> data = None")
    case True
    then show ?thesis using acc by (auto simp: jq_data_def spec_step_def spec_put_def named_by_string_def split: name.splits)
  next
    case False
    let ?f1 = "\<lambda>e. case name of Bag bag \<Rightarrow> set_store pvt (put_all bag (store_of pvt e)) e | _ \<Rightarrow> e"
    let ?f2 = "\<lambda>e. set_store pvt (store_of pvt e) e"
    let ?st1 = "with_entry t ?f1 st"
    let ?st2 = "with_entry t ?f2 ?st1"
    have ok1: "ds_ok ?st1" and ok2: "ds_ok ?st2" using ok by (simp_all add: with_entry_ok)
    have "absd ?st1 = (absd st)(t := (absd st t)(pvt :=
        (case name of Bag bag \<Rightarrow> fold (\<lambda>(k, v) m. m(k \<mapsto> v)) bag (absd st t pvt) | _ \<Rightarrow> absd st t pvt)))"
      using absd_update [OF ok, of ?f1 pvt "\<lambda>m. case name of Bag bag \<Rightarrow> fold (\<lambda>(k, v) m. m(k \<mapsto> v)) bag m | _ \<Rightarrow> m" t]
      by (simp add: map_of_put_all split: name.splits)
    moreover have "absd ?st2 = absd ?st1"
      using absd_update [OF ok1, of ?f2 pvt "\<lambda>m. m" t] by simp
    ultimately have st2: "absd ?st2 = (absd st)(t := (absd st t)(pvt :=
        (case name of Bag bag \<Rightarrow> fold (\<lambda>(k, v) m. m(k \<mapsto> v)) bag (absd st t pvt) | _ \<Rightarrow> absd st t pvt)))" by simp
    have st3: "absd (with_entry t (\<lambda>e. set_store pvt (obj_set k v (store_of pvt e)) e) ?st2) =
        (absd ?st2)(t := (absd ?st2 t)(pvt := (absd ?st2 t pvt)(k \<mapsto> v)))" for k v
      using absd_update [OF ok2, of "\<lambda>e. set_store pvt (obj_set k v (store_of pvt e)) e" pvt "\<lambda>m. m(k \<mapsto> v)" t] by simp
    show ?thesis
    proof (cases name)
      case (Str n)
      then show ?thesis
        using acc False st2 st3 unfolding jq_data_def Let_def
        by (cases data) (simp_all add: spec_step_def spec_put_def)
    qed (use acc st2 in \<open>simp_all add: jq_data_def Let_def spec_step_def spec_put_def split: option.splits\<close>)
  qed
qed

lemma absd_clean: "ds_ok st \<Longrightarrow> absd (clean1 n st) = (absd st)(Node n := \<lambda>_. Map.empty)"
  by (auto simp: absd_def entry_of_clean fun_eq_iff)

lemma absd_cleanData:
  "ds_ok st \<Longrightarrow> absd (cleanData info accept elems st) = spec_step info (Clean accept elems) (absd st)"
proof (induction elems arbitrary: st)
  case Nil
  then show ?case by (simp add: cleanData_def spec_step_def)
next
  case (Cons n elems)
  let ?st1 = "if accept \<or> acceptData info (Node n) then clean1 n st else st"
  have "ds_ok ?st1" using Cons.prems by (simp add: clean1_ok)
  then have "absd (cleanData info accept (n # elems) st) = spec_step info (Clean accept elems) (absd ?st1)"
    using Cons.IH by (simp add: cleanData_def)
  then show ?case using Cons.prems by (auto simp: absd_clean spec_step_def fun_eq_iff)
qed

lemma destroy_ok: "ds_ok st \<Longrightarrow> ds_ok (destroy info t st)"
  using cleanData_ok [of st info True] by (cases t) (auto simp: destroy_def ds_ok_def [of "st\<lparr>ds_objs := _\<rparr>"] ds_ok_def [of st])

lemma absd_destroy: "ds_ok st \<Longrightarrow> absd (destroy info t st) = (absd st)(t := \<lambda>_. Map.empty)"
  by (cases t) (auto simp: destroy_def cleanData_def absd_clean absd_def entry_of_def fun_eq_iff split: target.splits option.splits)

lemma removeData_ok: "ds_ok st \<Longrightarrow> ds_ok (removeData info pvt t name st)"
  by (auto simp: removeData_def Let_def with_entry_ok destroy_ok split: option.splits)

lemma keys_spec: "set (keys_to_remove n d) = (if n = [] then set (keys_to_remove [] d) else spec_keys (One n) (map_of d))"
  by (simp add: keys_to_remove_def spec_keys_def obj_get_def)

lemma empty_entry: "isEmptyDataObject e \<longleftrightarrow> pub e = [] \<and> e_pvt e = []"
  by (auto simp: isEmptyDataObject_def pub_def split: option.splits)

lemma removeData_refines:
  assumes ok: "ds_ok st"
  shows "absd (removeData info pvt t name st) = spec_step info (Remove pvt t name) (absd st)"
proof (cases "acceptData info t")
  case False
  then show ?thesis by (simp add: removeData_def spec_step_def)
next
  case acc: True
  show ?thesis
  proof (cases "entry_of t st")
    case None
    then show ?thesis using acc by (auto simp: removeData_def spec_step_def absd_def fun_eq_iff)
  next
    case (Some e)
    have m: "absd st t p = map_of (store_of p e)" for p using Some by (simp add: absd_def)
    define named where "named \<longleftrightarrow> (name \<noteq> Everything \<and> name \<noteq> One []) \<and> (pvt \<or> e_data e \<noteq> None)"
    define keys where "keys = (case name of One n \<Rightarrow> keys_to_remove n (store_of pvt e) | Names ns \<Rightarrow> ns | Everything \<Rightarrow> [])"
    define e1 where "e1 = (if named then set_store pvt (del_keys keys (store_of pvt e)) e else e)"
    define st1 where "st1 = with_entry t (\<lambda>_. e1) st"
    have ok1: "ds_ok st1" unfolding st1_def by (rule with_entry_ok [OF ok])
    have st1: "absd st1 = (absd st)(t := \<lambda>p. map_of (store_of p e1))" unfolding st1_def by (simp add: absd_with [OF ok])
    have dead: "absd (destroy info t s) = (absd st)(t := \<lambda>_. Map.empty)" if "ds_ok s" "\<forall>t'. t' \<noteq> t \<longrightarrow> absd s t' = absd st t'" for s
      using absd_destroy [OF that(1)] that(2) by (auto simp: fun_eq_iff)
    have e1: "map_of (store_of p e1) = (if named \<and> p = pvt then map_of (store_of p e) |` (- set keys) else map_of (store_of p e))" for p
      by (simp add: e1_def map_of_del)
    have run: "removeData info pvt t name st =
        (if named \<and> \<not> (if pvt then isEmptyDataObject e1 else store_of pvt e1 = []) then st1
         else if pvt then destroy info t st1
         else let e2 = e1\<lparr>e_data := None\<rparr>; st2 = with_entry t (\<lambda>_. e2) st1
              in if \<not> isEmptyDataObject e2 then st2 else destroy info t st2)"
      using acc Some unfolding removeData_def named_def keys_def e1_def st1_def Let_def by simp
    define S where "S = (\<lambda>p. if pvt \<and> name \<in> {Everything, One []} then Map.empty
        else if p = pvt then map_of (store_of p e) |` (- spec_keys name (map_of (store_of p e))) else map_of (store_of p e))"
    have spec: "spec_step info (Remove pvt t name) (absd st) = (absd st)(t := S)"
      using acc by (auto simp: spec_step_def S_def m intro!: ext)
    have S1: "S = (\<lambda>p. map_of (store_of p e1))" if named
      using that by (cases name) (auto simp: S_def e1 named_def keys_def keys_spec fun_eq_iff, auto simp: spec_keys_def)
    have S2: "S = (\<lambda>p. if p then map_of (e_pvt e) else Map.empty)" if "\<not> named" "\<not> pvt"
      using that by (cases name) (auto simp: S_def named_def store_of_def pub_def spec_keys_def fun_eq_iff)
    have S3: "S = (\<lambda>_. Map.empty)" if "\<not> named" pvt
      using that by (auto simp: S_def named_def)
    have e2: "store_of p (e1\<lparr>e_data := None\<rparr>) = (if p then e_pvt e1 else [])" for p
      by (simp add: store_of_def pub_def)
    show ?thesis
    proof (cases "named \<and> \<not> (if pvt then isEmptyDataObject e1 else store_of pvt e1 = [])")
      case True
      then show ?thesis using run spec S1 st1 by simp
    next
      case rest: False
      show ?thesis
      proof (cases pvt)
        case True
        have "S = (\<lambda>_. Map.empty)"
          using rest True S1 S3 by (cases named) (auto simp: empty_entry store_of_def fun_eq_iff)
        moreover have "removeData info pvt t name st = destroy info t st1" using rest True unfolding run by auto
        ultimately show ?thesis using spec dead [OF ok1] st1 by simp
      next
        case False
        let ?e2 = "e1\<lparr>e_data := None\<rparr>"
        let ?st2 = "with_entry t (\<lambda>_. ?e2) st1"
        have ok2: "ds_ok ?st2" by (rule with_entry_ok [OF ok1])
        have st2: "absd ?st2 = (absd st)(t := \<lambda>p. if p then map_of (e_pvt e1) else Map.empty)"
          by (simp add: absd_with [OF ok1] st1 e2 fun_eq_iff)
        have pvt_e1: "e_pvt e1 = e_pvt e" using False by (simp add: e1_def set_store_def)
        have S: "S = (\<lambda>p. if p then map_of (e_pvt e1) else Map.empty)"
          using rest False S1 S2 pvt_e1 by (cases named) (auto simp: store_of_def fun_eq_iff)
        show ?thesis
        proof (cases "isEmptyDataObject ?e2")
          case True
          then have "S = (\<lambda>_. Map.empty)" using S by (auto simp: empty_entry fun_eq_iff)
          moreover have "removeData info pvt t name st = destroy info t ?st2" using rest False True unfolding run by (auto simp: Let_def)
          ultimately show ?thesis using spec dead [OF ok2] st2 by simp
        next
          case nonempty: False
          then have "removeData info pvt t name st = ?st2" using rest False nonempty unfolding run by (auto simp: Let_def)
          then show ?thesis using spec st2 S by simp
        qed
      qed
    qed
  qed
qed

lemma data_step_ok: "ds_ok st \<Longrightarrow> ds_ok (data_step info op st)"
  by (cases op) (simp_all add: data_step_def jq_data_ok removeData_ok cleanData_ok)

lemma data_step_refines: "ds_ok st \<Longrightarrow> absd (data_step info op st) = spec_step info op (absd st)"
  by (cases op) (simp_all add: data_step_def jq_data_refines removeData_refines absd_cleanData)

lemma data_steps_refine:
  "ds_ok st \<Longrightarrow> ds_ok (fold (data_step info) ops st) \<and> absd (fold (data_step info) ops st) = fold (spec_step info) ops (absd st)"
  by (induction ops arbitrary: st) (simp_all add: data_step_ok data_step_refines)

lemma read_data:
  assumes "ds_ok st"
  shows "fst (jq_data info pvt t (Str n) None st) = Inr (if acceptData info t then answer_of (lookup_data (absd st t pvt) n) else Undefined)"
proof (cases "acceptData info t")
  case True

  show ?thesis
  proof (cases "case entry_of t st of None \<Rightarrow> True | Some e \<Rightarrow> \<not> pvt \<and> e_data e = None")
    case early: True
    then have "absd st t pvt = Map.empty" by (auto simp: absd_def store_of_def pub_def split: option.splits)
    then show ?thesis using True early by (auto simp: jq_data_def lookup_data_def answer_of_def named_by_string_def split: option.splits)
  next
    case False
    let ?st2 = "with_entry t (\<lambda>e. set_store pvt (store_of pvt e) e) (with_entry t (\<lambda>e. e) st)"
    have ok1: "ds_ok (with_entry t (\<lambda>e. e) st)" by (rule with_entry_ok [OF assms])
    have "absd ?st2 = absd (with_entry t (\<lambda>e. e) st)"
      using absd_update [OF ok1, of "\<lambda>e. set_store pvt (store_of pvt e) e" pvt "\<lambda>m. m" t] by simp
    also have "\<dots> = absd st" using absd_update [OF assms, of "\<lambda>e. e" pvt "\<lambda>m. m" t] by simp
    finally have "map_of (case entry_of t ?st2 of None \<Rightarrow> [] | Some e \<Rightarrow> store_of pvt e) = absd st t pvt"
      by (metis (no_types, lifting) absd_entry option.case_eq_if store_no_entry)
    then show ?thesis using True False by (auto simp: jq_data_def Let_def get_data_lookup split: option.splits)
  qed
qed (simp add: jq_data_def)


text \<open>Two nodes never have the same id, though the ids of cleaned nodes are given out again: an id in use is between
  1 and the counter, is not waiting to be used again and has an entry.\<close>

theorem ids_are_unique:
  assumes "ds_ids (fold (data_step info) ops no_data) n = Some i" "n' \<noteq> n"
  shows "ds_ids (fold (data_step info) ops no_data) n' \<noteq> Some i \<and> 0 < i \<and> i \<le> ds_uuid (fold (data_step info) ops no_data)
    \<and> i \<notin> set (ds_deleted (fold (data_step info) ops no_data)) \<and> ds_cache (fold (data_step info) ops no_data) i \<noteq> None"
  using data_steps_refine [OF no_data_ok, of info ops] assms unfolding ds_ok_def by blast

definition plain_info :: node_info where
  "plain_info n = (''DIV'', None)"

theorem ids_are_unique_witness:
  "ds_ids (fold (data_step plain_info) [Put True (Node 0) (Str ''a'') (Some (JVal (5 :: nat))), Clean False [0],
      Put False (Node 1) (Str ''b'') (Some JNull)] no_data) 0 \<noteq> Some 1"
proof -
  let ?ops = "[Put True (Node 0) (Str ''a'') (Some (JVal (5 :: nat))), Clean False [0], Put False (Node 1) (Str ''b'') (Some JNull)]"
  have "ds_ids (fold (data_step plain_info) ?ops no_data) 1 = Some 1" by code_simp
  from ids_are_unique [OF this, of 0] show ?thesis by simp
qed

text \<open>A value that came in an object under a dashed name hides every later one: setting the name again stores under the
  camel case name, but the old key is read first, so that even the call that sets the value returns the old
  one.\<close>

theorem bag_value_hides_later:
  assumes "acceptData info t" "camelCase n \<noteq> n" "st = fold (data_step info) ops no_data"
  shows "fst (jq_data info False t (Str n) None
      (data_step info (Put False t (Str n) (Some (JVal w))) (data_step info (Put False t (Bag [(n, JVal v)]) None) st))) = Inr (Value (JVal v))"
proof -
  have ok: "ds_ok st" unfolding assms(3) using data_steps_refine [OF no_data_ok] by blast
  let ?st1 = "data_step info (Put False t (Bag [(n, JVal v)]) None) st"
  have ok1: "ds_ok ?st1" by (rule data_step_ok [OF ok])
  have "absd (data_step info (Put False t (Str n) (Some (JVal w))) ?st1) t False n = Some (JVal v)"
    using assms(1,2) by (simp add: data_step_refines [OF ok1] data_step_refines [OF ok] spec_step_def spec_put_def)
  then show ?thesis
    using assms(1) by (simp add: read_data [OF data_step_ok [OF ok1]] lookup_data_def answer_of_def)
qed

theorem bag_value_hides_later_witness:
  "fst (jq_data plain_info False (Node 3) (Str ''a-b'') None (data_step plain_info (Put False (Node 3) (Str ''a-b'') (Some (JVal (2 :: nat))))
      (data_step plain_info (Put False (Node 3) (Bag [(''a-b'', JVal 1)]) None) no_data))) = Inr (Value (JVal 1))"
proof -
  have "acceptData plain_info (Node 3)" "camelCase ''a-b'' \<noteq> ''a-b''" by code_simp+
  from bag_value_hides_later [OF this, of no_data "[]" "2 :: nat" 1] show ?thesis by simp
qed

end
