(* ===== verification/JqParam.thy ===== *)
theory JqParam
  imports JqClass
begin

text \<open>
  \<open>jQuery.param\<close> and \<open>buildParams\<close> of \<open>jquery.js\<close>: a query string from form fields or from nested
  arrays and objects, with \<open>encodeURIComponent\<close> on the characters up to 255. The lemmas say that a reader of query
  strings gets the fields back.
\<close>

section \<open>Values\<close>

text \<open>\<open>PBoxed\<close>: an object that is not a plain one, with its string (a date, for instance). \<open>PFun\<close>: a
  function, with the string of what it returns.\<close>

datatype pvalue =
  PNull | PUndef | PScalar string | PBoxed string | PFun string | PArr "pvalue list" | PObj "(string \<times> pvalue) list"

text \<open>\<open>String(value)\<close>\<close>

fun pstring :: "pvalue \<Rightarrow> string" where
  "pstring PNull = ''null''"
| "pstring PUndef = ''undefined''"
| "pstring (PScalar s) = s"
| "pstring (PBoxed s) = s"
| "pstring (PFun s) = s"
| "pstring (PArr vs) = js_join '','' (map (\<lambda>v. if v = PNull \<or> v = PUndef then [] else pstring v) vs)"
| "pstring (PObj ps) = ''[object Object]''"

text \<open>What \<open>add\<close> makes of a value.\<close>

definition field_value :: "pvalue \<Rightarrow> string" where
  "field_value v = (case v of PNull \<Rightarrow> [] | PUndef \<Rightarrow> [] | _ \<Rightarrow> pstring v)"

definition typeof_object :: "pvalue \<Rightarrow> bool" where
  "typeof_object v = (case v of PNull \<Rightarrow> True | PBoxed _ \<Rightarrow> True | PArr _ \<Rightarrow> True | PObj _ \<Rightarrow> True | _ \<Rightarrow> False)"

section \<open>encodeURIComponent\<close>

definition hex_upper :: "nat \<Rightarrow> char" where
  "hex_upper n = (if n < 10 then char_of (48 + n) else char_of (55 + n))"

definition percent :: "nat \<Rightarrow> string" where
  "percent n = [CHR 0x25, hex_upper (n div 16), hex_upper (n mod 16)]"

definition unreserved :: "char \<Rightarrow> bool" where
  "unreserved c = (let n = of_char c :: nat in
     48 \<le> n \<and> n \<le> 57 \<or> 65 \<le> n \<and> n \<le> 90 \<or> 97 \<le> n \<and> n \<le> 122 \<or> n \<in> {33, 39, 40, 41, 42, 45, 46, 95, 126})"

definition encode1 :: "char \<Rightarrow> string" where
  "encode1 c = (let n = of_char c :: nat in
     if unreserved c then [c]
     else if n < 128 then percent n
     else percent (192 + n div 64) @ percent (128 + n mod 64))"

definition encodeURIComponent :: "string \<Rightarrow> string" where
  "encodeURIComponent s = concat (map encode1 s)"

section \<open>param\<close>

text \<open>\<open>rbracket\<close>: the prefix ends in a pair of brackets.\<close>

definition rbracket :: "string \<Rightarrow> bool" where
  "rbracket pre \<longleftrightarrow> (case rev pre of a # b # _ \<Rightarrow> a = CHR '']'' \<and> b = CHR ''['' | _ \<Rightarrow> False)"

fun buildParams :: "bool \<Rightarrow> string \<Rightarrow> pvalue \<Rightarrow> (string \<times> pvalue) list"
  and build_items :: "bool \<Rightarrow> string \<Rightarrow> nat \<Rightarrow> pvalue list \<Rightarrow> (string \<times> pvalue) list"
  and build_props :: "bool \<Rightarrow> string \<Rightarrow> (string \<times> pvalue) list \<Rightarrow> (string \<times> pvalue) list" where
  "buildParams traditional pre (PArr vs) = build_items traditional pre 0 vs"
| "buildParams traditional pre (PObj ps) =
     (if traditional then [(pre, PObj ps)] else build_props traditional pre ps)"
| "buildParams traditional pre v = [(pre, v)]"
| "build_items traditional pre i [] = []"
| "build_items traditional pre i (v # vs) =
     (if traditional \<or> rbracket pre then [(pre, v)]
      else buildParams traditional (pre @ ''['' @ (if typeof_object v then nat_dec i else []) @ '']'') v)
     @ build_items traditional pre (Suc i) vs"
| "build_props traditional pre [] = []"
| "build_props traditional pre ((name, v) # ps) =
     buildParams traditional (pre @ ''['' @ name @ '']'') v @ build_props traditional pre ps"

datatype param_arg = Form "(string \<times> pvalue) list" | Dict "(string \<times> pvalue) list"

text \<open>\<open>r20\<close>: every \<open>%20\<close> becomes a plus_text sign.\<close>

fun replace20 :: "string \<Rightarrow> string" where
  "replace20 (a # b # c # s) =
     (if a = CHR 0x25 \<and> b = CHR ''2'' \<and> c = CHR ''0'' then CHR ''+'' # replace20 s else a # replace20 (b # c # s))"
| "replace20 s = s"

definition params_of :: "bool \<Rightarrow> param_arg \<Rightarrow> (string \<times> pvalue) list" where
  "params_of traditional a =
     (case a of
        Form fs \<Rightarrow> fs
      | Dict ps \<Rightarrow> concat (map (\<lambda>(pre, v). buildParams traditional pre v) ps))"

definition add_param :: "string \<times> pvalue \<Rightarrow> string" where
  "add_param f = encodeURIComponent (fst f) @ ''='' @ encodeURIComponent (field_value (snd f))"

definition jq_param :: "bool \<Rightarrow> param_arg \<Rightarrow> string" where
  "jq_param traditional a = replace20 (js_join ''&'' (map add_param (params_of traditional a)))"

section \<open>Forms\<close>

text \<open>What \<open>val()\<close> of a control gives.\<close>

datatype control_value = NoValue | OneValue string | ManyValues "string list"

record control =
  ct_name :: string
  ct_disabled :: bool
  ct_checked :: bool
  ct_nodeName :: string
  ct_type :: string
  ct_val :: control_value

datatype form_element = FormOf "control list" | Alone control

text \<open>\<open>replace(/\r?\n/g, "\r\n")\<close>\<close>

fun crlf :: "string \<Rightarrow> string" where
  "crlf (c # d # s) =
     (if c = CHR 0x0D \<and> d = CHR 0x0A then c # d # crlf s
      else if c = CHR 0x0A then CHR 0x0D # c # crlf (d # s) else c # crlf (d # s))"
| "crlf [c] = (if c = CHR 0x0A then [CHR 0x0D, c] else [c])"
| "crlf [] = []"

definition input_types :: "string list" where
  "input_types = [''color'', ''date'', ''datetime'', ''datetime-local'', ''email'', ''hidden'', ''month'', ''number'', ''password'',
     ''range'', ''search'', ''tel'', ''text'', ''time'', ''url'', ''week'']"

definition submitted :: "control \<Rightarrow> bool" where
  "submitted c \<longleftrightarrow> ct_name c \<noteq> [] \<and> \<not> ct_disabled c
     \<and> (ct_checked c \<or> prefix ''select'' (map to_lower (ct_nodeName c)) \<or> prefix ''textarea'' (map to_lower (ct_nodeName c))
        \<or> map to_lower (ct_type c) \<in> set input_types)"

definition control_fields :: "control \<Rightarrow> (string \<times> string) list" where
  "control_fields c =
     (case ct_val c of
        NoValue \<Rightarrow> []
      | OneValue v \<Rightarrow> [(ct_name c, crlf v)]
      | ManyValues vs \<Rightarrow> map (\<lambda>v. (ct_name c, crlf v)) vs)"

definition serializeArray :: "form_element list \<Rightarrow> (string \<times> string) list" where
  "serializeArray els =
     concat (map control_fields (filter submitted
       (concat (map (\<lambda>e. case e of FormOf cs \<Rightarrow> cs | Alone c \<Rightarrow> [c]) els))))"

definition serialize :: "bool \<Rightarrow> form_element list \<Rightarrow> string" where
  "serialize traditional els = jq_param traditional (Form (map (\<lambda>(n, v). (n, PScalar v)) (serializeArray els)))"

section \<open>Reading a query string\<close>

definition hex_value :: "char \<Rightarrow> nat" where
  "hex_value c = (let n = of_char c in if n < 58 then n - 48 else n - 55)"

text \<open>Plus signs are blanks, percent codes are bytes, bytes above 127 come in pairs.\<close>

fun bytes_of :: "string \<Rightarrow> nat list" where
  "bytes_of (a # b # c # s) =
     (if a = CHR 0x25 then (16 * hex_value b + hex_value c) # bytes_of s
      else (if a = CHR ''+'' then 32 else of_char a) # bytes_of (b # c # s))"
| "bytes_of (a # s) = (if a = CHR ''+'' then 32 else of_char a) # bytes_of s"
| "bytes_of [] = []"

fun chars_of :: "nat list \<Rightarrow> string" where
  "chars_of (a # b # s) = (if 192 \<le> a then char_of ((a - 192) * 64 + (b - 128)) # chars_of s else char_of a # chars_of (b # s))"
| "chars_of [a] = [char_of a]"
| "chars_of [] = []"

definition decode :: "string \<Rightarrow> string" where
  "decode s = chars_of (bytes_of s)"

definition read_field :: "string \<Rightarrow> string \<times> string" where
  "read_field s = (decode (takeWhile (\<lambda>c. c \<noteq> CHR ''='') s), decode (drop 1 (dropWhile (\<lambda>c. c \<noteq> CHR ''='') s)))"

definition read_query :: "string \<Rightarrow> (string \<times> string) list" where
  "read_query s = (if s = [] then [] else map read_field (split_at (CHR ''&'') s))"

section \<open>Round trip\<close>

definition plus1 :: "char \<Rightarrow> string" where
  "plus1 c = (if c = CHR 0x20 then ''+'' else encode1 c)"

definition plus_text :: "string \<Rightarrow> string" where
  "plus_text s = concat (map plus1 s)"

lemma hex_upper_code: "n < 16 \<Longrightarrow> of_char (hex_upper n) = (if n < 10 then 48 + n else 55 + n :: nat)"
  by (simp add: hex_upper_def of_char_of)

lemma of_char_less_256: "(of_char (c :: char) :: nat) < 256"
  by (metis of_char_mod_256 mod_less_divisor zero_less_numeral)

lemma byte_bounds:
  fixes n :: nat
  assumes "n < 256"
  shows "n div 16 < 16" "192 + n div 64 < 256" "128 + n mod 64 < 256" "192 + n div 64 \<noteq> 32" "128 + n mod 64 \<noteq> 32"
proof -
  have "n div 64 < 4" "n mod 64 < 64" using assms by (simp_all add: less_mult_imp_div_less)
  then show "192 + n div 64 < 256" "128 + n mod 64 < 256" "192 + n div 64 \<noteq> 32" "128 + n mod 64 \<noteq> 32" by linarith+
  show "n div 16 < 16" using assms by (simp add: less_mult_imp_div_less)
qed

lemmas byte_of_char = byte_bounds [OF of_char_less_256]

lemma hex_upper_is: "n < 16 \<Longrightarrow> hex_upper n = c \<longleftrightarrow> (if n < 10 then 48 + n else 55 + n :: nat) = of_char c"
  by (metis hex_upper_code of_char_eq_iff)

lemma hex_upper_not_percent: "n < 16 \<Longrightarrow> hex_upper n \<noteq> CHR 0x25"
  and hex_upper_two: "n < 16 \<Longrightarrow> hex_upper n = CHR ''2'' \<longleftrightarrow> n = 2"
  and hex_upper_zero: "n < 16 \<Longrightarrow> hex_upper n = CHR ''0'' \<longleftrightarrow> n = 0"
  by (auto simp: hex_upper_is)

lemma hex_value_upper: "n < 16 \<Longrightarrow> hex_value (hex_upper n) = n"
  by (simp add: hex_value_def hex_upper_code)

lemma replace20_other: "c \<noteq> CHR 0x25 \<Longrightarrow> replace20 (c # s) = c # replace20 s"
  by (cases s rule: replace20.cases) (auto split: list.splits)

lemma replace20_percent:
  assumes "n < 256"
  shows "replace20 (percent n @ s) = (if n = 32 then ''+'' else percent n) @ replace20 s"
proof -
  have d: "n div 16 < 16" "n mod 16 < 16" using assms by simp_all
  have "n = 32 \<longleftrightarrow> n div 16 = 2 \<and> n mod 16 = 0" by presburger
  then show ?thesis
    by (simp add: percent_def hex_upper_two [OF d(1)] hex_upper_zero [OF d(2)] replace20_other hex_upper_not_percent d)
qed

lemma unreserved_codes: "unreserved c \<Longrightarrow> c \<noteq> CHR 0x25 \<and> c \<noteq> CHR 0x20 \<and> c \<noteq> CHR ''+'' \<and> c \<noteq> CHR ''&'' \<and> c \<noteq> CHR ''=''"
  by (auto simp: unreserved_def Let_def)

lemma replace20_encode1: "replace20 (encode1 c @ s) = plus1 c @ replace20 s"
proof (cases "unreserved c")
  case True
  then show ?thesis using unreserved_codes [OF True] by (simp add: encode1_def plus1_def replace20_other)
next
  case False
  let ?n = "of_char c :: nat"
  have "c = CHR 0x20 \<longleftrightarrow> ?n = of_char (CHR 0x20)" by (simp only: of_char_eq_iff)
  then have "?n = 32 \<longleftrightarrow> c = CHR 0x20" by simp
  then show ?thesis
    using False byte_of_char [of c] by (simp add: encode1_def plus1_def Let_def replace20_percent)
qed

lemma replace20_encode: "replace20 (encodeURIComponent s @ t) = plus_text s @ replace20 t"
  by (induction s) (simp_all add: encodeURIComponent_def plus_text_def replace20_encode1)

definition plus_field :: "string \<times> pvalue \<Rightarrow> string" where
  "plus_field f = plus_text (fst f) @ ''='' @ plus_text (field_value (snd f))"

lemma replace20_field: "replace20 (add_param f @ t) = plus_field f @ replace20 t"
  by (simp add: add_param_def plus_field_def replace20_encode replace20_other)

lemma replace20_fields: "replace20 (js_join ''&'' (map add_param fs)) = js_join ''&'' (map plus_field fs)"
proof (induction fs)
  case (Cons f fs)
  show ?case
  proof (cases fs)
    case Nil
    then show ?thesis using replace20_field [of f "[]"] by simp
  next
    case (Cons g gs)
    then show ?thesis using Cons.IH by (simp add: replace20_field replace20_other)
  qed
qed simp

definition utf8 :: "char \<Rightarrow> nat list" where
  "utf8 c = (let n = of_char c in if n < 128 then [n] else [192 + n div 64, 128 + n mod 64])"

lemma bytes_other: "c \<noteq> CHR 0x25 \<Longrightarrow> bytes_of (c # s) = (if c = CHR ''+'' then 32 else of_char c) # bytes_of s"
  by (cases s rule: replace20.cases) auto

lemma bytes_percent: "n < 256 \<Longrightarrow> bytes_of (percent n @ s) = n # bytes_of s"
  by (simp add: percent_def hex_value_upper)

lemma bytes_plus1: "bytes_of (plus1 c @ s) = utf8 c @ bytes_of s"
proof (cases "unreserved c \<or> c = CHR 0x20")
  case True
  then show ?thesis
    using unreserved_codes [of c] by (auto simp: plus1_def encode1_def bytes_other utf8_def unreserved_def Let_def)
next
  case False
  let ?n = "of_char c :: nat"
  show ?thesis using False byte_of_char [of c] by (simp add: plus1_def encode1_def utf8_def Let_def bytes_percent)
qed

lemma chars_utf8: "chars_of (utf8 c @ s) = c # chars_of s"
proof (cases "(of_char c :: nat) < 128")
  case True
  then show ?thesis by (cases s) (simp_all add: utf8_def Let_def)
next
  case False
  have "(of_char c div 64) * 64 + of_char c mod 64 = (of_char c :: nat)" by simp
  then show ?thesis using False by (simp add: utf8_def Let_def)
qed

lemma decode_plus: "decode (plus_text s) = s"
proof -
  have "bytes_of (plus_text s) = concat (map utf8 s)" unfolding plus_text_def
    by (induction s) (simp_all add: bytes_plus1)
  moreover have "chars_of (concat (map utf8 s)) = s" by (induction s) (simp_all add: chars_utf8)
  ultimately show ?thesis by (simp add: decode_def)
qed

lemma hex_upper_letter: "n < 16 \<Longrightarrow> hex_upper n \<noteq> CHR ''&'' \<and> hex_upper n \<noteq> CHR ''=''"
  by (auto simp: hex_upper_is)

lemma percent_chars:
  assumes "n < 256"
  shows "CHR ''&'' \<notin> set (percent n)" "CHR ''='' \<notin> set (percent n)"
  using hex_upper_letter [OF byte_bounds(1) [OF assms]] hex_upper_letter [of "n mod 16"] by (auto simp: percent_def)

lemma plus1_chars: "CHR ''&'' \<notin> set (plus1 c) \<and> CHR ''='' \<notin> set (plus1 c)"
proof (cases "unreserved c \<or> c = CHR 0x20")
  case True
  then show ?thesis using unreserved_codes [of c] by (auto simp: plus1_def encode1_def)
next
  case False
  let ?n = "of_char c :: nat"
  show ?thesis using False byte_of_char [of c] percent_chars by (simp add: plus1_def encode1_def Let_def)
qed

lemma plus_chars: "CHR ''&'' \<notin> set (plus_text s)" "CHR ''='' \<notin> set (plus_text s)"
  using plus1_chars by (auto simp: plus_text_def)

lemma split_join: "ss \<noteq> [] \<Longrightarrow> \<forall>s \<in> set ss. x \<notin> set s \<Longrightarrow> split_at x (js_join [x] ss) = ss"
  by (induction "[x]" ss rule: js_join.induct) (simp_all add: split_at_none split_at_next)

lemma read_plus_field: "read_field (plus_field f) = (fst f, field_value (snd f))"
proof -
  have t: "takeWhile (\<lambda>c. c \<noteq> CHR ''='') (u @ ''='' @ v) = u" "dropWhile (\<lambda>c. c \<noteq> CHR ''='') (u @ ''='' @ v) = ''='' @ v"
    if "CHR ''='' \<notin> set u" for u v
    using that by (auto simp: takeWhile_append dropWhile_append takeWhile_eq_all_conv)
  show ?thesis unfolding read_field_def plus_field_def t [OF plus_chars(2)] by (simp add: decode_plus)
qed

lemma read_param:
  "read_query (jq_param traditional a) = map (\<lambda>(name, v). (name, field_value v)) (params_of traditional a)"
proof (cases "params_of traditional a")
  case Nil
  then show ?thesis by (simp add: jq_param_def read_query_def)
next
  case (Cons f fs)
  let ?ss = "map plus_field (f # fs)"
  have q: "jq_param traditional a = js_join ''&'' ?ss" unfolding jq_param_def Cons by (rule replace20_fields)
  have "jq_param traditional a \<noteq> []" unfolding q by (cases fs) (simp_all add: plus_field_def)
  moreover have "split_at (CHR ''&'') (js_join ''&'' ?ss) = ?ss"
    by (rule split_join) (use plus_chars in \<open>auto simp: plus_field_def\<close>)
  ultimately show ?thesis
    unfolding read_query_def Cons by (simp add: q read_plus_field split_beta)
qed

lemma read_serialized: "read_query (serialize traditional els) = serializeArray els"
  by (auto simp: serialize_def read_param params_of_def field_value_def intro!: map_idI)

lemma crlf_line_ends: "filter (\<lambda>c. c \<noteq> CHR 0x0D) (crlf s) = filter (\<lambda>c. c \<noteq> CHR 0x0D) s"
  by (induction s rule: crlf.induct) auto

text \<open>C22: A query string is read back: whatever the names and values (blanks, ampersands, percent and plus signs, accented
  letters), splitting \<open>jQuery.param\<close>'s string at the ampersands and equal signs and decoding gives the list of
  fields that the argument stands for, in order; so a serialized form is read as the name and value of every control that is
  submitted.\<close>

theorem param_read_back:
  "read_query (jq_param traditional a) = map (\<lambda>(name, v). (name, field_value v)) (params_of traditional a)
   \<and> read_query (serialize traditional els) = serializeArray els"
  by (simp add: read_param read_serialized)

end
