(* ===== verification/JqAjax.thy ===== *)
theory JqAjax
  imports JqClass
begin

text \<open>
  How \<open>jquery.js\<close> treats an answer: the tables of prefilters and transports, the choice of the response
  that fits the expected data types (\<open>ajaxHandleResponses\<close>) and the chain of conversions
  (\<open>ajaxConvert\<close>). What prefilters, transports, converters and content tests do is an argument.
\<close>

section \<open>Prefilters and transports\<close>

text \<open>What such a function returns: nothing, a data type to go on with, or a transport.\<close>

datatype 't selection = NoSel | Redirect string | Transport 't

type_synonym 'f table = "(string \<times> 'f list) list"

definition funs_for :: "'f table \<Rightarrow> string \<Rightarrow> 'f list" where
  "funs_for structure dataType = (case obj_get structure dataType of None \<Rightarrow> [] | Some fs \<Rightarrow> fs)"

definition add1 :: "'f \<Rightarrow> string \<Rightarrow> 'f table \<Rightarrow> 'f table" where
  "add1 f word structure =
     (let placeBefore = (case word of c # _ \<Rightarrow> c = CHR ''+'' | [] \<Rightarrow> False);
          dataType = (if placeBefore then (if tl word = [] then ''*'' else tl word) else word);
          fs = funs_for structure dataType
      in obj_set dataType (if placeBefore then f # fs else fs @ [f]) structure)"

text \<open>The data types are optional.\<close>

definition addToPrefiltersOrTransports :: "string option \<Rightarrow> 'f \<Rightarrow> 'f table \<Rightarrow> 'f table" where
  "addToPrefiltersOrTransports dataTypeExpression f structure =
     (let e = (case dataTypeExpression of None \<Rightarrow> ''*'' | Some e \<Rightarrow> e)
      in fold (add1 f) (js_split spaceRe (map to_lower e)) structure)"

text \<open>The options of a request: its data types, and what else the functions may change.\<close>

record 'o options =
  op_dataTypes :: "string list"
  op_rest :: 'o

type_synonym ('f, 't, 'o) behaviour = "'f \<Rightarrow> 'o options \<Rightarrow> 't selection \<times> 'o options"

text \<open>
  The options and the set of inspected types change on the way. \<open>None\<close>: the fuel did not
  suffice; every inspected type takes one.
\<close>

fun inspect :: "('f, 't, 'o) behaviour \<Rightarrow> bool \<Rightarrow> 'f table \<Rightarrow> nat \<Rightarrow> string \<Rightarrow> string set \<Rightarrow> 'o options
    \<Rightarrow> ('t selection \<times> string set \<times> 'o options) option"
  and inspect_list :: "('f, 't, 'o) behaviour \<Rightarrow> bool \<Rightarrow> 'f table \<Rightarrow> nat \<Rightarrow> 'f list \<Rightarrow> 't selection \<Rightarrow> string set \<Rightarrow> 'o options
    \<Rightarrow> ('t selection \<times> string set \<times> 'o options) option" where
  "inspect B executeOnly structure 0 dataType inspected opt = None"
| "inspect B executeOnly structure (Suc n) dataType inspected opt =
     (case inspect_list B executeOnly structure n (funs_for structure dataType) NoSel (insert dataType inspected) opt of
        None \<Rightarrow> None
      | Some (sel, ins, opt1) \<Rightarrow>
          if (executeOnly \<or> sel = NoSel) \<and> ''*'' \<notin> ins then inspect B executeOnly structure n ''*'' ins opt1
          else Some (sel, ins, opt1))"
| "inspect_list B executeOnly structure n [] sel inspected opt = Some (sel, inspected, opt)"
| "inspect_list B executeOnly structure n (f # fs) sel inspected opt =
     (if executeOnly \<or> sel = NoSel
      then (case B f opt of
              (Redirect s, opt1) \<Rightarrow>
                if \<not> executeOnly \<or> s \<in> inspected then inspect_list B executeOnly structure n fs NoSel inspected opt1
                else (case inspect B executeOnly structure n s inspected (opt1\<lparr>op_dataTypes := s # op_dataTypes opt1\<rparr>) of
                        None \<Rightarrow> None
                      | Some (sel1, ins, opt2) \<Rightarrow> inspect_list B executeOnly structure n fs sel1 ins opt2)
            | (sel1, opt1) \<Rightarrow> inspect_list B executeOnly structure n fs sel1 inspected opt1)
      else Some (sel, inspected, opt))"

definition inspectPrefiltersOrTransports where
  "inspectPrefiltersOrTransports B executeOnly structure n opt =
     inspect B executeOnly structure n (case op_dataTypes opt of [] \<Rightarrow> ''undefined'' | d # _ \<Rightarrow> d) {} opt"

section \<open>The response that fits\<close>

text \<open>A converter is a function, or \<open>true\<close> when the types are equivalent, or something falsy.\<close>

datatype ('r, 'e) conv = CFun "'r \<Rightarrow> 'e + 'r" | CTrue | CFalse

record ('r, 'e) settings =
  st_dataTypes :: "string list"
  st_mimeType :: string
  st_contents :: "(string \<times> (string \<Rightarrow> bool) option) list"
  st_converters :: "(string \<times> ('r, 'e) conv) list"
  st_responseFields :: "(string \<times> string) list"
  st_dataFilter :: "('r \<Rightarrow> 'r) option"
  st_throws :: bool

definition conv_of :: "(string \<times> ('r, 'e) conv) list \<Rightarrow> string \<Rightarrow> ('r, 'e) conv" where
  "conv_of C k = (case obj_get C k of None \<Rightarrow> CFalse | Some c \<Rightarrow> c)"

definition or_conv :: "('r, 'e) conv \<Rightarrow> ('r, 'e) conv \<Rightarrow> ('r, 'e) conv" where
  "or_conv a b = (case a of CFalse \<Rightarrow> b | _ \<Rightarrow> a)"

definition first_type :: "string list \<Rightarrow> string" where
  "first_type dataTypes = (case dataTypes of [] \<Rightarrow> ''undefined'' | d # _ \<Rightarrow> d)"

definition falsy_first :: "string list \<Rightarrow> bool" where
  "falsy_first dataTypes = (case dataTypes of [] \<Rightarrow> True | d # _ \<Rightarrow> d = [])"

text \<open>The response fields that are set on the request.\<close>

definition response_fields :: "('r, 'e) settings \<Rightarrow> (string \<times> 'r) list \<Rightarrow> (string \<times> 'r) list" where
  "response_fields s responses =
     concat (map (\<lambda>(type, field). case obj_get responses type of None \<Rightarrow> [] | Some r \<Rightarrow> [(field, r)]) (st_responseFields s))"

text \<open>The content type is asked for only when there is an automatic data type; then the first content that it matches
  comes in front.\<close>

definition known_types :: "('r, 'e) settings \<Rightarrow> string option \<Rightarrow> string list" where
  "known_types s header =
     (let dataTypes = dropWhile (\<lambda>d. d = ''*'') (st_dataTypes s);
          ct = (if dataTypes = st_dataTypes s then None else if st_mimeType s \<noteq> [] then Some (st_mimeType s) else header)
      in case ct of
           None \<Rightarrow> dataTypes
         | Some c \<Rightarrow>
             if c = [] then dataTypes
             else (case List.find (\<lambda>(type, test). case test of None \<Rightarrow> False | Some t \<Rightarrow> t c) (st_contents s) of
                     None \<Rightarrow> dataTypes
                   | Some (type, _) \<Rightarrow> type # dataTypes))"

fun choose_type :: "(string \<times> ('r, 'e) conv) list \<Rightarrow> string list \<Rightarrow> string \<Rightarrow> (string \<times> 'r) list \<Rightarrow> string" where
  "choose_type C dataTypes first [] = first"
| "choose_type C dataTypes first ((type, r) # rs) =
     (if falsy_first dataTypes \<or> conv_of C (type @ '' '' @ first_type dataTypes) \<noteq> CFalse
      then (if type = [] then first else type)
      else choose_type C dataTypes (if first = [] then type else first) rs)"

definition ajaxHandleResponses ::
  "('r, 'e) settings \<Rightarrow> string option \<Rightarrow> (string \<times> 'r) list \<Rightarrow> 'r option \<times> (string \<times> 'r) list \<times> ('r, 'e) settings" where
  "ajaxHandleResponses s header responses =
     (let dataTypes = known_types s header;
          final = (if obj_get responses (first_type dataTypes) \<noteq> None then first_type dataTypes
                   else choose_type (st_converters s) dataTypes [] responses);
          dataTypes1 = (if final = [] then dataTypes
                        else if dataTypes \<noteq> [] \<and> hd dataTypes = final then dataTypes else final # dataTypes)
      in (if final = [] then None else obj_get responses final, response_fields s responses, s\<lparr>st_dataTypes := dataTypes1\<rparr>))"

section \<open>Conversion\<close>

text \<open>The converter from \<open>prev\<close> to \<open>current\<close>, and the data type in between when a pair was found.\<close>

definition direct_conv :: "(string \<times> ('r, 'e) conv) list \<Rightarrow> string \<Rightarrow> string \<Rightarrow> ('r, 'e) conv" where
  "direct_conv C prev current = or_conv (conv_of C (prev @ '' '' @ current)) (conv_of C (''* '' @ current))"

fun seek_pair :: "(string \<times> ('r, 'e) conv) list \<Rightarrow> string \<Rightarrow> string \<Rightarrow> (string \<times> ('r, 'e) conv) list \<Rightarrow> ('r, 'e) conv \<times> string option" where
  "seek_pair C prev current [] = (CFalse, None)"
| "seek_pair C prev current ((conv2, c2) # cs) =
     (case split_at (CHR 0x20) conv2 of
        from_type # to_type # _ \<Rightarrow>
          if to_type = current
          then (case direct_conv C prev from_type of
                  CFalse \<Rightarrow> seek_pair C prev current cs
                | CTrue \<Rightarrow> (c2, None)
                | CFun f \<Rightarrow> (CFun f, if c2 = CTrue then None else Some from_type))
          else seek_pair C prev current cs
      | _ \<Rightarrow> seek_pair C prev current cs)"

definition seek_conv :: "(string \<times> ('r, 'e) conv) list \<Rightarrow> string \<Rightarrow> string \<Rightarrow> ('r, 'e) conv \<times> string option" where
  "seek_conv C prev current =
     (case direct_conv C prev current of CFalse \<Rightarrow> seek_pair C prev current C | c \<Rightarrow> (c, None))"

datatype ('r, 'e) converted = Success 'r | ParserError 'e | NoConversion string string | Threw 'e

definition apply_conv :: "bool \<Rightarrow> ('r, 'e) conv \<Rightarrow> string \<Rightarrow> string \<Rightarrow> 'r \<Rightarrow> ('r, 'e) converted" where
  "apply_conv throws c prev current response =
     (case c of
        CTrue \<Rightarrow> Success response
      | CFalse \<Rightarrow> NoConversion prev current
      | CFun f \<Rightarrow> (case f response of Inr r \<Rightarrow> Success r | Inl e \<Rightarrow> if throws then Threw e else ParserError e))"

text \<open>\<open>None\<close>: the fuel did not suffice; one for every data type looked at.\<close>

fun convert_loop :: "(string \<times> ('r, 'e) conv) list \<Rightarrow> bool \<Rightarrow> nat \<Rightarrow> string \<Rightarrow> string list \<Rightarrow> 'r \<Rightarrow> ('r, 'e) converted option" where
  "convert_loop C throws 0 prev dataTypes response = None"
| "convert_loop C throws (Suc n) prev [] response = Some (Success response)"
| "convert_loop C throws (Suc n) prev (current # rest) response =
     (if current = [] then Some (Success response)
      else if current = ''*'' then convert_loop C throws n prev rest response
      else if prev = ''*'' \<or> prev = current then convert_loop C throws n current rest response
      else case seek_conv C prev current of
        (c, between) \<Rightarrow>
          (case apply_conv throws c prev current response of
             Success r \<Rightarrow>
               (case between of
                  None \<Rightarrow> convert_loop C throws n current rest r
                | Some t \<Rightarrow> convert_loop C throws n t (t # current # rest) r)
           | failed \<Rightarrow> Some failed))"

definition lower_keys :: "(string \<times> 'c) list \<Rightarrow> (string \<times> 'c) list" where
  "lower_keys C = fold (\<lambda>(k, c) D. obj_set (map to_lower k) c D) C []"

definition ajaxConvert :: "('r, 'e) settings \<Rightarrow> nat \<Rightarrow> 'r \<Rightarrow> ('r, 'e) converted option" where
  "ajaxConvert s n response =
     (let dataTypes = st_dataTypes s;
          response1 = (case st_dataFilter s of None \<Rightarrow> response | Some f \<Rightarrow> f response);
          C = (case dataTypes of _ # d # _ \<Rightarrow> if d = [] then [] else lower_keys (st_converters s) | _ \<Rightarrow> [])
      in convert_loop C (st_throws s) n (first_type dataTypes) (tl dataTypes) response1)"

section \<open>Conversion ends and is typed\<close>

definition word :: "string \<Rightarrow> bool" where
  "word w \<longleftrightarrow> CHR 0x20 \<notin> set w"

definition conv_table :: "(string \<times> ('r, 'e) conv) list \<Rightarrow> bool" where
  "conv_table C \<longleftrightarrow> distinct (map fst C)
     \<and> (\<forall>(k, c) \<in> set C. c \<noteq> CFalse \<and> (\<exists>a b. word a \<and> a \<noteq> [] \<and> word b \<and> k = a @ '' '' @ b))"

text \<open>A typing of responses that every converter respects. A converter from \<open>*\<close> takes everything.\<close>

definition conv_typed :: "(string \<Rightarrow> 'r \<Rightarrow> bool) \<Rightarrow> string \<Rightarrow> string \<Rightarrow> ('r, 'e) conv \<Rightarrow> bool" where
  "conv_typed T a b c \<longleftrightarrow>
     (case c of
        CFalse \<Rightarrow> True
      | CTrue \<Rightarrow> (\<forall>r. (a = ''*'' \<or> T a r) \<longrightarrow> T b r)
      | CFun f \<Rightarrow> (\<forall>r r'. (a = ''*'' \<or> T a r) \<and> f r = Inr r' \<longrightarrow> T b r'))"

definition well_typed :: "(string \<Rightarrow> 'r \<Rightarrow> bool) \<Rightarrow> (string \<times> ('r, 'e) conv) list \<Rightarrow> bool" where
  "well_typed T C \<longleftrightarrow> (\<forall>a b c. word a \<and> word b \<and> (a @ '' '' @ b, c) \<in> set C \<longrightarrow> conv_typed T a b c)"

text \<open>The type that the loop ends with: the last one that is not automatic, before an empty one.\<close>

fun target_type :: "string \<Rightarrow> string list \<Rightarrow> string" where
  "target_type prev [] = prev"
| "target_type prev (d # ds) = (if d = [] then prev else target_type (if d = ''*'' then prev else d) ds)"

lemma split_key: "word a \<Longrightarrow> word b \<Longrightarrow> split_at (CHR 0x20) (a @ '' '' @ b) = [a, b]"
  by (simp add: word_def split_at_next split_at_none)

lemma split_key_eq:
  assumes "word a" "word b" "word a'" "word b'" "a @ '' '' @ b = a' @ '' '' @ b'"
  shows "[a, b] = [a', b']"
  using split_key [OF assms(1,2)] unfolding assms(5) split_key [OF assms(3,4)] by (rule sym)

lemma conv_of_in: "conv_of C k = c \<Longrightarrow> c \<noteq> CFalse \<Longrightarrow> (k, c) \<in> set C"
  by (auto simp: conv_of_def obj_get_def dest: map_of_SomeD split: option.splits)

lemma in_conv_of: "distinct (map fst C) \<Longrightarrow> (k, c) \<in> set C \<Longrightarrow> conv_of C k = c"
  by (simp add: conv_of_def obj_get_def map_of_is_SomeI)

lemma word_star [simp]: "word ''*''"
  by (simp add: word_def)

lemma well_typedD: "well_typed T C \<Longrightarrow> word a \<Longrightarrow> word b \<Longrightarrow> (a @ '' '' @ b, c) \<in> set C \<Longrightarrow> conv_typed T a b c"
  by (simp add: well_typed_def)

lemma apply_typed:
  assumes "conv_typed T a b c" "a = ''*'' \<or> T a r" "apply_conv throws c p q r = Success x"
  shows "T b x"
  using assms by (auto simp: conv_typed_def apply_conv_def split: conv.splits sum.splits if_splits)

lemma direct_typed:
  assumes "well_typed T C" "word prev" "word current" "direct_conv C prev current = c" "c \<noteq> CFalse"
    "T prev r" "apply_conv throws c p q r = Success x"
  shows "T current x"
proof -
  consider "(prev @ '' '' @ current, c) \<in> set C" | "(''*'' @ '' '' @ current, c) \<in> set C"
  proof (cases "conv_of C (prev @ '' '' @ current) = CFalse")
    case True
    then have "conv_of C (''* '' @ current) = c" using assms(4) by (simp add: direct_conv_def or_conv_def)
    from conv_of_in [OF this assms(5)] show ?thesis using that(2) by simp
  next
    case False
    then have "conv_of C (prev @ '' '' @ current) = c"
      using assms(4) by (cases "conv_of C (prev @ '' '' @ current)") (simp_all add: direct_conv_def or_conv_def)
    from conv_of_in [OF this assms(5)] show ?thesis by (rule that(1))
  qed
  then show ?thesis
  proof cases
    case 1
    then have "conv_typed T prev current c" by (rule well_typedD [OF assms(1-3)])
    then show ?thesis using apply_typed assms(6,7) by metis
  next
    case 2
    then have "conv_typed T ''*'' current c" by (rule well_typedD [OF assms(1) word_star assms(3)])
    then show ?thesis using apply_typed assms(7) by metis
  qed
qed

lemma seek_pair_found:
  assumes "seek_pair C prev current cs = (c, between)" "conv_table C" "set cs \<subseteq> set C"
  shows "c = CFalse \<and> between = None
    \<or> (\<exists>t c1 c2. word t \<and> (t @ '' '' @ current, c2) \<in> set C \<and> direct_conv C prev t = c1 \<and> c1 \<noteq> CFalse
        \<and> (c1 = CTrue \<and> c = c2 \<and> between = None \<or> c = c1 \<and> c2 = CTrue \<and> between = None \<or> c = c1 \<and> between = Some t))"
  using assms(1,3)
proof (induction cs)
  case Nil
  then show ?case by simp
next
  case (Cons p cs)
  obtain conv2 c2 where p: "p = (conv2, c2)" by (cases p)
  then have mem: "(conv2, c2) \<in> set C" using Cons.prems(2) by simp
  then obtain a b where ab: "word a" "word b" "conv2 = a @ '' '' @ b" using assms(2) unfolding conv_table_def by blast
  have eq: "seek_pair C prev current (p # cs) =
      (if b = current then (case direct_conv C prev a of CFalse \<Rightarrow> seek_pair C prev current cs | CTrue \<Rightarrow> (c2, None)
         | CFun f \<Rightarrow> (CFun f, if c2 = CTrue then None else Some a)) else seek_pair C prev current cs)"
    unfolding p ab(3) by (simp only: seek_pair.simps split_key [OF ab(1,2)] list.case)
  show ?case
  proof (cases "b = current \<and> direct_conv C prev a \<noteq> CFalse")
    case True
    then have "(c, between) = (case direct_conv C prev a of CTrue \<Rightarrow> (c2, None)
         | CFun f \<Rightarrow> (CFun f, if c2 = CTrue then None else Some a))"
      using Cons.prems(1) unfolding eq by (auto split: conv.splits)
    note eqc = this
    have mem2: "(a @ '' '' @ current, c2) \<in> set C" using mem ab(3) True by simp
    consider "direct_conv C prev a = CTrue" | f where "direct_conv C prev a = CFun f"
      using True by (cases "direct_conv C prev a") auto
    then show ?thesis
    proof cases
      case 1
      then have "c = c2" "between = None" using eqc by simp_all
      then show ?thesis using 1 ab(1) mem2 by (intro disjI2 exI [of _ a] exI [of _ CTrue] exI [of _ c2]) simp
    next
      case (2 f)
      then have "c = CFun f" "between = (if c2 = CTrue then None else Some a)" using eqc by simp_all
      then show ?thesis
        using 2 ab(1) mem2 by (intro disjI2 exI [of _ a] exI [of _ "CFun f"] exI [of _ c2]) simp
    qed
  next
    case False
    then have "seek_pair C prev current cs = (c, between)"
      using Cons.prems(1) unfolding eq by (auto split: if_splits)
    then show ?thesis using Cons by simp
  qed
qed

lemma seek_conv_found:
  assumes "seek_conv C prev current = (c, between)" "conv_table C" "c \<noteq> CFalse"
  shows "direct_conv C prev current = c \<and> between = None
    \<or> (\<exists>t c1 c2. word t \<and> (t @ '' '' @ current, c2) \<in> set C \<and> direct_conv C prev t = c1 \<and> c1 \<noteq> CFalse
        \<and> (c1 = CTrue \<and> c = c2 \<and> between = None \<or> c = c1 \<and> c2 = CTrue \<and> between = None \<or> c = c1 \<and> between = Some t))"
  using assms seek_pair_found [of C prev current C c between]
  by (auto simp: seek_conv_def split: conv.splits)

text \<open>A pair through \<open>*\<close> is never taken: the second converter would have been found directly.\<close>

lemma first_word: "word a \<Longrightarrow> takeWhile (\<lambda>c. c \<noteq> CHR 0x20) (a @ '' '' @ b) = a"
  by (induction a) (auto simp: word_def)

lemma seek_between:
  assumes "seek_conv C prev current = (c, Some t)" "conv_table C"
  shows "t \<noteq> ''*''" "t \<noteq> []" "word t" "direct_conv C t current \<noteq> CFalse" "direct_conv C prev t = c" "c \<noteq> CFalse"
proof -
  have miss: "direct_conv C prev current = CFalse" and pair: "seek_pair C prev current C = (c, Some t)"
    using assms(1) by (auto simp: seek_conv_def split: conv.splits)
  then obtain c2 where t: "word t" "(t @ '' '' @ current, c2) \<in> set C" "direct_conv C prev t = c" "c \<noteq> CFalse"
    using seek_pair_found [OF pair assms(2) order_refl] by auto
  obtain a b where ab: "word a" "a \<noteq> []" "t @ '' '' @ current = a @ '' '' @ b"
    using t(2) assms(2) unfolding conv_table_def by blast
  then show "t \<noteq> []" using first_word [OF t(1), of current] first_word [OF ab(1), of b] by simp
  have "conv_of C (t @ '' '' @ current) = c2" "c2 \<noteq> CFalse"
    using t(2) assms(2) in_conv_of by (auto simp: conv_table_def)
  then show "direct_conv C t current \<noteq> CFalse" "t \<noteq> ''*''"
    using miss by (auto simp: direct_conv_def or_conv_def split: conv.splits)
  show "word t" "direct_conv C prev t = c" "c \<noteq> CFalse" by (fact t)+
qed

lemma seek_typed:
  assumes "seek_conv C prev current = (c, between)" "conv_table C" "well_typed T C" "word prev" "word current"
    "T prev r" "apply_conv throws c p q r = Success x"
  shows "T (case between of None \<Rightarrow> current | Some t \<Rightarrow> t) x"
proof -
  have c: "c \<noteq> CFalse" using assms(7) by (auto simp: apply_conv_def)
  from seek_conv_found [OF assms(1,2) c] show ?thesis
  proof (elim disjE exE conjE)
    assume "direct_conv C prev current = c" "between = None"
    then show ?thesis using direct_typed [OF assms(3-5) _ c assms(6,7)] by simp
  next
    fix t c1 c2
    assume t: "word t" "(t @ '' '' @ current, c2) \<in> set C" "direct_conv C prev t = c1" "c1 = CTrue" "c = c2" "between = None"
    have "T t r" using direct_typed [OF assms(3,4) t(1,3) _ assms(6), of throws p q r] t(4) by (simp add: apply_conv_def)
    then show ?thesis
      using well_typedD [OF assms(3) t(1) assms(5) t(2)] assms(7) t(5,6) apply_typed [of T t current c2 r] by simp
  next
    fix t c1 c2
    assume t: "word t" "(t @ '' '' @ current, c2) \<in> set C" "direct_conv C prev t = c1" "c1 \<noteq> CFalse" "c = c1" "c2 = CTrue" "between = None"
    have "T t x" using direct_typed [OF assms(3,4) t(1,3,4) assms(6)] t(5) assms(7) by simp
    moreover have "conv_typed T t current c2" by (rule well_typedD [OF assms(3) t(1) assms(5) t(2)])
    ultimately show ?thesis using t(6,7) by (simp add: conv_typed_def)
  next
    fix t c1 c2
    assume t: "word t" "direct_conv C prev t = c1" "c1 \<noteq> CFalse" "c = c1" "between = Some t"
    then show ?thesis using direct_typed [OF assms(3,4) t(1,2,3) assms(6)] assms(7) by simp
  qed
qed

lemma convert_loop_ok:
  assumes "conv_table C" "well_typed T C" "\<forall>d \<in> set ds. word d" "word prev" "prev \<noteq> ''*''" "T prev r" "3 * length ds < n"
  shows "\<exists>out. convert_loop C throws n prev ds r = Some out \<and> (\<forall>x. out = Success x \<longrightarrow> T (target_type prev ds) x)"
  using assms(3-)
proof (induction ds arbitrary: prev r n)
  case Nil
  then show ?case by (cases n) simp_all
next
  case (Cons d ds)
  obtain m where m: "n = Suc m" "3 * length ds < m" using Cons.prems(5) by (cases n) simp_all
  have IH: "\<exists>out. convert_loop C throws k p ds x = Some out \<and> (\<forall>y. out = Success y \<longrightarrow> T (target_type p ds) y)"
    if "word p" "p \<noteq> ''*''" "T p x" "3 * length ds < k" for p x k
    using Cons.IH [of p x k] Cons.prems(1) that by simp
  show ?case
  proof (cases "d = [] \<or> d = ''*'' \<or> d = prev")
    case True
    then show ?thesis using IH [of prev r m] Cons.prems m by auto
  next
    case False
    have d: "word d" using Cons.prems(1) by simp
    obtain c between where seek: "seek_conv C prev d = (c, between)" by (cases "seek_conv C prev d")
    have unroll: "convert_loop C throws n prev (d # ds) r =
        (case apply_conv throws c prev d r of
           Success x \<Rightarrow> (case between of None \<Rightarrow> convert_loop C throws m d ds x | Some t \<Rightarrow> convert_loop C throws m t (t # d # ds) x)
         | failed \<Rightarrow> Some failed)"
      using False Cons.prems(3) m seek by (simp add: eq_commute [of prev])
    show ?thesis
    proof (cases "apply_conv throws c prev d r")
      case (Success x)
      have typed: "T (case between of None \<Rightarrow> d | Some t \<Rightarrow> t) x"
        by (rule seek_typed [OF seek assms(1,2) Cons.prems(2) d Cons.prems(4) Success])
      show ?thesis
      proof (cases between)
        case None
        then show ?thesis using unroll Success typed IH [of d x m] d m False by simp
      next
        case (Some t)
        obtain k where k: "m = Suc (Suc k)" "3 * length ds < k"
        proof
          show "m = Suc (Suc (m - 2))" "3 * length ds < m - 2" using Cons.prems(5) m(1) by simp_all
        qed
        note t = seek_between [OF seek [unfolded Some] assms(1)]
        have step: "convert_loop C throws m t (t # d # ds) x = convert_loop C throws (Suc k) t (d # ds) x"
          using k(1) t(1,2) by simp
        have run: "convert_loop C throws n prev (d # ds) r = convert_loop C throws (Suc k) t (d # ds) x"
          using unroll Success Some step by simp
        show ?thesis
        proof (cases "t = d")
          case True
          then show ?thesis using run False t(1,2) typed Some IH [of d x k] d k(2) by simp
        next
          case ne: False
          have seek2: "seek_conv C t d = (direct_conv C t d, None)"
            using t(4) by (cases "direct_conv C t d") (simp_all add: seek_conv_def)
          have unroll2: "convert_loop C throws (Suc k) t (d # ds) x =
              (case apply_conv throws (direct_conv C t d) t d x of Success y \<Rightarrow> convert_loop C throws k d ds y | failed \<Rightarrow> Some failed)"
            using False t(1) ne seek2 by (simp add: eq_commute [of t] split: converted.splits)
          show ?thesis
          proof (cases "apply_conv throws (direct_conv C t d) t d x")
            case (Success y)
            have "T d y" using seek_typed [OF seek2 assms(1,2) t(3) d _ Success] typed Some by simp
            then show ?thesis using run unroll2 Success IH [of d y k] d k(2) False by simp
          qed (use run unroll2 in simp_all)
        qed
      qed
    qed (use unroll in simp_all)
  qed
qed


definition default_converters :: "(string \<times> (string \<times> string, unit) conv) list" where
  "default_converters =
     [(''* text'', CFun (\<lambda>(_, x). Inr (''text'', x))), (''text html'', CTrue),
      (''text json'', CFun (\<lambda>(_, x). if x = [] then Inl () else Inr (''json'', x)))]"

definition xml_request :: "(string \<times> string, unit) settings" where
  "xml_request = \<lparr>st_dataTypes = [''xml'', ''json''], st_mimeType = [], st_contents = [], st_converters = default_converters,
     st_responseFields = [], st_dataFilter = None, st_throws = False\<rparr>"

definition tagged :: "string \<Rightarrow> string \<times> string \<Rightarrow> bool" where
  "tagged d r \<longleftrightarrow> fst r = d \<or> d = ''html'' \<and> fst r = ''text''"


text \<open>C40: Switching a converter off by setting it to \<open>false\<close> makes the conversion run for ever: with a converter from
  anything to text, the loop finds the one that is switched off as the second of a pair, puts the data type in
  between into the list, is then where it was before, and finds the same pair again.\<close>

theorem false_converter_hangs:
  "st_dataTypes s = [''text'', ''json''] \<Longrightarrow>
   st_converters s = [(''* text'', CFun (\<lambda>r. Inr (f r))), (''text json'', CFalse)] \<Longrightarrow> ajaxConvert s n response = None"
proof -
  assume s: "st_dataTypes s = [''text'', ''json'']" "st_converters s = [(''* text'', CFun (\<lambda>r. Inr (f r))), (''text json'', CFalse)]"
  define C where "C = st_converters s"
  have "map to_lower ''* text'' = ''* text''" "map to_lower ''text json'' = ''text json''" by code_simp+
  then have low: "lower_keys (st_converters s) = C" by (simp add: lower_keys_def s(2) C_def del: list.map)
  have seek: "seek_conv C ''text'' ''json'' = (CFun (\<lambda>r. Inr (f r)), Some ''text'')"
    by (simp add: C_def s(2) seek_conv_def direct_conv_def or_conv_def conv_of_def)
  have "convert_loop C throws k ''text'' [''json''] r = None \<and> convert_loop C throws k ''text'' [''text'', ''json''] r = None" for k throws r
  proof (induction k arbitrary: r)
    case (Suc k)
    then show ?case by (simp add: seek apply_conv_def)
  qed simp
  then show ?thesis using s low by (simp add: ajaxConvert_def first_type_def)
qed

theorem false_converter_hangs_witness:
  "ajaxConvert (\<lparr>st_dataTypes = [''text'', ''json''], st_mimeType = [], st_contents = [],
     st_converters = [(''* text'', CFun (\<lambda>r. Inr (r + 1 :: nat))), (''text json'', (CFalse :: (nat, unit) conv))],
     st_responseFields = [], st_dataFilter = None, st_throws = False\<rparr>) 100 0 = None"
  by (rule false_converter_hangs [where f = "\<lambda>r. r + 1"]) simp_all

section \<open>Prefilters end\<close>

definition keys_left :: "'f table \<Rightarrow> string set \<Rightarrow> nat" where
  "keys_left structure inspected = card {d \<in> fst ` set structure. funs_for structure d \<noteq> [] \<and> d \<notin> inspected}"

definition fuel_for :: "'f table \<Rightarrow> string \<Rightarrow> string set \<Rightarrow> nat" where
  "fuel_for structure d inspected =
     (if funs_for structure d \<noteq> [] then 2 * keys_left structure inspected + 2
      else if d = ''*'' then 1 else 2 * keys_left structure inspected + 3)"

lemma keys_left_mono: "inspected \<subseteq> ins \<Longrightarrow> keys_left structure ins \<le> keys_left structure inspected"
  unfolding keys_left_def by (rule card_mono) auto

lemma funs_for_key: "funs_for structure d \<noteq> [] \<Longrightarrow> d \<in> fst ` set structure"
  by (force simp: funs_for_def obj_get_def dest: map_of_SomeD split: option.splits)

lemma keys_left_insert:
  assumes "funs_for structure d \<noteq> []" "d \<notin> inspected"
  shows "keys_left structure inspected = Suc (keys_left structure (insert d inspected))"
proof -
  let ?K = "\<lambda>ins. {d \<in> fst ` set structure. funs_for structure d \<noteq> [] \<and> d \<notin> ins}"
  have "?K inspected = insert d (?K (insert d inspected))" using assms funs_for_key [OF assms(1)] by auto
  then have "card (?K inspected) = Suc (card (?K (insert d inspected)))" by simp
  then show ?thesis by (simp add: keys_left_def)
qed

lemma inspect_list_total:
  assumes "\<And>d ins opt. d \<notin> ins \<Longrightarrow> inspected \<subseteq> ins \<Longrightarrow> \<exists>sel ins' opt'. inspect B ex structure n d ins opt = Some (sel, ins', opt') \<and> ins \<subseteq> ins'"
    and "inspected \<subseteq> ins"
  shows "\<exists>sel' ins' opt'. inspect_list B ex structure n fs sel ins opt = Some (sel', ins', opt') \<and> ins \<subseteq> ins'"
  using assms(2)
proof (induction fs arbitrary: sel ins opt)
  case (Cons f fs)
  obtain s1 opt1 where b: "B f opt = (s1, opt1)" by (cases "B f opt")
  show ?case
  proof (cases "\<exists>s. s1 = Redirect s \<and> ex \<and> s \<notin> ins")
    case True
    then obtain s where s: "s1 = Redirect s" "ex" "s \<notin> ins" by blast
    let ?opt = "opt1\<lparr>op_dataTypes := s # op_dataTypes opt1\<rparr>"
    obtain sel2 ins2 opt2 where i: "inspect B ex structure n s ins ?opt = Some (sel2, ins2, opt2)" "ins \<subseteq> ins2"
      using assms(1) [OF s(3) Cons.prems] by blast
    obtain sel3 ins3 opt3 where r: "inspect_list B ex structure n fs sel2 ins2 opt2 = Some (sel3, ins3, opt3)" "ins2 \<subseteq> ins3"
      using Cons.IH [of ins2 sel2 opt2] Cons.prems i(2) by blast
    have "inspect_list B ex structure n (f # fs) sel ins opt = Some (sel3, ins3, opt3)"
      using b s i(1) r(1) by simp
    then show ?thesis using i(2) r(2) by blast
  next
    case False
    have go: "\<exists>sel' ins' opt'. inspect_list B ex structure n fs s ins opt1 = Some (sel', ins', opt') \<and> ins \<subseteq> ins'" for s
      using Cons.IH Cons.prems by blast
    show ?thesis
    proof (cases "ex \<or> sel = NoSel")
      case True
      then have "inspect_list B ex structure n (f # fs) sel ins opt =
          inspect_list B ex structure n fs (case s1 of Redirect _ \<Rightarrow> NoSel | _ \<Rightarrow> s1) ins opt1"
        using b False by (cases s1) auto
      then show ?thesis using go by simp
    qed simp
  qed
qed simp

lemma inspect_total:
  "d \<notin> ins \<Longrightarrow> fuel_for structure d ins \<le> n \<Longrightarrow>
     \<exists>sel ins' opt'. inspect B ex structure n d ins opt = Some (sel, ins', opt') \<and> insert d ins \<subseteq> ins'"
proof (induction n arbitrary: d ins opt)
  case 0
  then show ?case by (simp add: fuel_for_def split: if_splits)
next
  case (Suc n)
  let ?ins = "insert d ins"
  have list: "\<exists>sel' ins' opt'. inspect_list B ex structure n (funs_for structure d) NoSel ?ins opt = Some (sel', ins', opt') \<and> ?ins \<subseteq> ins'"
  proof (cases "funs_for structure d = []")
    case False
    have left: "keys_left structure ins = Suc (keys_left structure ?ins)" by (rule keys_left_insert [OF False Suc.prems(1)])
    show ?thesis
    proof (rule inspect_list_total [where inspected = ?ins])
      fix d' ins' opt'
      assume d': "d' \<notin> ins'" "?ins \<subseteq> ins'"
      have "fuel_for structure d' ins' \<le> n"
        using keys_left_mono [OF d'(2), of "structure"] left Suc.prems(2) False by (auto simp: fuel_for_def)
      then show "\<exists>sel ins'' opt''. inspect B ex structure n d' ins' opt' = Some (sel, ins'', opt'') \<and> ins' \<subseteq> ins''"
        using Suc.IH [OF d'(1)] by blast
    qed simp
  qed auto
  then obtain sel1 ins1 opt1 where l: "inspect_list B ex structure n (funs_for structure d) NoSel ?ins opt = Some (sel1, ins1, opt1)"
      "?ins \<subseteq> ins1" by blast
  show ?case
  proof (cases "(ex \<or> sel1 = NoSel) \<and> ''*'' \<notin> ins1")
    case True
    have star: "fuel_for structure ''*'' ins1 \<le> n"
    proof (cases "funs_for structure d = []")
      case True
      moreover have "d \<noteq> ''*''" using \<open>(ex \<or> sel1 = NoSel) \<and> ''*'' \<notin> ins1\<close> l(2) by auto
      moreover have "keys_left structure ins1 \<le> keys_left structure ins" using l(2) by (intro keys_left_mono) auto
      ultimately show ?thesis using Suc.prems(2) by (auto simp: fuel_for_def split: if_splits)
    next
      case False
      have "keys_left structure ins = Suc (keys_left structure ?ins)" by (rule keys_left_insert [OF False Suc.prems(1)])
      then show ?thesis
        using keys_left_mono [OF l(2), of "structure"] Suc.prems(2) False by (auto simp: fuel_for_def split: if_splits)
    qed
    obtain sel2 ins2 opt2 where i: "inspect B ex structure n ''*'' ins1 opt1 = Some (sel2, ins2, opt2)" "insert ''*'' ins1 \<subseteq> ins2"
      using Suc.IH [OF conjunct2 [OF True] star, of opt1] by blast
    have "inspect B ex structure (Suc n) d ins opt = Some (sel2, ins2, opt2)"
      using l(1) i(1) True by simp
    then show ?thesis using l(2) i(2) by blast
  next
    case False
    then have "inspect B ex structure (Suc n) d ins opt = Some (sel1, ins1, opt1)" using l(1) by auto
    then show ?thesis using l(2) by blast
  qed
qed

text \<open>Inspecting the prefilters or transports of a request ends, also when they send the request to each other's data
  types in circles: a data type is inspected at most once, so that twice the size of the table and three more suffice,
  whatever the functions return or do to the options.\<close>

theorem prefilters_end:
  "\<exists>result. inspectPrefiltersOrTransports B executeOnly structure (2 * length structure + 3 + n) opt = Some result"
proof -
  have "keys_left structure {} \<le> card (fst ` set structure)"
    unfolding keys_left_def by (rule card_mono) auto
  also have "\<dots> \<le> length structure" using card_length [of "map fst structure"] by simp
  finally have "fuel_for structure d {} \<le> 2 * length structure + 3 + n" for d by (auto simp: fuel_for_def)
  then show ?thesis unfolding inspectPrefiltersOrTransports_def using inspect_total by blast
qed

end
