(* ===== verification/JqEvents.thy ===== *)
theory JqEvents
  imports JqClass "HOL-Library.Char_ord" "HOL-Library.List_Lexorder"
begin

text \<open>
  Events in \<open>jquery.js\<close>: \<open>jQuery.event.add\<close>, \<open>remove\<close>, \<open>dispatch\<close>, \<open>trigger\<close>,
  and \<open>on\<close>, \<open>one\<close>, \<open>off\<close>. The state is the handlers of each element in the order of the
  properties of its object \<open>events\<close>, the listeners that the browser was given, and the numbers of functions. The tree of
  elements does not change. Types are not names of properties of \<open>Object.prototype\<close>, and the names of namespaces
  have no characters that mean something in a regular expression.
\<close>

section \<open>Types and namespaces\<close>

definition word_edge :: "char \<Rightarrow> string \<Rightarrow> bool" where
  "word_edge c rest \<longleftrightarrow> (is_word_char c \<noteq> (case rest of [] \<Rightarrow> False | d # _ \<Rightarrow> is_word_char d))"

text \<open>The match of \<open>hover(\.\S+|)\b\<close> at the start of a string: the namespace and the rest.\<close>

definition hover_at :: "string \<Rightarrow> (string \<times> string) option" where
  "hover_at s =
     (if take 5 s \<noteq> ''hover'' then None
      else
        let r = drop 5 s;
            ns = (case r of [] \<Rightarrow> [] | d # t \<Rightarrow> if d = CHR ''.'' then takeWhile (\<lambda>c. \<not> is_space c) t else []);
            ends = filter (\<lambda>k. word_edge (ns ! (k - 1)) (drop (Suc k) r)) (rev [1..<Suc (length ns)])
        in case ends of
             k # _ \<Rightarrow> Some (CHR ''.'' # take k ns, drop (Suc k) r)
           | [] \<Rightarrow> if word_edge (CHR ''r'') r then Some ([], r) else None)"

text \<open>The first match of \<open>(?:^|\s)hover(\.\S+|)\b\<close>: a blank before it is replaced as well.\<close>

fun hover_scan :: "string \<Rightarrow> (string \<times> string \<times> string) option" where
  "hover_scan [] = None"
| "hover_scan (c # s) =
     (case (if is_space c then hover_at s else None) of
        Some (ns, rest) \<Rightarrow> Some ([], ns, rest)
      | None \<Rightarrow> map_option (\<lambda>(u, x). (c # u, x)) (hover_scan s))"

definition hoverHack :: "string \<Rightarrow> string" where
  "hoverHack s =
     (case (case hover_at s of Some x \<Rightarrow> Some ([], x) | None \<Rightarrow> hover_scan s) of
        None \<Rightarrow> s
      | Some (u, ns, rest) \<Rightarrow> u @ ''mouseenter'' @ ns @ '' mouseleave'' @ ns @ rest)"

definition type_list :: "string \<Rightarrow> string list" where
  "type_list types = split_at (CHR 0x20) (jq_trim (hoverHack types))"

definition line_end :: "char \<Rightarrow> bool" where
  "line_end c \<longleftrightarrow> c = CHR 0x0A \<or> c = CHR 0x0D"

text \<open>\<open>/^([^\.]*|)(?:\.(.+)|)$/\<close>: the type, and the namespaces if there is a dot. A dot at the end matches nothing.\<close>

definition rtypenamespace :: "string \<Rightarrow> (string \<times> string option) option" where
  "rtypenamespace s =
     (let t = takeWhile (\<lambda>c. c \<noteq> CHR ''.'') s in
      case dropWhile (\<lambda>c. c \<noteq> CHR ''.'') s of
        [] \<Rightarrow> Some (t, None)
      | _ # ns \<Rightarrow> if ns \<noteq> [] \<and> list_all (\<lambda>c. \<not> line_end c) ns then Some (t, Some ns) else None)"

text \<open>\<open>tns\<close>: both parts are undefined if the expression does not match.\<close>

definition parse_type :: "string \<Rightarrow> string option \<times> string option" where
  "parse_type s = (case rtypenamespace s of None \<Rightarrow> (None, None) | Some (t, ns) \<Rightarrow> (Some t, ns))"

definition name_list :: "string option \<Rightarrow> string list" where
  "name_list ns = sort (split_at (CHR ''.'') (case ns of None \<Rightarrow> [] | Some s \<Rightarrow> s))"

text \<open>The test of \<open>(^|\.)a\.(?:.*\.|)b(\.|$)\<close> on the sorted names of a handler: the names occur in this order.\<close>

definition ns_test :: "string list \<Rightarrow> string list \<Rightarrow> bool" where
  "ns_test names have = subseq names have"

section \<open>State\<close>

text \<open>\<open>Once\<close>: the wrapper that \<open>one\<close> makes of a function; it has the number of that function.\<close>

datatype ev_fn = User nat | ReturnFalse | Once ev_fn

fun base_fn :: "ev_fn \<Rightarrow> ev_fn" where
  "base_fn (Once f) = base_fn f"
| "base_fn f = f"

record handle_obj =
  ho_origType :: "string option"
  ho_data :: "nat option"
  ho_fn :: ev_fn
  ho_guid :: nat
  ho_selector :: "string option"
  ho_names :: "string list"

type_synonym handlers = "handle_obj list \<times> int"
type_synonym events = "(string \<times> handlers) list"

record ev_state =
  es_events :: "nat \<Rightarrow> events option"
  es_listeners :: "(nat \<times> string) list"
  es_global :: "string list"
  es_guids :: "ev_fn \<Rightarrow> nat option"
  es_next :: nat
  es_attaches :: "string \<Rightarrow> int"
  es_capturing :: "string list"

text \<open>The page: whether an element takes data, its ancestors from the parent up, the document and the window, selectors,
  handlers in attributes, methods of elements, whether the browser has \<open>focusin\<close> events that bubble.\<close>

record page_env =
  pe_accepts :: "nat \<Rightarrow> bool"
  pe_ancestors :: "nat \<Rightarrow> nat list"
  pe_document :: nat
  pe_window :: nat
  pe_select :: "string \<Rightarrow> nat \<Rightarrow> nat \<Rightarrow> bool"
  pe_disabled :: "nat \<Rightarrow> bool"
  pe_inline :: "nat \<Rightarrow> string \<Rightarrow> bool option"
  pe_method :: "nat \<Rightarrow> string \<Rightarrow> bool"
  pe_link :: "nat \<Rightarrow> bool"
  pe_visible :: "nat \<Rightarrow> bool"
  pe_focusin :: bool

definition guid_of :: "ev_state \<Rightarrow> ev_fn \<Rightarrow> nat option" where
  "guid_of st f = es_guids st (base_fn f)"

definition with_guid :: "ev_fn \<Rightarrow> ev_state \<Rightarrow> ev_state" where
  "with_guid f st =
     (case guid_of st f of
        Some _ \<Rightarrow> st
      | None \<Rightarrow> st\<lparr>es_guids := (es_guids st)(base_fn f := Some (es_next st)), es_next := Suc (es_next st)\<rparr>)"

section \<open>Special events\<close>

text \<open>\<open>special[type].delegateType\<close> and \<open>bindType\<close>.\<close>

definition delegateType :: "string \<Rightarrow> string option" where
  "delegateType t =
     (if t = ''focus'' then Some ''focusin'' else if t = ''blur'' then Some ''focusout''
      else if t = ''mouseenter'' then Some ''mouseover'' else if t = ''mouseleave'' then Some ''mouseout'' else None)"

definition bindType :: "string \<Rightarrow> string option" where
  "bindType t = (if t = ''mouseenter'' then Some ''mouseover'' else if t = ''mouseleave'' then Some ''mouseout'' else None)"

definition true_selector :: "string option \<Rightarrow> bool" where
  "true_selector sel \<longleftrightarrow> sel \<noteq> None \<and> sel \<noteq> Some []"

definition key_of :: "string option \<Rightarrow> string \<Rightarrow> string" where
  "key_of sel t = (case (if true_selector sel then delegateType t else bindType t) of Some u \<Rightarrow> u | None \<Rightarrow> t)"

definition bubbles_from :: "string \<Rightarrow> string option" where
  "bubbles_from k = (if k = ''focusin'' then Some ''focus'' else if k = ''focusout'' then Some ''blur'' else None)"

text \<open>\<open>setup\<close> and \<open>teardown\<close>: \<open>focusin\<close> and \<open>focusout\<close> have one capturing listener on the document, the
  listener of \<open>beforeunload\<close> is a property of the window; all others are added to the element.\<close>

definition setup_event :: "page_env \<Rightarrow> nat \<Rightarrow> string \<Rightarrow> ev_state \<Rightarrow> ev_state" where
  "setup_event env e k st =
     (if bubbles_from k \<noteq> None \<and> \<not> pe_focusin env
      then (let st1 = st\<lparr>es_attaches := (es_attaches st)(k := es_attaches st k + 1)\<rparr>
            in if es_attaches st k = 0 then st1\<lparr>es_capturing := es_capturing st @ [the (bubbles_from k)]\<rparr> else st1)
      else if k = ''beforeunload'' then st
      else st\<lparr>es_listeners := es_listeners st @ [(e, k)]\<rparr>)"

definition teardown_event :: "page_env \<Rightarrow> nat \<Rightarrow> string \<Rightarrow> ev_state \<Rightarrow> ev_state" where
  "teardown_event env e k st =
     (if bubbles_from k \<noteq> None \<and> \<not> pe_focusin env
      then (let st1 = st\<lparr>es_attaches := (es_attaches st)(k := es_attaches st k - 1)\<rparr>
            in if es_attaches st k = 1 then st1\<lparr>es_capturing := removeAll (the (bubbles_from k)) (es_capturing st)\<rparr> else st1)
      else if k = ''beforeunload'' then st
      else st\<lparr>es_listeners := removeAll (e, k) (es_listeners st)\<rparr>)"

section \<open>Adding handlers\<close>

definition ev_of :: "nat \<Rightarrow> ev_state \<Rightarrow> events" where
  "ev_of e st = (case es_events st e of None \<Rightarrow> [] | Some evs \<Rightarrow> evs)"

definition set_events :: "nat \<Rightarrow> events option \<Rightarrow> ev_state \<Rightarrow> ev_state" where
  "set_events e evs st = st\<lparr>es_events := (es_events st)(e := evs)\<rparr>"

text \<open>Delegates in front.\<close>

definition insert_handler :: "handle_obj \<Rightarrow> handlers \<Rightarrow> handlers" where
  "insert_handler h hs =
     (case hs of (xs, dc) \<Rightarrow>
        if true_selector (ho_selector h) then (take (nat dc) xs @ h # drop (nat dc) xs, dc + 1) else (xs @ [h], dc))"

definition add_type :: "page_env \<Rightarrow> nat \<Rightarrow> ev_fn \<Rightarrow> nat option \<Rightarrow> string option \<Rightarrow> string \<Rightarrow> ev_state \<Rightarrow> ev_state" where
  "add_type env e f d sel ty st =
     (let (t, ns) = parse_type ty;
          k = (case t of None \<Rightarrow> ''undefined'' | Some u \<Rightarrow> key_of sel u);
          h = \<lparr>ho_origType = t, ho_data = d, ho_fn = f, ho_guid = the (guid_of st f), ho_selector = sel, ho_names = name_list ns\<rparr>;
          st1 = (if obj_get (ev_of e st) k = None then setup_event env e k st else st);
          hs = (case obj_get (ev_of e st) k of None \<Rightarrow> ([], 0) | Some hs \<Rightarrow> hs)
      in (set_events e (Some (obj_set k (insert_handler h hs) (ev_of e st))) st1)\<lparr>es_global := List.insert k (es_global st)\<rparr>)"

definition ev_add :: "page_env \<Rightarrow> nat \<Rightarrow> string \<Rightarrow> ev_fn \<Rightarrow> nat option \<Rightarrow> string option \<Rightarrow> ev_state \<Rightarrow> ev_state" where
  "ev_add env e types f d sel st =
     (if types = [] \<or> \<not> pe_accepts env e then st
      else
        let st1 = with_guid f st;
            st2 = set_events e (Some (ev_of e st1)) st1
        in fold (add_type env e f d sel) (type_list types) st2)"

section \<open>Removing handlers\<close>

text \<open>What is asked to be removed: \<open>wt_mapped\<close> when all types of an element are gone through.\<close>

record wanted =
  wt_origType :: string
  wt_mapped :: bool
  wt_fn :: "ev_fn option"
  wt_names :: "string list option"
  wt_selector :: "string option"

definition goes :: "ev_state \<Rightarrow> wanted \<Rightarrow> handle_obj \<Rightarrow> bool" where
  "goes st w h \<longleftrightarrow>
     (wt_mapped w \<or> Some (wt_origType w) = ho_origType h)
     \<and> (case wt_fn w of None \<Rightarrow> True | Some f \<Rightarrow> guid_of st f = Some (ho_guid h))
     \<and> (case wt_names w of None \<Rightarrow> True | Some ns \<Rightarrow> ns_test ns (ho_names h))
     \<and> (\<not> true_selector (wt_selector w) \<or> wt_selector w = ho_selector h \<or> wt_selector w = Some ''**'' \<and> true_selector (ho_selector h))"

text \<open>The loop with \<open>splice(j--, 1)\<close>.\<close>

function remove_loop :: "(handle_obj \<Rightarrow> bool) \<Rightarrow> nat \<Rightarrow> handlers \<Rightarrow> handlers" where
  "remove_loop p j (xs, dc) =
     (if j < length xs
      then if p (xs ! j) then remove_loop p j (splice1 j xs, if true_selector (ho_selector (xs ! j)) then dc - 1 else dc)
           else remove_loop p (Suc j) (xs, dc)
      else (xs, dc))"
  by pat_completeness auto
termination
  by (relation "measure (\<lambda>(p, j, xs, dc). length xs - j)") (auto simp: length_splice1)

definition remove1_type :: "page_env \<Rightarrow> nat \<Rightarrow> string \<Rightarrow> wanted \<Rightarrow> ev_state \<Rightarrow> ev_state" where
  "remove1_type env e k w st =
     (case obj_get (ev_of e st) k of
        None \<Rightarrow> st
      | Some hs \<Rightarrow>
          let hs1 = remove_loop (goes st w) 0 hs in
          if fst hs1 = [] \<and> fst hs \<noteq> []
          then set_events e (Some (filter (\<lambda>(k', _). k' \<noteq> k) (ev_of e st))) (teardown_event env e k st)
          else set_events e (Some (obj_set k hs1 (ev_of e st))) st)"

text \<open>The object \<open>events\<close> is given up when it is empty.\<close>

definition tidy :: "nat \<Rightarrow> ev_state \<Rightarrow> ev_state" where
  "tidy e st = (if ev_of e st = [] then set_events e None st else st)"

text \<open>\<open>remove\<close> calls itself for every type of the element if none is given; the fuel is the depth of these calls, \<open>None\<close>
  that it was not enough.\<close>

fun foldm :: "('a \<Rightarrow> 's \<Rightarrow> 's option) \<Rightarrow> 'a list \<Rightarrow> 's \<Rightarrow> 's option" where
  "foldm f [] s = Some s"
| "foldm f (x # xs) s = Option.bind (f x s) (foldm f xs)"

lemma foldm_cong [fundef_cong]:
  "xs = ys \<Longrightarrow> s = t \<Longrightarrow> (\<And>x s. x \<in> set ys \<Longrightarrow> f x s = g x s) \<Longrightarrow> foldm f xs s = foldm g ys t"
  by (induction ys arbitrary: xs s t) (auto cong: bind_option_cong)

fun ev_remove :: "page_env \<Rightarrow> nat \<Rightarrow> nat \<Rightarrow> string \<Rightarrow> ev_fn option \<Rightarrow> string option \<Rightarrow> bool \<Rightarrow> ev_state \<Rightarrow> ev_state option" where
  "ev_remove env 0 e types f sel mapped st = None"
| "ev_remove env (Suc n) e types f sel mapped st =
     (if es_events st e = None then Some st
      else map_option (tidy e) (foldm
        (\<lambda>ty s.
          case parse_type ty of
            (Some (c # t), ns) \<Rightarrow>
              Some (remove1_type env e (key_of sel (c # t))
                \<lparr>wt_origType = c # t, wt_mapped = mapped, wt_fn = f, wt_names = map_option (\<lambda>x. name_list (Some x)) ns, wt_selector = sel\<rparr> s)
          | _ \<Rightarrow> foldm (\<lambda>k. ev_remove env n e (k @ ty) f sel True) (map fst (ev_of e s)) s)
        (type_list types) st))"

section \<open>\<open>on\<close>, \<open>one\<close>, \<open>off\<close>\<close>

text \<open>The arguments of \<open>on\<close> and \<open>off\<close>: a function is not passed as anything else.\<close>

datatype ev_arg = AUndefined | AString string | AFn ev_fn | AFalse | AData nat

definition fn_arg :: "ev_arg \<Rightarrow> ev_fn option" where
  "fn_arg a = (case a of AFn f \<Rightarrow> Some f | AFalse \<Rightarrow> Some ReturnFalse | _ \<Rightarrow> None)"

definition data_arg :: "ev_arg \<Rightarrow> nat option" where
  "data_arg a = (case a of AData d \<Rightarrow> Some d | _ \<Rightarrow> None)"

definition sel_arg :: "ev_arg \<Rightarrow> string option" where
  "sel_arg a = (case a of AString s \<Rightarrow> Some s | _ \<Rightarrow> None)"

text \<open>The arguments in their places, or nothing to do.\<close>

definition on_args :: "ev_arg \<Rightarrow> ev_arg \<Rightarrow> ev_arg \<Rightarrow> (string option \<times> nat option \<times> ev_fn) option" where
  "on_args selector data fn =
     (let (s, d, f) =
        (if data = AUndefined \<and> fn = AUndefined then (AUndefined, AUndefined, selector)
         else if fn = AUndefined
         then (case selector of AString _ \<Rightarrow> (selector, AUndefined, data) | _ \<Rightarrow> (AUndefined, selector, data))
         else (selector, data, fn))
      in map_option (\<lambda>g. (sel_arg s, data_arg d, g)) (fn_arg f))"

text \<open>\<open>one\<close> gives its wrapper the number of the function.\<close>


definition ev_on :: "page_env \<Rightarrow> nat list \<Rightarrow> string \<Rightarrow> ev_arg \<Rightarrow> ev_arg \<Rightarrow> ev_arg \<Rightarrow> bool \<Rightarrow> ev_state \<Rightarrow> ev_state" where
  "ev_on env els types selector data fn one st =
     (case on_args selector data fn of
        None \<Rightarrow> st
      | Some (s, d, f) \<Rightarrow>
          if one then fold (\<lambda>e. ev_add env e types (Once f) d s) els (with_guid f st)
          else fold (\<lambda>e. ev_add env e types f d s) els st)"

definition ev_off :: "page_env \<Rightarrow> nat \<Rightarrow> nat list \<Rightarrow> string \<Rightarrow> ev_arg \<Rightarrow> ev_arg \<Rightarrow> ev_state \<Rightarrow> ev_state option" where
  "ev_off env k els types selector fn st =
     (let (s, f) = (case selector of AFn g \<Rightarrow> (AUndefined, selector) | AFalse \<Rightarrow> (AUndefined, selector) | _ \<Rightarrow> (selector, fn))
      in foldm (\<lambda>e. ev_remove env k e types (fn_arg f) (sel_arg s) False) els st)"

section \<open>Dispatch\<close>

datatype ev_ret = RFalse | ROther nat

record event_obj =
  eo_type :: string
  eo_target :: nat
  eo_names :: "string list"
  eo_exclusive :: bool
  eo_button :: nat
  eo_related :: "nat option"
  eo_prevented :: bool
  eo_stopped :: bool
  eo_immediate :: bool
  eo_result :: "ev_ret option"

text \<open>What a function of the user does when it is called: calls of \<open>on\<close> and \<open>off\<close>, calls of the methods of the
  event, and its result.\<close>

datatype ev_op =
  EvOn "nat list" string ev_arg ev_arg ev_arg bool
| EvOff "nat list" string ev_arg ev_arg

record ev_effect =
  ef_ops :: "ev_op list"
  ef_prevent :: bool
  ef_stop :: bool
  ef_immediate :: bool
  ef_ret :: "ev_ret option"

text \<open>A call: the element that is \<open>this\<close>, the function, the type of the event and \<open>event.data\<close>.\<close>

type_synonym ev_call = "nat \<times> ev_fn \<times> string \<times> nat option"
type_synonym behaviour = "ev_call \<Rightarrow> ev_effect"

definition do_op :: "page_env \<Rightarrow> nat \<Rightarrow> ev_op \<Rightarrow> ev_state \<Rightarrow> ev_state option" where
  "do_op env k x st =
     (case x of
        EvOn els types a b c one \<Rightarrow> Some (ev_on env els types a b c one st)
      | EvOff els types a b \<Rightarrow> ev_off env k els types a b st)"

definition preventDefault :: "event_obj \<Rightarrow> event_obj" where
  "preventDefault ev = ev\<lparr>eo_prevented := True\<rparr>"

definition stopPropagation :: "event_obj \<Rightarrow> event_obj" where
  "stopPropagation ev = ev\<lparr>eo_stopped := True\<rparr>"

definition stopImmediatePropagation :: "event_obj \<Rightarrow> event_obj" where
  "stopImmediatePropagation ev = stopPropagation (ev\<lparr>eo_immediate := True\<rparr>)"

definition after_effect :: "ev_effect \<Rightarrow> event_obj \<Rightarrow> event_obj" where
  "after_effect x ev =
     (let e1 = (if ef_prevent x then preventDefault ev else ev);
          e2 = (if ef_stop x then stopPropagation e1 else e1)
      in if ef_immediate x then stopImmediatePropagation e2 else e2)"

text \<open>\<open>off(event)\<close>: the type and the namespaces of the handler that is called, its selector and function.\<close>

fun dot_join :: "string list \<Rightarrow> string" where
  "dot_join [] = []"
| "dot_join [s] = s"
| "dot_join (s # ss) = s @ CHR ''.'' # dot_join ss"

definition off_event :: "page_env \<Rightarrow> nat \<Rightarrow> nat \<Rightarrow> handle_obj \<Rightarrow> ev_state \<Rightarrow> ev_state option" where
  "off_event env k this h st =
     ev_remove env k this
       ((case ho_origType h of None \<Rightarrow> [] | Some t \<Rightarrow> t) @ (if ho_names h = [[]] then [] else CHR ''.'' # dot_join (ho_names h)))
       (Some (ho_fn h)) (ho_selector h) False st"

text \<open>The wrapper of \<open>one\<close> first takes itself off the element that dispatches.\<close>

fun wrapper_off :: "page_env \<Rightarrow> nat \<Rightarrow> nat \<Rightarrow> handle_obj \<Rightarrow> ev_fn \<Rightarrow> ev_state \<Rightarrow> ev_state option" where
  "wrapper_off env k this h (Once f) st = Option.bind (off_event env k this h st) (wrapper_off env k this h f)"
| "wrapper_off env k this h f st = Some st"

type_synonym ev_run = "ev_state \<times> event_obj \<times> ev_call list"

definition call_listener :: "page_env \<Rightarrow> behaviour \<Rightarrow> nat \<Rightarrow> nat \<Rightarrow> nat \<Rightarrow> handle_obj \<Rightarrow> string \<Rightarrow> ev_run \<Rightarrow> (ev_run \<times> ev_ret option) option" where
  "call_listener env beh k this cur h ty r =
     (case r of (st, ev, log) \<Rightarrow>
        Option.bind (wrapper_off env k this h (ho_fn h) st) (\<lambda>st1.
          if base_fn (ho_fn h) = ReturnFalse then Some ((st1, ev, log), Some RFalse)
          else
            let c = (cur, base_fn (ho_fn h), ty, ho_data h); x = beh c
            in map_option (\<lambda>st2. ((st2, after_effect x ev, log @ [c]), ef_ret x)) (foldm (do_op env k) (ef_ops x) st1)))"

text \<open>\<open>special.handle\<close> of \<open>mouseenter\<close> and \<open>mouseleave\<close>: not if the mouse comes from inside the element.\<close>

definition jq_contains :: "page_env \<Rightarrow> nat \<Rightarrow> nat \<Rightarrow> bool" where
  "jq_contains env a b \<longleftrightarrow> a \<in> set (pe_ancestors env b)"

definition handle_special :: "page_env \<Rightarrow> behaviour \<Rightarrow> nat \<Rightarrow> nat \<Rightarrow> nat \<Rightarrow> handle_obj \<Rightarrow> ev_run \<Rightarrow> (ev_run \<times> ev_ret option) option" where
  "handle_special env beh k this cur h r =
     (case r of (st, ev, log) \<Rightarrow>
        if ho_origType h = Some ''mouseenter'' \<or> ho_origType h = Some ''mouseleave''
        then (if (case eo_related ev of None \<Rightarrow> True | Some x \<Rightarrow> x \<noteq> cur \<and> \<not> jq_contains env cur x)
              then call_listener env beh k this cur h (the (ho_origType h)) r
              else Some (r, None))
        else call_listener env beh k this cur h (eo_type ev) r)"

definition after_ret :: "ev_ret option \<Rightarrow> event_obj \<Rightarrow> event_obj" where
  "after_ret ret ev =
     (case ret of
        None \<Rightarrow> ev
      | Some RFalse \<Rightarrow> stopPropagation (preventDefault (ev\<lparr>eo_result := ret\<rparr>))
      | Some _ \<Rightarrow> ev\<lparr>eo_result := ret\<rparr>)"

text \<open>Which handlers a triggered event is for.\<close>

definition is_for :: "event_obj \<Rightarrow> handle_obj \<Rightarrow> bool" where
  "is_for ev h \<longleftrightarrow> \<not> eo_exclusive ev \<and> eo_names ev = [] \<or> eo_names ev = [] \<and> ho_names h = [[]]
     \<or> eo_names ev \<noteq> [] \<and> ns_test (eo_names ev) (ho_names h)"

definition run_handler :: "page_env \<Rightarrow> behaviour \<Rightarrow> nat \<Rightarrow> nat \<Rightarrow> nat \<Rightarrow> handle_obj \<Rightarrow> ev_run \<Rightarrow> ev_run option" where
  "run_handler env beh k this cur h r =
     (if eo_immediate (fst (snd r)) \<or> \<not> is_for (fst (snd r)) h then Some r
      else map_option (\<lambda>((st, ev, log), ret). (st, after_ret ret ev, log)) (handle_special env beh k this cur h r))"

definition run_matched :: "page_env \<Rightarrow> behaviour \<Rightarrow> nat \<Rightarrow> nat \<Rightarrow> nat \<times> handle_obj list \<Rightarrow> ev_run \<Rightarrow> ev_run option" where
  "run_matched env beh k this q r =
     (if eo_stopped (fst (snd r)) then Some r else foldm (run_handler env beh k this (fst q)) (snd q) r)"

text \<open>The elements from the target up to the one that dispatches, each with the delegated handlers that match; then the
  handlers bound to the element itself.\<close>

definition handler_queue :: "page_env \<Rightarrow> nat \<Rightarrow> event_obj \<Rightarrow> handlers \<Rightarrow> (nat \<times> handle_obj list) list" where
  "handler_queue env this ev hs =
     (case hs of (xs, dc) \<Rightarrow>
        let delegates = (if dc \<noteq> 0 \<and> \<not> (eo_button ev \<noteq> 0 \<and> eo_type ev = ''click'')
              then List.map_filter (\<lambda>cur.
                     if pe_disabled env cur \<and> eo_type ev = ''click'' then None
                     else let ms = filter (\<lambda>h. pe_select env (the (ho_selector h)) this cur) (take (nat dc) xs)
                          in if ms = [] then None else Some (cur, ms))
                     (takeWhile (\<lambda>cur. cur \<noteq> this) (eo_target ev # pe_ancestors env (eo_target ev)))
              else [])
        in delegates @ (if int (length xs) > dc then [(this, drop (nat dc) xs)] else []))"

definition ev_dispatch :: "page_env \<Rightarrow> behaviour \<Rightarrow> nat \<Rightarrow> nat \<Rightarrow> ev_run \<Rightarrow> ev_run option" where
  "ev_dispatch env beh k this r =
     (case r of (st, ev, log) \<Rightarrow>
        let hs = (case obj_get (ev_of this st) (eo_type ev) of None \<Rightarrow> ([], 0) | Some hs \<Rightarrow> hs)
        in foldm (run_matched env beh k this) (handler_queue env this ev hs) r)"

section \<open>Trigger\<close>

text \<open>\<open>click!\<close>, \<open>click.a.b\<close>: whether the event is exclusive, its type and the sorted names.\<close>

definition trigger_type :: "string \<Rightarrow> bool \<times> string \<times> string list" where
  "trigger_type ty =
     (let ex = (CHR ''!'' \<in> set ty); t1 = (if ex then butlast ty else ty); parts = split_at (CHR ''.'') t1
      in (ex, hd parts, if tl parts = [[]] then [] else sort (tl parts)))"

definition custom_event :: "string \<Rightarrow> bool" where
  "custom_event t \<longleftrightarrow> t \<in> {''getData'', ''setData'', ''changeData''}"

definition event_path :: "page_env \<Rightarrow> nat \<Rightarrow> string \<Rightarrow> bool \<Rightarrow> (nat \<times> string) list" where
  "event_path env e ty only =
     (e, case bindType ty of None \<Rightarrow> ty | Some u \<Rightarrow> u)
     # (if only \<or> ty = ''load'' \<or> e = pe_window env then []
        else let bt = (case delegateType ty of None \<Rightarrow> ty | Some u \<Rightarrow> u);
                 ups = (if ty = ''focus'' \<or> ty = ''blur'' then e # pe_ancestors env e else pe_ancestors env e)
             in map (\<lambda>c. (c, bt)) ups @ (if last (e # ups) = pe_document env then [(pe_window env, bt)] else []))"

definition on_name :: "string \<Rightarrow> string option" where
  "on_name t = (if CHR '':'' \<in> set t then None else Some (''on'' @ t))"

text \<open>One element of the path: the handlers of jQuery if there are any, then the handler in the attribute.\<close>

definition trigger_at :: "page_env \<Rightarrow> behaviour \<Rightarrow> nat \<Rightarrow> string \<Rightarrow> nat \<times> string \<Rightarrow> ev_run \<Rightarrow> ev_run option" where
  "trigger_at env beh k ty ct r =
     (if eo_stopped (fst (snd r)) then Some r
      else
        let r1 = (case r of (st, ev, log) \<Rightarrow> (st, ev\<lparr>eo_type := snd ct\<rparr>, log))
        in map_option (\<lambda>(st, ev, log).
             (st, if on_name ty \<noteq> None \<and> pe_accepts env (fst ct) \<and> pe_inline env (fst ct) (the (on_name ty)) = Some False
                  then preventDefault ev else ev, log))
           (if obj_get (ev_of (fst ct) (fst r1)) (snd ct) = None then Some r1 else ev_dispatch env beh k (fst ct) r1))"

text \<open>The result: the state, the event, the calls, and whether the method of the element was called.\<close>

definition ev_trigger :: "page_env \<Rightarrow> behaviour \<Rightarrow> nat \<Rightarrow> string \<Rightarrow> nat \<Rightarrow> bool \<Rightarrow> ev_state \<Rightarrow> (ev_run \<times> bool) option" where
  "ev_trigger env beh k types e only st =
     (case trigger_type types of (ex, ty, names) \<Rightarrow>
        let ev = \<lparr>eo_type = ty, eo_target = e, eo_names = names, eo_exclusive = ex, eo_button = 0, eo_related = None,
                  eo_prevented = False, eo_stopped = False, eo_immediate = False, eo_result = None\<rparr>
        in if custom_event ty \<and> ty \<notin> set (es_global st) then Some ((st, ev, []), False)
           else map_option (\<lambda>(st1, ev1, log).
                  ((st1, ev1\<lparr>eo_type := ty\<rparr>, log),
                   \<not> only \<and> \<not> eo_prevented ev1 \<and> \<not> (ty = ''click'' \<and> pe_link env e) \<and> pe_accepts env e
                   \<and> on_name ty \<noteq> None \<and> pe_method env e ty \<and> (ty \<noteq> ''focus'' \<and> ty \<noteq> ''blur'' \<or> pe_visible env e)
                   \<and> e \<noteq> pe_window env))
                (foldm (trigger_at env beh k ty) (event_path env e ty only) (st, ev, [])))"

section \<open>The removal loop\<close>

declare remove_loop.simps [simp del]

lemma remove_loop_from:
  "j \<le> length xs \<Longrightarrow> remove_loop p j (xs, dc)
    = (take j xs @ filter (\<lambda>h. \<not> p h) (drop j xs), dc - int (length (filter (\<lambda>h. p h \<and> true_selector (ho_selector h)) (drop j xs))))"
proof (induction "length xs - j" arbitrary: j xs dc)
  case 0
  then show ?case by (simp add: remove_loop.simps)
next
  case (Suc n)
  then have j: "j < length xs" by simp
  then have d: "drop j xs = xs ! j # drop (Suc j) xs" by (rule Cons_nth_drop_Suc [symmetric])
  show ?case
  proof (cases "p (xs ! j)")
    case True
    have s: "take j (splice1 j xs) = take j xs" "drop j (splice1 j xs) = drop (Suc j) xs" "length (splice1 j xs) = length xs - 1"
      using j by (simp_all add: splice1_def)
    from Suc.hyps(1) [of "splice1 j xs" j] Suc.hyps(2) j s True d show ?thesis by (subst remove_loop.simps) simp
  next
    case False
    from Suc.hyps(1) [of xs "Suc j"] Suc.hyps(2) j False d show ?thesis by (subst remove_loop.simps) (simp add: take_Suc_conv_app_nth)
  qed
qed

lemma remove_loop_filter:
  "remove_loop p 0 (xs, dc) = (filter (\<lambda>h. \<not> p h) xs, dc - int (length (filter (\<lambda>h. p h \<and> true_selector (ho_selector h)) xs)))"
  using remove_loop_from [of 0 xs p dc] by simp

section \<open>Consistency\<close>

definition handlers_ok :: "handlers \<Rightarrow> bool" where
  "handlers_ok hs \<longleftrightarrow> (\<exists>ds us. hs = (ds @ us, int (length ds)) \<and> list_all (\<lambda>h. true_selector (ho_selector h)) ds
     \<and> list_all (\<lambda>h. \<not> true_selector (ho_selector h)) us)"

lemma insert_handler_ok: "handlers_ok hs \<Longrightarrow> handlers_ok (insert_handler h hs)"
proof -
  assume "handlers_ok hs"
  then obtain ds us where d: "hs = (ds @ us, int (length ds))" "list_all (\<lambda>h. true_selector (ho_selector h)) ds"
      "list_all (\<lambda>h. \<not> true_selector (ho_selector h)) us" by (auto simp: handlers_ok_def)
  show ?thesis
  proof (cases "true_selector (ho_selector h)")
    case True
    then show ?thesis unfolding handlers_ok_def
      by (intro exI [of _ "ds @ [h]"] exI [of _ us]) (use d in \<open>simp add: insert_handler_def\<close>)
  next
    case False
    then show ?thesis unfolding handlers_ok_def
      by (intro exI [of _ ds] exI [of _ "us @ [h]"]) (use d in \<open>simp add: insert_handler_def\<close>)
  qed
qed

lemma remove_loop_ok: "handlers_ok hs \<Longrightarrow> handlers_ok (remove_loop p 0 hs)"
proof -
  assume "handlers_ok hs"
  then obtain ds us where d: "hs = (ds @ us, int (length ds))" "list_all (\<lambda>h. true_selector (ho_selector h)) ds"
      "list_all (\<lambda>h. \<not> true_selector (ho_selector h)) us" by (auto simp: handlers_ok_def)
  have "filter (\<lambda>h. p h \<and> true_selector (ho_selector h)) ds = filter p ds"
    "filter (\<lambda>h. p h \<and> true_selector (ho_selector h)) us = []"
    using d(2,3) by (auto simp: list_all_iff intro: filter_cong)
  moreover have "int (length ds) - int (length (filter p ds)) = int (length (filter (\<lambda>h. \<not> p h) ds))"
    using sum_length_filter_compl [of p ds] by simp
  ultimately show ?thesis unfolding handlers_ok_def
    by (intro exI [of _ "filter (\<lambda>h. \<not> p h) ds"] exI [of _ "filter (\<lambda>h. \<not> p h) us"])
      (use d in \<open>auto simp: remove_loop_filter list_all_iff\<close>)
qed

definition has_type :: "ev_state \<Rightarrow> nat \<Rightarrow> string \<Rightarrow> bool" where
  "has_type st e k \<longleftrightarrow> obj_get (ev_of e st) k \<noteq> None"

definition captured :: "page_env \<Rightarrow> string \<Rightarrow> bool" where
  "captured env k \<longleftrightarrow> bubbles_from k \<noteq> None \<and> \<not> pe_focusin env"

text \<open>The handlers of an element: delegates first and counted, no empty lists, and the numbers are those of the functions.\<close>

definition elem_ok :: "ev_state \<Rightarrow> nat \<Rightarrow> bool" where
  "elem_ok st e \<longleftrightarrow> distinct (map fst (ev_of e st)) \<and> (\<forall>k hs. obj_get (ev_of e st) k = Some hs \<longrightarrow>
     handlers_ok hs \<and> fst hs \<noteq> [] \<and> (\<forall>h \<in> set (fst hs). guid_of st (ho_fn h) = Some (ho_guid h)))"

text \<open>The browser has a listener for a type of an element just while there are handlers for it.\<close>

definition listeners_ok :: "page_env \<Rightarrow> ev_state \<Rightarrow> bool" where
  "listeners_ok env st \<longleftrightarrow> distinct (es_listeners st)
     \<and> (\<forall>e k. (e, k) \<in> set (es_listeners st) \<longleftrightarrow> has_type st e k \<and> \<not> captured env k \<and> k \<noteq> ''beforeunload'')"

definition capture_ok :: "page_env \<Rightarrow> ev_state \<Rightarrow> bool" where
  "capture_ok env st \<longleftrightarrow> finite {e. es_events st e \<noteq> None}
     \<and> (\<forall>k. captured env k \<longrightarrow> es_attaches st k = int (card {e. has_type st e k})
          \<and> (the (bubbles_from k) \<in> set (es_capturing st) \<longleftrightarrow> (\<exists>e. has_type st e k)))"

text \<open>Two functions never have the same number.\<close>

definition guids_ok :: "ev_state \<Rightarrow> bool" where
  "guids_ok st \<longleftrightarrow> (\<forall>f n. es_guids st f = Some n \<longrightarrow> n < es_next st) \<and> (\<forall>f g n. es_guids st f = Some n \<longrightarrow> es_guids st g = Some n \<longrightarrow> f = g)"

definition events_ok :: "page_env \<Rightarrow> ev_state \<Rightarrow> bool" where
  "events_ok env st \<longleftrightarrow> (\<forall>e. elem_ok st e) \<and> listeners_ok env st \<and> capture_ok env st \<and> guids_ok st"

text \<open>A change of the handlers of one type of one element, with what the browser is told.\<close>

lemma ev_of_simps [simp]:
  "ev_of e' (set_events e (Some evs) st) = (if e' = e then evs else ev_of e' st)"
  "ev_of e' (set_events e None st) = (if e' = e then [] else ev_of e' st)"
  "guid_of (set_events e x st) = guid_of st" "es_guids (set_events e x st) = es_guids st" "es_next (set_events e x st) = es_next st"
  "es_listeners (set_events e x st) = es_listeners st" "es_attaches (set_events e x st) = es_attaches st"
  "es_capturing (set_events e x st) = es_capturing st" "es_events (set_events e x st) = (es_events st)(e := x)"
  by (auto simp: ev_of_def set_events_def guid_of_def fun_eq_iff)

lemma setup_simps [simp]:
  "es_events (setup_event env e k st) = es_events st" "ev_of e' (setup_event env e k st) = ev_of e' st"
  "guid_of (setup_event env e k st) = guid_of st" "es_guids (setup_event env e k st) = es_guids st" "es_next (setup_event env e k st) = es_next st"
  "es_events (teardown_event env e k st) = es_events st" "ev_of e' (teardown_event env e k st) = ev_of e' st"
  "guid_of (teardown_event env e k st) = guid_of st" "es_guids (teardown_event env e k st) = es_guids st" "es_next (teardown_event env e k st) = es_next st"
  by (auto simp: setup_event_def teardown_event_def ev_of_def guid_of_def fun_eq_iff Let_def)

lemma obj_get_without [simp]: "obj_get (filter (\<lambda>(k', _). k' \<noteq> k) d) k' = (if k' = k then None else obj_get d k')"
  by (induction d) (auto simp: obj_get_def)

lemma distinct_obj_set: "distinct (map fst d) \<Longrightarrow> distinct (map fst (obj_set k v d))"
  by (simp add: obj_set_def distinct_update)

lemma distinct_without: "distinct (map fst d) \<Longrightarrow> distinct (map fst (filter (\<lambda>(k', _). k' \<noteq> k) d))"
  by (induction d) auto

lemma finite_has: "finite {e. es_events st e \<noteq> None} \<Longrightarrow> finite {e. has_type st e k}"
  by (rule finite_subset [rotated]) (auto simp: has_type_def ev_of_def split: option.splits)

lemma has_type_simps [simp]:
  "has_type (set_events e (Some evs) st) e' k \<longleftrightarrow> (if e' = e then obj_get evs k \<noteq> None else has_type st e' k)"
  "has_type (setup_event env e k st) = has_type st" "has_type (teardown_event env e k st) = has_type st"
  by (auto simp: has_type_def fun_eq_iff)

lemma bubbles_inj: "captured env k \<Longrightarrow> captured env k' \<Longrightarrow> the (bubbles_from k) = the (bubbles_from k') \<longleftrightarrow> k = k'"
  by (auto simp: captured_def bubbles_from_def split: if_splits)

lemma elem_ok_put:
  assumes "elem_ok st e'" "handlers_ok hs" "fst hs \<noteq> []" "\<forall>h \<in> set (fst hs). guid_of st (ho_fn h) = Some (ho_guid h)"
  shows "elem_ok (set_events e (Some (obj_set k hs (ev_of e' st))) st) e'"
proof (cases "e' = e")
  case True
  then show ?thesis using assms by (auto simp: elem_ok_def obj_get_set distinct_obj_set split: if_splits)
next
  case False
  then show ?thesis using assms(1) by (simp add: elem_ok_def)
qed

lemma has_setup:
  "has_type (set_events e (Some (obj_set k hs (ev_of e st))) st') e' k' \<longleftrightarrow> e' = e \<and> k' = k \<or> (if e' = e then has_type st e k' else has_type st' e' k')"
  by (auto simp: obj_get_set has_type_def)

lemma has_without:
  "has_type (set_events e (Some (filter (\<lambda>(k', _). k' \<noteq> k) (ev_of e st))) st') e' k'
    \<longleftrightarrow> (if e' = e then k' \<noteq> k \<and> has_type st e k' else has_type st' e' k')"
  by (simp add: has_type_def)

declare has_type_simps(1) [simp del]

lemma told_listeners:
  "es_listeners (setup_event env e k st) = (if captured env k \<or> k = ''beforeunload'' then es_listeners st else es_listeners st @ [(e, k)])"
  "es_listeners (teardown_event env e k st) = (if captured env k \<or> k = ''beforeunload'' then es_listeners st else removeAll (e, k) (es_listeners st))"
  by (auto simp: setup_event_def teardown_event_def captured_def Let_def)

lemma guids_set [simp]:
  "guids_ok (set_events e x st) = guids_ok st" "guids_ok (setup_event env e k st) = guids_ok st" "guids_ok (teardown_event env e k st) = guids_ok st"
  by (simp_all add: guids_ok_def)

lemma setup_listeners:
  assumes "listeners_ok env st" "\<not> has_type st e k"
  shows "listeners_ok env (set_events e (Some (obj_set k hs (ev_of e st))) (setup_event env e k st))"
  using assms unfolding listeners_ok_def by (auto simp: told_listeners has_setup)

lemma teardown_listeners:
  assumes "listeners_ok env st" "has_type st e k"
  shows "listeners_ok env (set_events e (Some (filter (\<lambda>(k', _). k' \<noteq> k) (ev_of e st))) (teardown_event env e k st))"
  using assms unfolding listeners_ok_def by (auto simp: told_listeners has_without distinct_removeAll)

lemma setup_capture:
  assumes "capture_ok env st" "\<not> has_type st e k"
  shows "capture_ok env (set_events e (Some (obj_set k hs (ev_of e st))) (setup_event env e k st))"
proof -
  have fin: "finite {e. es_events st e \<noteq> None}" using assms(1) by (simp add: capture_ok_def)
  let ?q = "set_events e (Some (obj_set k hs (ev_of e st))) (setup_event env e k st)"
  have h: "{e'. has_type ?q e' k'} = (if k' = k then insert e {e'. has_type st e' k} else {e'. has_type st e' k'})" for k'
    by (auto simp: has_setup)
  have "finite {e'. es_events ?q e' \<noteq> None}" by (rule finite_subset [OF _ finite_insert [THEN iffD2, OF fin]]) auto
  moreover have "es_attaches ?q k' = int (card {e'. has_type ?q e' k'})" if "captured env k'" for k'
    using assms that unfolding h capture_ok_def by (auto simp: setup_event_def captured_def Let_def finite_has fin)
  moreover have "the (bubbles_from k') \<in> set (es_capturing ?q) \<longleftrightarrow> (\<exists>e'. has_type ?q e' k')" if c: "captured env k'" for k'
  proof (cases "k' = k")
    case True
    have "es_attaches st k \<noteq> 0 \<Longrightarrow> the (bubbles_from k) \<in> set (es_capturing st)"
      using assms(1) c True unfolding capture_ok_def by (metis card.empty Collect_empty_eq of_nat_0)
    then show ?thesis using c True by (auto simp: setup_event_def captured_def Let_def has_setup)
  next
    case False
    then have "the (bubbles_from k') \<in> set (es_capturing ?q) \<longleftrightarrow> the (bubbles_from k') \<in> set (es_capturing st)"
      using c bubbles_inj [OF c, of k] by (auto simp: setup_event_def captured_def Let_def)
    moreover have "(\<exists>e'. has_type ?q e' k') \<longleftrightarrow> (\<exists>e'. has_type st e' k')" using False h [of k'] by auto
    ultimately show ?thesis using assms(1) c by (simp add: capture_ok_def)
  qed
  ultimately show ?thesis unfolding capture_ok_def by blast
qed

lemma teardown_capture:
  assumes "capture_ok env st" "has_type st e k"
  shows "capture_ok env (set_events e (Some (filter (\<lambda>(k', _). k' \<noteq> k) (ev_of e st))) (teardown_event env e k st))"
proof -
  have fin: "finite {e. es_events st e \<noteq> None}" using assms(1) by (simp add: capture_ok_def)
  let ?q = "set_events e (Some (filter (\<lambda>(k', _). k' \<noteq> k) (ev_of e st))) (teardown_event env e k st)"
  have h: "{e'. has_type ?q e' k'} = (if k' = k then {e'. has_type st e' k} - {e} else {e'. has_type st e' k'})" for k'
    by (auto simp: has_without)
  have pos: "card {e'. has_type st e' k} > 0" using assms(2) finite_has [OF fin] by (auto simp: card_gt_0_iff)
  have "finite {e'. es_events ?q e' \<noteq> None}" by (rule finite_subset [OF _ finite_insert [THEN iffD2, OF fin]]) auto
  moreover have "es_attaches ?q k' = int (card {e'. has_type ?q e' k'})" if "captured env k'" for k'
    using assms that pos unfolding h capture_ok_def by (auto simp: teardown_event_def captured_def Let_def finite_has fin card_Diff_singleton of_nat_diff)
  moreover have "the (bubbles_from k') \<in> set (es_capturing ?q) \<longleftrightarrow> (\<exists>e'. has_type ?q e' k')" if c: "captured env k'" for k'
  proof (cases "k' = k")
    case True
    have a: "es_attaches st k = int (card {e'. has_type st e' k})" "the (bubbles_from k) \<in> set (es_capturing st)"
      using assms c True unfolding capture_ok_def by auto
    have "card {e'. has_type st e' k} = 1 \<longleftrightarrow> {e'. has_type st e' k} - {e} = {}"
    proof -
      have "card ({e'. has_type st e' k} - {e}) = card {e'. has_type st e' k} - 1" using assms(2) by (simp add: card_Diff_singleton)
      moreover have "{e'. has_type st e' k} - {e} = {} \<longleftrightarrow> card ({e'. has_type st e' k} - {e}) = 0"
        using finite_has [OF fin, of k] by (subst card_eq_0_iff) auto
      ultimately show ?thesis using pos by linarith
    qed
    moreover have "(\<exists>e'. has_type ?q e' k) \<longleftrightarrow> {e'. has_type st e' k} - {e} \<noteq> {}"
    proof -
      have "(\<exists>e'. has_type ?q e' k) \<longleftrightarrow> {e'. has_type ?q e' k} \<noteq> {}" by blast
      then show ?thesis by (simp only: h refl if_True)
    qed
    moreover have "es_capturing ?q = (if es_attaches st k = 1 then removeAll (the (bubbles_from k)) (es_capturing st) else es_capturing st)"
      using c True by (simp add: teardown_event_def captured_def Let_def)
    ultimately show ?thesis using True a by (cases "es_attaches st k = 1") simp_all
  next
    case False
    then have "the (bubbles_from k') \<in> set (es_capturing ?q) \<longleftrightarrow> the (bubbles_from k') \<in> set (es_capturing st)"
      using c bubbles_inj [OF c, of k] by (auto simp: teardown_event_def captured_def Let_def)
    moreover have "(\<exists>e'. has_type ?q e' k') \<longleftrightarrow> (\<exists>e'. has_type st e' k')" using False h [of k'] by auto
    ultimately show ?thesis using assms(1) c by (simp add: capture_ok_def)
  qed
  ultimately show ?thesis unfolding capture_ok_def by blast
qed

lemma finite_set_events:
  assumes "finite {e'. es_events st e' \<noteq> None}"
  shows "finite {e'. es_events (set_events e x st) e' \<noteq> None}"
  by (rule finite_subset [of _ "insert e {e'. es_events st e' \<noteq> None}"]) (use assms in \<open>auto split: if_splits\<close>)

lemma add_new_ok:
  assumes "events_ok env st" "handlers_ok hs" "fst hs \<noteq> []" "\<forall>h \<in> set (fst hs). guid_of st (ho_fn h) = Some (ho_guid h)"
  shows "\<not> has_type st e k \<Longrightarrow> events_ok env (set_events e (Some (obj_set k hs (ev_of e st))) (setup_event env e k st))"
    and "has_type st e k \<Longrightarrow> events_ok env (set_events e (Some (obj_set k hs (ev_of e st))) st)"
proof -
  have el: "elem_ok (set_events e (Some (obj_set k hs (ev_of e st))) st') e'" if "guid_of st' = guid_of st" "\<And>e. ev_of e st' = ev_of e st" for st' e'
    using assms that by (auto simp: events_ok_def elem_ok_def obj_get_set distinct_obj_set split: if_splits)
  show "events_ok env (set_events e (Some (obj_set k hs (ev_of e st))) (setup_event env e k st))" if "\<not> has_type st e k"
    using assms(1) el [of "setup_event env e k st"] setup_listeners [OF _ that] setup_capture [OF _ that] by (simp add: events_ok_def)
  show "events_ok env (set_events e (Some (obj_set k hs (ev_of e st))) st)" if k: "has_type st e k"
  proof -
    have h: "has_type (set_events e (Some (obj_set k hs (ev_of e st))) st) = has_type st" using k by (auto simp: has_setup fun_eq_iff)
    have "finite {e'. es_events (set_events e (Some (obj_set k hs (ev_of e st))) st) e' \<noteq> None}"
      using assms(1) by (intro finite_set_events) (simp add: events_ok_def capture_ok_def)
    then show ?thesis using assms(1) el [of st] h by (simp add: events_ok_def listeners_ok_def capture_ok_def)
  qed
qed

lemma remove_type_ok:
  assumes "events_ok env st" "has_type st e k"
  shows "events_ok env (set_events e (Some (filter (\<lambda>(k', _). k' \<noteq> k) (ev_of e st))) (teardown_event env e k st))"
proof -
  have "elem_ok (set_events e (Some (filter (\<lambda>(k', _). k' \<noteq> k) (ev_of e st))) (teardown_event env e k st)) e'" for e'
    using assms(1) by (auto simp: events_ok_def elem_ok_def distinct_without split: if_splits)
  then show ?thesis using assms teardown_listeners teardown_capture by (simp add: events_ok_def)
qed

lemma remove1_ok: "events_ok env st \<Longrightarrow> events_ok env (remove1_type env e k w st)"
proof (cases "obj_get (ev_of e st) k")
  case (Some hs)
  assume ok: "events_ok env st"
  let ?hs = "remove_loop (goes st w) 0 hs"
  have hs: "handlers_ok hs" "fst hs \<noteq> []" "\<forall>h \<in> set (fst hs). guid_of st (ho_fn h) = Some (ho_guid h)" "has_type st e k"
    using ok Some by (cases hs; auto simp: events_ok_def elem_ok_def has_type_def)+
  have "set (fst ?hs) \<subseteq> set (fst hs)" by (cases hs) (auto simp: remove_loop_filter)
  then have "fst ?hs \<noteq> [] \<Longrightarrow> events_ok env (set_events e (Some (obj_set k ?hs (ev_of e st))) st)"
    using add_new_ok(2) [OF ok remove_loop_ok [OF hs(1)] _ _ hs(4)] hs(3) by blast
  then show ?thesis using Some hs remove_type_ok [OF ok hs(4)] by (auto simp: remove1_type_def Let_def)
qed (simp add: remove1_type_def)

lemma tidy_ok:
  assumes "events_ok env st"
  shows "events_ok env (tidy e st)"
proof (cases "ev_of e st = []")
  case True
  then have e: "ev_of e' (set_events e None st) = ev_of e' st" for e' by simp
  then have h: "has_type (set_events e None st) = has_type st" by (simp add: has_type_def fun_eq_iff)
  have "finite {e'. es_events (set_events e None st) e' \<noteq> None}"
    using assms by (intro finite_set_events) (simp add: events_ok_def capture_ok_def)
  moreover have "elem_ok (set_events e None st) e'" for e'
    using assms e by (simp add: events_ok_def elem_ok_def)
  ultimately have "events_ok env (set_events e None st)"
    using assms h by (simp add: events_ok_def listeners_ok_def capture_ok_def)
  then show ?thesis using True by (simp add: tidy_def)
qed (use assms in \<open>simp add: tidy_def\<close>)

lemma foldm_inv:
  "foldm f xs s = Some t \<Longrightarrow> P s \<Longrightarrow> (\<And>x s s'. x \<in> set xs \<Longrightarrow> f x s = Some s' \<Longrightarrow> P s \<Longrightarrow> P s') \<Longrightarrow> P t"
  by (induction xs arbitrary: s) (auto simp: bind_eq_Some_conv)

lemma ev_remove_ok: "ev_remove env n e types f sel mapped st = Some st' \<Longrightarrow> events_ok env st \<Longrightarrow> events_ok env st'"
proof (induction n arbitrary: types mapped st st')
  case (Suc n)
  show ?case
  proof (cases "es_events st e = None")
    case False
    let ?body = "\<lambda>ty s. case parse_type ty of
            (Some (c # t), ns) \<Rightarrow>
              Some (remove1_type env e (key_of sel (c # t))
                \<lparr>wt_origType = c # t, wt_mapped = mapped, wt_fn = f, wt_names = map_option (\<lambda>x. name_list (Some x)) ns, wt_selector = sel\<rparr> s)
          | _ \<Rightarrow> foldm (\<lambda>k. ev_remove env n e (k @ ty) f sel True) (map fst (ev_of e s)) s"
    obtain s where s: "foldm ?body (type_list types) st = Some s" "st' = tidy e s" using Suc.prems(1) False by auto
    have "events_ok env s"
    proof (rule foldm_inv [where P = "events_ok env", OF s(1) Suc.prems(2)])
      fix ty r r' assume "?body ty r = Some r'" and r: "events_ok env r"
      moreover have "events_ok env r'" if "foldm (\<lambda>k. ev_remove env n e (k @ ty) f sel True) (map fst (ev_of e r)) r = Some r'"
        by (rule foldm_inv [where P = "events_ok env", OF that r]) (use Suc.IH in blast)
      ultimately show "events_ok env r'" using remove1_ok by (auto split: prod.splits option.splits list.splits)
    qed
    then show ?thesis using s(2) tidy_ok by simp
  qed (use Suc.prems in simp)
qed simp

lemma with_guid_simps [simp]:
  "es_events (with_guid f st) = es_events st" "ev_of e (with_guid f st) = ev_of e st" "has_type (with_guid f st) = has_type st"
  "es_listeners (with_guid f st) = es_listeners st" "es_attaches (with_guid f st) = es_attaches st" "es_capturing (with_guid f st) = es_capturing st"
  "guid_of (with_guid f st) f \<noteq> None"
  by (auto simp: with_guid_def ev_of_def has_type_def guid_of_def fun_eq_iff split: option.split)

lemma with_guid_keeps: "guid_of st g = Some n \<Longrightarrow> guid_of (with_guid f st) g = Some n"
  by (auto simp: with_guid_def guid_of_def split: option.split)

lemma with_guid_ok: "events_ok env st \<Longrightarrow> events_ok env (with_guid f st)"
proof -
  assume ok: "events_ok env st"
  then have "guids_ok (with_guid f st)"
    by (auto simp: events_ok_def guids_ok_def with_guid_def guid_of_def split: option.split) (metis less_irrefl_nat less_SucI)+
  moreover have "elem_ok (with_guid f st) e" for e
    using ok with_guid_keeps by (simp add: events_ok_def elem_ok_def)
  ultimately show ?thesis using ok by (simp add: events_ok_def listeners_ok_def capture_ok_def)
qed

lemma init_events_ok: "events_ok env st \<Longrightarrow> events_ok env (set_events e (Some (ev_of e st)) st)"
proof -
  assume ok: "events_ok env st"
  have e: "ev_of e' (set_events e (Some (ev_of e st)) st) = ev_of e' st" for e' by simp
  then have "has_type (set_events e (Some (ev_of e st)) st) = has_type st" by (simp add: has_type_def fun_eq_iff)
  moreover have "finite {e'. es_events (set_events e (Some (ev_of e st)) st) e' \<noteq> None}"
    using ok by (intro finite_set_events) (simp add: events_ok_def capture_ok_def)
  moreover have "elem_ok (set_events e (Some (ev_of e st)) st) e'" for e' using ok e by (simp add: events_ok_def elem_ok_def)
  ultimately show ?thesis using ok by (simp add: events_ok_def listeners_ok_def capture_ok_def)
qed

lemma global_ok: "events_ok env (st\<lparr>es_global := g\<rparr>) = events_ok env st"
  by (simp add: events_ok_def elem_ok_def listeners_ok_def capture_ok_def guids_ok_def has_type_def ev_of_def guid_of_def)

lemma insert_handler_set: "set (fst (insert_handler h hs)) = insert h (set (fst hs))"
proof -
  have "set (take n xs) \<union> set (drop n xs) = set xs" for n and xs :: "handle_obj list" by (metis append_take_drop_id set_append)
  then show ?thesis by (cases hs) (auto simp: insert_handler_def)
qed

lemma add_type_ok:
  assumes "events_ok env st" "guid_of st f \<noteq> None"
  shows "events_ok env (add_type env e f d sel ty st) \<and> guid_of (add_type env e f d sel ty st) f \<noteq> None \<and> ev_of e (add_type env e f d sel ty st) \<noteq> []"
proof -
  obtain t ns where p: "parse_type ty = (t, ns)" by fastforce
  define k where "k = (case t of None \<Rightarrow> ''undefined'' | Some u \<Rightarrow> key_of sel u)"
  define h where "h = \<lparr>ho_origType = t, ho_data = d, ho_fn = f, ho_guid = the (guid_of st f), ho_selector = sel, ho_names = name_list ns\<rparr>"
  define hs where "hs = (case obj_get (ev_of e st) k of None \<Rightarrow> ([], 0) | Some hs \<Rightarrow> hs)"
  define st1 where "st1 = (if obj_get (ev_of e st) k = None then setup_event env e k st else st)"
  have a: "add_type env e f d sel ty st = (set_events e (Some (obj_set k (insert_handler h hs) (ev_of e st))) st1)\<lparr>es_global := List.insert k (es_global st)\<rparr>"
    by (simp add: add_type_def p k_def h_def hs_def st1_def Let_def)
  have old: "handlers_ok hs \<and> (\<forall>x \<in> set (fst hs). guid_of st (ho_fn x) = Some (ho_guid x))"
  proof (cases "obj_get (ev_of e st) k")
    case None
    then show ?thesis by (auto simp: hs_def handlers_ok_def)
  next
    case (Some ys)
    then show ?thesis using assms(1) by (cases ys) (simp add: hs_def events_ok_def elem_ok_def)
  qed
  have "guid_of st (ho_fn h) = Some (ho_guid h)" using assms(2) by (simp add: h_def)
  then have "\<forall>x \<in> set (fst (insert_handler h hs)). guid_of st (ho_fn x) = Some (ho_guid x)" using old by (simp add: insert_handler_set)
  moreover have "fst (insert_handler h hs) \<noteq> []" using insert_handler_set [of h hs] by auto
  ultimately have "events_ok env (set_events e (Some (obj_set k (insert_handler h hs) (ev_of e st))) st1)"
    using add_new_ok [OF assms(1) insert_handler_ok [OF old [THEN conjunct1]]] by (simp add: st1_def has_type_def)
  moreover have "obj_set k v xs \<noteq> []" for k v and xs :: events by (cases xs) (auto simp: obj_set_def)
  moreover have "ev_of e (st\<lparr>es_global := g\<rparr>) = ev_of e st" "guid_of (st\<lparr>es_global := g\<rparr>) = guid_of st" for st g
    by (simp_all add: ev_of_def guid_of_def fun_eq_iff)
  ultimately show ?thesis using assms(2) by (simp add: a global_ok st1_def)
qed

lemma ev_add_ok:
  assumes "events_ok env st" "\<forall>e. es_events st e \<noteq> Some []"
  shows "events_ok env (ev_add env e types f d sel st)" "\<forall>e'. es_events (ev_add env e types f d sel st) e' \<noteq> Some []"
proof -
  define st2 where "st2 = set_events e (Some (ev_of e (with_guid f st))) (with_guid f st)"
  have st2: "events_ok env st2" "guid_of st2 f \<noteq> None" "\<forall>e'. e' \<noteq> e \<longrightarrow> es_events st2 e' \<noteq> Some []"
    using init_events_ok [OF with_guid_ok [OF assms(1)], of e] assms(2) unfolding st2_def
    by (simp_all add: ev_of_simps(3))
  have f: "events_ok env s \<and> guid_of s f \<noteq> None \<and> (\<forall>e'. e' \<noteq> e \<longrightarrow> es_events s e' \<noteq> Some [])
      \<Longrightarrow> (let r = fold (add_type env e f d sel) tys s in events_ok env r \<and> guid_of r f \<noteq> None \<and> (\<forall>e'. e' \<noteq> e \<longrightarrow> es_events r e' \<noteq> Some [])
            \<and> (tys \<noteq> [] \<longrightarrow> ev_of e r \<noteq> []))" for tys s
  proof (induction tys rule: rev_induct)
    case (snoc ty tys)
    let ?r = "fold (add_type env e f d sel) tys s"
    have r: "events_ok env ?r" "guid_of ?r f \<noteq> None" "\<forall>e'. e' \<noteq> e \<longrightarrow> es_events ?r e' \<noteq> Some []"
      using snoc by (auto simp: Let_def)
    have "es_events (add_type env e f d sel ty ?r) e' = es_events ?r e'" if "e' \<noteq> e" for e'
      using that by (auto simp: add_type_def Let_def set_events_def split: prod.split option.split)
    then show ?case using add_type_ok [OF r(1,2)] r(3) by (simp add: Let_def)
  qed simp
  have ne: "type_list types \<noteq> []" unfolding type_list_def by (cases "jq_trim (hoverHack types)") (auto split: list.split)
  have one: "ev_of e s \<noteq> [] \<Longrightarrow> es_events s e \<noteq> Some []" for s by (auto simp: ev_of_def)
  have a: "ev_add env e types f d sel st = (if types = [] \<or> \<not> pe_accepts env e then st else fold (add_type env e f d sel) (type_list types) st2)"
    by (simp add: ev_add_def st2_def Let_def)
  show "events_ok env (ev_add env e types f d sel st)" "\<forall>e'. es_events (ev_add env e types f d sel st) e' \<noteq> Some []"
  proof -
    let ?r = "fold (add_type env e f d sel) (type_list types) st2"
    have r: "events_ok env ?r" "\<forall>e'. e' \<noteq> e \<longrightarrow> es_events ?r e' \<noteq> Some []" "ev_of e ?r \<noteq> []"
      using f [of st2 "type_list types"] st2 ne by (auto simp: Let_def)
    show "events_ok env (ev_add env e types f d sel st)" using r(1) assms(1) by (simp add: a)
    have "es_events ?r e' \<noteq> Some []" for e' using r(2) one [OF r(3)] by (cases "e' = e") blast+
    then show "\<forall>e'. es_events (ev_add env e types f d sel st) e' \<noteq> Some []" using assms(2) by (simp add: a)
  qed
qed

text \<open>No object \<open>events\<close> is left behind empty.\<close>

lemma remove_settled:
  assumes "ev_remove env n e types f sel mapped st = Some st'" "\<forall>e'. e' \<noteq> e \<longrightarrow> es_events st e' \<noteq> Some []"
  shows "\<forall>e'. e' \<noteq> e \<longrightarrow> es_events st' e' \<noteq> Some []" "es_events st e \<noteq> None \<longrightarrow> es_events st' e \<noteq> Some []"
proof -
  have keep: "es_events (remove1_type env e k w s) e' = es_events s e'" if "e' \<noteq> e" for k w s e'
    using that by (auto simp: remove1_type_def Let_def split: option.split)
  have tidy: "es_events (tidy e s) e' = es_events s e'" if "e' \<noteq> e" for s e' using that by (simp add: tidy_def)
  show "\<forall>e'. e' \<noteq> e \<longrightarrow> es_events st' e' \<noteq> Some []"
    using assms
  proof (induction n arbitrary: types mapped st st')
    case (Suc n)
    show ?case
    proof (cases "es_events st e = None")
      case False
      let ?P = "\<lambda>s. \<forall>e'. e' \<noteq> e \<longrightarrow> es_events s e' \<noteq> Some []"
      let ?body = "\<lambda>ty s. case parse_type ty of
            (Some (c # t), ns) \<Rightarrow>
              Some (remove1_type env e (key_of sel (c # t))
                \<lparr>wt_origType = c # t, wt_mapped = mapped, wt_fn = f, wt_names = map_option (\<lambda>x. name_list (Some x)) ns, wt_selector = sel\<rparr> s)
          | _ \<Rightarrow> foldm (\<lambda>k. ev_remove env n e (k @ ty) f sel True) (map fst (ev_of e s)) s"
      obtain s where s: "foldm ?body (type_list types) st = Some s" "st' = tidy e s" using Suc.prems(1) False by auto
      have "?P s"
      proof (rule foldm_inv [where P = ?P, OF s(1) Suc.prems(2)])
        fix ty r r' assume "?body ty r = Some r'" and r: "?P r"
        moreover have "?P r'" if "foldm (\<lambda>k. ev_remove env n e (k @ ty) f sel True) (map fst (ev_of e r)) r = Some r'"
          by (rule foldm_inv [where P = ?P, OF that r]) (use Suc.IH in blast)
        ultimately show "?P r'" using keep by (auto split: prod.splits option.splits list.splits)
      qed
      then show ?thesis using s(2) tidy by simp
    qed (use Suc.prems in simp)
  qed simp
  show "es_events st e \<noteq> None \<longrightarrow> es_events st' e \<noteq> Some []"
  proof
    assume "es_events st e \<noteq> None"
    then obtain m s where "st' = tidy e s" using assms(1) by (cases n) auto
    then show "es_events st' e \<noteq> Some []" by (auto simp: tidy_def ev_of_def)
  qed
qed

definition all_ok :: "page_env \<Rightarrow> ev_state \<Rightarrow> bool" where
  "all_ok env st \<longleftrightarrow> events_ok env st \<and> (\<forall>e. es_events st e \<noteq> Some [])"

lemma ev_add_all: "all_ok env st \<Longrightarrow> all_ok env (ev_add env e types f d sel st)"
  using ev_add_ok by (simp add: all_ok_def)

lemma ev_remove_all: "ev_remove env n e types f sel mapped st = Some st' \<Longrightarrow> all_ok env st \<Longrightarrow> all_ok env st'"
  unfolding all_ok_def
proof (intro conjI allI)
  fix e' assume r: "ev_remove env n e types f sel mapped st = Some st'" and ok: "events_ok env st \<and> (\<forall>e. es_events st e \<noteq> Some [])"
  then show "events_ok env st'" using ev_remove_ok by blast
  show "es_events st' e' \<noteq> Some []"
  proof (cases "es_events st e = None")
    case True
    then have "st' = st" using r by (cases n) auto
    then show ?thesis using ok by simp
  qed (use r ok remove_settled in metis)
qed

lemma do_op_all: "do_op env n x st = Some st' \<Longrightarrow> all_ok env st \<Longrightarrow> all_ok env st'"
proof -
  assume r: "do_op env n x st = Some st'" and ok: "all_ok env st"
  have adds: "all_ok env s \<Longrightarrow> all_ok env (fold (\<lambda>e. ev_add env e types f d s0) els s)" for els types f d s0 s
    by (induction els arbitrary: s) (simp_all add: ev_add_all)
  have guid: "all_ok env s \<Longrightarrow> all_ok env (with_guid f s)" for f s using with_guid_ok by (simp add: all_ok_def)
  show ?thesis
  proof (cases x)
    case (EvOn els types a b c one)
    then show ?thesis using r ok adds guid by (auto simp: do_op_def ev_on_def split: option.splits)
  next
    case (EvOff els types a b)
    then obtain fn s where "foldm (\<lambda>e. ev_remove env n e types fn s False) els st = Some st'"
      using r by (auto simp: do_op_def ev_off_def split: prod.splits)
    then show ?thesis by (rule foldm_inv [where P = "all_ok env", OF _ ok]) (use ev_remove_all in blast)
  qed
qed

definition no_events :: ev_state where
  "no_events = \<lparr>es_events = (\<lambda>_. None), es_listeners = [], es_global = [], es_guids = (\<lambda>_. None), es_next = 1,
     es_attaches = (\<lambda>_. 0), es_capturing = []\<rparr>"

lemma no_events_ok: "all_ok env no_events"
  by (simp add: all_ok_def events_ok_def elem_ok_def listeners_ok_def capture_ok_def guids_ok_def has_type_def ev_of_def no_events_def)

text \<open>C7: Whatever is bound and unbound: of the handlers of an element for a type the delegated ones come first and are counted, the
  browser has a listener just while there are handlers, \<open>focusin\<close> is captured on the document just while some element wants it, and
  different functions have different numbers.\<close>

theorem events_consistent:
  assumes "foldm (do_op env n) ops no_events = Some st"
  shows "(\<forall>e k xs dc. obj_get (ev_of e st) k = Some (xs, dc) \<longrightarrow> xs \<noteq> []
            \<and> (\<forall>i < length xs. true_selector (ho_selector (xs ! i)) \<longleftrightarrow> int i < dc))
    \<and> (\<forall>e k. (e, k) \<in> set (es_listeners st) \<longleftrightarrow> has_type st e k \<and> \<not> captured env k \<and> k \<noteq> ''beforeunload'')
    \<and> (\<forall>k. captured env k \<longrightarrow> (the (bubbles_from k) \<in> set (es_capturing st) \<longleftrightarrow> (\<exists>e. has_type st e k)))
    \<and> (\<forall>f g. guid_of st f \<noteq> None \<longrightarrow> guid_of st f = guid_of st g \<longrightarrow> base_fn f = base_fn g)"
proof -
  have ok: "events_ok env st"
    using foldm_inv [where P = "all_ok env", OF assms no_events_ok] do_op_all by (auto simp: all_ok_def)
  have "xs \<noteq> [] \<and> (\<forall>i < length xs. true_selector (ho_selector (xs ! i)) \<longleftrightarrow> int i < dc)" if "obj_get (ev_of e st) k = Some (xs, dc)" for e k xs dc
  proof -
    have "handlers_ok (xs, dc)" "xs \<noteq> []" using ok that by (auto simp: events_ok_def elem_ok_def)
    then obtain ds us where d: "xs = ds @ us" "dc = int (length ds)" "\<forall>h \<in> set ds. true_selector (ho_selector h)"
        "\<forall>h \<in> set us. \<not> true_selector (ho_selector h)" by (auto simp: handlers_ok_def list_all_iff)
    have "true_selector (ho_selector (xs ! i)) \<longleftrightarrow> int i < dc" if "i < length xs" for i
      using d that by (cases "i < length ds") (auto simp: nth_append)
    then show ?thesis using \<open>xs \<noteq> []\<close> by blast
  qed
  moreover have "\<forall>f g. guid_of st f \<noteq> None \<longrightarrow> guid_of st f = guid_of st g \<longrightarrow> base_fn f = base_fn g"
    using ok by (auto simp: events_ok_def guids_ok_def guid_of_def)
  ultimately show ?thesis using ok unfolding events_ok_def listeners_ok_def capture_ok_def by blast
qed

section \<open>What a dispatch calls\<close>

definition wants :: "page_env \<Rightarrow> event_obj \<Rightarrow> nat \<Rightarrow> handle_obj \<Rightarrow> bool" where
  "wants env ev cur h \<longleftrightarrow> is_for ev h \<and> base_fn (ho_fn h) \<noteq> ReturnFalse
     \<and> (ho_origType h = Some ''mouseenter'' \<or> ho_origType h = Some ''mouseleave''
         \<longrightarrow> (case eo_related ev of None \<Rightarrow> True | Some x \<Rightarrow> x \<noteq> cur \<and> \<not> jq_contains env cur x))"

definition call_of :: "event_obj \<Rightarrow> nat \<Rightarrow> handle_obj \<Rightarrow> ev_call" where
  "call_of ev cur h =
     (cur, base_fn (ho_fn h),
      if ho_origType h = Some ''mouseenter'' \<or> ho_origType h = Some ''mouseleave'' then the (ho_origType h) else eo_type ev, ho_data h)"

definition calls_of :: "page_env \<Rightarrow> event_obj \<Rightarrow> nat \<times> handle_obj list \<Rightarrow> ev_call list" where
  "calls_of env ev q = map (call_of ev (fst q)) (filter (wants env ev (fst q)) (snd q))"

definition same_event :: "event_obj \<Rightarrow> event_obj \<Rightarrow> bool" where
  "same_event a b \<longleftrightarrow> eo_type a = eo_type b \<and> eo_target a = eo_target b \<and> eo_names a = eo_names b \<and> eo_exclusive a = eo_exclusive b
     \<and> eo_related a = eo_related b \<and> (eo_stopped a \<longrightarrow> eo_stopped b) \<and> (eo_immediate a \<longrightarrow> eo_immediate b)"

lemma same_event_trans: "same_event a b \<Longrightarrow> same_event b c \<Longrightarrow> same_event a c"
  by (simp add: same_event_def)

lemma same_calls: "same_event a b \<Longrightarrow> calls_of env b q = calls_of env a q"
  by (simp add: same_event_def calls_of_def call_of_def wants_def is_for_def cong: filter_cong)

lemma same_after: "same_event ev (after_effect x ev)" "same_event ev (after_ret ret ev)"
  by (auto simp: same_event_def after_effect_def after_ret_def preventDefault_def stopPropagation_def stopImmediatePropagation_def Let_def
      split: option.split ev_ret.split)

definition halted :: "event_obj \<Rightarrow> bool" where
  "halted ev \<longleftrightarrow> eo_stopped ev \<or> eo_immediate ev"

definition never_stops :: "behaviour \<Rightarrow> bool" where
  "never_stops beh \<longleftrightarrow> (\<forall>c. \<not> ef_stop (beh c) \<and> \<not> ef_immediate (beh c) \<and> ef_ret (beh c) \<noteq> Some RFalse)"

lemma call_listener_log:
  assumes "call_listener env beh k this cur h ty (st, ev, log) = Some ((st', ev', log'), ret)"
  shows "same_event ev ev'" "log' = (if base_fn (ho_fn h) = ReturnFalse then log else log @ [(cur, base_fn (ho_fn h), ty, ho_data h)])"
    and "never_stops beh \<Longrightarrow> base_fn (ho_fn h) \<noteq> ReturnFalse \<Longrightarrow> halted ev' = halted ev \<and> ret \<noteq> Some RFalse"
proof -
  let ?c = "(cur, base_fn (ho_fn h), ty, ho_data h)"
  obtain st1 where s: "wrapper_off env k this h (ho_fn h) st = Some st1" using assms by (auto simp: call_listener_def bind_eq_Some_conv)
  have r: "base_fn (ho_fn h) = ReturnFalse \<and> ev' = ev \<and> log' = log
      \<or> base_fn (ho_fn h) \<noteq> ReturnFalse \<and> ev' = after_effect (beh ?c) ev \<and> log' = log @ [?c] \<and> ret = ef_ret (beh ?c)"
    using assms s by (auto simp: call_listener_def Let_def split: if_splits)
  then show "same_event ev ev'" using same_after(1) by (auto simp: same_event_def)
  show "log' = (if base_fn (ho_fn h) = ReturnFalse then log else log @ [?c])" using r by auto
  show "halted ev' = halted ev \<and> ret \<noteq> Some RFalse" if "never_stops beh" "base_fn (ho_fn h) \<noteq> ReturnFalse"
    using r that by (auto simp: never_stops_def halted_def after_effect_def preventDefault_def)
qed

lemma run_handler_log:
  assumes "run_handler env beh k this cur h (st, ev, log) = Some (st', ev', log')"
  shows "same_event ev ev'"
    and "log' = (if \<not> eo_immediate ev \<and> wants env ev cur h then log @ [call_of ev cur h] else log)"
    and "never_stops beh \<Longrightarrow> base_fn (ho_fn h) \<noteq> ReturnFalse \<Longrightarrow> halted ev' = halted ev"
proof -
  let ?mouse = "ho_origType h = Some ''mouseenter'' \<or> ho_origType h = Some ''mouseleave''"
  let ?out = "case eo_related ev of None \<Rightarrow> True | Some x \<Rightarrow> x \<noteq> cur \<and> \<not> jq_contains env cur x"
  let ?ty = "if ?mouse then the (ho_origType h) else eo_type ev"
  have "same_event ev ev' \<and> log' = (if \<not> eo_immediate ev \<and> wants env ev cur h then log @ [call_of ev cur h] else log)
      \<and> (never_stops beh \<and> base_fn (ho_fn h) \<noteq> ReturnFalse \<longrightarrow> halted ev' = halted ev)"
  proof (cases "eo_immediate ev \<or> \<not> is_for ev h")
    case True
    then show ?thesis using assms by (auto simp: run_handler_def wants_def same_event_def)
  next
    case False
    then obtain ev1 ret where h: "handle_special env beh k this cur h (st, ev, log) = Some ((st', ev1, log'), ret)" "ev' = after_ret ret ev1"
      using assms by (auto simp: run_handler_def)
    show ?thesis
    proof (cases "?mouse \<and> \<not> ?out")
      case True
      then have "ev1 = ev" "log' = log" "ret = None" using h(1) by (auto simp: handle_special_def)
      then show ?thesis using True h(2) by (auto simp: wants_def same_event_def after_ret_def)
    next
      case f: False
      then have c: "call_listener env beh k this cur h ?ty (st, ev, log) = Some ((st', ev1, log'), ret)"
        using h(1) by (auto simp: handle_special_def)
      have s: "same_event ev ev'" using call_listener_log(1) [OF c] same_after(2) h(2) same_event_trans by blast
      have "halted ev' = halted ev" if "never_stops beh" "base_fn (ho_fn h) \<noteq> ReturnFalse"
        using call_listener_log(3) [OF c that] h(2) by (auto simp: after_ret_def halted_def split: option.split ev_ret.split)
      then show ?thesis using s call_listener_log(2) [OF c] False f by (auto simp: wants_def call_of_def)
    qed
  qed
  then show "same_event ev ev'"
    and "log' = (if \<not> eo_immediate ev \<and> wants env ev cur h then log @ [call_of ev cur h] else log)"
    and "never_stops beh \<Longrightarrow> base_fn (ho_fn h) \<noteq> ReturnFalse \<Longrightarrow> halted ev' = halted ev" by blast+
qed

lemma run_handlers_log:
  assumes "foldm (run_handler env beh k this cur) hs (st, ev, log) = Some (st', ev', log')"
  shows "same_event ev ev' \<and> (\<exists>n. log' = log @ take n (calls_of env ev (cur, hs)) \<and> (eo_immediate ev' \<or> length (calls_of env ev (cur, hs)) \<le> n))
     \<and> (eo_immediate ev \<longrightarrow> log' = log)
     \<and> (never_stops beh \<and> (\<forall>h \<in> set hs. base_fn (ho_fn h) \<noteq> ReturnFalse) \<longrightarrow> halted ev' = halted ev)"
  using assms
proof (induction hs arbitrary: st ev log)
  case (Cons h hs)
  then obtain st1 ev1 log1 where r: "run_handler env beh k this cur h (st, ev, log) = Some (st1, ev1, log1)"
      "foldm (run_handler env beh k this cur) hs (st1, ev1, log1) = Some (st', ev', log')" by (auto simp: bind_eq_Some_conv)
  note one = run_handler_log [OF r(1)]
  note ih = Cons.IH [OF r(2)]
  have s: "same_event ev ev'" using ih one(1) same_event_trans by blast
  have c: "calls_of env ev (cur, h # hs) = (if wants env ev cur h then [call_of ev cur h] else []) @ calls_of env ev1 (cur, hs)"
    using same_calls [OF one(1), of env "(cur, hs)"] by (simp add: calls_of_def [of env ev])
  have imm: "eo_immediate ev \<Longrightarrow> eo_immediate ev1" using one(1) by (simp add: same_event_def)
  obtain n where n: "log' = log1 @ take n (calls_of env ev1 (cur, hs))" "eo_immediate ev' \<or> length (calls_of env ev1 (cur, hs)) \<le> n" using ih by blast
  have "\<exists>n. log' = log @ take n (calls_of env ev (cur, h # hs)) \<and> (eo_immediate ev' \<or> length (calls_of env ev (cur, h # hs)) \<le> n)"
  proof (cases "eo_immediate ev")
    case True
    then have "log' = log" "eo_immediate ev'" using ih imm one(2) s by (auto simp: same_event_def)
    then show ?thesis by (intro exI [of _ 0]) simp
  next
    case False
    then show ?thesis using n one(2) c
      by (cases "wants env ev cur h") (auto intro: exI [of _ "Suc n"] exI [of _ n])
  qed
  then show ?case using s ih one imm by auto
qed (auto simp: same_event_def calls_of_def)

lemma run_matched_log:
  assumes "foldm (run_matched env beh k this) q (st, ev, log) = Some (st', ev', log')"
  shows "same_event ev ev' \<and> (\<exists>n. log' = log @ take n (concat (map (calls_of env ev) q)) \<and> (halted ev' \<or> length (concat (map (calls_of env ev) q)) \<le> n))
     \<and> (halted ev \<longrightarrow> log' = log)
     \<and> (never_stops beh \<and> (\<forall>x \<in> set q. \<forall>h \<in> set (snd x). base_fn (ho_fn h) \<noteq> ReturnFalse) \<longrightarrow> halted ev' = halted ev)"
  using assms
proof (induction q arbitrary: st ev log)
  case (Cons x q)
  obtain cur hs where x: "x = (cur, hs)" by fastforce
  obtain st1 ev1 log1 where r: "run_matched env beh k this (cur, hs) (st, ev, log) = Some (st1, ev1, log1)"
      "foldm (run_matched env beh k this) q (st1, ev1, log1) = Some (st', ev', log')" using Cons.prems x by (auto simp: bind_eq_Some_conv)
  have one: "same_event ev ev1 \<and> (\<exists>n. log1 = log @ take n (calls_of env ev (cur, hs)) \<and> (halted ev1 \<or> length (calls_of env ev (cur, hs)) \<le> n))
     \<and> (halted ev \<longrightarrow> log1 = log)
     \<and> (never_stops beh \<and> (\<forall>h \<in> set hs. base_fn (ho_fn h) \<noteq> ReturnFalse) \<longrightarrow> halted ev1 = halted ev)"
  proof (cases "eo_stopped ev")
    case True
    then show ?thesis using r(1) by (auto simp: run_matched_def same_event_def halted_def intro: exI [of _ 0])
  next
    case False
    then have "foldm (run_handler env beh k this cur) hs (st, ev, log) = Some (st1, ev1, log1)" using r(1) by (simp add: run_matched_def)
    from run_handlers_log [OF this] False show ?thesis by (auto simp: halted_def)
  qed
  note ih = Cons.IH [OF r(2)]
  have s: "same_event ev ev'" using ih one same_event_trans by blast
  have h: "halted ev \<Longrightarrow> halted ev1" "halted ev1 \<Longrightarrow> halted ev'" using one ih by (auto simp: same_event_def halted_def)
  have c: "calls_of env ev1 = calls_of env ev" using same_calls one by (intro ext) metis
  obtain n m where n: "log1 = log @ take n (calls_of env ev (cur, hs))" "halted ev1 \<or> length (calls_of env ev (cur, hs)) \<le> n"
    and m: "log' = log1 @ take m (concat (map (calls_of env ev1) q))" "halted ev' \<or> length (concat (map (calls_of env ev1) q)) \<le> m"
    using one ih by blast
  have "\<exists>n. log' = log @ take n (concat (map (calls_of env ev) (x # q))) \<and> (halted ev' \<or> length (concat (map (calls_of env ev) (x # q))) \<le> n)"
  proof (cases "halted ev1")
    case True
    then have "log' = log1" "halted ev'" using ih h by auto
    then show ?thesis using n(1) x
      by (intro exI [of _ "min n (length (calls_of env ev (cur, hs)))"]) (simp add: min_def)
  next
    case False
    then show ?thesis using n m x c by (intro exI [of _ "length (calls_of env ev (cur, hs)) + m"]) auto
  qed
  then show ?case using s ih one h x by auto
qed (auto simp: same_event_def)


section \<open>Unbinding ends, or not\<close>

lemma hover_scan_none: "\<forall>c \<in> set s. \<not> is_space c \<Longrightarrow> hover_scan s = None"
  by (induction s) auto

lemma jq_trim_id: "\<forall>c \<in> set s. \<not> is_space c \<Longrightarrow> jq_trim s = s"
proof -
  assume s: "\<forall>c \<in> set s. \<not> is_space c"
  have "\<forall>c \<in> set xs. \<not> is_space c \<Longrightarrow> dropWhile is_space xs = xs" for xs by (cases xs) auto
  from this [of s] this [of "rev s"] s show ?thesis by (simp add: jq_trim_def)
qed

lemma type_list_plain: "\<forall>c \<in> set s. \<not> is_space c \<Longrightarrow> take 5 s \<noteq> ''hover'' \<Longrightarrow> type_list s = [s]"
  unfolding type_list_def hoverHack_def
  by (simp add: hover_scan_none hover_at_def jq_trim_id split_at_none) (rule split_at_none, auto simp: is_space_def)

lemma key_of_nonempty: "key_of sel (c # t) \<noteq> []"
  by (auto simp: key_of_def delegateType_def bindType_def)

lemma parse_types: "type_list [] = [[]]" "parse_type [] = (Some [], None)"
  by (code_simp, simp add: parse_type_def rtypenamespace_def)

text \<open>Handlers for the empty type are there to stay.\<close>

lemma remove1_other: "k' \<noteq> k \<Longrightarrow> has_type (remove1_type env e k w st) e k' = has_type st e k'"
  by (auto simp: remove1_type_def Let_def has_setup has_without has_type_def [of st] obj_get_set split: option.splits)

lemma remove1_empty [simp]: "has_type (remove1_type env e (key_of sel (c # t)) w st) e [] = has_type st e []"
  by (rule remove1_other) (rule key_of_nonempty [symmetric])

lemma obj_get_in: "obj_get d k = Some v \<Longrightarrow> k \<in> fst ` set d"
  by (auto simp: obj_get_def dest!: map_of_SomeD intro: rev_image_eqI)

lemma tidy_has: "has_type (tidy e st) e k = has_type st e k"
  by (auto simp: tidy_def has_type_def)

lemma remove_keeps_empty:
  "ev_remove env n e types f sel mapped st = Some st' \<Longrightarrow> has_type st e [] \<Longrightarrow> has_type st' e []"
proof (induction n arbitrary: types mapped st st')
  case (Suc n)
  let ?P = "\<lambda>s. has_type s e []"
  let ?body = "\<lambda>ty s. case parse_type ty of
            (Some (c # t), ns) \<Rightarrow>
              Some (remove1_type env e (key_of sel (c # t))
                \<lparr>wt_origType = c # t, wt_mapped = mapped, wt_fn = f, wt_names = map_option (\<lambda>x. name_list (Some x)) ns, wt_selector = sel\<rparr> s)
          | _ \<Rightarrow> foldm (\<lambda>k. ev_remove env n e (k @ ty) f sel True) (map fst (ev_of e s)) s"
  show ?case
  proof (cases "es_events st e = None")
    case False
    obtain s where s: "foldm ?body (type_list types) st = Some s" "st' = tidy e s" using Suc.prems(1) False by auto
    have "?P s"
    proof (rule foldm_inv [where P = ?P, OF s(1) Suc.prems(2)])
      fix ty r r' assume "?body ty r = Some r'" and r: "?P r"
      moreover have "?P r'" if "foldm (\<lambda>k. ev_remove env n e (k @ ty) f sel True) (map fst (ev_of e r)) r = Some r'"
        by (rule foldm_inv [where P = ?P, OF that r]) (use Suc.IH in blast)
      ultimately show "?P r'" by (auto split: prod.splits option.splits list.splits)
    qed
    then show ?thesis using s(2) tidy_has by simp
  qed (use Suc.prems in simp)
qed simp

text \<open>Removing all handlers of an element that has handlers for the empty type calls itself for ever: in the browser the stack overflows.
  Two blanks between types are enough for that.\<close>

theorem unbind_overflows:
  assumes "has_type st e []"
  shows "ev_remove env n e [] f sel mapped st = None"
  using assms
proof (induction n arbitrary: mapped st)
  case (Suc n)
  have "foldm (\<lambda>k. ev_remove env n e k f sel True) ks s = None" if "[] \<in> set ks" "has_type s e []" for ks s
    using that
  proof (induction ks arbitrary: s)
    case (Cons k ks)
    show ?case
    proof (cases "k = []")
      case True
      then show ?thesis using Suc.IH [OF Cons.prems(2)] by simp
    next
      case False
      then show ?thesis using Cons.IH Cons.prems remove_keeps_empty by (cases "ev_remove env n e k f sel True s") auto
    qed
  qed simp
  moreover have "[] \<in> set (map fst (ev_of e st))" "es_events st e \<noteq> None"
    using Suc.prems by (auto simp: has_type_def ev_of_def dest: obj_get_in split: option.splits)
  ultimately show ?case using Suc.prems by (simp add: parse_types)
qed simp

text \<open>Types as they should be: no blanks but one between types, no dot at the end.\<close>

definition good_key :: "string \<Rightarrow> bool" where
  "good_key k \<longleftrightarrow> k \<noteq> [] \<and> (\<forall>c \<in> set k. \<not> is_space c \<and> c \<noteq> CHR ''.'') \<and> take 5 k \<noteq> ''hover''"

definition good_type :: "bool \<Rightarrow> string \<Rightarrow> bool" where
  "good_type named ty \<longleftrightarrow> (\<forall>c \<in> set ty. \<not> is_space c)
     \<and> (case fst (parse_type ty) of None \<Rightarrow> False | Some t \<Rightarrow> named \<and> good_key t \<or> \<not> named \<and> (t = [] \<or> good_key t))"

definition good_op :: "ev_op \<Rightarrow> bool" where
  "good_op x = (case x of
      EvOn els types a b c one \<Rightarrow> list_all (good_type True) (type_list types)
    | EvOff els types a b \<Rightarrow> list_all (good_type False) (type_list types))"

definition good_keys :: "ev_state \<Rightarrow> bool" where
  "good_keys st \<longleftrightarrow> (\<forall>e. \<forall>k \<in> set (map fst (ev_of e st)). good_key k)"

lemma good_key_of: "good_key t \<Longrightarrow> good_key (key_of sel t)"
  by (auto simp: key_of_def delegateType_def bindType_def good_key_def is_space_def split: if_splits)

lemma keys_obj_set: "set (map fst (obj_set k v d)) = insert k (set (map fst d))"
  by (simp add: obj_set_def dom_update)

lemma remove1_good: "good_keys st \<Longrightarrow> good_keys (remove1_type env e k w st)"
proof -
  assume g: "good_keys st"
  show ?thesis
  proof (cases "obj_get (ev_of e st) k")
    case (Some hs)
    then have "k \<in> set (map fst (ev_of e st))" using obj_get_in by auto
    then have "good_key k" using g unfolding good_keys_def by blast
    then show ?thesis using g Some
      by (auto simp: remove1_type_def Let_def good_keys_def keys_obj_set simp del: set_map) (auto simp: good_keys_def)
  qed (simp add: g remove1_type_def)
qed

lemma tidy_good: "good_keys st \<Longrightarrow> good_keys (tidy e st)"
  by (auto simp: tidy_def good_keys_def)

lemma parse_empty: "parse_type ty = (Some [], ns) \<Longrightarrow> ty = [] \<and> ns = None \<or> (\<exists>s. ty = CHR ''.'' # s \<and> ns = Some s \<and> s \<noteq> [] \<and> list_all (\<lambda>c. \<not> line_end c) s)"
  by (cases ty) (auto simp: parse_type_def rtypenamespace_def Let_def split: if_splits list.splits option.splits)

lemma good_key_nodot: "good_key k \<Longrightarrow> takeWhile (\<lambda>c. c \<noteq> CHR ''.'') (k @ ty) = k @ takeWhile (\<lambda>c. c \<noteq> CHR ''.'') ty"
  "good_key k \<Longrightarrow> dropWhile (\<lambda>c. c \<noteq> CHR ''.'') (k @ ty) = dropWhile (\<lambda>c. c \<noteq> CHR ''.'') ty"
  by (auto simp: good_key_def)

lemma parse_append: "good_key k \<Longrightarrow> parse_type ty = (Some [], ns) \<Longrightarrow> parse_type (k @ ty) = (Some k, ns)"
  using parse_empty [of ty ns] by (auto simp: parse_type_def rtypenamespace_def Let_def good_key_nodot list_all_iff split: if_splits)

lemma dot_not_hover: "CHR ''.'' \<notin> set ''hover''"
  by simp

lemma type_list_append:
  assumes "good_key k" "parse_type ty = (Some [], ns)" "\<forall>c \<in> set ty. \<not> is_space c"
  shows "type_list (k @ ty) = [k @ ty]"
proof (rule type_list_plain)
  show "\<forall>c \<in> set (k @ ty). \<not> is_space c" using assms(1,3) by (auto simp: good_key_def)
  have "CHR ''.'' \<in> set (take 5 (k @ CHR ''.'' # s))" if "length k < 5" for s
    using that by (cases "5 - length k") auto
  then have short: "take 5 (k @ CHR ''.'' # s) \<noteq> ''hover''" if "length k < 5" for s
    using that by (metis dot_not_hover)
  have k: "take 5 k \<noteq> ''hover''" using assms(1) by (simp add: good_key_def)
  show "take 5 (k @ ty) \<noteq> ''hover''"
  proof (cases "length k < 5")
    case True
    then show ?thesis using short k parse_empty [OF assms(2)] by auto
  next
    case False
    then show ?thesis using k by simp
  qed
qed

lemma inner_remove:
  assumes "good_keys st" "good_key k" "parse_type ty = (Some [], ns)" "\<forall>c \<in> set ty. \<not> is_space c"
  shows "\<exists>st'. ev_remove env (Suc 0) e (k @ ty) f sel True st = Some st' \<and> good_keys st'"
proof (cases "es_events st e = None")
  case False
  obtain c t where k: "k = c # t" using assms(2) by (cases k) (auto simp: good_key_def)
  show ?thesis
    using False type_list_append [OF assms(2-4)] parse_append [OF assms(2,3)] k assms(1) tidy_good remove1_good by simp
qed (use assms(1) in simp)

lemma foldm_ends:
  assumes "P s" "\<And>x s. x \<in> set xs \<Longrightarrow> P s \<Longrightarrow> \<exists>s'. f x s = Some s' \<and> P s'"
  shows "\<exists>s'. foldm f xs s = Some s' \<and> P s'"
  using assms
proof (induction xs arbitrary: s)
  case (Cons x xs)
  obtain s1 where "f x s = Some s1" "P s1" using Cons.prems(2) [of x s] Cons.prems(1) by auto
  then show ?case using Cons.IH [of s1] Cons.prems(2) by auto
qed simp

lemma remove_ends:
  assumes "good_keys st" "list_all (good_type False) (type_list types)"
  shows "\<exists>st'. ev_remove env (Suc (Suc 0)) e types f sel False st = Some st' \<and> good_keys st'"
proof (cases "es_events st e = None")
  case False
  let ?body = "\<lambda>ty s. case parse_type ty of
            (Some (c # t), ns) \<Rightarrow>
              Some (remove1_type env e (key_of sel (c # t))
                \<lparr>wt_origType = c # t, wt_mapped = False, wt_fn = f, wt_names = map_option (\<lambda>x. name_list (Some x)) ns, wt_selector = sel\<rparr> s)
          | _ \<Rightarrow> foldm (\<lambda>k. ev_remove env (Suc 0) e (k @ ty) f sel True) (map fst (ev_of e s)) s"
  have "\<exists>s'. foldm ?body (type_list types) st = Some s' \<and> good_keys s'"
  proof (rule foldm_ends [where P = good_keys, OF assms(1)])
    fix ty s assume "ty \<in> set (type_list types)" and s: "good_keys s"
    then have g: "good_type False ty" using assms(2) by (simp add: list_all_iff)
    then obtain t ns where p: "parse_type ty = (Some t, ns)" by (cases "parse_type ty") (auto simp: good_type_def split: option.splits)
    have "\<exists>s'. foldm (\<lambda>k. ev_remove env (Suc 0) e (k @ ty) f sel True) (map fst (ev_of e s)) s = Some s' \<and> good_keys s'" if "t = []"
    proof (rule foldm_ends [where P = good_keys, OF s])
      fix k r assume "k \<in> set (map fst (ev_of e s))" "good_keys r"
      moreover from this have "good_key k" using s unfolding good_keys_def by blast
      ultimately show "\<exists>s'. ev_remove env (Suc 0) e (k @ ty) f sel True r = Some s' \<and> good_keys s'"
        using inner_remove p that g by (simp add: good_type_def)
    qed
    then show "\<exists>s'. ?body ty s = Some s' \<and> good_keys s'" using p remove1_good [OF s] by (cases t) (simp_all del: ev_remove.simps)
  qed
  then show ?thesis using False tidy_good by (subst ev_remove.simps) (auto simp del: ev_remove.simps)
qed (use assms in simp)

lemma add_good:
  assumes "good_keys st" "list_all (good_type True) (type_list types)"
  shows "good_keys (ev_add env e types f d sel st)"
proof -
  have one: "good_keys (add_type env e f d sel ty s)" if g: "good_keys s" "good_type True ty" for ty s
  proof -
    obtain t ns where p: "parse_type ty = (Some t, ns)" "good_key t"
      using g(2) by (cases "parse_type ty") (auto simp: good_type_def split: option.splits)
    have "ev_of e' (x\<lparr>es_global := g\<rparr>) = ev_of e' x" for e' x g by (simp add: ev_of_def)
    then show ?thesis using g(1) good_key_of [OF p(2), of sel] p(1)
      by (auto simp: add_type_def Let_def good_keys_def keys_obj_set simp del: set_map split: if_splits)
  qed
  have "list_all (good_type True) tys \<Longrightarrow> good_keys s \<Longrightarrow> good_keys (fold (add_type env e f d sel) tys s)" for tys s
    by (induction tys arbitrary: s) (simp_all add: one)
  moreover have "good_keys (set_events e (Some (ev_of e (with_guid f st))) (with_guid f st))"
    using assms(1) by (auto simp: good_keys_def)
  ultimately show ?thesis using assms by (simp add: ev_add_def Let_def)
qed

text \<open>C26: As long as types are written as they should be, every call of \<open>on\<close>, \<open>one\<close> and \<open>off\<close> ends, with calls of
  \<open>remove\<close> nested only once.\<close>

theorem unbinding_ends:
  assumes "list_all good_op ops"
  shows "foldm (do_op env 2) ops no_events \<noteq> None"
proof -
  have "\<exists>st'. do_op env 2 x st = Some st' \<and> good_keys st'" if "good_op x" "good_keys st" for x st
  proof (cases x)
    case (EvOn els types a b c one)
    have t: "list_all (good_type True) (type_list types)" using that(1) EvOn by (simp add: good_op_def)
    have "good_keys s \<Longrightarrow> good_keys (fold (\<lambda>e. ev_add env e types f d s0) es s)" for f d s0 s es
      by (induction es arbitrary: s) (simp_all add: add_good [OF _ t])
    moreover have "good_keys (with_guid f st)" for f using that(2) by (simp add: good_keys_def)
    ultimately show ?thesis using that(2) EvOn by (auto simp: do_op_def ev_on_def split: option.split)
  next
    case (EvOff els types a b)
    have "\<exists>st'. foldm (\<lambda>e. ev_remove env 2 e types fn s False) els st = Some st' \<and> good_keys st'" for fn s
      by (rule foldm_ends [where P = good_keys, OF that(2)]) (use remove_ends that(1) EvOff in \<open>simp add: good_op_def numeral_2_eq_2 del: ev_remove.simps\<close>)
    then show ?thesis using EvOff by (auto simp: do_op_def ev_off_def split: ev_arg.split)
  qed
  then have "\<exists>st'. foldm (do_op env 2) ops no_events = Some st' \<and> good_keys st'"
    using assms by (intro foldm_ends [where P = good_keys]) (auto simp: list_all_iff good_keys_def no_events_def ev_of_def)
  then show ?thesis by auto
qed

section \<open>Examples\<close>

text \<open>A page with the window 9, the document 8, the body 2 in it, 1 in the body and 0 in 1.\<close>

definition demo_env :: page_env where
  "demo_env = \<lparr>pe_accepts = (\<lambda>_. True), pe_ancestors = (\<lambda>e. if e = 0 then [1, 2, 8] else if e = 1 then [2, 8] else if e = 2 then [8] else []),
     pe_document = 8, pe_window = 9, pe_select = (\<lambda>s ctx e. s = ''p'' \<and> e < 2), pe_disabled = (\<lambda>_. False), pe_inline = (\<lambda>_ _. None),
     pe_method = (\<lambda>_ _. False), pe_link = (\<lambda>_. False), pe_visible = (\<lambda>_. True), pe_focusin = False\<rparr>"

definition calm_fn :: behaviour where
  "calm_fn c = \<lparr>ef_ops = [], ef_prevent = False, ef_stop = False, ef_immediate = False, ef_ret = None\<rparr>"

definition binds :: "nat \<Rightarrow> string \<Rightarrow> nat \<Rightarrow> ev_op" where
  "binds e types f = EvOn [e] types (AFn (User f)) AUndefined AUndefined False"

definition delegates :: "nat \<Rightarrow> string \<Rightarrow> string \<Rightarrow> nat \<Rightarrow> ev_op" where
  "delegates e types sel f = EvOn [e] types (AString sel) (AFn (User f)) AUndefined False"

definition unbinds :: "nat \<Rightarrow> string \<Rightarrow> ev_op" where
  "unbinds e types = EvOff [e] types AUndefined AUndefined"

definition fns_of :: "nat \<Rightarrow> string \<Rightarrow> ev_state \<Rightarrow> ev_fn list" where
  "fns_of e k st = (case obj_get (ev_of e st) k of None \<Rightarrow> [] | Some (hs, _) \<Rightarrow> map ho_fn hs)"

definition after_ops :: "ev_op list \<Rightarrow> ev_state" where
  "after_ops ops = the (foldm (do_op demo_env 2) ops no_events)"

definition called :: "ev_op list \<Rightarrow> behaviour \<Rightarrow> string \<Rightarrow> nat \<Rightarrow> (nat \<times> ev_fn) list" where
  "called ops beh types e =
     (case ev_trigger demo_env beh 2 types e False (after_ops ops) of
        None \<Rightarrow> [] | Some ((st, ev, log), b) \<Rightarrow> map (\<lambda>(cur, f, _). (cur, f)) log)"

lemma events_consistent_witness:
  "foldm (do_op demo_env 2) [binds 0 ''click.a keyup'' 3, delegates 0 ''click'' ''p'' 4, unbinds 0 ''keyup''] no_events \<noteq> None
   \<and> map (\<lambda>(e, k). has_type (after_ops [binds 0 ''click.a keyup'' 3, delegates 0 ''click'' ''p'' 4, unbinds 0 ''keyup'']) e k) [(0, ''click''), (0, ''keyup'')] = [True, False]
   \<and> (0, ''click'') \<in> set (es_listeners (after_ops [binds 0 ''click.a keyup'' 3, delegates 0 ''click'' ''p'' 4, unbinds 0 ''keyup'']))"
proof -
  let ?ops = "[binds 0 ''click.a keyup'' 3, delegates 0 ''click'' ''p'' 4, unbinds 0 ''keyup'']"
  have s: "foldm (do_op demo_env 2) ?ops no_events \<noteq> None" by code_simp
  then have "foldm (do_op demo_env 2) ?ops no_events = Some (after_ops ?ops)" by (auto simp: after_ops_def)
  note c = events_consistent [OF this]
  have h: "map (\<lambda>(e, k). has_type (after_ops ?ops) e k) [(0, ''click''), (0, ''keyup'')] = [True, False]" by code_simp
  have "\<not> captured demo_env ''click'' \<and> ''click'' \<noteq> ''beforeunload''" by code_simp
  then have "(0, ''click'') \<in> set (es_listeners (after_ops ?ops))" using h c [THEN conjunct2, THEN conjunct1] by auto
  then show ?thesis using s h by blast
qed

lemma unbinding_ends_witness: "foldm (do_op demo_env 2) [binds 0 ''click.a keyup'' 3, unbinds 0 ''.a'', unbinds 0 []] no_events \<noteq> None"
proof -
  have "list_all good_op [binds 0 ''click.a keyup'' 3, unbinds 0 ''.a'', unbinds 0 []]" by code_simp
  from unbinding_ends [OF this] show ?thesis .
qed

definition click_on :: "nat \<Rightarrow> event_obj" where
  "click_on e = \<lparr>eo_type = ''click'', eo_target = e, eo_names = [], eo_exclusive = False, eo_button = 0, eo_related = None,
     eo_prevented = False, eo_stopped = False, eo_immediate = False, eo_result = None\<rparr>"

text \<open>Two functions delegated from the body and one bound to it; the first unbinds everything: all are called.\<close>

definition unbinder :: behaviour where
  "unbinder c = (calm_fn c)\<lparr>ef_ops := [unbinds 2 []]\<rparr>"

definition demo_ops :: "ev_op list" where
  "demo_ops = [binds 2 ''click'' 7, delegates 2 ''click'' ''p'' 5]"


text \<open>Two blanks between types bind the function to the empty type, and then unbinding everything overflows the stack.\<close>

lemma two_blanks_overflow: "ev_off demo_env n [0] [] AUndefined AUndefined (after_ops [binds 0 ''click  keyup'' 3]) = None"
proof -
  have "has_type (after_ops [binds 0 ''click  keyup'' 3]) 0 []" by code_simp
  from unbind_overflows [OF this] show ?thesis by (simp add: ev_off_def fn_arg_def sel_arg_def)
qed

text \<open>A blank before \<open>hover\<close> is lost with it.\<close>

lemma hover_eats_blank: "type_list ''click hover'' = [''clickmouseenter'', ''mouseleave'']"
  by code_simp

text \<open>\<open>one\<close> unbinds by the number of the function, and so takes what was bound with \<open>on\<close> with it.\<close>

lemma one_unbinds_on:
  "let ops = [binds 0 ''click'' 3, EvOn [0] ''click'' (AFn (User 3)) AUndefined AUndefined True]
   in called ops calm_fn ''click'' 0 = [(0, User 3), (0, User 3)]
      \<and> map_option (\<lambda>((st, _), _). fns_of 0 ''click'' st) (ev_trigger demo_env calm_fn 2 ''click'' 0 False (after_ops ops)) = Some []"
  by code_simp

text \<open>\<open>off('click')\<close> unbinds delegated handlers as well, \<open>off('focus')\<close> does not: they are kept under \<open>focusin\<close>.\<close>

lemma focus_delegates_stay:
  "fns_of 2 ''click'' (after_ops [delegates 2 ''click'' ''p'' 3, unbinds 2 ''click'']) = []"
  "fns_of 2 ''focusin'' (after_ops [delegates 2 ''focus'' ''p'' 3, unbinds 2 ''focus'']) = [User 3]"
  by code_simp+

text \<open>Bubbling: the target, its ancestors, the window; delegated functions before bound ones.\<close>

lemma bubbling:
  "called [binds 9 ''click'' 1, binds 1 ''click'' 2, binds 0 ''click'' 3, binds 2 ''click'' 4, delegates 2 ''click'' ''p'' 5] calm_fn ''click'' 0
   = [(0, User 3), (1, User 2), (0, User 5), (1, User 5), (2, User 4), (9, User 1)]"
  by code_simp

text \<open>A trigger with namespaces reaches the handlers that have them all, an exclusive one those that have none.\<close>

lemma namespaces:
  "called [binds 0 ''click.a.b'' 1, binds 0 ''click.b'' 2, binds 0 ''click'' 3] calm_fn ''click.b.a'' 0 = [(0, User 1)]"
  "called [binds 0 ''click.a.b'' 1, binds 0 ''click.b'' 2, binds 0 ''click'' 3] calm_fn ''click!'' 0 = [(0, User 3)]"
  by code_simp+

end
