(* ===== verification/JqRequest.thy ===== *)
theory JqRequest
  imports JqClass
begin

text \<open>
  The life of a request in \<open>jquery.js\<close>: \<open>jQuery.ajax\<close> with its \<open>jqXHR\<close> object and the function \<open>done\<close>.
  All requests of the page share the counter \<open>active\<close> and the tables of the validators. Prefilters, \<open>beforeSend\<close> and
  the listeners of \<open>ajaxSend\<close> are lists of calls of the \<open>jqXHR\<close>; a transport is what its \<open>send\<close> does at once,
  later answers are events of the page, in any order. Whether an answer can be converted is an argument (\<open>JqAjax\<close>). URLs have
  no line ends.
\<close>

section \<open>The address\<close>

definition drop_hash :: "string \<Rightarrow> string" where
  "drop_hash s = takeWhile (\<lambda>c. c \<noteq> CHR ''#'') s"

text \<open>\<open>rurl\<close>: the protocol with its colon, the host and the port.\<close>

definition url_char :: "char \<Rightarrow> bool" where
  "url_char c \<longleftrightarrow> is_word_char c \<or> c = CHR ''+'' \<or> c = CHR ''.'' \<or> c = CHR ''-''"

definition is_digit_char :: "char \<Rightarrow> bool" where
  "is_digit_char c \<longleftrightarrow> (let n = of_char c :: nat in 48 \<le> n \<and> n \<le> 57)"

type_synonym url_parts = "string \<times> string option \<times> string option"

definition rurl :: "string \<Rightarrow> url_parts option" where
  "rurl s =
     (let p = takeWhile url_char s in
      case drop (length p) s of
        [] \<Rightarrow> None
      | c # rest \<Rightarrow>
          if p = [] \<or> c \<noteq> CHR '':'' then None
          else if take 2 rest \<noteq> ''//'' then Some (p @ [c], None, None)
          else
            let t = drop 2 rest;
                host = takeWhile (\<lambda>c. c \<notin> set ''/?#:'') t;
                after = drop (length host) t;
                port = (case after of [] \<Rightarrow> [] | d # u \<Rightarrow> if d = CHR '':'' then takeWhile is_digit_char u else [])
            in Some (p @ [c], Some host, if port = [] then None else Some port))"

text \<open>A port that is not given is the number for the protocol; \<open>!=\<close> compares a string with a number as numbers.\<close>

definition default_port :: "string \<Rightarrow> nat" where
  "default_port protocol = (if protocol = ''http:'' then 80 else 443)"

definition port_number :: "string \<Rightarrow> nat" where
  "port_number s = fold (\<lambda>c n. 10 * n + (of_char c - 48)) s 0"

definition same_port :: "string \<times> string option \<Rightarrow> string \<times> string option \<Rightarrow> bool" where
  "same_port a b =
     (case (snd a, snd b) of
        (Some x, Some y) \<Rightarrow> x = y
      | (Some x, None) \<Rightarrow> port_number x = default_port (fst b)
      | (None, Some y) \<Rightarrow> default_port (fst a) = port_number y
      | (None, None) \<Rightarrow> default_port (fst a) = default_port (fst b))"

definition cross_domain :: "url_parts \<Rightarrow> string \<Rightarrow> bool" where
  "cross_domain loc url =
     (case rurl (map to_lower url) of
        None \<Rightarrow> False
      | Some (p, h, port) \<Rightarrow> p \<noteq> fst loc \<or> h \<noteq> fst (snd loc) \<or> \<not> same_port (p, port) (fst loc, snd (snd loc)))"

definition full_url :: "url_parts \<Rightarrow> string \<Rightarrow> string" where
  "full_url loc url = (let s = drop_hash url in if take 2 s = ''//'' then fst loc @ s else s)"

text \<open>\<open>url += (rquery.test(url) ? "&" : "?") + x\<close>\<close>

definition append_query :: "string \<Rightarrow> string \<Rightarrow> string" where
  "append_query url x = url @ (if CHR ''?'' \<in> set url then ''&'' else ''?'') @ x"

text \<open>\<open>replace(/([?&])_=[^&]*/, "$1_=" + ts)\<close>: the first one.\<close>

fun rts_replace :: "string \<Rightarrow> string \<Rightarrow> string" where
  "rts_replace ts [] = []"
| "rts_replace ts (c # s) =
     (if (c = CHR ''?'' \<or> c = CHR ''&'') \<and> take 2 s = ''_=''
      then c # ''_='' @ ts @ dropWhile (\<lambda>d. d \<noteq> CHR ''&'') (drop 2 s)
      else c # rts_replace ts s)"

definition anti_cache :: "string \<Rightarrow> string \<Rightarrow> string" where
  "anti_cache ts url = (let ret = rts_replace ts url in if ret = url then append_query ret (''_='' @ ts) else ret)"

section \<open>Requests\<close>

text \<open>A call of the \<open>jqXHR\<close> object.\<close>

datatype xhr_call = XAbort "string option" | XHeader string string | XMime string

text \<open>An answer: status, text, headers, and whether the response can be converted (or the state and the error, or that the converter
  throws, with the option \<open>throws\<close>).\<close>

datatype conversion = Converts | ConvertError string string | ConvertThrows

record xhr_answer =
  an_status :: int
  an_text :: string
  an_headers :: "(string \<times> string) list"
  an_convert :: conversion

record ajax_opts =
  ao_url :: string
  ao_type :: string
  ao_data :: string
  ao_contentType :: "string option"
  ao_ownContentType :: bool
  ao_noCache :: bool
  ao_now :: string
  ao_ifModified :: bool
  ao_dataTypes :: "string list"
  ao_accepts :: "(string \<times> string) list"
  ao_headers :: "(string \<times> string) list"
  ao_global :: bool
  ao_timeout :: int
  ao_async :: bool
  ao_prefilter :: "xhr_call list"
  ao_beforeSend :: "(xhr_call list \<times> bool) option"
  ao_onSend :: "xhr_call list"
  ao_transport :: "(xhr_answer list \<times> string option) option"

text \<open>What is observed of a request: the functions for success, error and completion, and those for the status.\<close>

datatype xhr_note = NSuccess string | NError string string | NStatus int | NComplete string

datatype global_event = GStart | GSend nat | GSuccess nat | GError nat | GComplete nat | GStop

record xhr =
  xr_state :: nat
  xr_readyState :: nat
  xr_strAbort :: string
  xr_transport :: bool
  xr_timer :: bool
  xr_global :: bool
  xr_ifModified :: bool
  xr_key :: string
  xr_headers :: "(string \<times> string) list"
  xr_names :: "(string \<times> string) list"
  xr_mime :: "string option"
  xr_answered :: "(string \<times> string) list"
  xr_status :: int
  xr_statusText :: string
  xr_settled :: "bool option"
  xr_completed :: bool
  xr_statusCode :: bool
  xr_installed :: bool
  xr_url :: string
  xr_notes :: "xhr_note list"

record ajax_page =
  pg_requests :: "xhr list"
  pg_active :: int
  pg_lastModified :: "(string \<times> string) list"
  pg_etag :: "(string \<times> string) list"
  pg_location :: url_parts
  pg_events :: "global_event list"

definition rq :: "nat \<Rightarrow> ajax_page \<Rightarrow> xhr" where
  "rq r p = pg_requests p ! r"

definition upd_rq :: "(xhr \<Rightarrow> xhr) \<Rightarrow> nat \<Rightarrow> ajax_page \<Rightarrow> ajax_page" where
  "upd_rq f r p = p\<lparr>pg_requests := (pg_requests p)[r := f (pg_requests p ! r)]\<rparr>"

definition emit :: "global_event \<Rightarrow> ajax_page \<Rightarrow> ajax_page" where
  "emit g p = p\<lparr>pg_events := pg_events p @ [g]\<rparr>"

section \<open>The methods of \<open>jqXHR\<close>\<close>

text \<open>A header keeps the spelling of its name that was used first.\<close>

definition setRequestHeader :: "string \<Rightarrow> string \<Rightarrow> xhr \<Rightarrow> xhr" where
  "setRequestHeader name value x =
     (if xr_state x \<noteq> 0 then x
      else
        let lname = map to_lower name;
            n = (case obj_get (xr_names x) lname of Some m \<Rightarrow> if m = [] then name else m | None \<Rightarrow> name)
        in x\<lparr>xr_names := obj_set lname n (xr_names x), xr_headers := obj_set n value (xr_headers x)\<rparr>)"

definition overrideMimeType :: "string \<Rightarrow> xhr \<Rightarrow> xhr" where
  "overrideMimeType type x = (if xr_state x \<noteq> 0 then x else x\<lparr>xr_mime := Some type\<rparr>)"

definition getResponseHeader :: "string \<Rightarrow> xhr \<Rightarrow> string option" where
  "getResponseHeader key x =
     (if xr_state x = 2 then obj_get (fold (\<lambda>(k, v) d. obj_set (map to_lower k) v d) (xr_answered x) []) (map to_lower key) else None)"

text \<open>The functions bound to the deferred and to \<open>complete\<close> are called once; before they are bound nothing is seen.\<close>

definition settle :: "bool \<Rightarrow> xhr_note \<Rightarrow> xhr \<Rightarrow> xhr" where
  "settle ok n x =
     (if xr_settled x = None
      then x\<lparr>xr_settled := Some ok, xr_notes := xr_notes x @ (if xr_installed x then [n] else [])\<rparr> else x)"

definition complete_xhr :: "string \<Rightarrow> xhr \<Rightarrow> xhr" where
  "complete_xhr txt x =
     (if xr_completed x then x
      else x\<lparr>xr_completed := True, xr_notes := xr_notes x @ (if xr_installed x then [NComplete txt] else [])\<rparr>)"

text \<open>\<open>jqXHR.statusCode(statusCode); statusCode = undefined\<close>\<close>

definition status_fns :: "xhr \<Rightarrow> xhr" where
  "status_fns x = (if xr_statusCode x then x\<lparr>xr_statusCode := False, xr_notes := xr_notes x @ [NStatus (xr_status x)]\<rparr> else x)"

definition remember :: "nat \<Rightarrow> ajax_page \<Rightarrow> ajax_page" where
  "remember r p =
     (let x = rq r p;
          p1 = (case getResponseHeader ''Last-Modified'' x of
                  None \<Rightarrow> p | Some v \<Rightarrow> if v = [] then p else p\<lparr>pg_lastModified := obj_set (xr_key x) v (pg_lastModified p)\<rparr>)
      in case getResponseHeader ''Etag'' x of
           None \<Rightarrow> p1 | Some v \<Rightarrow> if v = [] then p1 else p1\<lparr>pg_etag := obj_set (xr_key x) v (pg_etag p1)\<rparr>)"

text \<open>The outcome: success, its text, the error and the status; nothing if the converter throws.\<close>

definition outcome :: "xhr_answer \<Rightarrow> (bool \<times> string \<times> string \<times> int) option" where
  "outcome a =
     (if 200 \<le> an_status a \<and> an_status a < 300 \<or> an_status a = 304
      then if an_status a = 304 then Some (True, ''notmodified'', [], 304)
           else (case an_convert a of
                   Converts \<Rightarrow> Some (True, ''success'', [], an_status a)
                 | ConvertError st e \<Rightarrow> Some (e = [], st, e, an_status a)
                 | ConvertThrows \<Rightarrow> None)
      else if an_text a = [] \<or> an_status a \<noteq> 0 then Some (False, ''error'', an_text a, max 0 (an_status a))
      else Some (False, an_text a, an_text a, 0))"

text \<open>\<open>done\<close>, the state first: the transport and the timer are gone, the answer's headers and validators kept.\<close>

definition closed_xhr :: "xhr_answer \<Rightarrow> xhr \<Rightarrow> xhr" where
  "closed_xhr a x = x\<lparr>xr_state := 2, xr_timer := False, xr_transport := False, xr_answered := an_headers a,
     xr_readyState := if an_status a > 0 then 4 else 0\<rparr>"

definition done_state :: "nat \<Rightarrow> xhr_answer \<Rightarrow> ajax_page \<Rightarrow> ajax_page" where
  "done_state r a p =
     (let p1 = upd_rq (closed_xhr a) r p;
          good = (200 \<le> an_status a \<and> an_status a < 300 \<or> an_status a = 304)
      in if good \<and> xr_ifModified (rq r p1) then remember r p1 else p1)"

text \<open>The functions that are called for an outcome, in this order, between the events of the page.\<close>

definition told_xhr :: "string \<Rightarrow> bool \<times> string \<times> string \<times> int \<Rightarrow> xhr \<Rightarrow> xhr" where
  "told_xhr native out x =
     (case out of (ok, txt, err, status) \<Rightarrow>
        status_fns (settle ok (if ok then NSuccess txt else NError txt err)
          (x\<lparr>xr_status := status, xr_statusText := if native = [] then txt else native\<rparr>)))"

definition done_tell :: "nat \<Rightarrow> string \<Rightarrow> bool \<times> string \<times> string \<times> int \<Rightarrow> ajax_page \<Rightarrow> ajax_page" where
  "done_tell r native out p =
     (let p1 = upd_rq (told_xhr native out) r p;
          p2 = (if xr_global (rq r p1) then emit (if fst out then GSuccess r else GError r) p1 else p1)
      in upd_rq (complete_xhr (fst (snd out))) r p2)"

definition done_last :: "nat \<Rightarrow> ajax_page \<Rightarrow> ajax_page" where
  "done_last r p =
     (if xr_global (rq r p)
      then let q = (emit (GComplete r) p)\<lparr>pg_active := pg_active p - 1\<rparr> in if pg_active q = 0 then emit GStop q else q
      else p)"

text \<open>\<open>done\<close>: the new page, and whether an exception leaves it.\<close>

definition xhr_done :: "nat \<Rightarrow> xhr_answer \<Rightarrow> ajax_page \<Rightarrow> ajax_page \<times> bool" where
  "xhr_done r a p =
     (if xr_state (rq r p) = 2 then (p, False)
      else case outcome a of
        None \<Rightarrow> (done_state r a p, True)
      | Some out \<Rightarrow> (done_last r (done_tell r (an_text a) out (done_state r a p)), False))"

definition no_answer :: "int \<Rightarrow> string \<Rightarrow> xhr_answer" where
  "no_answer status txt = \<lparr>an_status = status, an_text = txt, an_headers = [], an_convert = Converts\<rparr>"

text \<open>\<open>abort\<close>; the transport does not call back.\<close>

definition xhr_abort :: "nat \<Rightarrow> string option \<Rightarrow> ajax_page \<Rightarrow> ajax_page" where
  "xhr_abort r statusText p =
     (let txt = (case statusText of Some t \<Rightarrow> if t = [] then xr_strAbort (rq r p) else t | None \<Rightarrow> xr_strAbort (rq r p))
      in fst (xhr_done r (no_answer 0 txt) p))"

definition xhr_do :: "nat \<Rightarrow> xhr_call \<Rightarrow> ajax_page \<Rightarrow> ajax_page" where
  "xhr_do r c p =
     (case c of
        XAbort t \<Rightarrow> xhr_abort r t p
      | XHeader n v \<Rightarrow> upd_rq (setRequestHeader n v) r p
      | XMime t \<Rightarrow> upd_rq (overrideMimeType t) r p)"

section \<open>\<open>jQuery.ajax\<close>\<close>

definition new_xhr :: "ajax_opts \<Rightarrow> ajax_page \<Rightarrow> xhr" where
  "new_xhr o1 p =
     \<lparr>xr_state = 0, xr_readyState = 0, xr_strAbort = ''canceled'', xr_transport = False, xr_timer = False, xr_global = False,
      xr_ifModified = ao_ifModified o1, xr_key = [], xr_headers = [], xr_names = [], xr_mime = None, xr_answered = [], xr_status = 0,
      xr_statusText = [], xr_settled = None, xr_completed = False, xr_statusCode = True, xr_installed = False,
      xr_url = full_url (pg_location p) (ao_url o1), xr_notes = []\<rparr>"

definition no_content :: "ajax_opts \<Rightarrow> bool" where
  "no_content o1 \<longleftrightarrow> map to_upper (ao_type o1) = ''GET'' \<or> map to_upper (ao_type o1) = ''HEAD''"

text \<open>The address of a request without content, before and after the parameter against caches.\<close>

definition data_url :: "ajax_opts \<Rightarrow> string \<Rightarrow> string" where
  "data_url o1 url = (if no_content o1 \<and> ao_data o1 \<noteq> [] then append_query url (ao_data o1) else url)"

definition final_url :: "ajax_opts \<Rightarrow> string \<Rightarrow> string" where
  "final_url o1 url = (if no_content o1 \<and> ao_noCache o1 then anti_cache (ao_now o1) (data_url o1 url) else data_url o1 url)"

definition accept_header :: "ajax_opts \<Rightarrow> string" where
  "accept_header o1 =
     (let any = (case obj_get (ao_accepts o1) ''*'' of None \<Rightarrow> ''undefined'' | Some v \<Rightarrow> v)
      in case ao_dataTypes o1 of
           t # _ \<Rightarrow> (if t \<noteq> [] \<and> obj_get (ao_accepts o1) t \<noteq> None \<and> obj_get (ao_accepts o1) t \<noteq> Some []
                     then the (obj_get (ao_accepts o1) t) @ (if t \<noteq> ''*'' then '', */*; q=0.01'' else []) else any)
         | [] \<Rightarrow> any)"

definition send_headers :: "ajax_opts \<Rightarrow> ajax_page \<Rightarrow> xhr \<Rightarrow> xhr" where
  "send_headers o1 p x =
     (let x1 = (if ao_data o1 \<noteq> [] \<and> \<not> no_content o1 \<and> ao_contentType o1 \<noteq> None \<or> ao_ownContentType o1
                then setRequestHeader ''Content-Type'' (case ao_contentType o1 of None \<Rightarrow> ''false'' | Some c \<Rightarrow> c) x else x);
          old = (\<lambda>t n y. case obj_get t (xr_key x) of None \<Rightarrow> y | Some v \<Rightarrow> if v = [] then y else setRequestHeader n v y);
          x2 = (if ao_ifModified o1 then old (pg_etag p) ''If-None-Match'' (old (pg_lastModified p) ''If-Modified-Since'' x1) else x1)
      in fold (\<lambda>(n, v). setRequestHeader n v) (ao_headers o1) (setRequestHeader ''Accept'' (accept_header o1) x2))"

text \<open>\<open>transport.send\<close> in its \<open>try\<close>: a transport given up meanwhile raises, as its own \<open>send\<close> may.\<close>

fun send_answers :: "nat \<Rightarrow> xhr_answer list \<Rightarrow> string option \<Rightarrow> ajax_page \<Rightarrow> ajax_page \<times> string option" where
  "send_answers r [] raises p = (p, raises)"
| "send_answers r (a # as) raises p =
     (case xhr_done r a p of (q, threw) \<Rightarrow> if threw then (q, Some ''converter'') else send_answers r as raises q)"

definition xhr_send :: "nat \<Rightarrow> xhr_answer list \<times> string option \<Rightarrow> ajax_page \<Rightarrow> ajax_page \<times> bool" where
  "xhr_send r t p =
     (let p1 = upd_rq (\<lambda>x. x\<lparr>xr_state := 1\<rparr>) r p in
      case (if xr_transport (rq r p) then send_answers r (fst t) (snd t) p1 else (p1, Some ''TypeError'')) of
        (q, None) \<Rightarrow> (q, False)
      | (q, Some e) \<Rightarrow> if xr_state (rq r q) < 2 then xhr_done r (no_answer (-1) e) q else (q, True))"

text \<open>From the transport on.\<close>

definition ajax_send :: "ajax_opts \<Rightarrow> nat \<Rightarrow> ajax_page \<Rightarrow> ajax_page \<times> bool" where
  "ajax_send o1 r p =
     (let p1 = upd_rq (\<lambda>x. x\<lparr>xr_strAbort := ''abort'', xr_installed := True\<rparr>) r p in
      case ao_transport o1 of
        None \<Rightarrow> xhr_done r (no_answer (-1) ''No Transport'') p1
      | Some t \<Rightarrow>
          let p2 = upd_rq (\<lambda>x. x\<lparr>xr_transport := True, xr_readyState := 1\<rparr>) r p1;
              p3 = (if xr_global (rq r p2) then fold (xhr_do r) (ao_onSend o1) (emit (GSend r) p2) else p2);
              p4 = upd_rq (\<lambda>x. x\<lparr>xr_timer := ao_async o1 \<and> ao_timeout o1 > 0\<rparr>) r p3
          in xhr_send r t p4)"

text \<open>From the global events on.\<close>

definition ajax_prepare :: "ajax_opts \<Rightarrow> nat \<Rightarrow> ajax_page \<Rightarrow> ajax_page" where
  "ajax_prepare o1 r p =
     (let p1 = upd_rq (\<lambda>x. x\<lparr>xr_global := ao_global o1\<rparr>) r p;
          p2 = (if ao_global o1
                then (let q = p1\<lparr>pg_active := pg_active p1 + 1\<rparr> in if pg_active p1 = 0 then emit GStart q else q) else p1);
          url = xr_url (rq r p2);
          p3 = upd_rq (\<lambda>x. x\<lparr>xr_key := data_url o1 url, xr_url := final_url o1 url\<rparr>) r p2
      in upd_rq (send_headers o1 p3) r p3)"

text \<open>The page, and whether the call raises.\<close>

definition jq_ajax :: "ajax_opts \<Rightarrow> ajax_page \<Rightarrow> ajax_page \<times> bool" where
  "jq_ajax o1 p =
     (let r = length (pg_requests p);
          p1 = fold (xhr_do r) (ao_prefilter o1) (p\<lparr>pg_requests := pg_requests p @ [new_xhr o1 p]\<rparr>)
      in if xr_state (rq r p1) = 2 then (p1, False)
         else
           let p2 = ajax_prepare o1 r p1 in
           case ao_beforeSend o1 of
             None \<Rightarrow> ajax_send o1 r p2
           | Some (cs, stops) \<Rightarrow>
               let p3 = fold (xhr_do r) cs p2
               in if stops \<or> xr_state (rq r p3) = 2 then (xhr_abort r None p3, False) else ajax_send o1 r p3)"

text \<open>What happens on the page: a request, a call of a \<open>jqXHR\<close>, an answer, a timeout.\<close>

datatype ajax_event = Ajax ajax_opts | CallXhr nat xhr_call | Answer nat xhr_answer | Timeout nat

definition ajax_step :: "ajax_event \<Rightarrow> ajax_page \<Rightarrow> ajax_page" where
  "ajax_step e p =
     (case e of
        Ajax o1 \<Rightarrow> fst (jq_ajax o1 p)
      | CallXhr r c \<Rightarrow> if r < length (pg_requests p) then xhr_do r c p else p
      | Answer r a \<Rightarrow> if r < length (pg_requests p) \<and> xr_state (rq r p) \<noteq> 0 then fst (xhr_done r a p) else p
      | Timeout r \<Rightarrow> if r < length (pg_requests p) \<and> xr_timer (rq r p) then xhr_abort r (Some ''timeout'') p else p)"

section \<open>One outcome for each request\<close>

text \<open>Requests that are under way, and those that are done; \<open>xr_installed\<close>: not given up before they were sent.\<close>

definition fresh_xhr :: "xhr \<Rightarrow> bool" where
  "fresh_xhr x \<longleftrightarrow> xr_state x \<noteq> 2 \<and> xr_settled x = None \<and> \<not> xr_completed x \<and> xr_statusCode x \<and> xr_notes x = []"

definition done_xhr :: "xhr \<Rightarrow> bool" where
  "done_xhr x \<longleftrightarrow> xr_state x = 2 \<and> xr_settled x \<noteq> None \<and> xr_completed x \<and> \<not> xr_timer x \<and> \<not> xr_transport x
     \<and> (if xr_installed x
        then (\<exists>t e s. xr_notes x = [if xr_settled x = Some True then NSuccess t else NError t e, NStatus s, NComplete t])
        else (\<exists>s. xr_notes x = [NStatus s] \<and> xr_settled x = Some False))"

definition sent_xhr :: "xhr \<Rightarrow> bool" where
  "sent_xhr x \<longleftrightarrow> fresh_xhr x \<and> xr_state x = 1 \<and> xr_installed x \<and> xr_transport x"

definition weight :: "xhr \<Rightarrow> int" where
  "weight x = (if xr_global x \<and> xr_state x \<noteq> 2 then 1 else 0)"

definition total :: "xhr list \<Rightarrow> int" where
  "total xs = sum_list (map weight xs)"

text \<open>\<open>ajaxStart\<close> and \<open>ajaxStop\<close> come in turn, and everything else between them: whether it has started, or \<open>None\<close>.\<close>

fun bracketed :: "bool \<Rightarrow> global_event list \<Rightarrow> bool option" where
  "bracketed b [] = Some b"
| "bracketed b (GStart # es) = (if b then None else bracketed True es)"
| "bracketed b (GStop # es) = (if b then bracketed False es else None)"
| "bracketed b (e # es) = (if b then bracketed True es else None)"

lemma bracketed_append: "bracketed b (es @ fs) = (case bracketed b es of None \<Rightarrow> None | Some c \<Rightarrow> bracketed c fs)"
proof (induction es arbitrary: b)
  case (Cons e es)
  then show ?case by (cases e) simp_all
qed simp

definition around :: "xhr list \<Rightarrow> xhr \<Rightarrow> xhr list \<Rightarrow> ajax_page \<Rightarrow> bool" where
  "around us x vs p \<longleftrightarrow> pg_requests p = us @ x # vs \<and> list_all (\<lambda>y. sent_xhr y \<or> done_xhr y) (us @ vs)
     \<and> pg_active p = total us + total vs + weight x \<and> bracketed False (pg_events p) = Some (pg_active p > 0)"

lemma total_simps [simp]: "total [] = 0" "total (x # xs) = weight x + total xs" "total (xs @ ys) = total xs + total ys"
  by (simp_all add: total_def)

lemma weight_pos [simp]: "0 \<le> weight x"
  by (simp add: weight_def)

lemma total_pos [simp]: "0 \<le> total xs"
  by (induction xs) simp_all

lemma around_rq: "around us x vs p \<Longrightarrow> rq (length us) p = x"
  by (simp add: around_def rq_def)

lemma around_upd: "around us x vs p \<Longrightarrow> weight (f x) = weight x \<Longrightarrow> around us (f x) vs (upd_rq f (length us) p)"
  by (simp add: around_def upd_rq_def)

definition tame_answer :: "xhr_answer \<Rightarrow> bool" where
  "tame_answer a \<longleftrightarrow> an_convert a \<noteq> ConvertThrows"

lemma outcome_some: "tame_answer a \<Longrightarrow> \<exists>ok txt err status. outcome a = Some (ok, txt, err, status)"
  by (auto simp: outcome_def tame_answer_def split: conversion.split)

lemma remember_keeps [simp]:
  "pg_requests (remember r p) = pg_requests p" "pg_active (remember r p) = pg_active p" "pg_events (remember r p) = pg_events p"
  by (auto simp: remember_def Let_def split: option.split)

text \<open>The first \<open>done\<close>, part by part.\<close>

lemma closed_done_state:
  "pg_requests p = us @ x # vs \<Longrightarrow> pg_requests (done_state (length us) a p) = us @ closed_xhr a x # vs
     \<and> pg_active (done_state (length us) a p) = pg_active p \<and> pg_events (done_state (length us) a p) = pg_events p"
  by (simp add: done_state_def Let_def upd_rq_def)

lemma told_done_tell:
  assumes "pg_requests p = us @ x # vs"
  shows "pg_requests (done_tell (length us) native out p) = us @ complete_xhr (fst (snd out)) (told_xhr native out x) # vs"
    "pg_active (done_tell (length us) native out p) = pg_active p"
    "pg_events (done_tell (length us) native out p)
       = pg_events p @ (if xr_global x then [if fst out then GSuccess (length us) else GError (length us)] else [])"
proof -
  have g: "xr_global (told_xhr native out x) = xr_global x"
    by (simp add: told_xhr_def status_fns_def settle_def split: prod.split)
  show "pg_requests (done_tell (length us) native out p) = us @ complete_xhr (fst (snd out)) (told_xhr native out x) # vs"
    "pg_active (done_tell (length us) native out p) = pg_active p"
    using assms by (simp_all add: done_tell_def Let_def upd_rq_def emit_def)
  show "pg_events (done_tell (length us) native out p)
       = pg_events p @ (if xr_global x then [if fst out then GSuccess (length us) else GError (length us)] else [])"
    using assms g by (simp add: done_tell_def Let_def upd_rq_def emit_def rq_def)
qed

lemma fresh_told:
  assumes "fresh_xhr x" "xr_installed x \<or> \<not> fst out"
  shows "done_xhr (complete_xhr (fst (snd out)) (told_xhr native out (closed_xhr a x)))"
proof -
  obtain ok t err st where "out = (ok, t, err, st)" by (cases out)
  then show ?thesis using assms
    by (auto simp: told_xhr_def closed_xhr_def done_xhr_def fresh_xhr_def complete_xhr_def status_fns_def settle_def)
qed

lemma told_keeps:
  "xr_global (complete_xhr t (told_xhr native out (closed_xhr a x))) = xr_global x"
  "xr_installed (complete_xhr t (told_xhr native out (closed_xhr a x))) = xr_installed x"
  "xr_state (complete_xhr t (told_xhr native out (closed_xhr a x))) = 2"
  by (simp_all add: told_xhr_def closed_xhr_def complete_xhr_def status_fns_def settle_def split: prod.split)

text \<open>The events that \<open>done\<close> adds keep the brackets and the counter together.\<close>

lemma done_last_around:
  assumes "pg_requests p = us @ y # vs" "done_xhr y" "list_all (\<lambda>y. sent_xhr y \<or> done_xhr y) (us @ vs)"
    "pg_active p = total us + total vs + (if xr_global y then 1 else 0)"
    "bracketed False (pg_events p) = Some (pg_active p > 0)"
  shows "around us y vs (done_last (length us) p)"
proof -
  have w: "weight y = 0" and r: "rq (length us) p = y" using assms(1,2) by (simp_all add: weight_def done_xhr_def rq_def)
  show ?thesis
  proof (cases "xr_global y")
    case True
    then have pos: "pg_active p > 0" using assms(4) total_pos [of us] total_pos [of vs] by simp
    have nn: "total us + total vs \<noteq> 0 \<Longrightarrow> 0 < total us + total vs" using total_pos [of us] total_pos [of vs] by linarith
    from pos have b: "bracketed False (pg_events p @ [GComplete (length us)]) = Some True" using assms(5) by (simp add: bracketed_append)
    then have "bracketed False ((pg_events p @ [GComplete (length us)]) @ [GStop]) = Some False" by (subst bracketed_append) simp
    then show ?thesis using True w r assms b pos nn by (auto simp: done_last_def around_def emit_def Let_def)
  next
    case False
    then show ?thesis using w r assms by (simp add: done_last_def around_def)
  qed
qed

lemma done_around:
  assumes "around us x vs p" "fresh_xhr x" "outcome a = Some out" "xr_installed x \<or> \<not> fst out"
  shows "snd (xhr_done (length us) a p) = False"
    "\<exists>y. around us y vs (fst (xhr_done (length us) a p)) \<and> done_xhr y \<and> xr_installed y = xr_installed x \<and> xr_global y = xr_global x"
proof -
  let ?r = "length us"
  let ?y = "complete_xhr (fst (snd out)) (told_xhr (an_text a) out (closed_xhr a x))"
  have st: "xr_state x \<noteq> 2" and rq: "rq ?r p = x" using assms(1,2) by (simp_all add: fresh_xhr_def around_rq)
  then have d: "xhr_done ?r a p = (done_last ?r (done_tell ?r (an_text a) out (done_state ?r a p)), False)"
    using assms(3) by (simp add: xhr_done_def)
  show "snd (xhr_done ?r a p) = False" by (simp add: d)
  have a: "pg_requests p = us @ x # vs" "list_all (\<lambda>y. sent_xhr y \<or> done_xhr y) (us @ vs)"
    "pg_active p = total us + total vs + weight x" "bracketed False (pg_events p) = Some (pg_active p > 0)"
    using assms(1) by (simp_all add: around_def)
  note s = closed_done_state [OF a(1), of a]
  note t = told_done_tell [OF conjunct1 [OF s], of "an_text a" out]
  have w: "weight x = (if xr_global x then 1 else 0)" using st by (simp add: weight_def)
  have gc: "xr_global (closed_xhr a x) = xr_global x" by (simp add: closed_xhr_def)
  have y: "done_xhr ?y" by (rule fresh_told) (rule assms(2,4))+
  have "around us ?y vs (done_last ?r (done_tell ?r (an_text a) out (done_state ?r a p)))"
  proof (rule done_last_around [OF t(1) y a(2)])
    show "pg_active (done_tell ?r (an_text a) out (done_state ?r a p)) = total us + total vs + (if xr_global ?y then 1 else 0)"
      using t(2) s a(3) w by (simp add: told_keeps)
    show "bracketed False (pg_events (done_tell ?r (an_text a) out (done_state ?r a p)))
        = Some (pg_active (done_tell ?r (an_text a) out (done_state ?r a p)) > 0)"
      using t(2,3) s a(3,4) w gc total_pos [of us] total_pos [of vs] by (auto simp: bracketed_append)
  qed
  then show "\<exists>y. around us y vs (fst (xhr_done ?r a p)) \<and> done_xhr y \<and> xr_installed y = xr_installed x \<and> xr_global y = xr_global x"
    by (intro exI [of _ ?y] conjI) (simp_all only: d fst_conv y told_keeps(1,2))
qed

lemma done_again: "around us x vs p \<Longrightarrow> done_xhr x \<Longrightarrow> xhr_done (length us) a p = (p, False)"
  by (simp add: xhr_done_def around_rq done_xhr_def)

lemma no_answer_fails: "s \<le> 0 \<Longrightarrow> \<exists>out. outcome (no_answer s t) = Some out \<and> \<not> fst out"
  by (auto simp: outcome_def no_answer_def)

text \<open>What a call of the \<open>jqXHR\<close> leaves of a request that is under way or done.\<close>

definition kept_xhr :: "xhr \<Rightarrow> xhr \<Rightarrow> bool" where
  "kept_xhr x y \<longleftrightarrow> (fresh_xhr y \<and> xr_state y = xr_state x \<and> xr_transport y = xr_transport x \<or> done_xhr y)
     \<and> xr_installed y = xr_installed x \<and> xr_global y = xr_global x"

lemma fresh_state: "fresh_xhr x \<Longrightarrow> xr_state x \<noteq> 2"
  by (simp add: fresh_xhr_def)

lemma done_state2: "done_xhr x \<Longrightarrow> xr_state x = 2"
  by (simp add: done_xhr_def)

lemma kept_trans: "kept_xhr x y \<Longrightarrow> kept_xhr y z \<Longrightarrow> kept_xhr x z"
  using fresh_state done_state2 unfolding kept_xhr_def by metis

lemma kept_self: "fresh_xhr x \<or> done_xhr x \<Longrightarrow> kept_xhr x x"
  by (auto simp: kept_xhr_def)

lemma abort_around:
  assumes "around us x vs p" "fresh_xhr x \<or> done_xhr x"
  shows "\<exists>y. around us y vs (xhr_abort (length us) t p) \<and> done_xhr y \<and> kept_xhr x y"
proof -
  obtain s where s: "xhr_abort (length us) t p = fst (xhr_done (length us) (no_answer 0 s) p)" by (simp add: xhr_abort_def)
  obtain out where out: "outcome (no_answer 0 s) = Some out" "\<not> fst out" using no_answer_fails [of 0 s] by auto
  show ?thesis
  proof (cases "done_xhr x")
    case True
    then show ?thesis using assms(1) done_again [OF assms(1) True] s by (auto simp: kept_xhr_def)
  next
    case False
    then have "fresh_xhr x" using assms(2) by simp
    from done_around(2) [OF assms(1) this out(1) disjI2 [OF out(2)]] show ?thesis unfolding s by (auto simp: kept_xhr_def)
  qed
qed

lemma header_kept:
  assumes "fresh_xhr x \<or> done_xhr x"
  shows "kept_xhr x (setRequestHeader n v x)" "weight (setRequestHeader n v x) = weight x"
    "kept_xhr x (overrideMimeType m x)" "weight (overrideMimeType m x) = weight x"
  using assms by (auto simp: setRequestHeader_def overrideMimeType_def kept_xhr_def fresh_xhr_def done_xhr_def weight_def Let_def)

lemma do_around:
  assumes "around us x vs p" "fresh_xhr x \<or> done_xhr x"
  shows "\<exists>y. around us y vs (xhr_do (length us) c p) \<and> kept_xhr x y"
proof (cases c)
  case (XAbort t)
  then show ?thesis using abort_around [OF assms, of t] by (auto simp: xhr_do_def)
next
  case (XHeader n v)
  have "around us (setRequestHeader n v x) vs (xhr_do (length us) c p)"
    using around_upd [where f = "setRequestHeader n v", OF assms(1)] header_kept(2) [OF assms(2)] by (simp add: xhr_do_def XHeader)
  then show ?thesis using header_kept(1) [OF assms(2)] by blast
next
  case (XMime m)
  have "around us (overrideMimeType m x) vs (xhr_do (length us) c p)"
    using around_upd [where f = "overrideMimeType m", OF assms(1)] header_kept(4) [OF assms(2)] by (simp add: xhr_do_def XMime)
  then show ?thesis using header_kept(3) [OF assms(2)] by blast
qed

lemma do_all_around:
  assumes "around us x vs p" "fresh_xhr x \<or> done_xhr x"
  shows "\<exists>y. around us y vs (fold (xhr_do (length us)) cs p) \<and> kept_xhr x y"
  using assms
proof (induction cs arbitrary: x p)
  case Nil
  then show ?case using kept_self by auto
next
  case (Cons c cs)
  obtain y where y: "around us y vs (xhr_do (length us) c p)" "kept_xhr x y" using do_around [OF Cons.prems] by blast
  then have "fresh_xhr y \<or> done_xhr y" by (auto simp: kept_xhr_def)
  from Cons.IH [OF y(1) this] y(2) show ?case using kept_trans by auto
qed

text \<open>Calls that do not give the request up.\<close>

definition no_abort :: "xhr_call list \<Rightarrow> bool" where
  "no_abort cs \<longleftrightarrow> list_all (\<lambda>c. case c of XAbort t \<Rightarrow> False | _ \<Rightarrow> True) cs"

lemma do_no_abort:
  assumes "around us x vs p" "fresh_xhr x" "no_abort cs"
  shows "\<exists>y. around us y vs (fold (xhr_do (length us)) cs p) \<and> kept_xhr x y \<and> fresh_xhr y"
  using assms
proof (induction cs arbitrary: x p)
  case Nil
  then show ?case using kept_self by auto
next
  case (Cons c cs)
  obtain y where y: "around us y vs (xhr_do (length us) c p)" "kept_xhr x y" using do_around Cons.prems(1,2) by blast
  have "rq (length us) (xhr_do (length us) c p) = y" by (rule around_rq [OF y(1)])
  moreover have "xr_state (rq (length us) (xhr_do (length us) c p)) = xr_state x"
    using Cons.prems by (auto simp: no_abort_def xhr_do_def setRequestHeader_def overrideMimeType_def upd_rq_def rq_def around_def Let_def
        split: xhr_call.splits)
  ultimately have "fresh_xhr y" using y(2) Cons.prems(2) by (auto simp: kept_xhr_def fresh_xhr_def done_xhr_def)
  from Cons.IH [OF y(1) this] Cons.prems(3) y(2) show ?case using kept_trans by (auto simp: no_abort_def)
qed

text \<open>Answers at once: the first settles the request, the others are without effect.\<close>

lemma outcome_sent:
  assumes "around us x vs p" "sent_xhr x \<or> done_xhr x" "tame_answer a"
  shows "\<not> snd (xhr_done (length us) a p)" "\<exists>y. around us y vs (fst (xhr_done (length us) a p)) \<and> done_xhr y"
proof -
  have "\<not> snd (xhr_done (length us) a p) \<and> (\<exists>y. around us y vs (fst (xhr_done (length us) a p)) \<and> done_xhr y)"
  proof (cases "done_xhr x")
    case True
    then show ?thesis using assms(1) done_again [OF assms(1) True] by auto
  next
    case False
    then have x: "fresh_xhr x" "xr_installed x" using assms(2) by (auto simp: sent_xhr_def)
    obtain out where out: "outcome a = Some out" using outcome_some [OF assms(3)] by blast
    from done_around [OF assms(1) x(1) out disjI1 [OF x(2)]] show ?thesis by auto
  qed
  then show "\<not> snd (xhr_done (length us) a p)" "\<exists>y. around us y vs (fst (xhr_done (length us) a p)) \<and> done_xhr y" by auto
qed

lemma answers_around:
  assumes "around us x vs p" "sent_xhr x \<or> done_xhr x" "list_all tame_answer as"
  shows "\<exists>y q. send_answers (length us) as e p = (q, e) \<and> around us y vs q \<and> (sent_xhr y \<or> done_xhr y)"
  using assms
proof (induction as arbitrary: x p)
  case Nil
  then show ?case by auto
next
  case (Cons a as)
  obtain y where y: "around us y vs (fst (xhr_done (length us) a p))" "done_xhr y"
    using outcome_sent(2) [OF Cons.prems(1,2), of a] Cons.prems(3) by auto
  obtain q where q: "xhr_done (length us) a p = (q, False)"
    using outcome_sent(1) [OF Cons.prems(1,2), of a] Cons.prems(3) by (cases "xhr_done (length us) a p") auto
  show ?case using Cons.IH [of y q] y q Cons.prems(3) by simp
qed

lemma send_around:
  assumes "around us x vs p" "fresh_xhr x" "xr_transport x" "xr_installed x" "list_all tame_answer (fst t)"
  shows "\<exists>y. around us y vs (fst (xhr_send (length us) t p)) \<and> (sent_xhr y \<or> done_xhr y)"
proof -
  let ?x = "x\<lparr>xr_state := 1\<rparr>"
  let ?p = "upd_rq (\<lambda>x. x\<lparr>xr_state := 1\<rparr>) (length us) p"
  have w: "weight ?x = weight x" using assms(2) by (simp add: weight_def fresh_xhr_def)
  have x: "sent_xhr ?x" using assms by (simp add: sent_xhr_def fresh_xhr_def)
  have a: "around us ?x vs ?p" by (rule around_upd [where f = "\<lambda>x. x\<lparr>xr_state := 1\<rparr>", OF assms(1) w])
  obtain y q where q: "send_answers (length us) (fst t) (snd t) ?p = (q, snd t)" "around us y vs q" "sent_xhr y \<or> done_xhr y"
    using answers_around [OF a disjI1 [OF x] assms(5), of "snd t"] by blast
  have t: "xr_transport (rq (length us) p)" using assms(1,3) by (simp add: around_rq)
  show ?thesis
  proof (cases "snd t")
    case None
    then show ?thesis using q t by (auto simp: xhr_send_def Let_def)
  next
    case (Some e)
    have rq: "rq (length us) q = y" by (rule around_rq [OF q(2)])
    have s: "fst (xhr_send (length us) t p)
        = (if xr_state y < 2 then fst (xhr_done (length us) (no_answer (-1) e) q) else q)"
      using Some q(1) t rq by (simp add: xhr_send_def Let_def)
    have tame: "tame_answer (no_answer (-1) e)" by (simp add: tame_answer_def no_answer_def)
    show ?thesis
    proof (cases "xr_state y < 2")
      case True
      then show ?thesis using outcome_sent(2) [OF q(2,3) tame] s by auto
    next
      case False
      then show ?thesis using q(2,3) s by auto
    qed
  qed
qed

text \<open>Options under which nothing gives the request up between the transport and \<open>send\<close>, and no converter throws.\<close>

definition tame_opts :: "ajax_opts \<Rightarrow> bool" where
  "tame_opts o1 \<longleftrightarrow> no_abort (ao_onSend o1) \<and> (case ao_transport o1 of None \<Rightarrow> True | Some t \<Rightarrow> list_all tame_answer (fst t))"

lemma emit_around:
  assumes "around us x vs p" "weight x = 1"
  shows "around us x vs (emit (GSend r) p)"
proof -
  have "pg_active p > 0" using assms total_pos [of us] total_pos [of vs] by (simp add: around_def)
  then show ?thesis using assms by (auto simp: around_def emit_def bracketed_append)
qed

lemma ajax_send_around:
  assumes "around us x vs p" "fresh_xhr x" "tame_opts o1"
  shows "\<exists>y. around us y vs (fst (ajax_send o1 (length us) p)) \<and> (sent_xhr y \<or> done_xhr y)"
proof -
  let ?r = "length us"
  let ?f = "\<lambda>x. x\<lparr>xr_strAbort := ''abort'', xr_installed := True\<rparr>"
  let ?g = "\<lambda>x. x\<lparr>xr_transport := True, xr_readyState := 1\<rparr>"
  let ?h = "\<lambda>x. x\<lparr>xr_timer := ao_async o1 \<and> ao_timeout o1 > 0\<rparr>"
  have a1: "around us (?f x) vs (upd_rq ?f ?r p)" by (rule around_upd [where f = ?f, OF assms(1)]) (simp add: weight_def)
  have x1: "fresh_xhr (?f x)" using assms(2) by (simp add: fresh_xhr_def)
  show ?thesis
  proof (cases "ao_transport o1")
    case None
    have "\<exists>out. outcome (no_answer (-1) ''No Transport'') = Some out \<and> \<not> fst out" by (rule no_answer_fails) simp
    then obtain out where out: "outcome (no_answer (-1) ''No Transport'') = Some out" "\<not> fst out" by blast
    show ?thesis using done_around(2) [OF a1 x1 out(1) disjI2 [OF out(2)]] None by (auto simp: ajax_send_def Let_def)
  next
    case (Some t)
    let ?x2 = "?g (?f x)"
    let ?p2 = "upd_rq ?g ?r (upd_rq ?f ?r p)"
    have a2: "around us ?x2 vs ?p2" by (rule around_upd [where f = ?g, OF a1]) (simp add: weight_def)
    have x2: "fresh_xhr ?x2" using x1 by (simp add: fresh_xhr_def)
    define p3 where "p3 = (if xr_global (rq ?r ?p2) then fold (xhr_do ?r) (ao_onSend o1) (emit (GSend ?r) ?p2) else ?p2)"
    have "\<exists>y. around us y vs p3 \<and> kept_xhr ?x2 y \<and> fresh_xhr y"
    proof (cases "xr_global ?x2")
      case True
      then have "weight ?x2 = 1" using fresh_state [OF x2] by (simp add: weight_def)
      have n: "no_abort (ao_onSend o1)" using assms(3) by (simp add: tame_opts_def)
      show ?thesis unfolding p3_def around_rq [OF a2] if_P [OF True]
        by (rule do_no_abort [OF emit_around [OF a2 \<open>weight ?x2 = 1\<close>] x2 n])
    next
      case False
      show ?thesis unfolding p3_def around_rq [OF a2] if_not_P [OF False] using a2 x2 kept_self [OF disjI1 [OF x2]] by blast
    qed
    then obtain y where y: "around us y vs p3" "kept_xhr ?x2 y" "fresh_xhr y" by blast
    have i: "xr_installed y" "xr_transport y" using y(2,3) fresh_state [OF y(3)] done_state2 [of y] by (auto simp: kept_xhr_def)
    have a4: "around us (?h y) vs (upd_rq ?h ?r p3)" by (rule around_upd [where f = ?h, OF y(1)]) (simp add: weight_def)
    have x4: "fresh_xhr (?h y)" using y(3) by (simp add: fresh_xhr_def)
    have tame: "list_all tame_answer (fst t)" using assms(3) Some by (simp add: tame_opts_def)
    have "ajax_send o1 ?r p = xhr_send ?r t (upd_rq ?h ?r p3)" using Some by (simp add: ajax_send_def p3_def Let_def)
    then show ?thesis using send_around [OF a4 x4 _ _ tame] i by simp
  qed
qed

text \<open>Headers do not change the state of a request.\<close>

lemma header_keeps:
  "fresh_xhr x \<Longrightarrow> fresh_xhr (setRequestHeader n v x)" "xr_global (setRequestHeader n v x) = xr_global x"
  by (simp_all add: setRequestHeader_def fresh_xhr_def Let_def)

lemma headers_keep: "fresh_xhr x \<Longrightarrow>
  fresh_xhr (fold (\<lambda>(n, v). setRequestHeader n v) hs x) \<and> xr_global (fold (\<lambda>(n, v). setRequestHeader n v) hs x) = xr_global x"
  by (induction hs arbitrary: x) (auto simp: header_keeps)

lemma send_headers_keep:
  assumes "fresh_xhr x"
  shows "fresh_xhr (send_headers o1 p x)" "xr_global (send_headers o1 p x) = xr_global x"
proof -
  define x1 where "x1 = (if ao_data o1 \<noteq> [] \<and> \<not> no_content o1 \<and> ao_contentType o1 \<noteq> None \<or> ao_ownContentType o1
                then setRequestHeader ''Content-Type'' (case ao_contentType o1 of None \<Rightarrow> ''false'' | Some c \<Rightarrow> c) x else x)"
  define old where "old = (\<lambda>t n y. case obj_get t (xr_key x) of None \<Rightarrow> y | Some v \<Rightarrow> if v = [] then y else setRequestHeader n v y)"
  define x2 where "x2 = (if ao_ifModified o1 then old (pg_etag p) ''If-None-Match'' (old (pg_lastModified p) ''If-Modified-Since'' x1) else x1)"
  have x1: "fresh_xhr x1 \<and> xr_global x1 = xr_global x" using assms by (simp add: x1_def header_keeps)
  have old: "fresh_xhr y \<Longrightarrow> fresh_xhr (old t n y) \<and> xr_global (old t n y) = xr_global y" for t n y
    by (simp add: old_def header_keeps split: option.split)
  have x2: "fresh_xhr x2 \<and> xr_global x2 = xr_global x" using x1 old by (simp add: x2_def)
  have "send_headers o1 p x = fold (\<lambda>(n, v). setRequestHeader n v) (ao_headers o1) (setRequestHeader ''Accept'' (accept_header o1) x2)"
    by (simp only: send_headers_def Let_def x1_def x2_def old_def)
  then show "fresh_xhr (send_headers o1 p x)" "xr_global (send_headers o1 p x) = xr_global x"
    using headers_keep [of "setRequestHeader ''Accept'' (accept_header o1) x2" "ao_headers o1"] x2 by (simp_all add: header_keeps)
qed

lemma prepare_around:
  assumes "around us x vs p" "fresh_xhr x" "\<not> xr_global x"
  shows "\<exists>y. around us y vs (ajax_prepare o1 (length us) p) \<and> fresh_xhr y"
proof -
  let ?r = "length us"
  let ?g = "\<lambda>x. x\<lparr>xr_global := ao_global o1\<rparr>"
  define x3 where "x3 = (?g x)\<lparr>xr_key := data_url o1 (xr_url x), xr_url := final_url o1 (xr_url x)\<rparr>"
  define p2 where "p2 = (if ao_global o1
                then (let q = (upd_rq ?g ?r p)\<lparr>pg_active := pg_active (upd_rq ?g ?r p) + 1\<rparr>
                      in if pg_active (upd_rq ?g ?r p) = 0 then emit GStart q else q) else upd_rq ?g ?r p)"
  let ?p3 = "upd_rq (\<lambda>x. x\<lparr>xr_key := data_url o1 (xr_url (rq ?r p2)), xr_url := final_url o1 (xr_url (rq ?r p2))\<rparr>) ?r p2"
  have p: "pg_requests p = us @ x # vs" "pg_active p = total us + total vs" using assms(1,3) by (simp_all add: around_def weight_def)
  have nn: "pg_active p = 0 \<or> pg_active p > 0" using p(2) total_pos [of us] total_pos [of vs] by linarith
  have p2: "pg_requests p2 = us @ ?g x # vs" "pg_active p2 = pg_active p + (if ao_global o1 then 1 else 0)"
    "pg_events p2 = pg_events p @ (if ao_global o1 \<and> pg_active p = 0 then [GStart] else [])"
    using p(1) by (simp_all add: p2_def upd_rq_def emit_def Let_def)
  have x3: "fresh_xhr x3" "xr_global x3 = ao_global o1" using assms(2) by (simp_all add: x3_def fresh_xhr_def)
  have p3: "pg_requests ?p3 = us @ x3 # vs" using p2(1) by (simp add: upd_rq_def rq_def x3_def)
  let ?y = "send_headers o1 ?p3 x3"
  have y: "fresh_xhr ?y" "xr_global ?y = ao_global o1" using send_headers_keep [OF x3(1)] x3(2) by simp_all
  then have w: "weight ?y = (if ao_global o1 then 1 else 0)" using fresh_state [OF y(1)] by (simp add: weight_def)
  have pr: "ajax_prepare o1 ?r p = upd_rq (send_headers o1 ?p3) ?r ?p3"
    by (simp only: ajax_prepare_def p2_def Let_def)
  have "pg_requests (ajax_prepare o1 ?r p) = us @ ?y # vs" unfolding pr using p3 by (simp add: upd_rq_def)
  moreover have "pg_active (ajax_prepare o1 ?r p) = pg_active p + (if ao_global o1 then 1 else 0)"
    "pg_events (ajax_prepare o1 ?r p) = pg_events p @ (if ao_global o1 \<and> pg_active p = 0 then [GStart] else [])"
    unfolding pr using p2(2,3) by (simp_all add: upd_rq_def)
  moreover have "bracketed False (pg_events p @ (if ao_global o1 \<and> pg_active p = 0 then [GStart] else []))
      = Some (pg_active p + (if ao_global o1 then 1 else 0) > 0)"
    using assms(1) nn by (auto simp: around_def bracketed_append)
  ultimately have "around us ?y vs (ajax_prepare o1 ?r p)" using assms(1) p(2) w by (simp add: around_def)
  then show ?thesis using y(1) by blast
qed

section \<open>The requests of a page\<close>

definition requests_ok :: "ajax_page \<Rightarrow> bool" where
  "requests_ok p \<longleftrightarrow> list_all (\<lambda>y. sent_xhr y \<or> done_xhr y) (pg_requests p) \<and> pg_active p = total (pg_requests p)
     \<and> bracketed False (pg_events p) = Some (pg_active p > 0)"

definition no_requests :: "url_parts \<Rightarrow> ajax_page" where
  "no_requests loc = \<lparr>pg_requests = [], pg_active = 0, pg_lastModified = [], pg_etag = [], pg_location = loc, pg_events = []\<rparr>"

lemma ajax_ok_empty: "requests_ok (no_requests loc)"
  by (simp add: requests_ok_def no_requests_def)

lemma all_ok_around: "around us x vs p \<Longrightarrow> sent_xhr x \<or> done_xhr x \<Longrightarrow> requests_ok p"
  by (auto simp: requests_ok_def around_def)

lemma around_all_ok:
  assumes "requests_ok p" "r < length (pg_requests p)"
  obtains us x vs where "around us x vs p" "r = length us" "sent_xhr x \<or> done_xhr x" "rq r p = x"
proof -
  have p: "pg_requests p = take r (pg_requests p) @ rq r p # drop (Suc r) (pg_requests p)"
    using assms(2) by (simp add: rq_def id_take_nth_drop)
  have o: "list_all (\<lambda>y. sent_xhr y \<or> done_xhr y) (take r (pg_requests p) @ rq r p # drop (Suc r) (pg_requests p))"
    using assms(1) p by (simp add: requests_ok_def)
  have t: "total (pg_requests p) = total (take r (pg_requests p)) + (weight (rq r p) + total (drop (Suc r) (pg_requests p)))"
    by (subst p) simp
  have o2: "list_all (\<lambda>y. sent_xhr y \<or> done_xhr y) (take r (pg_requests p) @ drop (Suc r) (pg_requests p))" using o by simp
  have a: "pg_active p = total (take r (pg_requests p)) + total (drop (Suc r) (pg_requests p)) + weight (rq r p)"
    "bracketed False (pg_events p) = Some (pg_active p > 0)" using assms(1) t by (simp_all add: requests_ok_def)
  have "around (take r (pg_requests p)) (rq r p) (drop (Suc r) (pg_requests p)) p"
    unfolding around_def by (intro conjI p o2 a)
  then show thesis using that assms(2) o by simp
qed

lemma new_around: "requests_ok p \<Longrightarrow> around (pg_requests p) (new_xhr o1 p) [] (p\<lparr>pg_requests := pg_requests p @ [new_xhr o1 p]\<rparr>)"
  by (simp add: around_def requests_ok_def new_xhr_def weight_def)

lemma new_fresh: "fresh_xhr (new_xhr o1 p)" "\<not> xr_global (new_xhr o1 p)"
  by (simp_all add: fresh_xhr_def new_xhr_def)

lemma ajax_ok:
  assumes "requests_ok p" "tame_opts o1"
  shows "requests_ok (fst (jq_ajax o1 p))"
proof -
  let ?us = "pg_requests p" and ?r = "length (pg_requests p)"
  define p1 where "p1 = fold (xhr_do ?r) (ao_prefilter o1) (p\<lparr>pg_requests := pg_requests p @ [new_xhr o1 p]\<rparr>)"
  obtain x where x: "around ?us x [] p1" "kept_xhr (new_xhr o1 p) x"
    using do_all_around [OF new_around [OF assms(1)] disjI1 [OF new_fresh(1)]] unfolding p1_def by blast
  have rq1: "rq ?r p1 = x" by (rule around_rq [OF x(1)])
  show ?thesis
  proof (cases "xr_state x = 2")
    case True
    then have "done_xhr x" using x(2) by (auto simp: kept_xhr_def fresh_xhr_def)
    moreover have "fst (jq_ajax o1 p) = p1" using True rq1 by (simp add: jq_ajax_def p1_def Let_def)
    ultimately show ?thesis using all_ok_around [OF x(1)] by simp
  next
    case False
    then have "fresh_xhr x" "\<not> xr_global x" using x(2) new_fresh by (auto simp: kept_xhr_def done_xhr_def)
    from prepare_around [OF x(1) this] obtain y where y: "around ?us y [] (ajax_prepare o1 ?r p1)" "fresh_xhr y" by blast
    let ?p2 = "ajax_prepare o1 ?r p1"
    show ?thesis
    proof (cases "ao_beforeSend o1")
      case None
      then have "jq_ajax o1 p = ajax_send o1 ?r ?p2" using False rq1 by (simp add: jq_ajax_def p1_def Let_def)
      then show ?thesis using ajax_send_around [OF y assms(2)] all_ok_around by auto
    next
      case (Some b)
      obtain cs stops where b: "b = (cs, stops)" by (cases b)
      obtain z where z: "around ?us z [] (fold (xhr_do ?r) cs ?p2)" "kept_xhr y z"
        using do_all_around [OF y(1) disjI1 [OF y(2)]] by blast
      have zz: "fresh_xhr z \<or> done_xhr z" using z(2) by (auto simp: kept_xhr_def)
      have j: "jq_ajax o1 p = (if stops \<or> xr_state z = 2 then (xhr_abort ?r None (fold (xhr_do ?r) cs ?p2), False)
          else ajax_send o1 ?r (fold (xhr_do ?r) cs ?p2))"
        using False rq1 Some b around_rq [OF z(1)] by (simp add: jq_ajax_def p1_def Let_def)
      show ?thesis
      proof (cases "stops \<or> xr_state z = 2")
        case True
        then show ?thesis using j abort_around [OF z(1) zz, of None] all_ok_around by auto
      next
        case False
        then have "fresh_xhr z" using zz by (auto simp: done_xhr_def)
        then show ?thesis using j False ajax_send_around [OF z(1) _ assms(2)] all_ok_around by auto
      qed
    qed
  qed
qed

text \<open>What may happen: no converter throws, and no listener of \<open>ajaxSend\<close> gives the request up.\<close>

definition tame_event :: "ajax_event \<Rightarrow> bool" where
  "tame_event e = (case e of Ajax o1 \<Rightarrow> tame_opts o1 | Answer r a \<Rightarrow> tame_answer a | _ \<Rightarrow> True)"

lemma sent_fresh: "sent_xhr x \<or> done_xhr x \<Longrightarrow> fresh_xhr x \<or> done_xhr x"
  by (auto simp: sent_xhr_def)

lemma kept_sent: "sent_xhr x \<or> done_xhr x \<Longrightarrow> kept_xhr x y \<Longrightarrow> sent_xhr y \<or> done_xhr y"
  unfolding sent_xhr_def kept_xhr_def using done_state2 fresh_state by metis

lemma step_ok:
  assumes "requests_ok p" "tame_event e"
  shows "requests_ok (ajax_step e p)"
proof (cases e)
  case (Ajax o1)
  then show ?thesis using ajax_ok [OF assms(1)] assms(2) by (simp add: ajax_step_def tame_event_def)
next
  case (CallXhr r c)
  show ?thesis
  proof (cases "r < length (pg_requests p)")
    case True
    obtain us x vs where x: "around us x vs p" "r = length us" "sent_xhr x \<or> done_xhr x" "rq r p = x"
      by (rule around_all_ok [OF assms(1) True])
    obtain y where y: "around us y vs (xhr_do (length us) c p)" "kept_xhr x y" using do_around [OF x(1) sent_fresh [OF x(3)]] by blast
    then show ?thesis using True x(2) CallXhr all_ok_around [OF y(1) kept_sent [OF x(3) y(2)]] by (simp add: ajax_step_def)
  qed (use assms(1) CallXhr in \<open>simp add: ajax_step_def\<close>)
next
  case (Answer r a)
  show ?thesis
  proof (cases "r < length (pg_requests p)")
    case True
    obtain us x vs where x: "around us x vs p" "r = length us" "sent_xhr x \<or> done_xhr x" "rq r p = x"
      by (rule around_all_ok [OF assms(1) True])
    have "tame_answer a" using assms(2) Answer by (simp add: tame_event_def)
    from outcome_sent(2) [OF x(1,3) this] obtain y where "around us y vs (fst (xhr_done r a p))" "done_xhr y" using x(2) by blast
    then show ?thesis using assms(1) Answer all_ok_around by (auto simp: ajax_step_def)
  qed (use assms(1) Answer in \<open>simp add: ajax_step_def\<close>)
next
  case (Timeout r)
  show ?thesis
  proof (cases "r < length (pg_requests p)")
    case True
    obtain us x vs where x: "around us x vs p" "r = length us" "sent_xhr x \<or> done_xhr x" "rq r p = x"
      by (rule around_all_ok [OF assms(1) True])
    obtain y where "around us y vs (xhr_abort r (Some ''timeout'') p)" "done_xhr y"
      using abort_around [OF x(1) sent_fresh [OF x(3)], of "Some ''timeout''"] x(2) by blast
    then show ?thesis using assms(1) Timeout all_ok_around by (auto simp: ajax_step_def)
  qed (use assms(1) Timeout in \<open>simp add: ajax_step_def\<close>)
qed

definition ajax_run :: "ajax_event list \<Rightarrow> ajax_page \<Rightarrow> ajax_page" where
  "ajax_run es p = fold ajax_step es p"

lemma run_ok: "requests_ok p \<Longrightarrow> list_all tame_event es \<Longrightarrow> requests_ok (ajax_run es p)"
  by (induction es arbitrary: p) (simp_all add: ajax_run_def step_ok)

lemma total_count: "total xs = int (length (filter (\<lambda>x. xr_global x \<and> xr_state x \<noteq> 2) xs))"
  by (induction xs) (simp_all add: weight_def)


definition demo_loc :: url_parts where
  "demo_loc = (''http:'', Some ''a.example'', None)"

definition demo_opts :: ajax_opts where
  "demo_opts = \<lparr>ao_url = ''//a.example/x?_=1#top'', ao_type = ''get'', ao_data = ''k=v'', ao_contentType = None, ao_ownContentType = False,
     ao_noCache = True, ao_now = ''77'', ao_ifModified = True, ao_dataTypes = [''json''],
     ao_accepts = [(''*'', ''*/*''), (''json'', ''application/json'')], ao_headers = [(''x-a'', ''1'')], ao_global = True,
     ao_timeout = 9, ao_async = True, ao_prefilter = [XHeader ''X-A'' ''0''], ao_beforeSend = Some ([], False), ao_onSend = [],
     ao_transport = Some ([], None)\<rparr>"

definition demo_answer :: xhr_answer where
  "demo_answer = \<lparr>an_status = 200, an_text = ''OK'', an_headers = [(''ETAG'', ''e1'')], an_convert = Converts\<rparr>"

definition demo_requests :: "ajax_event list" where
  "demo_requests = [Ajax demo_opts, Ajax (demo_opts\<lparr>ao_beforeSend := Some ([], True)\<rparr>), Answer 0 demo_answer, Answer 0 demo_answer,
     Ajax demo_opts, Timeout 2]"


text \<open>An address gets its protocol, its data and the time; the headers of a second request have the validator of the first.\<close>

lemma request_example:
  "(let p = ajax_run demo_requests (no_requests demo_loc) in
    map xr_url (pg_requests p) = replicate 3 ''http://a.example/x?_=77&k=v''
    \<and> map xr_notes (pg_requests p) = [[NSuccess ''success'', NStatus 200, NComplete ''success''], [NStatus 0],
        [NError ''timeout'' ''timeout'', NStatus 0, NComplete ''timeout'']]
    \<and> pg_events p = [GStart, GSend 0, GError 1, GComplete 1, GSuccess 0, GComplete 0, GStop, GStart, GSend 2, GError 2, GComplete 2, GStop]
    \<and> xr_headers (rq 2 p) = [(''X-A'', ''1''), (''If-None-Match'', ''e1''), (''Accept'', ''application/json, */*; q=0.01'')])"
  by code_simp

lemma cross_domain_example:
  "\<not> cross_domain demo_loc ''http://A.example:80/x'' \<and> cross_domain demo_loc ''https://a.example/x''
   \<and> cross_domain demo_loc ''http://a.example:8080/x'' \<and> \<not> cross_domain demo_loc ''x?y''"
  by code_simp

text \<open>
  A listener of \<open>ajaxSend\<close> that gives the request up: \<open>send\<close> is tried on a transport that is gone, and \<open>done\<close> runs again. The
  request has two events for its error, the counter is below zero, and no later request starts or stops.
\<close>

definition aborting_opts :: ajax_opts where
  "aborting_opts = demo_opts\<lparr>ao_onSend := [XAbort None]\<rparr>"

theorem abort_in_send_counts_twice:
  "(let p = ajax_run [Ajax aborting_opts, Ajax demo_opts, Answer 1 demo_answer] (no_requests demo_loc) in
    pg_active p = -1 \<and> pg_events p = [GStart, GSend 0, GError 0, GComplete 0, GStop, GError 0, GComplete 0, GSend 1, GSuccess 1, GComplete 1])"
  by code_simp

text \<open>A converter that throws: the counter stays, nothing is called, and no answer is taken any more.\<close>

theorem throwing_converter_leaks:
  "(let p = ajax_run [Ajax demo_opts, Answer 0 (demo_answer\<lparr>an_convert := ConvertThrows\<rparr>), CallXhr 0 (XAbort None)] (no_requests demo_loc) in
    pg_active p = 1 \<and> xr_state (rq 0 p) = 2 \<and> xr_notes (rq 0 p) = [] \<and> pg_events p = [GStart, GSend 0])"
  by code_simp

end
