(* ===== verification/SzMatch.thy ===== *)
theory SzMatch
  imports JqClass "HOL-Library.Sublist"
begin

text \<open>
  Matching in Sizzle, the selector engine of \<open>jquery.js\<close>: the filters, \<open>matcherFromTokens\<close> and what its closures do. The
  elements are numbered in the order of the document, so the parent and the sibling before an element have smaller numbers. A closure is a
  term of the type \<open>matcher\<close>, with the number that \<open>done++\<close> gave it; running it changes what is cached on the elements: the property
  \<open>expando\<close> and the property \<open>sizset\<close>, which the combinators and \<open>:nth-child\<close> both use.
\<close>

section \<open>Elements\<close>

text \<open>\<open>se_attrs\<close> is what \<open>Sizzle.attr\<close> reads; the properties that an element has not are \<open>None\<close> or false.\<close>

record sz_elem =
  se_name :: string
  se_attrs :: "string js_obj"
  se_parent :: "nat option"
  se_prev :: "nat option"
  se_next :: bool
  se_text :: string
  se_filled :: bool
  se_type :: string
  se_href :: string
  se_disabled :: "bool option"
  se_checked :: bool
  se_selected :: bool
  se_active :: bool

type_synonym sz_doc = "sz_elem list"

text \<open>The steps of \<open>elem = elem[dir]\<close>; other nodes are skipped by their \<open>nodeType\<close>.\<close>

function climb_path :: "(sz_elem \<Rightarrow> nat option) \<Rightarrow> sz_doc \<Rightarrow> nat \<Rightarrow> nat list" where
  "climb_path dir d e = (case dir (d ! e) of None \<Rightarrow> [] | Some p \<Rightarrow> if p < e then p # climb_path dir d p else [])"
  by pat_completeness auto
termination by (relation "measure (\<lambda>(dir, d, e). e)") auto

declare climb_path.simps [simp del]

datatype sz_comb = Descendant | Child | Adjacent | Sibling

definition comb_path :: "sz_comb \<Rightarrow> sz_doc \<Rightarrow> nat \<Rightarrow> nat list" where
  "comb_path c d e =
     (case c of
        Descendant \<Rightarrow> climb_path se_parent d e
      | Sibling \<Rightarrow> climb_path se_prev d e
      | Child \<Rightarrow> take 1 (climb_path se_parent d e)
      | Adjacent \<Rightarrow> take 1 (climb_path se_prev d e))"

section \<open>Filters without a cache\<close>

datatype attr_op = HasAttr | Equals | Differs | Begins | Includes | Ends | Word | Dash

datatype sz_pseudo =
    Enabled | Disabled | Checked | Selected | Parent | Empty | Contains string | Header | TextInput
  | InputOf string | ButtonOf string | Button | Input | Focus | Active

datatype plain_filter =
    Tag string
  | Id string
  | Class string
  | Attr string attr_op string
  | FirstChild | LastChild | OnlyChild
  | Pseudo sz_pseudo

definition sz_white :: "char \<Rightarrow> bool" where
  "sz_white c \<longleftrightarrow> c = CHR 0x20 \<or> c = CHR 0x09 \<or> c = CHR 0x0D \<or> c = CHR 0x0A \<or> c = CHR 0x0C"

text \<open>The expression for a class, \<open>(^|ws)name(ws|$)\<close>, at each position; the flag: at the start or after white space.\<close>

fun class_test :: "bool \<Rightarrow> string \<Rightarrow> string \<Rightarrow> bool" where
  "class_test b name [] = (b \<and> name = [])"
| "class_test b name (c # s) =
     (b \<and> prefix name (c # s) \<and> (case drop (length name) (c # s) of [] \<Rightarrow> True | x # _ \<Rightarrow> sz_white x) \<or> class_test (sz_white c) name s)"

definition lower :: "string \<Rightarrow> string" where
  "lower s = map to_lower s"

definition str_has :: "string \<Rightarrow> string \<Rightarrow> bool" where
  "str_has s t \<longleftrightarrow> list_ex (prefix s) (suffixes t)"

definition attr_test :: "attr_op \<Rightarrow> string \<Rightarrow> string option \<Rightarrow> bool" where
  "attr_test oper check result =
     (case result of
        None \<Rightarrow> oper = Differs
      | Some v \<Rightarrow>
          (case oper of
             HasAttr \<Rightarrow> True
           | Equals \<Rightarrow> v = check
           | Differs \<Rightarrow> v \<noteq> check
           | Begins \<Rightarrow> check \<noteq> [] \<and> prefix check v
           | Includes \<Rightarrow> check \<noteq> [] \<and> str_has check v
           | Ends \<Rightarrow> check \<noteq> [] \<and> suffix check v
           | Word \<Rightarrow> str_has check ('' '' @ v @ '' '')
           | Dash \<Rightarrow> v = check \<or> prefix (check @ ''-'') v))"

text \<open>\<open>/h\d/i\<close> and \<open>/input|select|textarea|button/i\<close>, anywhere in the name.\<close>

definition header_test :: "string \<Rightarrow> bool" where
  "header_test s \<longleftrightarrow> list_ex (\<lambda>t. case t of a # b # _ \<Rightarrow> (a = CHR ''h'' \<or> a = CHR ''H'') \<and> b \<in> set ''0123456789'' | _ \<Rightarrow> False) (suffixes s)"

definition input_test :: "string \<Rightarrow> bool" where
  "input_test s \<longleftrightarrow> list_ex (\<lambda>w. str_has w (lower s)) [''input'', ''select'', ''textarea'', ''button'']"

definition pseudo_test :: "sz_pseudo \<Rightarrow> sz_elem \<Rightarrow> bool" where
  "pseudo_test p x =
     (let name = lower (se_name x) in
      case p of
        Enabled \<Rightarrow> se_disabled x = Some False
      | Disabled \<Rightarrow> se_disabled x = Some True
      | Checked \<Rightarrow> name = ''input'' \<and> se_checked x \<or> name = ''option'' \<and> se_selected x
      | Selected \<Rightarrow> se_selected x
      | Parent \<Rightarrow> se_filled x
      | Empty \<Rightarrow> \<not> se_filled x
      | Contains t \<Rightarrow> str_has t (se_text x)
      | Header \<Rightarrow> header_test (se_name x)
      | TextInput \<Rightarrow> name = ''input'' \<and> se_type x = ''text''
            \<and> (case obj_get (se_attrs x) ''type'' of None \<Rightarrow> True | Some t \<Rightarrow> lower t = ''text'')
      | InputOf t \<Rightarrow> name = ''input'' \<and> se_type x = t
      | ButtonOf t \<Rightarrow> (name = ''input'' \<or> name = ''button'') \<and> se_type x = t
      | Button \<Rightarrow> name = ''input'' \<and> se_type x = ''button'' \<or> name = ''button''
      | Input \<Rightarrow> input_test (se_name x)
      | Focus \<Rightarrow> se_active x \<and> (se_type x \<noteq> [] \<or> se_href x \<noteq> [])
      | Active \<Rightarrow> se_active x)"

definition filter_test :: "plain_filter \<Rightarrow> sz_doc \<Rightarrow> nat \<Rightarrow> bool" where
  "filter_test f d e =
     (let x = d ! e in
      case f of
        Tag t \<Rightarrow> t = ''*'' \<or> lower (se_name x) = lower t
      | Id i \<Rightarrow> obj_get (se_attrs x) ''id'' = Some i
      | Class c \<Rightarrow> class_test True c (case obj_get (se_attrs x) ''class'' of None \<Rightarrow> [] | Some s \<Rightarrow> s)
      | Attr n oper check \<Rightarrow> attr_test oper check (obj_get (se_attrs x) (lower n))
      | FirstChild \<Rightarrow> se_prev x = None
      | LastChild \<Rightarrow> \<not> se_next x
      | OnlyChild \<Rightarrow> se_prev x = None \<and> \<not> se_next x
      | Pseudo p \<Rightarrow> pseudo_test p x)"

section \<open>Tokens and what they mean\<close>

datatype sz_token =
    Filter plain_filter
  | NthChild int int
  | NotAny "sz_token list list"
  | Comb sz_comb

definition nth_test :: "int \<Rightarrow> int \<Rightarrow> int \<Rightarrow> bool" where
  "nth_test a b n = (let diff = n - b in if a = 0 then diff = 0 else diff mod a = 0 \<and> 0 \<le> diff div a)"

definition child_index :: "sz_doc \<Rightarrow> nat \<Rightarrow> int" where
  "child_index d e = int (Suc (length (climb_path se_prev d e)))"

lemma size_list_rev: "size_list f (rev xs) = size_list f xs"
  by (induction xs) simp_all

lemma size_not: "g \<in> set gs \<Longrightarrow> size_list size g < Suc (size_list (size_list size) gs)"
  using size_list_estimation' [of g gs "size_list size g" "size_list size"] by simp

text \<open>The selectors of the standard, read from the right; a combinator at the left end leads to the context.\<close>

function means :: "sz_doc \<Rightarrow> nat option \<Rightarrow> sz_token list \<Rightarrow> nat \<Rightarrow> bool" where
  "means d ctx [] e = True"
| "means d ctx (Filter f # ts) e = (filter_test f d e \<and> means d ctx ts e)"
| "means d ctx (NthChild a b # ts) e = (nth_test a b (child_index d e) \<and> means d ctx ts e)"
| "means d ctx (NotAny gs # ts) e = (\<not> list_ex (\<lambda>g. means d ctx (rev g) e) gs \<and> means d ctx ts e)"
| "means d ctx (Comb c # ts) e = list_ex (\<lambda>x. if ts = [] then ctx = Some x else means d ctx ts x) (comb_path c d e)"
  by pat_completeness auto
termination
  by (relation "measure (\<lambda>(d, ctx, ts, e). size_list size ts)") (auto simp: size_list_rev dest: size_not)

declare means.simps [simp del]

definition means_group :: "sz_doc \<Rightarrow> nat option \<Rightarrow> sz_token list list \<Rightarrow> nat \<Rightarrow> bool" where
  "means_group d ctx gs e = list_ex (\<lambda>g. means d ctx (rev g) e) gs"

section \<open>The compiled closures\<close>

datatype matcher =
    Test plain_filter
  | Nth nat int int
  | Not "matcher list"
  | Both matcher matcher
  | Climb nat sz_comb matcher
  | ToContext nat sz_comb

text \<open>\<open>addMatcher(higher, deeper)\<close> and \<open>addCombinator(matcher, ...)\<close>, without a first matcher too.\<close>

definition addMatcher :: "matcher option \<Rightarrow> matcher \<Rightarrow> matcher" where
  "addMatcher higher deeper = (case higher of None \<Rightarrow> deeper | Some h \<Rightarrow> Both h deeper)"

definition addCombinator :: "matcher option \<Rightarrow> sz_comb \<Rightarrow> nat \<Rightarrow> matcher" where
  "addCombinator m c n = (case m of None \<Rightarrow> ToContext n c | Some x \<Rightarrow> Climb n c x)"

text \<open>
  \<open>matcherFromTokens\<close> and the loop over the groups in \<open>compile\<close>, with the counter \<open>done\<close>. A group without tokens gives
  \<open>undefined\<close>, which ends the loop over the matchers: \<open>compile_groups\<close> stops there.
\<close>

function (sequential) compile_tokens :: "sz_token list \<Rightarrow> matcher option \<Rightarrow> nat \<Rightarrow> matcher option \<times> nat"
  and compile_groups :: "sz_token list list \<Rightarrow> nat \<Rightarrow> matcher list \<times> nat" where
  "compile_tokens [] m n = (m, n)"
| "compile_tokens (Comb c # ts) m n = compile_tokens ts (Some (addCombinator m c n)) (Suc n)"
| "compile_tokens (Filter f # ts) m n = compile_tokens ts (Some (addMatcher m (Test f))) n"
| "compile_tokens (NthChild a b # ts) m n = compile_tokens ts (Some (addMatcher m (Nth n a b))) (Suc n)"
| "compile_tokens (NotAny gs # ts) m n =
     (case compile_groups gs n of (ms, n') \<Rightarrow> compile_tokens ts (Some (addMatcher m (Not ms))) n')"
| "compile_groups [] n = ([], n)"
| "compile_groups (g # gs) n =
     (case compile_tokens g None n of
        (None, n') \<Rightarrow> ([], snd (compile_groups gs n'))
      | (Some m, n') \<Rightarrow> (case compile_groups gs n' of (ms, n'') \<Rightarrow> (m # ms, n'')))"
  by pat_completeness auto
termination
  by (relation "measure (case_sum (\<lambda>(ts, _, _). size_list size ts) (\<lambda>(gs, _). size_list (size_list size) gs))") auto

section \<open>Running a matcher\<close>

text \<open>\<open>elem[expando]\<close>: the number of an \<open>:nth-child\<close>, or \<open>doneName.dirruns.cachedruns\<close>; the place \<open>None\<close> is the document.\<close>

datatype sz_mark = NthMark nat | KeyMark nat nat nat

datatype sizset = Flag bool | Num int

record sz_state =
  sz_marks :: "nat option \<Rightarrow> sz_mark option"
  sz_sets :: "nat \<Rightarrow> sizset option"

definition truthy_set :: "sizset option \<Rightarrow> bool" where
  "truthy_set v = (case v of None \<Rightarrow> False | Some (Flag b) \<Rightarrow> b | Some (Num n) \<Rightarrow> n \<noteq> 0)"

definition put_set :: "nat \<Rightarrow> sizset \<Rightarrow> sz_state \<Rightarrow> sz_state" where
  "put_set e v s = s\<lparr>sz_sets := (sz_sets s)(e \<mapsto> v)\<rparr>"

definition put_mark :: "nat option \<Rightarrow> sz_mark \<Rightarrow> sz_state \<Rightarrow> sz_state" where
  "put_mark p v s = s\<lparr>sz_marks := (sz_marks s)(p \<mapsto> v)\<rparr>"

text \<open>The filter of \<open>:nth-child\<close>: it numbers the children up to the element, unless that was done.\<close>

definition number_children :: "sz_doc \<Rightarrow> nat \<Rightarrow> sz_state \<Rightarrow> sz_state" where
  "number_children d e s =
     fold (\<lambda>(x, i) t. put_set x (Num i) t) (zip (rev (climb_path se_prev d e) @ [e]) (map int [1..<length (climb_path se_prev d e) + 2])) s"

definition nth_run :: "sz_doc \<Rightarrow> nat \<Rightarrow> int \<Rightarrow> int \<Rightarrow> nat \<Rightarrow> sz_state \<Rightarrow> bool \<times> sz_state" where
  "nth_run d n a b e s =
     (if a = 1 \<and> b = 0 then (True, s)
      else
        let p = se_parent (d ! e);
            t = (if sz_marks s p \<noteq> Some (NthMark n) \<or> \<not> truthy_set (sz_sets s e) then put_mark p (NthMark n) (number_children d e s) else s)
        in case sz_sets t e of
             None \<Rightarrow> (False, t)
           | Some (Num i) \<Rightarrow> (nth_test a b i, t)
           | Some (Flag f) \<Rightarrow> (nth_test a b (if f then 1 else 0), t))"

text \<open>\<open>cache === cachedkey\<close>, and \<open>cache.indexOf(dirkey) === 0\<close>: the decimal numerals of \<open>dirruns\<close> are compared as prefixes.\<close>

definition same_key :: "nat \<Rightarrow> nat \<times> nat \<Rightarrow> sz_mark option \<Rightarrow> bool" where
  "same_key n k m \<longleftrightarrow> m = Some (KeyMark n (fst k) (snd k))"

definition same_dir :: "nat \<Rightarrow> nat \<times> nat \<Rightarrow> sz_mark option \<Rightarrow> bool" where
  "same_dir n k m = (case m of Some (KeyMark n' r c) \<Rightarrow> n' = n \<and> prefix (nat_dec (fst k)) (nat_dec r) | _ \<Rightarrow> False)"

text \<open>The loop of a combinator of any distance; \<open>k\<close> is \<open>dirruns\<close> and \<open>cachedruns\<close>.\<close>

fun climb_run :: "(nat \<Rightarrow> sz_state \<Rightarrow> bool \<times> sz_state) \<Rightarrow> nat \<Rightarrow> nat \<times> nat \<Rightarrow> nat list \<Rightarrow> sz_state \<Rightarrow> bool \<times> sz_state" where
  "climb_run f n k [] s = (False, s)"
| "climb_run f n k (e # es) s =
     (if same_key n k (sz_marks s (Some e)) then (truthy_set (sz_sets s e), s)
      else if same_dir n k (sz_marks s (Some e)) then (if truthy_set (sz_sets s e) then (True, s) else climb_run f n k es s)
      else case f e (put_mark (Some e) (KeyMark n (fst k) (snd k)) s) of
             (True, t) \<Rightarrow> (True, put_set e (Flag True) t)
           | (False, t) \<Rightarrow> climb_run f n k es (put_set e (Flag False) t))"

definition first_run :: "(nat \<Rightarrow> sz_state \<Rightarrow> bool \<times> sz_state) \<Rightarrow> nat list \<Rightarrow> sz_state \<Rightarrow> bool \<times> sz_state" where
  "first_run f es s = (case es of [] \<Rightarrow> (False, s) | e # _ \<Rightarrow> f e s)"

definition comb_run :: "sz_comb \<Rightarrow> (nat \<Rightarrow> sz_state \<Rightarrow> bool \<times> sz_state) \<Rightarrow> nat \<Rightarrow> nat \<times> nat \<Rightarrow> nat list \<Rightarrow> sz_state \<Rightarrow> bool \<times> sz_state" where
  "comb_run c f n k es s = (if c = Descendant \<or> c = Sibling then climb_run f n k es s else first_run f es s)"

function (sequential) exec_matcher :: "sz_doc \<Rightarrow> nat option \<Rightarrow> nat \<times> nat \<Rightarrow> matcher \<Rightarrow> nat \<Rightarrow> sz_state \<Rightarrow> bool \<times> sz_state"
  and exec_any :: "sz_doc \<Rightarrow> nat option \<Rightarrow> nat \<times> nat \<Rightarrow> matcher list \<Rightarrow> nat \<Rightarrow> sz_state \<Rightarrow> bool \<times> sz_state" where
  "exec_matcher d ctx k (Test f) e s = (filter_test f d e, s)"
| "exec_matcher d ctx k (Nth n a b) e s = nth_run d n a b e s"
| "exec_matcher d ctx k (Not ms) e s = (case exec_any d ctx k ms e s of (b, t) \<Rightarrow> (\<not> b, t))"
| "exec_matcher d ctx k (Both higher deeper) e s =
     (case exec_matcher d ctx k deeper e s of (b, t) \<Rightarrow> if b then exec_matcher d ctx k higher e t else (False, t))"
| "exec_matcher d ctx k (Climb n c m) e s = comb_run c (exec_matcher d ctx k m) n k (comb_path c d e) s"
| "exec_matcher d ctx k (ToContext n c) e s = comb_run c (\<lambda>x t. (ctx = Some x, t)) n k (comb_path c d e) s"
| "exec_any d ctx k [] e s = (False, s)"
| "exec_any d ctx k (m # ms) e s = (case exec_matcher d ctx k m e s of (b, t) \<Rightarrow> if b then (True, t) else exec_any d ctx k ms e t)"
  by pat_completeness auto
termination
  by (relation "measure (case_sum (\<lambda>(_, _, _, m, _). size m) (\<lambda>(_, _, _, ms, _). size_list size ms))") auto

text \<open>A compiled selector, with its counters; the loop of \<open>select\<close> over the elements it is given.\<close>

record sz_compiled =
  cp_matchers :: "matcher list"
  cp_context :: "nat option"
  cp_runs :: nat
  cp_dirruns :: nat

definition sz_compile :: "sz_token list list \<Rightarrow> nat option \<Rightarrow> nat \<Rightarrow> sz_compiled \<times> nat" where
  "sz_compile gs ctx n = (case compile_groups gs n of (ms, n') \<Rightarrow> (\<lparr>cp_matchers = ms, cp_context = ctx, cp_runs = 0, cp_dirruns = 0\<rparr>, n'))"

fun select_loop :: "sz_doc \<Rightarrow> nat \<Rightarrow> nat list \<Rightarrow> sz_compiled \<Rightarrow> sz_state \<Rightarrow> nat list \<times> sz_compiled \<times> sz_state" where
  "select_loop d r [] c s = ([], c, s)"
| "select_loop d r (e # es) c s =
     (case exec_any d (cp_context c) (r, cp_runs c) (cp_matchers c) e s of
        (b, t) \<Rightarrow> (case select_loop d r es (c\<lparr>cp_runs := Suc (cp_runs c)\<rparr>) t of (xs, c', u) \<Rightarrow> (if b then e # xs else xs, c', u)))"

definition sz_select :: "sz_doc \<Rightarrow> nat list \<Rightarrow> sz_compiled \<Rightarrow> sz_state \<Rightarrow> nat list \<times> sz_compiled \<times> sz_state" where
  "sz_select d es c s = select_loop d (cp_dirruns c) es (c\<lparr>cp_dirruns := Suc (cp_dirruns c)\<rparr>) s"

definition no_state :: sz_state where
  "no_state = \<lparr>sz_marks = (\<lambda>_. None), sz_sets = (\<lambda>_. None)\<rparr>"

section \<open>What a matcher means\<close>

definition ends_at :: "nat option \<Rightarrow> nat \<Rightarrow> bool" where
  "ends_at ctx x \<longleftrightarrow> ctx = Some x"

function (sequential) sem :: "sz_doc \<Rightarrow> nat option \<Rightarrow> matcher \<Rightarrow> nat \<Rightarrow> bool" where
  "sem d ctx (Test f) e = filter_test f d e"
| "sem d ctx (Nth n a b) e = nth_test a b (child_index d e)"
| "sem d ctx (Not ms) e = (\<not> list_ex (\<lambda>m. sem d ctx m e) ms)"
| "sem d ctx (Both higher deeper) e = (sem d ctx deeper e \<and> sem d ctx higher e)"
| "sem d ctx (Climb n c m) e = list_ex (sem d ctx m) (comb_path c d e)"
| "sem d ctx (ToContext n c) e = list_ex (ends_at ctx) (comb_path c d e)"
  by pat_completeness auto
termination by (relation "measure (\<lambda>(_, _, m, _). size m)") (auto dest: size_list_estimation' [where f = size])

lemma means_simps:
  "means d ctx [] e" "means d ctx (Filter f # ts) e = (filter_test f d e \<and> means d ctx ts e)"
  "means d ctx (NthChild a b # ts) e = (nth_test a b (child_index d e) \<and> means d ctx ts e)"
  "means d ctx (NotAny gs # ts) e = (\<not> means_group d ctx gs e \<and> means d ctx ts e)"
  "means d ctx [Comb c] e = list_ex (ends_at ctx) (comb_path c d e)"
  "ts \<noteq> [] \<Longrightarrow> means d ctx (Comb c # ts) e = list_ex (means d ctx ts) (comb_path c d e)"
  by (simp_all add: means.simps means_group_def ends_at_def [abs_def])

text \<open>Compiling keeps the meaning.\<close>

definition holds_for :: "sz_doc \<Rightarrow> nat option \<Rightarrow> sz_token list \<Rightarrow> matcher option \<Rightarrow> bool" where
  "holds_for d ctx us m \<longleftrightarrow> (case m of None \<Rightarrow> us = [] | Some x \<Rightarrow> us \<noteq> [] \<and> (\<forall>e. sem d ctx x e = means d ctx (rev us) e))"

fun no_empty :: "sz_token list \<Rightarrow> bool" where
  "no_empty [] = True"
| "no_empty (NotAny gs # ts) = (list_all (\<lambda>g. g \<noteq> [] \<and> no_empty g) gs \<and> no_empty ts)"
| "no_empty (t # ts) = no_empty ts"

lemma holds_add: "holds_for d ctx us m \<Longrightarrow> (\<And>e. sem d ctx x e = means d ctx [t] e) \<Longrightarrow> \<forall>c. t \<noteq> Comb c \<Longrightarrow> holds_for d ctx (us @ [t]) (Some (addMatcher m x))"
  by (cases m; cases t) (simp_all add: holds_for_def addMatcher_def means_simps)

lemma holds_comb: "holds_for d ctx us m \<Longrightarrow> holds_for d ctx (us @ [Comb c]) (Some (addCombinator m c n))"
proof (cases m)
  case None
  then show "holds_for d ctx us m \<Longrightarrow> ?thesis" by (simp add: holds_for_def addCombinator_def means_simps)
next
  case (Some x)
  assume h: "holds_for d ctx us m"
  then have "sem d ctx x = means d ctx (rev us)" using Some by (simp add: holds_for_def fun_eq_iff)
  then show ?thesis using h Some by (simp add: holds_for_def addCombinator_def means_simps)
qed

lemma compile_means:
  "holds_for d ctx us m \<Longrightarrow> no_empty ts \<Longrightarrow> holds_for d ctx (us @ ts) (fst (compile_tokens ts m n))"
  "list_all (\<lambda>g. g \<noteq> [] \<and> no_empty g) gs \<Longrightarrow> list_ex (\<lambda>x. sem d ctx x e) (fst (compile_groups gs n)) = means_group d ctx gs e"
proof (induction ts m n and gs n arbitrary: us and e rule: compile_tokens_compile_groups.induct)
  case (1 m n)
  then show ?case by simp
next
  case (2 c ts m n)
  have "holds_for d ctx ((us @ [Comb c]) @ ts) (fst (compile_tokens ts (Some (addCombinator m c n)) (Suc n)))"
    using 2 by (intro "2.IH" holds_comb) simp_all
  then show ?case by simp
next
  case (3 f ts m n)
  have "holds_for d ctx ((us @ [Filter f]) @ ts) (fst (compile_tokens ts (Some (addMatcher m (Test f))) n))"
    using 3 by (intro "3.IH" holds_add) (simp_all add: means_simps)
  then show ?case by simp
next
  case (4 a b ts m n)
  have "holds_for d ctx ((us @ [NthChild a b]) @ ts) (fst (compile_tokens ts (Some (addMatcher m (Nth n a b))) (Suc n)))"
    using 4 by (intro "4.IH" holds_add) (simp_all add: means_simps)
  then show ?case by simp
next
  case (5 gs ts m n)
  obtain ms n' where c: "compile_groups gs n = (ms, n')" by (cases "compile_groups gs n")
  have "list_ex (\<lambda>x. sem d ctx x e) ms = means_group d ctx gs e" for e
    using "5.IH"(1) "5.prems"(2) c by simp
  then have "holds_for d ctx ((us @ [NotAny gs]) @ ts) (fst (compile_tokens ts (Some (addMatcher m (Not ms))) n'))"
    using 5 c by (intro "5.IH"(2) [OF c [symmetric]] holds_add) (simp_all add: means_simps)
  then show ?case by (simp add: c)
next
  case (6 n)
  then show ?case by (simp add: means_group_def)
next
  case (7 g gs n)
  obtain m n' where c: "compile_tokens g None n = (m, n')" by (cases "compile_tokens g None n")
  have "holds_for d ctx ([] @ g) (fst (compile_tokens g None n))" using "7.prems" by (intro "7.IH"(1)) (simp_all add: holds_for_def)
  then obtain x where x: "m = Some x" "\<And>e. sem d ctx x e = means d ctx (rev g) e"
    using "7.prems" c by (cases m) (auto simp: holds_for_def)
  obtain ms n'' where c': "compile_groups gs n' = (ms, n'')" by (cases "compile_groups gs n'")
  have "list_ex (\<lambda>x. sem d ctx x e) ms = means_group d ctx gs e"
    using "7.IH"(3) [OF c [symmetric] x(1)] "7.prems" c' by simp
  then show ?case using x c c' by (simp add: means_group_def)
qed

section \<open>The cached combinators\<close>

definition cached :: "sz_comb \<Rightarrow> bool" where
  "cached c \<longleftrightarrow> c = Descendant \<or> c = Sibling"

text \<open>The numbers of the combinators with a cache, with what each looks for.\<close>

type_synonym comb_table = "(nat \<times> (sz_comb \<times> (nat \<Rightarrow> bool))) list"

function (sequential) combs_of :: "sz_doc \<Rightarrow> nat option \<Rightarrow> matcher \<Rightarrow> comb_table" where
  "combs_of d ctx (Both h m) = combs_of d ctx h @ combs_of d ctx m"
| "combs_of d ctx (Climb n c m) = (if cached c then [(n, c, sem d ctx m)] else []) @ combs_of d ctx m"
| "combs_of d ctx (ToContext n c) = (if cached c then [(n, c, ends_at ctx)] else [])"
| "combs_of d ctx m = []"
  by pat_completeness auto
termination by (relation "measure (\<lambda>(_, _, m). size m)") auto

text \<open>Matchers that touch no cache, and those whose filters touch none.\<close>

function (sequential) direct :: "matcher \<Rightarrow> bool" where
  "direct (Test f) = True"
| "direct (Nth n a b) = False"
| "direct (Not ms) = list_all direct ms"
| "direct (Both h m) = (direct h \<and> direct m)"
| "direct (Climb n c m) = (\<not> cached c \<and> direct m)"
| "direct (ToContext n c) = (\<not> cached c)"
  by pat_completeness auto
termination by (relation "measure size") (auto dest: size_list_estimation' [where f = size])

fun simple :: "matcher \<Rightarrow> bool" where
  "simple (Both h m) = (simple h \<and> direct m)"
| "simple (Climb n c m) = simple m"
| "simple (ToContext n c) = True"
| "simple m = direct m"

lemma take_one: "take (Suc 0) xs = a # l \<longleftrightarrow> l = [] \<and> xs \<noteq> [] \<and> a = hd xs"
  by (cases xs) auto

lemma direct_runs:
  "direct m \<Longrightarrow> exec_matcher d ctx k m e s = (sem d ctx m e, s)"
  "list_all direct ms \<Longrightarrow> exec_any d ctx k ms e s = (list_ex (\<lambda>m. sem d ctx m e) ms, s)"
proof (induction d ctx k m e s and d ctx k ms e s rule: exec_matcher_exec_any.induct)
  case (5 d ctx k n c m e s)
  then show ?case by (cases "comb_path c d e") (auto simp: comb_run_def cached_def first_run_def comb_path_def take_one split: sz_comb.splits)
next
  case (6 d ctx k n c e s)
  then show ?case by (cases "comb_path c d e") (auto simp: comb_run_def cached_def first_run_def comb_path_def ends_at_def take_one split: sz_comb.splits)
qed (auto split: prod.splits)

text \<open>
  What the cache says of the elements before \<open>e\<close>, in the run \<open>(r, c)\<close>: entries of this \<open>dirruns\<close> are right; and those that this
  very run made, being false, are on ways that have no match further on.
\<close>

definition right_below :: "comb_table \<Rightarrow> nat \<times> nat \<Rightarrow> nat \<Rightarrow> sz_state \<Rightarrow> bool" where
  "right_below P k e s \<longleftrightarrow> (\<forall>x < e. \<forall>n r c v. sz_marks s (Some x) = Some (KeyMark n r c) \<and> map_of P n = Some v \<and> prefix (nat_dec (fst k)) (nat_dec r)
     \<longrightarrow> r = fst k \<and> c \<le> snd k \<and> sz_sets s x = Some (Flag (snd v x)))"

definition failed_below :: "sz_doc \<Rightarrow> comb_table \<Rightarrow> nat \<times> nat \<Rightarrow> nat \<Rightarrow> sz_state \<Rightarrow> bool" where
  "failed_below d P k e s \<longleftrightarrow> (\<forall>x < e. \<forall>n v. sz_marks s (Some x) = Some (KeyMark n (fst k) (snd k)) \<and> map_of P n = Some v
     \<and> sz_sets s x = Some (Flag False) \<longrightarrow> \<not> list_ex (snd v) (comb_path (fst v) d x))"

definition same_from :: "nat \<Rightarrow> sz_state \<Rightarrow> sz_state \<Rightarrow> bool" where
  "same_from e s t \<longleftrightarrow> (\<forall>x \<ge> e. sz_marks t (Some x) = sz_marks s (Some x) \<and> sz_sets t x = sz_sets s x)"

definition runs_ok :: "sz_doc \<Rightarrow> comb_table \<Rightarrow> nat \<times> nat \<Rightarrow> (nat \<Rightarrow> sz_state \<Rightarrow> bool \<times> sz_state) \<Rightarrow> (nat \<Rightarrow> bool) \<Rightarrow> bool" where
  "runs_ok d P k f p \<longleftrightarrow> (\<forall>e s. right_below P k e s \<and> failed_below d P k e s
     \<longrightarrow> (\<exists>t. f e s = (p e, t) \<and> same_from e s t \<and> right_below P k e t \<and> (\<not> p e \<longrightarrow> failed_below d P k e t)))"

lemma right_belowD: "right_below P k e s \<Longrightarrow> x < e \<Longrightarrow> sz_marks s (Some x) = Some (KeyMark n r c) \<Longrightarrow> map_of P n = Some v
  \<Longrightarrow> prefix (nat_dec (fst k)) (nat_dec r) \<Longrightarrow> r = fst k \<and> c \<le> snd k \<and> sz_sets s x = Some (Flag (snd v x))"
  unfolding right_below_def by blast

lemma failed_belowD: "failed_below d P k e s \<Longrightarrow> x < e \<Longrightarrow> sz_marks s (Some x) = Some (KeyMark n (fst k) (snd k)) \<Longrightarrow> map_of P n = Some v
  \<Longrightarrow> sz_sets s x = Some (Flag False) \<Longrightarrow> \<not> list_ex (snd v) (comb_path (fst v) d x)"
  unfolding failed_below_def by blast

lemma right_mono: "right_below P k e s \<Longrightarrow> x \<le> e \<Longrightarrow> right_below P k x s"
  unfolding right_below_def by (meson order.strict_trans2)

lemma failed_mono: "failed_below d P k e s \<Longrightarrow> x \<le> e \<Longrightarrow> failed_below d P k x s"
  unfolding failed_below_def by (meson order.strict_trans2)

lemma right_lift: "right_below P k e s \<Longrightarrow> same_from x s t \<Longrightarrow> right_below P k x t \<Longrightarrow> right_below P k e t"
  unfolding right_below_def same_from_def by (metis not_le)

lemma failed_lift: "failed_below d P k e s \<Longrightarrow> same_from x s t \<Longrightarrow> failed_below d P k x t \<Longrightarrow> failed_below d P k e t"
  unfolding failed_below_def same_from_def by (metis not_le)

lemma same_mono: "same_from x s t \<Longrightarrow> x \<le> e \<Longrightarrow> same_from e s t"
  by (simp add: same_from_def)

lemma path_less: "x \<in> set (climb_path dir d e) \<Longrightarrow> x < e"
proof (induction dir d e rule: climb_path.induct)
  case (1 dir d e)
  obtain p where p: "dir (d ! e) = Some p" "p < e" "x = p \<or> x \<in> set (climb_path dir d p)"
    using 1(2) climb_path.simps [of dir d e] by (auto split: option.splits if_splits)
  then show ?case using 1(1) [OF p(1,2)] by auto
qed

lemma path_step: "climb_path dir d e = x # xs \<Longrightarrow> xs = climb_path dir d x"
  by (subst (asm) climb_path.simps) (simp split: option.splits if_splits)

text \<open>A run never meets the key of another \<open>dirruns\<close> before its own.\<close>

lemma digit_prefix: "prefix (nat_dec a) (nat_dec b) \<Longrightarrow> a \<le> b"
proof (induction b rule: nat_dec.induct)
  case (1 b)
  show ?case
  proof (cases "b < 10")
    case True
    then have "nat_dec b = [digit b]" by (rule nat_dec_small)
    then have "nat_dec a = nat_dec b" using 1(2) nat_dec_nonempty(1) [of a] by (cases "nat_dec a") auto
    then show ?thesis by (simp add: nat_dec_inject)
  next
    case False
    then have b: "nat_dec b = nat_dec (b div 10) @ [digit (b mod 10)]" by (subst nat_dec.simps) simp
    from 1(2) consider "nat_dec a = nat_dec b" | "prefix (nat_dec a) (nat_dec (b div 10))" unfolding b by (auto simp: prefix_snoc)
    then show ?thesis
    proof cases
      case 1
      then show ?thesis by (simp add: nat_dec_inject)
    next
      case 2
      then have "a \<le> b div 10" by (rule "1.IH" [OF False])
      then show ?thesis using div_le_dividend le_trans by blast
    qed
  qed
qed

lemma put_simps [simp]:
  "sz_marks (put_set x v s) = sz_marks s" "sz_sets (put_mark p m s) = sz_sets s"
  "sz_marks (put_mark p m s) q = (if q = p then Some m else sz_marks s q)" "sz_sets (put_set x v s) y = (if y = x then Some v else sz_sets s y)"
  by (simp_all add: put_set_def put_mark_def)

text \<open>One element of the way: its mark, the matcher on it, its result.\<close>

lemma climb_step:
  assumes "runs_ok d P k f p" "map_of P n = Some (c, p)" "x < e" "right_below P k e s" "failed_below d P k e s"
  defines "s1 \<equiv> put_mark (Some x) (KeyMark n (fst k) (snd k)) s"
  shows "\<exists>t. f x s1 = (p x, t) \<and> sz_marks t (Some x) = Some (KeyMark n (fst k) (snd k))
    \<and> same_from e s (put_set x (Flag (p x)) t) \<and> right_below P k e (put_set x (Flag (p x)) t)
    \<and> (\<not> p x \<longrightarrow> failed_below d P k x (put_set x (Flag (p x)) t))
    \<and> (\<forall>y > x. sz_marks t (Some y) = sz_marks s (Some y) \<and> sz_sets t y = sz_sets s y)"
proof -
  have le: "x \<le> e" using assms(3) by simp
  have r1: "right_below P k x s1" using right_mono [OF assms(4) le] by (auto simp: s1_def right_below_def)
  have f1: "failed_below d P k x s1" using failed_mono [OF assms(5) le] by (auto simp: s1_def failed_below_def)
  obtain t where t: "f x s1 = (p x, t)" "same_from x s1 t" "right_below P k x t" "\<not> p x \<longrightarrow> failed_below d P k x t"
    using assms(1) r1 f1 unfolding runs_ok_def by blast
  have m: "sz_marks t (Some x) = Some (KeyMark n (fst k) (snd k))" using t(2) by (simp add: same_from_def s1_def)
  have later: "sz_marks t (Some y) = sz_marks s (Some y) \<and> sz_sets t y = sz_sets s y" if "x < y" for y
    using t(2) that by (simp add: same_from_def s1_def)
  have "same_from e s (put_set x (Flag (p x)) t)" using later assms(3) by (auto simp: same_from_def)
  moreover have "right_below P k e (put_set x (Flag (p x)) t)"
    unfolding right_below_def
  proof (intro allI impI)
    fix y n' r c' v
    assume y: "y < e" and a: "sz_marks (put_set x (Flag (p x)) t) (Some y) = Some (KeyMark n' r c') \<and> map_of P n' = Some v \<and> prefix (nat_dec (fst k)) (nat_dec r)"
    consider "y < x" | "y = x" | "x < y" by linarith
    then show "r = fst k \<and> c' \<le> snd k \<and> sz_sets (put_set x (Flag (p x)) t) y = Some (Flag (snd v y))"
    proof cases
      case 1
      then show ?thesis using right_belowD [OF t(3) 1] a by simp
    next
      case 2
      then show ?thesis using a m assms(2) by auto
    next
      case 3
      then show ?thesis using right_belowD [OF assms(4) y] a later [OF 3] by simp
    qed
  qed
  moreover have "failed_below d P k x (put_set x (Flag (p x)) t)" if "\<not> p x" using t(4) that by (auto simp: failed_below_def)
  ultimately show ?thesis using t(1) m later by blast
qed

lemma climb_ok:
  assumes "runs_ok d P k f p" "map_of P n = Some (c, p)" "\<And>x. comb_path c d x = climb_path dir d x"
    "es = climb_path dir d x0" "\<forall>y \<in> set es. y < e" "right_below P k e s" "failed_below d P k e s"
  shows "\<exists>t. climb_run f n k es s = (list_ex p es, t) \<and> same_from e s t \<and> right_below P k e t \<and> (\<not> list_ex p es \<longrightarrow> failed_below d P k e t)"
  using assms(4-7)
proof (induction es arbitrary: x0 e s)
  case Nil
  then show ?case by (simp add: same_from_def)
next
  case (Cons x xs)
  have xs: "xs = climb_path dir d x" using path_step Cons.prems(1) by metis
  have x: "x < e" "\<forall>y \<in> set xs. y < x" using Cons.prems(2) path_less [of _ dir d x] xs by auto
  let ?m = "sz_marks s (Some x)"
  show ?case
  proof (cases "same_dir n k ?m \<or> same_key n k ?m")
    case True
    then obtain r c' where m: "?m = Some (KeyMark n r c')" "prefix (nat_dec (fst k)) (nat_dec r)"
      by (auto simp: same_dir_def same_key_def split: option.splits sz_mark.splits)
    then have v: "r = fst k" "sz_sets s x = Some (Flag (p x))"
      using right_belowD [OF Cons.prems(3) x(1) m(1) assms(2) m(2)] by simp_all
    show ?thesis
    proof (cases "p x")
      case True
      then have "climb_run f n k (x # xs) s = (True, s)" using v m by (auto simp: truthy_set_def same_dir_def)
      then show ?thesis using True Cons.prems(3) by (simp add: same_from_def)
    next
      case np: False
      show ?thesis
      proof (cases "same_key n k ?m")
        case True
        then have "\<not> list_ex p (comb_path c d x)"
          using failed_belowD [OF Cons.prems(4) x(1) _ assms(2)] v np by (simp add: same_key_def)
        then have "\<not> list_ex p xs" using assms(3) xs by simp
        then show ?thesis using True v np Cons.prems(3,4) by (simp add: truthy_set_def same_from_def)
      next
        case False
        then have c: "climb_run f n k (x # xs) s = climb_run f n k xs s" using v np m by (simp add: truthy_set_def same_dir_def)
        show ?thesis using Cons.IH [OF xs _ Cons.prems(3,4)] x Cons.prems(2) np unfolding c by simp
      qed
    qed
  next
    case False
    obtain t where t: "f x (put_mark (Some x) (KeyMark n (fst k) (snd k)) s) = (p x, t)" "sz_marks t (Some x) = Some (KeyMark n (fst k) (snd k))"
      "same_from e s (put_set x (Flag (p x)) t)" "right_below P k e (put_set x (Flag (p x)) t)"
      "\<not> p x \<longrightarrow> failed_below d P k x (put_set x (Flag (p x)) t)"
      "\<forall>y > x. sz_marks t (Some y) = sz_marks s (Some y) \<and> sz_sets t y = sz_sets s y"
      using climb_step [OF assms(1,2) x(1) Cons.prems(3,4)] by blast
    let ?t = "put_set x (Flag (p x)) t"
    show ?thesis
    proof (cases "p x")
      case True
      then show ?thesis using t(1,3,4) False by simp
    next
      case np: False
      obtain u where u: "climb_run f n k xs ?t = (list_ex p xs, u)" "same_from x ?t u" "right_below P k x u" "\<not> list_ex p xs \<longrightarrow> failed_below d P k x u"
        using Cons.IH [OF xs x(2) right_mono [OF t(4)] mp [OF t(5) np]] x(1) by auto
      have mu: "sz_marks u (Some y) = sz_marks ?t (Some y) \<and> sz_sets u y = sz_sets ?t y" if "x \<le> y" for y
        using u(2) that by (simp add: same_from_def)
      have "failed_below d P k e u" if nx: "\<not> list_ex p xs"
        unfolding failed_below_def
      proof (intro allI impI)
        fix y n' v
        assume y: "y < e" and a: "sz_marks u (Some y) = Some (KeyMark n' (fst k) (snd k)) \<and> map_of P n' = Some v \<and> sz_sets u y = Some (Flag False)"
        consider "y < x" | "y = x" | "x < y" by linarith
        then show "\<not> list_ex (snd v) (comb_path (fst v) d y)"
        proof cases
          case 1
          then show ?thesis using failed_belowD [OF mp [OF u(4) nx] 1] a by simp
        next
          case 2
          then have "v = (c, p)" using a mu [of x] t(2) assms(2) by auto
          then show ?thesis using 2 nx assms(3) xs by simp
        next
          case 3
          then show ?thesis using failed_belowD [OF Cons.prems(4) y] a mu [of y] t(6) by simp
        qed
      qed
      moreover have "same_from e s u" using t(3) mu x(1) by (auto simp: same_from_def)
      moreover have "right_below P k e u" by (rule right_lift [OF t(4) u(2,3)])
      moreover have "climb_run f n k (x # xs) s = (list_ex p xs, u)" using t(1) np u(1) False by simp
      ultimately show ?thesis using np by simp
    qed
  qed
qed

lemma runs_direct: "(\<And>e s. f e s = (p e, s)) \<Longrightarrow> runs_ok d P k f p"
  by (simp add: runs_ok_def same_from_def)

lemma runs_okD: "runs_ok d P k f p \<Longrightarrow> right_below P k e s \<Longrightarrow> failed_below d P k e s
  \<Longrightarrow> \<exists>t. f e s = (p e, t) \<and> same_from e s t \<and> right_below P k e t \<and> (\<not> p e \<longrightarrow> failed_below d P k e t)"
  by (simp add: runs_ok_def)

lemma cached_path: "cached c \<Longrightarrow> \<exists>dir. \<forall>x. comb_path c d x = climb_path dir d x"
  by (auto simp: cached_def comb_path_def)

lemma comb_less: "x \<in> set (comb_path c d e) \<Longrightarrow> x < e"
  by (auto simp: comb_path_def dest!: in_set_takeD path_less split: sz_comb.splits)

text \<open>A combinator over a matcher that runs well.\<close>

lemma runs_comb:
  assumes "runs_ok d P k f p" "cached c \<Longrightarrow> map_of P n = Some (c, p)"
  shows "runs_ok d P k (\<lambda>e. comb_run c f n k (comb_path c d e)) (\<lambda>e. list_ex p (comb_path c d e))"
  unfolding runs_ok_def
proof (intro allI impI)
  fix e s
  assume s: "right_below P k e s \<and> failed_below d P k e s"
  let ?G = "\<lambda>r. \<exists>t. r = (list_ex p (comb_path c d e), t) \<and> same_from e s t \<and> right_below P k e t \<and> (\<not> list_ex p (comb_path c d e) \<longrightarrow> failed_below d P k e t)"
  show "?G (comb_run c f n k (comb_path c d e) s)"
  proof (cases "cached c")
    case True
    then obtain dir where dir: "\<And>x. comb_path c d x = climb_path dir d x" using cached_path by metis
    have "\<forall>y \<in> set (comb_path c d e). y < e" using comb_less by blast
    with climb_ok [OF assms(1) assms(2) [OF True] dir dir, of e e s] s True show ?thesis by (simp add: comb_run_def cached_def)
  next
    case False
    then have c: "comb_run c f n k es s = first_run f es s" for es by (simp add: comb_run_def cached_def)
    obtain xs where path: "comb_path c d e = take 1 xs" using False by (cases c) (auto simp: comb_path_def cached_def)
    show ?thesis
    proof (cases "comb_path c d e")
      case Nil
      then show ?thesis using s by (simp add: c first_run_def same_from_def)
    next
      case (Cons x es)
      then have es: "es = []" using path by (cases xs) simp_all
      have x: "x < e" using comb_less [of x c d e] Cons by simp
      then have le: "x \<le> e" by simp
      obtain t where t: "f x s = (p x, t)" "same_from x s t" "right_below P k x t" "\<not> p x \<longrightarrow> failed_below d P k x t"
        using runs_okD [OF assms(1) right_mono [OF conjunct1 [OF s] le] failed_mono [OF conjunct2 [OF s] le]] by blast
      have "same_from e s t" "right_below P k e t" "\<not> p x \<longrightarrow> failed_below d P k e t"
        using same_mono [OF t(2) le] right_lift [OF conjunct1 [OF s] t(2,3)] failed_lift [OF conjunct2 [OF s] t(2)] t(4) by blast+
      then show ?thesis using t(1) Cons es by (simp add: c first_run_def)
    qed
  qed
qed

definition keyed :: "comb_table \<Rightarrow> comb_table \<Rightarrow> bool" where
  "keyed P Q \<longleftrightarrow> (\<forall>(n, v) \<in> set Q. map_of P n = Some v)"

lemma exec_ok: "simple m \<Longrightarrow> keyed P (combs_of d ctx m) \<Longrightarrow> runs_ok d P k (exec_matcher d ctx k m) (sem d ctx m)"
proof (induction m)
  case (Both h m)
  have h: "runs_ok d P k (exec_matcher d ctx k h) (sem d ctx h)" using Both by (intro Both.IH(1)) (auto simp: keyed_def)
  have m: "exec_matcher d ctx k m e s = (sem d ctx m e, s)" for e s using Both.prems(1) direct_runs(1) by simp
  have "exec_matcher d ctx k (Both h m) e s = (if sem d ctx m e then exec_matcher d ctx k h e s else (False, s))" for e s by (simp add: m)
  then show ?case using h by (auto simp: runs_ok_def same_from_def)
next
  case (Climb n c m)
  have "runs_ok d P k (exec_matcher d ctx k m) (sem d ctx m)" using Climb by (intro Climb.IH) (auto simp: keyed_def)
  moreover have "cached c \<Longrightarrow> map_of P n = Some (c, sem d ctx m)" using Climb.prems(2) by (auto simp: keyed_def)
  ultimately show ?case using runs_comb [of d P k "exec_matcher d ctx k m" "sem d ctx m" c n] by (simp add: runs_ok_def)
next
  case (ToContext n c)
  have "runs_ok d P k (\<lambda>x t. (ctx = Some x, t)) (ends_at ctx)" by (rule runs_direct) (simp add: ends_at_def)
  moreover have "cached c \<Longrightarrow> map_of P n = Some (c, ends_at ctx)" using ToContext.prems(2) by (auto simp: keyed_def)
  ultimately show ?case using runs_comb [of d P k "\<lambda>x t. (ctx = Some x, t)" "ends_at ctx" c n] by (simp add: runs_ok_def)
qed (auto intro!: runs_direct simp: direct_runs)

lemma any_ok:
  "list_all simple ms \<Longrightarrow> keyed P (concat (map (combs_of d ctx) ms)) \<Longrightarrow> runs_ok d P k (exec_any d ctx k ms) (\<lambda>e. list_ex (\<lambda>m. sem d ctx m e) ms)"
proof (induction ms)
  case Nil
  then show ?case by (simp add: runs_ok_def same_from_def)
next
  case (Cons m ms)
  have m: "runs_ok d P k (exec_matcher d ctx k m) (sem d ctx m)" using Cons.prems by (intro exec_ok) (auto simp: keyed_def)
  have ms: "runs_ok d P k (exec_any d ctx k ms) (\<lambda>e. list_ex (\<lambda>m. sem d ctx m e) ms)" using Cons by (auto simp: keyed_def)
  show ?case unfolding runs_ok_def
  proof (intro allI impI)
    fix e s
    assume s: "right_below P k e s \<and> failed_below d P k e s"
    obtain t where t: "exec_matcher d ctx k m e s = (sem d ctx m e, t)" "same_from e s t" "right_below P k e t" "\<not> sem d ctx m e \<longrightarrow> failed_below d P k e t"
      using runs_okD [OF m] s by blast
    let ?p = "list_ex (\<lambda>m. sem d ctx m e) (m # ms)"
    show "\<exists>t. exec_any d ctx k (m # ms) e s = (?p, t) \<and> same_from e s t \<and> right_below P k e t \<and> (\<not> ?p \<longrightarrow> failed_below d P k e t)"
    proof (cases "sem d ctx m e")
      case True
      then show ?thesis using t by simp
    next
      case False
      obtain u where "exec_any d ctx k ms e t = (list_ex (\<lambda>m. sem d ctx m e) ms, u)" "same_from e t u" "right_below P k e u"
        "\<not> list_ex (\<lambda>m. sem d ctx m e) ms \<longrightarrow> failed_below d P k e u"
        using runs_okD [OF ms t(3)] t(4) False by blast
      then show ?thesis using t(1,2) False by (auto simp: same_from_def)
    qed
  qed
qed

text \<open>The marks that a run leaves: its own keys and the numbers of \<open>:nth-child\<close>.\<close>

definition marks_of_run :: "nat \<times> nat \<Rightarrow> sz_state \<Rightarrow> sz_state \<Rightarrow> bool" where
  "marks_of_run k s t \<longleftrightarrow> (\<forall>p. sz_marks t p = sz_marks s p \<or> (\<exists>n. sz_marks t p = Some (KeyMark n (fst k) (snd k))) \<or> (\<exists>n. sz_marks t p = Some (NthMark n)))"

lemma marks_same: "sz_marks t = sz_marks s \<Longrightarrow> marks_of_run k s t"
  by (simp add: marks_of_run_def)

lemma marks_trans: "marks_of_run k s t \<Longrightarrow> marks_of_run k t u \<Longrightarrow> marks_of_run k s u"
  unfolding marks_of_run_def by metis

lemma climb_marks:
  assumes "\<And>e s. marks_of_run k s (snd (f e s))"
  shows "marks_of_run k s (snd (climb_run f n k es s))"
proof (induction es arbitrary: s)
  case (Cons e es)
  let ?s = "put_mark (Some e) (KeyMark n (fst k) (snd k)) s"
  obtain b t where t: "f e ?s = (b, t)" by (cases "f e ?s")
  have "marks_of_run k s ?s" by (simp add: marks_of_run_def)
  then have "marks_of_run k s t" using assms [of ?s e] t marks_trans by auto
  then have p: "marks_of_run k s (put_set e v t)" for v by (simp add: marks_of_run_def)
  have "marks_of_run k s (snd (climb_run f n k es (put_set e v t)))" for v using marks_trans [OF p Cons.IH] .
  then show ?case using t p Cons.IH by (cases b) (auto simp: marks_same)
qed (simp add: marks_same)

lemma comb_marks: "(\<And>e s. marks_of_run k s (snd (f e s))) \<Longrightarrow> marks_of_run k s (snd (comb_run c f n k es s))"
  by (cases es) (auto simp: comb_run_def first_run_def marks_same climb_marks simp del: climb_run.simps)

lemma number_marks: "sz_marks (number_children d e s) = sz_marks s"
proof -
  have "sz_marks (fold (\<lambda>(x, i) t. put_set x (Num i) t) xs s) = sz_marks s" for xs
    by (induction xs arbitrary: s) (auto simp: put_set_def)
  then show ?thesis by (simp add: number_children_def)
qed

lemma nth_marks: "marks_of_run k s (snd (nth_run d n a b e s))"
proof -
  let ?t = "if sz_marks s (se_parent (d ! e)) \<noteq> Some (NthMark n) \<or> \<not> truthy_set (sz_sets s e)
    then put_mark (se_parent (d ! e)) (NthMark n) (number_children d e s) else s"
  have "snd (nth_run d n a b e s) = s \<or> snd (nth_run d n a b e s) = ?t"
    by (auto simp: nth_run_def Let_def split: option.split sizset.split)
  moreover have "marks_of_run k s ?t" by (simp add: marks_of_run_def number_marks)
  ultimately show ?thesis using marks_same [of s s k] by auto
qed

lemma exec_marks:
  "marks_of_run k s (snd (exec_matcher d ctx k m e s))"
  "marks_of_run k s (snd (exec_any d ctx k ms e s))"
proof (induction d ctx k m e s and d ctx k ms e s rule: exec_matcher_exec_any.induct)
  case (4 d ctx k h m e s)
  then show ?case by (auto split: prod.splits intro: marks_trans)
next
  case (5 d ctx k n c m e s)
  then show ?case by (simp add: comb_marks)
next
  case (6 d ctx k n c e s)
  then show ?case by (simp add: comb_marks marks_same)
next
  case (8 d ctx k m ms e s)
  then show ?case by (auto split: prod.splits intro: marks_trans)
qed (auto simp: marks_same nth_marks split: prod.splits)

text \<open>Before a run: keys of this \<open>dirruns\<close> are of earlier runs and right.\<close>

definition runs_ready :: "comb_table \<Rightarrow> nat \<times> nat \<Rightarrow> sz_state \<Rightarrow> bool" where
  "runs_ready P k s \<longleftrightarrow> (\<forall>x n r c v. sz_marks s (Some x) = Some (KeyMark n r c) \<and> map_of P n = Some v \<and> prefix (nat_dec (fst k)) (nat_dec r)
     \<longrightarrow> r = fst k \<and> c < snd k \<and> sz_sets s x = Some (Flag (snd v x)))"

lemma ready_below: "runs_ready P k s \<Longrightarrow> right_below P k e s" "runs_ready P k s \<Longrightarrow> failed_below d P k e s"
proof -
  assume r: "runs_ready P k s"
  show "right_below P k e s" unfolding right_below_def using r unfolding runs_ready_def by (meson less_imp_le)
  show "failed_below d P k e s" unfolding failed_below_def
  proof (intro allI impI, elim conjE)
    fix x n v
    assume "sz_marks s (Some x) = Some (KeyMark n (fst k) (snd k))" "map_of P n = Some v"
    then have "snd k < snd k" using r unfolding runs_ready_def by blast
    then show "\<not> list_ex (snd v) (comb_path (fst v) d x)" by simp
  qed
qed

lemma below_ready:
  assumes "runs_ready P (r, c) s" "same_from e s t" "right_below P (r, c) e t"
  shows "runs_ready P (r, Suc c) t"
  unfolding runs_ready_def
proof (intro allI impI, elim conjE)
  fix x n r' c' v
  assume a: "sz_marks t (Some x) = Some (KeyMark n r' c')" "map_of P n = Some v" "prefix (nat_dec (fst (r, Suc c))) (nat_dec r')"
  show "r' = fst (r, Suc c) \<and> c' < snd (r, Suc c) \<and> sz_sets t x = Some (Flag (snd v x))"
  proof (cases "x < e")
    case True
    then show ?thesis using right_belowD [OF assms(3) True a(1,2)] a(3) by simp
  next
    case False
    then have "sz_marks s (Some x) = Some (KeyMark n r' c')" "sz_sets t x = sz_sets s x" using a(1) assms(2) by (simp_all add: same_from_def)
    note marks = this(1) and sets = this(2)
    have pre: "prefix (nat_dec (fst (r, c))) (nat_dec r')" using a(3) by simp
    have "r' = fst (r, c) \<and> c' < snd (r, c) \<and> sz_sets s x = Some (Flag (snd v x))" using assms(1) a(2) pre marks unfolding runs_ready_def by blast
    then show ?thesis using sets by simp
  qed
qed

lemma loop_ok:
  assumes "list_all simple (cp_matchers c)" "keyed P (concat (map (combs_of d (cp_context c)) (cp_matchers c)))" "runs_ready P (r, cp_runs c) s"
  shows "fst (select_loop d r es c s) = filter (\<lambda>e. list_ex (\<lambda>m. sem d (cp_context c) m e) (cp_matchers c)) es"
  using assms
proof (induction es arbitrary: c s)
  case (Cons e es)
  let ?p = "\<lambda>e. list_ex (\<lambda>m. sem d (cp_context c) m e) (cp_matchers c)"
  obtain t where t: "exec_any d (cp_context c) (r, cp_runs c) (cp_matchers c) e s = (?p e, t)" "same_from e s t" "right_below P (r, cp_runs c) e t"
    using runs_okD [OF any_ok [OF Cons.prems(1,2)] ready_below [OF Cons.prems(3)], of e] by blast
  have "fst (select_loop d r es (c\<lparr>cp_runs := Suc (cp_runs c)\<rparr>) t) = filter ?p es"
    using Cons.IH [of "c\<lparr>cp_runs := Suc (cp_runs c)\<rparr>" t] Cons.prems(1,2) below_ready [OF Cons.prems(3) t(2,3)] by simp
  then show ?case using t(1) by (auto split: prod.splits)
qed simp

lemma loop_counts: "cp_dirruns (fst (snd (select_loop d r es c s))) = cp_dirruns c
    \<and> cp_matchers (fst (snd (select_loop d r es c s))) = cp_matchers c \<and> cp_context (fst (snd (select_loop d r es c s))) = cp_context c"
proof (induction es arbitrary: c s)
  case (Cons e es)
  obtain b t where t: "exec_any d (cp_context c) (r, cp_runs c) (cp_matchers c) e s = (b, t)"
    by (cases "exec_any d (cp_context c) (r, cp_runs c) (cp_matchers c) e s")
  then show ?case using Cons.IH [of "c\<lparr>cp_runs := Suc (cp_runs c)\<rparr>" t] by (auto split: prod.splits)
qed simp

text \<open>Keys have a \<open>dirruns\<close> that is used up.\<close>

definition keys_before :: "comb_table \<Rightarrow> nat \<Rightarrow> sz_state \<Rightarrow> bool" where
  "keys_before P r s \<longleftrightarrow> (\<forall>x n r' c v. sz_marks s (Some x) = Some (KeyMark n r' c) \<and> map_of P n = Some v \<longrightarrow> r' < r)"

lemma keys_ready: "keys_before P r s \<Longrightarrow> runs_ready P (r, c) s"
  unfolding keys_before_def runs_ready_def using digit_prefix by (metis fst_conv not_le)

lemma loop_keys: "keys_before P (Suc r) s \<Longrightarrow> keys_before P (Suc r) (snd (snd (select_loop d r es c s)))"
proof (induction es arbitrary: c s)
  case (Cons e es)
  obtain b t where t: "exec_any d (cp_context c) (r, cp_runs c) (cp_matchers c) e s = (b, t)"
    by (cases "exec_any d (cp_context c) (r, cp_runs c) (cp_matchers c) e s")
  have m: "marks_of_run (r, cp_runs c) s t" using exec_marks(2) [of "(r, cp_runs c)" s d "cp_context c" "cp_matchers c" e] t by simp
  have "keys_before P (Suc r) t" unfolding keys_before_def
  proof (intro allI impI, elim conjE)
    fix x n r' c' v
    assume a: "sz_marks t (Some x) = Some (KeyMark n r' c')" "map_of P n = Some v"
    then consider "sz_marks s (Some x) = Some (KeyMark n r' c')" | "r' = r" using m unfolding marks_of_run_def by (metis fst_conv option.inject sz_mark.distinct(1) sz_mark.inject(2))
    then show "r' < Suc r"
    proof cases
      case 1
      then show ?thesis using Cons.prems a(2) unfolding keys_before_def by blast
    qed simp
  qed
  from Cons.IH [OF this, of "c\<lparr>cp_runs := Suc (cp_runs c)\<rparr>"] show ?case using t by (auto split: prod.splits)
qed simp

section \<open>The caches are invisible\<close>

text \<open>Selectors without \<open>:nth-child\<close> whose \<open>:not\<close> have no combinators of any distance.\<close>

fun direct_token :: "sz_token \<Rightarrow> bool" where
  "direct_token (Filter f) = True"
| "direct_token (NthChild a b) = False"
| "direct_token (NotAny gs) = list_all (\<lambda>g. g \<noteq> [] \<and> list_all direct_token g) gs"
| "direct_token (Comb c) = (\<not> cached c)"

fun plain_token :: "sz_token \<Rightarrow> bool" where
  "plain_token (Comb c) = True"
| "plain_token t = direct_token t"

lemma direct_no_empty: "list_all direct_token ts \<Longrightarrow> no_empty ts"
  by (induction ts rule: no_empty.induct) (auto simp: list_all_iff)

lemma plain_no_empty: "list_all plain_token ts \<Longrightarrow> no_empty ts"
proof (induction ts)
  case (Cons t ts)
  then show ?case using direct_no_empty [of "[t]"] by (cases t) auto
qed simp

lemma compile_direct:
  "list_all direct_token ts \<Longrightarrow> (\<And>x. m = Some x \<Longrightarrow> direct x) \<Longrightarrow> fst (compile_tokens ts m n) = Some x \<Longrightarrow> direct x"
  "list_all (\<lambda>g. g \<noteq> [] \<and> list_all direct_token g) gs \<Longrightarrow> list_all direct (fst (compile_groups gs n))"
proof (induction ts m n and gs n arbitrary: x and rule: compile_tokens_compile_groups.induct)
  case (5 gs ts m n)
  obtain ms n' where c: "compile_groups gs n = (ms, n')" by (cases "compile_groups gs n")
  have "list_all direct ms" using "5.IH"(1) "5.prems"(1) c by simp
  then show ?case using "5.IH"(2) [OF c [symmetric]] "5.prems" c by (auto simp: addMatcher_def split: option.splits)
next
  case (7 g gs n)
  obtain m n' where c: "compile_tokens g None n = (m, n')" by (cases "compile_tokens g None n")
  show ?case
  proof (cases m)
    case None
    then show ?thesis using c by simp
  next
    case (Some x)
    have d: "direct x" using "7.IH"(1) [of x] "7.prems" c Some by simp
    obtain ms n'' where c': "compile_groups gs n' = (ms, n'')" by (cases "compile_groups gs n'")
    have "list_all direct ms" using "7.IH"(3) [OF c [symmetric] Some] "7.prems" c' by simp
    then show ?thesis using c c' Some d by simp
  qed
qed (auto simp: addMatcher_def addCombinator_def split: option.splits)

text \<open>The numbers that \<open>done++\<close> gave to the combinators of a compiled selector.\<close>

definition nums_ok :: "sz_doc \<Rightarrow> nat option \<Rightarrow> nat \<Rightarrow> nat \<Rightarrow> matcher \<Rightarrow> bool" where
  "nums_ok d ctx n n' x \<longleftrightarrow> distinct (map fst (combs_of d ctx x)) \<and> (\<forall>i \<in> fst ` set (combs_of d ctx x). n \<le> i \<and> i < n') \<and> simple x"

lemma direct_simple: "direct x \<Longrightarrow> simple x \<and> combs_of d ctx x = []"
  by (induction x) auto

lemma nums_add: "(\<And>y. m = Some y \<Longrightarrow> nums_ok d ctx n0 n y) \<Longrightarrow> direct x \<Longrightarrow> nums_ok d ctx n0 n (addMatcher m x)"
  using direct_simple [of x] by (cases m) (auto simp: nums_ok_def addMatcher_def)

lemma nums_comb: "(\<And>y. m = Some y \<Longrightarrow> nums_ok d ctx n0 n y) \<Longrightarrow> n0 \<le> n \<Longrightarrow> nums_ok d ctx n0 (Suc n) (addCombinator m c n)"
  by (cases m) (force simp: nums_ok_def addCombinator_def)+

lemma nums_mono: "nums_ok d ctx n0 n x \<Longrightarrow> n \<le> n' \<Longrightarrow> nums_ok d ctx n0 n' x"
  by (force simp: nums_ok_def)

lemma compile_grows:
  "n \<le> snd (compile_tokens ts m n)" "n \<le> snd (compile_groups gs n)"
proof (induction ts m n and gs n rule: compile_tokens_compile_groups.induct)
  case (7 g gs n)
  then show ?case by (auto split: prod.splits option.splits)
qed (auto split: prod.splits)

lemma compile_nums:
  "list_all plain_token ts \<Longrightarrow> n0 \<le> n \<Longrightarrow> (\<And>y. m = Some y \<Longrightarrow> nums_ok d ctx n0 n y)
    \<Longrightarrow> fst (compile_tokens ts m n) = Some x \<Longrightarrow> nums_ok d ctx n0 (snd (compile_tokens ts m n)) x"
proof (induction ts arbitrary: m n)
  case (Cons t ts)
  show ?case
  proof (cases t)
    case (Filter f)
    then show ?thesis using Cons.IH [of n "Some (addMatcher m (Test f))"] Cons.prems nums_add [of m d ctx n0 n "Test f"] by simp
  next
    case (NotAny gs)
    obtain ms n' where c: "compile_groups gs n = (ms, n')" by (cases "compile_groups gs n")
    have "direct (Not ms)" using compile_direct(2) [of gs n] Cons.prems(1) NotAny c by simp
    moreover have n': "n \<le> n'" using compile_grows(2) [of n gs] c by simp
    ultimately have "nums_ok d ctx n0 n' (addMatcher m (Not ms))"
      using Cons.prems(3) nums_mono by (intro nums_add) auto
    then show ?thesis using Cons.IH [of n' "Some (addMatcher m (Not ms))"] Cons.prems n' NotAny c by simp
  next
    case (Comb c)
    have "nums_ok d ctx n0 (Suc n) (addCombinator m c n)" using Cons.prems by (intro nums_comb) auto
    then show ?thesis using Cons.IH [of "Suc n" "Some (addCombinator m c n)"] Cons.prems Comb by simp
  qed (use Cons.prems in simp)
qed simp

lemma groups_nums:
  assumes "list_all (\<lambda>g. g \<noteq> [] \<and> list_all plain_token g) gs"
  shows "list_all simple (fst (compile_groups gs n)) \<and> distinct (map fst (concat (map (combs_of d ctx) (fst (compile_groups gs n)))))
    \<and> (\<forall>i \<in> fst ` set (concat (map (combs_of d ctx) (fst (compile_groups gs n)))). n \<le> i)"
  using assms
proof (induction gs arbitrary: n)
  case (Cons g gs)
  obtain m n' where c: "compile_tokens g None n = (m, n')" by (cases "compile_tokens g None n")
  have "holds_for d ctx ([] @ g) (fst (compile_tokens g None n))"
    using Cons.prems(1) plain_no_empty by (intro compile_means(1)) (simp_all add: holds_for_def)
  then obtain x where x: "m = Some x" using c Cons.prems(1) by (cases m) (auto simp: holds_for_def)
  have nx: "nums_ok d ctx n n' x" using compile_nums [of g n n None d ctx x] Cons.prems(1) c x by simp
  have n': "n \<le> n'" using compile_grows(1) [of n g None] c by simp
  obtain ms n'' where c': "compile_groups gs n' = (ms, n'')" by (cases "compile_groups gs n'")
  have r: "list_all simple ms \<and> distinct (map fst (concat (map (combs_of d ctx) ms))) \<and> (\<forall>i \<in> fst ` set (concat (map (combs_of d ctx) ms)). n' \<le> i)"
    using Cons.IH [of n'] Cons.prems n' c' by simp
  then have "fst ` set (combs_of d ctx x) \<inter> fst ` set (concat (map (combs_of d ctx) ms)) = {}"
    using nx by (auto simp: nums_ok_def) (metis (no_types, lifting) UN_I fst_conv image_eqI leD set_concat set_map)
  then show ?case using r nx n' c c' x by (force simp: nums_ok_def)
qed simp

fun mark_number :: "sz_mark \<Rightarrow> nat" where
  "mark_number (NthMark n) = n"
| "mark_number (KeyMark n r c) = n"

definition marks_before :: "nat \<Rightarrow> sz_state \<Rightarrow> bool" where
  "marks_before n s \<longleftrightarrow> (\<forall>p m. sz_marks s p = Some m \<longrightarrow> mark_number m < n)"

text \<open>The compiled selector is used again and again, on documents that may have changed meanwhile.\<close>

fun select_many :: "(sz_doc \<times> nat list) list \<Rightarrow> sz_compiled \<Rightarrow> sz_state \<Rightarrow> nat list list" where
  "select_many [] c s = []"
| "select_many ((d, es) # calls) c s = (case sz_select d es c s of (xs, c', t) \<Rightarrow> xs # select_many calls c' t)"

lemma combs_numbers: "map fst (combs_of d ctx m) = map fst (combs_of d' ctx m)"
  by (induction m) auto

lemma select_many_ok:
  assumes "list_all simple (cp_matchers c)" "\<And>d. keyed (concat (map (combs_of d (cp_context c)) (cp_matchers c))) (concat (map (combs_of d (cp_context c)) (cp_matchers c)))"
    "\<And>d. keys_before (concat (map (combs_of d (cp_context c)) (cp_matchers c))) (cp_dirruns c) s"
  shows "select_many calls c s = map (\<lambda>(d, es). filter (\<lambda>e. list_ex (\<lambda>m. sem d (cp_context c) m e) (cp_matchers c)) es) calls"
  using assms
proof (induction calls c s rule: select_many.induct)
  case (2 d es calls c s)
  let ?P = "\<lambda>d. concat (map (combs_of d (cp_context c)) (cp_matchers c))"
  let ?c = "c\<lparr>cp_dirruns := Suc (cp_dirruns c)\<rparr>"
  obtain xs c' t where t: "sz_select d es c s = (xs, c', t)" by (cases "sz_select d es c s")
  have xs: "xs = filter (\<lambda>e. list_ex (\<lambda>m. sem d (cp_context c) m e) (cp_matchers c)) es"
    using loop_ok [of ?c "?P d" d "cp_dirruns c" s es] "2.prems"(1,2) keys_ready [OF "2.prems"(3) [of d], of "cp_runs c"] t by (simp add: sz_select_def)
  have c': "cp_dirruns c' = Suc (cp_dirruns c)" "cp_matchers c' = cp_matchers c" "cp_context c' = cp_context c"
    using loop_counts [of d "cp_dirruns c" es ?c s] t by (simp_all add: sz_select_def)
  have "keys_before (?P d') (cp_dirruns c') t" for d'
  proof -
    have "keys_before (?P d') (Suc (cp_dirruns c)) s" using "2.prems"(3) [of d'] unfolding keys_before_def by (meson less_Suc_eq)
    from loop_keys [OF this, where d = d and es = es and c = ?c] show ?thesis using t c'(1) by (simp add: sz_select_def)
  qed
  then show ?case using "2.IH" [OF t [symmetric] refl] "2.prems"(1,2) c' xs by (simp add: t)
qed simp

text \<open>
  C2: Whatever elements a compiled selector is run on, however often, and also when the document changes between the
  runs: it selects exactly the elements that the selector means, in their order. The caches that the combinators keep on the elements, the
  comparison of their keys as prefixes of strings, and what earlier selectors left there are not seen - if the selector has no \<open>:nth-child\<close>
  and no combinator of any distance inside \<open>:not\<close>.
\<close>
theorem selector_caches_invisible:
  assumes "list_all (\<lambda>g. g \<noteq> [] \<and> list_all plain_token g) gs" "marks_before n s"
  shows "select_many calls (fst (sz_compile gs ctx n)) s = map (\<lambda>(d, es). filter (means_group d ctx gs) es) calls"
proof -
  let ?c = "fst (sz_compile gs ctx n)"
  let ?ms = "fst (compile_groups gs n)"
  have c: "cp_matchers ?c = ?ms" "cp_context ?c = ctx" "cp_dirruns ?c = 0" by (simp_all add: sz_compile_def split: prod.split)
  have g: "list_all simple ?ms" "distinct (map fst (concat (map (combs_of d ctx) ?ms)))" "\<forall>i \<in> fst ` set (concat (map (combs_of d ctx) ?ms)). n \<le> i" for d
    using groups_nums [OF assms(1), of n d ctx] by blast+
  have k: "keyed (concat (map (combs_of d ctx) ?ms)) (concat (map (combs_of d ctx) ?ms))" for d
    using g(2) [of d] unfolding keyed_def by (auto simp: map_of_eq_Some_iff)
  have "keys_before (concat (map (combs_of d ctx) ?ms)) 0 s" for d
    unfolding keys_before_def
  proof (intro allI impI, elim conjE)
    fix x i r c' v
    assume "sz_marks s (Some x) = Some (KeyMark i r c')" "map_of (concat (map (combs_of d ctx) ?ms)) i = Some v"
    then have "i < n" "n \<le> i" using assms(2) g(3) [of d] by (force simp: marks_before_def dest: map_of_SomeD)+
    then show "r < 0" by simp
  qed
  then have "select_many calls ?c s = map (\<lambda>(d, es). filter (\<lambda>e. list_ex (\<lambda>m. sem d ctx m e) ?ms) es) calls"
    using select_many_ok [of ?c s calls] g(1) k by (simp add: c)
  moreover have "list_all (\<lambda>g. g \<noteq> [] \<and> no_empty g) gs" using assms(1) plain_no_empty by (auto simp: list_all_iff)
  then have "list_ex (\<lambda>m. sem d ctx m e) ?ms = means_group d ctx gs e" for d e by (rule compile_means(2))
  ultimately show ?thesis by simp
qed

section \<open>\<open>:nth-child\<close>\<close>

fun no_distance :: "matcher \<Rightarrow> bool" where
  "no_distance (Not ms) = list_all no_distance ms"
| "no_distance (Both h m) = (no_distance h \<and> no_distance m)"
| "no_distance (Climb n c m) = (\<not> cached c \<and> no_distance m)"
| "no_distance (ToContext n c) = (\<not> cached c)"
| "no_distance m = True"

definition numbered :: "sz_doc \<Rightarrow> sz_state \<Rightarrow> bool" where
  "numbered d s \<longleftrightarrow> (\<forall>e. sz_sets s e = None \<or> sz_sets s e = Some (Num (child_index d e)))"

lemma path_suffix: "climb_path dir d e = xs @ x # ys \<Longrightarrow> climb_path dir d x = ys"
proof (induction xs arbitrary: e)
  case Nil
  then show ?case using path_step [of dir d e x ys] by simp
next
  case (Cons z xs)
  have "climb_path dir d z = xs @ x # ys" using path_step [of dir d e z "xs @ x # ys"] Cons.prems by simp
  then show ?case by (rule Cons.IH)
qed

lemma number_pairs:
  assumes "(x, i) \<in> set (zip (rev (climb_path se_prev d e) @ [e]) (map int [1..<length (climb_path se_prev d e) + 2]))"
  shows "i = child_index d x"
proof -
  let ?p = "climb_path se_prev d e"
  obtain j where j: "j < length ?p + 1" "x = (rev ?p @ [e]) ! j" "i = int (Suc j)"
    using assms by (auto simp: in_set_zip nth_append simp del: upt_Suc)
  show ?thesis
  proof (cases "j = length ?p")
    case True
    then show ?thesis using j by (simp add: child_index_def nth_append)
  next
    case False
    then have l: "j < length ?p" using j(1) by simp
    let ?m = "length ?p - Suc j"
    have m: "?m < length ?p" using l by simp
    have x: "x = ?p ! ?m" using j(2) l by (simp add: nth_append rev_nth)
    have "?p = take ?m ?p @ x # drop (Suc ?m) ?p" unfolding x by (rule id_take_nth_drop [OF m])
    then have "climb_path se_prev d x = drop (Suc ?m) ?p" by (rule path_suffix)
    then show ?thesis using j(3) l by (simp add: child_index_def)
  qed
qed

lemma fold_numbers:
  assumes "\<And>x i. (x, i) \<in> set xs \<Longrightarrow> i = child_index d x" "numbered d s"
  shows "numbered d (fold (\<lambda>(x, i) t. put_set x (Num i) t) xs s)
    \<and> (\<forall>x \<in> fst ` set xs. sz_sets (fold (\<lambda>(x, i) t. put_set x (Num i) t) xs s) x = Some (Num (child_index d x)))"
  using assms
proof (induction xs arbitrary: s)
  case (Cons a xs)
  obtain x i where a: "a = (x, i)" by (cases a)
  let ?f = "fold (\<lambda>(x, i) t. put_set x (Num i) t)"
  have i: "i = child_index d x" using Cons.prems(1) a by simp
  have n: "numbered d (put_set x (Num i) s)" using Cons.prems(2) i by (auto simp: numbered_def)
  have prem: "\<And>x i. (x, i) \<in> set xs \<Longrightarrow> i = child_index d x" using Cons.prems(1) by simp
  have IH: "numbered d (?f xs (put_set x (Num i) s)) \<and> (\<forall>y \<in> fst ` set xs. sz_sets (?f xs (put_set x (Num i) s)) y = Some (Num (child_index d y)))"
    using Cons.IH [OF _ n] prem by blast
  have keep: "sz_sets s' x = Some (Num (child_index d x)) \<Longrightarrow> numbered d s' \<Longrightarrow> (\<And>x i. (x, i) \<in> set ys \<Longrightarrow> i = child_index d x)
      \<Longrightarrow> sz_sets (?f ys s') x = Some (Num (child_index d x))" for ys s'
  proof (induction ys arbitrary: s')
    case (Cons b ys)
    obtain y j where b: "b = (y, j)" by (cases b)
    then have "j = child_index d y" using Cons.prems(3) by simp
    then show ?case using Cons b by (auto simp: numbered_def)
  qed simp
  have "sz_sets (?f xs (put_set x (Num i) s)) x = Some (Num (child_index d x))" using keep [OF _ n] i Cons.prems(1) by auto
  then show ?case using IH a by auto
qed simp

lemma number_ok:
  assumes "numbered d s"
  shows "numbered d (number_children d e s)" "sz_sets (number_children d e s) e = Some (Num (child_index d e))"
proof -
  let ?z = "zip (rev (climb_path se_prev d e) @ [e]) (map int [1..<length (climb_path se_prev d e) + 2])"
  have "e \<in> fst ` set ?z"
  proof -
    have "fst ` set ?z = set (map fst ?z)" by simp
    also have "map fst ?z = rev (climb_path se_prev d e) @ [e]" by (rule map_fst_zip) (simp del: upt_Suc)
    finally show ?thesis by simp
  qed
  then show "numbered d (number_children d e s)" "sz_sets (number_children d e s) e = Some (Num (child_index d e))"
    using fold_numbers [where xs = ?z, OF number_pairs [of _ _ d e] assms] unfolding number_children_def by blast+
qed

lemma nth_run_ok:
  assumes "numbered d s"
  shows "\<exists>t. nth_run d n a b e s = (nth_test a b (child_index d e), t) \<and> numbered d t"
proof (cases "a = 1 \<and> b = 0")
  case True
  then show ?thesis using assms by (simp add: nth_run_def nth_test_def child_index_def)
next
  case False
  let ?t = "if sz_marks s (se_parent (d ! e)) \<noteq> Some (NthMark n) \<or> \<not> truthy_set (sz_sets s e)
    then put_mark (se_parent (d ! e)) (NthMark n) (number_children d e s) else s"
  have nt: "numbered d ?t" using assms number_ok(1) [OF assms] by (simp add: numbered_def)
  have "sz_sets s e = None \<or> sz_sets s e = Some (Num (child_index d e))" using assms by (simp add: numbered_def)
  then have "sz_sets ?t e = Some (Num (child_index d e))" using number_ok(2) [OF assms] by (auto simp: truthy_set_def)
  then show ?thesis using False nt by (auto simp: nth_run_def Let_def)
qed

lemma counts_runs:
  "no_distance m \<Longrightarrow> numbered d s \<Longrightarrow> \<exists>t. exec_matcher d ctx k m e s = (sem d ctx m e, t) \<and> numbered d t"
  "list_all no_distance ms \<Longrightarrow> numbered d s \<Longrightarrow> \<exists>t. exec_any d ctx k ms e s = (list_ex (\<lambda>m. sem d ctx m e) ms, t) \<and> numbered d t"
proof (induction d ctx k m e s and d ctx k ms e s rule: exec_matcher_exec_any.induct)
  case (2 d ctx k n a b e s)
  then show ?case using nth_run_ok by simp
next
  case (3 d ctx k ms e s)
  then show ?case by fastforce
next
  case (4 d ctx k h m e s)
  then show ?case by fastforce
next
  case (5 d ctx k n c m e s)
  then show ?case by (cases "comb_path c d e") (auto simp: comb_run_def cached_def first_run_def comb_path_def take_one split: sz_comb.splits)
next
  case (6 d ctx k n c e s)
  then show ?case by (cases "comb_path c d e") (auto simp: comb_run_def cached_def first_run_def comb_path_def ends_at_def take_one split: sz_comb.splits)
next
  case (8 d ctx k m ms e s)
  then show ?case by fastforce
qed auto

lemma counts_loop:
  assumes "list_all no_distance (cp_matchers c)" "numbered d s"
  shows "fst (select_loop d r es c s) = filter (\<lambda>e. list_ex (\<lambda>m. sem d (cp_context c) m e) (cp_matchers c)) es"
    "numbered d (snd (snd (select_loop d r es c s)))"
proof -
  have "fst (select_loop d r es c s) = filter (\<lambda>e. list_ex (\<lambda>m. sem d (cp_context c) m e) (cp_matchers c)) es
    \<and> numbered d (snd (snd (select_loop d r es c s)))" using assms
  proof (induction es arbitrary: c s)
    case (Cons e es)
    let ?p = "\<lambda>e. list_ex (\<lambda>m. sem d (cp_context c) m e) (cp_matchers c)"
    obtain t where t: "exec_any d (cp_context c) (r, cp_runs c) (cp_matchers c) e s = (?p e, t)" "numbered d t"
      using counts_runs(2) [OF Cons.prems] by blast
    then show ?case using Cons.IH [of "c\<lparr>cp_runs := Suc (cp_runs c)\<rparr>" t] Cons.prems(1) by (auto split: prod.splits)
  qed simp
  then show "fst (select_loop d r es c s) = filter (\<lambda>e. list_ex (\<lambda>m. sem d (cp_context c) m e) (cp_matchers c)) es"
    "numbered d (snd (snd (select_loop d r es c s)))" by simp_all
qed

fun near_token :: "sz_token \<Rightarrow> bool" where
  "near_token (Comb c) = (\<not> cached c)"
| "near_token (NotAny gs) = list_all (\<lambda>g. g \<noteq> [] \<and> list_all near_token g) gs"
| "near_token t = True"

lemma near_no_empty: "list_all near_token ts \<Longrightarrow> no_empty ts"
  by (induction ts rule: no_empty.induct) (auto simp: list_all_iff)

lemma compile_near:
  "list_all near_token ts \<Longrightarrow> (\<And>x. m = Some x \<Longrightarrow> no_distance x) \<Longrightarrow> fst (compile_tokens ts m n) = Some x \<Longrightarrow> no_distance x"
  "list_all (\<lambda>g. g \<noteq> [] \<and> list_all near_token g) gs \<Longrightarrow> list_all no_distance (fst (compile_groups gs n))"
proof (induction ts m n and gs n arbitrary: x and rule: compile_tokens_compile_groups.induct)
  case (5 gs ts m n)
  obtain ms n' where c: "compile_groups gs n = (ms, n')" by (cases "compile_groups gs n")
  have "list_all no_distance ms" using "5.IH"(1) "5.prems"(1) c by simp
  then show ?case using "5.IH"(2) [OF c [symmetric]] "5.prems" c by (auto simp: addMatcher_def split: option.splits)
next
  case (7 g gs n)
  obtain m n' where c: "compile_tokens g None n = (m, n')" by (cases "compile_tokens g None n")
  show ?case
  proof (cases m)
    case None
    then show ?thesis using c by simp
  next
    case (Some x)
    have d: "no_distance x" using "7.IH"(1) [of x] "7.prems" c Some by simp
    obtain ms n'' where c': "compile_groups gs n' = (ms, n'')" by (cases "compile_groups gs n'")
    have "list_all no_distance ms" using "7.IH"(3) [OF c [symmetric] Some] "7.prems" c' by simp
    then show ?thesis using c c' Some d by simp
  qed
qed (auto simp: addMatcher_def addCombinator_def split: option.splits)


section \<open>Examples\<close>

definition demo_elem :: "string \<Rightarrow> nat option \<Rightarrow> nat option \<Rightarrow> sz_elem" where
  "demo_elem name p q = \<lparr>se_name = name, se_attrs = [], se_parent = p, se_prev = q, se_next = False, se_text = [], se_filled = False, se_type = [],
     se_href = [], se_disabled = None, se_checked = False, se_selected = False, se_active = False\<rparr>"

definition demo_items :: sz_doc where
  "demo_items = [demo_elem ''UL'' None None, demo_elem ''LI'' (Some 0) None, demo_elem ''LI'' (Some 0) (Some 1), demo_elem ''LI'' (Some 0) (Some 2),
     demo_elem ''LI'' (Some 0) (Some 3)]"

definition ninth_sibling :: "sz_token list list" where
  "ninth_sibling = [[Filter (Tag ''li''), NthChild 0 9, Comb Sibling, Filter (Tag ''li'')]]"

definition found :: "sz_doc \<Rightarrow> sz_token list list \<Rightarrow> nat list" where
  "found d gs = fst (sz_select d [0..<length d] (fst (sz_compile gs None 0)) no_state)"

definition demo_nest :: sz_doc where
  "demo_nest = [demo_elem ''DIV'' None None, demo_elem ''SECTION'' (Some 0) None, demo_elem ''SPAN'' (Some 1) None, demo_elem ''SPAN'' (Some 2) None,
     demo_elem ''Q'' (Some 3) None]"

definition not_below :: "sz_token list list" where
  "not_below = [[Filter (Tag ''span''), NotAny [[Filter (Tag ''div''), Comb Descendant, Filter (Tag ''span'')]], Comb Descendant, Filter (Tag ''q'')]]"


definition plain_selector :: "sz_token list list" where
  "plain_selector = [[Filter (Tag ''div''), NotAny [[Filter (Class ''x'')]], Comb Descendant, Filter (Tag ''span''), Comb Descendant, Filter (Tag ''q'')],
     [Filter (Pseudo Empty), Comb Sibling, Filter (Tag ''li'')]]"

lemma selector_caches_invisible_witness:
  "select_many [(demo_nest, [0..<5]), (demo_items, [0..<5]), (demo_nest, [4])] (fst (sz_compile plain_selector None 0)) no_state
     = [[4], [2, 3, 4], [4]]"
proof -
  have "list_all (\<lambda>g. g \<noteq> [] \<and> list_all plain_token g) plain_selector" by code_simp
  moreover have "marks_before 0 no_state" by (simp add: marks_before_def no_state_def)
  moreover have "map (\<lambda>(d, es). filter (means_group d None plain_selector) es) [(demo_nest, [0..<5]), (demo_items, [0..<5]), (demo_nest, [4])]
     = [[4], [2, 3, 4], [4]]" by code_simp
  ultimately show ?thesis using selector_caches_invisible [of plain_selector 0 no_state "[(demo_nest, [0..<5]), (demo_items, [0..<5]), (demo_nest, [4])]" None] by simp
qed


text \<open>
  \<open>span:not(div span) q\<close>: the ways up from two ancestors overlap in one run. The second meets an element where the first, which found the
  \<open>div\<close> further up, left that this element is none, and takes it that there is none at all.
\<close>

theorem not_with_descendant:
  "found demo_nest not_below = [4] \<and> filter (means_group demo_nest None not_below) [0..<5] = []"
  by code_simp

text \<open>
  \<open>li:nth-child(9) ~ li\<close> in a list of four: the numbers that \<open>:nth-child\<close> keeps are taken for the results that the combinator keeps in the
  same property.
\<close>

theorem nth_child_confused:
  "found demo_items ninth_sibling = [3, 4] \<and> filter (means_group demo_items None ninth_sibling) [0..<5] = []"
  by code_simp

text \<open>\<open>li:nth-child(2)\<close>, compiled once, before and after the first item goes away: the number of the last run is used again.\<close>

theorem nth_child_stale:
  "select_many [(demo_items, [0..<5]), (demo_items[2 := demo_elem ''LI'' (Some 0) None], [2, 3])]
     (fst (sz_compile [[Filter (Tag ''li''), NthChild 0 2]] None 0)) no_state = [[2], [2]]
   \<and> filter (means_group (demo_items[2 := demo_elem ''LI'' (Some 0) None]) None [[Filter (Tag ''li''), NthChild 0 2]]) [2, 3] = [3]"
  by code_simp

text \<open>\<open>:input\<close> and \<open>:header\<close> look for a part of the name.\<close>

lemma names_by_part: "filter_test (Pseudo Input) [demo_elem ''MY-BUTTON'' None None] 0 \<and> filter_test (Pseudo Header) [demo_elem ''GRAPH2'' None None] 0"
  by code_simp

end
