(* ===== verification/FdOrbit.thy ===== *)
theory FdOrbit
  imports JqClass
begin

text \<open>
  The slider \<open>jquery.foundation.orbit.js\<close>: loading, clock, captions, bullets and shifting. The slides
  are records of what the slider reads and writes of them. \<open>animate\<close> puts a goal into the queue of its slide;
  that the first of a queue has ended is an event, as are the ticks of the clocks, the clicks and the loading of images.
  Events come in any order.
\<close>

section \<open>State\<close>

datatype flag = Flag bool | FlagText string

definition flag_on :: "flag \<Rightarrow> bool" where
  "flag_on f = (case f of Flag b \<Rightarrow> b | FlagText t \<Rightarrow> t \<noteq> [])"

definition text_false :: "flag \<Rightarrow> flag" where
  "text_false f = (if f = FlagText ''false'' then Flag False else f)"

record orbit_options =
  oo_animation :: string
  oo_animationSpeed :: nat
  oo_timer :: flag
  oo_advanceSpeed :: nat
  oo_pauseOnHover :: bool
  oo_startClockOnMouseOut :: bool
  oo_startClockOnMouseOutAfter :: nat
  oo_directionalNav :: flag
  oo_captions :: flag
  oo_captionAnimation :: string
  oo_captionAnimationSpeed :: nat
  oo_resetTimerOnClick :: bool
  oo_bullets :: bool
  oo_bulletThumbs :: bool
  oo_bulletThumbLocation :: string
  oo_fluid :: flag
  oo_singleCycle :: bool

definition orbit_defaults :: orbit_options where
  "orbit_defaults =
     \<lparr>oo_animation = ''horizontal-push'', oo_animationSpeed = 600, oo_timer = Flag True, oo_advanceSpeed = 4000,
      oo_pauseOnHover = False, oo_startClockOnMouseOut = False, oo_startClockOnMouseOutAfter = 1000,
      oo_directionalNav = Flag True, oo_captions = Flag True, oo_captionAnimation = ''fade'',
      oo_captionAnimationSpeed = 600, oo_resetTimerOnClick = False, oo_bullets = False, oo_bulletThumbs = False,
      oo_bulletThumbLocation = [], oo_fluid = Flag True, oo_singleCycle = False\<rparr>"

text \<open>What an animation ends at, and what is called then.\<close>

datatype fx_goal = GoLeft int | GoTop int | GoOpacity int | GoShown
datatype fx_after = ResetAndUnlock | ShowSlides

datatype img_state = NoSrc | Complete | Unfinished

record slide =
  sd_width :: int
  sd_height :: int
  sd_img :: "img_state option"
  sd_caption :: "string option"
  sd_thumb :: "string option"
  sd_z :: "int option"
  sd_left :: int
  sd_top :: int
  sd_opacity :: int
  sd_block :: bool
  sd_fx :: "(fx_goal \<times> fx_after option) list"

record timer =
  tm_turn :: int
  tm_moved :: bool
  tm_paused :: bool

datatype caption_fx = ShowNow | HideNow | FadeIn nat | FadeOut nat | SlideDown nat | SlideUp nat

record caption =
  cn_id :: "string option"
  cn_html :: string
  cn_fx :: "caption_fx list"

record bullet =
  bu_thumb :: "string option"
  bu_active :: bool

datatype orbit_clock = AdvanceClock | RotateClock
datatype placeholder = NoPlaceholder | CloneOf nat | HolderImage string
datatype orbit_call = AfterLoadComplete | HolderRun | AfterSlideChange int int

text \<open>
  \<open>or_timer\<close>, \<open>or_caption\<close> and \<open>or_bullets\<close> are \<open>None\<close> as long as the elements are not
  made. \<open>or_prev\<close> is read only after it was set.
\<close>

record orbit =
  or_options :: orbit_options
  or_slides :: "slide list"
  or_active :: int
  or_prev :: int
  or_number :: int
  or_locked :: bool
  or_running :: bool
  or_degrees :: int
  or_width :: int
  or_height :: int
  or_el_width :: int
  or_el_height :: int
  or_placeholder :: placeholder
  or_clock :: "nat option"
  or_intervals :: "(nat \<times> orbit_clock) list"
  or_outTimer :: "nat option"
  or_outs :: "nat list"
  or_next_id :: nat
  or_timer :: "timer option"
  or_caption :: "caption option"
  or_nav :: bool
  or_bullets :: "bullet list option"
  or_waiting :: "nat list"
  or_ready :: nat
  or_calls :: "orbit_call list"

text \<open>
  The page: whether the timer is hidden by the style sheet, what border and padding add to the width of the slider, and
  text and HTML of the elements that captions name.
\<close>

record orbit_env =
  oe_timer_hidden :: bool
  oe_pad :: int
  oe_text :: "string \<Rightarrow> string"
  oe_html :: "string \<Rightarrow> string"

type_synonym orbit_op = "orbit \<Rightarrow> (js_error + unit) \<times> orbit"

definition seq_op :: "orbit_op \<Rightarrow> orbit_op \<Rightarrow> orbit_op" where
  "seq_op m k s = (case m s of (Inl e, s1) \<Rightarrow> (Inl e, s1) | (Inr _, s1) \<Rightarrow> k s1)"

definition fine :: "(orbit \<Rightarrow> orbit) \<Rightarrow> orbit_op" where
  "fine f s = (Inr (), f s)"

definition when_op :: "bool \<Rightarrow> orbit_op \<Rightarrow> orbit_op" where
  "when_op b m = (if b then m else fine (\<lambda>s. s))"

lemma when_op_simps [simp]: "when_op True m = m" "when_op False m s = (Inr (), s)"
  by (simp_all add: when_op_def fine_def)

definition fail_op :: orbit_op where
  "fail_op s = (Inl TypeError, s)"

text \<open>\<open>$els.eq(i)\<close>: a negative index counts from the end.\<close>

definition eq_at :: "int \<Rightarrow> 'a list \<Rightarrow> nat option" where
  "eq_at i xs =
     (let j = (if i < 0 then int (length xs) + i else i)
      in if 0 \<le> j \<and> j < int (length xs) then Some (nat j) else None)"

definition upd_eq :: "int \<Rightarrow> ('a \<Rightarrow> 'a) \<Rightarrow> 'a list \<Rightarrow> 'a list" where
  "upd_eq i f xs = (case eq_at i xs of None \<Rightarrow> xs | Some j \<Rightarrow> xs[j := f (xs ! j)])"

section \<open>Captions and bullets\<close>

definition caption_entrance :: "orbit_options \<Rightarrow> caption_fx list" where
  "caption_entrance opts =
     (if oo_captionAnimation opts = ''none'' then [ShowNow]
      else if oo_captionAnimation opts = ''fade'' then [FadeIn (oo_captionAnimationSpeed opts)]
      else if oo_captionAnimation opts = ''slideOpen'' then [SlideDown (oo_captionAnimationSpeed opts)] else [])"

definition caption_exit :: "orbit_options \<Rightarrow> caption_fx list" where
  "caption_exit opts =
     (if oo_captionAnimation opts = ''none'' then [HideNow]
      else if oo_captionAnimation opts = ''fade'' then [FadeOut (oo_captionAnimationSpeed opts)]
      else if oo_captionAnimation opts = ''slideOpen'' then [SlideUp (oo_captionAnimationSpeed opts)] else [])"

definition currentSlide :: "orbit \<Rightarrow> slide option" where
  "currentSlide s = map_option ((!) (or_slides s)) (eq_at (or_active s) (or_slides s))"

definition setCaption :: "orbit_env \<Rightarrow> orbit_op" where
  "setCaption E s =
     (let opts = or_options s;
          loc = (case currentSlide s of None \<Rightarrow> None | Some sd \<Rightarrow> sd_caption sd)
      in if \<not> flag_on (oo_captions opts) then (Inr (), s)
         else if loc \<noteq> None \<and> loc \<noteq> Some [] then
           (if jq_trim (oe_text E (the loc)) = [] then (Inr (), s)
            else case or_caption s of
                   None \<Rightarrow> (Inl TypeError, s)
                 | Some c \<Rightarrow>
                     (Inr (), s\<lparr>or_caption := Some \<lparr>cn_id = loc, cn_html = oe_html E (the loc),
                        cn_fx = cn_fx c @ caption_entrance opts\<rparr>\<rparr>))
         else case or_caption s of
                None \<Rightarrow> (if caption_exit opts = [] then (Inr (), s) else (Inl TypeError, s))
              | Some c \<Rightarrow> (Inr (), s\<lparr>or_caption := Some (c\<lparr>cn_fx := cn_fx c @ caption_exit opts\<rparr>)\<rparr>))"

definition setupCaptions :: "orbit_env \<Rightarrow> orbit_op" where
  "setupCaptions E = seq_op (fine (\<lambda>s. s\<lparr>or_caption := Some \<lparr>cn_id = None, cn_html = [], cn_fx = []\<rparr>\<rparr>)) (setCaption E)"

definition setActiveBullet :: orbit_op where
  "setActiveBullet s =
     (if \<not> oo_bullets (or_options s) then (Inr (), s)
      else case or_bullets s of
             None \<Rightarrow> (Inl TypeError, s)
           | Some bs \<Rightarrow>
               (Inr (), s\<lparr>or_bullets := Some (upd_eq (or_active s) (\<lambda>b. b\<lparr>bu_active := True\<rparr>)
                  (map (\<lambda>b. b\<lparr>bu_active := False\<rparr>) bs))\<rparr>))"

definition addBullet :: "orbit_options \<Rightarrow> slide \<Rightarrow> bullet" where
  "addBullet opts sd =
     \<lparr>bu_thumb =
        (if oo_bulletThumbs opts then
           case sd_thumb sd of
             None \<Rightarrow> None
           | Some t \<Rightarrow> if t = [] then None else Some (''url('' @ oo_bulletThumbLocation opts @ t @ '') no-repeat'')
         else None),
      bu_active = False\<rparr>"

definition setupBulletNav :: "orbit \<Rightarrow> orbit" where
  "setupBulletNav s = s\<lparr>or_bullets := Some (map (addBullet (or_options s)) (or_slides s))\<rparr>"

section \<open>Shifting\<close>

datatype direction = NextDir | PrevDir | Goto int

definition animate :: "fx_goal \<Rightarrow> fx_after option \<Rightarrow> slide \<Rightarrow> slide" where
  "animate g k sd = sd\<lparr>sd_fx := sd_fx sd @ [(g, k)]\<rparr>"

text \<open>The slide that comes, with the side it comes from; and the one that goes, where it is pushed away.\<close>

definition entering :: "string \<Rightarrow> bool \<Rightarrow> int \<Rightarrow> int \<Rightarrow> slide \<Rightarrow> slide" where
  "entering kind forward w h sd =
     (if kind = ''fade'' then animate (GoOpacity 1) (Some ResetAndUnlock) (sd\<lparr>sd_opacity := 0, sd_z := Some 3\<rparr>)
      else if kind = ''horizontal-slide'' \<or> kind = ''horizontal-push'' then
        animate (GoLeft 0) (Some ResetAndUnlock) (sd\<lparr>sd_left := (if forward then w else - w), sd_z := Some 3\<rparr>)
      else if kind = ''vertical-slide'' then
        animate (GoTop 0) (Some ResetAndUnlock) (sd\<lparr>sd_top := (if forward then - h else h), sd_z := Some 3\<rparr>)
      else if kind = ''vertical-push'' then
        animate (GoTop 0) (Some ResetAndUnlock) (sd\<lparr>sd_top := (if forward then - h else h), sd_z := Some 3\<rparr>)
      else sd)"

definition leaving :: "string \<Rightarrow> bool \<Rightarrow> int \<Rightarrow> int \<Rightarrow> slide \<Rightarrow> slide" where
  "leaving kind forward w h sd =
     (if kind = ''horizontal-push'' then animate (GoLeft (if forward then - w else w)) None sd
      else if kind = ''vertical-push'' then animate (GoTop (if forward then h else - h)) None sd
      else sd)"

definition new_active :: "direction \<Rightarrow> orbit \<Rightarrow> int" where
  "new_active dir s =
     (case dir of
        NextDir \<Rightarrow> if or_active s + 1 = or_number s then 0 else or_active s + 1
      | PrevDir \<Rightarrow> if or_active s - 1 < 0 then or_number s - 1 else or_active s - 1
      | Goto i \<Rightarrow> i)"

definition is_forward :: "direction \<Rightarrow> int \<Rightarrow> bool" where
  "is_forward dir prev = (case dir of NextDir \<Rightarrow> True | PrevDir \<Rightarrow> False | Goto i \<Rightarrow> prev < i)"

definition move_slides :: "bool \<Rightarrow> orbit \<Rightarrow> orbit" where
  "move_slides forward s =
     (let kind = oo_animation (or_options s); w = or_width s; h = or_height s
      in s\<lparr>or_slides := upd_eq (or_prev s) (leaving kind forward w h)
             (upd_eq (or_active s) (entering kind forward w h)
               (upd_eq (or_prev s) (\<lambda>sd. sd\<lparr>sd_z := Some 2\<rparr>) (or_slides s)))\<rparr>)"

definition stopClock :: orbit_op where
  "stopClock s =
     (if \<not> flag_on (oo_timer (or_options s)) then (Inr (), s)
      else
        let s1 = s\<lparr>or_running := False,
                   or_intervals := (case or_clock s of None \<Rightarrow> or_intervals s
                     | Some c \<Rightarrow> filter (\<lambda>(i, _). i \<noteq> c) (or_intervals s))\<rparr>
        in case or_timer s1 of
             None \<Rightarrow> (Inl TypeError, s1)
           | Some t \<Rightarrow> (Inr (), s1\<lparr>or_timer := Some (t\<lparr>tm_paused := True\<rparr>)\<rparr>))"

text \<open>The body of the branch in which the slider is not locked, from the slide \<open>prev\<close>.\<close>

definition go_to :: "orbit_env \<Rightarrow> direction \<Rightarrow> int \<Rightarrow> orbit_op" where
  "go_to E dir prev =
     seq_op (fine (\<lambda>s. s\<lparr>or_locked := True, or_active := new_active dir s\<rparr>))
       (seq_op setActiveBullet (seq_op (fine (move_slides (is_forward dir prev))) (setCaption E)))"

definition shift :: "orbit_env \<Rightarrow> direction \<Rightarrow> orbit_op" where
  "shift E dir s =
     (let prev = or_active s; s1 = s\<lparr>or_prev := prev\<rparr>
      in if dir = Goto prev then (Inr (), s1)
         else if length (or_slides s) = 1 then (Inr (), s1)
         else seq_op (when_op (\<not> or_locked s) (go_to E dir prev)) (when_op (oo_singleCycle (or_options s)) stopClock) s1)"

definition resetAndUnlock :: "orbit \<Rightarrow> orbit" where
  "resetAndUnlock s =
     s\<lparr>or_slides := upd_eq (or_prev s) (\<lambda>sd. sd\<lparr>sd_z := Some 1\<rparr>) (or_slides s), or_locked := False,
       or_calls := or_calls s @ [AfterSlideChange (or_prev s) (or_active s)]\<rparr>"

section \<open>The clock\<close>

definition startClock :: "orbit_env \<Rightarrow> orbit_op" where
  "startClock E s =
     (if \<not> flag_on (oo_timer (or_options s)) then (Inr (), s)
      else case or_timer s of
             None \<Rightarrow> (Inl TypeError, s)
           | Some t \<Rightarrow>
               (let i = or_next_id s
                in if oe_timer_hidden E then
                     (Inr (), s\<lparr>or_clock := Some i, or_intervals := or_intervals s @ [(i, AdvanceClock)], or_next_id := Suc i\<rparr>)
                   else
                     (Inr (), s\<lparr>or_running := True, or_timer := Some (t\<lparr>tm_paused := False\<rparr>), or_clock := Some i,
                        or_intervals := or_intervals s @ [(i, RotateClock)], or_next_id := Suc i\<rparr>)))"

definition rotateTimer :: "orbit_env \<Rightarrow> bool \<Rightarrow> orbit_op" where
  "rotateTimer E reset s =
     (let turn = or_degrees s; d = turn + 2; s1 = s\<lparr>or_degrees := d\<rparr>
      in case or_timer s1 of
           None \<Rightarrow> (Inl TypeError, s1)
         | Some t \<Rightarrow>
             let t1 = t\<lparr>tm_turn := turn, tm_moved := tm_moved t \<or> d > 180\<rparr>
             in if d > 360 \<or> reset then shift E NextDir (s1\<lparr>or_degrees := 0, or_timer := Some (t1\<lparr>tm_moved := False\<rparr>)\<rparr>)
                else (Inr (), s1\<lparr>or_timer := Some t1\<rparr>))"

definition clickTimer :: "orbit_env \<Rightarrow> orbit_op" where
  "clickTimer E s = (if \<not> or_running s then startClock E s else stopClock s)"

definition startTimerAfterMouseLeave :: "orbit \<Rightarrow> orbit" where
  "startTimerAfterMouseLeave s =
     s\<lparr>or_outTimer := Some (or_next_id s), or_outs := or_outs s @ [or_next_id s], or_next_id := Suc (or_next_id s)\<rparr>"

definition clearClockMouseLeaveTimer :: "orbit \<Rightarrow> orbit" where
  "clearClockMouseLeaveTimer s =
     s\<lparr>or_outs := (case or_outTimer s of None \<Rightarrow> or_outs s | Some i \<Rightarrow> filter (\<lambda>j. j \<noteq> i) (or_outs s))\<rparr>"

definition out_fires :: "orbit_env \<Rightarrow> nat \<Rightarrow> orbit_op" where
  "out_fires E i s =
     (if i \<notin> set (or_outs s) then (Inr (), s)
      else when_op (\<not> or_running s) (startClock E) (s\<lparr>or_outs := filter (\<lambda>j. j \<noteq> i) (or_outs s)\<rparr>))"

text \<open>A click on an arrow or a bullet.\<close>

definition clicked :: "orbit_env \<Rightarrow> direction \<Rightarrow> orbit_op" where
  "clicked E dir s =
     seq_op stopClock
       (seq_op (when_op (oo_resetTimerOnClick (or_options s)) (seq_op (rotateTimer E True) (startClock E)))
         (shift E dir)) s"

section \<open>Loading\<close>

definition setupTimer :: "orbit \<Rightarrow> orbit" where
  "setupTimer s = s\<lparr>or_timer := Some \<lparr>tm_turn = 0, tm_moved = False, tm_paused = False\<rparr>\<rparr>"

definition setupDirectionalNav :: "orbit \<Rightarrow> orbit" where
  "setupDirectionalNav s = s\<lparr>or_nav := True\<rparr>"

definition measure_slide :: "orbit_env \<Rightarrow> nat \<times> slide \<Rightarrow> orbit \<Rightarrow> orbit" where
  "measure_slide E p s =
     (let (i, sd) = p;
          s1 = (if sd_width sd > or_el_width s + oe_pad E
                then s\<lparr>or_el_width := sd_width sd, or_width := sd_width sd + oe_pad E\<rparr> else s);
          s2 = (if sd_height sd > or_el_height s1
                then s1\<lparr>or_el_height := sd_height sd, or_height := sd_height sd, or_placeholder := CloneOf i\<rparr> else s1)
      in s2\<lparr>or_number := or_number s2 + 1\<rparr>)"

definition fluid_placeholder :: "orbit \<Rightarrow> orbit" where
  "fluid_placeholder s =
     (case oo_fluid (or_options s) of
        FlagText t \<Rightarrow> if t = [] then s\<lparr>or_placeholder := NoPlaceholder\<rparr> else s\<lparr>or_placeholder := HolderImage (''holder.js/'' @ t)\<rparr>
      | Flag b \<Rightarrow> if b then s else s\<lparr>or_placeholder := NoPlaceholder\<rparr>)"

definition setDimentionsFromLargestSlide :: "orbit_env \<Rightarrow> orbit \<Rightarrow> orbit" where
  "setDimentionsFromLargestSlide E s =
     (case or_slides s of
        [] \<Rightarrow> s
      | sd # _ \<Rightarrow>
          fluid_placeholder (fold (measure_slide E) (List.enumerate 0 (or_slides s))
            (s\<lparr>or_el_width := sd_width sd, or_el_height := sd_height sd, or_width := sd_width sd, or_height := sd_height sd,
               or_placeholder := CloneOf 0\<rparr>)))"

definition updateOptionsIfOnlyOneSlide :: "orbit \<Rightarrow> orbit" where
  "updateOptionsIfOnlyOneSlide s =
     (if length (or_slides s) = 1
      then s\<lparr>or_options := (or_options s)\<lparr>oo_directionalNav := Flag False, oo_timer := Flag False, oo_bullets := False\<rparr>\<rparr>
      else s)"

definition setupFirstSlide :: "orbit \<Rightarrow> orbit" where
  "setupFirstSlide s = s\<lparr>or_slides := upd_eq 0 (\<lambda>sd. animate GoShown (Some ShowSlides) (sd\<lparr>sd_z := Some 3\<rparr>)) (or_slides s)\<rparr>"

definition loaded :: "orbit_env \<Rightarrow> orbit_op" where
  "loaded E s =
     (let s1 = setupFirstSlide (updateOptionsIfOnlyOneSlide (setDimentionsFromLargestSlide E (s\<lparr>or_el_width := 1, or_el_height := 1\<rparr>)));
          opts = or_options s1
      in seq_op (when_op (flag_on (oo_timer opts)) (seq_op (fine setupTimer) (startClock E)))
          (seq_op (when_op (flag_on (oo_captions opts)) (setupCaptions E))
            (seq_op (when_op (flag_on (oo_directionalNav opts)) (fine setupDirectionalNav))
              (seq_op (when_op (oo_bullets opts) (seq_op (fine setupBulletNav) setActiveBullet))
                (fine (\<lambda>s. s\<lparr>or_calls := or_calls s @ [AfterLoadComplete, HolderRun]\<rparr>))))) s1)"

text \<open>
  The special event \<open>imageready\<close>. Binding a handler to an image that has a source calls it at once if the image is
  complete, else when it loads; with \<open>forceLoad\<close> the source is set again, and the handler waits in any case.
\<close>

datatype ready = Never | AtOnce | OnLoad

definition imageready_add :: "bool \<Rightarrow> img_state \<Rightarrow> ready" where
  "imageready_add forceLoad st =
     (case st of NoSrc \<Rightarrow> Never | Complete \<Rightarrow> (if forceLoad then OnLoad else AtOnce) | Unfinished \<Rightarrow> OnLoad)"

definition image_slides :: "orbit \<Rightarrow> nat list" where
  "image_slides s = filter (\<lambda>i. sd_img (or_slides s ! i) \<noteq> None) [0..<length (or_slides s)]"

definition image_ready :: "orbit_env \<Rightarrow> orbit_op" where
  "image_ready E s =
     (let n = Suc (or_ready s); s1 = s\<lparr>or_ready := n\<rparr>
      in when_op (n = length (image_slides s)) (loaded E) s1)"

definition bind_image :: "orbit_env \<Rightarrow> nat \<Rightarrow> orbit_op" where
  "bind_image E i s =
     (case imageready_add False (the (sd_img (or_slides s ! i))) of
        Never \<Rightarrow> (Inr (), s)
      | AtOnce \<Rightarrow> image_ready E s
      | OnLoad \<Rightarrow> (Inr (), s\<lparr>or_waiting := or_waiting s @ [i]\<rparr>))"

definition image_loads :: "orbit_env \<Rightarrow> nat \<Rightarrow> orbit_op" where
  "image_loads E i s =
     (if i \<in> set (or_waiting s) then image_ready E (s\<lparr>or_waiting := filter (\<lambda>j. j \<noteq> i) (or_waiting s)\<rparr>) else (Inr (), s))"

text \<open>The options as the update that they are of the defaults.\<close>

definition new_orbit :: "(orbit_options \<Rightarrow> orbit_options) \<Rightarrow> slide list \<Rightarrow> orbit" where
  "new_orbit options slides =
     (let opts = options orbit_defaults
      in \<lparr>or_options = opts\<lparr>oo_timer := text_false (oo_timer opts), oo_captions := text_false (oo_captions opts),
            oo_directionalNav := text_false (oo_directionalNav opts)\<rparr>,
          or_slides = slides, or_active = 0, or_prev = 0, or_number = 0, or_locked = False, or_running = False,
          or_degrees = 0, or_width = 0, or_height = 0, or_el_width = 0, or_el_height = 0, or_placeholder = NoPlaceholder,
          or_clock = None, or_intervals = [], or_outTimer = None, or_outs = [], or_next_id = 0, or_timer = None,
          or_caption = None, or_nav = False, or_bullets = None, or_waiting = [], or_ready = 0, or_calls = []\<rparr>)"

definition orbit_init :: "orbit_env \<Rightarrow> (orbit_options \<Rightarrow> orbit_options) \<Rightarrow> slide list \<Rightarrow> (js_error + unit) \<times> orbit" where
  "orbit_init E options slides =
     (let s = new_orbit options slides; imgs = image_slides s
      in if imgs = [] then loaded E s else foldr (\<lambda>i. seq_op (bind_image E i)) imgs (fine (\<lambda>s. s)) s)"

section \<open>Events\<close>

datatype orbit_event =
  Trigger direction | OrbitStart | OrbitStop | ClickTimer | ClickArrow bool | ClickBullet nat | Tick nat | OutFires nat
  | MouseEnter | MouseLeave | AnimationEnds nat | ImageLoads nat | Resize int int

definition reach_goal :: "fx_goal \<Rightarrow> slide \<Rightarrow> slide" where
  "reach_goal g sd =
     (case g of GoLeft x \<Rightarrow> sd\<lparr>sd_left := x\<rparr> | GoTop y \<Rightarrow> sd\<lparr>sd_top := y\<rparr> | GoOpacity v \<Rightarrow> sd\<lparr>sd_opacity := v\<rparr>
      | GoShown \<Rightarrow> sd\<lparr>sd_block := True\<rparr>)"

definition after_fx :: "fx_after option \<Rightarrow> orbit \<Rightarrow> orbit" where
  "after_fx k s =
     (case k of
        None \<Rightarrow> s
      | Some ResetAndUnlock \<Rightarrow> resetAndUnlock s
      | Some ShowSlides \<Rightarrow> s\<lparr>or_slides := map (\<lambda>sd. sd\<lparr>sd_block := True\<rparr>) (or_slides s)\<rparr>)"

definition animation_ends :: "nat \<Rightarrow> orbit \<Rightarrow> orbit" where
  "animation_ends i s =
     (if i < length (or_slides s) then
        case sd_fx (or_slides s ! i) of
          [] \<Rightarrow> s
        | (g, k) # fxs \<Rightarrow> after_fx k (s\<lparr>or_slides := (or_slides s)[i := (reach_goal g (or_slides s ! i))\<lparr>sd_fx := fxs\<rparr>]\<rparr>)
      else s)"

definition tick :: "orbit_env \<Rightarrow> nat \<Rightarrow> orbit_op" where
  "tick E i s =
     (case map_of (or_intervals s) i of
        None \<Rightarrow> (Inr (), s)
      | Some AdvanceClock \<Rightarrow> shift E NextDir s
      | Some RotateClock \<Rightarrow> rotateTimer E False s)"

text \<open>Elements that were not made get no clicks; the handlers of the wrapper are bound with the timer.\<close>

definition handle_event :: "orbit_env \<Rightarrow> orbit_event \<Rightarrow> orbit_op" where
  "handle_event E ev s =
     (let opts = or_options s in
      case ev of
        Trigger dir \<Rightarrow> shift E dir s
      | OrbitStart \<Rightarrow> startClock E s
      | OrbitStop \<Rightarrow> stopClock s
      | ClickTimer \<Rightarrow> when_op (or_timer s \<noteq> None) (clickTimer E) s
      | ClickArrow right \<Rightarrow> when_op (or_nav s) (clicked E (if right then NextDir else PrevDir)) s
      | ClickBullet i \<Rightarrow>
          (case or_bullets s of None \<Rightarrow> (Inr (), s) | Some bs \<Rightarrow> when_op (i < length bs) (clicked E (Goto (int i))) s)
      | Tick i \<Rightarrow> tick E i s
      | OutFires i \<Rightarrow> out_fires E i s
      | MouseEnter \<Rightarrow>
          when_op (or_timer s \<noteq> None)
            (seq_op (when_op (oo_startClockOnMouseOut opts) (fine clearClockMouseLeaveTimer)) (when_op (oo_pauseOnHover opts) stopClock)) s
      | MouseLeave \<Rightarrow> when_op (or_timer s \<noteq> None \<and> oo_startClockOnMouseOut opts) (fine startTimerAfterMouseLeave) s
      | AnimationEnds i \<Rightarrow> fine (animation_ends i) s
      | ImageLoads i \<Rightarrow> image_loads E i s
      | Resize w h \<Rightarrow>
          when_op (AfterLoadComplete \<in> set (or_calls s) \<and> flag_on (oo_fluid opts)) (fine (\<lambda>s. s\<lparr>or_width := w, or_height := h\<rparr>)) s)"

text \<open>Every event is a task of its own: an exception ends the task, not the slider.\<close>

definition orbit_events :: "orbit_env \<Rightarrow> orbit_event list \<Rightarrow> orbit \<Rightarrow> orbit" where
  "orbit_events E evs s = fold (\<lambda>ev s. snd (handle_event E ev s)) evs s"

section \<open>What an operation keeps\<close>

definition keeps_op :: "(orbit \<Rightarrow> bool) \<Rightarrow> orbit_op \<Rightarrow> bool" where
  "keeps_op P m \<longleftrightarrow> (\<forall>s. P s \<longrightarrow> (\<exists>s'. m s = (Inr (), s') \<and> P s'))"

named_theorems orbit_rules \<open>which operations keep a property of the slider\<close>

lemma keeps_op_seq [orbit_rules]: "keeps_op P m \<Longrightarrow> keeps_op P k \<Longrightarrow> keeps_op P (seq_op m k)"
  by (fastforce simp: keeps_op_def seq_op_def)

lemma keeps_op_when [orbit_rules]: "(b \<Longrightarrow> keeps_op P m) \<Longrightarrow> keeps_op P (when_op b m)"
  by (simp add: keeps_op_def when_op_def fine_def)

lemma keeps_op_fine [orbit_rules]: "(\<And>s. P s \<Longrightarrow> P (f s)) \<Longrightarrow> keeps_op P (fine f)"
  by (simp add: keeps_op_def fine_def)

lemma keeps_opD: "keeps_op P m \<Longrightarrow> P s \<Longrightarrow> fst (m s) = Inr () \<and> P (snd (m s))"
  by (fastforce simp: keeps_op_def)

lemma keeps_opI: "(\<And>s. P s \<Longrightarrow> fst (m s) = Inr () \<and> P (snd (m s))) \<Longrightarrow> keeps_op P m"
  unfolding keeps_op_def by (metis prod.collapse)

definition dir_ok :: "direction \<Rightarrow> orbit \<Rightarrow> bool" where
  "dir_ok dir s = (case dir of Goto i \<Rightarrow> 0 \<le> i \<and> i < int (length (or_slides s)) | _ \<Rightarrow> True)"

text \<open>What handlers leave as it is: the number of slides and the options; and only starting sets \<open>timerRunning\<close>.\<close>

definition same_frame :: "orbit \<Rightarrow> orbit \<Rightarrow> bool" where
  "same_frame s t \<longleftrightarrow> length (or_slides t) = length (or_slides s) \<and> or_options t = or_options s \<and> (or_running t \<longrightarrow> or_running s)"

definition framed :: "orbit_op \<Rightarrow> bool" where
  "framed m \<longleftrightarrow> (\<forall>s. same_frame s (snd (m s)))"

lemma framed_rules [intro]:
  "framed m \<Longrightarrow> framed k \<Longrightarrow> framed (seq_op m k)" "framed m \<Longrightarrow> framed (when_op b m)"
  "(\<And>s. same_frame s (f s)) \<Longrightarrow> framed (fine f)"
proof -
  show "framed (seq_op m k)" if "framed m" "framed k"
  proof (unfold framed_def, rule allI)
    fix s :: orbit
    obtain r s1 where m: "m s = (r, s1)" by fastforce
    have "same_frame s s1" "same_frame s1 (snd (k s1))" using that m by (metis framed_def snd_conv)+
    then show "same_frame s (snd (seq_op m k s))" using m by (auto simp: seq_op_def same_frame_def split: sum.split)
  qed
qed (simp_all add: framed_def when_op_def fine_def, simp add: same_frame_def)

lemma framedI: "(\<And>s. same_frame s (snd (m s))) \<Longrightarrow> framed m"
  by (simp add: framed_def)

lemma upd_eq_length [simp]: "length (upd_eq i f xs) = length xs"
  by (simp add: upd_eq_def split: option.split)

lemma framed_parts [intro]: "framed stopClock" "framed (setCaption E)" "framed setActiveBullet"
  by (rule framedI; simp add: stopClock_def setCaption_def setActiveBullet_def same_frame_def Let_def split: option.split)+

lemma framed_move [intro]: "framed (fine (move_slides b))"
  "framed (fine (\<lambda>s. s\<lparr>or_locked := True, or_active := g s\<rparr>))"
  by (rule framed_rules(3); simp add: same_frame_def move_slides_def Let_def)+

lemma same_frame_trans: "same_frame a b \<Longrightarrow> same_frame b c \<Longrightarrow> same_frame a c"
  by (simp add: same_frame_def)

lemma framedD: "framed m \<Longrightarrow> same_frame s (snd (m s))"
  by (simp add: framed_def)

lemma framed_go [intro]: "framed (go_to E dir prev)"
  unfolding go_to_def by (intro framed_rules(1) framed_parts framed_move)

lemma dir_ok_length: "length (or_slides t) = length (or_slides s) \<Longrightarrow> dir_ok dir t = dir_ok dir s"
  by (cases dir) (simp_all add: dir_ok_def)

definition leave :: "orbit \<Rightarrow> orbit" where
  "leave s = s\<lparr>or_prev := or_active s\<rparr>"

lemma shift_cases:
  "dir = Goto (or_active s) \<or> length (or_slides s) = 1 \<Longrightarrow> shift E dir s = (Inr (), leave s)"
  "dir \<noteq> Goto (or_active s) \<Longrightarrow> length (or_slides s) \<noteq> 1 \<Longrightarrow> shift E dir s =
     seq_op (when_op (\<not> or_locked s) (go_to E dir (or_active s))) (when_op (oo_singleCycle (or_options s)) stopClock) (leave s)"
  by (auto simp: shift_def Let_def leave_def)

lemma leave_simps [simp]:
  "or_active (leave s) = or_active s" "or_prev (leave s) = or_active s" "or_slides (leave s) = or_slides s"
  "or_locked (leave s) = or_locked s" "or_options (leave s) = or_options s" "or_running (leave s) = or_running s"
  "or_number (leave s) = or_number s" "or_bullets (leave s) = or_bullets s" "or_timer (leave s) = or_timer s"
  "or_caption (leave s) = or_caption s" "or_waiting (leave s) = or_waiting s" "or_intervals (leave s) = or_intervals s"
  "or_clock (leave s) = or_clock s"
  by (simp_all add: leave_def)

lemma framed_shift [intro]: "framed (shift E dir)"
proof (rule framedI)
  fix s :: orbit
  show "same_frame s (snd (shift E dir s))"
  proof (cases "dir = Goto (or_active s) \<or> length (or_slides s) = 1")
    case True
    then show ?thesis by (simp add: shift_cases same_frame_def)
  next
    case False
    have "framed (seq_op (when_op (\<not> or_locked s) (go_to E dir (or_active s))) (when_op (oo_singleCycle (or_options s)) stopClock))"
      by (intro framed_rules framed_go framed_parts)
    then have "same_frame (leave s) (snd (shift E dir s))" using False by (simp add: shift_cases(2) framed_def)
    then show ?thesis by (simp add: same_frame_def)
  qed
qed

lemma framed_rotate [intro]: "framed (rotateTimer E b)"
proof (rule framedI)
  fix s :: orbit
  have s: "same_frame t (snd (shift E NextDir t))" for t by (rule framedD) (rule framed_shift)
  show "same_frame s (snd (rotateTimer E b s))"
  proof (cases "or_timer s")
    case None
    then show ?thesis by (simp add: rotateTimer_def Let_def same_frame_def)
  next
    case (Some t)
    have "same_frame s (s\<lparr>or_degrees := d, or_timer := u\<rparr>)" for d u by (simp add: same_frame_def)
    then show ?thesis using Some same_frame_trans [OF _ s] by (simp add: rotateTimer_def Let_def)
  qed
qed

text \<open>
  The events of a page that goes only to slides there are, starts the clock itself only if it may, and moves the
  slider only when it may.
\<close>

definition event_ok :: "nat \<Rightarrow> bool \<Rightarrow> (orbit \<Rightarrow> bool) \<Rightarrow> orbit_event \<Rightarrow> orbit \<Rightarrow> bool" where
  "event_ok n may_start may_shift ev s =
     (case ev of
        Trigger dir \<Rightarrow> may_shift s \<and> (case dir of Goto i \<Rightarrow> 0 \<le> i \<and> i < int n | _ \<Rightarrow> True)
      | OrbitStart \<Rightarrow> may_start
      | ClickArrow right \<Rightarrow> may_shift s
      | ClickBullet i \<Rightarrow> may_shift s
      | Tick i \<Rightarrow> may_shift s \<or> map_of (or_intervals s) i = None
          \<or> map_of (or_intervals s) i = Some RotateClock \<and> or_degrees s \<le> 358
      | _ \<Rightarrow> True)"

fun events_ok :: "orbit_env \<Rightarrow> nat \<Rightarrow> bool \<Rightarrow> (orbit \<Rightarrow> bool) \<Rightarrow> orbit_event list \<Rightarrow> orbit \<Rightarrow> bool" where
  "events_ok E n may_start may_shift [] s = True"
| "events_ok E n may_start may_shift (ev # evs) s =
     (event_ok n may_start may_shift ev s \<and> events_ok E n may_start may_shift evs (snd (handle_event E ev s)))"

text \<open>A property that the parts of the slider keep, of a slider whose handlers may start the clock only when it does
  not run: then every event keeps it, and none raises.\<close>

locale orbit_invariant =
  fixes E :: orbit_env and n :: nat and P :: "orbit \<Rightarrow> bool" and may_start :: bool
    and may_shift :: "orbit \<Rightarrow> bool"
  assumes slides_n: "\<And>s. P s \<Longrightarrow> length (or_slides s) = n"
    and shift_keeps: "\<And>s dir. P s \<Longrightarrow> may_shift s \<Longrightarrow> dir_ok dir s \<Longrightarrow> fst (shift E dir s) = Inr () \<and> P (snd (shift E dir s))"
    and bullets_made: "\<And>s bs. P s \<Longrightarrow> or_bullets s = Some bs \<Longrightarrow> length bs = length (or_slides s)"
    and stop_keeps: "keeps_op P stopClock"
    and start_keeps: "\<And>s. P s \<Longrightarrow> may_start \<or> \<not> or_running s \<or> \<not> flag_on (oo_timer (or_options s)) \<Longrightarrow>
       fst (startClock E s) = Inr () \<and> P (snd (startClock E s))"
    and timer_made: "\<And>s. P s \<Longrightarrow> oo_resetTimerOnClick (or_options s) \<or> or_intervals s \<noteq> [] \<Longrightarrow> or_timer s \<noteq> None"
    and turn_keeps: "\<And>s d t. P s \<Longrightarrow> or_timer s \<noteq> None \<Longrightarrow> P (s\<lparr>or_degrees := d, or_timer := Some t\<rparr>)"
    and outs_keeps: "\<And>s xs. P s \<Longrightarrow> P (s\<lparr>or_outs := xs\<rparr>)"
      "\<And>s i xs. P s \<Longrightarrow> P (s\<lparr>or_outTimer := i, or_outs := xs, or_next_id := Suc (or_next_id s)\<rparr>)"
    and ends_keeps: "\<And>s i. P s \<Longrightarrow> P (animation_ends i s)"
    and resize_keeps: "\<And>s w h. P s \<Longrightarrow> P (s\<lparr>or_width := w, or_height := h\<rparr>)"
    and images_loaded: "\<And>s. P s \<Longrightarrow> or_waiting s = []"
    and shift_twice: "\<And>s t. P s \<Longrightarrow> oo_resetTimerOnClick (or_options s) \<Longrightarrow> may_shift t"
    and shift_later: "\<And>s. P s \<Longrightarrow> may_shift s \<Longrightarrow> may_shift (snd (stopClock s))"
      "\<And>s d t. may_shift s \<Longrightarrow> may_shift (s\<lparr>or_degrees := d, or_timer := Some t\<rparr>)"
begin

lemma rotate_keeps:
  assumes "P s" "or_timer s \<noteq> None" "may_shift s \<or> \<not> b \<and> or_degrees s \<le> 358"
  shows "fst (rotateTimer E b s) = Inr () \<and> P (snd (rotateTimer E b s))"
proof -
  obtain t where t: "or_timer s = Some t" using assms(2) by blast
  have "dir_ok NextDir u" for u by (simp add: dir_ok_def)
  then show ?thesis
    using shift_keeps [OF turn_keeps [OF assms(1,2)] shift_later(2)] turn_keeps [OF assms(1,2)] t assms(3)
    by (auto simp: rotateTimer_def Let_def)
qed

lemma clicked_keeps:
  assumes "P s" "dir_ok dir s" "may_shift s"
  shows "fst (clicked E dir s) = Inr () \<and> P (snd (clicked E dir s))"
proof -
  obtain s1 where s1: "stopClock s = (Inr (), s1)" "P s1" using stop_keeps assms(1) by (auto simp: keeps_op_def)
  have f1: "same_frame s s1" using framed_parts(1) s1(1) by (metis framed_def snd_conv)
  have m1: "may_shift s1" using shift_later(1) [OF assms(1,3)] s1(1) by simp
  have stopped: "flag_on (oo_timer (or_options s1)) \<Longrightarrow> \<not> or_running s1"
    using s1(1) by (auto simp: stopClock_def Let_def split: if_splits option.splits)
  let ?m = "when_op (oo_resetTimerOnClick (or_options s)) (seq_op (rotateTimer E True) (startClock E))"
  have "\<exists>s2. ?m s1 = (Inr (), s2) \<and> P s2 \<and> may_shift s2 \<and> length (or_slides s2) = length (or_slides s1)"
  proof (cases "oo_resetTimerOnClick (or_options s)")
    case True
    obtain r s2 where r: "rotateTimer E True s1 = (r, s2)" by fastforce
    have f2: "same_frame s1 s2" using framed_rotate [of E True] r by (metis framed_def snd_conv)
    have "or_timer s1 \<noteq> None" using timer_made s1(2) True f1 by (simp add: same_frame_def)
    then have p2: "r = Inr ()" "P s2" using rotate_keeps [of s1 True] s1(2) r m1 by auto
    have "\<not> or_running s2 \<or> \<not> flag_on (oo_timer (or_options s2))" using stopped f2 by (auto simp: same_frame_def)
    then obtain s3 where "startClock E s2 = (Inr (), s3)" "P s3"
      using start_keeps [OF p2(2)] by (metis prod.collapse)
    moreover have "length (or_slides s3) = length (or_slides s2)"
      using calculation(1) by (auto simp: startClock_def Let_def split: if_splits option.splits)
    moreover have "may_shift s3" using shift_twice [OF assms(1) True] .
    ultimately show ?thesis using True r p2 f2 by (simp add: seq_op_def same_frame_def)
  qed (simp add: s1 m1)
  then obtain s2 where s2: "?m s1 = (Inr (), s2)" "P s2" "length (or_slides s2) = length (or_slides s1)" "may_shift s2" by blast
  have "dir_ok dir s2" using assms(2) f1 s2(3) by (cases dir) (simp_all add: dir_ok_def same_frame_def)
  then show ?thesis using shift_keeps [OF s2(2,4)] s1(1) s2(1) by (simp add: clicked_def seq_op_def)
qed

lemma event_keeps:
  assumes "P s" "event_ok n may_start may_shift ev s"
  shows "fst (handle_event E ev s) = Inr () \<and> P (snd (handle_event E ev s))"
proof (cases ev)
  case (Trigger dir)
  then have "dir_ok dir s \<and> may_shift s" using assms slides_n by (cases dir) (simp_all add: event_ok_def dir_ok_def)
  then show ?thesis using Trigger assms(1) shift_keeps by (simp add: handle_event_def)
next
  case OrbitStart
  then show ?thesis using assms start_keeps by (simp add: handle_event_def event_ok_def)
next
  case OrbitStop
  then show ?thesis using keeps_opD [OF stop_keeps] assms by (simp add: handle_event_def)
next
  case ClickTimer
  then show ?thesis using assms start_keeps keeps_opD [OF stop_keeps]
    by (simp add: handle_event_def when_op_def fine_def clickTimer_def)
next
  case (ClickArrow right)
  then show ?thesis using assms clicked_keeps [of s] by (simp add: handle_event_def when_op_def fine_def dir_ok_def event_ok_def)
next
  case (ClickBullet i)
  then show ?thesis using assms clicked_keeps [of s] bullets_made [of s]
    by (auto simp: handle_event_def when_op_def fine_def dir_ok_def event_ok_def split: option.split)
next
  case (Tick i)
  have "or_timer s \<noteq> None" if "map_of (or_intervals s) i \<noteq> None"
    using timer_made [of s] assms(1) that by (cases "or_intervals s") auto
  then show ?thesis
    using Tick assms shift_keeps [of s NextDir] rotate_keeps [of s False]
    by (auto simp: handle_event_def tick_def dir_ok_def event_ok_def split: option.split orbit_clock.split)
next
  case (OutFires i)
  then show ?thesis
    using assms(1) outs_keeps(1) start_keeps [OF outs_keeps(1) [OF assms(1)]]
    by (simp add: handle_event_def out_fires_def when_op_def fine_def)
next
  case MouseEnter
  have "keeps_op P (seq_op (when_op a (fine clearClockMouseLeaveTimer)) (when_op b stopClock))" for a b
    by (intro orbit_rules stop_keeps) (simp add: clearClockMouseLeaveTimer_def outs_keeps(1))
  then have k: "fst (seq_op (when_op a (fine clearClockMouseLeaveTimer)) (when_op b stopClock) s) = Inr ()
      \<and> P (snd (seq_op (when_op a (fine clearClockMouseLeaveTimer)) (when_op b stopClock) s))" for a b
    using keeps_opD assms(1) by blast
  show ?thesis using MouseEnter k assms(1) by (cases "or_timer s") (simp_all add: handle_event_def Let_def)
next
  case MouseLeave
  then show ?thesis using assms(1) outs_keeps(2)
    by (simp add: handle_event_def when_op_def fine_def startTimerAfterMouseLeave_def)
next
  case (AnimationEnds i)
  then show ?thesis using assms(1) ends_keeps by (simp add: handle_event_def fine_def)
next
  case (ImageLoads i)
  then show ?thesis using assms(1) images_loaded by (simp add: handle_event_def image_loads_def)
next
  case (Resize w h)
  then show ?thesis using assms(1) resize_keeps by (simp add: handle_event_def when_op_def fine_def)
qed

lemma events_keep: "P s \<Longrightarrow> events_ok E n may_start may_shift evs s \<Longrightarrow> P (orbit_events E evs s)"
  using event_keeps by (induction evs arbitrary: s) (simp_all add: orbit_events_def)

end

section \<open>The slider never gets stuck\<close>

definition pending :: "slide \<Rightarrow> nat" where
  "pending sd = length (filter (\<lambda>p. snd p = Some ResetAndUnlock) (sd_fx sd))"

definition known_animation :: "string \<Rightarrow> bool" where
  "known_animation k \<longleftrightarrow> k \<in> {''fade'', ''horizontal-slide'', ''vertical-slide'', ''horizontal-push'', ''vertical-push''}"

definition ring_ok :: "orbit \<Rightarrow> bool" where
  "ring_ok s \<longleftrightarrow> 2 \<le> length (or_slides s) \<and> or_number s = int (length (or_slides s))
     \<and> 0 \<le> or_active s \<and> or_active s < or_number s \<and> 0 \<le> or_prev s \<and> or_prev s < or_number s"

definition made_ok :: "orbit \<Rightarrow> bool" where
  "made_ok s \<longleftrightarrow>
     (flag_on (oo_timer (or_options s)) \<or> oo_resetTimerOnClick (or_options s) \<or> or_intervals s \<noteq> [] \<longrightarrow> or_timer s \<noteq> None)
     \<and> (flag_on (oo_captions (or_options s)) \<longrightarrow> or_caption s \<noteq> None) \<and> known_animation (oo_animation (or_options s))
     \<and> or_waiting s = []"

definition one_active :: "int \<Rightarrow> bullet list \<Rightarrow> bool" where
  "one_active a bs \<longleftrightarrow> (\<forall>i < length bs. bu_active (bs ! i) \<longleftrightarrow> int i = a)"

definition bullets_ok :: "orbit \<Rightarrow> bool" where
  "bullets_ok s \<longleftrightarrow>
     (or_bullets s = None \<longleftrightarrow> \<not> oo_bullets (or_options s))
     \<and> (\<forall>bs. or_bullets s = Some bs \<longrightarrow> length bs = length (or_slides s) \<and> one_active (or_active s) bs)"

definition locked_ok :: "orbit \<Rightarrow> bool" where
  "locked_ok s \<longleftrightarrow>
     (\<forall>i < length (or_slides s). pending (or_slides s ! i) = (if or_locked s \<and> int i = or_active s then 1 else 0))"

definition orbit_ok :: "orbit \<Rightarrow> bool" where
  "orbit_ok s \<longleftrightarrow> ring_ok s \<and> made_ok s \<and> bullets_ok s \<and> locked_ok s"

lemma eq_at_nat: "0 \<le> i \<Longrightarrow> i < int (length xs) \<Longrightarrow> eq_at i xs = Some (nat i)"
  by (simp add: eq_at_def)

lemma upd_eq_at: "0 \<le> i \<Longrightarrow> i < int (length xs) \<Longrightarrow> upd_eq i f xs = xs[nat i := f (xs ! nat i)]"
  by (simp add: upd_eq_def eq_at_nat)

lemma upd_eq_nth: "0 \<le> i \<Longrightarrow> j < length xs \<Longrightarrow> upd_eq i f xs ! j = (if int j = i then f (xs ! j) else xs ! j)"
  by (auto simp: upd_eq_def eq_at_def nth_list_update)

lemma pending_simps [simp]:
  "pending (sd\<lparr>sd_z := z\<rparr>) = pending sd" "pending (sd\<lparr>sd_left := x\<rparr>) = pending sd" "pending (sd\<lparr>sd_top := y\<rparr>) = pending sd"
  "pending (sd\<lparr>sd_opacity := v\<rparr>) = pending sd" "pending (sd\<lparr>sd_block := b\<rparr>) = pending sd"
  "pending (animate g k sd) = pending sd + (if k = Some ResetAndUnlock then 1 else 0)"
  by (simp_all add: pending_def animate_def)

lemma pending_entering: "known_animation kind \<Longrightarrow> pending (entering kind b w h sd) = Suc (pending sd)"
  by (auto simp: known_animation_def entering_def)

lemma pending_leaving [simp]: "pending (leaving kind b w h sd) = pending sd"
  by (simp add: leaving_def)

lemma new_active_range:
  "ring_ok s \<Longrightarrow> dir_ok dir s \<Longrightarrow> 0 \<le> new_active dir s \<and> new_active dir s < or_number s"
  by (auto simp: new_active_def dir_ok_def ring_ok_def split: direction.split)

lemma new_active_other: "ring_ok s \<Longrightarrow> dir \<noteq> Goto (or_active s) \<Longrightarrow> new_active dir s \<noteq> or_active s"
  by (auto simp: new_active_def ring_ok_def split: direction.split)

lemma set_one_active:
  "0 \<le> a \<Longrightarrow> one_active a (upd_eq a (\<lambda>b. b\<lparr>bu_active := True\<rparr>) (map (\<lambda>b. b\<lparr>bu_active := False\<rparr>) bs))"
  by (simp add: one_active_def upd_eq_nth)

text \<open>Captions and the clock leave alone what the invariant is about.\<close>

definition aside :: "orbit \<Rightarrow> orbit \<Rightarrow> bool" where
  "aside s t \<longleftrightarrow>
     or_options t = or_options s \<and> or_slides t = or_slides s \<and> or_active t = or_active s \<and> or_prev t = or_prev s
     \<and> or_number t = or_number s \<and> or_locked t = or_locked s \<and> or_bullets t = or_bullets s \<and> or_waiting t = or_waiting s
     \<and> (or_caption t = None \<longleftrightarrow> or_caption s = None) \<and> (or_timer t = None \<longleftrightarrow> or_timer s = None)
     \<and> (or_intervals t \<noteq> [] \<longrightarrow> or_intervals s \<noteq> [] \<or> or_timer s \<noteq> None)"

lemma aside_refl [simp]: "aside s s"
  by (simp add: aside_def)

lemma aside_ok: "aside s t \<Longrightarrow> orbit_ok s \<Longrightarrow> orbit_ok t"
  unfolding aside_def orbit_ok_def ring_ok_def made_ok_def bullets_ok_def locked_ok_def by auto

lemma setCaption_aside:
  assumes "flag_on (oo_captions (or_options s)) \<longrightarrow> or_caption s \<noteq> None"
  shows "fst (setCaption E s) = Inr () \<and> aside s (snd (setCaption E s))"
  using assms by (auto simp: setCaption_def Let_def aside_def split: option.split)

lemma stopClock_aside:
  assumes "flag_on (oo_timer (or_options s)) \<longrightarrow> or_timer s \<noteq> None"
  shows "fst (stopClock s) = Inr () \<and> aside s (snd (stopClock s))"
  using assms by (auto simp: stopClock_def Let_def aside_def split: option.split)

lemma startClock_aside:
  assumes "flag_on (oo_timer (or_options s)) \<longrightarrow> or_timer s \<noteq> None"
  shows "fst (startClock E s) = Inr () \<and> aside s (snd (startClock E s))"
  using assms by (auto simp: startClock_def Let_def aside_def split: option.split)

lemma setActiveBullet_effect:
  assumes "or_bullets s = None \<longleftrightarrow> \<not> oo_bullets (or_options s)"
  shows "setActiveBullet s =
    (Inr (), s\<lparr>or_bullets := map_option (\<lambda>bs. upd_eq (or_active s) (\<lambda>b. b\<lparr>bu_active := True\<rparr>) (map (\<lambda>b. b\<lparr>bu_active := False\<rparr>) bs)) (or_bullets s)\<rparr>)"
proof (cases "or_bullets s")
  case None
  then have "s\<lparr>or_bullets := None\<rparr> = s" by simp
  with None show ?thesis using assms by (simp add: setActiveBullet_def)
qed (use assms in \<open>simp add: setActiveBullet_def\<close>)

text \<open>The branch of \<open>shift\<close> that moves.\<close>

lemma go_to_ok:
  assumes "orbit_ok s" "dir_ok dir s" "\<not> or_locked s" "dir \<noteq> Goto (or_active s)" "or_prev s = or_active s" "prev = or_active s"
  shows "fst (go_to E dir prev s) = Inr () \<and> orbit_ok (snd (go_to E dir prev s))"
proof -
  let ?a = "new_active dir s" and ?n = "length (or_slides s)"
  define bs where "bs = map_option (\<lambda>bs. upd_eq ?a (\<lambda>b. b\<lparr>bu_active := True\<rparr>) (map (\<lambda>b. b\<lparr>bu_active := False\<rparr>) bs)) (or_bullets s)"
  define s1 where "s1 = s\<lparr>or_locked := True, or_active := ?a, or_bullets := bs\<rparr>"
  define s2 where "s2 = move_slides (is_forward dir prev) s1"
  have ring: "ring_ok s" and made: "made_ok s" and bul: "bullets_ok s" and lock: "locked_ok s"
    using assms(1) by (simp_all add: orbit_ok_def)
  have a: "0 \<le> ?a" "?a < or_number s" "?a \<noteq> or_active s"
    using new_active_range [OF ring assms(2)] new_active_other [OF ring assms(4)] by simp_all
  have s1: "setActiveBullet (s\<lparr>or_locked := True, or_active := ?a\<rparr>) = (Inr (), s1)"
    using bul by (subst setActiveBullet_effect) (simp_all add: bullets_ok_def s1_def bs_def)
  have s2: "or_options s2 = or_options s" "or_number s2 = or_number s" "or_active s2 = ?a" "or_prev s2 = or_prev s"
    "or_locked s2" "or_bullets s2 = bs" "or_waiting s2 = or_waiting s" "or_caption s2 = or_caption s" "or_timer s2 = or_timer s"
    "or_intervals s2 = or_intervals s" "length (or_slides s2) = ?n"
    by (simp_all add: s2_def s1_def move_slides_def Let_def)
  have "ring_ok s2" using ring a by (simp add: ring_ok_def s2)
  moreover have "made_ok s2" using made by (simp add: made_ok_def s2)
  moreover have "bullets_ok s2"
    using bul set_one_active [OF a(1)] by (auto simp: bullets_ok_def s2 bs_def)
  moreover have "locked_ok s2"
  proof -
    have "pending (or_slides s2 ! i) = (if int i = ?a then Suc (pending (or_slides s ! i)) else pending (or_slides s ! i))" if "i < ?n" for i
      using that made a ring pending_entering
      by (simp add: s2_def s1_def move_slides_def Let_def upd_eq_nth made_ok_def ring_ok_def)
    then show ?thesis using lock assms(3) by (simp add: locked_ok_def s2)
  qed
  ultimately have ok: "orbit_ok s2" by (simp add: orbit_ok_def)
  then have "flag_on (oo_captions (or_options s2)) \<longrightarrow> or_caption s2 \<noteq> None" by (simp add: orbit_ok_def made_ok_def)
  from setCaption_aside [OF this] aside_ok ok s1 show ?thesis
    by (auto simp: go_to_def seq_op_def fine_def s2_def)
qed

lemma leave_ok [simp]: "orbit_ok s \<Longrightarrow> orbit_ok (leave s)" "dir_ok dir (leave s) = dir_ok dir s"
  by (simp add: orbit_ok_def ring_ok_def made_ok_def bullets_ok_def locked_ok_def) (rule dir_ok_length, simp)

lemma shift_ok:
  assumes "orbit_ok s" "dir_ok dir s"
  shows "fst (shift E dir s) = Inr () \<and> orbit_ok (snd (shift E dir s))"
proof (cases "dir = Goto (or_active s) \<or> length (or_slides s) = 1")
  case True
  then show ?thesis using assms(1) by (simp add: shift_cases(1))
next
  case False
  obtain r s2 where g: "when_op (\<not> or_locked s) (go_to E dir (or_active s)) (leave s) = (r, s2)" by fastforce
  have s2: "r = Inr () \<and> orbit_ok s2"
  proof (cases "or_locked s")
    case True
    then show ?thesis using g leave_ok(1) [OF assms(1)] by auto
  next
    case False
    then have "fst (go_to E dir (or_active s) (leave s)) = Inr () \<and> orbit_ok (snd (go_to E dir (or_active s) (leave s)))"
      using go_to_ok [OF leave_ok(1) [OF assms(1)]] assms(2) \<open>\<not> (dir = Goto (or_active s) \<or> length (or_slides s) = 1)\<close> by simp
    then show ?thesis using g False by simp
  qed
  have "flag_on (oo_timer (or_options s2)) \<longrightarrow> or_timer s2 \<noteq> None" using s2 by (simp add: orbit_ok_def made_ok_def)
  then have "fst (when_op b stopClock s2) = Inr () \<and> orbit_ok (snd (when_op b stopClock s2))" for b
    using stopClock_aside [of s2] aside_ok [of s2 "snd (stopClock s2)"] s2 by (cases b) simp_all
  with s2 show ?thesis using False g by (simp add: shift_cases(2) seq_op_def)
qed

lemma pending_after:
  assumes "sd_fx sd = (g, k) # fxs"
  shows "pending ((reach_goal g sd)\<lparr>sd_fx := fxs\<rparr>) = pending sd - (if k = Some ResetAndUnlock then 1 else 0)"
    "k = Some ResetAndUnlock \<Longrightarrow> 0 < pending sd"
  using assms by (simp_all add: pending_def)

lemma animation_ends_ok:
  assumes "orbit_ok s"
  shows "orbit_ok (animation_ends i s)"
proof (cases "i < length (or_slides s) \<and> sd_fx (or_slides s ! i) \<noteq> []")
  case True
  then obtain g k fxs where f: "sd_fx (or_slides s ! i) = (g, k) # fxs" by (cases "sd_fx (or_slides s ! i)") auto
  define s1 where "s1 = s\<lparr>or_slides := (or_slides s)[i := (reach_goal g (or_slides s ! i))\<lparr>sd_fx := fxs\<rparr>]\<rparr>"
  have e: "animation_ends i s = after_fx k s1" using True f by (simp add: animation_ends_def s1_def)
  have p: "pending (or_slides s1 ! j) = pending (or_slides s ! j) - (if j = i \<and> k = Some ResetAndUnlock then 1 else 0)"
    if "j < length (or_slides s)" for j
    using that f True by (auto simp: s1_def nth_list_update pending_after)
  have rest: "ring_ok s1" "made_ok s1" "bullets_ok s1"
    using assms by (simp_all add: orbit_ok_def s1_def ring_ok_def made_ok_def bullets_ok_def)
  show ?thesis
  proof (cases "k = Some ResetAndUnlock")
    case k: True
    then have "or_locked s" "int i = or_active s"
      using pending_after(2) [OF f] assms True by (auto simp: orbit_ok_def locked_ok_def split: if_splits)
    then have "pending (or_slides s1 ! j) = 0" if "j < length (or_slides s)" for j
      using p [OF that] assms that k by (auto simp: orbit_ok_def locked_ok_def)
    then have "locked_ok (resetAndUnlock s1)"
      using rest(1) by (simp add: locked_ok_def resetAndUnlock_def upd_eq_nth ring_ok_def s1_def)
    then show ?thesis
      using rest k by (simp add: e after_fx_def orbit_ok_def resetAndUnlock_def ring_ok_def made_ok_def bullets_ok_def)
  next
    case False
    then have "locked_ok (after_fx k s1)"
      using p assms by (auto simp: locked_ok_def orbit_ok_def after_fx_def s1_def split: option.split fx_after.split)
    then show ?thesis
      using rest False by (auto simp: e after_fx_def orbit_ok_def ring_ok_def made_ok_def bullets_ok_def split: option.split fx_after.split)
  qed
next
  case False
  then show ?thesis using assms by (auto simp: animation_ends_def)
qed

definition orbit_n :: "nat \<Rightarrow> orbit \<Rightarrow> bool" where
  "orbit_n n s \<longleftrightarrow> orbit_ok s \<and> length (or_slides s) = n"

lemma aside_n: "aside s t \<Longrightarrow> orbit_n n s \<Longrightarrow> orbit_n n t"
  using aside_ok [of s t] aside_def [of s t] by (simp add: orbit_n_def)

lemma orbit_n_made: "orbit_n n s \<Longrightarrow> flag_on (oo_timer (or_options s)) \<longrightarrow> or_timer s \<noteq> None"
  "orbit_n n s \<Longrightarrow> oo_resetTimerOnClick (or_options s) \<or> or_intervals s \<noteq> [] \<Longrightarrow> or_timer s \<noteq> None"
  "orbit_n n s \<Longrightarrow> or_waiting s = []" "orbit_n n s \<Longrightarrow> or_bullets s = Some bs \<Longrightarrow> length bs = length (or_slides s)"
  "orbit_n n s \<Longrightarrow> length (or_slides s) = n"
  by (auto simp: orbit_n_def orbit_ok_def made_ok_def bullets_ok_def)

lemma animation_ends_n: "orbit_n n s \<Longrightarrow> orbit_n n (animation_ends i s)"
proof -
  have "length (or_slides (animation_ends i s)) = length (or_slides s)"
    by (auto simp: animation_ends_def after_fx_def resetAndUnlock_def split: list.split option.split fx_after.split)
  then show "orbit_n n s \<Longrightarrow> orbit_n n (animation_ends i s)" using animation_ends_ok by (simp add: orbit_n_def)
qed

lemma aside_small:
  "or_timer s \<noteq> None \<Longrightarrow> aside s (s\<lparr>or_degrees := d, or_timer := Some t\<rparr>)" "aside s (s\<lparr>or_outs := xs\<rparr>)"
  "aside s (s\<lparr>or_outTimer := i, or_outs := xs, or_next_id := k\<rparr>)" "aside s (s\<lparr>or_width := w, or_height := h\<rparr>)"
  by (simp_all add: aside_def)

lemma shift_n:
  assumes "orbit_n n s" "dir_ok dir s"
  shows "fst (shift E dir s) = Inr () \<and> orbit_n n (snd (shift E dir s))"
  using shift_ok [of s dir E] framedD [OF framed_shift, of s E dir] assms by (simp add: same_frame_def orbit_n_def)

lemma stopClock_n: "keeps_op (orbit_n n) stopClock"
  by (rule keeps_opI) (use stopClock_aside orbit_n_made(1) aside_n in blast)

lemma startClock_n: "orbit_n n s \<Longrightarrow> fst (startClock E s) = Inr () \<and> orbit_n n (snd (startClock E s))"
  using startClock_aside [OF orbit_n_made(1)] aside_n by blast

interpretation stuck: orbit_invariant E n "orbit_n n" True "\<lambda>s. True" for E n
proof (unfold_locales, goal_cases)
  case (3 s bs)
  then show ?case by (rule orbit_n_made(4))
next
  case (6 s)
  then show ?case by (rule orbit_n_made(2))
next
  case (7 s d t)
  then show ?case by (intro aside_n [OF aside_small(1)])
qed (simp_all add: orbit_n_made shift_n stopClock_n startClock_n animation_ends_n aside_n [OF aside_small(2)]
    aside_n [OF aside_small(3)] aside_n [OF aside_small(4)])

section \<open>The slide in front\<close>

text \<open>If the slider is moved only when it is not locked, the active slide is above all others.\<close>

definition z_ok :: "bool \<Rightarrow> int \<Rightarrow> int \<Rightarrow> nat \<Rightarrow> int option \<Rightarrow> bool" where
  "z_ok locked prev active i z \<longleftrightarrow>
     (if int i = active then z = Some 3 else if locked \<and> int i = prev then z = Some 2 else z = None \<or> z = Some 1)"

definition front_ok :: "orbit \<Rightarrow> bool" where
  "front_ok s \<longleftrightarrow>
     (or_locked s \<longrightarrow> or_prev s \<noteq> or_active s)
     \<and> (\<forall>i < length (or_slides s). z_ok (or_locked s) (or_prev s) (or_active s) i (sd_z (or_slides s ! i)))"

lemma z_ok_unlocked: "z_ok False p a i z = z_ok False q a i z"
  by (simp add: z_ok_def)

lemma front_aside: "aside s t \<Longrightarrow> front_ok s \<Longrightarrow> front_ok t"
  by (simp add: aside_def front_ok_def)

lemma z_entering: "known_animation kind \<Longrightarrow> sd_z (entering kind b w h sd) = Some 3"
  by (auto simp: known_animation_def entering_def animate_def)

lemma z_leaving [simp]: "sd_z (leaving kind b w h sd) = sd_z sd"
  by (simp add: leaving_def animate_def)

lemma go_to_front:
  assumes "orbit_ok s" "front_ok s" "dir_ok dir s" "\<not> or_locked s" "dir \<noteq> Goto (or_active s)" "or_prev s = or_active s" "prev = or_active s"
  shows "front_ok (snd (go_to E dir prev s))"
proof -
  let ?a = "new_active dir s"
  have ring: "ring_ok s" and made: "made_ok s" and bul: "bullets_ok s" using assms(1) by (simp_all add: orbit_ok_def)
  have a: "0 \<le> ?a" "?a < or_number s" "?a \<noteq> or_active s"
    using new_active_range [OF ring assms(3)] new_active_other [OF ring assms(5)] by simp_all
  define s0 where "s0 = s\<lparr>or_locked := True, or_active := ?a\<rparr>"
  have "\<exists>b. setActiveBullet s0 = (Inr (), s0\<lparr>or_bullets := b\<rparr>)"
    using bul by (subst setActiveBullet_effect) (auto simp: bullets_ok_def s0_def)
  then obtain b where b: "setActiveBullet s0 = (Inr (), s0\<lparr>or_bullets := b\<rparr>)" by blast
  define s2 where "s2 = move_slides (is_forward dir prev) (s0\<lparr>or_bullets := b\<rparr>)"
  have z: "sd_z (or_slides s2 ! i) =
      (if int i = ?a then Some 3 else if int i = or_active s then Some 2 else sd_z (or_slides s ! i))"
    if "i < length (or_slides s)" for i
    using that made a ring z_entering assms(6)
    by (simp add: s2_def s0_def move_slides_def Let_def upd_eq_nth made_ok_def ring_ok_def)
  have s2: "length (or_slides s2) = length (or_slides s)" "or_active s2 = ?a" "or_prev s2 = or_active s" "or_locked s2"
      "or_options s2 = or_options s" "or_caption s2 = or_caption s"
    using assms(6) by (simp_all add: s2_def s0_def move_slides_def Let_def)
  have "front_ok s2" using z a(3) assms(2,4) by (auto simp: front_ok_def z_ok_def s2)
  moreover have "aside s2 (snd (setCaption E s2))"
    using setCaption_aside [of s2 E] made by (simp add: s2 made_ok_def)
  moreover have "snd (go_to E dir prev s) = snd (setCaption E s2)"
    using b by (simp add: go_to_def seq_op_def fine_def s2_def s0_def)
  ultimately show ?thesis using front_aside by simp
qed

lemma front_stop: "orbit_n n s \<Longrightarrow> front_ok s \<Longrightarrow> front_ok (snd (stopClock s))"
  using stopClock_aside [OF orbit_n_made(1)] front_aside by blast

lemma front_leave: "front_ok s \<Longrightarrow> \<not> or_locked s \<Longrightarrow> front_ok (leave s)"
  by (simp add: front_ok_def z_ok_def)

lemma shift_front:
  assumes "orbit_n n s" "front_ok s" "dir_ok dir s" "\<not> or_locked s"
  shows "front_ok (snd (shift E dir s))"
proof -
  have ok: "orbit_ok (leave s)" "front_ok (leave s)" "dir_ok dir (leave s)" "\<not> or_locked (leave s)"
    using front_leave [OF assms(2,4)] leave_ok(1) [of s] assms by (simp_all add: orbit_n_def)
  show ?thesis
  proof (cases "dir = Goto (or_active s) \<or> length (or_slides s) = 1")
    case True
    then show ?thesis using ok(2) by (simp only: shift_cases(1) snd_conv)
  next
    case False
    then have d: "dir \<noteq> Goto (or_active (leave s))" by simp
    have p: "or_prev (leave s) = or_active (leave s)" by simp
    have g: "fst (go_to E dir (or_active s) (leave s)) = Inr () \<and> orbit_ok (snd (go_to E dir (or_active s) (leave s)))"
      using go_to_ok [OF ok(1,3,4) d p refl] by simp
    have f: "front_ok (snd (go_to E dir (or_active s) (leave s)))"
      using go_to_front [OF ok d p refl] by simp
    obtain r s2 where e: "go_to E dir (or_active s) (leave s) = (r, s2)" by fastforce
    then have r: "r = Inr ()" "orbit_n (length (or_slides s2)) s2" "front_ok s2"
      using g f by (simp_all add: orbit_n_def)
    have "front_ok (snd (when_op b stopClock s2))" for b
      using front_stop [OF r(2,3)] r(3) by (cases b) simp_all
    then show ?thesis using False e r(1) assms(4) by (simp add: shift_cases(2) seq_op_def)
  qed
qed

lemma front_ends:
  assumes "orbit_ok s" "front_ok s"
  shows "front_ok (animation_ends i s)"
proof (cases "i < length (or_slides s) \<and> sd_fx (or_slides s ! i) \<noteq> []")
  case True
  then obtain g k fxs where f: "sd_fx (or_slides s ! i) = (g, k) # fxs" by (cases "sd_fx (or_slides s ! i)") auto
  define s1 where "s1 = s\<lparr>or_slides := (or_slides s)[i := (reach_goal g (or_slides s ! i))\<lparr>sd_fx := fxs\<rparr>]\<rparr>"
  have e: "animation_ends i s = after_fx k s1" using True f by (simp add: animation_ends_def s1_def)
  have "sd_z (reach_goal g sd) = sd_z sd" for sd by (simp add: reach_goal_def split: fx_goal.split)
  then have z: "sd_z (or_slides s1 ! j) = sd_z (or_slides s ! j)" if "j < length (or_slides s)" for j
    using that True by (simp add: s1_def nth_list_update)
  have f1: "front_ok s1" using z assms(2) by (simp add: front_ok_def s1_def)
  have r: "0 \<le> or_prev s1" using assms(1) by (simp add: s1_def orbit_ok_def ring_ok_def)
  have l: "or_locked s1" if "k = Some ResetAndUnlock"
    using pending_after(2) [OF f that] assms(1) True by (auto simp: orbit_ok_def locked_ok_def s1_def split: if_splits)
  show ?thesis
  proof (cases "k = Some ResetAndUnlock")
    case k: True
    then show ?thesis using f1 l r by (auto simp: e after_fx_def front_ok_def resetAndUnlock_def upd_eq_nth z_ok_def)
  next
    case False
    then show ?thesis using f1 by (auto simp: e after_fx_def front_ok_def split: option.split fx_after.split)
  qed
next
  case False
  then show ?thesis using assms by (auto simp: animation_ends_def)
qed

definition front_n :: "nat \<Rightarrow> orbit \<Rightarrow> bool" where
  "front_n n s \<longleftrightarrow> orbit_n n s \<and> front_ok s \<and> \<not> oo_resetTimerOnClick (or_options s)"

lemma front_n_aside: "aside s t \<Longrightarrow> front_n n s \<Longrightarrow> front_n n t"
  using aside_n front_aside unfolding front_n_def by (metis aside_def)

lemma front_n_made: "front_n n s \<Longrightarrow> flag_on (oo_timer (or_options s)) \<longrightarrow> or_timer s \<noteq> None"
  "front_n n s \<Longrightarrow> oo_resetTimerOnClick (or_options s) \<or> or_intervals s \<noteq> [] \<Longrightarrow> or_timer s \<noteq> None"
  "front_n n s \<Longrightarrow> or_waiting s = []" "front_n n s \<Longrightarrow> or_bullets s = Some bs \<Longrightarrow> length bs = length (or_slides s)"
  "front_n n s \<Longrightarrow> length (or_slides s) = n" "front_n n s \<Longrightarrow> \<not> oo_resetTimerOnClick (or_options s)"
  using orbit_n_made by (auto simp: front_n_def)

lemma front_n_parts:
  "front_n n s \<Longrightarrow> \<not> or_locked s \<Longrightarrow> dir_ok dir s \<Longrightarrow> fst (shift E dir s) = Inr () \<and> front_n n (snd (shift E dir s))"
  "keeps_op (front_n n) stopClock" "front_n n s \<Longrightarrow> front_n n (animation_ends i s)"
proof -
  show "front_n n s \<Longrightarrow> \<not> or_locked s \<Longrightarrow> dir_ok dir s \<Longrightarrow> fst (shift E dir s) = Inr () \<and> front_n n (snd (shift E dir s))"
    using shift_n [of n s dir E] shift_front [of n s dir E] framedD [OF framed_shift, of s E dir]
    by (simp add: front_n_def same_frame_def)
  show "keeps_op (front_n n) stopClock"
    by (rule keeps_opI) (use stopClock_aside front_n_made(1) front_n_aside in blast)
  have "or_options (animation_ends i s) = or_options s"
    by (auto simp: animation_ends_def after_fx_def resetAndUnlock_def split: list.split option.split fx_after.split)
  then show "front_n n s \<Longrightarrow> front_n n (animation_ends i s)"
    using animation_ends_n front_ends by (simp add: front_n_def orbit_n_def)
qed

lemma startClock_front: "front_n n s \<Longrightarrow> fst (startClock E s) = Inr () \<and> front_n n (snd (startClock E s))"
  using startClock_aside [OF front_n_made(1)] front_n_aside by blast

lemma stopClock_locked [simp]: "or_locked (snd (stopClock s)) = or_locked s"
  by (simp add: stopClock_def Let_def split: option.split)

interpretation front: orbit_invariant E n "front_n n" True "\<lambda>s. \<not> or_locked s" for E n
proof (unfold_locales, goal_cases)
  case (3 s bs)
  then show ?case by (rule front_n_made(4))
next
  case (6 s)
  then show ?case by (rule front_n_made(2))
next
  case (7 s d t)
  then show ?case by (intro front_n_aside [OF aside_small(1)])
qed (simp_all add: front_n_made front_n_parts startClock_front front_n_aside [OF aside_small(2)]
    front_n_aside [OF aside_small(3)] front_n_aside [OF aside_small(4)])

section \<open>One clock\<close>

text \<open>If the timer is visible and the page does not start the clock itself, there is one interval while the timer
  runs and none while it does not.\<close>

definition clock_ok :: "orbit \<Rightarrow> bool" where
  "clock_ok s \<longleftrightarrow>
     (if or_running s then \<exists>c. or_clock s = Some c \<and> or_intervals s = [(c, RotateClock)] else or_intervals s = [])"

definition same_clock :: "orbit \<Rightarrow> orbit \<Rightarrow> bool" where
  "same_clock s t \<longleftrightarrow> or_running t = or_running s \<and> or_clock t = or_clock s \<and> or_intervals t = or_intervals s"

lemma clock_same: "same_clock s t \<Longrightarrow> clock_ok s \<Longrightarrow> clock_ok t"
  by (simp add: same_clock_def clock_ok_def)

lemma same_clock_parts:
  "same_clock s (snd (setActiveBullet s))" "same_clock s (snd (setCaption E s))" "same_clock s (move_slides b s)"
  "same_clock s (leave s)" "same_clock s (animation_ends i s)"
  by (auto simp: same_clock_def setActiveBullet_def setCaption_def move_slides_def Let_def animation_ends_def after_fx_def
      resetAndUnlock_def split: option.split list.split fx_after.split)

lemma same_clock_trans: "same_clock a b \<Longrightarrow> same_clock b c \<Longrightarrow> same_clock a c"
  by (simp add: same_clock_def)

lemma go_to_clock: "same_clock s (snd (go_to E dir prev s))"
proof -
  let ?s0 = "s\<lparr>or_locked := True, or_active := new_active dir s\<rparr>"
  obtain r s1 where b: "setActiveBullet ?s0 = (r, s1)" by fastforce
  have "same_clock s ?s0" by (simp add: same_clock_def)
  then have s1: "same_clock s s1" using same_clock_parts(1) [of ?s0] b same_clock_trans by simp
  then have "same_clock s (snd (setCaption E (move_slides c s1)))" for c
    using same_clock_parts(2,3) same_clock_trans by blast
  then show ?thesis using b s1 by (simp add: go_to_def seq_op_def fine_def split: sum.split)
qed

lemma clock_stop:
  assumes "clock_ok s" "\<not> flag_on (oo_timer (or_options s)) \<longrightarrow> \<not> or_running s"
  shows "clock_ok (snd (stopClock s))"
  using assms by (auto simp: clock_ok_def stopClock_def Let_def split: option.split if_splits)

definition clock_n :: "nat \<Rightarrow> orbit \<Rightarrow> bool" where
  "clock_n n s \<longleftrightarrow> orbit_n n s \<and> clock_ok s \<and> (\<not> flag_on (oo_timer (or_options s)) \<longrightarrow> \<not> or_running s)"

lemma clock_n_same:
  "clock_n n s \<Longrightarrow> orbit_n n t \<Longrightarrow> same_clock s t \<Longrightarrow> or_options t = or_options s \<Longrightarrow> clock_n n t"
  using clock_same by (simp add: clock_n_def same_clock_def)

lemma clock_n_made: "clock_n n s \<Longrightarrow> flag_on (oo_timer (or_options s)) \<longrightarrow> or_timer s \<noteq> None"
  "clock_n n s \<Longrightarrow> oo_resetTimerOnClick (or_options s) \<or> or_intervals s \<noteq> [] \<Longrightarrow> or_timer s \<noteq> None"
  "clock_n n s \<Longrightarrow> or_waiting s = []" "clock_n n s \<Longrightarrow> or_bullets s = Some bs \<Longrightarrow> length bs = length (or_slides s)"
  "clock_n n s \<Longrightarrow> length (or_slides s) = n" "clock_n n s \<Longrightarrow> orbit_n n s"
  using orbit_n_made by (auto simp: clock_n_def)

lemma clock_n_aside: "aside s t \<Longrightarrow> same_clock s t \<Longrightarrow> clock_n n s \<Longrightarrow> clock_n n t"
  using clock_n_same [of n s t] aside_n [of s t n] clock_n_made(6) [of n s] aside_def [of s t] by blast

lemma stopClock_clock: "clock_n n s \<Longrightarrow> fst (stopClock s) = Inr () \<and> clock_n n (snd (stopClock s))"
proof -
  assume s: "clock_n n s"
  have "same_frame s (snd (stopClock s))" by (rule framedD) (rule framed_parts)
  then show ?thesis
    using s keeps_opD [OF stopClock_n clock_n_made(6) [OF s]] clock_stop [of s] by (auto simp: clock_n_def same_frame_def)
qed

lemma startClock_clock:
  assumes "clock_n n s" "\<not> or_running s \<or> \<not> flag_on (oo_timer (or_options s))"
  shows "fst (startClock (E\<lparr>oe_timer_hidden := False\<rparr>) s) = Inr () \<and> clock_n n (snd (startClock (E\<lparr>oe_timer_hidden := False\<rparr>) s))"
proof -
  let ?E = "E\<lparr>oe_timer_hidden := False\<rparr>"
  have "\<not> or_running s" using assms by (auto simp: clock_n_def)
  then have "clock_ok (snd (startClock ?E s))" "\<not> flag_on (oo_timer (or_options s)) \<longrightarrow> \<not> or_running (snd (startClock ?E s))"
    using assms(1) by (auto simp: clock_n_def clock_ok_def startClock_def Let_def split: option.split)
  moreover have "or_options (snd (startClock ?E s)) = or_options s"
    by (simp add: startClock_def Let_def split: option.split)
  ultimately show ?thesis using startClock_n [OF clock_n_made(6) [OF assms(1)], of ?E] by (simp add: clock_n_def)
qed

lemma shift_clock:
  assumes "clock_n n s" "dir_ok dir s"
  shows "fst (shift E dir s) = Inr () \<and> clock_n n (snd (shift E dir s))"
proof -
  have ok: "fst (shift E dir s) = Inr ()" "orbit_n n (snd (shift E dir s))" "same_frame s (snd (shift E dir s))"
    using shift_n [OF clock_n_made(6) [OF assms(1)] assms(2), of E] framedD [OF framed_shift, of s E dir] by simp_all
  have run: "\<not> flag_on (oo_timer (or_options s)) \<longrightarrow> \<not> or_running s" using assms(1) by (simp add: clock_n_def)
  have "clock_ok (snd (shift E dir s))"
  proof (cases "dir = Goto (or_active s) \<or> length (or_slides s) = 1")
    case True
    then show ?thesis using assms(1) clock_same [OF same_clock_parts(4)] by (simp add: shift_cases(1) clock_n_def)
  next
    case False
    obtain r s2 where e: "when_op (\<not> or_locked s) (go_to E dir (or_active s)) (leave s) = (r, s2)" by fastforce
    have "same_clock s s2"
      using e go_to_clock [of "leave s" E dir "or_active s"] same_clock_parts(4) [of s] same_clock_trans
      by (cases "or_locked s") auto
    then have s2: "clock_ok s2" "or_running s2 = or_running s" using assms(1) clock_same by (simp_all add: clock_n_def same_clock_def)
    have "same_frame (leave s) s2"
      using e framedD [OF framed_rules(2) [OF framed_go], of "leave s" "\<not> or_locked s" E dir "or_active s"] by simp
    then have "clock_ok (snd (when_op b stopClock s2))" for b
      using clock_stop [OF s2(1)] s2 run by (cases b) (auto simp: same_frame_def)
    then show ?thesis using False e s2(1) by (simp add: shift_cases(2) seq_op_def split: sum.split)
  qed
  then show ?thesis using ok run by (auto simp: clock_n_def same_frame_def)
qed

lemma ends_clock: "clock_n n s \<Longrightarrow> clock_n n (animation_ends i s)"
proof -
  have "or_options (animation_ends i s) = or_options s"
    by (auto simp: animation_ends_def after_fx_def resetAndUnlock_def split: list.split option.split fx_after.split)
  then show "clock_n n s \<Longrightarrow> clock_n n (animation_ends i s)"
    using clock_n_same [OF _ animation_ends_n same_clock_parts(5)] clock_n_made(6) by blast
qed

lemma same_clock_small:
  "same_clock s (s\<lparr>or_degrees := d, or_timer := Some t\<rparr>)" "same_clock s (s\<lparr>or_outs := xs\<rparr>)"
  "same_clock s (s\<lparr>or_outTimer := i, or_outs := xs, or_next_id := k\<rparr>)" "same_clock s (s\<lparr>or_width := w, or_height := h\<rparr>)"
  by (simp_all add: same_clock_def)

interpretation clock: orbit_invariant "E\<lparr>oe_timer_hidden := False\<rparr>" n "clock_n n" False "\<lambda>s. True" for E n
proof (unfold_locales, goal_cases)
  case (3 s bs)
  then show ?case by (rule clock_n_made(4))
next
  case 4
  show ?case by (rule keeps_opI) (rule stopClock_clock)
next
  case (5 s)
  then show ?case by (intro startClock_clock) simp_all
next
  case (6 s)
  then show ?case by (rule clock_n_made(2))
next
  case (7 s d t)
  then show ?case by (intro clock_n_aside [OF aside_small(1) same_clock_small(1)])
qed (simp_all add: clock_n_made shift_clock ends_clock clock_n_aside [OF aside_small(2) same_clock_small(2)]
    clock_n_aside [OF aside_small(3) same_clock_small(3)] clock_n_aside [OF aside_small(4) same_clock_small(4)])

section \<open>Loading\<close>

text \<open>What loading leaves as it is, part for part.\<close>

definition same_load :: "orbit \<Rightarrow> orbit \<Rightarrow> bool" where
  "same_load s t \<longleftrightarrow>
     or_options t = or_options s \<and> or_slides t = or_slides s \<and> or_active t = or_active s \<and> or_prev t = or_prev s
     \<and> or_number t = or_number s \<and> or_locked t = or_locked s \<and> or_waiting t = or_waiting s \<and> or_calls t = or_calls s"

definition unloaded :: "orbit \<Rightarrow> bool" where
  "unloaded s \<longleftrightarrow>
     or_active s = 0 \<and> or_prev s = 0 \<and> or_number s = 0 \<and> \<not> or_locked s \<and> \<not> or_running s \<and> or_intervals s = []
     \<and> or_timer s = None \<and> or_caption s = None \<and> or_bullets s = None \<and> or_waiting s = [] \<and> or_calls s = []
     \<and> (\<forall>sd \<in> set (or_slides s). sd_fx sd = [] \<and> sd_z sd = None)"

definition same_unloaded :: "orbit \<Rightarrow> orbit \<Rightarrow> bool" where
  "same_unloaded s t \<longleftrightarrow> same_load (s\<lparr>or_number := or_number t\<rparr>) t \<and> or_running t = or_running s \<and> or_intervals t = or_intervals s
     \<and> or_timer t = or_timer s \<and> or_caption t = or_caption s \<and> or_bullets t = or_bullets s"

lemma measure_same: "same_unloaded s (fold (measure_slide E) ps s) \<and> or_number (fold (measure_slide E) ps s) = or_number s + int (length ps)"
proof (induction ps arbitrary: s)
  case (Cons p ps)
  have "same_unloaded s (measure_slide E p s)" "or_number (measure_slide E p s) = or_number s + 1" for s
    by (auto simp: measure_slide_def same_unloaded_def same_load_def Let_def split: prod.split)
  then show ?case using Cons [of "measure_slide E p s"] by (simp add: same_unloaded_def same_load_def)
qed (simp add: same_unloaded_def same_load_def)

lemma dimensions_same:
  assumes "or_slides s \<noteq> []"
  shows "same_unloaded s (setDimentionsFromLargestSlide E s)
    \<and> or_number (setDimentionsFromLargestSlide E s) = or_number s + int (length (or_slides s))"
proof -
  obtain sd sds where sl: "or_slides s = sd # sds" using assms by (cases "or_slides s") auto
  define s1 where "s1 = s\<lparr>or_el_width := sd_width sd, or_el_height := sd_height sd, or_width := sd_width sd, or_height := sd_height sd,
               or_placeholder := CloneOf 0\<rparr>"
  define s2 where "s2 = fold (measure_slide E) (List.enumerate 0 (or_slides s)) s1"
  have "same_unloaded s1 s2 \<and> or_number s2 = or_number s1 + int (length (or_slides s))"
    using measure_same [of s1 E "List.enumerate 0 (or_slides s)"] by (simp add: s2_def)
  then have s2: "same_unloaded s s2 \<and> or_number s2 = or_number s + int (length (or_slides s))"
    by (simp add: s1_def same_unloaded_def same_load_def)
  have "same_unloaded s2 (fluid_placeholder s2)" "or_number (fluid_placeholder s2) = or_number s2"
    by (auto simp: fluid_placeholder_def same_unloaded_def same_load_def split: flag.split)
  moreover have "setDimentionsFromLargestSlide E s = fluid_placeholder s2"
    using sl by (simp add: setDimentionsFromLargestSlide_def s1_def s2_def)
  ultimately show ?thesis using s2 by (simp add: same_unloaded_def same_load_def)
qed

text \<open>The state in which the parts of \<open>loaded\<close> are made, and what they make.\<close>

definition measured :: "orbit_env \<Rightarrow> orbit \<Rightarrow> orbit" where
  "measured E s = setupFirstSlide (updateOptionsIfOnlyOneSlide (setDimentionsFromLargestSlide E (s\<lparr>or_el_width := 1, or_el_height := 1\<rparr>)))"

lemma measured_effect:
  fixes E s
  assumes "unloaded s" "2 \<le> length (or_slides s)"
  defines "t \<equiv> measured E s"
  shows "or_options t = or_options s" "length (or_slides t) = length (or_slides s)" "or_number t = int (length (or_slides s))"
    "or_active t = 0" "or_prev t = 0" "\<not> or_locked t" "\<not> or_running t" "or_intervals t = []" "or_timer t = None"
    "or_caption t = None" "or_bullets t = None" "or_waiting t = []" "or_calls t = []"
    "i < length (or_slides s) \<Longrightarrow> pending (or_slides t ! i) = 0"
    "i < length (or_slides s) \<Longrightarrow> sd_z (or_slides t ! i) = (if i = 0 then Some 3 else None)"
proof -
  define s1 where "s1 = setDimentionsFromLargestSlide E (s\<lparr>or_el_width := 1, or_el_height := 1\<rparr>)"
  have "or_slides (s\<lparr>or_el_width := 1, or_el_height := 1\<rparr>) \<noteq> []" using assms(2) by auto
  then have s1: "same_unloaded s s1" "or_number s1 = int (length (or_slides s))"
    using dimensions_same [of "s\<lparr>or_el_width := 1, or_el_height := 1\<rparr>" E] assms(1)
    by (simp_all add: s1_def same_unloaded_def same_load_def unloaded_def)
  have t: "t = setupFirstSlide s1"
    using assms(2) s1(1) by (simp add: t_def measured_def s1_def [symmetric] updateOptionsIfOnlyOneSlide_def same_unloaded_def same_load_def)
  show "or_options t = or_options s" "length (or_slides t) = length (or_slides s)" "or_number t = int (length (or_slides s))"
    "or_active t = 0" "or_prev t = 0" "\<not> or_locked t" "\<not> or_running t" "or_intervals t = []" "or_timer t = None"
    "or_caption t = None" "or_bullets t = None" "or_waiting t = []" "or_calls t = []"
    using s1 assms(1) by (simp_all add: t setupFirstSlide_def same_unloaded_def same_load_def unloaded_def)
  have sl: "or_slides s1 = or_slides s" using s1(1) by (simp add: same_unloaded_def same_load_def)
  have "sd_fx (or_slides s ! i) = [] \<and> sd_z (or_slides s ! i) = None" if "i < length (or_slides s)" for i
    using assms(1) that by (simp add: unloaded_def)
  then show "i < length (or_slides s) \<Longrightarrow> pending (or_slides t ! i) = 0"
    "i < length (or_slides s) \<Longrightarrow> sd_z (or_slides t ! i) = (if i = 0 then Some 3 else None)"
    using sl by (auto simp: t setupFirstSlide_def upd_eq_nth pending_def animate_def)
qed

lemma timer_part:
  fixes E s defines "m \<equiv> when_op (flag_on (oo_timer (or_options s))) (seq_op (fine setupTimer) (startClock E))"
  assumes "or_timer s = None" "or_intervals s = []" "\<not> or_running s"
  shows "fst (m s) = Inr ()" "same_load s (snd (m s))" "or_bullets (snd (m s)) = or_bullets s"
    "or_timer (snd (m s)) \<noteq> None \<longleftrightarrow> flag_on (oo_timer (or_options s))" "or_intervals (snd (m s)) \<noteq> [] \<Longrightarrow> or_timer (snd (m s)) \<noteq> None"
    "\<not> oe_timer_hidden E \<Longrightarrow> clock_ok (snd (m s))" "\<not> flag_on (oo_timer (or_options s)) \<Longrightarrow> \<not> or_running (snd (m s))"
  using assms(2-4)
  by (cases "flag_on (oo_timer (or_options s))";
      auto simp: m_def seq_op_def fine_def setupTimer_def startClock_def Let_def same_load_def clock_ok_def)+

lemma caption_part:
  fixes E s defines "m \<equiv> when_op (flag_on (oo_captions (or_options s))) (setupCaptions E)"
  shows "fst (m s) = Inr ()" "same_load s (snd (m s))" "same_clock s (snd (m s))" "or_timer (snd (m s)) = or_timer s"
    "or_bullets (snd (m s)) = or_bullets s" "flag_on (oo_captions (or_options s)) \<Longrightarrow> or_caption (snd (m s)) \<noteq> None"
proof -
  define s1 where "s1 = s\<lparr>or_caption := Some \<lparr>cn_id = None, cn_html = [], cn_fx = []\<rparr>\<rparr>"
  have c: "fst (setCaption E s1) = Inr () \<and> same_load s (snd (setCaption E s1)) \<and> same_clock s (snd (setCaption E s1))
      \<and> or_timer (snd (setCaption E s1)) = or_timer s \<and> or_bullets (snd (setCaption E s1)) = or_bullets s
      \<and> or_caption (snd (setCaption E s1)) \<noteq> None"
    by (auto simp: setCaption_def Let_def same_load_def same_clock_def s1_def split: option.split)
  then show "fst (m s) = Inr ()" "same_load s (snd (m s))" "same_clock s (snd (m s))" "or_timer (snd (m s)) = or_timer s"
    "or_bullets (snd (m s)) = or_bullets s" "flag_on (oo_captions (or_options s)) \<Longrightarrow> or_caption (snd (m s)) \<noteq> None"
    by (cases "flag_on (oo_captions (or_options s))";
        simp add: m_def setupCaptions_def seq_op_def fine_def s1_def [symmetric] same_load_def same_clock_def)+
qed

lemma seq_fine: "fst (m s) = Inr () \<Longrightarrow> seq_op m k s = k (snd (m s))"
  by (cases "m s") (simp add: seq_op_def)

definition loaded_state :: "orbit_env \<Rightarrow> orbit \<Rightarrow> orbit \<Rightarrow> bool" where
  "loaded_state E s t \<longleftrightarrow>
     orbit_n (length (or_slides s)) t \<and> front_ok t \<and> (\<not> oe_timer_hidden E \<longrightarrow> clock_n (length (or_slides s)) t)
     \<and> or_calls t = [AfterLoadComplete, HolderRun] \<and> or_options t = or_options s \<and> or_active t = 0 \<and> \<not> or_locked t"

text \<open>The options for which the handlers find what they use: with \<open>resetTimerOnClick\<close> there must be a timer.\<close>

definition options_ok :: "orbit_options \<Rightarrow> bool" where
  "options_ok opts \<longleftrightarrow> known_animation (oo_animation opts) \<and> (oo_resetTimerOnClick opts \<longrightarrow> flag_on (oo_timer opts))"

lemma loaded_ok:
  assumes "unloaded s" "2 \<le> length (or_slides s)" "options_ok (or_options s)"
  shows "fst (loaded E s) = Inr () \<and> loaded_state E s (snd (loaded E s))"
proof -
  define t0 where "t0 = measured E s"
  note e = measured_effect [where E = E, OF assms(1,2), folded t0_def]
  let ?opts = "or_options s"
  let ?m1 = "when_op (flag_on (oo_timer ?opts)) (seq_op (fine setupTimer) (startClock E))"
  let ?m2 = "when_op (flag_on (oo_captions ?opts)) (setupCaptions E)"
  let ?m3 = "when_op (flag_on (oo_directionalNav ?opts)) (fine setupDirectionalNav)"
  let ?m4 = "when_op (oo_bullets ?opts) (seq_op (fine setupBulletNav) setActiveBullet)"
  let ?m5 = "fine (\<lambda>s. s\<lparr>or_calls := or_calls s @ [AfterLoadComplete, HolderRun]\<rparr>)"
  define t1 where "t1 = snd (?m1 t0)"
  define t2 where "t2 = snd (?m2 t1)"
  define t3 where "t3 = snd (?m3 t2)"
  define t4 where "t4 = snd (?m4 t3)"
  define t5 where "t5 = snd (?m5 t4)"
  note p1 = timer_part [where E = E and s = t0, unfolded e(1), OF e(9,8,7), folded t1_def]
  have o1: "or_options t1 = ?opts" using p1(2) e(1) by (simp add: same_load_def)
  note p2 = caption_part [where E = E and s = t1, unfolded o1, folded t2_def]
  have p3: "fst (?m3 t2) = Inr ()" "same_load t2 t3" "same_clock t2 t3" "or_timer t3 = or_timer t2" "or_bullets t3 = or_bullets t2"
      "or_caption t3 = or_caption t2"
    unfolding t3_def by (cases "flag_on (oo_directionalNav ?opts)"; simp add: fine_def setupDirectionalNav_def same_load_def same_clock_def)+
  have l3: "same_load t0 t3" using p1(2) p2(2) p3(2) by (simp add: same_load_def)
  have b3: "or_bullets t3 = None" using e(11) p1(3) p2(5) p3(5) by simp
  have p4: "fst (?m4 t3) = Inr ()" "same_load t3 t4" "same_clock t3 t4" "or_timer t4 = or_timer t3" "or_caption t4 = or_caption t3"
      "or_bullets t4 = None \<longleftrightarrow> \<not> oo_bullets ?opts"
      "or_bullets t4 = Some bs \<Longrightarrow> length bs = length (or_slides t3) \<and> one_active (or_active t3) bs" for bs
    using l3 e(1,4) b3 set_one_active [of 0 "map (addBullet ?opts) (or_slides t3)"] unfolding t4_def
    by (cases "oo_bullets ?opts"; simp add: seq_op_def fine_def setupBulletNav_def setActiveBullet_def same_load_def same_clock_def; force)+
  have m5: "?m5 t4 = (Inr (), t5)" by (simp add: t5_def fine_def)
  have run: "loaded E s = (Inr (), t5)"
    using p1(1) p2(1) p3(1) p4(1) unfolding t1_def [symmetric] t2_def [symmetric] t3_def [symmetric]
    by (simp add: loaded_def Let_def measured_def [symmetric] t0_def [symmetric] e(1) seq_fine t1_def [symmetric]
        t2_def [symmetric] t3_def [symmetric] t4_def [symmetric] m5)
  have l4: "same_load t0 t4" using l3 p4(2) by (simp add: same_load_def)
  have t5: "or_options t5 = ?opts" "or_slides t5 = or_slides t0" "or_active t5 = 0" "or_prev t5 = 0" "or_number t5 = int (length (or_slides s))"
      "\<not> or_locked t5" "or_waiting t5 = []" "or_calls t5 = [AfterLoadComplete, HolderRun]" "or_bullets t5 = or_bullets t4"
      "or_timer t5 = or_timer t1" "or_caption t5 = or_caption t2" "same_clock t1 t5"
    using l4 e p4(3-5) p3(3,4,6) p2(3,4) by (simp_all add: t5_def fine_def same_load_def same_clock_def)
  have "ring_ok t5" using assms(2) e(2) by (auto simp: ring_ok_def t5)
  moreover have "made_ok t5"
    using p1(4,5) p2(6) t5(12) assms(3) by (auto simp: made_ok_def t5 options_ok_def same_clock_def)
  moreover have "bullets_ok t5" using p4(6,7) l3 e(4) by (simp add: bullets_ok_def t5 same_load_def)
  moreover have "locked_ok t5" using e(2,14) by (simp add: locked_ok_def t5)
  ultimately have ok: "orbit_n (length (or_slides s)) t5" using e(2) by (simp add: orbit_n_def orbit_ok_def t5)
  have front: "front_ok t5" using e(2,15) by (simp add: front_ok_def t5 z_ok_def)
  have "clock_n (length (or_slides s)) t5" if "\<not> oe_timer_hidden E"
    using ok p1(6) [OF that] p1(7) clock_same [OF t5(12)] t5(12) by (simp add: clock_n_def t5 same_clock_def)
  then show ?thesis using run ok front t5 by (simp add: loaded_state_def)
qed

text \<open>Binding the images, and their loading.\<close>

definition phase :: "orbit \<Rightarrow> nat \<Rightarrow> nat list \<Rightarrow> orbit" where
  "phase s0 r w = s0\<lparr>or_ready := r, or_waiting := w\<rparr>"

lemma phase_simps [simp]:
  "or_slides (phase s0 r w) = or_slides s0" "or_waiting (phase s0 r w) = w" "image_slides (phase s0 r w) = image_slides s0"
  "loaded_state E (phase s0 r w) t = loaded_state E s0 t" "or_ready (phase s0 r w) = r"
  "(phase s0 r w)\<lparr>or_ready := r'\<rparr> = phase s0 r' w" "(phase s0 r w)\<lparr>or_waiting := w'\<rparr> = phase s0 r w'"
  by (simp_all add: phase_def image_slides_def loaded_state_def)

lemma phase_unloaded: "unloaded s0 \<Longrightarrow> unloaded (phase s0 r [])"
  by (simp add: unloaded_def phase_def)

definition startable :: "orbit \<Rightarrow> bool" where
  "startable s0 \<longleftrightarrow> unloaded s0 \<and> 2 \<le> length (or_slides s0) \<and> options_ok (or_options s0)"

lemma phase_loaded: "startable s0 \<Longrightarrow> fst (loaded E (phase s0 r [])) = Inr () \<and> loaded_state E s0 (snd (loaded E (phase s0 r [])))"
  using loaded_ok [of "phase s0 r []" E] phase_unloaded [of s0 r] by (simp add: startable_def phase_def [of s0 r "[]"] loaded_state_def)

definition unfinished :: "orbit \<Rightarrow> nat \<Rightarrow> bool" where
  "unfinished s i \<longleftrightarrow> sd_img (or_slides s ! i) = Some Unfinished"

lemma image_ready_phase:
  assumes "startable s0" "Suc r + length w + k = length (image_slides s0)"
  shows "fst (image_ready E (phase s0 r w)) = Inr ()"
    "w = [] \<Longrightarrow> k = 0 \<Longrightarrow> loaded_state E s0 (snd (image_ready E (phase s0 r w)))"
    "w \<noteq> [] \<or> 0 < k \<Longrightarrow> snd (image_ready E (phase s0 r w)) = phase s0 (Suc r) w"
proof -
  have m: "image_ready E (phase s0 r w) = when_op (Suc r = length (image_slides s0)) (loaded E) (phase s0 (Suc r) w)"
    by (simp add: image_ready_def Let_def)
  note load = phase_loaded [OF assms(1), of E "Suc r"]
  show "fst (image_ready E (phase s0 r w)) = Inr ()"
    using m load assms(2) by (cases "Suc r = length (image_slides s0)") simp_all
  show "w = [] \<Longrightarrow> k = 0 \<Longrightarrow> loaded_state E s0 (snd (image_ready E (phase s0 r w)))"
    using m load assms(2) by simp
  show "w \<noteq> [] \<or> 0 < k \<Longrightarrow> snd (image_ready E (phase s0 r w)) = phase s0 (Suc r) w"
    using m assms(2) by (cases "Suc r = length (image_slides s0)") auto
qed

lemma seq_Inr: "m s = (Inr u, t) \<Longrightarrow> seq_op m k s = k t"
  by (simp add: seq_op_def)

definition bound_to :: "orbit_env \<Rightarrow> orbit \<Rightarrow> nat list \<Rightarrow> orbit \<Rightarrow> bool" where
  "bound_to E s0 w t \<longleftrightarrow>
     (if w = [] then loaded_state E s0 t else \<exists>r. t = phase s0 r w \<and> r + length w = length (image_slides s0))"

lemma bind_images:
  assumes "startable s0" "r + length w + length is = length (image_slides s0)" "is \<noteq> []"
    "\<forall>i \<in> set is. sd_img (or_slides s0 ! i) \<in> {Some Complete, Some Unfinished}"
  shows "\<exists>t. foldr (\<lambda>i. seq_op (bind_image E i)) is (fine (\<lambda>s. s)) (phase s0 r w) = (Inr (), t)
    \<and> bound_to E s0 (w @ filter (unfinished s0) is) t"
  using assms(2-4)
proof (induction "is" arbitrary: r w)
  case (Cons i "is")
  show ?case
  proof (cases "sd_img (or_slides s0 ! i) = Some Complete")
    case True
    let ?m = "image_ready E (phase s0 r w)"
    have m: "bind_image E i (phase s0 r w) = ?m" "\<not> unfinished s0 i" using True by (simp_all add: bind_image_def imageready_add_def unfinished_def)
    have c: "Suc r + length w + length is = length (image_slides s0)" using Cons.prems(1) by simp
    note ready = image_ready_phase [OF assms(1) c, of E]
    show ?thesis
    proof (cases "is = []")
      case True
      have "bound_to E s0 w (snd ?m)" using ready(2,3) c True by (cases "w = []") (auto simp: bound_to_def)
      moreover obtain t where t: "?m = (Inr (), t)" using ready(1) by (cases ?m) auto
      ultimately show ?thesis using True m by (simp add: seq_op_def fine_def)
    next
      case False
      then have e: "bind_image E i (phase s0 r w) = (Inr (), phase s0 (Suc r) w)" using ready(1,3) m by (simp add: prod_eq_iff)
      show ?thesis using Cons.IH [OF _ False, of "Suc r" w] Cons.prems(1,3) seq_Inr [where m = "bind_image E i", OF e] m(2) by simp
    qed
  next
    case False
    then have m: "bind_image E i (phase s0 r w) = (Inr (), phase s0 r (w @ [i]))" "unfinished s0 i"
      using Cons.prems(3) by (simp_all add: bind_image_def imageready_add_def unfinished_def)
    show ?thesis
    proof (cases "is = []")
      case True
      moreover have "bound_to E s0 (w @ [i]) (phase s0 r (w @ [i]))"
        using True Cons.prems(1) by (auto simp: bound_to_def intro: exI [of _ r])
      ultimately show ?thesis using m by (simp add: seq_Inr [where m = "bind_image E i", OF m(1)] fine_def)
    next
      case False
      then show ?thesis using Cons.IH [OF _ False, of r "w @ [i]"] Cons.prems(1,3) seq_Inr [where m = "bind_image E i", OF m(1)] m(2) by simp
    qed
  qed
qed simp

lemma loads_once: "loaded_state E s0 t \<Longrightarrow> loaded_state E s0 (orbit_events E (map ImageLoads is) t)"
proof (induction "is" arbitrary: t)
  case (Cons j js)
  then have "or_waiting t = []" using orbit_n_made(3) by (auto simp: loaded_state_def)
  then show ?case using Cons by (simp add: orbit_events_def handle_event_def image_loads_def)
qed (simp add: orbit_events_def)

lemma length_filter_one: "distinct w \<Longrightarrow> i \<in> set w \<Longrightarrow> Suc (length (filter (\<lambda>j. j \<noteq> i) w)) = length w"
proof (induction w)
  case (Cons x w)
  have "i \<notin> set w \<Longrightarrow> filter (\<lambda>j. j \<noteq> i) w = w" by (metis (mono_tags, lifting) filter_True)
  then show ?case using Cons by auto
qed simp

lemma images_load:
  assumes "startable s0" "r + length w = length (image_slides s0)" "w \<noteq> []" "distinct w" "set w \<subseteq> set order"
  shows "loaded_state E s0 (orbit_events E (map ImageLoads order) (phase s0 r w))"
  using assms(2-5)
proof (induction order arbitrary: r w)
  case (Cons i order)
  let ?w = "filter (\<lambda>j. j \<noteq> i) w"
  show ?case
  proof (cases "i \<in> set w")
    case True
    then have len: "Suc r + length ?w + 0 = length (image_slides s0)"
      using Cons.prems(1) length_filter_one [OF Cons.prems(3) True] by simp
    note ready = image_ready_phase [OF assms(1) len, of E]
    have e: "orbit_events E (map ImageLoads (i # order)) (phase s0 r w) = orbit_events E (map ImageLoads order) (snd (image_ready E (phase s0 r ?w)))"
      using True by (simp add: orbit_events_def handle_event_def image_loads_def)
    show ?thesis
    proof (cases "?w = []")
      case True
      then show ?thesis using ready(2) loads_once e by simp
    next
      case False
      then show ?thesis using ready(3) e Cons.IH [of "Suc r" ?w] len False Cons.prems(3,4) by auto
    qed
  next
    case False
    then have "set w \<subseteq> set order" using Cons.prems(4) by auto
    then show ?thesis using False Cons.IH [OF Cons.prems(1-3)] by (simp add: orbit_events_def handle_event_def image_loads_def)
  qed
qed simp

definition orbit_start :: "orbit_env \<Rightarrow> (orbit_options \<Rightarrow> orbit_options) \<Rightarrow> slide list \<Rightarrow> nat list \<Rightarrow> orbit" where
  "orbit_start E options slides order = orbit_events E (map ImageLoads order) (snd (orbit_init E options slides))"

text \<open>A slider that can be started: two slides at least, as they are in the page, every image with a source and
  loading in the end, an animation that there is, and no resetting of a timer that is not there.\<close>

definition slider_ok :: "(orbit_options \<Rightarrow> orbit_options) \<Rightarrow> slide list \<Rightarrow> nat list \<Rightarrow> bool" where
  "slider_ok options slides order \<longleftrightarrow>
     2 \<le> length slides \<and> list_all (\<lambda>sd. sd_fx sd = [] \<and> sd_z sd = None \<and> sd_img sd \<noteq> Some NoSrc) slides
     \<and> list_all (\<lambda>i. sd_img (slides ! i) = Some Unfinished \<longrightarrow> i \<in> set order) [0..<length slides]
     \<and> options_ok (or_options (new_orbit options slides))"

lemma orbit_starts:
  assumes "slider_ok options slides order"
  shows "loaded_state E (new_orbit options slides) (orbit_start E options slides order)"
proof -
  let ?s = "new_orbit options slides"
  have sl: "or_slides ?s = slides" by (simp add: new_orbit_def Let_def)
  have st: "startable ?s"
    using assms by (auto simp: slider_ok_def startable_def unloaded_def new_orbit_def Let_def list_all_iff)
  have p: "?s = phase ?s 0 []" by (simp add: phase_def new_orbit_def Let_def)
  have src: "\<forall>i \<in> set (image_slides ?s). sd_img (or_slides ?s ! i) \<in> {Some Complete, Some Unfinished}"
  proof
    fix i assume "i \<in> set (image_slides ?s)"
    then have i: "i < length slides" "sd_img (slides ! i) \<noteq> None" by (auto simp: image_slides_def sl)
    then obtain st where "sd_img (slides ! i) = Some st" by blast
    moreover have "sd_img (slides ! i) \<noteq> Some NoSrc" using assms i(1) by (auto simp: slider_ok_def list_all_length)
    ultimately show "sd_img (or_slides ?s ! i) \<in> {Some Complete, Some Unfinished}" by (cases st) (auto simp: sl)
  qed
  show ?thesis
  proof (cases "image_slides ?s = []")
    case True
    then show ?thesis using phase_loaded [OF st, of E 0] p loads_once by (simp add: orbit_start_def orbit_init_def Let_def)
  next
    case False
    let ?w = "filter (unfinished ?s) (image_slides ?s)"
    obtain t where t: "orbit_init E options slides = (Inr (), t)"
      "bound_to E ?s ?w t"
      using bind_images [OF st, of 0 "[]" "image_slides ?s" E] False src p [symmetric] by (auto simp: orbit_init_def Let_def)
    show ?thesis
    proof (cases "?w = []")
      case True
      then show ?thesis using t loads_once by (simp add: orbit_start_def bound_to_def)
    next
      case w: False
      have "set ?w \<subseteq> set order" using assms by (auto simp: slider_ok_def unfinished_def image_slides_def sl list_all_iff)
      moreover have "distinct ?w" by (simp add: image_slides_def)
      ultimately show ?thesis using t w images_load [OF st _ w] by (auto simp: orbit_start_def bound_to_def)
    qed
  qed
qed

section \<open>Properties\<close>

definition valid_events :: "nat \<Rightarrow> orbit_event list \<Rightarrow> bool" where
  "valid_events n evs \<longleftrightarrow> list_all (\<lambda>ev. case ev of Trigger (Goto i) \<Rightarrow> 0 \<le> i \<and> i < int n | _ \<Rightarrow> True) evs"

lemma valid_events_ok: "valid_events n evs \<Longrightarrow> events_ok E n True (\<lambda>s. True) evs s"
  by (induction evs arbitrary: s) (auto simp: valid_events_def event_ok_def split: orbit_event.splits)

lemma slides_new [simp]: "or_slides (new_orbit options slides) = slides"
  by (simp add: new_orbit_def Let_def)

text \<open>The animations of the active slide end one after the other, and the last one that matters unlocks.\<close>

lemma animations_unlock:
  assumes "orbit_ok s" "or_locked s"
  shows "\<exists>m. \<not> or_locked (orbit_events E (replicate m (AnimationEnds (nat (or_active s)))) s)"
  using assms
proof (induction "length (sd_fx (or_slides s ! nat (or_active s)))" arbitrary: s rule: less_induct)
  case less
  let ?i = "nat (or_active s)" and ?ev = "AnimationEnds (nat (or_active s))"
  have i: "?i < length (or_slides s)" "int ?i = or_active s" using less.prems(1) by (auto simp: orbit_ok_def ring_ok_def)
  then have p: "pending (or_slides s ! ?i) = 1" using less.prems by (simp add: orbit_ok_def locked_ok_def)
  then obtain g k fxs where f: "sd_fx (or_slides s ! ?i) = (g, k) # fxs" by (cases "sd_fx (or_slides s ! ?i)") (auto simp: pending_def)
  have e: "snd (handle_event E ?ev s) = animation_ends ?i s" for E by (simp add: handle_event_def fine_def)
  show ?case
  proof (cases "k = Some ResetAndUnlock")
    case True
    then have "\<not> or_locked (animation_ends ?i s)" using f i by (simp add: animation_ends_def after_fx_def resetAndUnlock_def)
    then have "\<not> or_locked (orbit_events E (replicate 1 ?ev) s)" by (simp add: orbit_events_def e)
    then show ?thesis by blast
  next
    case False
    let ?t = "animation_ends ?i s"
    have t: "or_locked ?t" "or_active ?t = or_active s" "sd_fx (or_slides ?t ! ?i) = fxs"
      using f i False less.prems(2) by (auto simp: animation_ends_def after_fx_def split: option.split fx_after.split)
    obtain m where "\<not> or_locked (orbit_events E (replicate m ?ev) ?t)"
      using less.hyps [of ?t] t f animation_ends_ok [OF less.prems(1)] by auto
    then have "\<not> or_locked (orbit_events E (replicate (Suc m) ?ev) s)" by (simp add: orbit_events_def e)
    then show ?thesis by blast
  qed
qed

text \<open>A slider for examples: three images, one of them loading later.\<close>

definition demo_slide :: "img_state option \<Rightarrow> slide" where
  "demo_slide im = \<lparr>sd_width = 300, sd_height = 200, sd_img = im, sd_caption = None, sd_thumb = None, sd_z = None, sd_left = 0,
     sd_top = 0, sd_opacity = 1, sd_block = False, sd_fx = []\<rparr>"

definition demo_slides :: "slide list" where
  "demo_slides = [demo_slide (Some Complete), demo_slide None, demo_slide (Some Unfinished)]"

definition demo_env :: orbit_env where
  "demo_env = \<lparr>oe_timer_hidden = False, oe_pad = 0, oe_text = (\<lambda>_. []), oe_html = (\<lambda>_. [])\<rparr>"

definition with_bullets :: "orbit_options \<Rightarrow> orbit_options" where
  "with_bullets opts = opts\<lparr>oo_bullets := True\<rparr>"

text \<open>What evaluates the slider.\<close>

lemmas orbit_eval = orbit_start_def orbit_events_def handle_event_def orbit_init_def new_orbit_def image_slides_def bind_image_def
  imageready_add_def image_ready_def image_loads_def loaded_def setDimentionsFromLargestSlide_def measure_slide_def
  fluid_placeholder_def updateOptionsIfOnlyOneSlide_def setupFirstSlide_def setupTimer_def startClock_def setupCaptions_def
  setCaption_def setupDirectionalNav_def setupBulletNav_def setActiveBullet_def addBullet_def shift_def go_to_def
  new_active_def is_forward_def move_slides_def entering_def leaving_def animate_def stopClock_def resetAndUnlock_def
  animation_ends_def after_fx_def reach_goal_def clickTimer_def clicked_def rotateTimer_def seq_op_def fine_def fail_op_def
  flag_on_def text_false_def orbit_defaults_def upd_eq_def eq_at_def currentSlide_def caption_exit_def caption_entrance_def
  demo_env_def demo_slides_def demo_slide_def with_bullets_def event_ok_def pending_def Let_def



text \<open>C32: As long as the slider is not moved while an animation runs, the active slide is the one in front, and no two
  slides are.\<close>

theorem orbit_front_slide:
  assumes "slider_ok options slides order" "\<not> oo_resetTimerOnClick (or_options (new_orbit options slides))"
    "events_ok E (length slides) True (\<lambda>s. \<not> or_locked s) evs (orbit_start E options slides order)"
    "s = orbit_events E evs (orbit_start E options slides order)" "i < length slides"
  shows "(sd_z (or_slides s ! i) = Some 3) = (int i = or_active s)
    \<and> (int i = or_active s \<or> (or_locked s \<and> sd_z (or_slides s ! i) = Some 2) \<or> sd_z (or_slides s ! i) \<in> {None, Some 1})"
proof -
  have "front_n (length slides) (orbit_start E options slides order)"
    using orbit_starts [OF assms(1), of E] assms(2) by (simp add: loaded_state_def front_n_def)
  then have "front_n (length slides) s" using front.events_keep assms(3,4) by blast
  then have "z_ok (or_locked s) (or_prev s) (or_active s) i (sd_z (or_slides s ! i))"
    using assms(5) by (simp add: front_n_def front_ok_def orbit_n_def)
  then show ?thesis by (auto simp: z_ok_def split: if_splits)
qed

lemma orbit_front_slide_witness:
  "sd_z (or_slides (orbit_events demo_env [Trigger NextDir] (orbit_start demo_env with_bullets demo_slides [2])) ! 1) = Some 3"
proof -
  let ?s0 = "orbit_start demo_env with_bullets demo_slides [2]"
  have "slider_ok with_bullets demo_slides [2]" by code_simp
  moreover have "\<not> oo_resetTimerOnClick (or_options (new_orbit with_bullets demo_slides))" by code_simp
  moreover have "events_ok demo_env (length demo_slides) True (\<lambda>s. \<not> or_locked s) [Trigger NextDir] ?s0"
    using orbit_starts [OF calculation(1), of demo_env] by (simp add: event_ok_def loaded_state_def)
  ultimately have "(sd_z (or_slides (orbit_events demo_env [Trigger NextDir] ?s0) ! 1) = Some 3)
      = (int 1 = or_active (orbit_events demo_env [Trigger NextDir] ?s0))"
    using orbit_front_slide [of with_bullets demo_slides "[2]" demo_env "[Trigger NextDir]" _ 1]
    by (simp add: demo_slides_def)
  moreover have "or_active (orbit_events demo_env [Trigger NextDir] ?s0) = 1" by (simp add: orbit_eval)
  ultimately show ?thesis by (simp only: of_nat_1)
qed

text \<open>With a visible timer there is never more than one clock, unless the page starts it itself.\<close>

theorem orbit_one_clock:
  assumes "slider_ok options slides order"
    "events_ok (E\<lparr>oe_timer_hidden := False\<rparr>) (length slides) False (\<lambda>s. True) evs (orbit_start (E\<lparr>oe_timer_hidden := False\<rparr>) options slides order)"
    "s = orbit_events (E\<lparr>oe_timer_hidden := False\<rparr>) evs (orbit_start (E\<lparr>oe_timer_hidden := False\<rparr>) options slides order)"
  shows "map snd (or_intervals s) = (if or_running s then [RotateClock] else [])"
proof -
  let ?E = "E\<lparr>oe_timer_hidden := False\<rparr>"
  have "clock_n (length slides) (orbit_start ?E options slides order)"
    using orbit_starts [OF assms(1), of ?E] by (simp add: loaded_state_def)
  then have "clock_n (length slides) s" using clock.events_keep assms(2,3) by blast
  then show ?thesis by (auto simp: clock_n_def clock_ok_def)
qed

lemma orbit_one_clock_witness:
  "map snd (or_intervals (orbit_events (demo_env\<lparr>oe_timer_hidden := False\<rparr>) [ClickTimer, ClickTimer]
      (orbit_start (demo_env\<lparr>oe_timer_hidden := False\<rparr>) with_bullets demo_slides [2]))) = [RotateClock]"
proof -
  let ?E = "demo_env\<lparr>oe_timer_hidden := False\<rparr>" and ?evs = "[ClickTimer, ClickTimer]"
  let ?s0 = "orbit_start ?E with_bullets demo_slides [2]"
  have "slider_ok with_bullets demo_slides [2]" "events_ok ?E (length demo_slides) False (\<lambda>s. True) ?evs ?s0"
    by (code_simp, simp add: orbit_eval)
  note clock = orbit_one_clock [OF this refl]
  have "or_running (orbit_events ?E ?evs ?s0)" by (simp add: orbit_eval)
  with clock show ?thesis by simp
qed

text \<open>The slider is loaded once, when the last image is there, in whatever order they load.\<close>

theorem orbit_loads_once:
  assumes "slider_ok options slides order"
  shows "or_calls (orbit_start E options slides order) = [AfterLoadComplete, HolderRun]"
  using orbit_starts [OF assms, of E] by (simp add: loaded_state_def)

lemma orbit_loads_once_witness:
  "or_calls (orbit_start demo_env with_bullets demo_slides [0, 2, 2]) = [AfterLoadComplete, HolderRun]"
proof -
  have "slider_ok with_bullets demo_slides [0, 2, 2]" by code_simp
  then show ?thesis by (rule orbit_loads_once)
qed

section \<open>Where the slider does something unexpected\<close>

definition demo_after :: "(orbit_options \<Rightarrow> orbit_options) \<Rightarrow> orbit_event list \<Rightarrow> orbit" where
  "demo_after options evs = orbit_events demo_env evs (orbit_start demo_env options demo_slides [2])"

text \<open>
  \<open>shift\<close> sets \<open>prevActiveSlide\<close> before it looks at the lock: a click during the animation is not ignored, the
  active slide goes behind the one before.
\<close>

lemma click_while_locked:
  "map sd_z (or_slides (demo_after with_bullets [Trigger NextDir, Trigger NextDir, AnimationEnds 1])) = [Some 2, Some 1, None]
   \<and> or_active (demo_after with_bullets [Trigger NextDir, Trigger NextDir, AnimationEnds 1]) = 1"
  by (simp add: demo_after_def orbit_eval)

text \<open>With \<open>resetTimerOnClick\<close> a click to the left moves to the right: \<open>rotateTimer(true)\<close> triggers \<open>orbit.next\<close>.\<close>

lemma left_goes_right: "or_active (demo_after (\<lambda>opts. opts\<lparr>oo_resetTimerOnClick := True\<rparr>) [ClickArrow False]) = 1"
  by (simp add: demo_after_def orbit_eval)

text \<open>Going to a slide that is not there locks the slider for good: no animation is left that could end.\<close>

lemma goto_nowhere_locks:
  "or_locked (demo_after with_bullets [AnimationEnds 0, Trigger (Goto 7)])
   \<and> list_all (\<lambda>sd. pending sd = 0) (or_slides (demo_after with_bullets [AnimationEnds 0, Trigger (Goto 7)]))"
  by (simp add: demo_after_def orbit_eval)

text \<open>Starting twice leaves a clock that nothing stops.\<close>

lemma second_start_leaks:
  "length (or_intervals (demo_after with_bullets [OrbitStart, OrbitStop])) = 1 \<and> \<not> or_running (demo_after with_bullets [OrbitStart, OrbitStop])"
  by (simp add: demo_after_def orbit_eval)

text \<open>A single cycle ends after the first move: a jQuery object is never false.\<close>

lemma single_cycle_stops_at_once: "\<not> or_running (demo_after (\<lambda>opts. opts\<lparr>oo_singleCycle := True\<rparr>) [Trigger NextDir])"
  by (simp add: demo_after_def orbit_eval)

text \<open>Moving before the images are there raises with bullets, and leaves the slider locked.\<close>

lemma early_move_raises:
  "fst (shift demo_env NextDir (snd (orbit_init demo_env with_bullets demo_slides))) = Inl TypeError
   \<and> or_locked (snd (shift demo_env NextDir (snd (orbit_init demo_env with_bullets demo_slides))))"
  by (simp add: demo_after_def orbit_eval)

end
