(* ===== verification/FdForms.thy ===== *)
theory FdForms
  imports JqClass
begin

text \<open>
  The custom form elements \<open>jquery.foundation.forms.js\<close>: checkboxes and radio buttons are hidden behind a
  \<open>span\<close>, selects behind a list. The page is the list of its checks and the list of its selects, each with the
  custom element that follows it. That setting \<open>checked\<close> of a radio button clears the others of its name in its form,
  and that a click on a label around an input toggles it, is what a browser does.
\<close>

section \<open>Controls\<close>

text \<open>A label in a form of the class \<open>custom\<close> names its input by \<open>for\<close> (and holds the custom element, or not) or is
  only around it.\<close>

datatype label = NoLabel | LabelFor bool | LabelAround

text \<open>\<open>ck_span\<close>: whether the custom element has the classes \<open>checked\<close> and \<open>disabled\<close>; \<open>ck_custom\<close>:
  in a form of the class \<open>custom\<close> and not excluded by \<open>data-customforms\<close>.\<close>

record check =
  ck_radio :: bool
  ck_form :: nat
  ck_custom :: bool
  ck_name :: "string option"
  ck_checked :: bool
  ck_disabled :: bool
  ck_hidden :: bool
  ck_span :: "(bool \<times> bool) option"
  ck_label :: label

record dropdown =
  dd_class :: string
  dd_items :: "(string \<times> bool) list"
  dd_current :: "string option"
  dd_open :: bool
  dd_disabled :: bool
  dd_width :: "int option"
  dd_list_width :: "int option"

record select =
  se_custom :: bool
  se_class :: string
  se_options :: "(string \<times> bool) list"
  se_disabled :: bool
  se_hidden :: bool
  se_drop :: "dropdown option"

text \<open>\<open>fm_bound\<close>: the dropdowns that the handlers bound to a click on the document close. \<open>fm_changes\<close> logs the
  events \<open>change\<close> of checks (\<open>Inl\<close>) and selects (\<open>Inr\<close>).\<close>

record forms =
  fm_checks :: "check list"
  fm_selects :: "select list"
  fm_bound :: "nat list"
  fm_changes :: "(nat + nat) list"

section \<open>Hidden parents\<close>

text \<open>
  \<open>hiddenFix\<close>: the styles of the hidden elements around a list are changed to measure it, and set back. The chain is the
  list of these elements; \<open>None\<close> is an element without a style attribute.
\<close>

record chain_node =
  hn_hidden :: bool
  hn_style :: "string option"

definition adjust :: "(string option \<Rightarrow> string) \<Rightarrow> chain_node list \<Rightarrow> (string option list \<times> nat list) \<times> chain_node list" where
  "adjust css chain =
     (let hidden = filter (\<lambda>i. hn_hidden (chain ! i)) [0..<length chain]
      in ((map (\<lambda>i. hn_style (chain ! i)) hidden, hidden),
          fold (\<lambda>i c. c[i := (c ! i)\<lparr>hn_style := Some (css (hn_style (c ! i))), hn_hidden := False\<rparr>]) hidden chain))"

text \<open>Whether the elements are hidden again is up to the styles: here, those that were.\<close>

definition reset :: "string option list \<times> nat list \<Rightarrow> chain_node list \<Rightarrow> chain_node list" where
  "reset saved chain =
     fold (\<lambda>(t, i) c. c[i := (c ! i)\<lparr>hn_style := t, hn_hidden := True\<rparr>]) (zip (fst saved) (snd saved)) chain"

section \<open>Appending the custom markup\<close>

definition append_check :: "check \<Rightarrow> check" where
  "append_check c = (if ck_custom c then c\<lparr>ck_hidden := True, ck_span := Some (ck_checked c, ck_disabled c)\<rparr> else c)"

definition select_size :: "string \<Rightarrow> string" where
  "select_size cls =
     (if hasClass ''small'' cls then ''small'' else if hasClass ''medium'' cls then ''medium''
      else if hasClass ''large'' cls then ''large'' else if hasClass ''expand'' cls then ''expand'' else [])"

definition has_size :: "string \<Rightarrow> bool" where
  "has_size cls \<longleftrightarrow> hasClass ''small'' cls \<or> hasClass ''medium'' cls \<or> hasClass ''large'' cls \<or> hasClass ''expand'' cls"

text \<open>The HTML of the first selected option; \<open>html()\<close> of no element is undefined.\<close>

definition selected_html :: "(string \<times> bool) list \<Rightarrow> string" where
  "selected_html opts = (case filter snd opts of [] \<Rightarrow> ''undefined'' | (h, _) # _ \<Rightarrow> h)"

text \<open>The loop over the options: the items selected, the text of the last selected option (if there is one).\<close>

definition last_html :: "(string \<times> bool) list \<Rightarrow> string option" where
  "last_html opts = (case rev (filter snd opts) of [] \<Rightarrow> None | (h, _) # _ \<Rightarrow> Some h)"

definition or_else :: "'a option \<Rightarrow> 'a option \<Rightarrow> 'a option" where
  "or_else a b = (case a of None \<Rightarrow> b | Some x \<Rightarrow> Some x)"

text \<open>The width of the first item, when the list is shown; there is none in an empty list.\<close>

definition first_width :: "(string \<Rightarrow> int) \<Rightarrow> (string \<times> bool) list \<Rightarrow> int" where
  "first_width width items = (case items of [] \<Rightarrow> 0 | (h, _) # _ \<Rightarrow> if width h > 0 then width h else 0)"

definition append_select :: "(string \<Rightarrow> int) \<Rightarrow> select \<Rightarrow> select" where
  "append_select width s =
     (if \<not> se_custom s \<or> hasClass ''no-custom'' (se_class s) then s
      else
        let opts = se_options s;
            fresh = \<lparr>dd_class = ''custom dropdown '' @ select_size (se_class s), dd_items = [], dd_current = Some (selected_html opts),
                     dd_open = False, dd_disabled = False, dd_width = None, dd_list_width = None\<rparr>;
            d0 = (case se_drop s of
                    None \<Rightarrow> fresh\<lparr>dd_current := or_else (last_html opts) (dd_current fresh)\<rparr>
                  | Some d \<Rightarrow> d);
            d1 = d0\<lparr>dd_items := opts, dd_disabled := se_disabled s, dd_width := None, dd_list_width := None\<rparr>;
            m = first_width width (dd_items d1);
            d2 = (if has_size (dd_class d1) then d1
                  else d1\<lparr>dd_open := False, dd_width := Some (m + 18), dd_list_width := Some (m + 16)\<rparr>)
        in s\<lparr>se_hidden := se_hidden s \<or> se_drop s = None, se_drop := Some d2\<rparr>)"

definition appendCustomMarkup :: "(string \<Rightarrow> int) \<Rightarrow> forms \<Rightarrow> forms" where
  "appendCustomMarkup width f =
     f\<lparr>fm_checks := map append_check (fm_checks f), fm_selects := map (append_select width) (fm_selects f)\<rparr>"

text \<open>The loop that keeps the largest width.\<close>

definition max_width :: "(string \<Rightarrow> int) \<Rightarrow> (string \<times> bool) list \<Rightarrow> int" where
  "max_width width items = fold (\<lambda>(h, _) m. if width h > m then width h else m) items 0"

definition refreshCustomSelect :: "(string \<Rightarrow> int) \<Rightarrow> select \<Rightarrow> select" where
  "refreshCustomSelect width s =
     (case se_drop s of
        None \<Rightarrow> s
      | Some d \<Rightarrow>
          let m = max_width width (se_options s)
          in s\<lparr>se_drop := Some (d\<lparr>dd_items := se_options s,
                 dd_current := (if dd_current d = None then None else or_else (last_html (se_options s)) (dd_current d)),
                 dd_open := (if se_options s = [] then dd_open d else False),
                 dd_width := Some (m + 18), dd_list_width := Some (m + 16)\<rparr>)\<rparr>)"

section \<open>Checkboxes and radio buttons\<close>

definition map_at :: "(nat \<Rightarrow> 'a \<Rightarrow> 'a) \<Rightarrow> 'a list \<Rightarrow> 'a list" where
  "map_at g xs = map (\<lambda>i. g i (xs ! i)) [0..<length xs]"

text \<open>What the browser takes for one group.\<close>

definition same_group :: "check \<Rightarrow> check \<Rightarrow> bool" where
  "same_group a b \<longleftrightarrow> ck_radio a \<and> ck_radio b \<and> ck_form a = ck_form b \<and> ck_name a = ck_name b \<and> ck_name a \<noteq> None \<and> ck_name a \<noteq> Some []"

definition set_checked :: "nat \<Rightarrow> bool \<Rightarrow> check list \<Rightarrow> check list" where
  "set_checked i v cs =
     map_at (\<lambda>j c. if j = i then c\<lparr>ck_checked := v\<rparr>
                   else if v \<and> same_group (cs ! i) c then c\<lparr>ck_checked := False\<rparr> else c) cs"

definition set_span :: "(bool \<Rightarrow> bool) \<Rightarrow> check \<Rightarrow> check" where
  "set_span g c = c\<lparr>ck_span := map_option (\<lambda>(a, b). (g a, b)) (ck_span c)\<rparr>"

definition toggleCheckbox :: "nat \<Rightarrow> forms \<Rightarrow> forms" where
  "toggleCheckbox i f =
     (let cs = fm_checks f
      in if ck_disabled (cs ! i) then f
         else
           let cs1 = set_checked i (\<not> ck_checked (cs ! i)) cs
           in f\<lparr>fm_checks := cs1[i := set_span Not (cs1 ! i)], fm_changes := fm_changes f @ [Inl i]\<rparr>)"

definition name_text :: "string option \<Rightarrow> string" where
  "name_text n = (case n of None \<Rightarrow> ''undefined'' | Some s \<Rightarrow> s)"

text \<open>\<open>$('input:radio[name="..."]').next().not($element).removeClass('checked')\<close>, in the whole page.\<close>

definition clear_spans :: "string \<Rightarrow> (nat \<Rightarrow> bool) \<Rightarrow> check list \<Rightarrow> check list" where
  "clear_spans name spared cs =
     map_at (\<lambda>j c. if \<not> spared j \<and> ck_radio c \<and> ck_name c = Some name then set_span (\<lambda>_. False) c else c) cs"

definition toggleRadio :: "nat \<Rightarrow> forms \<Rightarrow> forms" where
  "toggleRadio i f =
     (let cs = fm_checks f
      in if ck_disabled (cs ! i) then f
         else
           let cs1 = clear_spans (name_text (ck_name (cs ! i))) (\<lambda>j. j = i) cs;
               cs2 = cs1[i := set_span (\<lambda>_. True) (cs1 ! i)]
           in f\<lparr>fm_checks := set_checked i True cs2, fm_changes := fm_changes f @ [Inl i]\<rparr>)"

section \<open>Selects\<close>

definition upd_drop :: "(dropdown \<Rightarrow> dropdown) \<Rightarrow> select \<Rightarrow> select" where
  "upd_drop g s = s\<lparr>se_drop := map_option g (se_drop s)\<rparr>"

text \<open>\<open>$('div.dropdown').removeClass('open')\<close>\<close>

definition close_all :: "forms \<Rightarrow> forms" where
  "close_all f = f\<lparr>fm_selects := map (upd_drop (\<lambda>d. d\<lparr>dd_open := False\<rparr>)) (fm_selects f)\<rparr>"

text \<open>The handlers on the document, each of which closes its dropdown and unbinds all.\<close>

definition body_click :: "forms \<Rightarrow> forms" where
  "body_click f =
     f\<lparr>fm_selects := map_at (\<lambda>i s. if i \<in> set (fm_bound f) then upd_drop (\<lambda>d. d\<lparr>dd_open := False\<rparr>) s else s) (fm_selects f),
       fm_bound := []\<rparr>"

definition drop_open :: "select \<Rightarrow> bool" where
  "drop_open s = (case se_drop s of None \<Rightarrow> False | Some d \<Rightarrow> dd_open d)"

text \<open>A click on the current text or the arrow; the event goes on to the document if the select is disabled.\<close>

definition click_current :: "nat \<Rightarrow> forms \<Rightarrow> forms" where
  "click_current i f =
     (let f1 = close_all f; s = fm_selects f1 ! i
      in if se_disabled s then body_click f1
         else
           let s1 = upd_drop (\<lambda>d. d\<lparr>dd_open := \<not> dd_open d\<rparr>) s; f2 = f1\<lparr>fm_selects := (fm_selects f1)[i := s1]\<rparr>
           in if drop_open s1 then f2\<lparr>fm_bound := fm_bound f2 @ [i]\<rparr> else f2\<lparr>fm_bound := []\<rparr>)"

definition change_select :: "(string \<Rightarrow> int) \<Rightarrow> nat \<Rightarrow> forms \<Rightarrow> forms" where
  "change_select width i f =
     f\<lparr>fm_selects := (fm_selects f)[i := (if se_custom (fm_selects f ! i) then refreshCustomSelect width (fm_selects f ! i) else fm_selects f ! i)],
       fm_changes := fm_changes f @ [Inr i]\<rparr>"

text \<open>Setting \<open>selectedIndex\<close>: that option is selected and no other.\<close>

definition select_index :: "nat \<Rightarrow> select \<Rightarrow> select" where
  "select_index k s = s\<lparr>se_options := map_at (\<lambda>j p. (fst p, j = k)) (se_options s)\<rparr>"

definition click_item :: "(string \<Rightarrow> int) \<Rightarrow> nat \<Rightarrow> nat \<Rightarrow> forms \<Rightarrow> forms" where
  "click_item width i k f =
     (let f1 = close_all f; s = fm_selects f1 ! i;
          s1 = upd_drop (\<lambda>d. d\<lparr>dd_items := map_at (\<lambda>j p. (fst p, j = k)) (dd_items d), dd_open := False,
                 dd_current := map_option (\<lambda>_. fst (dd_items d ! k)) (dd_current d)\<rparr>) s
      in change_select width i (f1\<lparr>fm_selects := (fm_selects f1)[i := select_index k s1]\<rparr>))"

section \<open>Events\<close>

datatype form_event =
  Append | ClickSpan nat | ClickLabel nat | ClickCurrent nat | ClickItem nat nat | ClickBody

text \<open>
  A click on a label. It toggles the element that the label names and holds; with a label that does not hold it, the input
  is undefined and reading it raises; a label without \<open>for\<close> is left to the browser. Then the event goes on to the document.
\<close>

definition click_label :: "nat \<Rightarrow> forms \<Rightarrow> (js_error + unit) \<times> forms" where
  "click_label i f =
     (let c = fm_checks f ! i
      in case ck_label c of
           NoLabel \<Rightarrow> (Inr (), f)
         | LabelFor holds \<Rightarrow>
             if holds \<and> ck_span c \<noteq> None then (Inr (), body_click (if ck_radio c then toggleRadio i f else toggleCheckbox i f))
             else (Inl TypeError,
                   if ck_radio c then f\<lparr>fm_checks := clear_spans ''undefined'' (\<lambda>_. False) (fm_checks f)\<rparr> else f)
         | LabelAround \<Rightarrow>
             (Inr (), body_click
                (if ck_disabled c \<or> ck_radio c \<and> ck_checked c then f
                 else f\<lparr>fm_checks := set_checked i (\<not> ck_checked c) (fm_checks f), fm_changes := fm_changes f @ [Inl i]\<rparr>)))"

text \<open>What is not there gets no clicks.\<close>

definition handle_click :: "(string \<Rightarrow> int) \<Rightarrow> form_event \<Rightarrow> forms \<Rightarrow> (js_error + unit) \<times> forms" where
  "handle_click width ev f =
     (case ev of
        Append \<Rightarrow> (Inr (), appendCustomMarkup width f)
      | ClickSpan i \<Rightarrow>
          (Inr (), if i < length (fm_checks f) \<and> ck_span (fm_checks f ! i) \<noteq> None then
                     (if ck_radio (fm_checks f ! i) then toggleRadio i f else toggleCheckbox i f)
                   else f)
      | ClickLabel i \<Rightarrow> if i < length (fm_checks f) then click_label i f else (Inr (), f)
      | ClickCurrent i \<Rightarrow>
          (Inr (), if i < length (fm_selects f) \<and> se_drop (fm_selects f ! i) \<noteq> None then click_current i f else f)
      | ClickItem i k \<Rightarrow>
          (Inr (), case (if i < length (fm_selects f) then se_drop (fm_selects f ! i) else None) of
                     None \<Rightarrow> f
                   | Some d \<Rightarrow> if k < length (dd_items d) then click_item width i k f else f)
      | ClickBody \<Rightarrow> (Inr (), body_click f))"

definition form_events :: "(string \<Rightarrow> int) \<Rightarrow> form_event list \<Rightarrow> forms \<Rightarrow> forms" where
  "form_events width evs f = fold (\<lambda>ev f. snd (handle_click width ev f)) evs f"

section \<open>Measuring leaves the styles as they were\<close>

lemma nth_fold_upd:
  assumes "distinct is" "\<forall>i \<in> set is. i < length c"
  shows "length (fold (\<lambda>i c. c[i := g i (c ! i)]) is c) = length c"
    "j < length c \<Longrightarrow> fold (\<lambda>i c. c[i := g i (c ! i)]) is c ! j = (if j \<in> set is then g j (c ! j) else c ! j)"
  using assms
proof (induction "is" arbitrary: c)
  case (Cons i "is")
  { case 1 then show ?case using Cons(1) [of "c[i := g i (c ! i)]"] by simp }
  { case 2 then show ?case using Cons(2) [of "c[i := g i (c ! i)]"] by (auto simp: nth_list_update) }
qed simp_all

lemma reset_as_fold:
  "reset (map t is, is) chain = fold (\<lambda>i c. c[i := (c ! i)\<lparr>hn_style := t i, hn_hidden := True\<rparr>]) is chain"
  unfolding reset_def fst_conv snd_conv by (induction "is" arbitrary: chain) simp_all

text \<open>After measuring, \<open>hiddenFix\<close> puts every style back, also where there was none.\<close>

theorem reset_adjust: "reset (fst (adjust css chain)) (snd (adjust css chain)) = chain"
proof -
  let ?h = "filter (\<lambda>i. hn_hidden (chain ! i)) [0..<length chain]"
  define g :: "nat \<Rightarrow> chain_node \<Rightarrow> chain_node" where "g = (\<lambda>i c. c\<lparr>hn_style := Some (css (hn_style c)), hn_hidden := False\<rparr>)"
  define b :: "nat \<Rightarrow> chain_node \<Rightarrow> chain_node" where "b = (\<lambda>i c. c\<lparr>hn_style := hn_style (chain ! i), hn_hidden := True\<rparr>)"
  let ?c = "fold (\<lambda>i c. c[i := g i (c ! i)]) ?h chain"
  have r: "reset (fst (adjust css chain)) (snd (adjust css chain)) = fold (\<lambda>i c. c[i := b i (c ! i)]) ?h ?c"
    by (simp add: adjust_def Let_def reset_as_fold g_def b_def)
  have h0: "distinct ?h" "\<forall>i \<in> set ?h. i < length chain" by auto
  have c: "length ?c = length chain" "\<And>j. j < length chain \<Longrightarrow> ?c ! j = (if j \<in> set ?h then g j (chain ! j) else chain ! j)"
    using nth_fold_upd [OF h0] by simp_all
  have h: "distinct ?h" "\<forall>i \<in> set ?h. i < length ?c" using c(1) by auto
  show ?thesis unfolding r
  proof (rule nth_equalityI)
    show "length (fold (\<lambda>i c. c[i := b i (c ! i)]) ?h ?c) = length chain" using nth_fold_upd(1) [OF h] c(1) by simp
    fix j assume "j < length (fold (\<lambda>i c. c[i := b i (c ! i)]) ?h ?c)"
    then have j: "j < length chain" using nth_fold_upd(1) [OF h] c(1) by simp
    then have "fold (\<lambda>i c. c[i := b i (c ! i)]) ?h ?c ! j = (if j \<in> set ?h then b j (?c ! j) else ?c ! j)"
      using nth_fold_upd(2) [OF h] c(1) by simp
    also have "\<dots> = chain ! j"
      using j c(2) [OF j] by (cases "chain ! j") (auto simp: b_def g_def)
    finally show "fold (\<lambda>i c. c[i := b i (c ! i)]) ?h ?c ! j = chain ! j" .
  qed
qed

section \<open>The custom elements show what the controls are\<close>

lemma map_at_nth [simp]: "length (map_at g xs) = length xs" "i < length xs \<Longrightarrow> map_at g xs ! i = g i (xs ! i)"
  by (simp_all add: map_at_def)

text \<open>A page: every radio button has a name, which no other form uses; custom inputs have no label that is only around them.\<close>

definition input_ok :: "check \<Rightarrow> bool" where
  "input_ok c \<longleftrightarrow> (ck_radio c \<longrightarrow> ck_name c \<notin> {None, Some [], Some ''undefined''})
     \<and> (ck_label c = LabelAround \<longrightarrow> \<not> ck_custom c) \<and> (ck_span c \<noteq> None \<longrightarrow> ck_custom c)"

definition groups_alike :: "check list \<Rightarrow> bool" where
  "groups_alike cs \<longleftrightarrow> list_all (\<lambda>c. list_all (\<lambda>c'. same_group c c' \<and> ck_custom c \<longrightarrow> ck_custom c') cs) cs"

lemma groups_alikeD:
  "groups_alike cs \<Longrightarrow> i < length cs \<Longrightarrow> j < length cs \<Longrightarrow> same_group (cs ! i) (cs ! j) \<Longrightarrow> ck_custom (cs ! i) \<Longrightarrow> ck_custom (cs ! j)"
  unfolding groups_alike_def list_all_length by blast

definition page_ok :: "check list \<Rightarrow> bool" where
  "page_ok cs \<longleftrightarrow> list_all input_ok cs
     \<and> list_all (\<lambda>c. list_all (\<lambda>c'. ck_radio c \<and> ck_radio c' \<and> ck_name c = ck_name c' \<longrightarrow> ck_form c = ck_form c') cs) cs
     \<and> groups_alike cs"

lemma page_okD:
  assumes "page_ok cs" "i < length cs"
  shows "input_ok (cs ! i)"
    "j < length cs \<Longrightarrow> ck_radio (cs ! i) \<Longrightarrow> ck_radio (cs ! j) \<Longrightarrow> ck_name (cs ! i) = ck_name (cs ! j) \<Longrightarrow> ck_form (cs ! i) = ck_form (cs ! j)"
  using assms unfolding page_ok_def list_all_length by blast+

text \<open>Nothing of this is changed.\<close>

definition same_page :: "check list \<Rightarrow> check list \<Rightarrow> bool" where
  "same_page cs ds \<longleftrightarrow> length ds = length cs \<and> (\<forall>i < length cs. ck_radio (ds ! i) = ck_radio (cs ! i) \<and> ck_form (ds ! i) = ck_form (cs ! i)
     \<and> ck_name (ds ! i) = ck_name (cs ! i) \<and> ck_custom (ds ! i) = ck_custom (cs ! i) \<and> ck_label (ds ! i) = ck_label (cs ! i)
     \<and> (ck_span (cs ! i) = None \<longrightarrow> ck_span (ds ! i) = None \<or> ck_custom (cs ! i)))"

lemma same_pageD:
  assumes "same_page cs ds" "i < length cs"
  shows "ck_radio (ds ! i) = ck_radio (cs ! i)" "ck_form (ds ! i) = ck_form (cs ! i)" "ck_name (ds ! i) = ck_name (cs ! i)"
    "ck_custom (ds ! i) = ck_custom (cs ! i)" "ck_label (ds ! i) = ck_label (cs ! i)"
    "ck_span (cs ! i) = None \<Longrightarrow> ck_span (ds ! i) = None \<or> ck_custom (cs ! i)"
  using assms by (simp_all add: same_page_def)

lemma same_page_group:
  "same_page cs ds \<Longrightarrow> i < length cs \<Longrightarrow> j < length cs \<Longrightarrow> same_group (ds ! i) (ds ! j) = same_group (cs ! i) (cs ! j)"
  unfolding same_group_def by (simp add: same_pageD)

lemma groups_alike_same:
  assumes "same_page cs ds" "groups_alike cs"
  shows "groups_alike ds"
proof -
  have len: "length ds = length cs" using assms(1) by (simp add: same_page_def)
  have "ck_custom (ds ! j)" if "i < length cs" "j < length cs" "same_group (ds ! i) (ds ! j)" "ck_custom (ds ! i)" for i j
    using groups_alikeD [OF assms(2) that(1,2)] that(3,4)
    by (simp only: same_page_group [OF assms(1) that(1,2)] same_pageD(4) [OF assms(1) that(1)] same_pageD(4) [OF assms(1) that(2)])
  then show ?thesis unfolding groups_alike_def list_all_length len by blast
qed

lemma page_same:
  assumes "same_page cs ds" "page_ok cs"
  shows "page_ok ds"
proof -
  have len: "length ds = length cs" using assms(1) by (simp add: same_page_def)
  have "input_ok (ds ! i)" if "i < length cs" for i
  proof -
    have "ck_span (ds ! i) \<noteq> None \<Longrightarrow> ck_custom (cs ! i)"
      using page_okD(1) [OF assms(2) that] same_pageD(6) [OF assms(1) that] by (cases "ck_span (cs ! i)") (auto simp: input_ok_def)
    then show ?thesis
      using page_okD(1) [OF assms(2) that] by (simp add: input_ok_def same_pageD(1,3-5) [OF assms(1) that])
  qed
  moreover have "ck_form (ds ! i) = ck_form (ds ! j)"
    if "i < length cs" "j < length cs" "ck_radio (ds ! i)" "ck_radio (ds ! j)" "ck_name (ds ! i) = ck_name (ds ! j)" for i j
    using page_okD(2) [OF assms(2) that(1,2)] same_pageD(1-3) [OF assms(1) that(1)] same_pageD(1-3) [OF assms(1) that(2)] that(3-5) by simp
  moreover have "groups_alike ds" using groups_alike_same [OF assms(1)] assms(2) by (simp add: page_ok_def)
  ultimately show ?thesis unfolding page_ok_def list_all_length len by blast
qed

definition check_ok :: "check \<Rightarrow> bool" where
  "check_ok c \<longleftrightarrow> (case ck_span c of None \<Rightarrow> True | Some (a, b) \<Rightarrow> a = ck_checked c \<and> b = ck_disabled c)"

definition groups_ok :: "check list \<Rightarrow> bool" where
  "groups_ok cs \<longleftrightarrow> (\<forall>i < length cs. \<forall>j < length cs. i \<noteq> j \<longrightarrow> same_group (cs ! i) (cs ! j) \<longrightarrow> ck_checked (cs ! i) \<longrightarrow> \<not> ck_checked (cs ! j))"

definition checks_ok :: "check list \<Rightarrow> bool" where
  "checks_ok cs \<longleftrightarrow> page_ok cs \<and> list_all check_ok cs \<and> groups_ok cs"

lemma set_span_simps [simp]:
  "ck_radio (set_span g c) = ck_radio c" "ck_form (set_span g c) = ck_form c" "ck_name (set_span g c) = ck_name c"
  "ck_custom (set_span g c) = ck_custom c" "ck_label (set_span g c) = ck_label c" "ck_checked (set_span g c) = ck_checked c"
  "ck_disabled (set_span g c) = ck_disabled c" "ck_span (set_span g c) = None \<longleftrightarrow> ck_span c = None"
  "(set_span g c)\<lparr>ck_checked := v\<rparr> = set_span g (c\<lparr>ck_checked := v\<rparr>)"
  by (simp_all add: set_span_def)

lemma append_check_simps [simp]:
  "ck_radio (append_check c) = ck_radio c" "ck_form (append_check c) = ck_form c" "ck_name (append_check c) = ck_name c"
  "ck_custom (append_check c) = ck_custom c" "ck_label (append_check c) = ck_label c" "ck_checked (append_check c) = ck_checked c"
  "check_ok c \<Longrightarrow> check_ok (append_check c)" "\<not> ck_custom c \<Longrightarrow> append_check c = c"
  by (simp_all add: append_check_def check_ok_def)

lemma check_ok_set:
  "check_ok c \<Longrightarrow> check_ok (set_span Not (c\<lparr>ck_checked := \<not> ck_checked c\<rparr>))"
  "check_ok c \<Longrightarrow> check_ok (set_span (\<lambda>_. v) (c\<lparr>ck_checked := v\<rparr>))"
  by (cases "ck_span c"; simp add: check_ok_def set_span_def; auto)+

lemma checks_okI:
  assumes "same_page cs ds" "page_ok cs" "\<And>j. j < length cs \<Longrightarrow> check_ok (ds ! j)"
    "\<And>i j. i < length cs \<Longrightarrow> j < length cs \<Longrightarrow> i \<noteq> j \<Longrightarrow> same_group (cs ! i) (cs ! j) \<Longrightarrow> ck_checked (ds ! i) \<Longrightarrow> \<not> ck_checked (ds ! j)"
  shows "checks_ok ds"
proof -
  have len: "length ds = length cs" using assms(1) by (simp add: same_page_def)
  have "groups_ok ds" unfolding groups_ok_def len using assms(4) same_page_group [OF assms(1)] by blast
  then show ?thesis using page_same [OF assms(1,2)] assms(3) by (simp add: checks_ok_def list_all_length len)
qed

lemma checks_okD:
  assumes "checks_ok cs"
  shows "page_ok cs" "i < length cs \<Longrightarrow> check_ok (cs ! i)"
    "i < length cs \<Longrightarrow> j < length cs \<Longrightarrow> i \<noteq> j \<Longrightarrow> same_group (cs ! i) (cs ! j) \<Longrightarrow> ck_checked (cs ! i) \<Longrightarrow> \<not> ck_checked (cs ! j)"
  using assms by (simp_all add: checks_ok_def list_all_length groups_ok_def)

lemma same_pageI:
  assumes "length ds = length cs"
    "\<And>i. i < length cs \<Longrightarrow> ck_radio (ds ! i) = ck_radio (cs ! i) \<and> ck_form (ds ! i) = ck_form (cs ! i) \<and> ck_name (ds ! i) = ck_name (cs ! i)
      \<and> ck_custom (ds ! i) = ck_custom (cs ! i) \<and> ck_label (ds ! i) = ck_label (cs ! i)
      \<and> (ck_span (cs ! i) = None \<longrightarrow> ck_span (ds ! i) = None \<or> ck_custom (cs ! i))"
  shows "same_page cs ds"
  using assms by (simp add: same_page_def)

text \<open>Clicking a checkbox: it and its custom element.\<close>

lemma toggleCheckbox_nth:
  assumes "j < length (fm_checks f)" "i < length (fm_checks f)" "\<not> ck_radio (fm_checks f ! i)"
  shows "fm_checks (toggleCheckbox i f) ! j =
    (if j = i \<and> \<not> ck_disabled (fm_checks f ! i)
     then set_span Not ((fm_checks f ! i)\<lparr>ck_checked := \<not> ck_checked (fm_checks f ! i)\<rparr>) else fm_checks f ! j)"
  using assms by (auto simp: toggleCheckbox_def Let_def set_checked_def same_group_def nth_list_update)

lemma toggleCheckbox_ok:
  assumes "checks_ok (fm_checks f)" "i < length (fm_checks f)" "\<not> ck_radio (fm_checks f ! i)"
  shows "checks_ok (fm_checks (toggleCheckbox i f))"
proof (rule checks_okI)
  let ?cs = "fm_checks f" and ?ds = "fm_checks (toggleCheckbox i f)"
  have len: "length ?ds = length ?cs" by (simp add: toggleCheckbox_def Let_def set_checked_def)
  note nth = toggleCheckbox_nth [OF _ assms(2,3)]
  show "same_page ?cs ?ds" by (rule same_pageI) (simp_all add: len nth)
  show "page_ok ?cs" using assms(1) by (rule checks_okD)
  show "check_ok (?ds ! j)" if "j < length ?cs" for j
    using checks_okD(2) [OF assms(1) that] nth [OF that] check_ok_set(1) [of "?cs ! j"] by (cases "j = i") simp_all
  fix j k assume jk: "j < length ?cs" "k < length ?cs" "j \<noteq> k" "same_group (?cs ! j) (?cs ! k)" "ck_checked (?ds ! j)"
  then have "j \<noteq> i" "k \<noteq> i" using assms(3) by (auto simp: same_group_def)
  then show "\<not> ck_checked (?ds ! k)" using jk checks_okD(3) [OF assms(1) jk(1-4)] nth by simp
qed

text \<open>Clicking a radio button: on, and all others of its name off.\<close>

lemma toggleRadio_nth:
  assumes "j < length (fm_checks f)" "i < length (fm_checks f)" "ck_radio (fm_checks f ! i)" "page_ok (fm_checks f)"
    "\<not> ck_disabled (fm_checks f ! i)"
  shows "fm_checks (toggleRadio i f) ! j =
    (let c = fm_checks f ! j
     in if j = i then set_span (\<lambda>_. True) (c\<lparr>ck_checked := True\<rparr>)
        else if same_group (fm_checks f ! i) c then set_span (\<lambda>_. False) (c\<lparr>ck_checked := False\<rparr>) else c)"
proof -
  let ?c = "fm_checks f ! i" and ?d = "fm_checks f ! j"
  obtain n where n: "ck_name ?c = Some n" "n \<noteq> []"
    using page_okD(1) [OF assms(4,2)] assms(3) by (cases "ck_name ?c") (simp_all add: input_ok_def)
  have grp: "(ck_radio ?d \<and> ck_name ?d = Some n) = same_group ?c ?d"
    using page_okD(2) [OF assms(4,2,1,3)] n assms(3) by (auto simp: same_group_def)
  define cs1 where "cs1 = clear_spans n (\<lambda>j. j = i) (fm_checks f)"
  have len: "length cs1 = length (fm_checks f)" by (simp add: cs1_def clear_spans_def)
  have i: "cs1 ! i = ?c" using assms(2) by (simp add: cs1_def clear_spans_def)
  have 1: "cs1 ! j = (if j \<noteq> i \<and> same_group ?c ?d then set_span (\<lambda>_. False) ?d else ?d)"
    unfolding grp [symmetric] cs1_def clear_spans_def map_at_nth(2) [OF assms(1)] by simp
  define cs2 where "cs2 = cs1[i := set_span (\<lambda>_. True) (cs1 ! i)]"
  have 2: "cs2 ! j = (if j = i then set_span (\<lambda>_. True) ?c else if same_group ?c ?d then set_span (\<lambda>_. False) ?d else ?d)"
      "cs2 ! i = set_span (\<lambda>_. True) ?c" "j < length cs2"
    using assms(1,2) 1 i len by (auto simp: cs2_def nth_list_update)
  have "same_group (cs2 ! i) (cs2 ! j) = same_group ?c ?d" if "j \<noteq> i" using that by (simp add: 2 same_group_def)
  then have "set_checked i True cs2 ! j =
      (let c = ?d in if j = i then set_span (\<lambda>_. True) (c\<lparr>ck_checked := True\<rparr>)
        else if same_group ?c c then set_span (\<lambda>_. False) (c\<lparr>ck_checked := False\<rparr>) else c)"
    using 2 by (simp add: set_checked_def Let_def)
  then show ?thesis using assms(5) n by (simp add: toggleRadio_def Let_def cs2_def cs1_def name_text_def)
qed

lemma toggleRadio_ok:
  assumes "checks_ok (fm_checks f)" "i < length (fm_checks f)" "ck_radio (fm_checks f ! i)"
  shows "checks_ok (fm_checks (toggleRadio i f))"
proof (cases "ck_disabled (fm_checks f ! i)")
  case True
  then show ?thesis using assms(1) by (simp add: toggleRadio_def Let_def)
next
  case False
  let ?cs = "fm_checks f" and ?ds = "fm_checks (toggleRadio i f)"
  have len: "length ?ds = length ?cs" by (simp add: toggleRadio_def Let_def set_checked_def clear_spans_def)
  have page: "page_ok ?cs" using assms(1) by (simp add: checks_ok_def)
  note nth = toggleRadio_nth [OF _ assms(2,3) page False, unfolded Let_def]
  show ?thesis
  proof (rule checks_okI)
    show "same_page ?cs ?ds" by (rule same_pageI) (simp_all add: len nth)
    show "page_ok ?cs" by (rule page)
    show "check_ok (?ds ! j)" if "j < length ?cs" for j
      using checks_okD(2) [OF assms(1) that] nth [OF that] check_ok_set(2) [of "?cs ! j"] by (cases "j = i") simp_all
    fix j k assume jk: "j < length ?cs" "k < length ?cs" "j \<noteq> k" "same_group (?cs ! j) (?cs ! k)" "ck_checked (?ds ! j)"
    show "\<not> ck_checked (?ds ! k)"
    proof (cases "j = i \<or> k = i")
      case True
      then show ?thesis using jk nth [OF jk(1)] nth [OF jk(2)] by (auto simp: same_group_def split: if_splits)
    next
      case False
      then have "ck_checked (?cs ! j)" using jk(5) nth [OF jk(1)] by (simp split: if_splits)
      then have "\<not> ck_checked (?cs ! k)" using checks_okD(3) [OF assms(1) jk(1-4)] by simp
      then show ?thesis using False nth [OF jk(2)] by simp
    qed
  qed
qed

lemma append_checks_ok:
  assumes "checks_ok cs"
  shows "checks_ok (map append_check cs)"
proof -
  have same: "same_page cs (map append_check cs)"
  proof (rule same_pageI)
    fix i assume "i < length cs"
    then show "ck_radio (map append_check cs ! i) = ck_radio (cs ! i) \<and> ck_form (map append_check cs ! i) = ck_form (cs ! i)
      \<and> ck_name (map append_check cs ! i) = ck_name (cs ! i) \<and> ck_custom (map append_check cs ! i) = ck_custom (cs ! i)
      \<and> ck_label (map append_check cs ! i) = ck_label (cs ! i)
      \<and> (ck_span (cs ! i) = None \<longrightarrow> ck_span (map append_check cs ! i) = None \<or> ck_custom (cs ! i))"
      by (cases "ck_custom (cs ! i)") simp_all
  qed simp
  have "same_group (append_check a) (append_check b) = same_group a b" for a b by (simp add: same_group_def)
  then show ?thesis
    using same checks_okD [OF assms] by (intro checks_okI [where cs = cs]) simp_all
qed

text \<open>A label that is only around an input changes an input without a custom element, and those of its group,
  which have none in their form either.\<close>

lemma same_group_sym: "same_group a b \<Longrightarrow> same_group b a"
  unfolding same_group_def by metis

lemma label_around_ok:
  assumes "checks_ok cs" "i < length cs" "ck_label (cs ! i) = LabelAround" "\<not> (ck_radio (cs ! i) \<and> ck_checked (cs ! i))"
  shows "checks_ok (set_checked i (\<not> ck_checked (cs ! i)) cs)"
proof (rule checks_okI)
  let ?v = "\<not> ck_checked (cs ! i)"
  let ?ds = "set_checked i ?v cs"
  have nth: "?ds ! j = (if j = i \<or> ?v \<and> same_group (cs ! i) (cs ! j) then (cs ! j)\<lparr>ck_checked := (j = i \<and> ?v)\<rparr> else cs ! j)"
    if "j < length cs" for j
    using that by (simp add: set_checked_def)
  have none: "ck_span (cs ! j) = None" if "j < length cs" "j = i \<or> same_group (cs ! i) (cs ! j)" for j
  proof -
    have page: "page_ok cs" using assms(1) by (rule checks_okD)
    have "\<not> ck_custom (cs ! i)" using page_okD(1) [OF page assms(2)] assms(3) by (simp add: input_ok_def)
    moreover have "same_group (cs ! j) (cs ! i)" if "j \<noteq> i" using that \<open>j = i \<or> same_group (cs ! i) (cs ! j)\<close> same_group_sym by blast
    ultimately have "\<not> ck_custom (cs ! j)" using groups_alikeD [OF _ that(1) assms(2)] page that(2) page_ok_def by blast
    then show ?thesis using page_okD(1) [OF page that(1)] by (cases "ck_span (cs ! j)") (auto simp: input_ok_def)
  qed
  show "same_page cs ?ds" by (rule same_pageI) (simp_all add: nth, simp add: set_checked_def)
  show "page_ok cs" using assms(1) by (rule checks_okD)
  show "check_ok (?ds ! j)" if "j < length cs" for j
    using checks_okD(2) [OF assms(1) that] nth [OF that] none [OF that] by (auto simp: check_ok_def)
  fix j k assume jk: "j < length cs" "k < length cs" "j \<noteq> k" "same_group (cs ! j) (cs ! k)" "ck_checked (?ds ! j)"
  show "\<not> ck_checked (?ds ! k)"
  proof (cases "j = i \<or> k = i")
    case True
    then show ?thesis using jk nth [OF jk(1)] nth [OF jk(2)] assms(4) by (auto simp: same_group_def split: if_splits)
  next
    case False
    then have "ck_checked (cs ! j)" using jk(5) nth [OF jk(1)] by (simp split: if_splits)
    then have "\<not> ck_checked (cs ! k)" using checks_okD(3) [OF assms(1) jk(1-4)] by simp
    then show ?thesis using False nth [OF jk(2)] by simp
  qed
qed

section \<open>Selects and their lists\<close>

definition select_ok :: "select \<Rightarrow> bool" where
  "select_ok s \<longleftrightarrow>
     (case se_drop s of
        None \<Rightarrow> True
      | Some d \<Rightarrow> se_custom s \<and> dd_items d = se_options s \<and> (last_html (se_options s) \<noteq> None \<longrightarrow> dd_current d = last_html (se_options s))
          \<and> dd_current d \<noteq> None)"

lemma or_else_simps [simp]: "or_else None b = b" "or_else (Some x) b = Some x" "or_else a b = None \<longleftrightarrow> a = None \<and> b = None"
  by (simp_all add: or_else_def split: option.split)

lemma select_ok_append: "select_ok s \<Longrightarrow> select_ok (append_select width s)"
  by (cases "se_drop s"; cases "last_html (se_options s)"; simp add: select_ok_def append_select_def Let_def)

lemma select_ok_close [simp]: "select_ok (upd_drop (\<lambda>d. d\<lparr>dd_open := g d\<rparr>) s) = select_ok s"
  by (cases "se_drop s") (simp_all add: select_ok_def upd_drop_def)

text \<open>After an item was clicked the list is made again from the options, of which that one is selected.\<close>

lemma refresh_ok:
  assumes "se_custom s" "\<forall>d. se_drop s = Some d \<longrightarrow> dd_current d \<noteq> None"
  shows "select_ok (refreshCustomSelect width s)"
  using assms
  by (cases "se_drop s"; cases "last_html (se_options s)"; simp add: select_ok_def refreshCustomSelect_def Let_def)

definition no_open :: "select list \<Rightarrow> bool" where
  "no_open ss \<longleftrightarrow> (\<forall>i < length ss. \<not> drop_open (ss ! i))"

definition open_ok :: "forms \<Rightarrow> bool" where
  "open_ok f \<longleftrightarrow> (\<forall>i < length (fm_selects f). drop_open (fm_selects f ! i) \<longrightarrow>
     i \<in> set (fm_bound f) \<and> (\<forall>j < length (fm_selects f). drop_open (fm_selects f ! j) \<longrightarrow> j = i))"

lemma drop_open_upd [simp]: "drop_open (upd_drop g s) = (case se_drop s of None \<Rightarrow> False | Some d \<Rightarrow> dd_open (g d))"
  by (simp add: drop_open_def upd_drop_def split: option.split)

lemma close_all_simps [simp]:
  "length (fm_selects (close_all f)) = length (fm_selects f)" "fm_checks (close_all f) = fm_checks f" "fm_bound (close_all f) = fm_bound f"
  "i < length (fm_selects f) \<Longrightarrow> fm_selects (close_all f) ! i = upd_drop (\<lambda>d. d\<lparr>dd_open := False\<rparr>) (fm_selects f ! i)"
  by (simp_all add: close_all_def)

lemma body_click_simps [simp]:
  "length (fm_selects (body_click f)) = length (fm_selects f)" "fm_checks (body_click f) = fm_checks f" "fm_bound (body_click f) = []"
  "i < length (fm_selects f) \<Longrightarrow> fm_selects (body_click f) ! i =
     (if i \<in> set (fm_bound f) then upd_drop (\<lambda>d. d\<lparr>dd_open := False\<rparr>) (fm_selects f ! i) else fm_selects f ! i)"
  by (simp_all add: body_click_def)

lemma body_click_closes: "open_ok f \<Longrightarrow> no_open (fm_selects (body_click f))"
  by (auto simp: open_ok_def no_open_def split: option.split)

lemma no_open_ok: "no_open (fm_selects f) \<Longrightarrow> open_ok f"
  by (simp add: no_open_def open_ok_def)

definition selects_ok :: "forms \<Rightarrow> bool" where
  "selects_ok f \<longleftrightarrow> list_all select_ok (fm_selects f) \<and> open_ok f"

lemma selects_okI:
  assumes "\<And>i. i < length (fm_selects f) \<Longrightarrow> select_ok (fm_selects f ! i)" "open_ok f"
  shows "selects_ok f"
  using assms by (simp add: selects_ok_def list_all_length)

lemma selects_okD: "selects_ok f \<Longrightarrow> i < length (fm_selects f) \<Longrightarrow> select_ok (fm_selects f ! i)" "selects_ok f \<Longrightarrow> open_ok f"
  by (simp_all add: selects_ok_def list_all_length)

lemma body_click_ok: "selects_ok f \<Longrightarrow> selects_ok (body_click f)"
  by (rule selects_okI) (simp_all add: selects_okD no_open_ok body_click_closes)

lemma close_all_ok: "selects_ok f \<Longrightarrow> selects_ok (close_all f)" "no_open (fm_selects (close_all f))"
proof -
  show n: "no_open (fm_selects (close_all f))" by (simp add: no_open_def split: option.split)
  then show "selects_ok f \<Longrightarrow> selects_ok (close_all f)" by (intro selects_okI) (simp_all add: selects_okD no_open_ok)
qed

lemma append_selects_ok:
  assumes "selects_ok f"
  shows "selects_ok (appendCustomMarkup width f)"
proof (rule selects_okI)
  show "select_ok (fm_selects (appendCustomMarkup width f) ! i)" if "i < length (fm_selects (appendCustomMarkup width f))" for i
    using that select_ok_append selects_okD(1) [OF assms] by (simp add: appendCustomMarkup_def)
  have "drop_open (append_select width s) \<Longrightarrow> drop_open s" for s
    by (cases "se_drop s") (auto simp: append_select_def Let_def drop_open_def split: if_splits)
  then show "open_ok (appendCustomMarkup width f)"
    using selects_okD(2) [OF assms] by (auto simp: open_ok_def appendCustomMarkup_def)
qed

lemma click_current_ok:
  assumes "selects_ok f" "i < length (fm_selects f)"
  shows "selects_ok (click_current i f)"
proof (cases "se_disabled (fm_selects (close_all f) ! i)")
  case True
  then show ?thesis using body_click_ok close_all_ok(1) [OF assms(1)] by (simp add: click_current_def Let_def del: close_all_simps)
next
  case False
  let ?f1 = "close_all f"
  let ?s1 = "upd_drop (\<lambda>d. d\<lparr>dd_open := \<not> dd_open d\<rparr>) (fm_selects ?f1 ! i)"
  have c: "fm_selects (click_current i f) = (fm_selects ?f1)[i := ?s1]" "drop_open ?s1 \<Longrightarrow> i \<in> set (fm_bound (click_current i f))"
    using False by (simp_all add: click_current_def Let_def del: close_all_simps drop_open_upd)
  have ok1: "selects_ok ?f1" by (rule close_all_ok(1) [OF assms(1)])
  show ?thesis
  proof (rule selects_okI)
    show "select_ok (fm_selects (click_current i f) ! j)" if "j < length (fm_selects (click_current i f))" for j
      using that selects_okD(1) [OF ok1] assms(2) c(1) by (cases "j = i") (simp_all add: nth_list_update del: close_all_simps(4))
    have "\<not> drop_open (fm_selects ?f1 ! j)" if "j < length (fm_selects f)" for j
      using close_all_ok(2) [of f] that by (simp add: no_open_def)
    then show "open_ok (click_current i f)"
      using c assms(2) unfolding open_ok_def c(1) by (auto simp: nth_list_update simp del: close_all_simps(4) drop_open_upd split: if_splits)
  qed
qed

lemma click_item_ok:
  assumes "selects_ok f" "i < length (fm_selects f)" "se_drop (fm_selects f ! i) = Some d" "k < length (dd_items d)"
  shows "selects_ok (click_item width i k f)"
proof -
  let ?f1 = "close_all f"
  let ?s1 = "upd_drop (\<lambda>d. d\<lparr>dd_items := map_at (\<lambda>j p. (fst p, j = k)) (dd_items d), dd_open := False,
                 dd_current := map_option (\<lambda>_. fst (dd_items d ! k)) (dd_current d)\<rparr>) (fm_selects ?f1 ! i)"
  have ok1: "selects_ok ?f1" by (rule close_all_ok(1) [OF assms(1)])
  have s: "select_ok (fm_selects f ! i)" using selects_okD(1) [OF assms(1,2)] .
  then have custom: "se_custom (select_index k ?s1)" and cur: "\<forall>d. se_drop (select_index k ?s1) = Some d \<longrightarrow> dd_current d \<noteq> None"
    using assms(2,3) by (auto simp: select_ok_def select_index_def upd_drop_def)
  have c: "fm_selects (click_item width i k f) = (fm_selects ?f1)[i := refreshCustomSelect width (select_index k ?s1)]"
    "fm_bound (click_item width i k f) = fm_bound ?f1"
    using custom assms(2) by (simp_all add: click_item_def change_select_def Let_def del: close_all_simps(4))
  have "\<not> drop_open (refreshCustomSelect width (select_index k ?s1))"
    using assms(2,3) by (auto simp: refreshCustomSelect_def select_index_def upd_drop_def drop_open_def Let_def)
  then have "no_open (fm_selects (click_item width i k f))"
    using close_all_ok(2) [of f] assms(2) unfolding c no_open_def by (simp add: nth_list_update del: close_all_simps(4))
  then show ?thesis
    using refresh_ok [OF custom cur, of width] selects_okD(1) [OF ok1] assms(2)
    by (intro selects_okI no_open_ok) (auto simp: c nth_list_update simp del: close_all_simps(4))
qed

section \<open>All events\<close>

lemma toggles_selects [simp]:
  "fm_selects (toggleRadio i f) = fm_selects f" "fm_bound (toggleRadio i f) = fm_bound f"
  "fm_selects (toggleCheckbox i f) = fm_selects f" "fm_bound (toggleCheckbox i f) = fm_bound f"
  by (simp_all add: toggleRadio_def toggleCheckbox_def Let_def)

lemma clicks_checks [simp]:
  "fm_checks (click_current i f) = fm_checks f" "fm_checks (click_item width i k f) = fm_checks f"
  by (simp_all add: click_current_def click_item_def change_select_def Let_def)

lemma selects_ok_same: "fm_selects g = fm_selects f \<Longrightarrow> fm_bound g = fm_bound f \<Longrightarrow> selects_ok f \<Longrightarrow> selects_ok g"
  by (simp add: selects_ok_def open_ok_def)

lemma clear_no_spans:
  assumes "page_ok cs"
  shows "clear_spans ''undefined'' (\<lambda>_. False) cs = cs"
proof (rule nth_equalityI)
  fix i assume "i < length (clear_spans ''undefined'' (\<lambda>_. False) cs)"
  then have "i < length cs" by (simp add: clear_spans_def)
  then show "clear_spans ''undefined'' (\<lambda>_. False) cs ! i = cs ! i"
    using page_okD(1) [OF assms] by (auto simp: clear_spans_def input_ok_def)
qed (simp add: clear_spans_def)

definition forms_ok :: "forms \<Rightarrow> bool" where
  "forms_ok f \<longleftrightarrow> checks_ok (fm_checks f) \<and> selects_ok f"

lemma click_label_ok:
  assumes "forms_ok f" "i < length (fm_checks f)"
  shows "forms_ok (snd (click_label i f))"
proof (cases "ck_label (fm_checks f ! i)")
  case NoLabel
  then show ?thesis using assms(1) by (simp add: click_label_def Let_def)
next
  case (LabelFor holds)
  have "clear_spans ''undefined'' (\<lambda>_. False) (fm_checks f) = fm_checks f"
    using clear_no_spans checks_okD(1) assms(1) by (simp add: forms_ok_def)
  then have "f\<lparr>fm_checks := clear_spans ''undefined'' (\<lambda>_. False) (fm_checks f)\<rparr> = f" by simp
  moreover have "forms_ok (body_click (if ck_radio (fm_checks f ! i) then toggleRadio i f else toggleCheckbox i f))"
    using assms toggleRadio_ok toggleCheckbox_ok body_click_ok selects_ok_same [of "toggleRadio i f" f] selects_ok_same [of "toggleCheckbox i f" f]
    by (simp add: forms_ok_def)
  ultimately show ?thesis using LabelFor assms(1) by (simp add: click_label_def Let_def)
next
  case LabelAround
  let ?g = "f\<lparr>fm_checks := set_checked i (\<not> ck_checked (fm_checks f ! i)) (fm_checks f), fm_changes := fm_changes f @ [Inl i]\<rparr>"
  have "forms_ok (body_click f)" using assms(1) body_click_ok by (simp add: forms_ok_def)
  moreover have "forms_ok (body_click ?g)" if "\<not> (ck_radio (fm_checks f ! i) \<and> ck_checked (fm_checks f ! i))"
    using label_around_ok [OF _ assms(2) LabelAround that] assms(1) selects_ok_same [of ?g f] body_click_ok by (simp add: forms_ok_def)
  ultimately show ?thesis using LabelAround by (simp add: click_label_def Let_def)
qed

lemma form_event_ok: "forms_ok f \<Longrightarrow> forms_ok (snd (handle_click width ev f))"
proof (cases ev)
  case Append
  then show "forms_ok f \<Longrightarrow> forms_ok (snd (handle_click width ev f))"
    using append_checks_ok append_selects_ok by (simp add: handle_click_def forms_ok_def appendCustomMarkup_def)
next
  case (ClickSpan i)
  then show "forms_ok f \<Longrightarrow> forms_ok (snd (handle_click width ev f))"
    using toggleRadio_ok toggleCheckbox_ok selects_ok_same [of "toggleRadio i f" f] selects_ok_same [of "toggleCheckbox i f" f]
    by (simp add: handle_click_def forms_ok_def)
next
  case (ClickLabel i)
  then show "forms_ok f \<Longrightarrow> forms_ok (snd (handle_click width ev f))" using click_label_ok by (simp add: handle_click_def)
next
  case (ClickCurrent i)
  then show "forms_ok f \<Longrightarrow> forms_ok (snd (handle_click width ev f))" using click_current_ok by (simp add: handle_click_def forms_ok_def)
next
  case (ClickItem i k)
  then show "forms_ok f \<Longrightarrow> forms_ok (snd (handle_click width ev f))"
    using click_item_ok by (auto simp: handle_click_def forms_ok_def split: option.split)
next
  case ClickBody
  then show "forms_ok f \<Longrightarrow> forms_ok (snd (handle_click width ev f))" using body_click_ok by (simp add: handle_click_def forms_ok_def)
qed

lemma form_events_ok: "forms_ok f \<Longrightarrow> forms_ok (form_events width evs f)"
  by (induction evs arbitrary: f) (simp_all add: form_events_def form_event_ok)

text \<open>A page before anything custom is appended to it.\<close>

definition fresh_page :: "forms \<Rightarrow> bool" where
  "fresh_page f \<longleftrightarrow> page_ok (fm_checks f) \<and> list_all (\<lambda>c. ck_span c = None) (fm_checks f)
     \<and> groups_ok (fm_checks f)
     \<and> list_all (\<lambda>s. se_drop s = None) (fm_selects f)"

lemma fresh_ok:
  assumes "fresh_page f"
  shows "forms_ok f"
proof -
  have "list_all check_ok (fm_checks f)" using assms by (auto simp: fresh_page_def list_all_iff check_ok_def)
  moreover have "selects_ok f"
    using assms by (simp add: fresh_page_def selects_ok_def list_all_length select_ok_def open_ok_def drop_open_def)
  ultimately show ?thesis using assms by (simp add: fresh_page_def forms_ok_def checks_ok_def)
qed


text \<open>C36: Every custom list shows the options of its select, the selected one as the current; not more than one is open,
  and a click elsewhere closes it.\<close>

theorem selects_in_sync:
  assumes "fresh_page f" "g = form_events width evs f"
  shows "(\<forall>s \<in> set (fm_selects g). \<forall>d. se_drop s = Some d \<longrightarrow>
            dd_items d = se_options s \<and> (last_html (se_options s) \<noteq> None \<longrightarrow> dd_current d = last_html (se_options s)))
    \<and> (\<forall>i < length (fm_selects g). \<forall>j < length (fm_selects g).
         drop_open (fm_selects g ! i) \<longrightarrow> drop_open (fm_selects g ! j) \<longrightarrow> i = j)
    \<and> list_all (\<lambda>s. \<not> drop_open s) (fm_selects (snd (handle_click width ClickBody g)))"
proof -
  have ok: "selects_ok g" using form_events_ok fresh_ok [OF assms(1)] assms(2) by (simp add: forms_ok_def)
  then have "no_open (fm_selects (body_click g))" by (intro body_click_closes selects_okD)
  then have "list_all (\<lambda>s. \<not> drop_open s) (fm_selects (snd (handle_click width ClickBody g)))"
    by (simp add: handle_click_def list_all_length no_open_def)
  then show ?thesis using ok by (auto simp: selects_ok_def open_ok_def list_all_iff select_ok_def split: option.splits)
qed

section \<open>Examples\<close>

definition demo_radio :: "string \<Rightarrow> nat \<Rightarrow> check" where
  "demo_radio name form = \<lparr>ck_radio = True, ck_form = form, ck_custom = True, ck_name = Some name, ck_checked = False, ck_disabled = False,
     ck_hidden = False, ck_span = None, ck_label = LabelFor True\<rparr>"

definition demo_select :: select where
  "demo_select = \<lparr>se_custom = True, se_class = [], se_options = [(''a'', True), (''long'', False)], se_disabled = False,
     se_hidden = False, se_drop = None\<rparr>"

definition demo_page :: "nat \<Rightarrow> label \<Rightarrow> forms" where
  "demo_page form lab = \<lparr>fm_checks = [demo_radio ''r'' 0, demo_radio ''r'' form, (demo_radio ''c'' 0)\<lparr>ck_radio := False, ck_label := lab\<rparr>],
     fm_selects = [demo_select], fm_bound = [], fm_changes = []\<rparr>"

definition demo_width :: "string \<Rightarrow> int" where
  "demo_width h = 10 * int (length h)"

lemma demo_fresh: "lab \<noteq> LabelAround \<Longrightarrow> fresh_page (demo_page 0 lab)"
  by (simp add: fresh_page_def demo_page_def demo_radio_def page_ok_def input_ok_def groups_alike_def groups_ok_def same_group_def
      demo_select_def All_less_Suc)


lemma selects_in_sync_witness:
  "list_all (\<lambda>s. \<not> drop_open s)
     (fm_selects (snd (handle_click demo_width ClickBody (form_events demo_width [Append, ClickCurrent 0] (demo_page 0 NoLabel)))))"
proof -
  have "fresh_page (demo_page 0 NoLabel)" by (rule demo_fresh) simp
  from selects_in_sync [OF this refl] show ?thesis by blast
qed

text \<open>Radio buttons of the same name in two forms: the custom element of the other form is cleared, its input stays checked.\<close>

lemma radio_of_other_form:
  "let c = fm_checks (form_events demo_width [Append, ClickSpan 0, ClickSpan 1] (demo_page 1 NoLabel)) ! 0
   in ck_checked c \<and> ck_span c = Some (False, False)"
  by code_simp

text \<open>A label around an input without \<open>for\<close> changes the input and not what is shown.\<close>

lemma label_around_out_of_sync:
  "let c = fm_checks (form_events demo_width [Append, ClickLabel 2] (demo_page 0 LabelAround)) ! 2
   in ck_checked c \<and> ck_span c = Some (False, False)"
  by code_simp

text \<open>A label beside its input raises, after the default action of the click was prevented.\<close>

lemma label_beside_raises:
  "fst (handle_click demo_width (ClickLabel 2) (form_events demo_width [Append] (demo_page 0 (LabelFor False)))) = Inl TypeError"
  by code_simp

text \<open>A click on the current text of an open list does not close it: all lists are closed before it is toggled.\<close>

lemma second_click_leaves_open:
  "drop_open (fm_selects (form_events demo_width [Append, ClickCurrent 0, ClickCurrent 0] (demo_page 0 NoLabel)) ! 0)"
  by code_simp

text \<open>The width of a new list is that of its first item, not of the largest as a comment says; after a change it is.\<close>

lemma width_of_first_item:
  "map (\<lambda>evs. dd_width (the (se_drop (fm_selects (form_events demo_width evs (demo_page 0 NoLabel)) ! 0)))) [[Append], [Append, ClickItem 0 0]]
   = [Some 28, Some 58]"
  by code_simp

text \<open>Appending again makes the list new, but leaves the current text.\<close>

lemma append_again_leaves_current:
  "let s = append_select demo_width demo_select; t = append_select demo_width (select_index 1 s); d = the (se_drop t)
   in dd_current d = Some ''a'' \<and> map snd (dd_items d) = [False, True]"
  by code_simp

text \<open>The custom list of a select without options shows the text undefined.\<close>

lemma empty_select_undefined: "dd_current (the (se_drop (append_select demo_width (demo_select\<lparr>se_options := []\<rparr>)))) = Some ''undefined''"
  by code_simp

end
