(* ===== verification/FdReveal.thy ===== *)
theory FdReveal
  imports JqClass
begin

text \<open>
  The modal dialogs \<open>jquery.foundation.reveal.js\<close>. A call of \<open>reveal\<close> on an element makes a new set of
  handlers that share the variables of that call; the record \<open>reveal_call\<close> is those variables. The background, the
  close buttons and the body are shared by all calls, and so is the flag \<open>modalQueued\<close>. Animations are queues of
  moves; the first one is running, and its end is an event of the page that comes at any time.
\<close>

section \<open>The page\<close>

datatype reveal_event = EvOpen | EvOpened | EvClose | EvClosed

text \<open>\<open>UserFn\<close>: the functions given as options; their calls are logged.\<close>

datatype handler = OpenAnimation | OpenVideos | CloseAnimation | CloseVideos | UnlockModal | Destroy | UserFn reveal_event

record reveal_opts =
  ro_animation :: string
  ro_bg_click :: bool
  ro_dismiss :: string

record given_opts =
  go_animation :: "string option"
  go_bg_click :: "bool option"
  go_dismiss :: "string option"

text \<open>\<open>$.extend({}, defaults, options)\<close>: an option that is not given keeps its default.\<close>

definition reveal_defaults :: reveal_opts where
  "reveal_defaults = \<lparr>ro_animation = ''fadeAndPop'', ro_bg_click = True, ro_dismiss = ''close-reveal-modal''\<rparr>"

definition extend_opts :: "given_opts \<Rightarrow> reveal_opts" where
  "extend_opts g =
     \<lparr>ro_animation = case_option (ro_animation reveal_defaults) (\<lambda>a. a) (go_animation g),
      ro_bg_click = case_option (ro_bg_click reveal_defaults) (\<lambda>a. a) (go_bg_click g),
      ro_dismiss = case_option (ro_dismiss reveal_defaults) (\<lambda>a. a) (go_dismiss g)\<rparr>"

text \<open>The moves of a dialog: a delay, or an animation to a top (or none) and an opacity, and the function at its end, of the
  call with this number. The moves of the background.\<close>

datatype at_end = ThenOpened nat | ThenHidden nat
datatype move = Wait | Glide "int option" int at_end
datatype bg_move = BgWait | BgFadeTo | BgFadeIn | BgFadeOut nat

text \<open>The data \<open>src\<close> of an iframe, stored or from the attribute \<open>data-src\<close>.\<close>

record iframe =
  if_src :: "string option"
  if_data :: "string option"

record dialog =
  md_id :: string
  md_open :: bool
  md_top :: int
  md_height :: int
  md_opacity :: int
  md_shown :: bool
  md_iframes :: "iframe list"
  md_video_shown :: bool
  md_handlers :: "(reveal_event \<times> nat \<times> handler) list"
  md_queue :: "move list"

record reveal_call =
  cl_modal :: nat
  cl_opts :: reveal_opts
  cl_topMeasure :: int
  cl_topOffset :: int
  cl_locked :: bool
  cl_closeButton :: "nat list option"

record background =
  bg_shown :: bool
  bg_pointer :: bool
  bg_clicks :: "nat list"
  bg_queue :: "bg_move list"

text \<open>The handlers bound to the background, a close button (here with its class attribute) or the body are those of the
  calls listed. \<open>rv_raised\<close>: an exception was not caught; then the model stops.\<close>

record reveal_page =
  rv_modals :: "dialog list"
  rv_calls :: "reveal_call list"
  rv_queued :: bool
  rv_bg :: "background option"
  rv_buttons :: "(string \<times> nat list) list"
  rv_keys :: "nat list"
  rv_scroll :: int
  rv_log :: "(nat \<times> reveal_event) list"
  rv_raised :: bool

definition modal_at :: "nat \<Rightarrow> reveal_page \<Rightarrow> dialog" where
  "modal_at m p = rv_modals p ! m"

definition call_at :: "nat \<Rightarrow> reveal_page \<Rightarrow> reveal_call" where
  "call_at c p = rv_calls p ! c"

definition upd_modal :: "(dialog \<Rightarrow> dialog) \<Rightarrow> nat \<Rightarrow> reveal_page \<Rightarrow> reveal_page" where
  "upd_modal f m p = p\<lparr>rv_modals := (rv_modals p)[m := f (rv_modals p ! m)]\<rparr>"

definition upd_call :: "(reveal_call \<Rightarrow> reveal_call) \<Rightarrow> nat \<Rightarrow> reveal_page \<Rightarrow> reveal_page" where
  "upd_call f c p = p\<lparr>rv_calls := (rv_calls p)[c := f (rv_calls p ! c)]\<rparr>"

definition upd_bg :: "(background \<Rightarrow> background) \<Rightarrow> reveal_page \<Rightarrow> reveal_page" where
  "upd_bg f p = p\<lparr>rv_bg := map_option f (rv_bg p)\<rparr>"

text \<open>What follows a call that raised is not run.\<close>

definition unless_raised :: "(reveal_page \<Rightarrow> reveal_page) \<Rightarrow> reveal_page \<Rightarrow> reveal_page" where
  "unless_raised f p = (if rv_raised p then p else f p)"

section \<open>Animations\<close>

definition push_move :: "move \<Rightarrow> nat \<Rightarrow> reveal_page \<Rightarrow> reveal_page" where
  "push_move x m p = upd_modal (\<lambda>d. d\<lparr>md_queue := md_queue d @ [x]\<rparr>) m p"

text \<open>A move of the background starts: fading in shows it.\<close>

definition bg_start :: "bg_move \<Rightarrow> background \<Rightarrow> background" where
  "bg_start x b = (if x = BgFadeIn then b\<lparr>bg_shown := True\<rparr> else b)"

definition bg_push :: "bg_move \<Rightarrow> background \<Rightarrow> background" where
  "bg_push x b =
     (let b1 = b\<lparr>bg_queue := bg_queue b @ [x]\<rparr> in if bg_queue b = [] then bg_start x b1 else b1)"

definition bg_next :: "background \<Rightarrow> background" where
  "bg_next b =
     (let b1 = b\<lparr>bg_queue := tl (bg_queue b)\<rparr>
      in case bg_queue b1 of [] \<Rightarrow> b1 | x # _ \<Rightarrow> bg_start x b1)"

section \<open>Handlers\<close>

definition lockModal :: "nat \<Rightarrow> reveal_page \<Rightarrow> reveal_page" where
  "lockModal c p = upd_call (\<lambda>l. l\<lparr>cl_locked := True\<rparr>) c p"

definition unlockModal :: "nat \<Rightarrow> reveal_page \<Rightarrow> reveal_page" where
  "unlockModal c p = upd_call (\<lambda>l. l\<lparr>cl_locked := False\<rparr>) c p"

text \<open>\<open>attr\<close> and \<open>data\<close> read the first element and write all of them; \<open>attr("src", undefined)\<close> writes
  nothing.\<close>

definition openVideos :: "nat \<Rightarrow> reveal_page \<Rightarrow> reveal_page" where
  "openVideos c p =
     upd_modal (\<lambda>d.
       case md_iframes d of
         [] \<Rightarrow> d
       | v # _ \<Rightarrow>
           (case if_data v of
              None \<Rightarrow> d
            | Some s \<Rightarrow> d\<lparr>md_iframes := map (\<lambda>w. w\<lparr>if_src := Some s\<rparr>) (md_iframes d)\<rparr>)\<lparr>md_video_shown := True\<rparr>)
       (cl_modal (call_at c p)) p"

definition closeVideos :: "nat \<Rightarrow> reveal_page \<Rightarrow> reveal_page" where
  "closeVideos c p =
     upd_modal (\<lambda>d.
       case md_iframes d of
         [] \<Rightarrow> d
       | v # _ \<Rightarrow>
           d\<lparr>md_iframes := map (\<lambda>w. \<lparr>if_src = Some [], if_data = (case if_src v of None \<Rightarrow> if_data w | Some s \<Rightarrow> Some s)\<rparr>)
               (md_iframes d),
             md_video_shown := False\<rparr>)
       (cl_modal (call_at c p)) p"

text \<open>\<open>unbind('.reveal')\<close> takes the handlers of every call. \<open>$closeButton\<close> is assigned at the end of a call of
  \<open>reveal\<close>; before, it is undefined.\<close>

definition destroy_modal :: "nat \<Rightarrow> reveal_page \<Rightarrow> reveal_page" where
  "destroy_modal c p =
     (let p1 = upd_bg (\<lambda>b. b\<lparr>bg_clicks := []\<rparr>) (upd_modal (\<lambda>d. d\<lparr>md_handlers := []\<rparr>) (cl_modal (call_at c p)) p)
      in case cl_closeButton (call_at c p) of
           None \<Rightarrow> p1\<lparr>rv_raised := True\<rparr>
         | Some bs \<Rightarrow> p1\<lparr>rv_buttons := fold (\<lambda>b xs. xs[b := (fst (xs ! b), [])]) bs (rv_buttons p1), rv_keys := []\<rparr>)"

definition run_fn :: "nat \<Rightarrow> reveal_event \<Rightarrow> reveal_page \<Rightarrow> reveal_page" where
  "run_fn c e p = p\<lparr>rv_log := rv_log p @ [(c, e)]\<rparr>"

text \<open>The handlers of the events that end something.\<close>

fun run_end :: "nat \<Rightarrow> handler \<Rightarrow> reveal_page \<Rightarrow> reveal_page" where
  "run_end c CloseVideos p = closeVideos c p"
| "run_end c UnlockModal p = unlockModal c p"
| "run_end c Destroy p = destroy_modal c p"
| "run_end c (UserFn e) p = run_fn c e p"
| "run_end c _ p = p"

text \<open>\<open>modal.trigger(e)\<close>: the handlers that are bound when the event comes.\<close>

definition bound_to :: "reveal_event \<Rightarrow> dialog \<Rightarrow> (nat \<times> handler) list" where
  "bound_to e d = map snd (filter (\<lambda>x. fst x = e) (md_handlers d))"

definition trigger_by :: "(nat \<Rightarrow> handler \<Rightarrow> reveal_page \<Rightarrow> reveal_page) \<Rightarrow> nat \<Rightarrow> reveal_event \<Rightarrow> reveal_page \<Rightarrow> reveal_page" where
  "trigger_by run m e p = fold (\<lambda>(c, h). unless_raised (run c h)) (bound_to e (modal_at m p)) p"

definition trigger_end :: "nat \<Rightarrow> reveal_event \<Rightarrow> reveal_page \<Rightarrow> reveal_page" where
  "trigger_end = trigger_by run_end"

text \<open>\<open>modal.css(cssOpts.close)\<close>, with the top that was measured by the call.\<close>

definition css_close :: "nat \<Rightarrow> reveal_page \<Rightarrow> reveal_page" where
  "css_close c p =
     upd_modal (\<lambda>d. d\<lparr>md_top := cl_topMeasure (call_at c p), md_opacity := 1, md_shown := False\<rparr>) (cl_modal (call_at c p)) p"

definition css_open :: "int \<Rightarrow> int \<Rightarrow> nat \<Rightarrow> reveal_page \<Rightarrow> reveal_page" where
  "css_open t a m p = upd_modal (\<lambda>d. d\<lparr>md_top := t, md_opacity := a, md_shown := True\<rparr>) m p"

text \<open>The end of both animations: the background fades out, and \<open>reveal:closed\<close> comes after it, or at once if another
  dialog waits to be opened.\<close>

definition close_bg :: "nat \<Rightarrow> reveal_page \<Rightarrow> reveal_page" where
  "close_bg c p =
     (if rv_queued p then trigger_end (cl_modal (call_at c p)) EvClosed p
      else upd_bg (\<lambda>b. bg_push (BgFadeOut c) (bg_push BgWait b)) p)"

definition closeAnimation :: "nat \<Rightarrow> reveal_page \<Rightarrow> reveal_page" where
  "closeAnimation c p =
     (let l = call_at c p; m = cl_modal l; anim = ro_animation (cl_opts l) in
      if cl_locked l then p
      else
        let p1 = upd_modal (\<lambda>d. d\<lparr>md_open := False\<rparr>) m (lockModal c p);
            p2 = (if anim = ''fadeAndPop''
                  then close_bg c (push_move (Glide (Some (rv_scroll p1 - cl_topOffset l)) 0 (ThenHidden c)) m p1)
                  else if anim = ''fade''
                  then close_bg c (push_move (Glide None 0 (ThenHidden c)) m p1)
                  else if anim = ''none''
                  then let p3 = css_close c p1
                       in trigger_end m EvClosed (if rv_queued p3 then p3 else upd_bg (\<lambda>b. b\<lparr>bg_shown := False\<rparr>) p3)
                  else p1)
        in unless_raised (\<lambda>p. p\<lparr>rv_queued := False\<rparr>) p2)"

fun run_close :: "nat \<Rightarrow> handler \<Rightarrow> reveal_page \<Rightarrow> reveal_page" where
  "run_close c CloseAnimation p = closeAnimation c p"
| "run_close c h p = run_end c h p"

definition trigger_close :: "nat \<Rightarrow> reveal_page \<Rightarrow> reveal_page" where
  "trigger_close m = trigger_by run_close m EvClose"

definition open_modals :: "reveal_page \<Rightarrow> nat list" where
  "open_modals p = filter (\<lambda>i. md_open (modal_at i p)) [0..<length (rv_modals p)]"

definition closeOpenModals :: "reveal_page \<Rightarrow> reveal_page" where
  "closeOpenModals p = (case open_modals p of [m] \<Rightarrow> trigger_close m (p\<lparr>rv_queued := True\<rparr>) | _ \<Rightarrow> p)"

definition openAnimation :: "nat \<Rightarrow> reveal_page \<Rightarrow> reveal_page" where
  "openAnimation c p =
     (let l = call_at c p; m = cl_modal l; anim = ro_animation (cl_opts l) in
      if cl_locked l then p
      else unless_raised (\<lambda>p1.
        let p2 = upd_modal (\<lambda>d. d\<lparr>md_open := True\<rparr>) m p1;
            y = rv_scroll p2 + cl_topMeasure l
        in if anim = ''fadeAndPop''
           then push_move (Glide (Some y) 1 (ThenOpened c)) m (push_move Wait m
                  (upd_bg (bg_push BgFadeIn) (css_open (rv_scroll p2 - cl_topOffset l) 0 m p2)))
           else if anim = ''fade''
           then push_move (Glide None 1 (ThenOpened c)) m (push_move Wait m
                  (upd_bg (bg_push BgFadeIn) (css_open y 0 m p2)))
           else if anim = ''none''
           then trigger_end m EvOpened (upd_bg (\<lambda>b. b\<lparr>bg_shown := True\<rparr>) (css_open y 1 m p2))
           else p2)
        (closeOpenModals (lockModal c p)))"

fun run_open :: "nat \<Rightarrow> handler \<Rightarrow> reveal_page \<Rightarrow> reveal_page" where
  "run_open c OpenAnimation p = openAnimation c p"
| "run_open c OpenVideos p = openVideos c p"
| "run_open c h p = run_end c h p"

definition trigger_open :: "nat \<Rightarrow> reveal_page \<Rightarrow> reveal_page" where
  "trigger_open m = trigger_by run_open m EvOpen"

section \<open>A call of \<open>reveal\<close>\<close>

text \<open>The handlers of a call, in the order in which they are bound.\<close>

definition bindings :: "nat \<Rightarrow> (reveal_event \<times> nat \<times> handler) list" where
  "bindings c =
     [(EvOpen, c, OpenAnimation), (EvOpen, c, OpenVideos), (EvClose, c, CloseAnimation), (EvClosed, c, CloseVideos),
      (EvOpened, c, UnlockModal), (EvClosed, c, UnlockModal), (EvClosed, c, Destroy),
      (EvOpen, c, UserFn EvOpen), (EvOpened, c, UserFn EvOpened), (EvClose, c, UserFn EvClose), (EvClosed, c, UserFn EvClosed)]"

definition new_call :: "reveal_opts \<Rightarrow> nat \<Rightarrow> reveal_page \<Rightarrow> reveal_call" where
  "new_call o1 m p =
     \<lparr>cl_modal = m, cl_opts = o1, cl_topMeasure = md_top (modal_at m p), cl_topOffset = md_height (modal_at m p) + md_top (modal_at m p),
      cl_locked = False, cl_closeButton = None\<rparr>"

text \<open>The background is made by the first call, and fades to its opacity.\<close>

definition with_bg :: "reveal_page \<Rightarrow> reveal_page" where
  "with_bg p =
     (case rv_bg p of
        None \<Rightarrow> p\<lparr>rv_bg := Some \<lparr>bg_shown = True, bg_pointer = False, bg_clicks = [], bg_queue = [BgFadeTo]\<rparr>\<rparr>
      | Some b \<Rightarrow> p)"

definition dismiss_buttons :: "reveal_opts \<Rightarrow> reveal_page \<Rightarrow> nat list" where
  "dismiss_buttons o1 p = filter (\<lambda>b. hasClass (ro_dismiss o1) (fst (rv_buttons p ! b))) [0..<length (rv_buttons p)]"

definition bind_closers :: "nat \<Rightarrow> reveal_opts \<Rightarrow> reveal_page \<Rightarrow> reveal_page" where
  "bind_closers c o1 p =
     (let bs = dismiss_buttons o1 p;
          p1 = upd_call (\<lambda>l. l\<lparr>cl_closeButton := Some bs\<rparr>) c
                 (p\<lparr>rv_buttons := fold (\<lambda>b xs. xs[b := (fst (xs ! b), snd (xs ! b) @ [c])]) bs (rv_buttons p)\<rparr>);
          p2 = (if ro_bg_click o1 then upd_bg (\<lambda>b. b\<lparr>bg_pointer := True, bg_clicks := bg_clicks b @ [c]\<rparr>) p1 else p1)
      in p2\<lparr>rv_keys := rv_keys p2 @ [c]\<rparr>)"

definition reveal_one :: "reveal_opts \<Rightarrow> nat \<Rightarrow> reveal_page \<Rightarrow> reveal_page" where
  "reveal_one o1 m p =
     (let c = length (rv_calls p);
          p1 = with_bg (p\<lparr>rv_calls := rv_calls p @ [new_call o1 m p]\<rparr>);
          p2 = upd_modal (\<lambda>d. d\<lparr>md_handlers := md_handlers d @ bindings c\<rparr>) m p1
      in unless_raised (bind_closers c o1) (trigger_open m p2))"

text \<open>\<open>$(...).reveal(options)\<close>: the open ones are left out before the first call.\<close>

definition reveal :: "given_opts \<Rightarrow> nat list \<Rightarrow> reveal_page \<Rightarrow> reveal_page" where
  "reveal g ms p = fold (\<lambda>m. unless_raised (reveal_one (extend_opts g) m)) (filter (\<lambda>m. \<not> md_open (modal_at m p)) ms) p"

text \<open>A click on a link with \<open>data-reveal-id\<close>; the other data of the link are the options.\<close>

definition by_id :: "string \<Rightarrow> reveal_page \<Rightarrow> nat list" where
  "by_id s p = take 1 (filter (\<lambda>i. md_id (modal_at i p) = s) [0..<length (rv_modals p)])"

definition click_link :: "string \<Rightarrow> given_opts \<Rightarrow> reveal_page \<Rightarrow> reveal_page" where
  "click_link s g p = reveal g (by_id s p) p"

section \<open>Events\<close>

text \<open>The handlers of a close button, the background and the body.\<close>

definition close_calls :: "nat list \<Rightarrow> reveal_page \<Rightarrow> reveal_page" where
  "close_calls cs p = fold (\<lambda>c. unless_raised (\<lambda>q. trigger_close (cl_modal (call_at c q)) q)) cs p"

definition click_button :: "nat \<Rightarrow> reveal_page \<Rightarrow> reveal_page" where
  "click_button b p = (if b < length (rv_buttons p) then close_calls (snd (rv_buttons p ! b)) p else p)"

definition click_bg :: "reveal_page \<Rightarrow> reveal_page" where
  "click_bg p = (case rv_bg p of None \<Rightarrow> p | Some b \<Rightarrow> close_calls (bg_clicks b) p)"

definition keyup :: "nat \<Rightarrow> reveal_page \<Rightarrow> reveal_page" where
  "keyup which p = (if which = 27 then close_calls (rv_keys p) p else p)"

definition at_end_of :: "at_end \<Rightarrow> reveal_page \<Rightarrow> reveal_page" where
  "at_end_of a p =
     (case a of ThenOpened c \<Rightarrow> trigger_end (cl_modal (call_at c p)) EvOpened p | ThenHidden c \<Rightarrow> css_close c p)"

text \<open>The running move ends: its function is called, then the next move starts.\<close>

definition tick_modal :: "nat \<Rightarrow> reveal_page \<Rightarrow> reveal_page" where
  "tick_modal m p =
     (case md_queue (modal_at m p) of
        [] \<Rightarrow> p
      | x # _ \<Rightarrow>
          let p1 = (case x of
                      Wait \<Rightarrow> p
                    | Glide t a e \<Rightarrow>
                        at_end_of e (upd_modal (\<lambda>d. d\<lparr>md_top := case_option (md_top d) (\<lambda>y. y) t, md_opacity := a\<rparr>) m p))
          in unless_raised (upd_modal (\<lambda>d. d\<lparr>md_queue := tl (md_queue d)\<rparr>) m) p1)"

definition tick_bg :: "reveal_page \<Rightarrow> reveal_page" where
  "tick_bg p =
     (case rv_bg p of
        None \<Rightarrow> p
      | Some b \<Rightarrow>
          (case bg_queue b of
             [] \<Rightarrow> p
           | x # _ \<Rightarrow>
               let p1 = (case x of
                           BgFadeOut c \<Rightarrow> trigger_end (cl_modal (call_at c p)) EvClosed (upd_bg (\<lambda>b. b\<lparr>bg_shown := False\<rparr>) p)
                         | _ \<Rightarrow> p)
               in unless_raised (upd_bg bg_next) p1))"

datatype reveal_input =
  Reveal given_opts "nat list" | ClickLink string given_opts | ClickButton nat | ClickBg | KeyUp nat | ScrollTo int
  | TickModal nat | TickBg

definition reveal_step :: "reveal_input \<Rightarrow> reveal_page \<Rightarrow> reveal_page" where
  "reveal_step e p =
     unless_raised (\<lambda>p. case e of
       Reveal g ms \<Rightarrow> reveal g ms p
     | ClickLink s g \<Rightarrow> click_link s g p
     | ClickButton b \<Rightarrow> click_button b p
     | ClickBg \<Rightarrow> click_bg p
     | KeyUp k \<Rightarrow> keyup k p
     | ScrollTo y \<Rightarrow> p\<lparr>rv_scroll := y\<rparr>
     | TickModal m \<Rightarrow> if m < length (rv_modals p) then tick_modal m p else p
     | TickBg \<Rightarrow> tick_bg p) p"

section \<open>Reading after writing\<close>

named_theorems rv_simps \<open>what the operations on the page change\<close>

abbreviation modals :: "reveal_page \<Rightarrow> nat" where "modals p \<equiv> length (rv_modals p)"
abbreviation calls :: "reveal_page \<Rightarrow> nat" where "calls p \<equiv> length (rv_calls p)"

lemma upd_modal_reads [rv_simps]:
  "modals (upd_modal f m p) = modals p" "m < modals p \<Longrightarrow> modal_at i (upd_modal f m p) = (if i = m then f (modal_at m p) else modal_at i p)"
  "rv_calls (upd_modal f m p) = rv_calls p" "call_at c (upd_modal f m p) = call_at c p"
  "rv_queued (upd_modal f m p) = rv_queued p" "rv_bg (upd_modal f m p) = rv_bg p"
  "rv_buttons (upd_modal f m p) = rv_buttons p" "rv_keys (upd_modal f m p) = rv_keys p" "rv_scroll (upd_modal f m p) = rv_scroll p"
  "rv_log (upd_modal f m p) = rv_log p" "rv_raised (upd_modal f m p) = rv_raised p"
  by (simp_all add: upd_modal_def modal_at_def call_at_def)

lemma upd_call_reads [rv_simps]:
  "rv_modals (upd_call f c p) = rv_modals p" "modal_at i (upd_call f c p) = modal_at i p"
  "calls (upd_call f c p) = calls p" "c < calls p \<Longrightarrow> call_at i (upd_call f c p) = (if i = c then f (call_at c p) else call_at i p)"
  "rv_queued (upd_call f c p) = rv_queued p" "rv_bg (upd_call f c p) = rv_bg p"
  "rv_buttons (upd_call f c p) = rv_buttons p" "rv_keys (upd_call f c p) = rv_keys p" "rv_scroll (upd_call f c p) = rv_scroll p"
  "rv_log (upd_call f c p) = rv_log p" "rv_raised (upd_call f c p) = rv_raised p"
  by (simp_all add: upd_call_def modal_at_def call_at_def)

lemma upd_bg_reads [rv_simps]:
  "rv_modals (upd_bg f p) = rv_modals p" "modal_at i (upd_bg f p) = modal_at i p"
  "rv_calls (upd_bg f p) = rv_calls p" "call_at i (upd_bg f p) = call_at i p"
  "rv_queued (upd_bg f p) = rv_queued p" "rv_bg (upd_bg f p) = map_option f (rv_bg p)"
  "rv_buttons (upd_bg f p) = rv_buttons p" "rv_keys (upd_bg f p) = rv_keys p" "rv_scroll (upd_bg f p) = rv_scroll p"
  "rv_log (upd_bg f p) = rv_log p" "rv_raised (upd_bg f p) = rv_raised p"
  by (simp_all add: upd_bg_def modal_at_def call_at_def)

lemma field_reads [rv_simps]:
  "modal_at i (p\<lparr>rv_queued := q\<rparr>) = modal_at i p" "call_at i (p\<lparr>rv_queued := q\<rparr>) = call_at i p"
  "modal_at i (p\<lparr>rv_buttons := b\<rparr>) = modal_at i p" "call_at i (p\<lparr>rv_buttons := b\<rparr>) = call_at i p"
  "modal_at i (p\<lparr>rv_keys := k\<rparr>) = modal_at i p" "call_at i (p\<lparr>rv_keys := k\<rparr>) = call_at i p"
  "modal_at i (p\<lparr>rv_log := g\<rparr>) = modal_at i p" "call_at i (p\<lparr>rv_log := g\<rparr>) = call_at i p"
  "modal_at i (p\<lparr>rv_scroll := y\<rparr>) = modal_at i p" "call_at i (p\<lparr>rv_scroll := y\<rparr>) = call_at i p"
  "modal_at i (p\<lparr>rv_bg := w\<rparr>) = modal_at i p" "call_at i (p\<lparr>rv_bg := w\<rparr>) = call_at i p"
  "modal_at i (p\<lparr>rv_calls := cs\<rparr>) = modal_at i p"
  by (simp_all add: modal_at_def call_at_def)

lemma unless_raised_simps [simp]: "\<not> rv_raised p \<Longrightarrow> unless_raised f p = f p"
  by (simp add: unless_raised_def)

section \<open>The handlers of one call\<close>

text \<open>What the events do to a dialog to which just the handlers of one call are bound.\<close>

definition bound_once :: "nat \<Rightarrow> reveal_page \<Rightarrow> bool" where
  "bound_once c p \<longleftrightarrow> c < calls p \<and> cl_modal (call_at c p) < modals p \<and> \<not> rv_raised p
     \<and> md_handlers (modal_at (cl_modal (call_at c p)) p) = bindings c"

definition after_closed :: "nat \<Rightarrow> reveal_page \<Rightarrow> reveal_page" where
  "after_closed c p = run_fn c EvClosed (destroy_modal c (unlockModal c (closeVideos c p)))"

lemma destroy_raised [rv_simps]: "cl_closeButton (call_at c p) \<noteq> None \<Longrightarrow> rv_raised (destroy_modal c p) = rv_raised p"
  by (auto simp: destroy_modal_def rv_simps)

lemma trigger_closed_once:
  assumes "bound_once c p" "m = cl_modal (call_at c p)" "cl_closeButton (call_at c p) \<noteq> None"
  shows "trigger_end m EvClosed p = after_closed c p"
  using assms by (simp add: trigger_end_def trigger_by_def bound_to_def bindings_def bound_once_def after_closed_def
      closeVideos_def unlockModal_def rv_simps)

lemma trigger_opened_once:
  assumes "bound_once c p" "m = cl_modal (call_at c p)"
  shows "trigger_end m EvOpened p = run_fn c EvOpened (unlockModal c p)"
  using assms by (simp add: trigger_end_def trigger_by_def bound_to_def bindings_def bound_once_def unlockModal_def rv_simps)

lemma trigger_close_once:
  assumes "bound_once c p" "m = cl_modal (call_at c p)" "\<not> rv_raised (closeAnimation c p)"
  shows "trigger_close m p = run_fn c EvClose (closeAnimation c p)"
  using assms by (simp add: trigger_close_def trigger_by_def bound_to_def bindings_def bound_once_def)

lemma trigger_open_once:
  assumes "bound_once c p" "m = cl_modal (call_at c p)" "\<not> rv_raised (openAnimation c p)"
  shows "trigger_open m p = run_fn c EvOpen (openVideos c (openAnimation c p))"
  using assms by (simp add: trigger_open_def trigger_by_def bound_to_def bindings_def bound_once_def openVideos_def rv_simps)

lemma length_fold_buttons [simp]: "length (fold (\<lambda>b xs. xs[b := f b xs]) bs ys) = length ys"
  by (induction bs arbitrary: ys) simp_all

lemma fold_buttons:
  "distinct bs \<Longrightarrow> b < length ys \<Longrightarrow> fold (\<lambda>b xs. xs[b := f (xs ! b)]) bs ys ! b = (if b \<in> set bs then f (ys ! b) else ys ! b)"
proof (induction bs arbitrary: ys)
  case (Cons a bs)
  then show ?case by (cases "a = b") auto
qed simp

definition silenced :: "dialog \<Rightarrow> dialog" where
  "silenced d =
     (case md_iframes d of
        [] \<Rightarrow> d
      | v # _ \<Rightarrow>
          d\<lparr>md_iframes := map (\<lambda>w. \<lparr>if_src = Some [], if_data = (case if_src v of None \<Rightarrow> if_data w | Some s \<Rightarrow> Some s)\<rparr>) (md_iframes d),
            md_video_shown := False\<rparr>)"

lemma silenced_fields [simp]:
  "md_open (silenced d) = md_open d" "md_top (silenced d) = md_top d" "md_shown (silenced d) = md_shown d"
  "md_opacity (silenced d) = md_opacity d" "md_queue (silenced d) = md_queue d" "md_handlers (silenced d) = md_handlers d"
  by (simp_all add: silenced_def split: list.split)

lemma after_closed_reads:
  assumes "c < calls p" "m = cl_modal (call_at c p)" "m < modals p" "cl_closeButton (call_at c p) = Some bs"
  shows "modals (after_closed c p) = modals p" "calls (after_closed c p) = calls p"
    "modal_at i (after_closed c p) = (if i = m then silenced (modal_at m p)\<lparr>md_handlers := []\<rparr> else modal_at i p)"
    "call_at i (after_closed c p) = (if i = c then call_at c p\<lparr>cl_locked := False\<rparr> else call_at i p)"
    "rv_queued (after_closed c p) = rv_queued p" "rv_raised (after_closed c p) = rv_raised p" "rv_scroll (after_closed c p) = rv_scroll p"
    "rv_keys (after_closed c p) = []" "rv_bg (after_closed c p) = map_option (\<lambda>b. b\<lparr>bg_clicks := []\<rparr>) (rv_bg p)"
    "rv_buttons (after_closed c p) = fold (\<lambda>b xs. xs[b := (fst (xs ! b), [])]) bs (rv_buttons p)"
  using assms by (simp_all add: after_closed_def run_fn_def destroy_modal_def unlockModal_def closeVideos_def silenced_def rv_simps)

section \<open>The states of a page\<close>

text \<open>A dialog with one video (or none): \<open>a\<close> is its address.\<close>

definition video_of :: "string \<Rightarrow> dialog \<Rightarrow> bool" where
  "video_of a d \<longleftrightarrow> a \<noteq> [] \<and> (md_iframes d = [] \<or> (\<exists>v. md_iframes d = [v]
     \<and> (if_src v = Some a \<and> (if_data v = None \<or> if_data v = Some a) \<or> (if_src v = None \<or> if_src v = Some []) \<and> if_data v = Some a)))"

definition plays :: "string \<Rightarrow> dialog \<Rightarrow> bool" where
  "plays a d \<longleftrightarrow> a \<noteq> [] \<and> (md_iframes d = [] \<or> (\<exists>v. md_iframes d = [v] \<and> if_src v = Some a \<and> (if_data v = None \<or> if_data v = Some a)))"

lemma plays_silenced: "plays a d \<Longrightarrow> video_of a (silenced d)"
  by (auto simp: plays_def video_of_def silenced_def)

text \<open>A dialog is hidden, or the end of its animation will hide it at the top \<open>y\<close>.\<close>

definition hiding :: "int \<Rightarrow> nat \<Rightarrow> reveal_page \<Rightarrow> bool" where
  "hiding y i p \<longleftrightarrow>
     (md_queue (modal_at i p) = [] \<and> \<not> md_shown (modal_at i p) \<and> md_top (modal_at i p) = y)
     \<or> (\<exists>t c. md_queue (modal_at i p) = [Glide t 0 (ThenHidden c)] \<and> c < calls p \<and> cl_modal (call_at c p) = i \<and> cl_topMeasure (call_at c p) = y)"

definition at_rest :: "(nat \<Rightarrow> int) \<Rightarrow> (nat \<Rightarrow> string) \<Rightarrow> reveal_page \<Rightarrow> nat \<Rightarrow> bool" where
  "at_rest T A p i \<longleftrightarrow> \<not> md_open (modal_at i p) \<and> md_handlers (modal_at i p) = [] \<and> video_of (A i) (modal_at i p) \<and> hiding (T i) i p"

definition unbound :: "reveal_page \<Rightarrow> bool" where
  "unbound p \<longleftrightarrow> rv_keys p = [] \<and> (\<forall>b < length (rv_buttons p). snd (rv_buttons p ! b) = []) \<and> (\<forall>b. rv_bg p = Some b \<longrightarrow> bg_clicks b = [])"

definition idle :: "reveal_page \<Rightarrow> bool" where
  "idle p \<longleftrightarrow> unbound p \<and> (\<forall>b. rv_bg p = Some b \<longrightarrow> \<not> bg_shown b \<and> set (bg_queue b) \<subseteq> {BgFadeTo})"

text \<open>The close button, the background and the body belong to the call \<open>c\<close>.\<close>

definition belongs_to :: "nat \<Rightarrow> reveal_page \<Rightarrow> bool" where
  "belongs_to c p \<longleftrightarrow> rv_keys p = [c]
     \<and> (\<forall>b < length (rv_buttons p). snd (rv_buttons p ! b) = (if hasClass (ro_dismiss (cl_opts (call_at c p))) (fst (rv_buttons p ! b)) then [c] else []))
     \<and> (\<exists>b. rv_bg p = Some b \<and> bg_clicks b = (if ro_bg_click (cl_opts (call_at c p)) then [c] else []) \<and> bg_shown b)
     \<and> cl_closeButton (call_at c p) = Some (dismiss_buttons (cl_opts (call_at c p)) p)"

abbreviation animation :: "nat \<Rightarrow> reveal_page \<Rightarrow> string" where
  "animation c p \<equiv> ro_animation (cl_opts (call_at c p))"

abbreviation dialog_of :: "nat \<Rightarrow> reveal_page \<Rightarrow> dialog" where
  "dialog_of c p \<equiv> modal_at (cl_modal (call_at c p)) p"

definition active :: "(nat \<Rightarrow> int) \<Rightarrow> (nat \<Rightarrow> string) \<Rightarrow> nat \<Rightarrow> reveal_page \<Rightarrow> bool" where
  "active T A c p \<longleftrightarrow> bound_once c p \<and> belongs_to c p \<and> cl_topMeasure (call_at c p) = T (cl_modal (call_at c p))
     \<and> animation c p \<in> {''fadeAndPop'', ''fade'', ''none''} \<and> plays (A (cl_modal (call_at c p))) (dialog_of c p)"

definition no_fade_out :: "reveal_page \<Rightarrow> bool" where
  "no_fade_out p \<longleftrightarrow> (\<forall>b c. rv_bg p = Some b \<longrightarrow> BgFadeOut c \<notin> set (bg_queue b))"

definition is_opening :: "nat \<Rightarrow> reveal_page \<Rightarrow> bool" where
  "is_opening c p \<longleftrightarrow> md_open (dialog_of c p) \<and> cl_locked (call_at c p) \<and> md_shown (dialog_of c p) \<and> no_fade_out p \<and> animation c p \<noteq> ''none''
     \<and> (\<exists>t. md_queue (dialog_of c p) = [Wait, Glide t 1 (ThenOpened c)] \<or> md_queue (dialog_of c p) = [Glide t 1 (ThenOpened c)])"

definition is_shown :: "nat \<Rightarrow> reveal_page \<Rightarrow> bool" where
  "is_shown c p \<longleftrightarrow> md_open (dialog_of c p) \<and> \<not> cl_locked (call_at c p) \<and> md_shown (dialog_of c p) \<and> md_opacity (dialog_of c p) = 1
     \<and> md_queue (dialog_of c p) = [] \<and> no_fade_out p
     \<and> (animation c p = ''none'' \<longrightarrow> (\<forall>b. rv_bg p = Some b \<longrightarrow> set (bg_queue b) \<subseteq> {BgFadeTo}))"

definition is_closing :: "(nat \<Rightarrow> int) \<Rightarrow> nat \<Rightarrow> reveal_page \<Rightarrow> bool" where
  "is_closing T c p \<longleftrightarrow> \<not> md_open (dialog_of c p) \<and> cl_locked (call_at c p) \<and> animation c p \<noteq> ''none''
     \<and> hiding (T (cl_modal (call_at c p))) (cl_modal (call_at c p)) p
     \<and> (\<exists>b xs. rv_bg p = Some b \<and> bg_queue b = xs @ [BgFadeOut c] \<and> (\<forall>d. BgFadeOut d \<notin> set xs))"

definition others_rest :: "(nat \<Rightarrow> int) \<Rightarrow> (nat \<Rightarrow> string) \<Rightarrow> nat set \<Rightarrow> reveal_page \<Rightarrow> bool" where
  "others_rest T A X p \<longleftrightarrow> (\<forall>i < modals p. i \<notin> X \<longrightarrow> at_rest T A p i)"

definition calm :: "reveal_page \<Rightarrow> bool" where
  "calm p \<longleftrightarrow> \<not> rv_raised p \<and> \<not> rv_queued p"

definition reveal_ok :: "(nat \<Rightarrow> int) \<Rightarrow> (nat \<Rightarrow> string) \<Rightarrow> reveal_page \<Rightarrow> bool" where
  "reveal_ok T A p \<longleftrightarrow> calm p \<and>
     (idle p \<and> others_rest T A {} p
      \<or> (\<exists>c. active T A c p \<and> others_rest T A {cl_modal (call_at c p)} p \<and> (is_opening c p \<or> is_shown c p \<or> is_closing T c p)))"

lemma reveal_okI:
  "active T A c p \<Longrightarrow> is_opening c p \<or> is_shown c p \<or> is_closing T c p \<Longrightarrow> others_rest T A {m} p \<Longrightarrow> calm p
    \<Longrightarrow> cl_modal (call_at c p) = m \<Longrightarrow> reveal_ok T A p"
  by (auto simp: reveal_ok_def)

text \<open>No animation is running.\<close>

definition quiet :: "reveal_page \<Rightarrow> bool" where
  "quiet p \<longleftrightarrow> (\<forall>i < modals p. md_queue (modal_at i p) = []) \<and> (\<forall>b. rv_bg p = Some b \<longrightarrow> bg_queue b = [])"

definition extends :: "reveal_page \<Rightarrow> reveal_page \<Rightarrow> bool" where
  "extends p q \<longleftrightarrow> modals q = modals p \<and> calls p \<le> calls q
     \<and> (\<forall>c < calls p. cl_modal (call_at c q) = cl_modal (call_at c p) \<and> cl_topMeasure (call_at c q) = cl_topMeasure (call_at c p))"

lemma hiding_keep:
  assumes "hiding y i p" "extends p q" "md_queue (modal_at i q) = md_queue (modal_at i p)"
    "md_shown (modal_at i q) = md_shown (modal_at i p)" "md_top (modal_at i q) = md_top (modal_at i p)"
  shows "hiding y i q"
  using assms unfolding hiding_def extends_def by (metis less_le_trans)

lemma at_rest_extends: "at_rest T A p i \<Longrightarrow> extends p q \<Longrightarrow> modal_at i q = modal_at i p \<Longrightarrow> at_rest T A q i"
  using hiding_keep [of "T i" i p q] by (simp add: at_rest_def)

lemma others_rest_extends:
  "others_rest T A X p \<Longrightarrow> extends p q \<Longrightarrow> (\<And>i. i \<notin> Y \<Longrightarrow> modal_at i q = modal_at i p \<and> i \<notin> X) \<Longrightarrow> others_rest T A Y q"
  unfolding others_rest_def using at_rest_extends by (metis extends_def)

lemmas activeD = active_def [THEN iffD1]

lemma dismiss_buttons_props [simp]:
  "distinct (dismiss_buttons o1 p)"
  "b \<in> set (dismiss_buttons o1 p) \<longleftrightarrow> b < length (rv_buttons p) \<and> hasClass (ro_dismiss o1) (fst (rv_buttons p ! b))"
  by (auto simp: dismiss_buttons_def)

lemma cleared_buttons:
  assumes "belongs_to c p"
  shows "\<forall>b < length (rv_buttons p). snd (fold (\<lambda>b xs. xs[b := (fst (xs ! b), [])]) (dismiss_buttons (cl_opts (call_at c p)) p) (rv_buttons p) ! b) = []"
  using assms by (auto simp: belongs_to_def fold_buttons [where f = "\<lambda>x. (fst x, [])"])

lemma bound_once_keep:
  "bound_once c p \<Longrightarrow> calls q = calls p \<Longrightarrow> modals q = modals p \<Longrightarrow> rv_raised q = rv_raised p
    \<Longrightarrow> cl_modal (call_at c q) = cl_modal (call_at c p)
    \<Longrightarrow> md_handlers (dialog_of c q) = md_handlers (dialog_of c p) \<Longrightarrow> bound_once c q"
  by (simp add: bound_once_def)

text \<open>How closing moves or hides the dialog, before anything is triggered.\<close>

definition moved_out :: "nat \<Rightarrow> reveal_page \<Rightarrow> reveal_page" where
  "moved_out c p =
     (let m = cl_modal (call_at c p); p1 = upd_modal (\<lambda>d. d\<lparr>md_open := False\<rparr>) m (lockModal c p)
      in if animation c p = ''none'' then css_close c p1
         else push_move (Glide (if animation c p = ''fade'' then None else Some (rv_scroll p - cl_topOffset (call_at c p))) 0 (ThenHidden c)) m p1)"

lemma moved_out_reads:
  assumes "c < calls p" "m = cl_modal (call_at c p)" "m < modals p"
  shows "modals (moved_out c p) = modals p" "calls (moved_out c p) = calls p"
    "i \<noteq> m \<Longrightarrow> modal_at i (moved_out c p) = modal_at i p"
    "call_at i (moved_out c p) = (if i = c then call_at c p\<lparr>cl_locked := True\<rparr> else call_at i p)"
    "rv_queued (moved_out c p) = rv_queued p" "rv_raised (moved_out c p) = rv_raised p" "rv_scroll (moved_out c p) = rv_scroll p"
    "rv_keys (moved_out c p) = rv_keys p" "rv_bg (moved_out c p) = rv_bg p" "rv_buttons (moved_out c p) = rv_buttons p"
    "md_open (modal_at m (moved_out c p)) = False"
    "md_handlers (modal_at m (moved_out c p)) = md_handlers (modal_at m p)"
    "md_iframes (modal_at m (moved_out c p)) = md_iframes (modal_at m p)"
  using assms by (simp_all add: moved_out_def Let_def push_move_def css_close_def lockModal_def rv_simps)

lemma moved_out_hiding:
  assumes "c < calls p" "m = cl_modal (call_at c p)" "m < modals p" "md_queue (modal_at m p) = []"
  shows "hiding (cl_topMeasure (call_at c p)) m (moved_out c p)"
  using assms unfolding hiding_def by (simp add: moved_out_def Let_def push_move_def css_close_def lockModal_def rv_simps)

lemma closeAnimation_queued:
  assumes "active T A c p" "\<not> cl_locked (call_at c p)"
  shows "closeAnimation c (p\<lparr>rv_queued := True\<rparr>) = (after_closed c (moved_out c (p\<lparr>rv_queued := True\<rparr>)))\<lparr>rv_queued := False\<rparr>"
proof -
  let ?p = "p\<lparr>rv_queued := True\<rparr>"
  have c: "c < calls ?p" "cl_modal (call_at c ?p) < modals ?p" "\<not> rv_raised ?p" "bound_once c ?p" "cl_closeButton (call_at c ?p) \<noteq> None"
    using assms by (auto simp: active_def bound_once_def belongs_to_def rv_simps)
  have "trigger_end (cl_modal (call_at c ?p)) EvClosed (moved_out c ?p) = after_closed c (moved_out c ?p)"
  proof (rule trigger_closed_once)
    show "bound_once c (moved_out c ?p)"
      using c by (intro bound_once_keep [OF c(4)]) (simp_all add: moved_out_reads)
  qed (use c in \<open>simp_all add: moved_out_reads\<close>)
  moreover have "\<not> rv_raised (after_closed c (moved_out c ?p))"
    using c by (auto simp: after_closed_reads moved_out_reads)
  moreover have "animation c p \<in> {''fadeAndPop'', ''fade'', ''none''}" using assms(1) by (simp add: active_def)
  ultimately show ?thesis
    using assms(2) c unfolding closeAnimation_def moved_out_def Let_def
    by (auto simp: close_bg_def rv_simps push_move_def css_close_def lockModal_def)
qed

lemma run_fn_reads [rv_simps]:
  "rv_modals (run_fn c e p) = rv_modals p" "modal_at i (run_fn c e p) = modal_at i p"
  "rv_calls (run_fn c e p) = rv_calls p" "call_at d (run_fn c e p) = call_at d p"
  "rv_queued (run_fn c e p) = rv_queued p" "rv_bg (run_fn c e p) = rv_bg p" "rv_buttons (run_fn c e p) = rv_buttons p"
  "rv_keys (run_fn c e p) = rv_keys p" "rv_scroll (run_fn c e p) = rv_scroll p" "rv_raised (run_fn c e p) = rv_raised p"
  by (simp_all add: run_fn_def modal_at_def call_at_def)

text \<open>A dialog that is closed because another one opens.\<close>

lemma close_queued:
  fixes p defines "q \<equiv> \<lambda>m. trigger_close m (p\<lparr>rv_queued := True\<rparr>)"
  assumes "active T A c p" "is_shown c p" "m = cl_modal (call_at c p)"
  shows "calm (q m)" "unbound (q m)" "at_rest T A (q m) m" "extends p (q m)" "calls (q m) = calls p"
    "i \<noteq> m \<Longrightarrow> modal_at i (q m) = modal_at i p" "d \<noteq> c \<Longrightarrow> call_at d (q m) = call_at d p"
    "rv_bg (q m) = map_option (\<lambda>b. b\<lparr>bg_clicks := []\<rparr>) (rv_bg p)" "rv_scroll (q m) = rv_scroll p"
proof -
  let ?p = "p\<lparr>rv_queued := True\<rparr>" let ?r = "after_closed c (moved_out c ?p)"
  have a: "bound_once c p" "belongs_to c p" "cl_topMeasure (call_at c p) = T m" "plays (A m) (modal_at m p)"
      and s: "\<not> cl_locked (call_at c p)" "md_queue (modal_at m p) = []"
    using assms by (auto simp: active_def is_shown_def)
  have c: "c < calls ?p" "m = cl_modal (call_at c ?p)" "m < modals ?p" "\<not> rv_raised ?p" "bound_once c ?p"
      "cl_closeButton (call_at c ?p) = Some (dismiss_buttons (cl_opts (call_at c p)) p)"
    using a assms(4) by (auto simp: bound_once_def belongs_to_def rv_simps)
  note eq = closeAnimation_queued [OF assms(2) s(1)]
  have c2: "c < calls (moved_out c ?p)" "m = cl_modal (call_at c (moved_out c ?p))" "m < modals (moved_out c ?p)"
      "cl_closeButton (call_at c (moved_out c ?p)) = Some (dismiss_buttons (cl_opts (call_at c p)) p)"
    using c by (simp_all add: moved_out_reads)
  note reads = after_closed_reads [OF c2] moved_out_reads [OF c(1-3)]
  have nr: "\<not> rv_raised (closeAnimation c ?p)" using c(4) by (simp add: eq reads)
  have q: "q m = run_fn c EvClose (?r\<lparr>rv_queued := False\<rparr>)"
    unfolding q_def using trigger_close_once [OF c(5,2) nr] by (simp add: eq)
  show "calm (q m)" "calls (q m) = calls p" "i \<noteq> m \<Longrightarrow> modal_at i (q m) = modal_at i p" "d \<noteq> c \<Longrightarrow> call_at d (q m) = call_at d p"
      "rv_bg (q m) = map_option (\<lambda>b. b\<lparr>bg_clicks := []\<rparr>) (rv_bg p)" "rv_scroll (q m) = rv_scroll p"
    using c(4) by (simp_all add: q calm_def rv_simps reads)
  show "unbound (q m)"
    using cleared_buttons [OF a(2)] by (auto simp: q unbound_def rv_simps reads)
  show ext: "extends p (q m)"
    by (auto simp: q extends_def rv_simps reads)
  have "hiding (T m) m (moved_out c ?p)"
    using moved_out_hiding [OF c(1-3)] s(2) a(3) by (simp add: rv_simps)
  then have "hiding (T m) m (q m)"
    by (rule hiding_keep) (auto simp: q extends_def rv_simps reads)
  moreover have "video_of (A m) (modal_at m (q m))"
    using a(4) plays_silenced [of "A m" "modal_at m (moved_out c ?p)"]
    by (simp add: q rv_simps reads plays_def video_of_def)
  ultimately show "at_rest T A (q m) m"
    by (simp add: at_rest_def q rv_simps reads)
qed

text \<open>What opening does once nothing else is open.\<close>

definition opened_by :: "nat \<Rightarrow> reveal_page \<Rightarrow> reveal_page \<Rightarrow> bool" where
  "opened_by c q r \<longleftrightarrow>
     (let m = cl_modal (call_at c q); a = animation c q in
      \<not> rv_raised r \<and> \<not> rv_queued r \<and> calls r = calls q \<and> modals r = modals q
      \<and> (\<forall>i. i \<noteq> m \<longrightarrow> modal_at i r = modal_at i q) \<and> (\<forall>d. call_at d r = (if d = c then call_at c q\<lparr>cl_locked := a \<noteq> ''none''\<rparr> else call_at d q))
      \<and> rv_keys r = rv_keys q \<and> rv_buttons r = rv_buttons q
      \<and> md_handlers (modal_at m r) = md_handlers (modal_at m q) \<and> md_iframes (modal_at m r) = md_iframes (modal_at m q)
      \<and> md_open (modal_at m r) \<and> md_shown (modal_at m r)
      \<and> (a \<noteq> ''none'' \<longrightarrow> (\<exists>t. md_queue (modal_at m r) = [Wait, Glide t 1 (ThenOpened c)]))
      \<and> (a = ''none'' \<longrightarrow> md_queue (modal_at m r) = [] \<and> md_opacity (modal_at m r) = 1)
      \<and> (\<exists>b. rv_bg r = Some b \<and> bg_clicks b = [] \<and> bg_shown b \<and> set (bg_queue b) \<subseteq> {BgFadeTo, BgFadeIn}
           \<and> (a = ''none'' \<longrightarrow> set (bg_queue b) \<subseteq> {BgFadeTo})))"

lemma bg_push_in:
  assumes "bg_queue b \<noteq> [] \<longrightarrow> bg_shown b" "set (bg_queue b) \<subseteq> {BgFadeTo}"
  shows "bg_shown (bg_push BgFadeIn b)" "bg_clicks (bg_push BgFadeIn b) = bg_clicks b"
    "set (bg_queue (bg_push BgFadeIn b)) \<subseteq> {BgFadeTo, BgFadeIn}"
  using assms by (auto simp: bg_push_def bg_start_def Let_def)

lemma openAnimation_opens:
  assumes "\<not> cl_locked (call_at c p)" "q = closeOpenModals (lockModal c p)" "\<not> rv_queued q"
    "bound_once c q" "call_at c q = call_at c p\<lparr>cl_locked := True\<rparr>"
    "animation c p \<in> {''fadeAndPop'', ''fade'', ''none''}"
    "rv_bg q = Some b" "bg_clicks b = []" "set (bg_queue b) \<subseteq> {BgFadeTo}" "bg_queue b \<noteq> [] \<longrightarrow> bg_shown b"
    "md_queue (modal_at (cl_modal (call_at c p)) q) = []"
  shows "opened_by c q (openAnimation c p)"
proof -
  let ?l = "call_at c p" let ?m = "cl_modal ?l"
  have q: "c < calls q" "?m < modals q" "\<not> rv_raised q" "cl_modal (call_at c q) = ?m"
    using assms by (auto simp: bound_once_def)
  note unf = openAnimation_def Let_def assms(2)[symmetric]
  consider "animation c p = ''fadeAndPop''" | "animation c p = ''fade''" | "animation c p = ''none''" using assms(6) by auto
  then show ?thesis
  proof cases
    case 1
    show ?thesis using q 1 assms(1,3,5,7,8,11) bg_push_in [OF assms(10,9)]
      by (simp add: unf opened_by_def push_move_def css_open_def rv_simps)
  next
    case 2
    show ?thesis using q 2 assms(1,3,5,7,8,11) bg_push_in [OF assms(10,9)]
      by (simp add: unf opened_by_def push_move_def css_open_def rv_simps)
  next
    case 3
    let ?r = "upd_bg (\<lambda>b. b\<lparr>bg_shown := True\<rparr>) (css_open (rv_scroll q + cl_topMeasure ?l) 1 ?m (upd_modal (\<lambda>d. d\<lparr>md_open := True\<rparr>) ?m q))"
    have "bound_once c ?r"
      by (rule bound_once_keep [OF assms(4)]) (use q in \<open>simp_all add: css_open_def rv_simps\<close>)
    then have "trigger_end ?m EvOpened ?r = run_fn c EvOpened (unlockModal c ?r)"
      by (rule trigger_opened_once) (use q in \<open>simp add: css_open_def rv_simps\<close>)
    then have "openAnimation c p = run_fn c EvOpened (unlockModal c ?r)"
      using q(3) 3 assms(1) by (simp add: unf rv_simps)
    then show ?thesis using q 3 assms(3,5,7,8,9,11)
      by (auto simp: opened_by_def Let_def unlockModal_def css_open_def rv_simps)
  qed
qed

lemma openVideos_reads:
  assumes "m = cl_modal (call_at c p)" "m < modals p"
  shows "modals (openVideos c p) = modals p" "rv_calls (openVideos c p) = rv_calls p" "call_at d (openVideos c p) = call_at d p"
    "i \<noteq> m \<Longrightarrow> modal_at i (openVideos c p) = modal_at i p"
    "rv_queued (openVideos c p) = rv_queued p" "rv_raised (openVideos c p) = rv_raised p" "rv_keys (openVideos c p) = rv_keys p"
    "rv_bg (openVideos c p) = rv_bg p" "rv_buttons (openVideos c p) = rv_buttons p"
    "md_open (modal_at m (openVideos c p)) = md_open (modal_at m p)" "md_shown (modal_at m (openVideos c p)) = md_shown (modal_at m p)"
    "md_opacity (modal_at m (openVideos c p)) = md_opacity (modal_at m p)" "md_queue (modal_at m (openVideos c p)) = md_queue (modal_at m p)"
    "md_handlers (modal_at m (openVideos c p)) = md_handlers (modal_at m p)"
    "video_of a (modal_at m p) \<Longrightarrow> plays a (modal_at m (openVideos c p))"
  using assms by (auto simp: openVideos_def rv_simps video_of_def plays_def split: list.split option.split)

definition clear_to_open :: "(nat \<Rightarrow> int) \<Rightarrow> (nat \<Rightarrow> string) \<Rightarrow> nat \<Rightarrow> reveal_opts \<Rightarrow> nat \<Rightarrow> reveal_page \<Rightarrow> bool" where
  "clear_to_open T A c o1 m q \<longleftrightarrow> bound_once c q \<and> \<not> rv_queued q \<and> unbound q \<and> others_rest T A {m} q
     \<and> cl_modal (call_at c q) = m \<and> cl_opts (call_at c q) = o1 \<and> cl_topMeasure (call_at c q) = T m \<and> cl_locked (call_at c q)
     \<and> md_queue (modal_at m q) = [] \<and> video_of (A m) (modal_at m q)
     \<and> (\<exists>b. rv_bg q = Some b \<and> set (bg_queue b) \<subseteq> {BgFadeTo} \<and> (bg_queue b \<noteq> [] \<longrightarrow> bg_shown b))"

lemma bind_closers_reads:
  assumes "c < calls p"
  shows "modals (bind_closers c o1 p) = modals p" "calls (bind_closers c o1 p) = calls p" "modal_at i (bind_closers c o1 p) = modal_at i p"
    "call_at d (bind_closers c o1 p) = (if d = c then call_at c p\<lparr>cl_closeButton := Some (dismiss_buttons o1 p)\<rparr> else call_at d p)"
    "rv_queued (bind_closers c o1 p) = rv_queued p" "rv_raised (bind_closers c o1 p) = rv_raised p"
    "rv_keys (bind_closers c o1 p) = rv_keys p @ [c]"
    "rv_bg (bind_closers c o1 p) = (if ro_bg_click o1 then map_option (\<lambda>b. b\<lparr>bg_pointer := True, bg_clicks := bg_clicks b @ [c]\<rparr>) (rv_bg p) else rv_bg p)"
    "rv_buttons (bind_closers c o1 p) = fold (\<lambda>b xs. xs[b := (fst (xs ! b), snd (xs ! b) @ [c])]) (dismiss_buttons o1 p) (rv_buttons p)"
  using assms by (simp_all add: bind_closers_def Let_def rv_simps)

lemma belongs_after_bind:
  assumes "c < calls p" "unbound p" "rv_bg p = Some b" "bg_shown b" "cl_opts (call_at c p) = o1"
  shows "belongs_to c (bind_closers c o1 p)"
proof -
  let ?bs = "dismiss_buttons o1 p" let ?ys = "fold (\<lambda>b xs. xs[b := (fst (xs ! b), snd (xs ! b) @ [c])]) ?bs (rv_buttons p)"
  have n: "?ys ! i = (if i \<in> set ?bs then (fst (rv_buttons p ! i), snd (rv_buttons p ! i) @ [c]) else rv_buttons p ! i)"
    if "i < length (rv_buttons p)" for i using that by (simp add: fold_buttons [where f = "\<lambda>x. (fst x, snd x @ [c])"])
  then have "dismiss_buttons o1 (bind_closers c o1 p) = ?bs"
    using assms(1) by (auto simp: dismiss_buttons_def bind_closers_reads intro!: filter_cong split: if_splits)
  then show ?thesis using assms n by (auto simp: belongs_to_def bind_closers_reads unbound_def)
qed

lemma at_rest_quiet: "at_rest T A p i \<Longrightarrow> quiet p \<Longrightarrow> i < modals p \<Longrightarrow> md_top (modal_at i p) = T i \<and> md_queue (modal_at i p) = []"
  by (auto simp: at_rest_def hiding_def quiet_def)

lemma open_modals_others:
  assumes "others_rest T A X p"
  shows "X = {} \<Longrightarrow> open_modals p = []"
    and "X = {m} \<Longrightarrow> m < modals p \<Longrightarrow> open_modals p = (if md_open (modal_at m p) then [m] else [])"
proof -
  have closed: "i < modals p \<Longrightarrow> i \<notin> X \<Longrightarrow> \<not> md_open (modal_at i p)" for i using assms by (simp add: others_rest_def at_rest_def)
  then show "X = {} \<Longrightarrow> open_modals p = []" by (simp add: open_modals_def)
  assume X: "X = {m}" "m < modals p"
  have "open_modals p = filter (\<lambda>i. i = m \<and> md_open (modal_at m p)) [0..<modals p]"
    unfolding open_modals_def using closed X by (intro filter_cong) auto
  moreover have "filter (\<lambda>i. i = m) [0..<n] = (if m < n then [m] else [])" for n by (induction n) auto
  ultimately show "open_modals p = (if md_open (modal_at m p) then [m] else [])" using X(2) by simp
qed

lemma trigger_open_ready:
  assumes "clear_to_open T A c o1 m q" "q = closeOpenModals (lockModal c p)" "\<not> cl_locked (call_at c p)" "bound_once c p"
    "call_at c q = call_at c p\<lparr>cl_locked := True\<rparr>" "ro_animation o1 \<in> {''fadeAndPop'', ''fade'', ''none''}"
  shows "trigger_open m p = run_fn c EvOpen (openVideos c (openAnimation c p))" "opened_by c q (openAnimation c p)"
proof -
  obtain b where b: "rv_bg q = Some b" "set (bg_queue b) \<subseteq> {BgFadeTo}" "bg_queue b \<noteq> [] \<longrightarrow> bg_shown b" "bg_clicks b = []"
    using assms(1) by (auto simp: clear_to_open_def unbound_def)
  have m: "cl_modal (call_at c p) = m" "cl_opts (call_at c p) = o1" using assms(1,5) by (simp_all add: clear_to_open_def)
  show o: "opened_by c q (openAnimation c p)"
    by (rule openAnimation_opens [OF assms(3,2) _ _ assms(5) _ b(1,4,2,3)]) (use assms(1,6) m in \<open>simp_all add: clear_to_open_def\<close>)
  then show "trigger_open m p = run_fn c EvOpen (openVideos c (openAnimation c p))"
    by (intro trigger_open_once assms(4)) (simp_all add: m opened_by_def Let_def)
qed

lemma opened_ok:
  assumes "clear_to_open T A c o1 m q" "opened_by c q r" "ro_animation o1 \<in> {''fadeAndPop'', ''fade'', ''none''}"
  shows "reveal_ok T A (bind_closers c o1 (run_fn c EvOpen (openVideos c r)))"
proof -
  let ?v = "run_fn c EvOpen (openVideos c r)" let ?s = "bind_closers c o1 ?v"
  have q: "c < calls q" "m < modals q" "cl_modal (call_at c q) = m" "cl_opts (call_at c q) = o1" "cl_topMeasure (call_at c q) = T m"
      "unbound q" "others_rest T A {m} q" "video_of (A m) (modal_at m q)" "md_handlers (modal_at m q) = bindings c"
    using assms(1) by (auto simp: clear_to_open_def bound_once_def)
  note r = assms(2) [unfolded opened_by_def Let_def q(3,4)]
  have m: "m = cl_modal (call_at c r)" "m < modals r" "c < calls ?v" using r q by (auto simp: openVideos_reads rv_simps)
  note reads = bind_closers_reads [OF m(3)] rv_simps openVideos_reads [OF m(1,2)]
  obtain b where b: "rv_bg r = Some b" "bg_clicks b = []" "bg_shown b" "set (bg_queue b) \<subseteq> {BgFadeTo, BgFadeIn}"
      "ro_animation o1 = ''none'' \<longrightarrow> set (bg_queue b) \<subseteq> {BgFadeTo}" using r by blast
  have "unbound ?v" using q(6) r b by (auto simp: unbound_def reads)
  then have "belongs_to c ?s" by (rule belongs_after_bind [OF m(3)]) (use b r q in \<open>simp_all add: reads\<close>)
  moreover have "plays (A m) (modal_at m ?s)"
    using q(8) r openVideos_reads(15) [OF m(1,2)] by (simp add: reads video_of_def)
  moreover have "bound_once c ?s" using q r by (simp add: bound_once_def reads)
  ultimately have "active T A c ?s" using q r assms(3) by (simp add: active_def reads)
  moreover have "others_rest T A {m} ?s"
    by (rule others_rest_extends [OF q(7)]) (use r in \<open>auto simp: extends_def reads\<close>)
  moreover have "no_fade_out ?s" using b(1,4) by (auto simp: no_fade_out_def reads)
  then have "is_opening c ?s \<or> is_shown c ?s"
    using r q b by (cases "ro_animation o1 = ''none''") (auto simp: is_opening_def is_shown_def reads)
  moreover have "calm ?s" "cl_modal (call_at c ?s) = m" using r q by (simp_all add: calm_def reads)
  ultimately show ?thesis by (blast intro: reveal_okI)
qed

text \<open>The page when the new handlers are bound and the call is locked.\<close>

definition prepared :: "reveal_opts \<Rightarrow> nat \<Rightarrow> reveal_page \<Rightarrow> reveal_page" where
  "prepared o1 m p =
     upd_modal (\<lambda>d. d\<lparr>md_handlers := md_handlers d @ bindings (calls p)\<rparr>) m
       (with_bg (p\<lparr>rv_calls := rv_calls p @ [new_call o1 m p]\<rparr>))"

lemma prepared_reads:
  assumes "m < modals p"
  shows "modals (prepared o1 m p) = modals p" "calls (prepared o1 m p) = Suc (calls p)"
    "modal_at i (prepared o1 m p) = (if i = m then modal_at m p\<lparr>md_handlers := md_handlers (modal_at m p) @ bindings (calls p)\<rparr> else modal_at i p)"
    "call_at (calls p) (prepared o1 m p) = new_call o1 m p" "d < calls p \<Longrightarrow> call_at d (prepared o1 m p) = call_at d p"
    "rv_queued (prepared o1 m p) = rv_queued p" "rv_raised (prepared o1 m p) = rv_raised p" "rv_keys (prepared o1 m p) = rv_keys p"
    "rv_buttons (prepared o1 m p) = rv_buttons p"
    "rv_bg (prepared o1 m p) = Some (case rv_bg p of None \<Rightarrow> \<lparr>bg_shown = True, bg_pointer = False, bg_clicks = [], bg_queue = [BgFadeTo]\<rparr> | Some b \<Rightarrow> b)"
  using assms by (auto simp: prepared_def with_bg_def modal_at_def call_at_def upd_modal_def nth_append split: option.split)

lemma lock_reads:
  assumes "c < calls p"
  shows "modals (lockModal c p) = modals p" "calls (lockModal c p) = calls p" "modal_at i (lockModal c p) = modal_at i p"
    "call_at d (lockModal c p) = (if d = c then call_at c p\<lparr>cl_locked := True\<rparr> else call_at d p)"
    "rv_queued (lockModal c p) = rv_queued p" "rv_raised (lockModal c p) = rv_raised p" "rv_keys (lockModal c p) = rv_keys p"
    "rv_buttons (lockModal c p) = rv_buttons p" "rv_bg (lockModal c p) = rv_bg p"
  using assms by (simp_all add: lockModal_def rv_simps)

lemma ready_idle:
  fixes o1
  assumes "calm p" "idle p" "others_rest T A {} p" "quiet p" "m < modals p"
  defines "q \<equiv> lockModal (calls p) (prepared o1 m p)"
  shows "closeOpenModals q = q" "clear_to_open T A (calls p) o1 m q"
proof -
  have rest: "at_rest T A p m" using assms(3,5) by (simp add: others_rest_def)
  note top = at_rest_quiet [OF rest assms(4,5)]
  have l: "calls p < calls (prepared o1 m p)" using assms(5) by (simp add: prepared_reads)
  note reads = lock_reads [OF l] prepared_reads [OF assms(5)]
  have o: "others_rest T A {m} q"
    by (rule others_rest_extends [OF assms(3)]) (auto simp: q_def extends_def reads)
  have "open_modals q = []"
    using open_modals_others(2) [OF o refl] assms(5) rest by (simp add: q_def reads at_rest_def)
  then show "closeOpenModals q = q" by (simp add: closeOpenModals_def)
  show "clear_to_open T A (calls p) o1 m q"
    using o rest top assms(1,2,4,5)
    by (auto simp: clear_to_open_def q_def reads bound_once_def new_call_def at_rest_def calm_def idle_def unbound_def video_of_def quiet_def split: option.splits)
qed

lemma active_keep:
  assumes "active T A c p" "is_shown c p" "extends p q" "modal_at (cl_modal (call_at c p)) q = modal_at (cl_modal (call_at c p)) p"
    "call_at c q = call_at c p" "rv_raised q = rv_raised p" "rv_keys q = rv_keys p" "rv_buttons q = rv_buttons p" "rv_bg q = rv_bg p"
  shows "active T A c q \<and> is_shown c q"
  using assms by (simp add: active_def bound_once_def belongs_to_def is_shown_def extends_def no_fade_out_def dismiss_buttons_def)

lemma ready_shown:
  fixes o1
  assumes "calm p" "active T A d p" "is_shown d p" "others_rest T A {cl_modal (call_at d p)} p" "quiet p" "m < modals p"
    "\<not> md_open (modal_at m p)"
  defines "q \<equiv> closeOpenModals (lockModal (calls p) (prepared o1 m p))"
  shows "clear_to_open T A (calls p) o1 m q" "call_at (calls p) q = (new_call o1 m p)\<lparr>cl_locked := True\<rparr>"
proof -
  let ?n = "cl_modal (call_at d p)" let ?r = "lockModal (calls p) (prepared o1 m p)"
  have d: "d < calls p" "?n < modals p" "m \<noteq> ?n" "md_open (modal_at ?n p)"
    using assms(2,3,7) by (auto simp: active_def bound_once_def is_shown_def)
  have rest: "at_rest T A p m" using assms(4,6) d(3) by (simp add: others_rest_def)
  note top = at_rest_quiet [OF rest assms(5,6)]
  have l: "calls p < calls (prepared o1 m p)" using assms(6) by (simp add: prepared_reads)
  note reads = lock_reads [OF l] prepared_reads [OF assms(6)]
  obtain b where b: "rv_bg p = Some b" "bg_queue b = []"
    using assms(2,5) by (auto simp: active_def belongs_to_def quiet_def)
  have k: "active T A d ?r \<and> is_shown d ?r"
    by (rule active_keep [OF assms(2,3)]) (use d b in \<open>auto simp: extends_def reads\<close>)
  have n: "?n = cl_modal (call_at d ?r)" using d by (simp add: reads)
  have "open_modals ?r = filter (\<lambda>i. md_open (modal_at i p)) [0..<modals p]"
    unfolding open_modals_def by (intro filter_cong) (auto simp: reads)
  then have "open_modals ?r = [?n]"
    using open_modals_others(2) [OF assms(4) refl d(2)] d(4) by (simp add: open_modals_def)
  then have q: "q = trigger_close ?n (?r\<lparr>rv_queued := True\<rparr>)" by (simp add: q_def closeOpenModals_def)
  note cl = close_queued [OF k [THEN conjunct1] k [THEN conjunct2] n, folded q]
  have "others_rest T A {m} q"
    unfolding others_rest_def
  proof (intro allI impI)
    fix i assume i: "i < modals q" "i \<notin> {m}"
    have e: "extends p q" using cl(4) by (auto simp: extends_def reads split: if_splits)
    show "at_rest T A q i"
    proof (cases "i = ?n")
      case True
      then show ?thesis using cl(3) by simp
    next
      case False
      have "at_rest T A p i" using assms(4) i e False by (simp add: others_rest_def extends_def)
      then show ?thesis by (rule at_rest_extends [OF _ e]) (use i False in \<open>simp add: cl(6) reads\<close>)
    qed
  qed
  moreover show c: "call_at (calls p) q = (new_call o1 m p)\<lparr>cl_locked := True\<rparr>" using d by (simp add: cl(7) reads)
  moreover have "modal_at m q = modal_at m p\<lparr>md_handlers := bindings (calls p)\<rparr>"
    using d rest by (simp add: cl(6) reads at_rest_def)
  ultimately show "clear_to_open T A (calls p) o1 m q"
    using top b rest cl(1,2,4,5,8) assms(6)
    by (auto simp: clear_to_open_def bound_once_def new_call_def at_rest_def calm_def video_of_def extends_def reads)
qed

section \<open>Every event keeps the page consistent\<close>

lemma quiet_states:
  assumes "reveal_ok T A p" "quiet p"
  obtains "idle p" "others_rest T A {} p"
  | c where "active T A c p" "is_shown c p" "others_rest T A {cl_modal (call_at c p)} p"
proof -
  have False if "active T A c p" "is_opening c p" for c
    using that assms(2) by (auto simp: active_def bound_once_def is_opening_def quiet_def)
  moreover have False if "is_closing T c p" for c
    using that assms(2) by (auto simp: is_closing_def quiet_def)
  ultimately show ?thesis using assms(1) that unfolding reveal_ok_def by metis
qed

lemma reveal_one_ok:
  assumes "reveal_ok T A p" "quiet p" "m < modals p" "\<not> md_open (modal_at m p)" "ro_animation o1 \<in> {''fadeAndPop'', ''fade'', ''none''}"
  shows "reveal_ok T A (reveal_one o1 m p)"
proof -
  let ?c = "calls p" let ?p2 = "prepared o1 m p" let ?q = "closeOpenModals (lockModal ?c ?p2)"
  have calm: "calm p" using assms(1) by (simp add: reveal_ok_def)
  have l: "?c < calls ?p2" using assms(3) by (simp add: prepared_reads)
  note reads = lock_reads [OF l] prepared_reads [OF assms(3)]
  have r: "clear_to_open T A ?c o1 m ?q \<and> call_at ?c ?q = (new_call o1 m p)\<lparr>cl_locked := True\<rparr>"
    using assms(1,2)
  proof (cases rule: quiet_states)
    case 1
    then show ?thesis using ready_idle [OF calm 1 assms(2,3)] by (simp add: reads)
  next
    case (2 d)
    then show ?thesis using ready_shown [OF calm 2 assms(2,3,4)] by blast
  qed
  have "md_handlers (modal_at m p) = []"
    using assms(1,2)
  proof (cases rule: quiet_states)
    case 1
    then show ?thesis using assms(3) by (simp add: others_rest_def at_rest_def)
  next
    case (2 d)
    then show ?thesis using assms(3,4) by (auto simp: others_rest_def at_rest_def is_shown_def)
  qed
  then have b: "bound_once ?c ?p2" using assms(3) calm by (simp add: bound_once_def reads new_call_def calm_def)
  note t = trigger_open_ready [OF r [THEN conjunct1] refl _ b _ assms(5)]
  have tr: "trigger_open m ?p2 = run_fn ?c EvOpen (openVideos ?c (openAnimation ?c ?p2))" "opened_by ?c ?q (openAnimation ?c ?p2)"
    using r by (auto intro!: t simp: reads new_call_def)
  have "cl_modal (call_at ?c (openAnimation ?c ?p2)) = m" "m < modals (openAnimation ?c ?p2)"
    using tr(2) r by (auto simp: opened_by_def Let_def clear_to_open_def bound_once_def)
  then have "\<not> rv_raised (trigger_open m ?p2)"
    using tr(2) by (simp add: tr(1) rv_simps openVideos_def opened_by_def Let_def)
  then have "reveal_one o1 m p = bind_closers ?c o1 (trigger_open m ?p2)"
    by (simp add: reveal_one_def Let_def prepared_def)
  then show ?thesis using opened_ok [OF r [THEN conjunct1] tr(2) assms(5)] tr(1) by simp
qed

lemma ok_not_raised: "reveal_ok T A p \<Longrightarrow> \<not> rv_raised p"
  by (simp add: reveal_ok_def calm_def)

lemma reveal_ok_step:
  assumes "reveal_ok T A p" "quiet p" "set ms \<subseteq> {m}" "length ms \<le> 1" "m < modals p"
    "go_animation g \<in> {None, Some ''fadeAndPop'', Some ''fade'', Some ''none''}"
  shows "reveal_ok T A (reveal g ms p)"
proof -
  have a: "ro_animation (extend_opts g) \<in> {''fadeAndPop'', ''fade'', ''none''}"
    using assms(6) by (auto simp: extend_opts_def reveal_defaults_def)
  have "ms = [] \<or> ms = [m]" using assms(3,4) by (cases ms) auto
  then show ?thesis
    using reveal_one_ok [OF assms(1,2,5) _ a] assms(1) ok_not_raised [OF assms(1)] by (auto simp: reveal_def)
qed

lemmas state_defs = reveal_ok_def calm_def idle_def unbound_def others_rest_def at_rest_def hiding_def active_def bound_once_def belongs_to_def
  is_opening_def is_shown_def is_closing_def no_fade_out_def dismiss_buttons_def

lemma reveal_ok_log: "reveal_ok T A (run_fn c e p) = reveal_ok T A p"
  by (simp add: state_defs rv_simps)

lemma reveal_ok_scroll: "reveal_ok T A (p\<lparr>rv_scroll := y\<rparr>) = reveal_ok T A p"
  by (simp add: state_defs rv_simps)

lemma bg_push_shown [simp]:
  "bg_queue (bg_push x b) = bg_queue b @ [x]" "bg_clicks (bg_push x b) = bg_clicks b" "bg_shown b \<Longrightarrow> bg_shown (bg_push x b)"
  by (simp_all add: bg_push_def bg_start_def Let_def)

lemma closeAnimation_fades:
  assumes "active T A c p" "is_shown c p" "calm p" "animation c p \<noteq> ''none''"
  shows "closeAnimation c p = (upd_bg (\<lambda>b. bg_push (BgFadeOut c) (bg_push BgWait b)) (moved_out c p))\<lparr>rv_queued := False\<rparr>"
  using assms by (auto simp: closeAnimation_def moved_out_def Let_def close_bg_def rv_simps push_move_def lockModal_def
      active_def is_shown_def calm_def)

lemma close_shown_fades:
  assumes "active T A c p" "is_shown c p" "calm p" "others_rest T A {m} p" "m = cl_modal (call_at c p)" "animation c p \<noteq> ''none''"
  shows "reveal_ok T A (closeAnimation c p)"
proof -
  have a: "c < calls p" "m < modals p" "\<not> rv_raised p" "belongs_to c p" "cl_topMeasure (call_at c p) = T m" "md_queue (modal_at m p) = []"
    using assms by (auto simp: active_def bound_once_def is_shown_def)
  note reads = moved_out_reads [OF a(1) assms(5) a(2)]
  obtain b where b: "rv_bg p = Some b" "bg_shown b" "bg_clicks b = (if ro_bg_click (cl_opts (call_at c p)) then [c] else [])"
      "\<forall>d. BgFadeOut d \<notin> set (bg_queue b)"
    using a(4) assms(2) by (auto simp: belongs_to_def is_shown_def no_fade_out_def)
  let ?q = "closeAnimation c p"
  note eq = closeAnimation_fades [OF assms(1,2,3,6)]
  have "hiding (T m) m (moved_out c p)" using moved_out_hiding [OF a(1) assms(5) a(2,6)] a(5) by simp
  then have "hiding (T m) m ?q" by (rule hiding_keep) (simp_all add: eq extends_def rv_simps reads)
  moreover have "\<exists>xs. bg_queue b @ [BgWait, BgFadeOut c] = xs @ [BgFadeOut c] \<and> (\<forall>d. BgFadeOut d \<notin> set xs)"
    using b(4) by (intro exI [of _ "bg_queue b @ [BgWait]"]) simp
  ultimately have "is_closing T c ?q"
    using assms(6) b(1) by (simp add: is_closing_def eq rv_simps reads assms(5) [symmetric])
  moreover have "active T A c ?q"
    using assms(1) a b by (auto simp: active_def bound_once_def belongs_to_def dismiss_buttons_def plays_def eq rv_simps reads assms(5) [symmetric])
  moreover have "others_rest T A {m} ?q"
    by (rule others_rest_extends [OF assms(4)]) (auto simp: eq extends_def rv_simps reads)
  moreover have "calm ?q" "cl_modal (call_at c ?q) = m" using assms(3,5) by (simp_all add: calm_def eq rv_simps reads)
  ultimately show ?thesis by (blast intro: reveal_okI)
qed

text \<open>The end of closing: nothing is bound any more.\<close>

lemma after_closed_ok:
  assumes "bound_once c p" "belongs_to c q" "rv_buttons p = rv_buttons q" "m = cl_modal (call_at c p)"
    "cl_closeButton (call_at c p) = Some (dismiss_buttons (cl_opts (call_at c q)) q)" "calm p"
    "others_rest T A {m} p" "\<not> md_open (modal_at m p)" "plays (A m) (modal_at m p)" "hiding (T m) m p"
    "\<forall>b. rv_bg p = Some b \<longrightarrow> \<not> bg_shown b \<and> set (bg_queue b) \<subseteq> {BgFadeTo}"
  shows "calm (after_closed c p)" "idle (after_closed c p)" "others_rest T A {} (after_closed c p)"
proof -
  have a: "c < calls p" "m < modals p" using assms(1,4) by (auto simp: bound_once_def)
  note reads = after_closed_reads [OF a(1) assms(4) a(2) assms(5)]
  show "calm (after_closed c p)" using assms(6) by (simp add: calm_def reads)
  show "idle (after_closed c p)" using assms(11) cleared_buttons [OF assms(2)] assms(3) by (auto simp: idle_def unbound_def reads)
  have e: "extends p (after_closed c p)" by (auto simp: extends_def reads)
  have "hiding (T m) m (after_closed c p)" by (rule hiding_keep [OF assms(10) e]) (simp_all add: reads)
  moreover have "video_of (A m) (modal_at m (after_closed c p))"
    using plays_silenced [OF assms(9)] by (simp add: reads video_of_def)
  ultimately have "at_rest T A (after_closed c p) m" using assms(8) by (simp add: at_rest_def reads)
  moreover have "at_rest T A (after_closed c p) i" if "i < modals (after_closed c p)" "i \<noteq> m" for i
    using assms(7) that at_rest_extends [OF _ e] by (simp add: others_rest_def reads)
  ultimately show "others_rest T A {} (after_closed c p)" unfolding others_rest_def by metis
qed

lemma close_shown_none:
  assumes "active T A c p" "is_shown c p" "calm p" "others_rest T A {m} p" "m = cl_modal (call_at c p)" "animation c p = ''none''"
  shows "reveal_ok T A (closeAnimation c p)"
proof -
  have a: "c < calls p" "m < modals p" "\<not> rv_raised p" "bound_once c p" "belongs_to c p" "cl_topMeasure (call_at c p) = T m"
      "plays (A m) (modal_at m p)" "md_queue (modal_at m p) = []"
    using assms by (auto simp: active_def bound_once_def is_shown_def)
  note reads = moved_out_reads [OF a(1) assms(5) a(2)]
  let ?r = "upd_bg (\<lambda>b. b\<lparr>bg_shown := False\<rparr>) (moved_out c p)"
  have b: "bound_once c ?r"
    by (rule bound_once_keep [OF a(4)]) (simp_all add: rv_simps reads assms(5) [symmetric])
  have e: "extends p ?r" by (auto simp: extends_def rv_simps reads)
  have h: "hiding (T m) m ?r"
    by (rule hiding_keep [OF moved_out_hiding [OF a(1) assms(5) a(2,8), unfolded a(6)]]) (auto simp: extends_def rv_simps)
  have o: "others_rest T A {m} ?r" by (rule others_rest_extends [OF assms(4) e]) (simp add: rv_simps reads)
  have cb: "cl_closeButton (call_at c ?r) = Some (dismiss_buttons (cl_opts (call_at c p)) p)"
    using a(5) by (simp add: belongs_to_def rv_simps reads)
  have m: "m = cl_modal (call_at c ?r)" using assms(5) by (simp add: rv_simps reads)
  have ok: "calm (after_closed c ?r) \<and> idle (after_closed c ?r) \<and> others_rest T A {} (after_closed c ?r)"
    by (intro conjI after_closed_ok [OF b a(5) _ m cb _ o _ _ h])
      (use assms(2,3,6) a(7) in \<open>auto simp: calm_def is_shown_def plays_def rv_simps reads\<close>)
  have "trigger_end m EvClosed ?r = after_closed c ?r"
    by (rule trigger_closed_once [OF b m]) (simp add: cb)
  then have "closeAnimation c p = (after_closed c ?r)\<lparr>rv_queued := False\<rparr>"
    using assms(2,3,5,6) ok by (simp add: closeAnimation_def moved_out_def Let_def css_close_def lockModal_def rv_simps is_shown_def calm_def)
  also have "\<dots> = after_closed c ?r" using ok by (simp add: calm_def)
  finally show ?thesis using ok by (simp add: reveal_ok_def)
qed

lemma trigger_close_ok:
  assumes "reveal_ok T A p" "active T A c p" "others_rest T A {m} p" "m = cl_modal (call_at c p)"
    "is_opening c p \<or> is_shown c p \<or> is_closing T c p"
  shows "reveal_ok T A (trigger_close m p)"
proof -
  have calm: "calm p" using assms(1) by (simp add: reveal_ok_def)
  have "reveal_ok T A (closeAnimation c p)"
  proof (cases "is_shown c p")
    case True
    then show ?thesis using close_shown_fades [OF assms(2) _ calm assms(3,4)] close_shown_none [OF assms(2) _ calm assms(3,4)] by blast
  next
    case False
    then have "closeAnimation c p = p" using assms(5) by (auto simp: closeAnimation_def is_opening_def is_closing_def)
    then show ?thesis using assms(1) by simp
  qed
  moreover have "bound_once c p" using assms(2) by (simp add: active_def)
  ultimately show ?thesis using trigger_close_once [OF _ assms(4)] by (simp add: reveal_ok_log ok_not_raised)
qed

lemma close_calls_ok:
  assumes "reveal_ok T A p" "cs = [] \<or> (\<exists>c. active T A c p \<and> cs = [c])"
  shows "reveal_ok T A (close_calls cs p)"
proof (cases cs)
  case (Cons c rest)
  then have c: "active T A c p" "cs = [c]" using assms(2) by auto
  then have k: "rv_keys p = [c]" by (simp add: active_def belongs_to_def)
  then obtain d where d: "active T A d p" "others_rest T A {cl_modal (call_at d p)} p" "is_opening d p \<or> is_shown d p \<or> is_closing T d p"
    using assms(1) by (auto simp: reveal_ok_def idle_def unbound_def)
  then have "d = c" using k by (simp add: active_def belongs_to_def)
  then show ?thesis
    using trigger_close_ok [OF assms(1) d(1,2) refl d(3)] c(2) by (simp add: close_calls_def ok_not_raised [OF assms(1)])
qed (use assms in \<open>simp add: close_calls_def\<close>)

lemma closers_cases:
  assumes "reveal_ok T A p"
  shows "rv_keys p = [] \<or> (\<exists>c. active T A c p \<and> rv_keys p = [c])"
    and "b < length (rv_buttons p) \<Longrightarrow> snd (rv_buttons p ! b) = [] \<or> (\<exists>c. active T A c p \<and> snd (rv_buttons p ! b) = [c])"
    and "rv_bg p = Some w \<Longrightarrow> bg_clicks w = [] \<or> (\<exists>c. active T A c p \<and> bg_clicks w = [c])"
proof -
  let ?X = "{[]} \<union> {[c] | c. active T A c p}"
  have "rv_keys p \<in> ?X \<and> (\<forall>b < length (rv_buttons p). snd (rv_buttons p ! b) \<in> ?X) \<and> (\<forall>w. rv_bg p = Some w \<longrightarrow> bg_clicks w \<in> ?X)"
  proof (cases "idle p")
    case True
    then show ?thesis by (simp add: idle_def unbound_def)
  next
    case False
    then obtain c where c: "active T A c p" using assms by (auto simp: reveal_ok_def)
    then have "belongs_to c p" by (simp add: active_def)
    moreover have "[c] \<in> ?X" using c by blast
    ultimately show ?thesis by (auto simp only: belongs_to_def split: if_splits)
  qed
  then show "rv_keys p = [] \<or> (\<exists>c. active T A c p \<and> rv_keys p = [c])"
    and "b < length (rv_buttons p) \<Longrightarrow> snd (rv_buttons p ! b) = [] \<or> (\<exists>c. active T A c p \<and> snd (rv_buttons p ! b) = [c])"
    and "rv_bg p = Some w \<Longrightarrow> bg_clicks w = [] \<or> (\<exists>c. active T A c p \<and> bg_clicks w = [c])"
    by blast+
qed

text \<open>The end of a move of a dialog at rest: it is hidden.\<close>

lemma tick_rest:
  assumes "at_rest T A p m" "m < modals p" "\<not> rv_raised p"
  shows "at_rest T A (tick_modal m p) m" "extends p (tick_modal m p)"
    "\<forall>i. i \<noteq> m \<longrightarrow> modal_at i (tick_modal m p) = modal_at i p" "rv_calls (tick_modal m p) = rv_calls p"
    "rv_bg (tick_modal m p) = rv_bg p" "rv_keys (tick_modal m p) = rv_keys p" "rv_buttons (tick_modal m p) = rv_buttons p"
    "rv_raised (tick_modal m p) = rv_raised p" "rv_queued (tick_modal m p) = rv_queued p" "modals (tick_modal m p) = modals p"
  using assms
  by (auto simp: at_rest_def hiding_def tick_modal_def Let_def at_end_of_def css_close_def rv_simps extends_def video_of_def)

lemma keep_state:
  assumes "extends p q" "rv_calls q = rv_calls p" "rv_bg q = rv_bg p" "rv_keys q = rv_keys p" "rv_buttons q = rv_buttons p"
    "rv_raised q = rv_raised p" "rv_queued q = rv_queued p"
  shows "calm q = calm p" "idle q = idle p"
    and "modal_at (cl_modal (call_at c p)) q = modal_at (cl_modal (call_at c p)) p \<Longrightarrow> active T A c q = active T A c p"
    and "modal_at (cl_modal (call_at c p)) q = modal_at (cl_modal (call_at c p)) p \<Longrightarrow> is_opening c q = is_opening c p"
    and "modal_at (cl_modal (call_at c p)) q = modal_at (cl_modal (call_at c p)) p \<Longrightarrow> is_shown c q = is_shown c p"
    and "modal_at (cl_modal (call_at c p)) q = modal_at (cl_modal (call_at c p)) p \<Longrightarrow> is_closing T c q = is_closing T c p"
  using assms by (simp_all add: state_defs extends_def call_at_def)

lemma tick_rest_ok:
  assumes "reveal_ok T A p" "at_rest T A p m" "m < modals p" "\<And>c. active T A c p \<Longrightarrow> cl_modal (call_at c p) \<noteq> m"
  shows "reveal_ok T A (tick_modal m p)"
proof -
  let ?q = "tick_modal m p"
  note t = tick_rest [OF assms(2,3) ok_not_raised [OF assms(1)]]
  note keep = keep_state [OF t(2,4-9)]
  have o: "others_rest T A X ?q" if "others_rest T A X p" for X
    unfolding others_rest_def using that t(1,2,3,10) at_rest_extends [of T A p _ ?q] unfolding others_rest_def by metis
  have call: "call_at c ?q = call_at c p" for c using t(4) by (simp add: call_at_def)
  have "calm ?q" using assms(1) keep(1) by (simp add: reveal_ok_def)
  moreover have "idle ?q \<and> others_rest T A {} ?q
      \<or> (\<exists>c. active T A c ?q \<and> others_rest T A {cl_modal (call_at c ?q)} ?q \<and> (is_opening c ?q \<or> is_shown c ?q \<or> is_closing T c ?q))"
  proof (cases "idle p \<and> others_rest T A {} p")
    case False
    then obtain c where c: "active T A c p" "others_rest T A {cl_modal (call_at c p)} p" "is_opening c p \<or> is_shown c p \<or> is_closing T c p"
      using assms(1) by (auto simp: reveal_ok_def)
    then have "modal_at (cl_modal (call_at c p)) ?q = modal_at (cl_modal (call_at c p)) p" using assms(4) t(3) by blast
    then show ?thesis using c keep(3-6) o call by metis
  qed (use keep o in blast)
  ultimately show ?thesis by (simp add: reveal_ok_def)
qed

lemma bg_next_fields [simp]:
  "bg_queue (bg_next b) = tl (bg_queue b)" "bg_clicks (bg_next b) = bg_clicks b" "bg_shown b \<Longrightarrow> bg_shown (bg_next b)"
  "BgFadeIn \<notin> set (bg_queue b) \<Longrightarrow> bg_shown (bg_next b) = bg_shown b"
  by (auto simp: bg_next_def bg_start_def Let_def split: list.splits) (metis list.sel(2) list.set_intros(1) list.set_sel(2))

lemma tick_opening_ok:
  assumes "active T A c p" "is_opening c p" "calm p" "others_rest T A {m} p" "m = cl_modal (call_at c p)"
  shows "reveal_ok T A (tick_modal m p)"
proof -
  obtain t where t: "md_queue (modal_at m p) = [Wait, Glide t 1 (ThenOpened c)] \<or> md_queue (modal_at m p) = [Glide t 1 (ThenOpened c)]"
    using assms(2,5) by (auto simp: is_opening_def)
  have a: "c < calls p" "m < modals p" "\<not> rv_raised p" "bound_once c p" using assms(1,3,5) by (auto simp: active_def bound_once_def)
  let ?q = "tick_modal m p" and ?w = "upd_modal (\<lambda>d. d\<lparr>md_queue := tl (md_queue d)\<rparr>) m p"
  show ?thesis
  proof (cases "md_queue (modal_at m p) = [Glide t 1 (ThenOpened c)]")
    case False
    then have "?q = ?w" using t a(3) by (auto simp: tick_modal_def Let_def)
    moreover have "active T A c ?w" using assms(1,5) a by (simp add: active_def bound_once_def belongs_to_def dismiss_buttons_def plays_def rv_simps)
    moreover have "is_opening c ?w" using False t assms(2,5) a by (simp add: is_opening_def no_fade_out_def rv_simps)
    moreover have "others_rest T A {m} ?w"
      by (rule others_rest_extends [OF assms(4)]) (use a in \<open>auto simp: extends_def rv_simps\<close>)
    moreover have "calm ?w" "cl_modal (call_at c ?w) = m" using assms(3,5) by (simp_all add: calm_def rv_simps)
    ultimately show ?thesis by (simp only:) (blast intro: reveal_okI)
  next
    case True
    let ?u = "upd_modal (\<lambda>d. d\<lparr>md_top := case_option (md_top d) (\<lambda>y. y) t, md_opacity := 1\<rparr>) m p"
    let ?r = "upd_modal (\<lambda>d. d\<lparr>md_queue := tl (md_queue d)\<rparr>) m (run_fn c EvOpened (unlockModal c ?u))"
    have "bound_once c ?u" by (rule bound_once_keep [OF a(4)]) (use a in \<open>simp_all add: rv_simps\<close>)
    then have "trigger_end m EvOpened ?u = run_fn c EvOpened (unlockModal c ?u)"
      by (rule trigger_opened_once) (simp add: rv_simps assms(5))
    then have "?q = ?r" using True a(3) by (simp add: tick_modal_def Let_def at_end_of_def rv_simps unlockModal_def assms(5) [symmetric])
    moreover have "active T A c ?r"
      using assms(1) a by (simp add: active_def bound_once_def belongs_to_def dismiss_buttons_def plays_def unlockModal_def rv_simps assms(5) [symmetric])
    moreover have "is_shown c ?r"
      using True assms(2) a by (simp add: is_opening_def is_shown_def no_fade_out_def unlockModal_def rv_simps assms(5) [symmetric])
    moreover have "others_rest T A {m} ?r"
      by (rule others_rest_extends [OF assms(4)]) (use a in \<open>auto simp: extends_def unlockModal_def rv_simps\<close>)
    moreover have "calm ?r" "cl_modal (call_at c ?r) = m"
      using assms(3) a by (simp_all add: calm_def unlockModal_def rv_simps assms(5) [symmetric])
    ultimately show ?thesis by (simp only:) (blast intro: reveal_okI)
  qed
qed

lemma tick_closing_ok:
  assumes "active T A c p" "is_closing T c p" "calm p" "others_rest T A {m} p" "m = cl_modal (call_at c p)"
  shows "reveal_ok T A (tick_modal m p)"
proof -
  let ?q = "tick_modal m p"
  have a: "c < calls p" "m < modals p" "\<not> rv_raised p" using assms(1,3,5) by (auto simp: active_def bound_once_def)
  have h: "hiding (T m) m p" using assms(2,5) by (simp add: is_closing_def)
  have q: "hiding (T m) m ?q" "md_open (modal_at m ?q) = md_open (modal_at m p)" "md_handlers (modal_at m ?q) = md_handlers (modal_at m p)"
      "md_iframes (modal_at m ?q) = md_iframes (modal_at m p)" "\<forall>i. i \<noteq> m \<longrightarrow> modal_at i ?q = modal_at i p"
      "rv_calls ?q = rv_calls p" "rv_bg ?q = rv_bg p" "rv_keys ?q = rv_keys p" "rv_buttons ?q = rv_buttons p"
      "rv_raised ?q = rv_raised p" "rv_queued ?q = rv_queued p" "modals ?q = modals p" "call_at d ?q = call_at d p" for d
    using h a by (auto simp: hiding_def tick_modal_def Let_def at_end_of_def css_close_def rv_simps)
  have "active T A c ?q" using assms(1) by (simp add: active_def bound_once_def belongs_to_def dismiss_buttons_def plays_def q assms(5) [symmetric])
  moreover have "is_closing T c ?q" using assms(2) q(1) by (simp add: is_closing_def q(2,7,13) assms(5) [symmetric])
  moreover have "others_rest T A {m} ?q"
    by (rule others_rest_extends [OF assms(4)]) (auto simp: extends_def q)
  moreover have "calm ?q" "cl_modal (call_at c ?q) = m" using assms(3) by (simp_all add: calm_def q assms(5) [symmetric])
  ultimately show ?thesis by (blast intro: reveal_okI)
qed

lemma tick_modal_ok:
  assumes "reveal_ok T A p" "m < modals p"
  shows "reveal_ok T A (tick_modal m p)"
proof -
  have calm: "calm p" using assms(1) by (simp add: reveal_ok_def)
  have one: "cl_modal (call_at c p) = cl_modal (call_at d p)" if "active T A c p" "active T A d p" for c d
    using that by (auto simp: active_def belongs_to_def)
  show ?thesis
  proof (cases "\<exists>c. active T A c p")
    case False
    then have "at_rest T A p m" using assms by (auto simp: reveal_ok_def others_rest_def)
    then show ?thesis using False tick_rest_ok assms by blast
  next
    case True
    then have "rv_keys p \<noteq> []" by (auto simp: active_def belongs_to_def)
    then obtain c where c: "active T A c p" "others_rest T A {cl_modal (call_at c p)} p" "is_opening c p \<or> is_shown c p \<or> is_closing T c p"
      using assms(1) by (auto simp: reveal_ok_def idle_def unbound_def)
    show ?thesis
    proof (cases "m = cl_modal (call_at c p)")
      case False
      then have "at_rest T A p m" using c(2) assms(2) by (simp add: others_rest_def)
      then show ?thesis using tick_rest_ok [OF assms(1) _ assms(2)] one [OF c(1)] False by metis
    next
      case m: True
      have "tick_modal m p = p" if "is_shown c p" using that m by (simp add: is_shown_def tick_modal_def)
      then show ?thesis using c(3) assms(1) tick_opening_ok [OF c(1) _ calm _ m] tick_closing_ok [OF c(1) _ calm _ m] c(2) m by metis
    qed
  qed
qed

lemma no_fade_tick:
  assumes "\<not> rv_raised p" "rv_bg p = Some b" "\<forall>c. hd (bg_queue b) \<noteq> BgFadeOut c" "bg_queue b \<noteq> []"
  shows "tick_bg p = upd_bg bg_next p"
  using assms by (cases "bg_queue b"; cases "hd (bg_queue b)") (simp_all add: tick_bg_def Let_def)

lemma keep_state_bg:
  assumes "rv_bg p = Some b" "q = upd_bg bg_next p" "bg_queue b \<noteq> []" "\<forall>d. hd (bg_queue b) \<noteq> BgFadeOut d"
  shows "calm q = calm p" "idle p \<Longrightarrow> idle q" "others_rest T A X p \<Longrightarrow> others_rest T A X q"
    and "active T A c p \<Longrightarrow> active T A c q" "is_opening c p \<Longrightarrow> is_opening c q" "is_shown c p \<Longrightarrow> is_shown c q"
    and "is_closing T c p \<Longrightarrow> is_closing T c q" "call_at c q = call_at c p"
proof -
  obtain x ys where x: "bg_queue b = x # ys" using assms(3) by (cases "bg_queue b") auto
  note reads = assms(1,2) rv_simps x
  show "calm q = calm p" "call_at c q = call_at c p" by (simp_all add: calm_def reads)
  show "idle q" if i: "idle p"
  proof -
    have "set (bg_queue b) \<subseteq> {BgFadeTo}" "\<not> bg_shown b" using i assms(1) by (simp_all add: idle_def)
    then have "\<not> bg_shown (bg_next b)" by (subst bg_next_fields(4)) auto
    then show ?thesis using i by (auto simp: idle_def unbound_def reads)
  qed
  show "others_rest T A X p \<Longrightarrow> others_rest T A X q" by (simp add: others_rest_def at_rest_def hiding_def reads)
  show "active T A c p \<Longrightarrow> active T A c q" by (auto simp: active_def bound_once_def belongs_to_def dismiss_buttons_def reads)
  show "is_opening c p \<Longrightarrow> is_opening c q" "is_shown c p \<Longrightarrow> is_shown c q"
    by (auto simp: is_opening_def is_shown_def no_fade_out_def reads)
  show "is_closing T c q" if c: "is_closing T c p"
  proof -
    obtain xs where xs: "x # ys = xs @ [BgFadeOut c]" "\<forall>d. BgFadeOut d \<notin> set xs" using c by (auto simp: is_closing_def reads)
    then have "xs \<noteq> []" using assms(4) x by auto
    then have "ys = tl xs @ [BgFadeOut c] \<and> (\<forall>d. BgFadeOut d \<notin> set (tl xs))"
      using xs by (cases xs) auto
    moreover have "hiding y m q = hiding y m p" for y m by (simp add: hiding_def reads)
    ultimately show ?thesis using c by (auto simp: is_closing_def reads)
  qed
qed

lemma fade_out_ok:
  assumes "active T A c p" "is_closing T c p" "calm p" "others_rest T A {m} p" "m = cl_modal (call_at c p)"
    "rv_bg p = Some b" "bg_queue b = [BgFadeOut c]"
  shows "reveal_ok T A (tick_bg p)"
proof -
  have a: "c < calls p" "m < modals p" "\<not> rv_raised p" "bound_once c p" "belongs_to c p" "plays (A m) (modal_at m p)"
      "\<not> md_open (modal_at m p)" "hiding (T m) m p"
    using assms(1,2,3,5) by (auto simp: active_def bound_once_def calm_def is_closing_def)
  let ?u = "upd_bg (\<lambda>b. b\<lparr>bg_shown := False\<rparr>) p" let ?r = "upd_bg (\<lambda>b. b\<lparr>bg_queue := []\<rparr>) (after_closed c ?u)"
  have u: "c < calls ?u" "m = cl_modal (call_at c ?u)" "m < modals ?u"
      "cl_closeButton (call_at c ?u) = Some (dismiss_buttons (cl_opts (call_at c p)) p)"
    using a assms(5) by (simp_all add: rv_simps belongs_to_def)
  note reads = after_closed_reads [OF u] rv_simps
  have bu: "bound_once c ?u" by (rule bound_once_keep [OF a(4)]) (simp_all add: rv_simps)
  have "trigger_end m EvClosed ?u = after_closed c ?u" by (rule trigger_closed_once [OF bu u(2)]) (simp add: u)
  then have "tick_bg p = upd_bg bg_next (after_closed c ?u)"
    using a(3) assms(6,7) by (simp add: tick_bg_def Let_def reads assms(5) [symmetric])
  also have "\<dots> = ?r"
  proof -
    have "rv_bg (after_closed c ?u) = Some (b\<lparr>bg_shown := False, bg_clicks := []\<rparr>)" using assms(6) by (simp add: reads)
    then show ?thesis using assms(7) by (simp add: upd_bg_def bg_next_def)
  qed
  finally have t: "tick_bg p = ?r" .
  have e: "extends p ?r" by (auto simp: extends_def reads)
  have "hiding (T m) m ?r" by (rule hiding_keep [OF a(8) e]) (simp_all add: reads)
  then have "at_rest T A ?r m" using a(7) plays_silenced [OF a(6)] by (simp add: at_rest_def reads video_of_def)
  moreover have "at_rest T A ?r i" if "i < modals ?r" "i \<noteq> m" for i
    using assms(4) that at_rest_extends [OF _ e] by (simp add: others_rest_def reads)
  ultimately have "others_rest T A {} ?r" unfolding others_rest_def by metis
  moreover have "idle ?r" using cleared_buttons [OF a(5)] assms(6) by (auto simp: idle_def unbound_def reads)
  moreover have "calm ?r" using assms(3) by (simp add: calm_def reads)
  ultimately show ?thesis by (simp add: t reveal_ok_def)
qed

lemma tick_bg_ok:
  assumes "reveal_ok T A p"
  shows "reveal_ok T A (tick_bg p)"
proof (cases "\<exists>b. rv_bg p = Some b \<and> bg_queue b \<noteq> []")
  case False
  then have "tick_bg p = p" by (auto simp: tick_bg_def split: option.split list.split)
  then show ?thesis using assms by simp
next
  case True
  then obtain b where b: "rv_bg p = Some b" "bg_queue b \<noteq> []" by blast
  have calm: "calm p" using assms by (simp add: reveal_ok_def)
  show ?thesis
  proof (cases "\<exists>c. hd (bg_queue b) = BgFadeOut c")
    case False
    then have "tick_bg p = upd_bg bg_next p" using no_fade_tick b calm by (simp add: calm_def)
    note keep = keep_state_bg [OF b(1) this b(2)]
    show ?thesis using assms False keep unfolding reveal_ok_def by metis
  next
    case True
    then obtain d ys where d: "bg_queue b = BgFadeOut d # ys" using b(2) by (cases "bg_queue b") auto
    then have "\<not> no_fade_out p" "\<not> idle p" using b by (auto simp: no_fade_out_def idle_def)
    then obtain c where c: "active T A c p" "others_rest T A {cl_modal (call_at c p)} p" "is_closing T c p"
      using assms by (auto simp: reveal_ok_def is_opening_def is_shown_def)
    obtain xs where "bg_queue b = xs @ [BgFadeOut c]" "\<forall>d. BgFadeOut d \<notin> set xs" using c(3) b by (auto simp: is_closing_def)
    then have "bg_queue b = [BgFadeOut c]" using d by (cases xs) auto
    then show ?thesis using fade_out_ok [OF c(1,3) calm c(2) refl b(1)] by blast
  qed
qed

text \<open>What may happen: dialogs are revealed one at a time, when nothing moves; everything else happens at any time.\<close>

definition allowed :: "reveal_input \<Rightarrow> reveal_page \<Rightarrow> bool" where
  "allowed e p =
     (case e of
        Reveal g ms \<Rightarrow> quiet p \<and> length ms \<le> 1 \<and> (\<forall>m \<in> set ms. m < modals p)
          \<and> go_animation g \<in> {None, Some ''fadeAndPop'', Some ''fade'', Some ''none''}
      | ClickLink s g \<Rightarrow> quiet p \<and> go_animation g \<in> {None, Some ''fadeAndPop'', Some ''fade'', Some ''none''}
      | _ \<Rightarrow> True)"

inductive reveal_run :: "reveal_page \<Rightarrow> reveal_page \<Rightarrow> bool" where
  start: "reveal_run p p"
| step: "reveal_run p q \<Longrightarrow> allowed e q \<Longrightarrow> reveal_run p (reveal_step e q)"

lemma reveal_ms_ok:
  assumes "reveal_ok T A p" "quiet p" "length ms \<le> 1" "\<forall>m \<in> set ms. m < modals p"
    "go_animation g \<in> {None, Some ''fadeAndPop'', Some ''fade'', Some ''none''}"
  shows "reveal_ok T A (reveal g ms p)"
proof (cases ms)
  case (Cons m rest)
  then show ?thesis using assms reveal_ok_step [OF assms(1,2), of ms m g] by simp
qed (use assms(1) in \<open>simp add: reveal_def\<close>)

lemma reveal_step_ok:
  assumes "reveal_ok T A p" "allowed e p"
  shows "reveal_ok T A (reveal_step e p)"
proof (cases e)
  case (ClickLink s g)
  have "length (by_id s p) \<le> 1" by (simp add: by_id_def)
  moreover have "\<forall>m \<in> set (by_id s p). m < modals p" by (auto simp: by_id_def dest!: in_set_takeD)
  ultimately show ?thesis
    using assms ClickLink reveal_ms_ok [OF assms(1), of "by_id s p" g] by (simp add: reveal_step_def allowed_def ok_not_raised click_link_def)
next
  case (ClickButton b)
  then show ?thesis using assms(1) closers_cases(2) [OF assms(1)] close_calls_ok [OF assms(1)]
    by (simp add: reveal_step_def ok_not_raised click_button_def)
next
  case ClickBg
  then show ?thesis using assms(1) closers_cases(3) [OF assms(1)] close_calls_ok [OF assms(1)]
    by (simp add: reveal_step_def ok_not_raised click_bg_def split: option.split)
next
  case (KeyUp k)
  then show ?thesis using assms(1) closers_cases(1) [OF assms(1)] close_calls_ok [OF assms(1)]
    by (simp add: reveal_step_def ok_not_raised keyup_def)
qed (use assms reveal_ms_ok [OF assms(1)] tick_modal_ok tick_bg_ok in
    \<open>simp_all add: reveal_step_def ok_not_raised reveal_ok_scroll allowed_def\<close>)

section \<open>What the user sees\<close>

text \<open>Events that end something open nothing and start no move.\<close>

definition frame :: "reveal_page \<Rightarrow> (bool \<times> move list) list \<times> bg_move list option" where
  "frame p = (map (\<lambda>d. (md_open d, md_queue d)) (rv_modals p), map_option bg_queue (rv_bg p))"

lemma frame_upd:
  "(\<And>d. md_open (f d) = md_open d \<and> md_queue (f d) = md_queue d) \<Longrightarrow> frame (upd_modal f m p) = frame p"
  "(\<And>b. bg_queue (g b) = bg_queue b) \<Longrightarrow> frame (upd_bg g p) = frame p" "frame (upd_call h c p) = frame p"
  "frame (p\<lparr>rv_log := l\<rparr>) = frame p" "frame (p\<lparr>rv_keys := k\<rparr>) = frame p" "frame (p\<lparr>rv_buttons := bs\<rparr>) = frame p"
  "frame (p\<lparr>rv_raised := r\<rparr>) = frame p" "frame (p\<lparr>rv_queued := u\<rparr>) = frame p"
proof -
  assume f: "\<And>d. md_open (f d) = md_open d \<and> md_queue (f d) = md_queue d"
  have "map (\<lambda>d. (md_open d, md_queue d)) ((rv_modals p)[m := f (rv_modals p ! m)]) = map (\<lambda>d. (md_open d, md_queue d)) (rv_modals p)"
    using f by (cases "m < modals p") (simp_all add: map_update list_update_same_conv list_update_beyond)
  then show "frame (upd_modal f m p) = frame p" by (simp add: frame_def upd_modal_def)
qed (auto simp: frame_def upd_bg_def upd_call_def option.map_comp o_def)

lemma run_end_frame [simp]: "frame (run_end c h p) = frame p"
  by (cases h) (auto simp: closeVideos_def unlockModal_def destroy_modal_def run_fn_def Let_def frame_upd split: list.split option.split)

lemma trigger_end_frame [simp]: "frame (trigger_end m e p) = frame p"
proof -
  have "frame (fold (\<lambda>(c, h). unless_raised (run_end c h)) hs p) = frame p" for hs
    by (induction hs arbitrary: p) (auto simp: unless_raised_def)
  then show ?thesis by (simp add: trigger_end_def trigger_by_def)
qed

lemma frame_reads:
  assumes "frame q = frame p"
  shows "modals q = modals p" "m < modals p \<Longrightarrow> md_open (modal_at m q) = md_open (modal_at m p)"
    "m < modals p \<Longrightarrow> md_queue (modal_at m q) = md_queue (modal_at m p)" "map_option bg_queue (rv_bg q) = map_option bg_queue (rv_bg p)"
proof -
  have l: "map (\<lambda>d. (md_open d, md_queue d)) (rv_modals q) = map (\<lambda>d. (md_open d, md_queue d)) (rv_modals p)"
    and "map_option bg_queue (rv_bg q) = map_option bg_queue (rv_bg p)" using assms by (simp_all add: frame_def)
  then show "modals q = modals p" "map_option bg_queue (rv_bg q) = map_option bg_queue (rv_bg p)"
    using map_eq_imp_length_eq by blast+
  then show "m < modals p \<Longrightarrow> md_open (modal_at m q) = md_open (modal_at m p)" "m < modals p \<Longrightarrow> md_queue (modal_at m q) = md_queue (modal_at m p)"
    using arg_cong [OF l, of "\<lambda>xs. xs ! m"] by (simp_all add: modal_at_def)
qed

lemma escape_closes:
  assumes "active T A c p" "is_shown c p" "calm p" "m = cl_modal (call_at c p)"
  shows "\<not> md_open (modal_at m (reveal_step (KeyUp 27) p))"
proof -
  have a: "c < calls p" "m < modals p" "\<not> rv_raised p" "bound_once c p" "rv_keys p = [c]"
    using assms by (auto simp: active_def bound_once_def belongs_to_def)
  note reads = moved_out_reads [OF a(1) assms(4) a(2)]
  have closed: "\<not> md_open (modal_at m (closeAnimation c p))"
  proof (cases "animation c p = ''none''")
    case False
    then show ?thesis by (simp add: closeAnimation_fades [OF assms(1-3)] rv_simps reads)
  next
    case True
    let ?r = "upd_bg (\<lambda>b. b\<lparr>bg_shown := False\<rparr>) (moved_out c p)"
    have "closeAnimation c p = unless_raised (\<lambda>p. p\<lparr>rv_queued := False\<rparr>) (trigger_end m EvClosed ?r)"
      using True assms(2,3,4) by (simp add: closeAnimation_def moved_out_def Let_def css_close_def lockModal_def rv_simps is_shown_def calm_def)
    then have "frame (closeAnimation c p) = frame ?r" by (simp add: unless_raised_def frame_upd)
    from frame_reads(2) [OF this, of m] show ?thesis using a(2) by (simp add: rv_simps reads)
  qed
  have s: "reveal_step (KeyUp 27) p = trigger_close m p"
    using a(3,5) by (simp add: reveal_step_def keyup_def close_calls_def assms(4))
  show ?thesis
  proof (cases "rv_raised (closeAnimation c p)")
    case True
    then have "trigger_close m p = closeAnimation c p"
      using a by (simp add: trigger_close_def trigger_by_def bound_to_def bindings_def bound_once_def assms(4) unless_raised_def)
    then show ?thesis using closed s by simp
  next
    case False
    then show ?thesis using trigger_close_once [OF a(4) assms(4) False] closed s by (simp add: rv_simps)
  qed
qed

text \<open>A page on which no dialog has been shown yet; \<open>T\<close> is where the dialogs are, \<open>A\<close> the addresses of their videos.\<close>

definition fresh_reveal :: "(nat \<Rightarrow> int) \<Rightarrow> (nat \<Rightarrow> string) \<Rightarrow> reveal_page \<Rightarrow> bool" where
  "fresh_reveal T A p \<longleftrightarrow> \<not> rv_raised p \<and> \<not> rv_queued p \<and> rv_calls p = [] \<and> rv_bg p = None \<and> rv_keys p = []
     \<and> list_all (\<lambda>b. snd b = []) (rv_buttons p)
     \<and> (\<forall>i < modals p. let d = modal_at i p in
          \<not> md_open d \<and> md_handlers d = [] \<and> md_queue d = [] \<and> \<not> md_shown d \<and> md_top d = T i \<and> video_of (A i) d)"

lemma fresh_reveal_ok: "fresh_reveal T A p \<Longrightarrow> reveal_ok T A p"
  by (simp add: fresh_reveal_def reveal_ok_def calm_def idle_def unbound_def others_rest_def at_rest_def hiding_def Let_def list_all_length)

lemma reveal_run_ok: "reveal_run p q \<Longrightarrow> reveal_ok T A p \<Longrightarrow> reveal_ok T A q"
  by (induction rule: reveal_run.induct) (simp_all add: reveal_step_ok)

text \<open>Nothing is open: everything is as it was before.\<close>

definition all_closed :: "(nat \<Rightarrow> int) \<Rightarrow> reveal_page \<Rightarrow> bool" where
  "all_closed T p \<longleftrightarrow> (\<forall>i < modals p. \<not> md_open (modal_at i p) \<and> \<not> md_shown (modal_at i p) \<and> md_top (modal_at i p) = T i
       \<and> md_handlers (modal_at i p) = [])
     \<and> rv_keys p = [] \<and> (\<forall>b. rv_bg p = Some b \<longrightarrow> \<not> bg_shown b \<and> bg_clicks b = [])"

text \<open>One dialog is shown in front of the background, and Escape closes it.\<close>

definition one_shown :: "reveal_page \<Rightarrow> bool" where
  "one_shown p \<longleftrightarrow> (\<exists>m < modals p. md_open (modal_at m p) \<and> md_shown (modal_at m p) \<and> md_opacity (modal_at m p) = 1
       \<and> \<not> md_open (modal_at m (reveal_step (KeyUp 27) p))
       \<and> (\<forall>i < modals p. i \<noteq> m \<longrightarrow> \<not> md_open (modal_at i p) \<and> \<not> md_shown (modal_at i p) \<and> md_handlers (modal_at i p) = []))
     \<and> (\<exists>b. rv_bg p = Some b \<and> bg_shown b)"

lemma rest_hidden: "at_rest T A p i \<Longrightarrow> quiet p \<Longrightarrow> i < modals p \<Longrightarrow> \<not> md_shown (modal_at i p)"
  by (auto simp: at_rest_def hiding_def quiet_def)

lemma quiet_end:
  assumes "reveal_ok T A p" "quiet p"
  shows "all_closed T p \<or> one_shown p"
  using assms
proof (cases rule: quiet_states)
  case 1
  then have "\<forall>i < modals p. at_rest T A p i" by (simp add: others_rest_def)
  then have "all_closed T p" using 1(1) assms(2) at_rest_quiet rest_hidden
    by (auto simp: all_closed_def idle_def unbound_def at_rest_def)
  then show ?thesis ..
next
  case (2 c)
  let ?m = "cl_modal (call_at c p)"
  have calm: "calm p" using assms(1) by (simp add: reveal_ok_def)
  have "?m < modals p" "\<exists>b. rv_bg p = Some b \<and> bg_shown b" using 2(1) by (auto simp: active_def bound_once_def belongs_to_def)
  moreover have "\<forall>i < modals p. i \<noteq> ?m \<longrightarrow> at_rest T A p i" using 2(3) by (simp add: others_rest_def)
  then have "\<forall>i < modals p. i \<noteq> ?m \<longrightarrow> \<not> md_open (modal_at i p) \<and> \<not> md_shown (modal_at i p) \<and> md_handlers (modal_at i p) = []"
    using rest_hidden assms(2) by (auto simp: at_rest_def)
  ultimately have "one_shown p" using 2(2) escape_closes [OF 2(1,2) calm refl] unfolding one_shown_def is_shown_def by blast
  then show ?thesis ..
qed

text \<open>The moves that have not ended.\<close>

definition moves :: "reveal_page \<Rightarrow> nat" where
  "moves p = sum_list (map (\<lambda>d. length (md_queue d)) (rv_modals p)) + (case rv_bg p of None \<Rightarrow> 0 | Some b \<Rightarrow> length (bg_queue b))"

lemma moves_frame: "frame q = frame p \<Longrightarrow> moves q = moves p"
proof -
  assume f: "frame q = frame p"
  have "moves r = sum_list (map (length \<circ> snd) (fst (frame r))) + (case snd (frame r) of None \<Rightarrow> 0 | Some b \<Rightarrow> length b)" for r
    by (simp add: moves_def frame_def o_def split: option.split)
  then show ?thesis using f by simp
qed

lemma moves_quiet: "moves p = 0 \<longleftrightarrow> quiet p"
  by (auto simp: moves_def quiet_def modal_at_def all_set_conv_all_nth split: option.split)

lemma sum_list_lower: "i < length xs \<Longrightarrow> xs ! i = Suc k \<Longrightarrow> Suc (sum_list (xs[i := k])) = sum_list xs"
  by (induction xs arbitrary: i) (auto split: nat.split)

lemma tick_modal_moves:
  assumes "\<not> rv_raised (tick_modal m p)" "m < modals p" "md_queue (modal_at m p) \<noteq> []"
  shows "Suc (moves (tick_modal m p)) = moves p"
proof -
  obtain x xs where x: "md_queue (modal_at m p) = x # xs" using assms(3) by (cases "md_queue (modal_at m p)") auto
  define q where "q = (case x of Wait \<Rightarrow> p
    | Glide t a e \<Rightarrow> at_end_of e (upd_modal (\<lambda>d. d\<lparr>md_top := case_option (md_top d) (\<lambda>y. y) t, md_opacity := a\<rparr>) m p))"
  have f: "frame q = frame p" by (cases x) (auto simp: q_def at_end_of_def css_close_def frame_upd split: at_end.split)
  have t: "tick_modal m p = unless_raised (upd_modal (\<lambda>d. d\<lparr>md_queue := tl (md_queue d)\<rparr>) m) q"
    using x by (simp add: tick_modal_def q_def Let_def)
  have nr: "\<not> rv_raised q" using assms(1) by (auto simp: t unless_raised_def split: if_splits)
  have m: "m < modals q" "md_queue (rv_modals q ! m) = x # xs" using frame_reads [OF f] assms(2) x by (simp_all add: modal_at_def)
  have "Suc (sum_list ((map (\<lambda>d. length (md_queue d)) (rv_modals q))[m := length xs])) = sum_list (map (\<lambda>d. length (md_queue d)) (rv_modals q))"
    by (rule sum_list_lower) (use m in simp_all)
  then have "Suc (moves (tick_modal m p)) = moves q"
    using nr m by (simp add: t moves_def upd_modal_def map_update)
  then show ?thesis using moves_frame [OF f] by simp
qed

lemma tick_bg_moves:
  assumes "\<not> rv_raised (tick_bg p)" "rv_bg p = Some b" "bg_queue b \<noteq> []"
  shows "Suc (moves (tick_bg p)) = moves p"
proof -
  obtain x xs where x: "bg_queue b = x # xs" using assms(3) by (cases "bg_queue b") auto
  define q where "q = (case x of BgFadeOut c \<Rightarrow> trigger_end (cl_modal (call_at c p)) EvClosed (upd_bg (\<lambda>b. b\<lparr>bg_shown := False\<rparr>) p) | _ \<Rightarrow> p)"
  have f: "frame q = frame p" by (cases x) (auto simp: q_def frame_upd)
  have t: "tick_bg p = unless_raised (upd_bg bg_next) q" using x assms(2) by (simp add: tick_bg_def q_def Let_def)
  have nr: "\<not> rv_raised q" using assms(1) by (auto simp: t unless_raised_def split: if_splits)
  obtain w where w: "rv_bg q = Some w" "bg_queue w = x # xs" using frame_reads(4) [OF f] assms(2) x by auto
  then have "Suc (moves (tick_bg p)) = moves q" using nr by (simp add: t moves_def upd_bg_def)
  then show ?thesis using moves_frame [OF f] by simp
qed

section \<open>Properties\<close>

text \<open>C30: However the user closes dialogs, whenever animations end, and whichever dialog is revealed when nothing moves: at most one
  dialog is open, it plays its own video, nothing raises, and when nothing moves any more, either all is as it was before, or
  the open dialog is shown and the key Escape closes it.\<close>

theorem reveal_one_dialog:
  assumes "fresh_reveal T A p" "reveal_run p q"
  shows "\<not> rv_raised q
    \<and> (\<forall>i < modals q. \<forall>j < modals q. md_open (modal_at i q) \<longrightarrow> md_open (modal_at j q) \<longrightarrow> i = j \<and> plays (A i) (modal_at i q))
    \<and> (quiet q \<longrightarrow> all_closed T q \<or> one_shown q)"
proof -
  have ok: "reveal_ok T A q" using reveal_run_ok [OF assms(2) fresh_reveal_ok [OF assms(1)]] .
  then have "\<not> rv_raised q" "quiet q \<Longrightarrow> all_closed T q \<or> one_shown q" by (rule ok_not_raised, rule quiet_end)
  moreover have "i < modals q \<Longrightarrow> j < modals q \<Longrightarrow> md_open (modal_at i q) \<Longrightarrow> md_open (modal_at j q) \<Longrightarrow> i = j \<and> plays (A i) (modal_at i q)" for i j
    using ok by (auto simp: reveal_ok_def others_rest_def at_rest_def active_def)
  ultimately show ?thesis by blast
qed


section \<open>Examples\<close>

definition demo_dialog :: "string \<Rightarrow> dialog" where
  "demo_dialog s = \<lparr>md_id = s, md_open = False, md_top = 100, md_height = 50, md_opacity = 1, md_shown = False,
     md_iframes = [\<lparr>if_src = Some s, if_data = None\<rparr>], md_video_shown = True, md_handlers = [], md_queue = []\<rparr>"

definition demo_reveal :: reveal_page where
  "demo_reveal = \<lparr>rv_modals = [demo_dialog ''a'', demo_dialog ''b''], rv_calls = [], rv_queued = False, rv_bg = None,
     rv_buttons = [(''close-reveal-modal'', [])], rv_keys = [], rv_scroll = 0, rv_log = [], rv_raised = False\<rparr>"

definition given :: "string option \<Rightarrow> given_opts" where
  "given a = \<lparr>go_animation = a, go_bg_click = None, go_dismiss = None\<rparr>"

definition demo_events :: "reveal_input list \<Rightarrow> reveal_page" where
  "demo_events es = fold reveal_step es demo_reveal"

abbreviation opens :: "string \<Rightarrow> reveal_input" where "opens s \<equiv> ClickLink s (given None)"

lemma demo_fresh_reveal: "fresh_reveal (\<lambda>i. 100) (\<lambda>i. if i = 0 then ''a'' else ''b'') demo_reveal"
  by (simp add: fresh_reveal_def demo_reveal_def demo_dialog_def modal_at_def All_less_Suc video_of_def Let_def)

lemma demo_run: "reveal_run demo_reveal (demo_events [opens ''a''])"
proof -
  have "allowed (opens ''a'') demo_reveal"
    by (simp add: allowed_def quiet_def demo_reveal_def demo_dialog_def modal_at_def All_less_Suc given_def)
  then show ?thesis unfolding demo_events_def using reveal_run.step [OF reveal_run.start] by simp
qed

lemma reveal_one_dialog_witness:
  "\<not> rv_raised (demo_events [opens ''a'']) \<and> md_open (modal_at 0 (demo_events [opens ''a''])) \<and> \<not> md_open (modal_at 1 (demo_events [opens ''a'']))"
proof -
  have s: "modals (demo_events [opens ''a'']) = 2" "md_open (modal_at 0 (demo_events [opens ''a'']))" by code_simp+
  note r = reveal_one_dialog [OF demo_fresh_reveal demo_run]
  from r [THEN conjunct2, THEN conjunct1, rule_format, of 0 1] s r show ?thesis by auto
qed


definition shows_dialogs :: "reveal_page \<Rightarrow> (bool \<times> bool \<times> nat) list" where
  "shows_dialogs p = map (\<lambda>d. (md_open d, md_shown d, length (md_handlers d))) (rv_modals p)"

text \<open>Opened, and closed again with the key.\<close>

lemma open_and_close:
  "shows_dialogs (demo_events [opens ''a'', TickModal 0, TickModal 0, TickBg]) = [(True, True, 11), (False, False, 0)]"
  "shows_dialogs (demo_events [opens ''a'', TickModal 0, TickModal 0, TickBg, KeyUp 27, TickModal 0, TickBg, TickBg, TickBg])
   = [(False, False, 0), (False, False, 0)]"
  by code_simp+

text \<open>A dialog that is revealed again while it is closing stays open without being visible and without handlers; nothing
  closes it, and it cannot be revealed any more.\<close>

definition reopened :: "reveal_input list" where
  "reopened = [opens ''a'', TickModal 0, TickModal 0, TickBg, TickBg, KeyUp 27, opens ''a'',
     TickModal 0, TickBg, TickBg, TickBg, TickModal 0, TickModal 0]"

lemma reopened_is_lost:
  "shows_dialogs (demo_events reopened) = [(True, False, 0), (False, False, 0)]"
  "rv_keys (demo_events reopened) = []"
  "demo_events (reopened @ [opens ''a'', KeyUp 27, ClickBg, ClickButton 0]) = demo_events reopened"
  by code_simp+

text \<open>A dialog revealed while another fades out loses the handlers of the close button, the background and the key.\<close>

lemma other_loses_closers:
  "let p = demo_events [opens ''a'', TickModal 0, TickModal 0, TickBg, TickBg, KeyUp 27, opens ''b'', TickModal 0, TickBg, TickBg,
       TickModal 1, TickModal 1]
   in shows_dialogs p = [(False, False, 0), (True, True, 11)] \<and> rv_keys p = [] \<and> map snd (rv_buttons p) = [[]]
      \<and> map_option bg_clicks (rv_bg p) = Some []"
  by code_simp

text \<open>A dialog revealed while another one is still opening: both are open.\<close>

lemma both_open: "map md_open (rv_modals (demo_events [opens ''a'', opens ''b''])) = [True, True]"
  by code_simp

text \<open>With the name of an animation that is not known the dialog is open, invisible and locked for ever.\<close>

lemma unknown_animation_locks:
  "let p = demo_events [Reveal (given (Some ''slide'')) [0], KeyUp 27]
   in shows_dialogs p = [(True, False, 11), (False, False, 0)] \<and> map cl_locked (rv_calls p) = [True] \<and> moves p = 1"
  by code_simp

text \<open>Two videos in a dialog: after it was closed and opened again both play the first.\<close>

lemma second_video_lost:
  "let p0 = upd_modal (\<lambda>d. d\<lparr>md_iframes := [\<lparr>if_src = Some ''x'', if_data = None\<rparr>, \<lparr>if_src = Some ''y'', if_data = None\<rparr>]\<rparr>) 0 demo_reveal;
       es = [Reveal (given (Some ''none'')) [0], KeyUp 27, Reveal (given (Some ''none'')) [0]]
   in map if_src (md_iframes (modal_at 0 (fold reveal_step es p0))) = [Some ''x'', Some ''x'']"
  by code_simp

end
