(* ===== verification/FdTooltips.thy ===== *)
theory FdTooltips
  imports JqClass Complex_Main "HOL-Library.Sublist"
begin

text \<open>
  \<open>jquery.foundation.tooltips.js\<close>. The targets (\<open>.has-tip\<close>) are in the order of the document, the tips in the order in which they were
  added to the body. A target carries the string that \<open>Math.random\<close> gives when it is asked for it. Sizes and positions are what the
  browser measures. A function gives the page and the exception, if one was raised.
\<close>

section \<open>The page\<close>

record tip_box =
  tb_top :: rat
  tb_left :: rat
  tb_width :: "rat option"
  tb_override :: bool

record nub_box =
  nb_top :: "rat option"
  nb_right :: "rat option"
  nb_bottom :: "rat option"
  nb_left :: "rat option"

text \<open>What is measured when a tip is placed; \<open>ms_tip_height\<close> and \<open>ms_tip_width\<close> with the width of the target's data.\<close>

record measures =
  ms_top :: rat
  ms_left :: rat
  ms_height :: rat
  ms_width :: rat
  ms_tip_height :: rat
  ms_tip_width :: rat
  ms_nub_height :: rat
  ms_window :: rat
  ms_column :: "rat option"
  ms_data_width :: "rat option"

record tip_target =
  tg_id :: "string option"
  tg_selector :: "string option"
  tg_random :: string
  tg_title :: "string option"
  tg_class :: string
  tg_measures :: measures

record ft_tip =
  tp_selector :: string
  tp_text :: string
  tp_class :: string
  tp_shown :: bool
  tp_box :: tip_box
  tp_nub :: nub_box

record tip_page =
  ty_targets :: "tip_target list"
  ty_tips :: "ft_tip list"
  ty_touch :: bool
  ty_bound :: nat
  ty_data :: bool

type_synonym tip_result = "tip_page \<times> js_error option"

definition and_then :: "tip_result \<Rightarrow> (tip_page \<Rightarrow> tip_result) \<Rightarrow> tip_result" where
  "and_then r f = (case r of (p, None) \<Rightarrow> f p | (p, Some e) \<Rightarrow> (p, Some e))"

section \<open>The tip of a target\<close>

text \<open>\<open>selector\<close>: the id, or the data, or a new name; possibly \<open>undefined\<close>.\<close>

definition tip_selector :: "tip_target \<Rightarrow> tip_target \<times> string option" where
  "tip_selector t =
     (let u = (if tg_id t = None \<and> tg_selector t = None then t\<lparr>tg_selector := Some (tg_random t)\<rparr> else t)
      in (u, case tg_id u of Some i \<Rightarrow> if i \<noteq> [] then Some i else tg_selector u | None \<Rightarrow> tg_selector u))"

text \<open>The value of \<open>[data-selector=...]\<close> has no quotes: it must be an identifier.\<close>

definition ident_ok :: "string \<Rightarrow> bool" where
  "ident_ok s \<longleftrightarrow> s \<noteq> [] \<and> list_all (\<lambda>c. is_word_char c \<or> c = CHR ''-'') s"

definition tips_for :: "string \<Rightarrow> tip_page \<Rightarrow> nat list" where
  "tips_for s p = [j \<leftarrow> [0..<length (ty_tips p)]. tp_selector (ty_tips p ! j) = s]"

text \<open>\<open>getTip\<close>: without a selector \<open>tip.length\<close> raises; an empty list stands for \<open>false\<close>.\<close>

definition getTip :: "nat \<Rightarrow> tip_page \<Rightarrow> tip_page \<times> (js_error + nat list)" where
  "getTip i p =
     (case tip_selector (ty_targets p ! i) of
        (t, s) \<Rightarrow>
          (p\<lparr>ty_targets := (ty_targets p)[i := t]\<rparr>,
           case s of
             None \<Rightarrow> Inl TypeError
           | Some x \<Rightarrow> if x = [] then Inl TypeError else if ident_ok x then Inr (tips_for x p) else Inl (JsError ''Syntax error'')))"

section \<open>\<open>reposition\<close>\<close>

text \<open>\<open>classes.indexOf(s) > -1\<close>: in the whole attribute, not by names.\<close>

definition has_part :: "string \<Rightarrow> string \<Rightarrow> bool" where
  "has_part s t \<longleftrightarrow> list_ex (\<lambda>u. prefix s u) (suffixes t)"

text \<open>A column that is not there has the width \<open>null\<close>; a width below zero is zero.\<close>

definition reposition :: "measures \<Rightarrow> string \<Rightarrow> bool \<Rightarrow> tip_box \<times> nub_box" where
  "reposition m classes override =
     (let below = \<lparr>tb_top = ms_top m + ms_height m + 10, tb_left = ms_left m, tb_width = ms_data_width m, tb_override = override\<rparr>;
          middle = ms_top m + ms_height m / 2 - ms_nub_height m;
          nub_middle = ms_tip_height m / 2 - ms_nub_height m / 2;
          h = ms_nub_height m
      in if ms_window m < 767 then
           (below\<lparr>tb_left := 15, tb_width := Some (max 0 ((case ms_column m of None \<Rightarrow> 0 | Some w \<Rightarrow> w) - 25)), tb_override := True\<rparr>,
            \<lparr>nb_top = Some (- h), nb_right = None, nb_bottom = None, nb_left = Some (ms_left m)\<rparr>)
         else if has_part ''tip-top'' classes then
           (below\<lparr>tb_top := ms_top m - ms_tip_height m - h, tb_override := False\<rparr>,
            \<lparr>nb_top = None, nb_right = None, nb_bottom = Some (- h), nb_left = None\<rparr>)
         else if has_part ''tip-left'' classes then
           (below\<lparr>tb_top := middle, tb_left := ms_left m - ms_tip_width m - 10, tb_override := False\<rparr>,
            \<lparr>nb_top = Some nub_middle, nb_right = Some (- h), nb_bottom = None, nb_left = None\<rparr>)
         else if has_part ''tip-right'' classes then
           (below\<lparr>tb_top := middle, tb_left := ms_left m + ms_width m + 10, tb_override := False\<rparr>,
            \<lparr>nb_top = Some nub_middle, nb_right = None, nb_bottom = None, nb_left = Some (- h)\<rparr>)
         else (below, \<lparr>nb_top = Some (- h), nb_right = None, nb_bottom = None, nb_left = Some 10\<rparr>))"

section \<open>Showing and hiding\<close>

definition upd_tips :: "(ft_tip \<Rightarrow> ft_tip) \<Rightarrow> nat list \<Rightarrow> tip_page \<Rightarrow> tip_page" where
  "upd_tips f js p = p\<lparr>ty_tips := fold (\<lambda>j ts. ts[j := f (ts ! j)]) js (ty_tips p)\<rparr>"

definition place_tip :: "tip_target \<Rightarrow> ft_tip \<Rightarrow> ft_tip" where
  "place_tip t x = (case reposition (tg_measures t) (tg_class t) (tb_override (tp_box x)) of (b, n) \<Rightarrow> x\<lparr>tp_box := b, tp_nub := n, tp_shown := True\<rparr>)"

definition show_tip :: "nat \<Rightarrow> tip_page \<Rightarrow> tip_result" where
  "show_tip i p =
     (case getTip i p of
        (q, Inl e) \<Rightarrow> (q, Some e)
      | (q, Inr js) \<Rightarrow> if js = [] then (q, Some TypeError) else (upd_tips (place_tip (ty_targets q ! i)) js q, None))"

definition hide_tip :: "nat \<Rightarrow> tip_page \<Rightarrow> tip_result" where
  "hide_tip i p =
     (case getTip i p of
        (q, Inl e) \<Rightarrow> (q, Some e)
      | (q, Inr js) \<Rightarrow> if js = [] then (q, Some TypeError) else (upd_tips (\<lambda>x. x\<lparr>tp_shown := False\<rparr>) js q, None))"

fun blank_join :: "string list \<Rightarrow> string" where
  "blank_join [] = []"
| "blank_join [w] = w"
| "blank_join (w # ws) = w @ '' '' @ blank_join ws"

definition inheritable_classes :: "string \<Rightarrow> string" where
  "inheritable_classes c = jq_trim (blank_join (filter (\<lambda>w. w \<in> set [''tip-top'', ''tip-left'', ''tip-bottom'', ''tip-right'', ''noradius''])
     (split_at CHR '' '' c)))"

definition no_box :: tip_box where
  "no_box = \<lparr>tb_top = 0, tb_left = 0, tb_width = None, tb_override = False\<rparr>"

definition no_nub :: nub_box where
  "no_nub = \<lparr>nb_top = None, nb_right = None, nb_bottom = None, nb_left = None\<rparr>"

definition create_tip :: "nat \<Rightarrow> tip_page \<Rightarrow> tip_result" where
  "create_tip i p =
     (case tip_selector (ty_targets p ! i) of
        (t, s) \<Rightarrow>
          let x = \<lparr>tp_selector = (case s of None \<Rightarrow> ''undefined'' | Some n \<Rightarrow> n),
                   tp_text = (case tg_title t of None \<Rightarrow> [] | Some w \<Rightarrow> w) @ (if ty_touch p then ''tap to close '' else []),
                   tp_class = addClass (inheritable_classes (tg_class t)) ''tooltip'', tp_shown = True, tp_box = no_box, tp_nub = no_nub\<rparr>
          in show_tip i (p\<lparr>ty_targets := (ty_targets p)[i := t\<lparr>tg_title := None\<rparr>], ty_tips := ty_tips p @ [x]\<rparr>))"

definition showOrCreateTip :: "nat \<Rightarrow> tip_page \<Rightarrow> tip_result" where
  "showOrCreateTip i p =
     (case getTip i p of
        (q, Inl e) \<Rightarrow> (q, Some e)
      | (q, Inr js) \<Rightarrow> if js \<noteq> [] then show_tip i q else create_tip i q)"

section \<open>The plugin and its handlers\<close>

definition tips_init :: "tip_page \<Rightarrow> tip_page" where
  "tips_init p = p\<lparr>ty_bound := Suc (ty_bound p), ty_data := True\<rparr>"

text \<open>\<open>destroy\<close>: the n-th tip gives its text to the n-th target; the handlers are on the body and stay.\<close>

fun give_back :: "ft_tip list \<Rightarrow> tip_target list \<Rightarrow> tip_target list" where
  "give_back (x # xs) (t # ts) = t\<lparr>tg_title := Some (tp_text x)\<rparr> # give_back xs ts"
| "give_back xs ts = ts"

definition tips_destroy :: "tip_page \<Rightarrow> tip_page" where
  "tips_destroy p = p\<lparr>ty_targets := give_back (ty_tips p) (ty_targets p), ty_tips := []\<rparr>"

definition tip_reload :: "tip_page \<Rightarrow> tip_page" where
  "tip_reload p = (if ty_data p then tips_init (tips_destroy p) else tips_init p)"

definition hide_all :: "tip_page \<Rightarrow> tip_page" where
  "hide_all p = p\<lparr>ty_tips := map (\<lambda>x. x\<lparr>tp_shown := False\<rparr>) (ty_tips p)\<rparr>"

fun times_tip :: "nat \<Rightarrow> (tip_page \<Rightarrow> tip_result) \<Rightarrow> tip_page \<Rightarrow> tip_result" where
  "times_tip 0 f p = (p, None)"
| "times_tip (Suc n) f p = and_then (f p) (times_tip n f)"

datatype hover_event = TipInit | TipDestroy | TipReload | Enter nat | Leave nat | Touch nat | TapTip nat

definition tip_step :: "hover_event \<Rightarrow> tip_page \<Rightarrow> tip_result" where
  "tip_step e p =
     (case e of
        TipInit \<Rightarrow> (tips_init p, None)
      | TipDestroy \<Rightarrow> (tips_destroy p, None)
      | TipReload \<Rightarrow> (tip_reload p, None)
      | Enter i \<Rightarrow> if ty_touch p then (p, None) else times_tip (ty_bound p) (showOrCreateTip i) p
      | Leave i \<Rightarrow> if ty_touch p then (p, None) else times_tip (ty_bound p) (hide_tip i) p
      | Touch i \<Rightarrow> if ty_touch p then times_tip (ty_bound p) (\<lambda>q. showOrCreateTip i (hide_all q)) p else (p, None)
      | TapTip j \<Rightarrow> if ty_touch p \<and> ty_bound p > 0 \<and> j < length (ty_tips p) then (upd_tips (\<lambda>x. x\<lparr>tp_shown := False\<rparr>) [j] p, None) else (p, None))"

fun tip_run :: "hover_event list \<Rightarrow> tip_page \<Rightarrow> tip_result" where
  "tip_run [] p = (p, None)"
| "tip_run (e # es) p = and_then (tip_step e p) (tip_run es)"

section \<open>Where a tip is\<close>

definition apart :: "measures \<Rightarrow> tip_box \<Rightarrow> bool" where
  "apart m b \<longleftrightarrow> ms_top m + ms_height m \<le> tb_top b \<or> tb_top b + ms_tip_height m \<le> ms_top m
     \<or> ms_left m + ms_width m \<le> tb_left b \<or> tb_left b + ms_tip_width m \<le> ms_left m"


section \<open>One tip for each target\<close>

definition target_key :: "tip_target \<Rightarrow> string" where
  "target_key t =
     (case tg_id t of
        Some i \<Rightarrow> if i \<noteq> [] then i else (case tg_selector t of None \<Rightarrow> [] | Some s \<Rightarrow> s)
      | None \<Rightarrow> (case tg_selector t of None \<Rightarrow> tg_random t | Some s \<Rightarrow> s))"

definition start_targets :: "tip_page \<Rightarrow> bool" where
  "start_targets p \<longleftrightarrow> list_all (\<lambda>t. ident_ok (target_key t)) (ty_targets p) \<and> distinct (map target_key (ty_targets p)) \<and> ty_tips p = []"

text \<open>The targets that were pointed at, in this order, and those whose tip is to be seen.\<close>

type_synonym hover_state = "nat list \<times> nat list"

definition hover_step :: "bool \<Rightarrow> hover_event \<Rightarrow> hover_state \<Rightarrow> hover_state" where
  "hover_step touch e s =
     (case s of (seen, on) \<Rightarrow>
        let meet = (\<lambda>i. if i \<in> set seen then seen else seen @ [i])
        in case e of
             Enter i \<Rightarrow> if touch then s else (meet i, i # on)
           | Leave i \<Rightarrow> if touch then s else (seen, removeAll i on)
           | Touch i \<Rightarrow> if touch then (meet i, [i]) else s
           | TapTip j \<Rightarrow> if touch \<and> j < length seen then (seen, removeAll (seen ! j) on) else s
           | _ \<Rightarrow> s)"

text \<open>The mouse leaves only what it entered; the plugin is not destroyed.\<close>

fun pointing :: "nat \<Rightarrow> bool \<Rightarrow> hover_event list \<Rightarrow> hover_state \<Rightarrow> bool" where
  "pointing n touch [] s = True"
| "pointing n touch (e # es) s =
     ((case e of Enter i \<Rightarrow> i < n | Touch i \<Rightarrow> i < n | Leave i \<Rightarrow> touch \<or> i \<in> set (fst s) | TapTip j \<Rightarrow> True | TipInit \<Rightarrow> True | _ \<Rightarrow> False)
      \<and> pointing n touch es (hover_step touch e s))"

definition tip_of :: "bool \<Rightarrow> tip_target \<Rightarrow> string \<times> string" where
  "tip_of touch t = (target_key t, (case tg_title t of None \<Rightarrow> [] | Some w \<Rightarrow> w) @ (if touch then ''tap to close '' else []))"

definition tips_follow :: "tip_page \<Rightarrow> hover_state \<Rightarrow> tip_page \<Rightarrow> bool" where
  "tips_follow p0 s p \<longleftrightarrow> ty_touch p = ty_touch p0 \<and> length (ty_targets p) = length (ty_targets p0)
     \<and> (\<forall>i < length (ty_targets p0). target_key (ty_targets p ! i) = target_key (ty_targets p0 ! i)
          \<and> tg_title (ty_targets p ! i) = (if i \<in> set (fst s) then None else tg_title (ty_targets p0 ! i)))
     \<and> distinct (fst s) \<and> set (fst s) \<subseteq> {..<length (ty_targets p0)} \<and> length (ty_tips p) = length (fst s)
     \<and> (\<forall>j < length (fst s). (tp_selector (ty_tips p ! j), tp_text (ty_tips p ! j)) = tip_of (ty_touch p0) (ty_targets p0 ! (fst s ! j))
          \<and> tp_shown (ty_tips p ! j) = (fst s ! j \<in> set (snd s)))"

lemma selector_key:
  assumes "ident_ok (target_key t)"
  shows "\<exists>u. tip_selector t = (u, Some (target_key t)) \<and> target_key u = target_key t \<and> tg_title u = tg_title t \<and> tip_selector u = (u, Some (target_key t))"
  using assms by (auto simp: tip_selector_def target_key_def ident_ok_def Let_def split: option.splits if_splits)

lemma key_index: "start_targets p0 \<Longrightarrow> i < length (ty_targets p0) \<Longrightarrow> j < length (ty_targets p0)
  \<Longrightarrow> target_key (ty_targets p0 ! i) = target_key (ty_targets p0 ! j) \<longleftrightarrow> i = j"
  using nth_eq_iff_index_eq [of "map target_key (ty_targets p0)" i j] by (simp add: start_targets_def)

lemma key_ok: "start_targets p0 \<Longrightarrow> i < length (ty_targets p0) \<Longrightarrow> ident_ok (target_key (ty_targets p0 ! i))"
  by (simp add: start_targets_def list_all_length)

lemma follow_tips_for:
  assumes "start_targets p0" "tips_follow p0 s p" "i < length (ty_targets p0)"
  shows "tips_for (target_key (ty_targets p0 ! i)) p = [j \<leftarrow> [0..<length (fst s)]. fst s ! j = i]"
proof -
  have sub: "set (fst s) \<subseteq> {..<length (ty_targets p0)}" using assms(2) by (simp add: tips_follow_def)
  have "tp_selector (ty_tips p ! j) = target_key (ty_targets p0 ! i) \<longleftrightarrow> fst s ! j = i" if "j < length (fst s)" for j
  proof -
    have "fst s ! j < length (ty_targets p0)" using nth_mem [OF that] sub by auto
    then show ?thesis using assms(2) that key_index [OF assms(1) _ assms(3)] by (auto simp: tips_follow_def tip_of_def)
  qed
  then show ?thesis using assms(2) by (auto simp: tips_for_def tips_follow_def intro: filter_cong)
qed

lemma index_filter:
  assumes "distinct xs"
  shows "i \<notin> set xs \<Longrightarrow> [j \<leftarrow> [0..<length xs]. xs ! j = i] = []"
    "k < length xs \<Longrightarrow> [j \<leftarrow> [0..<length xs]. xs ! j = xs ! k] = [k]"
proof -
  show "i \<notin> set xs \<Longrightarrow> [j \<leftarrow> [0..<length xs]. xs ! j = i] = []" by (auto simp: filter_empty_conv)
  assume k: "k < length xs"
  have "[j \<leftarrow> [0..<length xs]. xs ! j = xs ! k] = [j \<leftarrow> [0..<length xs]. j = k]"
    using nth_eq_iff_index_eq [OF assms _ k] by (intro filter_cong) auto
  also have "\<dots> = [k]" using k by (induction xs) (auto simp: less_Suc_eq filter_empty_conv)
  finally show "[j \<leftarrow> [0..<length xs]. xs ! j = xs ! k] = [k]" .
qed

lemma getTip_follow:
  assumes "start_targets p0" "tips_follow p0 s p" "i < length (ty_targets p0)"
  shows "\<exists>q. getTip i p = (q, Inr [j \<leftarrow> [0..<length (fst s)]. fst s ! j = i]) \<and> tips_follow p0 s q \<and> ty_tips q = ty_tips p
    \<and> ty_bound q = ty_bound p \<and> ty_touch q = ty_touch p \<and> tip_selector (ty_targets q ! i) = (ty_targets q ! i, Some (target_key (ty_targets p0 ! i)))"
proof -
  have key: "target_key (ty_targets p ! i) = target_key (ty_targets p0 ! i)" and l: "i < length (ty_targets p)"
    using assms(2,3) by (auto simp: tips_follow_def)
  have ok: "ident_ok (target_key (ty_targets p ! i))" using key_ok [OF assms(1,3)] key by simp
  obtain u where u: "tip_selector (ty_targets p ! i) = (u, Some (target_key (ty_targets p0 ! i)))" "target_key u = target_key (ty_targets p0 ! i)"
    "tg_title u = tg_title (ty_targets p ! i)" "tip_selector u = (u, Some (target_key (ty_targets p0 ! i)))"
    using selector_key [OF ok] key by auto
  let ?q = "p\<lparr>ty_targets := (ty_targets p)[i := u]\<rparr>"
  have "tips_follow p0 s ?q" using assms(2,3) u(2,3) key by (auto simp: tips_follow_def nth_list_update)
  moreover have "target_key (ty_targets p0 ! i) \<noteq> []" using ok key by (simp add: ident_ok_def)
  ultimately show ?thesis using u ok key l follow_tips_for [OF assms] by (auto simp: getTip_def)
qed

lemma follow_set: "tips_follow p0 (seen, on) p \<Longrightarrow> set on = set on' \<Longrightarrow> tips_follow p0 (seen, on') p"
  by (simp add: tips_follow_def)

text \<open>Tips that are changed where they are.\<close>

lemma upd_one_tip: "upd_tips f [j] p = p\<lparr>ty_tips := (ty_tips p)[j := f (ty_tips p ! j)]\<rparr>"
  by (simp add: upd_tips_def)

lemma follow_upd:
  assumes "tips_follow p0 (seen, on) p" "j < length seen" "tp_selector (f (ty_tips p ! j)) = tp_selector (ty_tips p ! j)"
    "tp_text (f (ty_tips p ! j)) = tp_text (ty_tips p ! j)" "tp_shown (f (ty_tips p ! j)) = (seen ! j \<in> set on')"
    "\<And>k. k \<noteq> seen ! j \<Longrightarrow> k \<in> set on' \<longleftrightarrow> k \<in> set on"
  shows "tips_follow p0 (seen, on') (upd_tips f [j] p)"
proof -
  have d: "distinct seen" using assms(1) by (simp add: tips_follow_def)
  have "seen ! k \<noteq> seen ! j" if "k < length seen" "k \<noteq> j" for k using nth_eq_iff_index_eq [OF d that(1) assms(2)] that(2) by simp
  then show ?thesis using assms unfolding upd_one_tip by (auto simp: tips_follow_def tip_of_def nth_list_update)
qed

lemma show_follow:
  assumes "start_targets p0" "tips_follow p0 (seen, on) p" "i \<in> set seen"
  shows "\<exists>q. show_tip i p = (q, None) \<and> tips_follow p0 (seen, i # on) q \<and> ty_bound q = ty_bound p"
proof -
  have i: "i < length (ty_targets p0)" and d: "distinct seen" using assms(2,3) by (auto simp: tips_follow_def)
  obtain k where k: "k < length seen" "i = seen ! k" using assms(3) by (auto simp: in_set_conv_nth)
  obtain q where q: "getTip i p = (q, Inr [j \<leftarrow> [0..<length seen]. seen ! j = i])" "tips_follow p0 (seen, on) q" "ty_bound q = ty_bound p"
    using getTip_follow [OF assms(1,2) i] by auto
  have "getTip i p = (q, Inr [k])" using q(1) index_filter(2) [OF d k(1)] k(2) by simp
  moreover have "tips_follow p0 (seen, i # on) (upd_tips (place_tip (ty_targets q ! i)) [k] q)"
    using k by (intro follow_upd [OF q(2)]) (auto simp: place_tip_def split: prod.split)
  ultimately show ?thesis using q(3) by (simp add: show_tip_def upd_one_tip)
qed

lemma hide_follow:
  assumes "start_targets p0" "tips_follow p0 (seen, on) p" "i \<in> set seen"
  shows "\<exists>q. hide_tip i p = (q, None) \<and> tips_follow p0 (seen, removeAll i on) q \<and> ty_bound q = ty_bound p"
proof -
  have i: "i < length (ty_targets p0)" and d: "distinct seen" using assms(2,3) by (auto simp: tips_follow_def)
  obtain k where k: "k < length seen" "i = seen ! k" using assms(3) by (auto simp: in_set_conv_nth)
  obtain q where q: "getTip i p = (q, Inr [j \<leftarrow> [0..<length seen]. seen ! j = i])" "tips_follow p0 (seen, on) q" "ty_bound q = ty_bound p"
    using getTip_follow [OF assms(1,2) i] by auto
  have "getTip i p = (q, Inr [k])" using q(1) index_filter(2) [OF d k(1)] k(2) by simp
  moreover have "tips_follow p0 (seen, removeAll i on) (upd_tips (\<lambda>x. x\<lparr>tp_shown := False\<rparr>) [k] q)"
    using k by (intro follow_upd [OF q(2)]) auto
  ultimately show ?thesis using q(3) by (simp add: hide_tip_def upd_one_tip)
qed

lemma create_follow:
  assumes "start_targets p0" "tips_follow p0 (seen, on) p" "i \<notin> set seen" "i < length (ty_targets p0)"
    "tip_selector (ty_targets p ! i) = (ty_targets p ! i, Some (target_key (ty_targets p0 ! i)))"
  shows "\<exists>q. create_tip i p = (q, None) \<and> tips_follow p0 (seen @ [i], i # on) q \<and> ty_bound q = ty_bound p"
proof -
  let ?t = "ty_targets p ! i"
  let ?x = "\<lparr>tp_selector = target_key (ty_targets p0 ! i),
             tp_text = (case tg_title ?t of None \<Rightarrow> [] | Some w \<Rightarrow> w) @ (if ty_touch p then ''tap to close '' else []),
             tp_class = addClass (inheritable_classes (tg_class ?t)) ''tooltip'', tp_shown = True, tp_box = no_box, tp_nub = no_nub\<rparr>"
  let ?p = "p\<lparr>ty_targets := (ty_targets p)[i := ?t\<lparr>tg_title := None\<rparr>], ty_tips := ty_tips p @ [?x]\<rparr>"
  have f: "ty_touch p = ty_touch p0" "length (ty_tips p) = length seen" "tg_title ?t = tg_title (ty_targets p0 ! i)"
    "target_key ?t = target_key (ty_targets p0 ! i)" "length (ty_targets p) = length (ty_targets p0)"
    using assms(2,3,4) by (auto simp: tips_follow_def)
  have k: "target_key (?t\<lparr>tg_title := None\<rparr>) = target_key ?t" by (simp add: target_key_def cong: option.case_cong if_cong)
  have ne: "seen ! j \<noteq> i" if "j < length seen" for j using that assms(3) nth_mem by metis
  have "tips_follow p0 (seen @ [i], i # on) ?p"
    using assms(2,3,4) f k ne by (auto simp: tips_follow_def nth_append nth_list_update tip_of_def less_Suc_eq)
  from show_follow [OF assms(1) this, of i] obtain q where "show_tip i ?p = (q, None)" "tips_follow p0 (seen @ [i], i # i # on) q" "ty_bound q = ty_bound p"
    by auto
  moreover have "create_tip i p = show_tip i ?p" using assms(5) by (simp add: create_tip_def)
  ultimately show ?thesis using follow_set [of p0 "seen @ [i]" "i # i # on" q "i # on"] by auto
qed

lemma meet_follow:
  assumes "start_targets p0" "tips_follow p0 (seen, on) p" "i < length (ty_targets p0)"
  shows "\<exists>q. showOrCreateTip i p = (q, None) \<and> tips_follow p0 (if i \<in> set seen then seen else seen @ [i], i # on) q \<and> ty_bound q = ty_bound p"
proof -
  have d: "distinct seen" using assms(2) by (simp add: tips_follow_def)
  obtain q where q: "getTip i p = (q, Inr [j \<leftarrow> [0..<length seen]. seen ! j = i])" "tips_follow p0 (seen, on) q" "ty_bound q = ty_bound p"
    "tip_selector (ty_targets q ! i) = (ty_targets q ! i, Some (target_key (ty_targets p0 ! i)))"
    using getTip_follow [OF assms] by auto
  show ?thesis
  proof (cases "i \<in> set seen")
    case True
    then obtain k where k: "k < length seen" "i = seen ! k" by (auto simp: in_set_conv_nth)
    then show ?thesis using q index_filter(2) [OF d k(1)] show_follow [OF assms(1) q(2) True] True by (simp add: showOrCreateTip_def)
  next
    case False
    then show ?thesis using q index_filter(1) [OF d False] create_follow [OF assms(1) q(2) False assms(3) q(4)] by (simp add: showOrCreateTip_def)
  qed
qed

lemma follow_hide_all: "tips_follow p0 (seen, on) p \<Longrightarrow> tips_follow p0 (seen, []) (hide_all p)"
  by (auto simp: tips_follow_def hide_all_def)

text \<open>A handler that is bound several times does the same again.\<close>

lemma times_follow:
  assumes "\<And>q. tips_follow p0 s q \<or> tips_follow p0 s' q \<Longrightarrow> \<exists>z. f q = (z, None) \<and> tips_follow p0 s' z \<and> ty_bound z = ty_bound q"
    "tips_follow p0 s p"
  shows "\<exists>z. times_tip (Suc n) f p = (z, None) \<and> tips_follow p0 s' z \<and> ty_bound z = ty_bound p"
  using assms(2)
proof (induction n)
  case 0
  then show ?case using assms(1) [of p] by (auto simp: and_then_def)
next
  case (Suc n)
  have again: "\<exists>z. times_tip n f q = (z, None) \<and> tips_follow p0 s' z \<and> ty_bound z = ty_bound q" if "tips_follow p0 s' q" for n q
    using that
  proof (induction n arbitrary: q)
    case (Suc n)
    then show ?case using assms(1) [of q] by (fastforce simp: and_then_def)
  qed simp
  obtain q where "f p = (q, None)" "tips_follow p0 s' q" "ty_bound q = ty_bound p" using assms(1) [of p] Suc.prems by blast
  then show ?case using again [of q "Suc n"] by (simp add: and_then_def)
qed

lemma step_follow:
  assumes "start_targets p0" "tips_follow p0 s p" "ty_bound p > 0" "pointing (length (ty_targets p0)) (ty_touch p0) (e # es) s"
  shows "\<exists>q. tip_step e p = (q, None) \<and> tips_follow p0 (hover_step (ty_touch p0) e s) q \<and> ty_bound q > 0"
proof -
  obtain seen on where s: "s = (seen, on)" by (cases s)
  have t: "ty_touch p = ty_touch p0" using assms(2) by (simp add: tips_follow_def)
  obtain n where n: "ty_bound p = Suc n" using assms(3) by (cases "ty_bound p") auto
  let ?meet = "\<lambda>i. if i \<in> set seen then seen else seen @ [i]"
  have fs: "tips_follow p0 (seen, on) p" using assms(2) s by simp
  show ?thesis
  proof (cases e)
    case (Enter i)
    then have i: "i < length (ty_targets p0)" using assms(4) by simp
    have "\<exists>z. times_tip (Suc n) (showOrCreateTip i) p = (z, None) \<and> tips_follow p0 (?meet i, i # on) z \<and> ty_bound z = ty_bound p"
    proof (rule times_follow [OF _ fs])
      fix q assume "tips_follow p0 (seen, on) q \<or> tips_follow p0 (?meet i, i # on) q"
      then show "\<exists>z. showOrCreateTip i q = (z, None) \<and> tips_follow p0 (?meet i, i # on) z \<and> ty_bound z = ty_bound q"
      proof
        assume "tips_follow p0 (?meet i, i # on) q"
        from meet_follow [OF assms(1) this i] show ?thesis by (auto intro: follow_set split: if_splits)
      qed (rule meet_follow [OF assms(1) _ i])
    qed
    then show ?thesis using Enter n t s assms(2,3) by (auto simp: tip_step_def hover_step_def)
  next
    case (Leave i)
    show ?thesis
    proof (cases "ty_touch p0")
      case False
      then have i: "i \<in> set seen" using Leave assms(4) s by simp
      have "\<exists>z. times_tip (Suc n) (hide_tip i) p = (z, None) \<and> tips_follow p0 (seen, removeAll i on) z \<and> ty_bound z = ty_bound p"
      proof (rule times_follow [OF _ fs])
        fix q assume "tips_follow p0 (seen, on) q \<or> tips_follow p0 (seen, removeAll i on) q"
        then show "\<exists>z. hide_tip i q = (z, None) \<and> tips_follow p0 (seen, removeAll i on) z \<and> ty_bound z = ty_bound q"
          using hide_follow [OF assms(1) _ i, of on q] hide_follow [OF assms(1) _ i, of "removeAll i on" q] by auto
      qed
      then show ?thesis using Leave n t s False by (auto simp: tip_step_def hover_step_def)
    next
      case True
      then show ?thesis using Leave t s assms(2,3) by (auto simp: tip_step_def hover_step_def)
    qed
  next
    case (Touch i)
    then have i: "i < length (ty_targets p0)" using assms(4) by simp
    have "\<exists>z. times_tip (Suc n) (\<lambda>q. showOrCreateTip i (hide_all q)) p = (z, None) \<and> tips_follow p0 (?meet i, [i]) z \<and> ty_bound z = ty_bound p"
    proof (rule times_follow [OF _ fs])
      fix q assume "tips_follow p0 (seen, on) q \<or> tips_follow p0 (?meet i, [i]) q"
      then show "\<exists>z. showOrCreateTip i (hide_all q) = (z, None) \<and> tips_follow p0 (?meet i, [i]) z \<and> ty_bound z = ty_bound q"
      proof
        assume "tips_follow p0 (seen, on) q"
        from meet_follow [OF assms(1) follow_hide_all [OF this] i] show ?thesis by (simp add: hide_all_def)
      next
        assume "tips_follow p0 (?meet i, [i]) q"
        from meet_follow [OF assms(1) follow_hide_all [OF this] i] show ?thesis by (auto simp: hide_all_def split: if_splits)
      qed
    qed
    then show ?thesis using Touch n t s assms(2,3) by (auto simp: tip_step_def hover_step_def)
  next
    case (TapTip j)
    have l: "length (ty_tips p) = length seen" using fs by (simp add: tips_follow_def)
    show ?thesis
    proof (cases "ty_touch p0 \<and> j < length seen")
      case True
      then have "tips_follow p0 (seen, removeAll (seen ! j) on) (upd_tips (\<lambda>x. x\<lparr>tp_shown := False\<rparr>) [j] p)"
        by (intro follow_upd [OF fs]) auto
      then show ?thesis using TapTip True t s l assms(3) by (auto simp: tip_step_def hover_step_def upd_one_tip)
    next
      case False
      then show ?thesis using TapTip t s l assms(2,3) by (auto simp: tip_step_def hover_step_def)
    qed
  next
    case TipInit
    then show ?thesis using assms(2,3) s by (simp add: tip_step_def hover_step_def tips_init_def tips_follow_def)
  qed (use assms(4) in auto)
qed

lemma run_follow:
  assumes "start_targets p0" "tips_follow p0 s p" "ty_bound p > 0" "pointing (length (ty_targets p0)) (ty_touch p0) es s"
  shows "\<exists>q. tip_run es p = (q, None) \<and> tips_follow p0 (fold (hover_step (ty_touch p0)) es s) q"
  using assms(2-4)
proof (induction es arbitrary: s p)
  case (Cons e es)
  obtain q where q: "tip_step e p = (q, None)" "tips_follow p0 (hover_step (ty_touch p0) e s) q" "ty_bound q > 0"
    using step_follow [OF assms(1) Cons.prems] by blast
  then show ?case using Cons.IH [OF q(2,3)] Cons.prems(3) by (simp add: and_then_def)
qed simp


definition demo_measures :: measures where
  "demo_measures = \<lparr>ms_top = 100, ms_left = 50, ms_height = 20, ms_width = 60, ms_tip_height = 30, ms_tip_width = 80, ms_nub_height = 5,
     ms_window = 1000, ms_column = None, ms_data_width = None\<rparr>"

definition demo_target :: tip_target where
  "demo_target = \<lparr>tg_id = None, tg_selector = None, tg_random = ''tooltip1x'', tg_title = Some ''One'', tg_class = ''has-tip tip-top'',
     tg_measures = demo_measures\<rparr>"

definition demo_tips :: tip_page where
  "demo_tips = \<lparr>ty_targets = [demo_target, demo_target\<lparr>tg_id := Some ''b'', tg_title := Some ''Two''\<rparr>], ty_tips = [], ty_touch = False, ty_bound = 0,
     ty_data = False\<rparr>"



section \<open>What goes wrong\<close>

definition titles_of :: "tip_page \<Rightarrow> string option list" where
  "titles_of p = map tg_title (ty_targets p)"

text \<open>\<open>destroy\<close> gives the texts back by position: a target gets the title of another one, and on a touch screen the hint with it.\<close>

theorem titles_swapped:
  "titles_of (fst (tip_run [TipInit, Enter 1, Leave 1, TipDestroy] demo_tips)) = [Some ''Two'', None]
   \<and> titles_of (fst (tip_run [TipInit, Touch 0, TipDestroy] (demo_tips\<lparr>ty_touch := True\<rparr>))) = [Some ''Onetap to close '', Some ''Two'']"
  by code_simp

text \<open>After \<open>destroy\<close> the handlers are still bound: leaving a target raises, entering one makes a tip again.\<close>

theorem destroyed_still_bound:
  "snd (tip_run [TipInit, Enter 0, TipDestroy, Leave 0] demo_tips) = Some TypeError
   \<and> length (ty_tips (fst (tip_run [TipInit, Enter 0, TipDestroy, Enter 0] demo_tips))) = 1"
  by code_simp

text \<open>The mouse is over a target when the plugin starts; an id that is no identifier; an empty id.\<close>

theorem tips_raise:
  "snd (tip_run [TipInit, Leave 0] demo_tips) = Some TypeError
   \<and> snd (tip_run [TipInit, Enter 0] (demo_tips\<lparr>ty_targets := [demo_target\<lparr>tg_id := Some ''a.b''\<rparr>]\<rparr>)) = Some (JsError ''Syntax error'')
   \<and> snd (tip_run [TipInit, Enter 0] (demo_tips\<lparr>ty_targets := [demo_target\<lparr>tg_id := Some []\<rparr>]\<rparr>)) = Some TypeError"
  by code_simp

text \<open>In a narrow window a tip of a target outside every column gets the width zero.\<close>

theorem column_missing:
  "tb_width (fst (reposition (demo_measures\<lparr>ms_window := 500\<rparr>) ''has-tip'' False)) = Some 0"
  by (simp add: demo_measures_def reposition_def)

text \<open>A tip below its target keeps the class of the narrow window when the window grows, one above loses it.\<close>

theorem override_stays:
  "tb_override (fst (reposition demo_measures ''has-tip tip-bottom'' True)) \<and> \<not> tb_override (fst (reposition demo_measures ''has-tip tip-top'' True))"
  by (simp add: demo_measures_def reposition_def has_part_def)

end
