(* ===== verification/Placeholder.thy ===== *)
theory Placeholder
  imports JsPrelude
begin

text \<open>
  \<open>jquery.placeholder.js\<close>: placeholders for browsers that have none. Inputs are known by their position in a list, to which the
  text inputs that stand for passwords are added; \<open>pp_order\<close> is their order as siblings. The browser supports placeholders of
  inputs or of textareas or neither. An exception is \<open>None\<close>. The page has one form; what a timer does waits in a list.
\<close>

section \<open>The page\<close>

record ph_input =
  pe_area :: bool
  pe_password :: bool
  pe_name :: bool
  pe_hint :: "string option"
  pe_value :: string
  pe_class :: bool
  pe_id :: string
  pe_hidden :: bool
  pe_enabled :: bool
  pe_focus :: nat
  pe_blur :: nat
  pe_textinput :: "nat option"
  pe_isText :: bool
  pe_dataId :: string

record ph_page =
  pp_inputs :: "ph_input list"
  pp_order :: "nat list"
  pp_active :: "nat option"
  pp_timers :: "nat list list"
  pp_sent :: "(nat \<times> string) list list"
  pp_inputOk :: bool
  pp_areaOk :: bool

definition inp :: "nat \<Rightarrow> ph_page \<Rightarrow> ph_input" where
  "inp k p = pp_inputs p ! k"

definition upd_inp :: "(ph_input \<Rightarrow> ph_input) \<Rightarrow> nat \<Rightarrow> ph_page \<Rightarrow> ph_page" where
  "upd_inp f k p = p\<lparr>pp_inputs := (pp_inputs p)[k := f (pp_inputs p ! k)]\<rparr>"

fun insert_before :: "nat \<Rightarrow> nat \<Rightarrow> nat list \<Rightarrow> nat list" where
  "insert_before k n [] = []"
| "insert_before k n (x # xs) = (if x = k then n # x # xs else x # insert_before k n xs)"

fun prev_in :: "nat \<Rightarrow> nat list \<Rightarrow> nat option" where
  "prev_in k (x # y # xs) = (if y = k then Some x else prev_in k (y # xs))"
| "prev_in k _ = None"

text \<open>Handlers that are bound more than once, and functions called for each element.\<close>

fun times_do :: "nat \<Rightarrow> ('a \<Rightarrow> 'a option) \<Rightarrow> 'a \<Rightarrow> 'a option" where
  "times_do 0 f x = Some x"
| "times_do (Suc n) f x = Option.bind (f x) (times_do n f)"

fun each_do :: "('b \<Rightarrow> 'a \<Rightarrow> 'a option) \<Rightarrow> 'b list \<Rightarrow> 'a \<Rightarrow> 'a option" where
  "each_do f [] x = Some x"
| "each_do f (k # ks) x = Option.bind (f k x) (each_do f ks)"

section \<open>\<open>setPlaceholder\<close>\<close>

text \<open>The copy of a password that shows its placeholder: it has no name and a handler for the focus only.\<close>

definition add_text :: "nat \<Rightarrow> ph_page \<Rightarrow> ph_page" where
  "add_text k p =
     (let e = inp k p; n = length (pp_inputs p);
          t = e\<lparr>pe_password := False, pe_name := False, pe_enabled := False, pe_focus := 1, pe_blur := 0, pe_textinput := None,
                pe_isText := True, pe_dataId := pe_id e\<rparr>;
          q = upd_inp (\<lambda>x. x\<lparr>pe_textinput := Some n, pe_dataId := pe_id e\<rparr>) k p
      in q\<lparr>pp_inputs := pp_inputs q @ [t], pp_order := insert_before k n (pp_order q)\<rparr>)"

definition hint_text :: "ph_input \<Rightarrow> string" where
  "hint_text x = (case pe_hint x of None \<Rightarrow> ''undefined'' | Some h \<Rightarrow> h)"

definition show_hint :: "ph_input \<Rightarrow> ph_input" where
  "show_hint x = x\<lparr>pe_class := True, pe_value := hint_text x\<rparr>"

definition setPlaceholder :: "nat \<Rightarrow> ph_page \<Rightarrow> ph_page option" where
  "setPlaceholder k p =
     (let e = inp k p in
      if pe_value e \<noteq> [] then Some (upd_inp (\<lambda>x. x\<lparr>pe_class := False\<rparr>) k p)
      else if pe_password e then
        let q = (if pe_textinput e = None then add_text k p else p)
        in case prev_in k (pp_order q) of
             None \<Rightarrow> None
           | Some t \<Rightarrow> Some (upd_inp (\<lambda>x. show_hint (x\<lparr>pe_id := pe_id e, pe_hidden := False\<rparr>)) t
                              (upd_inp (\<lambda>x. x\<lparr>pe_id := [], pe_hidden := True\<rparr>) k q))
      else Some (upd_inp show_hint k p))"

definition blur_handlers :: "nat \<Rightarrow> ph_page \<Rightarrow> ph_page option" where
  "blur_handlers k p = times_do (pe_blur (inp k p)) (setPlaceholder k) p"

text \<open>The focus goes to a visible element; the one that had it is blurred first.\<close>

definition move_focus :: "nat \<Rightarrow> ph_page \<Rightarrow> ph_page option" where
  "move_focus k p =
     (if pp_active p = Some k \<or> pe_hidden (inp k p) then Some p
      else Option.bind (case pp_active p of None \<Rightarrow> Some p | Some j \<Rightarrow> blur_handlers j (p\<lparr>pp_active := None\<rparr>))
             (\<lambda>q. Some (q\<lparr>pp_active := Some k\<rparr>)))"

section \<open>\<open>clearPlaceholder\<close>\<close>

definition shows_hint :: "ph_input \<Rightarrow> bool" where
  "shows_hint x \<longleftrightarrow> pe_hint x = Some (pe_value x) \<and> pe_class x"

text \<open>The text input gives its place to the password after it.\<close>

definition swap_back :: "nat \<Rightarrow> nat option \<Rightarrow> ph_page \<Rightarrow> ph_page" where
  "swap_back k next_k p =
     (let q = upd_inp (\<lambda>x. x\<lparr>pe_hidden := True, pe_id := []\<rparr>) k p
      in case next_k of None \<Rightarrow> q | Some n \<Rightarrow> upd_inp (\<lambda>x. x\<lparr>pe_hidden := False, pe_id := pe_dataId (inp k p)\<rparr>) n q)"

text \<open>On the siblings from the element on. \<open>focus()\<close> calls the handlers, then moves the focus.\<close>

primrec clear_from :: "nat list \<Rightarrow> ph_page \<Rightarrow> ph_page option" where
  "clear_from [] = Some"
| "clear_from (k # rest) = (\<lambda>p.
     if \<not> shows_hint (inp k p) then Some p
     else if \<not> pe_isText (inp k p) then Some (upd_inp (\<lambda>x. x\<lparr>pe_value := [], pe_class := False\<rparr>) k p)
     else case rest of
            [] \<Rightarrow> Some (swap_back k None p)
          | n # _ \<Rightarrow> let q = swap_back k (Some n) p
                    in Option.bind (times_do (pe_focus (inp n q)) (clear_from rest) q) (move_focus n))"

definition clearPlaceholder :: "nat \<Rightarrow> ph_page \<Rightarrow> ph_page option" where
  "clearPlaceholder k p = clear_from (dropWhile (\<lambda>j. j \<noteq> k) (pp_order p)) p"

section \<open>The hooks of \<open>val\<close>\<close>

definition hooked :: "nat \<Rightarrow> ph_page \<Rightarrow> bool" where
  "hooked k p = (if pe_area (inp k p) then \<not> pp_areaOk p else \<not> pp_inputOk p)"

definition hooks_get :: "nat \<Rightarrow> ph_page \<Rightarrow> string" where
  "hooks_get k p = (if pe_enabled (inp k p) \<and> pe_class (inp k p) then [] else pe_value (inp k p))"

definition put_value :: "string \<Rightarrow> nat \<Rightarrow> ph_page \<Rightarrow> ph_page" where
  "put_value v = upd_inp (\<lambda>x. x\<lparr>pe_value := v\<rparr>)"

definition hooks_set :: "nat \<Rightarrow> string \<Rightarrow> ph_page \<Rightarrow> ph_page option" where
  "hooks_set k v p =
     (let e = inp k p in
      if \<not> pe_enabled e then Some (put_value v k p)
      else if v = [] then (let q = put_value v k p in if pp_active p \<noteq> Some k then setPlaceholder k q else Some q)
      else if pe_class e then
        if shows_hint e \<and> pe_isText e
        then (case dropWhile (\<lambda>j. j \<noteq> k) (pp_order p) of
                _ # n # _ \<Rightarrow> Some (put_value v n (swap_back k (Some n) p)) | _ \<Rightarrow> None)
        else Option.bind (clearPlaceholder k p) (\<lambda>q. Some (put_value v k q))
      else Some (put_value v k p))"

definition ph_val :: "nat \<Rightarrow> ph_page \<Rightarrow> string" where
  "ph_val k p = (if hooked k p then hooks_get k p else pe_value (inp k p))"

definition ph_set :: "nat \<Rightarrow> string \<Rightarrow> ph_page \<Rightarrow> ph_page option" where
  "ph_set k v p = (if hooked k p then hooks_set k v p else Some (put_value v k p))"

section \<open>The plugin and the events\<close>

definition ph_bind :: "ph_input \<Rightarrow> ph_input" where
  "ph_bind x = x\<lparr>pe_enabled := True, pe_focus := Suc (pe_focus x), pe_blur := Suc (pe_blur x)\<rparr>"

definition trigger_blur :: "nat \<Rightarrow> ph_page \<Rightarrow> ph_page option" where
  "trigger_blur k p = Option.bind (blur_handlers k p)
     (\<lambda>q. Some (if pp_active q = Some k \<and> \<not> pe_hidden (inp k q) then q\<lparr>pp_active := None\<rparr> else q))"

definition ph_handled :: "ph_page \<Rightarrow> nat list" where
  "ph_handled p = [k \<leftarrow> pp_order p. (pp_inputOk p \<longrightarrow> pe_area (inp k p)) \<and> pe_hint (inp k p) \<noteq> None \<and> \<not> pe_class (inp k p)]"

definition ph_placeholder :: "ph_page \<Rightarrow> ph_page option" where
  "ph_placeholder p =
     (if pp_inputOk p \<and> pp_areaOk p then Some p
      else each_do trigger_blur (ph_handled p) (fold (upd_inp ph_bind) (ph_handled p) p))"

definition with_class :: "ph_page \<Rightarrow> nat list" where
  "with_class p = [k \<leftarrow> pp_order p. pe_class (inp k p)]"

text \<open>After the handler the browser sends the named inputs.\<close>

definition sent_values :: "ph_page \<Rightarrow> (nat \<times> string) list" where
  "sent_values p = [(k, pe_value (inp k p)). k \<leftarrow> pp_order p, pe_name (inp k p)]"

definition ph_submit :: "ph_page \<Rightarrow> ph_page option" where
  "ph_submit p =
     (if pp_inputOk p \<and> pp_areaOk p then Some (p\<lparr>pp_sent := pp_sent p @ [sent_values p]\<rparr>)
      else Option.bind (each_do clearPlaceholder (with_class p) p)
        (\<lambda>q. Some (q\<lparr>pp_timers := pp_timers q @ [with_class p], pp_sent := pp_sent q @ [sent_values q]\<rparr>)))"

definition ph_timer :: "ph_page \<Rightarrow> ph_page option" where
  "ph_timer p = (case pp_timers p of [] \<Rightarrow> Some p | ks # ts \<Rightarrow> each_do setPlaceholder ks (p\<lparr>pp_timers := ts\<rparr>))"

definition ph_unload :: "ph_page \<Rightarrow> ph_page" where
  "ph_unload p = (if pp_inputOk p \<and> pp_areaOk p then p else fold (put_value []) (with_class p) p)"

datatype ph_event = PhCall | PhFocus nat | PhBlur | PhType string | PhSet nat string | PhSubmit | PhTimer | PhUnload

text \<open>The user focuses a visible input: the handlers run when it has the focus.\<close>

definition user_focus :: "nat \<Rightarrow> ph_page \<Rightarrow> ph_page option" where
  "user_focus k p =
     (if k \<notin> set (pp_order p) \<or> pp_active p = Some k \<or> pe_hidden (inp k p) then Some p
      else Option.bind (move_focus k p) (\<lambda>q. times_do (pe_focus (inp k q)) (clearPlaceholder k) q))"

definition ph_step :: "ph_event \<Rightarrow> ph_page \<Rightarrow> ph_page option" where
  "ph_step e p =
     (case e of
        PhCall \<Rightarrow> ph_placeholder p
      | PhFocus k \<Rightarrow> user_focus k p
      | PhBlur \<Rightarrow> (case pp_active p of None \<Rightarrow> Some p | Some k \<Rightarrow> blur_handlers k (p\<lparr>pp_active := None\<rparr>))
      | PhType v \<Rightarrow> (case pp_active p of None \<Rightarrow> Some p | Some k \<Rightarrow> Some (put_value v k p))
      | PhSet k v \<Rightarrow> (if k \<in> set (pp_order p) then ph_set k v p else Some p)
      | PhSubmit \<Rightarrow> ph_submit p
      | PhTimer \<Rightarrow> ph_timer p
      | PhUnload \<Rightarrow> Some (ph_unload p))"

definition ph_run :: "ph_event list \<Rightarrow> ph_page \<Rightarrow> ph_page option" where
  "ph_run es = each_do ph_step es"

section \<open>Pages without passwords\<close>

text \<open>On inputs that are no passwords the two functions change one input.\<close>

definition set1 :: "ph_input \<Rightarrow> ph_input" where
  "set1 x = (if pe_value x \<noteq> [] then x\<lparr>pe_class := False\<rparr> else show_hint x)"

definition clear1 :: "ph_input \<Rightarrow> ph_input" where
  "clear1 x = (if shows_hint x then x\<lparr>pe_value := [], pe_class := False\<rparr> else x)"

definition no_passwords :: "ph_page \<Rightarrow> bool" where
  "no_passwords p \<longleftrightarrow> list_all (\<lambda>x. \<not> pe_password x \<and> \<not> pe_isText x) (pp_inputs p) \<and> (\<forall>k \<in> set (pp_order p). k < length (pp_inputs p))"

lemma upd_inp_simps [simp]:
  "length (pp_inputs (upd_inp f k p)) = length (pp_inputs p)" "pp_order (upd_inp f k p) = pp_order p"
  "pp_active (upd_inp f k p) = pp_active p" "pp_timers (upd_inp f k p) = pp_timers p" "pp_sent (upd_inp f k p) = pp_sent p"
  "pp_inputOk (upd_inp f k p) = pp_inputOk p" "pp_areaOk (upd_inp f k p) = pp_areaOk p"
  by (simp_all add: upd_inp_def)

lemma inp_upd [simp]: "j < length (pp_inputs p) \<Longrightarrow> inp j (upd_inp f k p) = (if j = k then f (inp k p) else inp j p)"
  by (simp add: inp_def upd_inp_def)

lemma inp_other_fields [simp]:
  "inp k (p\<lparr>pp_active := a\<rparr>) = inp k p" "inp k (p\<lparr>pp_timers := t\<rparr>) = inp k p" "inp k (p\<lparr>pp_sent := s\<rparr>) = inp k p"
  by (simp_all add: inp_def)

lemma fold_upd_simps [simp]:
  "length (pp_inputs (fold (upd_inp f) ks p)) = length (pp_inputs p)" "pp_order (fold (upd_inp f) ks p) = pp_order p"
  "pp_active (fold (upd_inp f) ks p) = pp_active p" "pp_timers (fold (upd_inp f) ks p) = pp_timers p"
  "pp_sent (fold (upd_inp f) ks p) = pp_sent p" "pp_inputOk (fold (upd_inp f) ks p) = pp_inputOk p"
  "pp_areaOk (fold (upd_inp f) ks p) = pp_areaOk p"
  by (induction ks arbitrary: p) simp_all

lemma inp_fold: "distinct ks \<Longrightarrow> j < length (pp_inputs p) \<Longrightarrow>
  inp j (fold (upd_inp f) ks p) = (if j \<in> set ks then f (inp j p) else inp j p)"
  by (induction ks arbitrary: p) auto

lemma plain_inp: "no_passwords p \<Longrightarrow> k < length (pp_inputs p) \<Longrightarrow> \<not> pe_password (inp k p) \<and> \<not> pe_isText (inp k p)"
  by (simp add: no_passwords_def inp_def list_all_length)

lemma plain_upd:
  assumes "no_passwords p" "\<And>x. pe_password (f x) = pe_password x \<and> pe_isText (f x) = pe_isText x"
  shows "no_passwords (upd_inp f k p)"
  using assms by (cases "k < length (pp_inputs p)") (auto simp: no_passwords_def upd_inp_def list_all_length nth_list_update)

lemma keeps1:
  "pe_password (set1 x) = pe_password x \<and> pe_isText (set1 x) = pe_isText x"
  "pe_password (clear1 x) = pe_password x \<and> pe_isText (clear1 x) = pe_isText x"
  by (simp_all add: set1_def show_hint_def clear1_def)

lemma upd_same: "f (inp k p) = g (inp k p) \<Longrightarrow> upd_inp f k p = upd_inp g k p"
  by (simp add: upd_inp_def inp_def)

lemma upd_id: "f (inp k p) = inp k p \<Longrightarrow> upd_inp f k p = p"
  by (simp add: upd_inp_def inp_def)

lemma set_plain: "no_passwords p \<Longrightarrow> k < length (pp_inputs p) \<Longrightarrow> setPlaceholder k p = Some (upd_inp set1 k p)"
  using plain_inp by (auto simp: setPlaceholder_def Let_def set1_def intro: upd_same)

lemma drop_to: "k \<in> set xs \<Longrightarrow> \<exists>rest. dropWhile (\<lambda>j. j \<noteq> k) xs = k # rest"
  by (induction xs) auto

lemma clear_plain:
  assumes "no_passwords p" "k \<in> set (pp_order p)"
  shows "clearPlaceholder k p = Some (upd_inp clear1 k p)"
proof -
  obtain rest where d: "dropWhile (\<lambda>j. j \<noteq> k) (pp_order p) = k # rest" using drop_to [OF assms(2)] by blast
  have "k < length (pp_inputs p)" using assms by (simp add: no_passwords_def)
  then have "\<not> pe_isText (inp k p)" using plain_inp assms(1) by blast
  then show ?thesis by (auto simp: clearPlaceholder_def d clear1_def intro: upd_same upd_id [symmetric])
qed

lemma each_set_plain: "no_passwords p \<Longrightarrow> \<forall>k \<in> set ks. k < length (pp_inputs p) \<Longrightarrow> each_do setPlaceholder ks p = Some (fold (upd_inp set1) ks p)"
  by (induction ks arbitrary: p) (simp_all add: set_plain plain_upd keeps1)

lemma each_clear_plain: "no_passwords p \<Longrightarrow> set ks \<subseteq> set (pp_order p) \<Longrightarrow> each_do clearPlaceholder ks p = Some (fold (upd_inp clear1) ks p)"
  by (induction ks arbitrary: p) (simp_all add: clear_plain plain_upd keeps1)

section \<open>What the user entered\<close>

text \<open>The page as it would be with placeholders of the browser: the values, the focus and what was sent.\<close>

record text_state =
  ts_values :: "string list"
  ts_active :: "nat option"
  ts_sent :: "(nat \<times> string) list list"

definition ts_step :: "ph_page \<Rightarrow> ph_event \<Rightarrow> text_state \<Rightarrow> text_state" where
  "ts_step p0 e s =
     (case e of
        PhFocus k \<Rightarrow> if k \<in> set (pp_order p0) \<and> \<not> pe_hidden (inp k p0) then s\<lparr>ts_active := Some k\<rparr> else s
      | PhBlur \<Rightarrow> s\<lparr>ts_active := None\<rparr>
      | PhType v \<Rightarrow> (case ts_active s of None \<Rightarrow> s | Some k \<Rightarrow> s\<lparr>ts_values := (ts_values s)[k := v]\<rparr>)
      | PhSet k v \<Rightarrow> if k \<in> set (pp_order p0) then s\<lparr>ts_values := (ts_values s)[k := v]\<rparr> else s
      | PhSubmit \<Rightarrow> s\<lparr>ts_sent := ts_sent s @ [[(k, ts_values s ! k). k \<leftarrow> pp_order p0, pe_name (inp k p0)]]\<rparr>
      | _ \<Rightarrow> s)"

text \<open>Nothing happens in the ten milliseconds between a submit and its timer; the plugin is called once.\<close>

fun quiet_submits :: "ph_event list \<Rightarrow> bool" where
  "quiet_submits [] = True"
| "quiet_submits (PhSubmit # PhTimer # es) = quiet_submits es"
| "quiet_submits (e # es) = (e \<notin> {PhSubmit, PhTimer, PhCall, PhUnload} \<and> quiet_submits es)"

definition get_of :: "ph_input \<Rightarrow> string" where
  "get_of x = (if pe_enabled x \<and> pe_class x then [] else pe_value x)"

definition field_ok :: "ph_input \<Rightarrow> bool" where
  "field_ok x \<longleftrightarrow> \<not> pe_password x \<and> \<not> pe_isText x \<and> pe_blur x = (if pe_enabled x then 1 else 0) \<and> pe_focus x = (if pe_enabled x then 1 else 0)
     \<and> (pe_class x \<longrightarrow> pe_enabled x \<and> shows_hint x) \<and> (pe_enabled x \<longrightarrow> pe_hint x \<noteq> None)"

definition same_form :: "ph_page \<Rightarrow> ph_page \<Rightarrow> bool" where
  "same_form p0 p \<longleftrightarrow> pp_order p = pp_order p0 \<and> length (pp_inputs p) = length (pp_inputs p0)
     \<and> (\<forall>k < length (pp_inputs p0). pe_hidden (inp k p) = pe_hidden (inp k p0) \<and> pe_name (inp k p) = pe_name (inp k p0)
          \<and> (pe_enabled (inp k p) \<longrightarrow> hooked k p)) \<and> pp_inputOk p = pp_inputOk p0 \<and> pp_areaOk p = pp_areaOk p0 \<and> \<not> (pp_inputOk p \<and> pp_areaOk p)
     \<and> distinct (pp_order p0) \<and> (\<forall>k \<in> set (pp_order p0). k < length (pp_inputs p0))"

definition displays :: "ph_page \<Rightarrow> text_state \<Rightarrow> ph_page \<Rightarrow> bool" where
  "displays p0 s p \<longleftrightarrow> same_form p0 p \<and> length (ts_values s) = length (pp_inputs p0)
     \<and> (\<forall>k < length (pp_inputs p0). field_ok (inp k p) \<and> get_of (inp k p) = ts_values s ! k)
     \<and> (\<forall>k. pp_active p = Some k \<longrightarrow> k \<in> set (pp_order p0) \<and> \<not> pe_class (inp k p))
     \<and> ts_active s = pp_active p \<and> ts_sent s = pp_sent p"

text \<open>Changes of an input that keep what it shows.\<close>

definition inner :: "(ph_input \<Rightarrow> ph_input) \<Rightarrow> bool" where
  "inner f \<longleftrightarrow> (\<forall>x. pe_hidden (f x) = pe_hidden x \<and> pe_name (f x) = pe_name x \<and> pe_enabled (f x) = pe_enabled x \<and> pe_area (f x) = pe_area x)"

lemma inner1: "inner set1" "inner clear1" "inner (\<lambda>x. x\<lparr>pe_value := v\<rparr>)"
  by (simp_all add: inner_def set1_def show_hint_def clear1_def)

lemma same_upd: "same_form p0 p \<Longrightarrow> inner f \<Longrightarrow> same_form p0 (upd_inp f k p)"
  by (auto simp: same_form_def inner_def hooked_def)

lemma text_set1: "field_ok x \<Longrightarrow> pe_enabled x \<Longrightarrow> \<not> pe_class x \<Longrightarrow> field_ok (set1 x) \<and> get_of (set1 x) = get_of x"
  by (auto simp: field_ok_def set1_def get_of_def show_hint_def shows_hint_def hint_text_def split: option.splits)

lemma text_clear1: "field_ok x \<Longrightarrow> field_ok (clear1 x) \<and> get_of (clear1 x) = get_of x \<and> \<not> pe_class (clear1 x)"
  by (auto simp: field_ok_def clear1_def get_of_def shows_hint_def)

lemma displays_plain: "displays p0 s p \<Longrightarrow> no_passwords p"
  by (auto simp: displays_def same_form_def no_passwords_def list_all_length field_ok_def inp_def)

lemma displays_upd:
  assumes "displays p0 s p" "inner f" "k < length (pp_inputs p0)" "field_ok (f (inp k p))" "get_of (f (inp k p)) = v"
    "pp_active p = Some k \<Longrightarrow> \<not> pe_class (f (inp k p))"
  shows "displays p0 (s\<lparr>ts_values := (ts_values s)[k := v]\<rparr>) (upd_inp f k p)"
proof -
  have s: "same_form p0 p" and l: "length (pp_inputs p) = length (pp_inputs p0)"
    and o: "\<And>j. j \<in> set (pp_order p0) \<Longrightarrow> j < length (pp_inputs p0)" using assms(1) unfolding displays_def same_form_def by blast+
  show ?thesis using assms same_upd [OF s assms(2), of k] by (auto simp: displays_def nth_list_update l o)
qed

lemma displays_upd_same:
  assumes "displays p0 s p" "inner f" "k < length (pp_inputs p0)" "field_ok (f (inp k p))" "get_of (f (inp k p)) = get_of (inp k p)"
    "pp_active p = Some k \<Longrightarrow> \<not> pe_class (f (inp k p))"
  shows "displays p0 s (upd_inp f k p)"
proof -
  have s: "same_form p0 p" and l: "length (pp_inputs p) = length (pp_inputs p0)"
    and o: "\<And>j. j \<in> set (pp_order p0) \<Longrightarrow> j < length (pp_inputs p0)" using assms(1) unfolding displays_def same_form_def by blast+
  show ?thesis using assms same_upd [OF s assms(2), of k] by (auto simp: displays_def l o)
qed

lemma same_other: "same_form p0 p \<Longrightarrow> same_form p0 (p\<lparr>pp_active := a\<rparr>)" "same_form p0 p \<Longrightarrow> same_form p0 (p\<lparr>pp_sent := z\<rparr>)"
  "same_form p0 p \<Longrightarrow> same_form p0 (p\<lparr>pp_timers := t\<rparr>)"
  by (auto simp: same_form_def hooked_def)

lemma blur_displays:
  assumes "displays p0 s p" "pp_active p = Some k"
  shows "\<exists>q. blur_handlers k (p\<lparr>pp_active := None\<rparr>) = Some q \<and> displays p0 (s\<lparr>ts_active := None\<rparr>) q \<and> pp_active q = None"
proof -
  let ?p = "p\<lparr>pp_active := None\<rparr>"
  have s: "displays p0 (s\<lparr>ts_active := None\<rparr>) ?p" using assms(1) by (simp add: displays_def same_other)
  have k: "k < length (pp_inputs p0)" "k < length (pp_inputs ?p)" and t: "field_ok (inp k ?p)" "\<not> pe_class (inp k ?p)"
    using assms by (auto simp: displays_def same_form_def)
  show ?thesis
  proof (cases "pe_enabled (inp k ?p)")
    case True
    then have "blur_handlers k ?p = Some (upd_inp set1 k ?p)"
      using t(1) set_plain [OF displays_plain [OF s] k(2)] by (simp add: blur_handlers_def field_ok_def)
    moreover have "displays p0 (s\<lparr>ts_active := None\<rparr>) (upd_inp set1 k ?p)"
      using text_set1 [OF t(1) True t(2)] by (intro displays_upd_same [OF s inner1(1) k(1)]) simp_all
    ultimately show ?thesis by simp
  next
    case False
    then show ?thesis using t(1) s by (simp add: blur_handlers_def field_ok_def)
  qed
qed

lemma displays_facts:
  assumes "displays p0 s p" "k < length (pp_inputs p0)"
  shows "field_ok (inp k p)" "get_of (inp k p) = ts_values s ! k" "k < length (pp_inputs p)"
    "pp_active p = Some k \<Longrightarrow> \<not> pe_class (inp k p)" "pe_enabled (inp k p) \<Longrightarrow> hooked k p" "pe_hidden (inp k p) = pe_hidden (inp k p0)"
  using assms by (auto simp: displays_def same_form_def)

lemma displays_order:
  assumes "displays p0 s p"
  shows "pp_order p = pp_order p0" "distinct (pp_order p0)" "k \<in> set (pp_order p0) \<Longrightarrow> k < length (pp_inputs p0)"
    "pp_active p = Some k \<Longrightarrow> k \<in> set (pp_order p0)" "ts_active s = pp_active p" "\<not> (pp_inputOk p \<and> pp_areaOk p)"
  using assms by (auto simp: displays_def same_form_def)

lemma clear_displays:
  assumes "displays p0 s p" "k \<in> set (pp_order p0)"
  shows "clearPlaceholder k p = Some (upd_inp clear1 k p)" "displays p0 s (upd_inp clear1 k p)"
proof -
  have k: "k < length (pp_inputs p0)" by (rule displays_order(3) [OF assms])
  show "clearPlaceholder k p = Some (upd_inp clear1 k p)"
    using clear_plain [OF displays_plain [OF assms(1)]] assms(2) displays_order(1) [OF assms(1)] by simp
  show "displays p0 s (upd_inp clear1 k p)"
    using text_clear1 [OF displays_facts(1) [OF assms(1) k]] by (intro displays_upd_same [OF assms(1) inner1(2) k]) simp_all
qed

lemma activate_displays: "displays p0 s p \<Longrightarrow> k \<in> set (pp_order p0) \<Longrightarrow> \<not> pe_class (inp k p)
  \<Longrightarrow> displays p0 (s\<lparr>ts_active := Some k\<rparr>) (p\<lparr>pp_active := Some k\<rparr>)"
  by (simp add: displays_def same_other)

text \<open>The order of the focus and the handlers does not matter here.\<close>

lemma upd_active: "(upd_inp f k p)\<lparr>pp_active := a\<rparr> = upd_inp f k (p\<lparr>pp_active := a\<rparr>)"
  by (simp add: upd_inp_def)

lemma clear1_noop: "field_ok x \<Longrightarrow> \<not> pe_enabled x \<Longrightarrow> clear1 x = x"
  by (simp add: field_ok_def clear1_def shows_hint_def)

lemma focus_displays:
  assumes "displays p0 s p" "k \<in> set (pp_order p0)" "\<not> pe_hidden (inp k p0)" "pp_active p = None"
  shows "\<exists>q. times_do (pe_focus (inp k p)) (clearPlaceholder k) (p\<lparr>pp_active := Some k\<rparr>) = Some q
    \<and> displays p0 (s\<lparr>ts_active := Some k\<rparr>) q"
proof -
  let ?p = "p\<lparr>pp_active := Some k\<rparr>"
  have k: "k < length (pp_inputs p0)" by (rule displays_order(3) [OF assms(1,2)])
  have kp: "k < length (pp_inputs p)" and t: "field_ok (inp k p)" using displays_facts [OF assms(1) k] by simp_all
  have c: "displays p0 s (upd_inp clear1 k p)" by (rule clear_displays(2) [OF assms(1,2)])
  have "\<not> pe_class (inp k (upd_inp clear1 k p))" using text_clear1 [OF t] kp by simp
  from activate_displays [OF c assms(2) this] have d: "displays p0 (s\<lparr>ts_active := Some k\<rparr>) (upd_inp clear1 k ?p)" by (simp add: upd_active)
  have np: "no_passwords ?p" using displays_plain [OF assms(1)] by (simp add: no_passwords_def)
  have kk: "k \<in> set (pp_order ?p)" using assms(2) displays_order(1) [OF assms(1)] by simp
  have one: "clearPlaceholder k ?p = Some (upd_inp clear1 k ?p)" by (rule clear_plain [OF np kk])
  show ?thesis
  proof (cases "pe_enabled (inp k p)")
    case True
    then show ?thesis using d one t by (simp add: field_ok_def)
  next
    case False
    then have "upd_inp clear1 k ?p = ?p" using clear1_noop [OF t] by (intro upd_id) simp
    then show ?thesis using d t False by (simp add: field_ok_def)
  qed
qed

lemma user_focus_displays:
  assumes "displays p0 s p"
  shows "\<exists>q. user_focus k p = Some q \<and> displays p0 (ts_step p0 (PhFocus k) s) q"
proof (cases "k \<notin> set (pp_order p0) \<or> pp_active p = Some k \<or> pe_hidden (inp k p0)")
  case True
  have "ts_step p0 (PhFocus k) s = s"
  proof (cases "pp_active p = Some k")
    case True
    then have "s\<lparr>ts_active := Some k\<rparr> = s" using displays_order(5) [OF assms] by simp
    then show ?thesis by (simp add: ts_step_def)
  qed (use True in \<open>auto simp: ts_step_def\<close>)
  moreover have "user_focus k p = Some p"
    using True displays_order [OF assms] displays_facts(6) [OF assms] by (auto simp: user_focus_def)
  ultimately show ?thesis using assms by simp
next
  case False
  then have k: "k \<in> set (pp_order p0)" and h: "\<not> pe_hidden (inp k p0)" and na: "pp_active p \<noteq> Some k" by auto
  have hp: "\<not> pe_hidden (inp k p)" using h displays_facts(6) [OF assms displays_order(3) [OF assms k]] by simp
  have "\<exists>q. (case pp_active p of None \<Rightarrow> Some p | Some j \<Rightarrow> blur_handlers j (p\<lparr>pp_active := None\<rparr>)) = Some q
      \<and> displays p0 (s\<lparr>ts_active := None\<rparr>) q \<and> pp_active q = None"
  proof (cases "pp_active p")
    case None
    then have "s\<lparr>ts_active := None\<rparr> = s" using displays_order(5) [OF assms] by simp
    then show ?thesis using None assms by simp
  next
    case (Some j)
    then show ?thesis using blur_displays [OF assms Some] by simp
  qed
  then obtain q where q: "(case pp_active p of None \<Rightarrow> Some p | Some j \<Rightarrow> blur_handlers j (p\<lparr>pp_active := None\<rparr>)) = Some q"
    "displays p0 (s\<lparr>ts_active := None\<rparr>) q" "pp_active q = None" by blast
  have "user_focus k p = times_do (pe_focus (inp k q)) (clearPlaceholder k) (q\<lparr>pp_active := Some k\<rparr>)"
    using k na hp q(1) displays_order(1) [OF assms] by (simp add: user_focus_def move_focus_def)
  then show ?thesis using focus_displays [OF q(2) k h q(3)] k h by (simp add: ts_step_def)
qed

lemma put_displays:
  assumes "displays p0 s p" "k \<in> set (pp_order p0)" "\<not> pe_class (inp k p)"
  shows "displays p0 (s\<lparr>ts_values := (ts_values s)[k := v]\<rparr>) (put_value v k p)"
proof -
  have k: "k < length (pp_inputs p0)" by (rule displays_order(3) [OF assms(1,2)])
  have "field_ok ((inp k p)\<lparr>pe_value := v\<rparr>)" "get_of ((inp k p)\<lparr>pe_value := v\<rparr>) = v"
    using displays_facts(1) [OF assms(1) k] assms(3) by (simp_all add: field_ok_def get_of_def)
  then show ?thesis unfolding put_value_def using assms(3) by (intro displays_upd [OF assms(1) inner1(3) k]) simp_all
qed

lemma upd_put: "k < length (pp_inputs p) \<Longrightarrow> upd_inp f k (put_value v k p) = upd_inp (\<lambda>x. f (x\<lparr>pe_value := v\<rparr>)) k p"
  by (simp add: upd_inp_def put_value_def)

lemma set_displays:
  assumes "displays p0 s p" "k \<in> set (pp_order p0)"
  shows "\<exists>q. ph_set k v p = Some q \<and> displays p0 (s\<lparr>ts_values := (ts_values s)[k := v]\<rparr>) q"
proof -
  have k: "k < length (pp_inputs p0)" by (rule displays_order(3) [OF assms])
  note f = displays_facts [OF assms(1) k]
  let ?s = "s\<lparr>ts_values := (ts_values s)[k := v]\<rparr>"
  show ?thesis
  proof (cases "hooked k p \<and> pe_enabled (inp k p)")
    case False
    then have e: "\<not> pe_enabled (inp k p)" using f(5) by blast
    then have "\<not> pe_class (inp k p)" using f(1) by (auto simp: field_ok_def)
    moreover have "ph_set k v p = Some (put_value v k p)" using e by (simp add: ph_set_def hooks_set_def Let_def)
    ultimately show ?thesis using put_displays [OF assms] by simp
  next
    case h: True
    show ?thesis
    proof (cases "v = []")
      case empty: True
      show ?thesis
      proof (cases "pp_active p = Some k")
        case True
        then show ?thesis using h empty put_displays [OF assms f(4) [OF True], of v] by (simp add: ph_set_def hooks_set_def)
      next
        case False
        let ?g = "\<lambda>x. set1 (x\<lparr>pe_value := []\<rparr>)"
        have "no_passwords (put_value v k p)" unfolding put_value_def by (rule plain_upd [OF displays_plain [OF assms(1)]]) simp
        from set_plain [OF this, of k] have "ph_set k v p = Some (upd_inp set1 k (put_value v k p))"
          using h empty False f(3) by (simp add: ph_set_def hooks_set_def put_value_def)
        then have q: "ph_set k v p = Some (upd_inp ?g k p)" using upd_put [OF f(3), of set1 v] empty by simp
        have "field_ok (?g (inp k p))" "get_of (?g (inp k p)) = []"
          using f(1) h by (auto simp: field_ok_def get_of_def set1_def show_hint_def shows_hint_def hint_text_def)
        moreover have "inner ?g" by (simp add: inner_def set1_def show_hint_def)
        ultimately have "displays p0 ?s (upd_inp ?g k p)" using False empty by (intro displays_upd [OF assms(1) _ k]) simp_all
        then show ?thesis using q by simp
      qed
    next
      case v: False
      show ?thesis
      proof (cases "pe_class (inp k p)")
        case True
        then have "\<not> pe_isText (inp k p)" using f(1) by (simp add: field_ok_def)
        then have q: "ph_set k v p = Some (put_value v k (upd_inp clear1 k p))"
          using h v True clear_displays(1) [OF assms] by (simp add: ph_set_def hooks_set_def Let_def)
        have "\<not> pe_class (inp k (upd_inp clear1 k p))" using text_clear1 [OF f(1)] f(3) by simp
        from put_displays [OF clear_displays(2) [OF assms] assms(2) this] show ?thesis using q by simp
      next
        case False
        then show ?thesis using h v put_displays [OF assms False] by (simp add: ph_set_def hooks_set_def)
      qed
    qed
  qed
qed

text \<open>A submit and its timer.\<close>

lemma fold_clear_displays:
  "displays p0 s p \<Longrightarrow> set ks \<subseteq> set (pp_order p0) \<Longrightarrow> displays p0 s (fold (upd_inp clear1) ks p)"
  by (induction ks arbitrary: p) (simp_all add: clear_displays(2))

lemma fold_set_displays:
  assumes "displays p0 s p" "distinct ks" "set ks \<subseteq> set (pp_order p0)"
    "\<And>k. k \<in> set ks \<Longrightarrow> pe_enabled (inp k p) \<and> \<not> pe_class (inp k p) \<and> pp_active p \<noteq> Some k"
  shows "displays p0 s (fold (upd_inp set1) ks p)"
  using assms
proof (induction ks arbitrary: p)
  case (Cons k ks)
  have k: "k \<in> set (pp_order p0)" using Cons.prems(3) by simp
  have kl: "k < length (pp_inputs p0)" by (rule displays_order(3) [OF Cons.prems(1) k])
  have t: "field_ok (set1 (inp k p)) \<and> get_of (set1 (inp k p)) = get_of (inp k p)"
    using text_set1 [OF displays_facts(1) [OF Cons.prems(1) kl]] Cons.prems(4) [of k] by simp
  have d: "displays p0 s (upd_inp set1 k p)"
    using t Cons.prems(4) [of k] by (intro displays_upd_same [OF Cons.prems(1) inner1(1) kl]) simp_all
  have "displays p0 s (fold (upd_inp set1) ks (upd_inp set1 k p))"
  proof (rule Cons.IH [OF d])
    show "distinct ks" "set ks \<subseteq> set (pp_order p0)" using Cons.prems by simp_all
    fix j assume j: "j \<in> set ks"
    then have "j \<noteq> k" "j < length (pp_inputs p)"
      using Cons.prems(2,3) displays_order(3) [OF Cons.prems(1), of j] displays_facts(3) [OF Cons.prems(1)] by auto
    then show "pe_enabled (inp j (upd_inp set1 k p)) \<and> \<not> pe_class (inp j (upd_inp set1 k p)) \<and> pp_active (upd_inp set1 k p) \<noteq> Some j"
      using Cons.prems(4) [of j] j by simp
  qed
  then show ?case by simp
qed simp

lemma submit_displays:
  assumes "displays p0 s p" "pp_timers p = []"
  shows "\<exists>q q'. ph_submit p = Some q \<and> ph_timer q = Some q' \<and> displays p0 (ts_step p0 PhSubmit s) q' \<and> pp_timers q' = []"
proof -
  let ?ks = "with_class p"
  let ?c = "fold (upd_inp clear1) ?ks p"
  let ?s = "ts_step p0 PhSubmit s"
  note o = displays_order [OF assms(1)]
  have ks: "distinct ?ks" "set ?ks \<subseteq> set (pp_order p0)" using o(1,2) by (auto simp: with_class_def)
  have c: "displays p0 s ?c" by (rule fold_clear_displays [OF assms(1) ks(2)])
  have len: "k < length (pp_inputs p)" if "k \<in> set (pp_order p0)" for k
    using displays_facts(3) [OF assms(1)] o(3) [OF that] by blast
  have none: "\<not> pe_class (inp k ?c)" if "k \<in> set (pp_order p0)" for k
    using inp_fold [OF ks(1) len [OF that]] text_clear1 [OF displays_facts(1) [OF assms(1) o(3) [OF that]]] that o(1)
    by (auto simp: with_class_def)
  have names: "pe_name (inp k ?c) = pe_name (inp k p0)" if "k \<in> set (pp_order p0)" for k
    using c o(3) [OF that] by (auto simp: displays_def same_form_def)
  have vals: "pe_value (inp k ?c) = ts_values s ! k" if "k \<in> set (pp_order p0)" for k
    using displays_facts(2) [OF c o(3) [OF that]] none [OF that] by (simp add: get_of_def)
  have sent: "sent_values ?c = [(k, ts_values s ! k). k \<leftarrow> pp_order p0, pe_name (inp k p0)]"
    using names vals o(1) by (auto simp: sent_values_def intro!: arg_cong [where f = concat] map_cong)
  let ?q = "?c\<lparr>pp_timers := [?ks], pp_sent := pp_sent p @ [sent_values ?c]\<rparr>"
  have e: "each_do clearPlaceholder ?ks p = Some ?c"
    using ks(2) o(1) by (intro each_clear_plain [OF displays_plain [OF assms(1)]]) simp
  have sub: "ph_submit p = Some ?q" unfolding ph_submit_def if_not_P [OF o(6)] e using assms(2) by simp
  let ?r = "?c\<lparr>pp_sent := pp_sent p @ [sent_values ?c], pp_timers := []\<rparr>"
  have r: "displays p0 ?s ?r"
    using c sent by (simp add: displays_def same_other ts_step_def)
  have "each_do setPlaceholder ?ks ?r = Some (fold (upd_inp set1) ?ks ?r)"
    using len ks(2) by (intro each_set_plain [OF displays_plain [OF r]]) auto
  moreover have "displays p0 ?s (fold (upd_inp set1) ?ks ?r)"
  proof (rule fold_set_displays [OF r ks])
    fix k assume k: "k \<in> set ?ks"
    then have ko: "k \<in> set (pp_order p0)" and cl: "pe_class (inp k p)" using o(1) by (auto simp: with_class_def)
    have "pe_enabled (inp k p)" using displays_facts(1) [OF assms(1) o(3) [OF ko]] cl by (simp add: field_ok_def)
    then have "pe_enabled (inp k ?c)" using inp_fold [OF ks(1) len [OF ko]] by (simp add: clear1_def)
    moreover have "pp_active p \<noteq> Some k" using displays_facts(4) [OF assms(1) o(3) [OF ko]] cl by blast
    ultimately show "pe_enabled (inp k ?r) \<and> \<not> pe_class (inp k ?r) \<and> pp_active ?r \<noteq> Some k" using none [OF ko] by simp
  qed
  ultimately show ?thesis using sub by (simp add: ph_timer_def)
qed

text \<open>A page before the plugin is called.\<close>

definition start_form :: "ph_page \<Rightarrow> bool" where
  "start_form p \<longleftrightarrow> list_all (\<lambda>x. \<not> pe_password x \<and> \<not> pe_isText x \<and> \<not> pe_enabled x \<and> \<not> pe_class x \<and> pe_focus x = 0 \<and> pe_blur x = 0)
       (pp_inputs p) \<and> distinct (pp_order p) \<and> list_all (\<lambda>k. k < length (pp_inputs p)) (pp_order p) \<and> pp_active p = None \<and> pp_timers p = []
     \<and> \<not> (pp_inputOk p \<and> pp_areaOk p) \<and> (pp_areaOk p \<longrightarrow> list_all (\<lambda>x. \<not> pe_area x) (pp_inputs p))"

definition text_start :: "ph_page \<Rightarrow> text_state" where
  "text_start p = \<lparr>ts_values = map pe_value (pp_inputs p), ts_active = None, ts_sent = pp_sent p\<rparr>"

lemma trigger_all:
  assumes "no_passwords p" "distinct ks" "\<forall>k \<in> set ks. k < length (pp_inputs p) \<and> pe_blur (inp k p) = 1" "pp_active p = None"
  shows "each_do trigger_blur ks p = Some (fold (upd_inp set1) ks p)"
  using assms
proof (induction ks arbitrary: p)
  case (Cons k ks)
  have "trigger_blur k p = Some (upd_inp set1 k p)"
    using Cons.prems(3,4) set_plain [OF Cons.prems(1), of k] by (simp add: trigger_blur_def blur_handlers_def)
  moreover have "each_do trigger_blur ks (upd_inp set1 k p) = Some (fold (upd_inp set1) ks (upd_inp set1 k p))"
    using Cons.prems by (intro Cons.IH plain_upd keeps1) auto
  ultimately show ?case by simp
qed simp

lemma call_displays:
  assumes "start_form p0"
  shows "\<exists>q. ph_placeholder p0 = Some q \<and> displays p0 (text_start p0) q \<and> pp_timers q = []"
proof -
  let ?ks = "ph_handled p0"
  let ?b = "fold (upd_inp ph_bind) ?ks p0"
  let ?q = "fold (upd_inp set1) ?ks ?b"
  have st: "\<not> pe_password x \<and> \<not> pe_isText x \<and> \<not> pe_enabled x \<and> \<not> pe_class x \<and> pe_focus x = 0 \<and> pe_blur x = 0"
      "pe_area x \<longrightarrow> \<not> pp_areaOk p0" if "x \<in> set (pp_inputs p0)" for x
    using assms that by (auto simp: start_form_def list_all_iff split: if_splits)
  have start: "distinct (pp_order p0)" "\<forall>k \<in> set (pp_order p0). k < length (pp_inputs p0)" "pp_active p0 = None" "pp_timers p0 = []"
    using assms by (simp_all add: start_form_def list_all_iff)
  have elem: "inp k p0 \<in> set (pp_inputs p0)" if "k < length (pp_inputs p0)" for k using that by (simp add: inp_def)
  have ks: "distinct ?ks" "set ?ks \<subseteq> set (pp_order p0)" using start(1) by (auto simp: ph_handled_def)
  have kl: "\<forall>k \<in> set ?ks. k < length (pp_inputs p0)" using ks(2) start(2) by blast
  have b: "inp j ?b = (if j \<in> set ?ks then ph_bind (inp j p0) else inp j p0)" if "j < length (pp_inputs p0)" for j
    by (rule inp_fold [OF ks(1) that])
  have q: "inp j ?q = (if j \<in> set ?ks then set1 (ph_bind (inp j p0)) else inp j p0)" if "j < length (pp_inputs p0)" for j
    using inp_fold [OF ks(1), of j ?b set1] b [OF that] that by simp
  have np: "no_passwords ?b" using b elem st(1) start(2) by (auto simp: no_passwords_def list_all_length inp_def ph_bind_def)
  have t: "each_do trigger_blur ?ks ?b = Some ?q"
    using kl b elem st(1) start(3) by (intro trigger_all [OF np ks(1)]) (auto simp: ph_bind_def)
  have nb: "\<not> (pp_inputOk p0 \<and> pp_areaOk p0)" using assms by (simp add: start_form_def)
  have c: "ph_placeholder p0 = Some ?q" unfolding ph_placeholder_def if_not_P [OF nb] by (rule t)
  have bound: "field_ok (set1 (ph_bind x)) \<and> get_of (set1 (ph_bind x)) = pe_value x"
    if "x \<in> set (pp_inputs p0)" "pe_hint x \<noteq> None" for x
    using st(1) [OF that(1)] that(2) by (auto simp: ph_bind_def set1_def show_hint_def field_ok_def get_of_def shows_hint_def hint_text_def)
  have free: "field_ok x \<and> get_of x = pe_value x" if "x \<in> set (pp_inputs p0)" for x
    using st(1) [OF that] by (simp add: field_ok_def get_of_def)
  have q_ok: "field_ok (inp j ?q) \<and> get_of (inp j ?q) = pe_value (inp j p0)" if "j < length (pp_inputs p0)" for j
    using q [OF that] bound [OF elem [OF that]] free [OF elem [OF that]] by (auto simp: ph_handled_def)
  have q_hooked: "pe_enabled (inp j ?q) \<longrightarrow> hooked j ?q" if "j < length (pp_inputs p0)" for j
    using q [OF that] st [OF elem [OF that]] nb
    by (auto simp: hooked_def ph_handled_def set1_def show_hint_def ph_bind_def)
  have q_same: "pe_hidden (inp j ?q) = pe_hidden (inp j p0) \<and> pe_name (inp j ?q) = pe_name (inp j p0)" if "j < length (pp_inputs p0)" for j
    using q [OF that] by (simp add: set1_def show_hint_def ph_bind_def)
  have "same_form p0 ?q" using nb start(1,2) q_hooked q_same by (simp add: same_form_def)
  then have "displays p0 (text_start p0) ?q"
    using q_ok start(3) by (simp add: displays_def text_start_def inp_def)
  then show ?thesis using c start(4) by auto
qed

text \<open>What the functions leave alone.\<close>

lemma times_keep: "(\<And>x y. f x = Some y \<Longrightarrow> g y = g x) \<Longrightarrow> times_do n f x = Some y \<Longrightarrow> g y = g x"
  by (induction n arbitrary: x) (auto simp: bind_eq_Some_conv)

lemma set_timers: "setPlaceholder k p = Some q \<Longrightarrow> pp_timers q = pp_timers p"
  by (auto simp: setPlaceholder_def add_text_def Let_def split: if_splits option.splits)

lemma blur_timers: "blur_handlers k p = Some q \<Longrightarrow> pp_timers q = pp_timers p"
  unfolding blur_handlers_def using times_keep [where g = pp_timers and f = "setPlaceholder k"] set_timers by blast

lemma move_timers: "move_focus k p = Some q \<Longrightarrow> pp_timers q = pp_timers p"
  by (auto simp: move_focus_def bind_eq_Some_conv dest: blur_timers split: if_splits option.splits)

lemma swap_timers [simp]: "pp_timers (swap_back k n p) = pp_timers p"
  by (simp add: swap_back_def Let_def split: option.split)

lemma clear_from_timers: "clear_from ks p = Some q \<Longrightarrow> pp_timers q = pp_timers p"
proof (induction ks arbitrary: p q)
  case (Cons k rest)
  show ?case
  proof (cases "shows_hint (inp k p) \<and> pe_isText (inp k p) \<and> rest \<noteq> []")
    case True
    then obtain n r where n: "rest = n # r" by (cases rest) auto
    let ?q = "swap_back k (Some n) p"
    obtain z where z: "times_do (pe_focus (inp n ?q)) (clear_from rest) ?q = Some z" "move_focus n z = Some q"
      using Cons.prems True n by (auto simp: Let_def bind_eq_Some_conv)
    have "pp_timers z = pp_timers ?q" using times_keep [OF _ z(1), of pp_timers] Cons.IH by blast
    then show ?thesis using move_timers [OF z(2)] by simp
  next
    case False
    then show ?thesis using Cons.prems by (auto split: if_splits)
  qed
qed simp

lemma quiet_timers:
  assumes "ph_step e p = Some q" "e \<notin> {PhSubmit, PhTimer, PhCall, PhUnload}"
  shows "pp_timers q = pp_timers p"
proof -
  have clear: "clearPlaceholder k p = Some q \<Longrightarrow> pp_timers q = pp_timers p" for k p q
    by (auto simp: clearPlaceholder_def dest: clear_from_timers)
  have set: "hooks_set k v p = Some q \<Longrightarrow> pp_timers q = pp_timers p" for k v
    by (auto simp: hooks_set_def put_value_def bind_eq_Some_conv Let_def dest: clear set_timers split: if_splits list.splits)
  have focus: "user_focus k p = Some q \<Longrightarrow> pp_timers q = pp_timers p" for k
    using times_keep [where g = pp_timers and f = "clearPlaceholder k"] clear
    by (auto simp: user_focus_def bind_eq_Some_conv dest!: move_timers split: if_splits)
  show ?thesis
    using assms set focus by (cases e) (auto simp: ph_step_def ph_set_def put_value_def dest: blur_timers split: option.splits if_splits)
qed

lemma step_displays:
  assumes "displays p0 s p" "e \<notin> {PhSubmit, PhTimer, PhCall, PhUnload}"
  shows "\<exists>q. ph_step e p = Some q \<and> displays p0 (ts_step p0 e s) q"
proof (cases e)
  case (PhFocus k)
  then show ?thesis using user_focus_displays [OF assms(1)] by (simp add: ph_step_def)
next
  case PhBlur
  show ?thesis
  proof (cases "pp_active p")
    case None
    then have "s\<lparr>ts_active := None\<rparr> = s" using displays_order(5) [OF assms(1)] by simp
    then show ?thesis using assms(1) None PhBlur by (simp add: ph_step_def ts_step_def)
  next
    case (Some k)
    then show ?thesis using blur_displays [OF assms(1) Some] PhBlur by (auto simp: ph_step_def ts_step_def)
  qed
next
  case (PhType v)
  show ?thesis
  proof (cases "pp_active p")
    case None
    then show ?thesis using assms(1) displays_order(5) [OF assms(1)] PhType by (simp add: ph_step_def ts_step_def)
  next
    case (Some k)
    have o: "k \<in> set (pp_order p0)" by (rule displays_order(4) [OF assms(1) Some])
    have "\<not> pe_class (inp k p)" by (rule displays_facts(4) [OF assms(1) displays_order(3) [OF assms(1) o] Some])
    from put_displays [OF assms(1) o this] show ?thesis using Some displays_order(5) [OF assms(1)] PhType by (simp add: ph_step_def ts_step_def)
  qed
next
  case (PhSet k v)
  show ?thesis
  proof (cases "k \<in> set (pp_order p0)")
    case True
    then show ?thesis using set_displays [OF assms(1) True] displays_order(1) [OF assms(1)] PhSet by (simp add: ph_step_def ts_step_def)
  next
    case False
    then show ?thesis using assms(1) displays_order(1) [OF assms(1)] PhSet by (simp add: ph_step_def ts_step_def)
  qed
qed (use assms in auto)

lemma quiet_cases:
  assumes "quiet_submits es"
  shows "es = [] \<or> (\<exists>fs. es = PhSubmit # PhTimer # fs \<and> quiet_submits fs)
    \<or> (\<exists>e fs. es = e # fs \<and> e \<notin> {PhSubmit, PhTimer, PhCall, PhUnload} \<and> quiet_submits fs)"
  using assms by (cases es rule: quiet_submits.cases) simp_all

lemma run_displays:
  "displays p0 s p \<Longrightarrow> pp_timers p = [] \<Longrightarrow> quiet_submits es \<Longrightarrow> \<exists>q. ph_run es p = Some q \<and> displays p0 (fold (ts_step p0) es s) q"
proof (induction es arbitrary: s p rule: length_induct)
  case (1 es)
  from quiet_cases [OF "1.prems"(3)] consider "es = []" | fs where "es = PhSubmit # PhTimer # fs" "quiet_submits fs"
    | e fs where "es = e # fs" "e \<notin> {PhSubmit, PhTimer, PhCall, PhUnload}" "quiet_submits fs" by blast
  then show ?case
  proof cases
    case 1
    then show ?thesis using "1.prems" by (simp add: ph_run_def)
  next
    case (2 fs)
    obtain q q' where q: "ph_submit p = Some q" "ph_timer q = Some q'" "displays p0 (ts_step p0 PhSubmit s) q'" "pp_timers q' = []"
      using submit_displays [OF "1.prems"(1,2)] by blast
    have "ts_step p0 PhTimer (ts_step p0 PhSubmit s) = ts_step p0 PhSubmit s" by (simp add: ts_step_def)
    then show ?thesis using "1.IH" q 2 by (simp add: ph_run_def ph_step_def)
  next
    case (3 e fs)
    obtain q where q: "ph_step e p = Some q" "displays p0 (ts_step p0 e s) q" using step_displays [OF "1.prems"(1) 3(2)] by blast
    then have "pp_timers q = []" using quiet_timers [OF q(1) 3(2)] "1.prems"(2) by simp
    then show ?thesis using "1.IH" q 3 by (simp add: ph_run_def)
  qed
qed

text \<open>
  C10: On a page without passwords, in a browser that needs the plugin: whatever the user focuses, types and leaves, whatever
  values the page sets and however often the form is sent, no function raises, \<open>val\<close> gives for every input what was entered
  there (never the placeholder, and never nothing for what was entered), and each submit sends exactly what was entered - as long as nothing
  happens in the ten milliseconds after a submit, and the plugin is called once.
\<close>
theorem placeholder_invisible:
  assumes "start_form p0" "quiet_submits es"
  shows "\<exists>q. ph_run (PhCall # es) p0 = Some q
    \<and> (\<forall>k < length (pp_inputs p0). ph_val k q = ts_values (fold (ts_step p0) es (text_start p0)) ! k)
    \<and> pp_sent q = ts_sent (fold (ts_step p0) es (text_start p0))"
proof -
  obtain p where p: "ph_placeholder p0 = Some p" "displays p0 (text_start p0) p" "pp_timers p = []" using call_displays [OF assms(1)] by blast
  obtain q where q: "ph_run es p = Some q" "displays p0 (fold (ts_step p0) es (text_start p0)) q" using run_displays [OF p(2,3) assms(2)] by blast
  have "ph_val k q = get_of (inp k q)" if "k < length (pp_inputs p0)" for k
    using displays_facts(5) [OF q(2) that] by (auto simp: ph_val_def hooks_get_def get_of_def)
  then show ?thesis using p(1) q displays_facts(2) [OF q(2)] by (simp add: ph_run_def ph_step_def displays_def)
qed

definition demo_input :: ph_input where
  "demo_input = \<lparr>pe_area = False, pe_password = False, pe_name = True, pe_hint = Some ''Name'', pe_value = [], pe_class = False, pe_id = ''n'',
     pe_hidden = False, pe_enabled = False, pe_focus = 0, pe_blur = 0, pe_textinput = None, pe_isText = False, pe_dataId = []\<rparr>"

definition demo_form :: ph_page where
  "demo_form = \<lparr>pp_inputs = [demo_input, demo_input\<lparr>pe_value := ''Ann''\<rparr>], pp_order = [0, 1], pp_active = None, pp_timers = [], pp_sent = [],
     pp_inputOk = False, pp_areaOk = False\<rparr>"

definition demo_typing :: "ph_event list" where
  "demo_typing = [PhFocus 1, PhType [], PhFocus 0, PhSubmit, PhTimer, PhType ''Name'', PhBlur, PhSet 1 ''Bob'', PhSubmit, PhTimer]"

lemma placeholder_invisible_witness:
  "\<exists>q. ph_run (PhCall # demo_typing) demo_form = Some q
    \<and> pp_sent q = ts_sent (fold (ts_step demo_form) demo_typing (text_start demo_form))"
proof -
  have "start_form demo_form" "quiet_submits demo_typing" by code_simp+
  then show ?thesis using placeholder_invisible [of demo_form demo_typing] by blast
qed

lemma placeholder_example:
  "map_option (\<lambda>q. (pp_sent q, map pe_value (pp_inputs q), map (\<lambda>k. ph_val k q) [0, 1])) (ph_run (PhCall # butlast (butlast demo_typing)) demo_form)
   = Some ([[(0, []), (1, [])]], [''Name'', ''Bob''], [''Name'', ''Bob''])"
  by code_simp

text \<open>A second call binds the blur twice: the placeholder that the first handler shows is a value for the second.\<close>

theorem second_call_leaks:
  "map_option (\<lambda>q. (ph_val 1 q, hd (pp_sent q))) (ph_run [PhCall, PhCall, PhFocus 1, PhType [], PhBlur, PhSubmit] demo_form)
   = Some (''Name'', [(0, []), (1, ''Name'')])"
  by code_simp

text \<open>A page that empties its inputs in the ten milliseconds after a submit: the timer takes the placeholder for a value.\<close>

theorem timer_leaks:
  "map_option (\<lambda>q. ph_val 0 q) (ph_run [PhCall, PhSubmit, PhSet 0 [], PhTimer] demo_form) = Some ''Name''"
  by code_simp

text \<open>A page that focuses an empty input on submit: the timer puts the placeholder under the cursor, and what is then typed is not seen.\<close>

theorem timer_hides_typing:
  "map_option (\<lambda>q. ph_val 0 q) (ph_run [PhCall, PhSubmit, PhFocus 0, PhTimer, PhType ''NameEve''] demo_form) = Some []"
  by code_simp
section \<open>Pages with passwords\<close>

definition pass_ok :: "ph_page \<Rightarrow> nat \<Rightarrow> bool" where
  "pass_ok p k \<longleftrightarrow> \<not> pe_isText (inp k p) \<and> \<not> pe_class (inp k p)
     \<and> (case pe_textinput (inp k p) of None \<Rightarrow> True | Some t \<Rightarrow> prev_in k (pp_order p) = Some t \<and> t < length (pp_inputs p) \<and> \<not> pe_password (inp t p))"

definition pass_inv :: "ph_page \<Rightarrow> bool" where
  "pass_inv p \<longleftrightarrow> distinct (pp_order p) \<and> (\<forall>k \<in> set (pp_order p). k < length (pp_inputs p))
     \<and> (\<forall>k < length (pp_inputs p). (pe_password (inp k p) \<longrightarrow> pass_ok p k) \<and> (pe_isText (inp k p) \<longrightarrow> pp_order p \<noteq> [] \<and> last (pp_order p) \<noteq> k))
     \<and> (\<forall>k. pp_active p = Some k \<longrightarrow> k \<in> set (pp_order p))
     \<and> (\<forall>ks \<in> set (pp_timers p). \<forall>k \<in> set ks. k < length (pp_inputs p) \<and> \<not> pe_password (inp k p))"

definition pass_kept :: "ph_page \<Rightarrow> ph_page \<Rightarrow> bool" where
  "pass_kept p q \<longleftrightarrow> length (pp_inputs p) \<le> length (pp_inputs q) \<and> set (pp_order p) \<subseteq> set (pp_order q)
     \<and> (\<forall>k < length (pp_inputs p). pe_password (inp k q) = pe_password (inp k p)
          \<and> (pe_password (inp k p) \<longrightarrow> pe_value (inp k q) = pe_value (inp k p) \<and> pe_name (inp k q) = pe_name (inp k p)))"

lemma kept_refl: "pass_kept p p"
  by (simp add: pass_kept_def)

lemma kept_tr: "pass_kept p q \<Longrightarrow> pass_kept q r \<Longrightarrow> pass_kept p r"
  unfolding pass_kept_def using less_le_trans [of _ "length (pp_inputs p)" "length (pp_inputs q)"] by auto

definition does :: "(ph_page \<Rightarrow> ph_page option) \<Rightarrow> ph_page \<Rightarrow> bool" where
  "does f p \<longleftrightarrow> (\<exists>q. f p = Some q \<and> pass_inv q \<and> pass_kept p q)"

lemma does_bind:
  assumes "does f p" "\<And>q. f p = Some q \<Longrightarrow> pass_inv q \<Longrightarrow> pass_kept p q \<Longrightarrow> does g q"
  shows "does (\<lambda>p. Option.bind (f p) g) p"
  using assms unfolding does_def by (metis bind.bind_lunit kept_tr)

lemma does_times: "pass_inv p \<Longrightarrow> (\<And>q. pass_inv q \<Longrightarrow> pass_kept p q \<Longrightarrow> does f q) \<Longrightarrow> does (times_do n f) p"
proof (induction n arbitrary: p)
  case 0
  then show ?case by (simp add: does_def kept_refl)
next
  case (Suc n)
  have "does (\<lambda>p. Option.bind (f p) (times_do n f)) p"
    using Suc.prems by (intro does_bind Suc.IH) (auto intro: kept_refl kept_tr)
  then show ?case by (simp add: does_def)
qed

lemma does_each: "pass_inv p \<Longrightarrow> (\<And>k q. k \<in> set ks \<Longrightarrow> pass_inv q \<Longrightarrow> pass_kept p q \<Longrightarrow> does (f k) q) \<Longrightarrow> does (each_do f ks) p"
proof (induction ks arbitrary: p)
  case Nil
  then show ?case by (simp add: does_def kept_refl)
next
  case (Cons k ks)
  have "does (\<lambda>p. Option.bind (f k p) (each_do f ks)) p"
    using Cons.prems by (intro does_bind Cons.IH) (auto intro: kept_refl kept_tr)
  then show ?case by (simp add: does_def)
qed

text \<open>A change that touches no password, or of a password only where it is shown.\<close>

definition mild :: "(ph_input \<Rightarrow> ph_input) \<Rightarrow> ph_input \<Rightarrow> bool" where
  "mild f x \<longleftrightarrow> pe_password (f x) = pe_password x \<and> pe_isText (f x) = pe_isText x \<and> pe_textinput (f x) = pe_textinput x \<and> pe_name (f x) = pe_name x
     \<and> (pe_password x \<longrightarrow> \<not> pe_class x \<longrightarrow> \<not> pe_class (f x) \<and> pe_value (f x) = pe_value x)"

lemma mild_upd:
  assumes "pass_inv p" "k < length (pp_inputs p)" "mild f (inp k p)"
  shows "pass_inv (upd_inp f k p)" "pass_kept p (upd_inp f k p)"
proof -
  note f = assms(3) [unfolded mild_def]
  have ok: "pass_ok (upd_inp f k p) j" if "j < length (pp_inputs p)" "pe_password (inp j p)" for j
  proof -
    have "pass_ok p j" using assms(1) that by (simp add: pass_inv_def)
    then show ?thesis using f that by (auto simp: pass_ok_def split: option.splits)
  qed
  show "pass_inv (upd_inp f k p)" using assms(1) f ok by (auto simp: pass_inv_def)
  show "pass_kept p (upd_inp f k p)" using assms(1,2) f by (auto simp: pass_kept_def pass_inv_def pass_ok_def)
qed

lemma insert_simps:
  "set (insert_before k n xs) = (if k \<in> set xs then insert n (set xs) else set xs)"
  "insert_before k n xs = [] \<longleftrightarrow> xs = []"
  "n \<notin> set xs \<Longrightarrow> distinct (insert_before k n xs) \<longleftrightarrow> distinct xs"
  "xs \<noteq> [] \<Longrightarrow> last (insert_before k n xs) = last xs"
  by (induction xs) auto

lemma prev_inserted: "k \<in> set xs \<Longrightarrow> n \<noteq> k \<Longrightarrow> prev_in k (insert_before k n xs) = Some n"
  by (induction k xs rule: prev_in.induct) auto

lemma prev_other: "j \<noteq> k \<Longrightarrow> j \<noteq> n \<Longrightarrow> prev_in j (insert_before k n xs) = prev_in j xs"
  by (induction j xs rule: prev_in.induct) auto

lemma prev_set: "prev_in k xs = Some t \<Longrightarrow> t \<in> set xs"
  by (induction k xs rule: prev_in.induct) (auto split: if_splits)

lemma add_text_simps:
  "length (pp_inputs (add_text k p)) = Suc (length (pp_inputs p))"
  "pp_order (add_text k p) = insert_before k (length (pp_inputs p)) (pp_order p)"
  "pp_active (add_text k p) = pp_active p" "pp_timers (add_text k p) = pp_timers p"
  "j < length (pp_inputs p) \<Longrightarrow> inp j (add_text k p)
     = (if j = k then (inp k p)\<lparr>pe_textinput := Some (length (pp_inputs p)), pe_dataId := pe_id (inp k p)\<rparr> else inp j p)"
  "inp (length (pp_inputs p)) (add_text k p) = (inp k p)\<lparr>pe_password := False, pe_name := False, pe_enabled := False, pe_focus := 1, pe_blur := 0,
     pe_textinput := None, pe_isText := True, pe_dataId := pe_id (inp k p)\<rparr>"
  by (simp_all add: add_text_def Let_def inp_def upd_inp_def nth_append)

lemma add_text_inv:
  assumes "pass_inv p" "k \<in> set (pp_order p)" "pe_password (inp k p)"
  shows "pass_inv (add_text k p)" "pass_kept p (add_text k p)" "prev_in k (pp_order (add_text k p)) = Some (length (pp_inputs p))"
proof -
  let ?n = "length (pp_inputs p)"
  let ?q = "add_text k p"
  have k: "k < ?n" and n: "?n \<notin> set (pp_order p)" "pp_order p \<noteq> []" using assms(1,2) by (auto simp: pass_inv_def)
  have l: "last (pp_order p) \<noteq> ?n" using n last_in_set by metis
  show pr: "prev_in k (pp_order ?q) = Some ?n" using prev_inserted [OF assms(2)] k by (simp add: add_text_simps)
  have ok: "pass_ok ?q j" if "j < ?n" "pe_password (inp j ?q)" for j
  proof -
    have "pass_ok p j" using assms(1) that by (auto simp: pass_inv_def add_text_simps split: if_splits)
    then show ?thesis using pr that k prev_other [of j k ?n] by (auto simp: pass_ok_def add_text_simps split: option.splits)
  qed
  have "(pe_password (inp j ?q) \<longrightarrow> pass_ok ?q j) \<and> (pe_isText (inp j ?q) \<longrightarrow> pp_order ?q \<noteq> [] \<and> last (pp_order ?q) \<noteq> j)"
    if "j < length (pp_inputs ?q)" for j
  proof (cases "j = ?n")
    case True
    then show ?thesis using n l by (simp add: add_text_simps insert_simps)
  next
    case False
    then have j: "j < ?n" using that by (simp add: add_text_simps)
    then have "pe_isText (inp j ?q) \<longrightarrow> last (pp_order p) \<noteq> j" using assms(1) by (auto simp: pass_inv_def add_text_simps)
    then show ?thesis using ok [OF j] n by (simp add: add_text_simps insert_simps)
  qed
  moreover have "\<forall>ks \<in> set (pp_timers ?q). \<forall>j \<in> set ks. j < length (pp_inputs ?q) \<and> \<not> pe_password (inp j ?q)"
  proof (intro ballI)
    fix ks j assume "ks \<in> set (pp_timers ?q)" "j \<in> set ks"
    then have "j < ?n \<and> \<not> pe_password (inp j p)" using assms(1) by (auto simp: pass_inv_def add_text_simps)
    then show "j < length (pp_inputs ?q) \<and> \<not> pe_password (inp j ?q)" using assms(3) by (auto simp: add_text_simps)
  qed
  moreover have "distinct (pp_order ?q)" "\<forall>j \<in> set (pp_order ?q). j < length (pp_inputs ?q)" "\<forall>j. pp_active ?q = Some j \<longrightarrow> j \<in> set (pp_order ?q)"
    using assms(1,2) n k by (auto simp: pass_inv_def add_text_simps insert_simps)
  ultimately show "pass_inv ?q" unfolding pass_inv_def by blast
  show "pass_kept p ?q" using assms k by (auto simp: pass_kept_def add_text_simps insert_simps)
qed

lemma does_some: "pass_inv q \<Longrightarrow> pass_kept p q \<Longrightarrow> f p = Some q \<Longrightarrow> does f p"
  by (simp add: does_def)

lemma does_upd:
  assumes "pass_inv p" "k < length (pp_inputs p)" "mild f (inp k p)" "g p = Some (upd_inp f k p)"
  shows "does g p"
  by (rule does_some [where f = g, OF mild_upd [OF assms(1,2,3)] assms(4)])

lemma set_does:
  assumes "pass_inv p" "k < length (pp_inputs p)" "pe_password (inp k p) \<Longrightarrow> k \<in> set (pp_order p)"
  shows "does (setPlaceholder k) p"
proof (cases "pe_value (inp k p) = [] \<and> pe_password (inp k p)")
  case False
  show ?thesis
  proof (cases "pe_value (inp k p) = []")
    case True
    then show ?thesis using False by (intro does_upd [OF assms(1,2), of show_hint]) (simp_all add: setPlaceholder_def mild_def show_hint_def)
  next
    case v: False
    show ?thesis using v by (intro does_upd [OF assms(1,2), of "\<lambda>x. x\<lparr>pe_class := False\<rparr>"]) (simp_all add: setPlaceholder_def mild_def)
  qed
next
  case True
  then have k: "k \<in> set (pp_order p)" by (rule assms(3) [OF conjunct2])
  define q where "q = (if pe_textinput (inp k p) = None then add_text k p else p)"
  have q: "pass_inv q" "pass_kept p q" using add_text_inv [OF assms(1) k] True assms(1) kept_refl by (simp_all add: q_def)
  have kq: "k < length (pp_inputs q)" "pe_password (inp k q)" using q(2) True assms(2) by (auto simp: pass_kept_def)
  have pk: "pass_ok p k" using assms(1,2) True by (simp add: pass_inv_def)
  obtain t where t: "prev_in k (pp_order q) = Some t" "t < length (pp_inputs q)" "\<not> pe_password (inp t q)"
    using pk add_text_inv(3) [OF assms(1) k] True by (auto simp: q_def pass_ok_def add_text_simps split: option.splits)
  let ?f = "\<lambda>x. x\<lparr>pe_id := [], pe_hidden := True\<rparr>"
  let ?g = "\<lambda>x. show_hint (x\<lparr>pe_id := pe_id (inp k p), pe_hidden := False\<rparr>)"
  have s: "setPlaceholder k p = Some (upd_inp ?g t (upd_inp ?f k q))"
    using True t(1) by (simp add: setPlaceholder_def Let_def q_def)
  have f: "pass_inv (upd_inp ?f k q)" "pass_kept q (upd_inp ?f k q)" using mild_upd [OF q(1) kq(1), of ?f] by (simp_all add: mild_def)
  have tk: "t \<noteq> k" using t(3) kq(2) by blast
  have "mild ?g (inp t (upd_inp ?f k q))" using t(2,3) tk by (simp add: mild_def show_hint_def)
  then have g: "pass_inv (upd_inp ?g t (upd_inp ?f k q))" "pass_kept (upd_inp ?f k q) (upd_inp ?g t (upd_inp ?f k q))"
    using mild_upd [OF f(1), of t ?g] t(2) by simp_all
  show ?thesis by (rule does_some [where f = "setPlaceholder k", OF g(1) kept_tr [OF q(2) kept_tr [OF f(2) g(2)]] s])
qed

lemma inv_order: "pass_inv p \<Longrightarrow> k \<in> set (pp_order p) \<Longrightarrow> k < length (pp_inputs p)"
  by (simp add: pass_inv_def)

lemma kept_order: "pass_kept p q \<Longrightarrow> k \<in> set (pp_order p) \<Longrightarrow> k \<in> set (pp_order q)"
  by (auto simp: pass_kept_def)

lemma pass_ok_other: "pass_ok (p\<lparr>pp_active := a\<rparr>) = pass_ok p" "pass_ok (p\<lparr>pp_timers := t\<rparr>) = pass_ok p" "pass_ok (p\<lparr>pp_sent := z\<rparr>) = pass_ok p"
  by (simp_all add: pass_ok_def fun_eq_iff cong: option.case_cong)

lemma inv_active: "pass_inv p \<Longrightarrow> pass_inv (p\<lparr>pp_active := None\<rparr>)" "pass_inv p \<Longrightarrow> k \<in> set (pp_order p) \<Longrightarrow> pass_inv (p\<lparr>pp_active := Some k\<rparr>)"
  by (simp_all add: pass_inv_def pass_ok_other)

lemma kept_active: "pass_kept p (p\<lparr>pp_active := a\<rparr>)"
  by (simp add: pass_kept_def)

lemma blur_does: "pass_inv p \<Longrightarrow> k \<in> set (pp_order p) \<Longrightarrow> does (blur_handlers k) p"
proof -
  assume p: "pass_inv p" "k \<in> set (pp_order p)"
  have "does (times_do (pe_blur (inp k p)) (setPlaceholder k)) p"
    using p by (intro does_times set_does) (auto intro: inv_order kept_order)
  then show ?thesis by (simp add: does_def blur_handlers_def)
qed

lemma leave_does:
  assumes "pass_inv p" "pp_active p = Some j"
  shows "does (\<lambda>p. blur_handlers j (p\<lparr>pp_active := None\<rparr>)) p"
proof -
  have "does (blur_handlers j) (p\<lparr>pp_active := None\<rparr>)"
    using assms inv_active(1) by (intro blur_does) (simp_all add: pass_inv_def)
  then show ?thesis unfolding does_def using kept_tr [OF kept_active] by blast
qed

lemma move_does:
  assumes "pass_inv p" "k \<in> set (pp_order p)"
  shows "does (move_focus k) p"
proof (cases "pp_active p = Some k \<or> pe_hidden (inp k p)")
  case True
  then show ?thesis using assms(1) kept_refl by (auto simp: does_def move_focus_def)
next
  case False
  have "does (\<lambda>p. case pp_active p of None \<Rightarrow> Some p | Some j \<Rightarrow> blur_handlers j (p\<lparr>pp_active := None\<rparr>)) p"
  proof (cases "pp_active p")
    case None
    then show ?thesis using assms(1) kept_refl by (simp add: does_def)
  next
    case (Some j)
    then show ?thesis using leave_does [OF assms(1) Some] by (simp add: does_def)
  qed
  then obtain q where q: "(case pp_active p of None \<Rightarrow> Some p | Some j \<Rightarrow> blur_handlers j (p\<lparr>pp_active := None\<rparr>)) = Some q"
    "pass_inv q" "pass_kept p q" by (auto simp: does_def)
  show ?thesis using False q inv_active(2) [OF q(2) kept_order [OF q(3) assms(2)]] kept_tr [OF q(3) kept_active]
    by (simp add: does_def move_focus_def)
qed

lemma swap_does:
  assumes "pass_inv p" "k < length (pp_inputs p)" "n < length (pp_inputs p)"
  shows "pass_inv (swap_back k (Some n) p)" "pass_kept p (swap_back k (Some n) p)"
proof -
  let ?f = "\<lambda>x. x\<lparr>pe_hidden := True, pe_id := []\<rparr>"
  let ?g = "\<lambda>x. x\<lparr>pe_hidden := False, pe_id := pe_dataId (inp k p)\<rparr>"
  have f: "pass_inv (upd_inp ?f k p)" "pass_kept p (upd_inp ?f k p)" using mild_upd [OF assms(1,2), of ?f] by (simp_all add: mild_def)
  have "pass_inv (upd_inp ?g n (upd_inp ?f k p))" "pass_kept (upd_inp ?f k p) (upd_inp ?g n (upd_inp ?f k p))"
    using mild_upd [OF f(1), of n ?g] assms(3) by (simp_all add: mild_def)
  then show "pass_inv (swap_back k (Some n) p)" "pass_kept p (swap_back k (Some n) p)"
    using f(2) kept_tr by (auto simp: swap_back_def Let_def)
qed

lemma class_no_pass: "pass_inv p \<Longrightarrow> k < length (pp_inputs p) \<Longrightarrow> pe_class (inp k p) \<or> pe_isText (inp k p) \<Longrightarrow> \<not> pe_password (inp k p)"
  by (auto simp: pass_inv_def pass_ok_def)

lemma clear_from_does: "pass_inv p \<Longrightarrow> set ks \<subseteq> set (pp_order p) \<Longrightarrow> does (clear_from ks) p"
proof (induction ks arbitrary: p)
  case Nil
  then show ?case by (simp add: does_def kept_refl)
next
  case (Cons k rest)
  have k: "k < length (pp_inputs p)" using Cons.prems inv_order by simp
  consider "\<not> shows_hint (inp k p)" | "shows_hint (inp k p)" "\<not> pe_isText (inp k p)" | "shows_hint (inp k p)" "pe_isText (inp k p)" "rest = []"
    | n r where "shows_hint (inp k p)" "pe_isText (inp k p)" "rest = n # r" by (cases rest) auto
  then show ?case
  proof cases
    case 1
    then show ?thesis using Cons.prems(1) by (simp add: does_def kept_refl)
  next
    case 2
    then have "\<not> pe_password (inp k p)" using class_no_pass [OF Cons.prems(1) k] by (simp add: shows_hint_def)
    then show ?thesis using 2
      by (intro does_upd [OF Cons.prems(1) k, of "\<lambda>x. x\<lparr>pe_value := [], pe_class := False\<rparr>"]) (simp_all add: mild_def)
  next
    case 3
    then show ?thesis
      by (intro does_upd [OF Cons.prems(1) k, of "\<lambda>x. x\<lparr>pe_hidden := True, pe_id := []\<rparr>"]) (simp_all add: mild_def swap_back_def)
  next
    case (4 n r)
    let ?q = "swap_back k (Some n) p"
    have n: "n \<in> set (pp_order p)" using Cons.prems(2) 4(3) by simp
    have q: "pass_inv ?q" "pass_kept p ?q" using swap_does [OF Cons.prems(1) k inv_order [OF Cons.prems(1) n]] by simp_all
    have "does (times_do (pe_focus (inp n ?q)) (clear_from rest)) ?q"
    proof (rule does_times [OF q(1)])
      fix z assume z: "pass_inv z" "pass_kept ?q z"
      have "set rest \<subseteq> set (pp_order z)" using Cons.prems(2) kept_order [OF kept_tr [OF q(2) z(2)]] by auto
      then show "does (clear_from rest) z" by (rule Cons.IH [OF z(1)])
    qed
    then obtain z where z: "times_do (pe_focus (inp n ?q)) (clear_from rest) ?q = Some z" "pass_inv z" "pass_kept ?q z" by (auto simp: does_def)
    have "does (move_focus n) z" using move_does [OF z(2)] kept_order [OF kept_tr [OF q(2) z(3)] n] by simp
    then obtain y where y: "move_focus n z = Some y" "pass_inv y" "pass_kept z y" by (auto simp: does_def)
    show ?thesis
      by (rule does_some [OF y(2) kept_tr [OF kept_tr [OF q(2) z(3)] y(3)]]) (use 4 z(1) y(1) in \<open>simp add: Let_def\<close>)
  qed
qed

lemma clear_does: "pass_inv p \<Longrightarrow> does (clearPlaceholder k) p"
  using clear_from_does [of p "dropWhile (\<lambda>j. j \<noteq> k) (pp_order p)"] by (auto simp: does_def clearPlaceholder_def dest: set_dropWhileD)

lemma fold_mild:
  assumes "pass_inv p" "\<And>k x. k \<in> set ks \<Longrightarrow> k < length (pp_inputs p) \<and> (pe_password x = pe_password (inp k p) \<longrightarrow> mild f x)"
  shows "pass_inv (fold (upd_inp f) ks p)" "pass_kept p (fold (upd_inp f) ks p)"
proof -
  have "pass_inv (fold (upd_inp f) ks p) \<and> pass_kept p (fold (upd_inp f) ks p)" using assms
  proof (induction ks arbitrary: p)
    case Nil
    then show ?case by (simp add: kept_refl)
  next
    case (Cons k ks)
    have k: "k < length (pp_inputs p)" "mild f (inp k p)" using Cons.prems(2) [of k] by simp_all
    note u = mild_upd [OF Cons.prems(1) k]
    have "pass_inv (fold (upd_inp f) ks (upd_inp f k p)) \<and> pass_kept (upd_inp f k p) (fold (upd_inp f) ks (upd_inp f k p))"
    proof (rule Cons.IH [OF u(1)])
      fix j x assume j: "j \<in> set ks"
      then have "j < length (pp_inputs p)" using Cons.prems(2) [of j] by simp
      then have "pe_password (inp j (upd_inp f k p)) = pe_password (inp j p)" using u(2) by (simp add: pass_kept_def)
      then show "j < length (pp_inputs (upd_inp f k p)) \<and> (pe_password x = pe_password (inp j (upd_inp f k p)) \<longrightarrow> mild f x)"
        using Cons.prems(2) [of j x] j by simp
    qed
    then show ?case using kept_tr [OF u(2)] by simp
  qed
  then show "pass_inv (fold (upd_inp f) ks p)" "pass_kept p (fold (upd_inp f) ks p)" by simp_all
qed

lemma put_inv: "pass_inv p \<Longrightarrow> k < length (pp_inputs p) \<Longrightarrow> pass_inv (put_value v k p)"
proof -
  assume p: "pass_inv p" "k < length (pp_inputs p)"
  have "pass_ok (put_value v k p) j" if "pass_ok p j" "j < length (pp_inputs p)" for j
    using that by (cases "pe_textinput (inp j p)") (auto simp: pass_ok_def put_value_def cong: option.case_cong)
  then show ?thesis using p(1) by (auto simp: pass_inv_def put_value_def)
qed

lemma hooks_set_inv:
  assumes "pass_inv p" "k \<in> set (pp_order p)"
  shows "\<exists>q. hooks_set k v p = Some q \<and> pass_inv q"
proof -
  have k: "k < length (pp_inputs p)" by (rule inv_order [OF assms])
  have pv: "pass_inv (put_value v k p)" by (rule put_inv [OF assms(1) k])
  have sp: "\<exists>q. setPlaceholder k (put_value v k p) = Some q \<and> pass_inv q"
    using set_does [OF pv, of k] k assms(2) by (auto simp: does_def put_value_def)
  show ?thesis
  proof (cases "pe_enabled (inp k p) \<and> v \<noteq> [] \<and> pe_class (inp k p)")
    case False
    then show ?thesis using pv sp by (auto simp: hooks_set_def Let_def)
  next
    case c: True
    show ?thesis
    proof (cases "shows_hint (inp k p) \<and> pe_isText (inp k p)")
      case True
      then have last: "last (pp_order p) \<noteq> k" using assms(1) k by (simp add: pass_inv_def)
      obtain rest where rest: "dropWhile (\<lambda>j. j \<noteq> k) (pp_order p) = k # rest" using drop_to [OF assms(2)] by blast
      then have "last (k # rest) = last (pp_order p)" by (metis last_appendR list.simps(3) takeWhile_dropWhile_id)
      then obtain n r where n: "rest = n # r" using last by (cases rest) auto
      have "n \<in> set (dropWhile (\<lambda>j. j \<noteq> k) (pp_order p))" unfolding rest n by simp
      then have "n \<in> set (pp_order p)" using set_dropWhileD by fast
      then have nl: "n < length (pp_inputs p)" by (rule inv_order [OF assms(1)])
      have "pass_inv (swap_back k (Some n) p)" "n < length (pp_inputs (swap_back k (Some n) p))"
        using swap_does [OF assms(1) k nl] nl by (auto simp: pass_kept_def)
      then have "pass_inv (put_value v n (swap_back k (Some n) p))" by (rule put_inv)
      then show ?thesis using c True rest n by (simp add: hooks_set_def)
    next
      case False
      obtain q where q: "clearPlaceholder k p = Some q" "pass_inv q" "pass_kept p q" using clear_does [OF assms(1), of k] by (auto simp: does_def)
      have "k < length (pp_inputs q)" using k q(3) by (auto simp: pass_kept_def)
      then show ?thesis using c False q put_inv [OF q(2)] by (auto simp: hooks_set_def)
    qed
  qed
qed

lemma call_does:
  assumes "pass_inv p"
  shows "does ph_placeholder p"
proof (cases "pp_inputOk p \<and> pp_areaOk p")
  case True
  then show ?thesis using assms by (simp add: does_def ph_placeholder_def kept_refl)
next
  case False
  let ?ks = "ph_handled p"
  let ?b = "fold (upd_inp ph_bind) ?ks p"
  have ks: "set ?ks \<subseteq> set (pp_order p)" by (auto simp: ph_handled_def)
  have b: "pass_inv ?b" "pass_kept p ?b"
    using ks inv_order [OF assms] by (auto intro!: fold_mild [OF assms] simp: mild_def ph_bind_def)
  have "does (each_do trigger_blur ?ks) ?b"
  proof (rule does_each [OF b(1)])
    fix k q assume k: "k \<in> set ?ks" and q: "pass_inv q" "pass_kept ?b q"
    have "k \<in> set (pp_order q)" using k ks kept_order [OF kept_tr [OF b(2) q(2)]] by blast
    from blur_does [OF q(1) this] obtain z where z: "blur_handlers k q = Some z" "pass_inv z" "pass_kept q z" by (auto simp: does_def)
    have "pass_inv (z\<lparr>pp_active := None\<rparr>)" "pass_kept q (z\<lparr>pp_active := None\<rparr>)" using inv_active(1) [OF z(2)] kept_tr [OF z(3) kept_active] by simp_all
    then show "does (trigger_blur k) q" using z by (simp add: does_def trigger_blur_def)
  qed
  then show ?thesis using False kept_tr [OF b(2)] by (auto simp: does_def ph_placeholder_def)
qed

lemma submit_does:
  assumes "pass_inv p"
  shows "does ph_submit p"
proof (cases "pp_inputOk p \<and> pp_areaOk p")
  case True
  have "pass_inv (p\<lparr>pp_sent := z\<rparr>)" "pass_kept p (p\<lparr>pp_sent := z\<rparr>)" for z
    using assms by (simp_all add: pass_inv_def pass_ok_other pass_kept_def)
  then show ?thesis using True by (simp add: does_def ph_submit_def)
next
  case False
  let ?ks = "with_class p"
  have "does (each_do clearPlaceholder ?ks) p" by (rule does_each [OF assms]) (rule clear_does)
  then obtain q where q: "each_do clearPlaceholder ?ks p = Some q" "pass_inv q" "pass_kept p q" by (auto simp: does_def)
  have ks: "k < length (pp_inputs q) \<and> \<not> pe_password (inp k q)" if "k \<in> set ?ks" for k
  proof -
    have "k < length (pp_inputs p)" "pe_class (inp k p)" using that inv_order [OF assms] by (simp_all add: with_class_def)
    then show ?thesis using class_no_pass [OF assms] q(3) by (auto simp: pass_kept_def)
  qed
  let ?r = "q\<lparr>pp_timers := pp_timers q @ [?ks], pp_sent := pp_sent q @ [sent_values q]\<rparr>"
  have "pass_inv ?r" using q(2) ks by (auto simp: pass_inv_def pass_ok_other)
  moreover have "pass_kept p ?r" using q(3) by (simp add: pass_kept_def)
  ultimately show ?thesis using q(1) unfolding does_def ph_submit_def if_not_P [OF False] by simp
qed

lemma timer_does:
  assumes "pass_inv p"
  shows "does ph_timer p"
proof (cases "pp_timers p")
  case Nil
  then show ?thesis using assms by (simp add: does_def ph_timer_def kept_refl)
next
  case (Cons ks ts)
  let ?p = "p\<lparr>pp_timers := ts\<rparr>"
  have p: "pass_inv ?p" "pass_kept p ?p" using assms Cons by (simp_all add: pass_inv_def pass_ok_other pass_kept_def)
  have "does (each_do setPlaceholder ks) ?p"
  proof (rule does_each [OF p(1)])
    fix k q assume k: "k \<in> set ks" and q: "pass_inv q" "pass_kept ?p q"
    have "k < length (pp_inputs p)" "\<not> pe_password (inp k p)" using assms Cons k by (simp_all add: pass_inv_def)
    then show "does (setPlaceholder k) q" using q by (intro set_does) (auto simp: pass_kept_def)
  qed
  then show ?thesis using Cons kept_tr [OF p(2)] by (auto simp: does_def ph_timer_def)
qed

lemma unload_does:
  assumes "pass_inv p"
  shows "pass_inv (ph_unload p)" "pass_kept p (ph_unload p)"
proof -
  have "k < length (pp_inputs p) \<and> \<not> pe_password (inp k p)" if "k \<in> set (with_class p)" for k
    using that inv_order [OF assms] class_no_pass [OF assms] by (auto simp: with_class_def)
  then have "pass_inv (fold (put_value []) (with_class p) p)" "pass_kept p (fold (put_value []) (with_class p) p)"
    unfolding put_value_def using fold_mild [OF assms, of "with_class p" "\<lambda>x. x\<lparr>pe_value := []\<rparr>"] by (auto simp: mild_def)
  then show "pass_inv (ph_unload p)" "pass_kept p (ph_unload p)" using assms by (simp_all add: ph_unload_def kept_refl)
qed

lemma user_focus_does:
  assumes "pass_inv p"
  shows "does (user_focus k) p"
proof (cases "k \<notin> set (pp_order p) \<or> pp_active p = Some k \<or> pe_hidden (inp k p)")
  case True
  then show ?thesis using assms kept_refl unfolding does_def user_focus_def if_P [OF True] by blast
next
  case False
  then obtain q where q: "move_focus k p = Some q" "pass_inv q" "pass_kept p q" using move_does [OF assms] by (auto simp: does_def)
  have "does (times_do (pe_focus (inp k q)) (clearPlaceholder k)) q" by (rule does_times [OF q(2)]) (rule clear_does)
  then show ?thesis using q(1) kept_tr [OF q(3)] unfolding does_def user_focus_def if_not_P [OF False] by auto
qed

lemma quiet_does:
  assumes "pass_inv p" "\<And>v. e \<noteq> PhType v" "\<And>k v. e \<noteq> PhSet k v"
  shows "does (ph_step e) p"
proof (cases e)
  case PhBlur
  show ?thesis
  proof (cases "pp_active p")
    case None
    then show ?thesis using assms(1) PhBlur by (simp add: does_def ph_step_def kept_refl)
  next
    case (Some k)
    then show ?thesis using leave_does [OF assms(1) Some] PhBlur by (simp add: does_def ph_step_def)
  qed
next
  case PhCall
  then show ?thesis using call_does [OF assms(1)] by (simp add: does_def ph_step_def)
next
  case (PhFocus k)
  then show ?thesis using user_focus_does [OF assms(1)] by (simp add: does_def ph_step_def)
next
  case PhSubmit
  then show ?thesis using submit_does [OF assms(1)] by (simp add: does_def ph_step_def)
next
  case PhTimer
  then show ?thesis using timer_does [OF assms(1)] by (simp add: does_def ph_step_def)
next
  case PhUnload
  then show ?thesis using unload_does [OF assms(1)] by (simp add: does_def ph_step_def)
qed (use assms in auto)

lemma step_inv: "pass_inv p \<Longrightarrow> \<exists>q. ph_step e p = Some q \<and> pass_inv q"
proof -
  assume p: "pass_inv p"
  show ?thesis
  proof (cases "\<exists>v. e = PhType v")
    case True
    then show ?thesis using p put_inv [OF p inv_order [OF p]] by (auto simp: ph_step_def pass_inv_def split: option.split)
  next
    case nt: False
    show ?thesis
    proof (cases "\<exists>k v. e = PhSet k v")
      case True
      then show ?thesis using p hooks_set_inv [OF p] put_inv [OF p inv_order [OF p]] by (auto simp: ph_step_def ph_set_def)
    next
      case False
      then show ?thesis using quiet_does [OF p, of e] nt unfolding does_def by blast
    qed
  qed
qed

lemma run_inv: "pass_inv p \<Longrightarrow> \<exists>q. ph_run es p = Some q \<and> pass_inv q"
proof (induction es arbitrary: p)
  case (Cons e es)
  obtain q where "ph_step e p = Some q" "pass_inv q" using step_inv [OF Cons.prems] by blast
  then show ?case using Cons.IH by (simp add: ph_run_def)
qed (simp add: ph_run_def)

text \<open>A page before the plugin is called, with passwords.\<close>

definition start_page :: "ph_page \<Rightarrow> bool" where
  "start_page p \<longleftrightarrow> distinct (pp_order p) \<and> list_all (\<lambda>k. k < length (pp_inputs p)) (pp_order p)
     \<and> list_all (\<lambda>x. \<not> pe_isText x \<and> pe_textinput x = None \<and> (pe_password x \<longrightarrow> \<not> pe_class x)) (pp_inputs p) \<and> pp_active p = None \<and> pp_timers p = []"

lemma start_pass: "start_page p \<Longrightarrow> pass_inv p"
  by (auto simp: start_page_def pass_inv_def pass_ok_def list_all_iff inp_def)

text \<open>
  C11: On every page, with passwords too, whatever happened before - calls of the plugin at any time, events in any order: no
  function raises an exception, and no event but the user's typing and \<open>val\<close> changes the value, the name or the type of a password. The
  placeholder of a password is shown in an input of its own and never in the password.
\<close>
theorem passwords_untouched:
  assumes "start_page p0" "\<And>v. e \<noteq> PhType v" "\<And>k v. e \<noteq> PhSet k v"
  shows "\<exists>p q. ph_run es p0 = Some p \<and> ph_step e p = Some q
    \<and> (\<forall>k < length (pp_inputs p). pe_password (inp k q) = pe_password (inp k p)
         \<and> (pe_password (inp k p) \<longrightarrow> \<not> pe_class (inp k q) \<and> pe_value (inp k q) = pe_value (inp k p) \<and> pe_name (inp k q) = pe_name (inp k p)))"
proof -
  obtain p where p: "ph_run es p0 = Some p" "pass_inv p" using run_inv [OF start_pass [OF assms(1)]] by blast
  obtain q where q: "ph_step e p = Some q" "pass_inv q" "pass_kept p q" using quiet_does [OF p(2) assms(2,3)] by (auto simp: does_def)
  have "\<not> pe_class (inp k q)" if "k < length (pp_inputs p)" "pe_password (inp k p)" for k
    using q(2,3) that by (auto simp: pass_kept_def pass_inv_def pass_ok_def)
  then show ?thesis using p(1) q(1,3) by (auto simp: pass_kept_def)
qed

definition demo_pass :: ph_page where
  "demo_pass = demo_form\<lparr>pp_inputs := [demo_input, demo_input\<lparr>pe_password := True, pe_hint := Some ''Pass''\<rparr>,
     demo_input\<lparr>pe_password := True, pe_hint := Some ''Again''\<rparr>], pp_order := [0, 1, 2]\<rparr>"

lemma passwords_untouched_witness:
  "\<exists>p q. ph_run [PhCall, PhFocus 1, PhType ''x''] demo_pass = Some p \<and> ph_step PhSubmit p = Some q
    \<and> (\<forall>k < length (pp_inputs p). pe_password (inp k q) = pe_password (inp k p)
         \<and> (pe_password (inp k p) \<longrightarrow> \<not> pe_class (inp k q) \<and> pe_value (inp k q) = pe_value (inp k p) \<and> pe_name (inp k q) = pe_name (inp k p)))"
proof -
  have "start_page demo_pass" by code_simp
  then show ?thesis using passwords_untouched [of demo_pass PhSubmit "[PhCall, PhFocus 1, PhType ''x'']"] by blast
qed

text \<open>
  Focusing the text shows the password; leaving it empty brings the text back, with the id.
\<close>

lemma password_example:
  "map_option (\<lambda>q. (pp_order q, pp_active q, map pe_hidden (pp_inputs q), map pe_id (pp_inputs q))) (ph_run [PhCall, PhFocus 3] demo_pass)
     = Some ([0, 3, 1, 4, 2], Some 1, [False, False, True, True, False], [''n'', ''n'', [], [], ''n''])
   \<and> map_option (\<lambda>q. (pp_active q, map pe_hidden (pp_inputs q))) (ph_run [PhCall, PhFocus 3, PhBlur] demo_pass)
     = Some (None, [False, True, True, False, False])"
  by code_simp

text \<open>
  A form is sent from an empty input while a password shows its placeholder: clearing it moves the focus, the blur
  puts the placeholder into the text input that was not in the list, and the placeholder is sent.
\<close>

theorem placeholder_is_sent:
  "map_option (\<lambda>q. pp_sent q) (ph_run [PhCall, PhFocus 0, PhSubmit] demo_pass) = Some [[(0, ''Name''), (1, []), (2, [])]]"
  by code_simp

text \<open>
  After a submit that does not leave the page, the text of the first password is shown without its class: what is typed there stays
  there, and the password is sent empty.
\<close>

theorem password_is_lost:
  "map_option (\<lambda>q. (pe_value (inp 3 q), pp_sent q)) (ph_run [PhCall, PhSubmit, PhTimer, PhFocus 3, PhType ''secret'', PhSubmit] demo_pass)
   = Some (''secret'', [[(0, []), (1, []), (2, [])], [(0, []), (1, []), (2, [])]])"
  by code_simp

text \<open>A password that is set with \<open>val\<close> stays behind its placeholder.\<close>

theorem set_password_hidden:
  "map_option (\<lambda>q. (pe_value (inp 1 q), pe_hidden (inp 1 q), pe_value (inp 3 q), pe_hidden (inp 3 q))) (ph_run [PhCall, PhSet 1 ''secret''] demo_pass)
   = Some (''secret'', True, ''Pass'', False)"
  by code_simp

end
